(* ===== verification/Rm_Prelude.thy ===== *)
theory Rm_Prelude
  imports Main "HOL-Library.Word" "HOL-Library.Multiset"
begin

text \<open>
  What the theories of the development share: the ways a C operation can fail, the sum
  result type and its sequencing, 32-bit and 64-bit arithmetic on natural numbers, chains
  of linked nodes in a heap of pointers, and consecutive extents of memory (tilings).

  Addresses are natural numbers; 0 is the null pointer.
\<close>

named_theorems heap_simps "reads of a field after a write to the heap"
named_theorems frame_simps "what an operation leaves unchanged"

section \<open>Results of C operations\<close>

text \<open>
  An operation either returns normally (\<open>Inr\<close>) or stops in one of these ways: a call of
  \<open>abort()\<close>, the use of a null pointer, an access outside of an array or of the heap, a
  signed overflow, or a loop that goes on forever.
\<close>

datatype fault = Abort | Null_deref | Out_of_bounds | Int_overflow | Diverge

type_synonym 'a res = "fault + 'a"

definition bind_res :: "'a res \<Rightarrow> ('a \<Rightarrow> 'b res) \<Rightarrow> 'b res" where
  "bind_res m f = (case m of Inl e \<Rightarrow> Inl e | Inr x \<Rightarrow> f x)"

lemma bind_res_simps [simp]:
  "bind_res (Inl e) f = Inl e"
  "bind_res (Inr x) f = f x"
  by (simp_all add: bind_res_def)

lemma bind_res_Inr_iff: "bind_res m f = Inr y \<longleftrightarrow> (\<exists>x. m = Inr x \<and> f x = Inr y)"
  by (cases m) auto

lemma bind_res_Inl_iff:
  "bind_res m f = Inl e \<longleftrightarrow> m = Inl e \<or> (\<exists>x. m = Inr x \<and> f x = Inl e)"
  by (cases m) auto

lemma bind_res_cong [fundef_cong]:
  "m = m' \<Longrightarrow> (\<And>x. m' = Inr x \<Longrightarrow> f x = g x) \<Longrightarrow> bind_res m f = bind_res m' g"
  by (cases m') auto

section \<open>Machine arithmetic on natural numbers\<close>

definition u32 :: "nat \<Rightarrow> nat" where
  "u32 n = n mod 2 ^ 32"

definition u64 :: "nat \<Rightarrow> nat" where
  "u64 n = n mod 2 ^ 64"

lemma u32_small [simp]: "n < 2 ^ 32 \<Longrightarrow> u32 n = n"
  by (simp add: u32_def)

lemma u64_small [simp]: "n < 2 ^ 64 \<Longrightarrow> u64 n = n"
  by (simp add: u64_def)

lemma u32_less: "u32 n < 2 ^ 32"
  by (simp add: u32_def)

lemma u64_less: "u64 n < 2 ^ 64"
  by (simp add: u64_def)

text \<open>The conversion of a C \<open>int\<close> to the 64-bit unsigned \<open>uintptr_t\<close> extends the sign.\<close>

definition uintptr_of_int :: "int \<Rightarrow> nat" where
  "uintptr_of_int i = nat (i mod 2 ^ 64)"

lemma uintptr_of_int_nonneg: "0 \<le> i \<Longrightarrow> i < 2 ^ 31 \<Longrightarrow> uintptr_of_int i = nat i"
  by (simp add: uintptr_of_int_def)

lemma uintptr_of_int_neg:
  assumes "i < 0" and "- (2 ^ 31) \<le> i"
  shows "uintptr_of_int i = 2 ^ 64 - nat (- i)"
proof -
  have "i mod 2 ^ 64 = (i + 2 ^ 64) mod 2 ^ 64" by simp
  also have "\<dots> = i + 2 ^ 64" by (rule mod_pos_pos_trivial) (use assms in simp_all)
  finally show ?thesis using assms by (simp add: uintptr_of_int_def)
qed

text \<open>The conversion of a 32-bit unsigned number to a C \<open>int\<close> keeps the bits.\<close>

definition int_of_u32 :: "nat \<Rightarrow> int" where
  "int_of_u32 n = (if u32 n < 2 ^ 31 then int (u32 n) else int (u32 n) - 2 ^ 32)"

section \<open>Chains of linked nodes\<close>

text \<open>
  A loop over a list gets \<open>2 ^ 64\<close> units of fuel. The nodes of a list that ends have distinct
  64-bit addresses, so a loop that runs out of fuel follows a cycle and does not end.
\<close>

definition list_fuel :: nat where
  "list_fuel = 2 ^ 64"

text \<open>
  \<open>chain nx p xs q\<close>: following the link field \<open>nx\<close> from \<open>p\<close> visits the nodes \<open>xs\<close>, none
  of them null, and arrives at \<open>q\<close>. A C list is a chain that arrives at the null pointer.
\<close>

fun chain :: "(nat \<Rightarrow> nat) \<Rightarrow> nat \<Rightarrow> nat list \<Rightarrow> nat \<Rightarrow> bool" where
  "chain nx p [] q \<longleftrightarrow> p = q"
| "chain nx p (x # xs) q \<longleftrightarrow> x = p \<and> p \<noteq> 0 \<and> chain nx (nx p) xs q"

lemma chain_append:
  "chain nx p (xs @ ys) q \<longleftrightarrow> (\<exists>r. chain nx p xs r \<and> chain nx r ys q)"
  by (induction xs arbitrary: p) auto

lemma chain_cong: "(\<And>x. x \<in> set xs \<Longrightarrow> nx x = ny x) \<Longrightarrow> chain nx p xs q = chain ny p xs q"
  by (induction xs arbitrary: p) auto

lemma chain_write_outside [simp]:
  "a \<notin> set xs \<Longrightarrow> chain (nx(a := v)) p xs q = chain nx p xs q"
  by (rule chain_cong) auto

lemma chain_null_start [simp]: "chain nx 0 xs q \<longleftrightarrow> xs = [] \<and> q = 0"
  by (cases xs) auto

lemma chain_nonnull: "chain nx p xs q \<Longrightarrow> x \<in> set xs \<Longrightarrow> x \<noteq> 0"
  by (induction xs arbitrary: p) auto

lemma chain_hd: "chain nx p xs q \<Longrightarrow> xs \<noteq> [] \<Longrightarrow> hd xs = p"
  by (cases xs) auto

lemma chain_start_cases:
  assumes "chain nx p xs 0" and "p \<noteq> 0"
  obtains ys where "xs = p # ys" and "chain nx (nx p) ys 0"
  using assms by (cases xs) auto

lemma chain_functional: "chain nx p xs 0 \<Longrightarrow> chain nx p ys 0 \<Longrightarrow> xs = ys"
proof (induction xs arbitrary: p ys)
  case Nil
  then show ?case by simp
next
  case (Cons x xs)
  then show ?case by (cases ys) auto
qed

lemma chain_prefix_end: "chain nx p (xs @ x # ys) q \<Longrightarrow> chain nx p xs x"
  by (auto simp: chain_append)

lemma chain_null_distinct: "chain nx p xs 0 \<Longrightarrow> distinct xs"
proof (induction xs arbitrary: p)
  case Nil
  then show ?case by simp
next
  case (Cons x xs)
  then have c: "chain nx (nx x) xs 0" and p: "p = x" "x \<noteq> 0" by auto
  have "x \<notin> set xs"
  proof
    assume "x \<in> set xs"
    then obtain as bs where xs: "xs = as @ x # bs" by (meson split_list)
    with c have "chain nx x (x # bs) 0" by (auto simp: chain_append)
    moreover from Cons.prems p have "chain nx x (x # xs) 0" by simp
    ultimately have "x # bs = x # xs" by (rule chain_functional)
    with xs show False by (simp add: append_eq_Cons_conv)
  qed
  with Cons.IH [OF c] show ?case by simp
qed

lemma chain_snoc_link:
  "chain nx p xs x \<Longrightarrow> x \<noteq> 0 \<Longrightarrow> x \<notin> set xs \<Longrightarrow> chain (nx(x := v)) p (xs @ [x]) v"
  by (simp add: chain_append)

lemma chain_step: "chain nx p (xs @ x # ys) q \<Longrightarrow> chain nx (nx x) ys q"
  by (auto simp: chain_append)

lemma chain_middle: "chain nx p (xs @ x # y # ys) q \<Longrightarrow> nx x = y"
  by (auto simp: chain_append)

lemma chain_last: "chain nx p (xs @ [x]) q \<Longrightarrow> nx x = q"
  by (auto simp: chain_append)

text \<open>A chain of distinct addresses below \<open>2 ^ 64\<close> has fewer than \<open>2 ^ 64\<close> nodes.\<close>

lemma distinct_bounded_length:
  assumes "distinct xs" and "\<And>x. x \<in> set xs \<Longrightarrow> 0 < x \<and> x < n" and "0 < n"
  shows "length xs < (n::nat)"
proof -
  have "set xs \<subseteq> {1..<n}" using assms(2) by fastforce
  then have "card (set xs) \<le> card {1..<n}" by (intro card_mono) auto
  with assms(1,3) show ?thesis by (simp add: distinct_card)
qed

section \<open>Tilings\<close>

text \<open>
  \<open>tiled lo hi es\<close>: the extents \<open>es\<close> (start and length) lie one behind the other and fill the
  addresses from \<open>lo\<close> up to \<open>hi\<close> exactly.
\<close>

fun tiled :: "nat \<Rightarrow> nat \<Rightarrow> (nat \<times> nat) list \<Rightarrow> bool" where
  "tiled lo hi [] \<longleftrightarrow> lo = hi"
| "tiled lo hi (e # es) \<longleftrightarrow> fst e = lo \<and> tiled (lo + snd e) hi es"

lemma tiled_append:
  "tiled lo hi (es @ fs) \<longleftrightarrow> (\<exists>mid. tiled lo mid es \<and> tiled mid hi fs)"
  by (induction es arbitrary: lo) auto

lemma tiled_sum: "tiled lo hi es \<Longrightarrow> hi = lo + sum_list (map snd es)"
proof (induction es arbitrary: lo)
  case Nil
  then show ?case by simp
next
  case (Cons e es)
  then have "hi = lo + snd e + sum_list (map snd es)" by simp
  then show ?case by simp
qed

lemma tiled_le: "tiled lo hi es \<Longrightarrow> lo \<le> hi"
  by (drule tiled_sum) simp

lemma tiled_bounds: "tiled lo hi es \<Longrightarrow> e \<in> set es \<Longrightarrow> lo \<le> fst e \<and> fst e + snd e \<le> hi"
proof (induction es arbitrary: lo)
  case Nil
  then show ?case by simp
next
  case (Cons d ds)
  then have t: "tiled (lo + snd d) hi ds" and d: "fst d = lo" by auto
  show ?case
  proof (cases "e = d")
    case True
    with t d show ?thesis by (auto dest: tiled_le)
  next
    case False
    with Cons.prems have "e \<in> set ds" by simp
    from Cons.IH [OF t this] show ?thesis by simp
  qed
qed

definition disjoint_extents :: "nat \<times> nat \<Rightarrow> nat \<times> nat \<Rightarrow> bool" where
  "disjoint_extents d e \<longleftrightarrow> fst d + snd d \<le> fst e \<or> fst e + snd e \<le> fst d"

lemma tiled_disjoint:
  assumes "tiled lo hi es" and "i < j" and "j < length es"
  shows "fst (es ! i) + snd (es ! i) \<le> fst (es ! j)"
  using assms
proof (induction es arbitrary: lo i j)
  case Nil
  then show ?case by simp
next
  case (Cons e es)
  then obtain j' where j: "j = Suc j'" by (cases j) auto
  show ?case
  proof (cases i)
    case 0
    have "es ! j' \<in> set es" using Cons.prems j by simp
    with Cons.prems(1) have "lo + snd e \<le> fst (es ! j')" by (auto dest: tiled_bounds)
    with 0 j Cons.prems show ?thesis by simp
  next
    case (Suc i')
    with Cons.IH [of "lo + snd e" i' j'] Cons.prems j show ?thesis by simp
  qed
qed

end
