(* ===== verification/Rm_Heap.thy ===== *)
theory Rm_Heap
  imports Rm_Prelude
begin

text \<open>
  The data of the compacting allocator (\<open>src/jeff/compact_internal.h\<close>) on a 64-bit target:
  block types, headers, free blocks, the meta block and the memory they live in; and the two
  address computations every other part uses, \<open>rm_log2\<close> and \<open>rm_block_from_header\<close>.

  The client's heap is one array of bytes that the code reads at three types. The state keeps
  one map for each of them, as a typed heap: \<open>hdr\<close> for the headers, \<open>blk\<close> for the
  \<open>free_memory_block_t\<close> at the end of a free block, \<open>mem\<close> for the bytes of the blocks; \<open>slots\<close> is
  the array of list heads at the bottom of the heap. A cell lies inside of a block, so that a write
  to a cell is also a write to the sixteen bytes it occupies.
\<close>

section \<open>Types\<close>

datatype rm_block_type_t =
    BLOCK_TYPE_FREE
  | BLOCK_TYPE_UNLOCKED
  | BLOCK_TYPE_LOCKED
  | BLOCK_TYPE_WEAK_LOCKED

record rm_header_t =
  h_memory :: nat
  h_size :: nat
  h_type :: rm_block_type_t
  h_next :: nat
  h_next_unused :: nat

record free_memory_block_t =
  b_header :: nat
  b_next :: nat

record rmalloc_meta_t =
  memory_bottom :: nat
  memory_top :: nat
  memory_size :: nat
  free_block_slots :: nat
  free_block_slot_count :: nat
  free_block_hits :: int
  free_block_alloc :: nat
  header_top :: nat
  header_bottom :: nat
  header_root :: nat
  header_used_count :: int
  last_free_header :: nat
  unused_header_root :: nat
  highest_address_header :: nat

record rm_state = rmalloc_meta_t +
  slots :: "nat list"
  hdr :: "nat \<Rightarrow> rm_header_t"
  blk :: "nat \<Rightarrow> free_memory_block_t"
  mem :: "nat \<Rightarrow> 8 word"

text \<open>
  Sizes on the 64-bit target: the header is packed (8 + 4 + 1 + 8 + 8 bytes), a free block
  is two pointers.
\<close>

abbreviation sizeof_ptr :: nat where
  "sizeof_ptr \<equiv> 8"

abbreviation sizeof_rm_header_t :: nat where
  "sizeof_rm_header_t \<equiv> 29"

abbreviation sizeof_free_memory_block_t :: nat where
  "sizeof_free_memory_block_t \<equiv> 16"

text \<open>The value of the enumeration's constants orders the block types.\<close>

fun block_type_value :: "rm_block_type_t \<Rightarrow> nat" where
  "block_type_value BLOCK_TYPE_FREE = 0"
| "block_type_value BLOCK_TYPE_UNLOCKED = 1"
| "block_type_value BLOCK_TYPE_LOCKED = 2"
| "block_type_value BLOCK_TYPE_WEAK_LOCKED = 3"

lemma block_type_value_inj: "block_type_value x = block_type_value y \<Longrightarrow> x = y"
  by (cases x; cases y) auto

instantiation rm_block_type_t :: linorder
begin

definition less_eq_rm_block_type_t :: "rm_block_type_t \<Rightarrow> rm_block_type_t \<Rightarrow> bool" where
  "less_eq_rm_block_type_t x y \<longleftrightarrow> block_type_value x \<le> block_type_value y"

definition less_rm_block_type_t :: "rm_block_type_t \<Rightarrow> rm_block_type_t \<Rightarrow> bool" where
  "less_rm_block_type_t x y \<longleftrightarrow> block_type_value x < block_type_value y"

instance
  by standard
    (auto simp: less_eq_rm_block_type_t_def less_rm_block_type_t_def block_type_value_inj)

end

section \<open>Field updates\<close>

definition upd_hdr :: "nat \<Rightarrow> (rm_header_t \<Rightarrow> rm_header_t) \<Rightarrow> rm_state \<Rightarrow> rm_state" where
  "upd_hdr h f s = s\<lparr>hdr := (hdr s)(h := f (hdr s h))\<rparr>"

text \<open>
  The bytes of a cell: two pointers, the low byte first. \<open>cell_stored m b c\<close> says that the bytes \<open>m\<close>
  have the cell \<open>c\<close> at \<open>b\<close>.
\<close>

definition cell_byte :: "free_memory_block_t \<Rightarrow> nat \<Rightarrow> 8 word" where
  "cell_byte c i =
     (if i < sizeof_ptr then word_of_nat (b_header c div 256 ^ i)
      else word_of_nat (b_next c div 256 ^ (i - sizeof_ptr)))"

definition store_cell ::
  "nat \<Rightarrow> free_memory_block_t \<Rightarrow> (nat \<Rightarrow> 8 word) \<Rightarrow> nat \<Rightarrow> 8 word" where
  "store_cell b c m =
     (\<lambda>a. if b \<le> a \<and> a < b + sizeof_free_memory_block_t then cell_byte c (a - b) else m a)"

definition cell_stored :: "(nat \<Rightarrow> 8 word) \<Rightarrow> nat \<Rightarrow> free_memory_block_t \<Rightarrow> bool" where
  "cell_stored m b c \<longleftrightarrow> (\<forall>i < sizeof_free_memory_block_t. m (b + i) = cell_byte c i)"

lemma store_cell_stored [simp]: "cell_stored (store_cell b c m) b c"
  by (simp add: cell_stored_def store_cell_def)

lemma store_cell_again [simp]: "store_cell b c (store_cell b d m) = store_cell b c m"
  by (simp add: store_cell_def fun_eq_iff)

lemma store_cell_else:
  "a < b \<or> b + sizeof_free_memory_block_t \<le> a \<Longrightarrow> store_cell b c m a = m a"
  by (auto simp: store_cell_def)

lemma cell_stored_cong:
  "(\<And>i. i < sizeof_free_memory_block_t \<Longrightarrow> m' (b + i) = m (b + i)) \<Longrightarrow>
   cell_stored m' b c \<longleftrightarrow> cell_stored m b c"
  by (simp add: cell_stored_def)

lemma cell_stored_apart:
  assumes "b + sizeof_free_memory_block_t \<le> a \<or> a + sizeof_free_memory_block_t \<le> b"
  shows "cell_stored (store_cell a d m) b c \<longleftrightarrow> cell_stored m b c"
  using assms by (intro cell_stored_cong store_cell_else) auto

text \<open>A write to a cell, in the view of cells and in that of bytes.\<close>

definition upd_blk ::
  "nat \<Rightarrow> (free_memory_block_t \<Rightarrow> free_memory_block_t) \<Rightarrow> rm_state \<Rightarrow> rm_state" where
  "upd_blk b f s =
     s\<lparr>blk := (blk s)(b := f (blk s b)), mem := store_cell b (f (blk s b)) (mem s)\<rparr>"

lemma upd_hdr_sel [simp]:
  "hdr (upd_hdr h f s) = (hdr s)(h := f (hdr s h))"
  "blk (upd_hdr h f s) = blk s"
  "mem (upd_hdr h f s) = mem s"
  "slots (upd_hdr h f s) = slots s"
  "memory_bottom (upd_hdr h f s) = memory_bottom s"
  "memory_top (upd_hdr h f s) = memory_top s"
  "memory_size (upd_hdr h f s) = memory_size s"
  "free_block_slots (upd_hdr h f s) = free_block_slots s"
  "free_block_slot_count (upd_hdr h f s) = free_block_slot_count s"
  "free_block_hits (upd_hdr h f s) = free_block_hits s"
  "free_block_alloc (upd_hdr h f s) = free_block_alloc s"
  "header_top (upd_hdr h f s) = header_top s"
  "header_bottom (upd_hdr h f s) = header_bottom s"
  "header_root (upd_hdr h f s) = header_root s"
  "header_used_count (upd_hdr h f s) = header_used_count s"
  "last_free_header (upd_hdr h f s) = last_free_header s"
  "unused_header_root (upd_hdr h f s) = unused_header_root s"
  "highest_address_header (upd_hdr h f s) = highest_address_header s"
  by (simp_all add: upd_hdr_def)

lemma upd_blk_sel [simp]:
  "hdr (upd_blk b g s) = hdr s"
  "blk (upd_blk b g s) = (blk s)(b := g (blk s b))"
  "mem (upd_blk b g s) = store_cell b (g (blk s b)) (mem s)"
  "slots (upd_blk b g s) = slots s"
  "memory_bottom (upd_blk b g s) = memory_bottom s"
  "memory_top (upd_blk b g s) = memory_top s"
  "memory_size (upd_blk b g s) = memory_size s"
  "free_block_slots (upd_blk b g s) = free_block_slots s"
  "free_block_slot_count (upd_blk b g s) = free_block_slot_count s"
  "free_block_hits (upd_blk b g s) = free_block_hits s"
  "free_block_alloc (upd_blk b g s) = free_block_alloc s"
  "header_top (upd_blk b g s) = header_top s"
  "header_bottom (upd_blk b g s) = header_bottom s"
  "header_root (upd_blk b g s) = header_root s"
  "header_used_count (upd_blk b g s) = header_used_count s"
  "last_free_header (upd_blk b g s) = last_free_header s"
  "unused_header_root (upd_blk b g s) = unused_header_root s"
  "highest_address_header (upd_blk b g s) = highest_address_header s"
  by (simp_all add: upd_blk_def)

text \<open>The three linked lists of the heap as link fields.\<close>

abbreviation nxt :: "rm_state \<Rightarrow> nat \<Rightarrow> nat" where
  "nxt s \<equiv> \<lambda>h. h_next (hdr s h)"

abbreviation bnxt :: "rm_state \<Rightarrow> nat \<Rightarrow> nat" where
  "bnxt s \<equiv> \<lambda>b. b_next (blk s b)"

text \<open>The extent of memory a header describes.\<close>

definition extent :: "rm_state \<Rightarrow> nat \<Rightarrow> nat \<times> nat" where
  "extent s h = (h_memory (hdr s h), h_size (hdr s h))"

lemma extent_sel [simp]:
  "fst (extent s h) = h_memory (hdr s h)"
  "snd (extent s h) = h_size (hdr s h)"
  by (simp_all add: extent_def)

section \<open>Block sizes and block positions\<close>

text \<open>\<open>__builtin_clz\<close>: the number of leading zero bits of a 32-bit word, from bit 31 down.\<close>

fun clz_from :: "nat \<Rightarrow> nat \<Rightarrow> nat" where
  "clz_from n 0 = 32"
| "clz_from n (Suc i) = (if odd (n div 2 ^ i) then 31 - i else clz_from n i)"

definition builtin_clz :: "nat \<Rightarrow> nat" where
  "builtin_clz n = clz_from n 32"

definition rm_log2 :: "nat \<Rightarrow> nat" where
  "rm_log2 n = u32 (4 * 8 - 1 + 2 ^ 32 - builtin_clz n)"

definition rm_block_from_header :: "rm_state \<Rightarrow> nat \<Rightarrow> nat" where
  "rm_block_from_header s header =
     h_memory (hdr s header) + h_size (hdr s header) - sizeof_free_memory_block_t"

lemma clz_from_found:
  assumes "2 ^ k \<le> n" and "n < 2 ^ Suc k"
  shows "k < i \<Longrightarrow> clz_from n i = 31 - k"
proof (induction i)
  case 0
  then show ?case by simp
next
  case (Suc i)
  show ?case
  proof (cases "i = k")
    case True
    have "n div 2 ^ k = 1"
      using assms by (intro div_nat_eqI) simp_all
    with True show ?thesis by simp
  next
    case False
    with Suc.prems have "k < i" by simp
    then have "(2::nat) ^ Suc k \<le> 2 ^ i" by (intro power_increasing) simp_all
    with assms(2) have "n div 2 ^ i = 0" by simp
    with Suc.IH [OF \<open>k < i\<close>] show ?thesis by simp
  qed
qed

lemma rm_log2_eqI:
  assumes "2 ^ k \<le> n" and "n < 2 ^ Suc k" and "k < 32"
  shows "rm_log2 n = k"
  using clz_from_found [OF assms(1,2,3)] assms(3)
  by (simp add: rm_log2_def builtin_clz_def u32_def)

lemma log2_exists:
  assumes "0 < n" and "n < 2 ^ m"
  shows "\<exists>k<m. 2 ^ k \<le> n \<and> n < (2::nat) ^ Suc k"
  using assms(2)
proof (induction m)
  case 0
  with assms(1) show ?case by simp
next
  case (Suc m)
  show ?case
  proof (cases "n < 2 ^ m")
    case True
    with Suc.IH show ?thesis using less_SucI by blast
  next
    case False
    with Suc.prems show ?thesis by (intro exI [of _ m]) simp
  qed
qed

lemma rm_log2_bounds:
  assumes "0 < n" and "n < 2 ^ 32"
  shows "2 ^ rm_log2 n \<le> n" and "n < 2 ^ Suc (rm_log2 n)" and "rm_log2 n < 32"
proof -
  obtain k where k: "k < 32" "2 ^ k \<le> n" "n < 2 ^ Suc k"
    using log2_exists [OF assms] by blast
  with rm_log2_eqI have "rm_log2 n = k" by blast
  with k show "2 ^ rm_log2 n \<le> n" and "n < 2 ^ Suc (rm_log2 n)" and "rm_log2 n < 32" by auto
qed

lemma rm_log2_mono:
  assumes "0 < m" and "m \<le> n" and "n < 2 ^ 32"
  shows "rm_log2 m \<le> rm_log2 n"
proof (rule ccontr)
  assume "\<not> rm_log2 m \<le> rm_log2 n"
  then have "(2::nat) ^ Suc (rm_log2 n) \<le> 2 ^ rm_log2 m" by (intro power_increasing) auto
  also have "\<dots> \<le> m" using assms by (intro rm_log2_bounds) auto
  also have "\<dots> \<le> n" by (rule assms)
  also have "\<dots> < 2 ^ Suc (rm_log2 n)" using assms by (intro rm_log2_bounds) auto
  finally show False by simp
qed

text \<open>
  \<open>1 << n\<close> on a 32-bit \<open>int\<close>, widened to \<open>uintptr_t\<close>: the shift count is taken modulo 32 and
  the sign is extended, as on x86.
\<close>

definition int_shl1 :: "nat \<Rightarrow> nat" where
  "int_shl1 n = (if n mod 32 = 31 then 2 ^ 64 - 2 ^ 31 else 2 ^ (n mod 32))"

lemma int_shl1_small [simp]: "n < 31 \<Longrightarrow> int_shl1 n = 2 ^ n"
  by (simp add: int_shl1_def)

end
