(* ===== verification/Rm_Header.thy ===== *)
theory Rm_Header
  imports Rm_Heap
begin

text \<open>
  The header pool of \<open>src/jeff/compact.c\<close>: clearing a header, giving one back
  (\<open>header_set_unused\<close>), finding a free one (\<open>rm_header_find_free\<close>) and taking one into
  use (\<open>header_new\<close>), in the default configuration \<open>JEFF_MAX_RAM_VS_SLOWER_MALLOC == 0\<close>.
\<close>

section \<open>Operations\<close>

definition rm_header_is_unused :: "rm_state \<Rightarrow> nat \<Rightarrow> bool" where
  "rm_header_is_unused s header \<longleftrightarrow> header \<noteq> 0 \<and> h_memory (hdr s header) = 0"

definition header_clear :: "nat \<Rightarrow> rm_state \<Rightarrow> rm_state" where
  "header_clear h s =
     upd_hdr h (\<lambda>x. x\<lparr>h_memory := 0, h_size := 0, h_next := 0, h_next_unused := 0\<rparr>) s"

definition header_set_unused :: "nat \<Rightarrow> rm_state \<Rightarrow> rm_state" where
  "header_set_unused header s =
     (let s1 = header_clear header s;
          s2 = (if unused_header_root s1 = 0 then s1\<lparr>unused_header_root := header\<rparr>
                else (upd_hdr header (\<lambda>x. x\<lparr>h_next_unused := unused_header_root s1\<rparr>) s1)
                       \<lparr>unused_header_root := header\<rparr>)
      in upd_hdr (unused_header_root s2) (\<lambda>x. x\<lparr>h_next_unused := 0\<rparr>) s2)"

definition rm_header_find_free :: "rm_state \<Rightarrow> nat \<times> rm_state" where
  "rm_header_find_free s =
     (if unused_header_root s \<noteq> 0 then
        let h = unused_header_root s
        in (h, s\<lparr>unused_header_root := h_next_unused (hdr s h)\<rparr>)
      else if header_bottom s - 2 * sizeof_rm_header_t > memory_top s then
        let s1 = s\<lparr>header_bottom := header_bottom s - sizeof_rm_header_t\<rparr>;
            h = header_bottom s1
        in (h, header_clear h s1)
      else (0, s))"

definition header_new :: "bool \<Rightarrow> rm_state \<Rightarrow> nat \<times> rm_state" where
  "header_new insert_in_list s =
     (let (header, s1) = rm_header_find_free s in
      if header = 0 then (0, s1)
      else
        let s2 = upd_hdr header (\<lambda>x. x\<lparr>h_type := BLOCK_TYPE_UNLOCKED, h_memory := 0\<rparr>) s1 in
        if insert_in_list then
          if (nxt s2 header < header_bottom s2 \<or> nxt s2 header > header_top s2)
             \<and> header \<noteq> header_root s2
          then (header, (upd_hdr header (\<lambda>x. x\<lparr>h_next := header_root s2\<rparr>) s2)
                          \<lparr>header_root := header\<rparr>)
          else (header, s2)
        else (header, upd_hdr header (\<lambda>x. x\<lparr>h_next := 0\<rparr>) s2))"

definition update_highest_address_if_needed :: "nat \<Rightarrow> rm_state \<Rightarrow> rm_state" where
  "update_highest_address_if_needed h s =
     (if h \<noteq> 0 then s\<lparr>highest_address_header := h\<rparr> else s)"

section \<open>Header slots\<close>

text \<open>
  The headers are an array that grows down from \<open>header_top\<close>. \<open>header_slot s h\<close>: \<open>h\<close> is the
  address of an element of the array as far as it has been handed out.
\<close>

definition header_slot :: "rm_state \<Rightarrow> nat \<Rightarrow> bool" where
  "header_slot s h \<longleftrightarrow>
     header_bottom s \<le> h \<and> h \<le> header_top s \<and> sizeof_rm_header_t dvd (header_top s - h)"

lemma header_slots_apart:
  assumes "header_slot s g" and "header_slot s h" and "g < h"
  shows "g + sizeof_rm_header_t \<le> h"
proof -
  have "header_top s - g = (header_top s - h) + (h - g)"
    using assms by (simp add: header_slot_def)
  with assms have "29 dvd (h - g)"
    by (metis dvd_add_right_iff header_slot_def)
  with \<open>g < h\<close> show ?thesis by (auto dest: dvd_imp_le)
qed

text \<open>
  What the pool keeps: the header on offer, if any, is an unused element of the array with no
  successor on either list.
\<close>

definition unused_root_ok :: "rm_state \<Rightarrow> bool" where
  "unused_root_ok s \<longleftrightarrow>
     (let u = unused_header_root s in
      u = 0 \<or> header_slot s u \<and> h_memory (hdr s u) = 0 \<and> h_next (hdr s u) = 0
              \<and> h_next_unused (hdr s u) = 0)"

text \<open>
  The headers in use: \<open>L\<close> is the list that starts at \<open>header_root\<close>. Before the first
  allocation the root is the first header of the array, not in use and on offer.
\<close>

definition header_list :: "rm_state \<Rightarrow> nat list \<Rightarrow> bool" where
  "header_list s L \<longleftrightarrow>
     (if L = [] then header_root s \<noteq> 0 \<and> unused_header_root s = header_root s
      else chain (nxt s) (header_root s) L 0)"

section \<open>Facts\<close>

lemma header_clear_hdr [simp]:
  "hdr (header_clear h s) =
     (hdr s)(h := (hdr s h)\<lparr>h_memory := 0, h_size := 0, h_next := 0, h_next_unused := 0\<rparr>)"
  by (simp add: header_clear_def)

text \<open>
  A header given back is the only one on the list of unused headers afterwards: the last
  statement of \<open>header_set_unused\<close> clears the link to the previous ones.
\<close>

lemma header_set_unused_alt:
  "h \<noteq> 0 \<Longrightarrow> header_set_unused h s = (header_clear h s)\<lparr>unused_header_root := h\<rparr>"
  by (simp add: header_set_unused_def header_clear_def upd_hdr_def Let_def)

lemma header_set_unused_sel [simp]:
  assumes "h \<noteq> 0"
  shows "hdr (header_set_unused h s) =
      (hdr s)(h := (hdr s h)\<lparr>h_memory := 0, h_size := 0, h_next := 0, h_next_unused := 0\<rparr>)"
    and "unused_header_root (header_set_unused h s) = h"
    and "blk (header_set_unused h s) = blk s"
    and "mem (header_set_unused h s) = mem s"
    and "slots (header_set_unused h s) = slots s"
    and "header_bottom (header_set_unused h s) = header_bottom s"
    and "header_top (header_set_unused h s) = header_top s"
    and "header_root (header_set_unused h s) = header_root s"
    and "memory_bottom (header_set_unused h s) = memory_bottom s"
    and "memory_top (header_set_unused h s) = memory_top s"
    and "memory_size (header_set_unused h s) = memory_size s"
    and "free_block_slot_count (header_set_unused h s) = free_block_slot_count s"
    and "header_used_count (header_set_unused h s) = header_used_count s"
  using assms by (simp_all add: header_set_unused_alt header_clear_def)

lemma rm_header_find_free_reuse:
  "unused_header_root s \<noteq> 0 \<Longrightarrow>
   rm_header_find_free s =
     (unused_header_root s,
      s\<lparr>unused_header_root := h_next_unused (hdr s (unused_header_root s))\<rparr>)"
  by (simp add: rm_header_find_free_def Let_def)

text \<open>Of several headers given back only the last is found again.\<close>

lemma header_set_unused_keeps_one:
  "g \<noteq> 0 \<Longrightarrow> h \<noteq> 0 \<Longrightarrow>
   \<exists>s'. rm_header_find_free (header_set_unused h (header_set_unused g s)) = (h, s') \<and> unused_header_root s' = 0"
  by (simp add: header_set_unused_alt rm_header_find_free_reuse header_clear_def)

lemma rm_header_find_free_grow:
  "unused_header_root s = 0 \<Longrightarrow> memory_top s < header_bottom s - 2 * sizeof_rm_header_t \<Longrightarrow>
   rm_header_find_free s =
     (header_bottom s - sizeof_rm_header_t,
      header_clear (header_bottom s - sizeof_rm_header_t)
        (s\<lparr>header_bottom := header_bottom s - sizeof_rm_header_t\<rparr>))"
  by (simp add: rm_header_find_free_def Let_def)

lemma rm_header_find_free_none:
  "fst (rm_header_find_free s) = 0 \<Longrightarrow>
   snd (rm_header_find_free s) = s \<and> unused_header_root s = 0
     \<and> header_bottom s - 2 * sizeof_rm_header_t \<le> memory_top s"
  by (auto simp: rm_header_find_free_def Let_def split: if_splits)

lemma header_new_none:
  "fst (header_new ins s) = 0 \<Longrightarrow>
   snd (header_new ins s) = s \<and> unused_header_root s = 0
     \<and> header_bottom s - 2 * sizeof_rm_header_t \<le> memory_top s"
  using rm_header_find_free_none [of s]
  by (auto simp: header_new_def Let_def split: prod.splits if_splits)

lemma header_slot_grow:
  assumes "header_slot s h" and "header_bottom s - sizeof_rm_header_t \<le> header_bottom t"
    and "header_bottom t \<le> header_bottom s" and "header_top t = header_top s"
  shows "header_slot t h"
  using assms by (auto simp: header_slot_def)

text \<open>
  Taking a header into use and putting it on the list. \<open>new_header s s' h\<close>: \<open>h\<close> is new at the
  head of the list of \<open>s'\<close>, and nothing but \<open>h\<close> itself has changed.
\<close>

definition new_header :: "rm_state \<Rightarrow> rm_state \<Rightarrow> nat \<Rightarrow> nat list \<Rightarrow> bool" where
  "new_header s s' h L \<longleftrightarrow>
     h \<noteq> 0 \<and> h \<notin> set L \<and> header_slot s' h \<and> chain (nxt s') (header_root s') (h # L) 0
     \<and> (\<forall>g. g \<noteq> h \<longrightarrow> hdr s' g = hdr s g)
     \<and> s' = s\<lparr>hdr := hdr s', header_root := header_root s', header_bottom := header_bottom s',
              unused_header_root := 0\<rparr>
     \<and> (header_bottom s' = header_bottom s
        \<or> header_bottom s' = header_bottom s - sizeof_rm_header_t
          \<and> memory_top s < header_bottom s - 2 * sizeof_rm_header_t)"

lemma header_new_spec:
  assumes wf: "header_list s L" "unused_root_ok s" "\<And>h. h \<in> set L \<Longrightarrow> header_slot s h"
      "\<And>h. h \<in> set L \<Longrightarrow> h_memory (hdr s h) \<noteq> 0"
    and geo: "0 < header_bottom s" "header_bottom s \<le> header_top s"
      "sizeof_rm_header_t dvd (header_top s - header_bottom s)"
    and new: "header_new True s = (h, s')" "h \<noteq> 0"
  shows "new_header s s' h L"
proof (cases "unused_header_root s = 0")
  case False
  let ?u = "unused_header_root s"
  have u: "header_slot s ?u" "h_memory (hdr s ?u) = 0" "h_next (hdr s ?u) = 0"
      "h_next_unused (hdr s ?u) = 0"
    using wf(2) False by (auto simp: unused_root_ok_def Let_def)
  have notin: "?u \<notin> set L" using u(2) wf(4) by blast
  have new': "header_new True s =
      (if ?u \<noteq> header_root s
       then (?u, s\<lparr>hdr := (hdr s)(?u := (hdr s ?u)\<lparr>h_type := BLOCK_TYPE_UNLOCKED,
                     h_memory := 0, h_next := header_root s\<rparr>),
                   header_root := ?u, unused_header_root := 0\<rparr>)
       else (?u, s\<lparr>hdr := (hdr s)(?u := (hdr s ?u)\<lparr>h_type := BLOCK_TYPE_UNLOCKED,
                     h_memory := 0\<rparr>), unused_header_root := 0\<rparr>))"
    using False u geo(1)
    by (simp add: header_new_def rm_header_find_free_reuse upd_hdr_def Let_def)
  have root: "?u = header_root s \<longleftrightarrow> L = []"
    using wf(1) notin by (cases L) (auto simp: header_list_def)
  show ?thesis
  proof (cases "L = []")
    case True
    with new new' root False u show ?thesis
      by (auto simp: new_header_def header_slot_def)
  next
    case nonempty: False
    with wf(1) have "chain (nxt s) (header_root s) L 0" by (simp add: header_list_def)
    moreover have "chain (nxt s') (header_root s) L 0 = chain (nxt s) (header_root s) L 0"
      using new new' root nonempty notin by (intro chain_cong) auto
    ultimately show ?thesis
      using new new' root nonempty False u notin
      by (auto simp: new_header_def header_slot_def)
  qed
next
  case True
  let ?n = "header_bottom s - sizeof_rm_header_t"
  have room: "memory_top s < header_bottom s - 2 * sizeof_rm_header_t"
    using new True
    by (auto simp: header_new_def rm_header_find_free_def Let_def split: if_splits)
  have nonempty: "L \<noteq> []" using wf(1) True by (auto simp: header_list_def)
  with wf(1) have ch: "chain (nxt s) (header_root s) L 0" by (simp add: header_list_def)
  have below: "?n < header_bottom s" and pos: "0 < ?n" using room by auto
  have notin: "?n \<notin> set L" using wf(3) [of ?n] below by (auto simp: header_slot_def)
  have "header_root s \<in> set L" using ch nonempty by (cases L) auto
  then have root: "?n \<noteq> header_root s" using notin by auto
  have new': "header_new True s =
      (?n, s\<lparr>header_bottom := ?n,
             hdr := (hdr s)(?n := (hdr s ?n)\<lparr>h_size := 0, h_next_unused := 0,
                h_type := BLOCK_TYPE_UNLOCKED, h_memory := 0, h_next := header_root s\<rparr>),
             header_root := ?n\<rparr>)"
    using True room root pos
    by (simp add: header_new_def rm_header_find_free_grow header_clear_def upd_hdr_def Let_def)
  have "header_top s - ?n = (header_top s - header_bottom s) + sizeof_rm_header_t"
    using geo(2) pos by simp
  then have dvd: "sizeof_rm_header_t dvd (header_top s - ?n)"
    using geo(3) by (simp only: dvd_add_triv_right_iff)
  have "chain (nxt s') (header_root s) L 0 = chain (nxt s) (header_root s) L 0"
    using new new' notin by (intro chain_cong) auto
  with ch new new' True below pos geo(2) dvd notin room show ?thesis
    by (auto simp: new_header_def header_slot_def)
qed

end
