(* ===== verification/Rm_Freelist.thy ===== *)
theory Rm_Freelist
  imports Rm_Header
begin

text \<open>
  The free lists of \<open>src/jeff/compact.c\<close>. Slot \<open>k\<close> heads a list of free blocks; the list cell
  (\<open>free_memory_block_t\<close>) of a block is stored in the last bytes of the block. This theory holds
  the operations \<open>freeblock_insert\<close>, \<open>freeblock_shrink\<close> and \<open>freeblock_find\<close>; a block is
  given to the client from its high end and the rest stays free.
\<close>

section \<open>Slots\<close>

definition read_slot :: "nat \<Rightarrow> rm_state \<Rightarrow> nat res" where
  "read_slot k s = (if k < length (slots s) then Inr (slots s ! k) else Inl Out_of_bounds)"

definition write_slot :: "nat \<Rightarrow> nat \<Rightarrow> rm_state \<Rightarrow> rm_state res" where
  "write_slot k b s =
     (if k < length (slots s) then Inr (s\<lparr>slots := (slots s)[k := b]\<rparr>) else Inl Out_of_bounds)"

abbreviation block_size :: "rm_state \<Rightarrow> nat \<Rightarrow> nat" where
  "block_size s b \<equiv> h_size (hdr s (b_header (blk s b)))"

definition freeblock_insert :: "nat \<Rightarrow> rm_state \<Rightarrow> rm_state res" where
  "freeblock_insert block s =
     (let header = b_header (blk s block) in
      if u64 (h_size (hdr s header) + h_memory (hdr s header)) \<ge> header_bottom s then Inl Abort
      else
        let k = rm_log2 (h_size (hdr s header)) in
        bind_res (read_slot k s) (\<lambda>old.
        write_slot k block (upd_blk block (\<lambda>x. x\<lparr>b_next := old\<rparr>) s)))"

section \<open>Splitting a block\<close>

definition freeblock_shrink_with_header ::
  "nat \<Rightarrow> nat \<Rightarrow> nat \<Rightarrow> rm_state \<Rightarrow> (nat \<times> rm_state) res" where
  "freeblock_shrink_with_header block h sz s =
     (if block = 0 then Inr (0, s)
      else
        let diff = int_of_u32 (block_size s block + 2 ^ 32 - sz) in
        if diff < int sizeof_free_memory_block_t then Inr (0, s)
        else
          let (h, s) = (if h = 0 then header_new True s else (h, s)) in
          if h = 0 then Inr (0, s)
          else if sz > block_size s block then Inl Abort
          else if h = b_header (blk s block) then Inl Abort
          else
            let header = b_header (blk s block);
                s1 = upd_hdr h (\<lambda>x. x\<lparr>h_type := BLOCK_TYPE_FREE,
                                     h_memory := h_memory (hdr s header),
                                     h_size := nat diff\<rparr>) s;
                s2 = upd_hdr header (\<lambda>x. x\<lparr>h_memory := h_memory x + nat diff,
                                          h_size := sz\<rparr>) s1;
                b = rm_block_from_header s2 h;
                s3 = upd_blk b (\<lambda>x. x\<lparr>b_next := 0, b_header := h\<rparr>) s2
            in if block_size s3 block \<noteq> sz then Inl Abort else Inr (b, s3))"

definition freeblock_shrink :: "nat \<Rightarrow> nat \<Rightarrow> rm_state \<Rightarrow> (nat \<times> rm_state) res" where
  "freeblock_shrink block sz s = freeblock_shrink_with_header block 0 sz s"

section \<open>Finding a block\<close>

text \<open>The slot is the last one: search its whole list for a block that fits.\<close>

function scan_last_slot ::
  "nat \<Rightarrow> nat \<Rightarrow> nat \<Rightarrow> nat \<Rightarrow> nat \<Rightarrow> rm_state \<Rightarrow> (nat \<times> rm_state) res" where
  "scan_last_slot fuel k sz block prevblock s =
     (if block = 0 then Inr (0, s)
      else if fuel = 0 then Inl Diverge
      else if block_size s block \<ge> sz then
        bind_res (read_slot k s) (\<lambda>first.
        if block = first
        then bind_res (write_slot k (b_next (blk s block)) s) (\<lambda>s'. Inr (block, s'))
        else Inr (block, upd_blk prevblock (\<lambda>x. x\<lparr>b_next := b_next (blk s block)\<rparr>) s))
      else scan_last_slot (fuel - 1) k sz (b_next (blk s block)) block s)"
  by pat_completeness auto
termination by (relation "measure (\<lambda>(fuel, _). fuel)") auto

declare scan_last_slot.simps [simp del]

text \<open>Climb to the first slot from \<open>k\<close> up that is not empty; the result is
  \<open>(k, upper_size, block)\<close>.\<close>

function climb_slots :: "nat \<Rightarrow> nat \<Rightarrow> nat \<Rightarrow> rm_state \<Rightarrow> nat \<times> nat \<times> nat" where
  "climb_slots k upper_size block s =
     (if block = 0 \<and> k < free_block_slot_count s then
        if k + 1 < free_block_slot_count s
        then climb_slots (k + 1) (int_shl1 (k + 2)) (slots s ! (k + 1)) s
        else climb_slots (k + 1) upper_size block s
      else (k, upper_size, block))"
  by pat_completeness auto
termination by (relation "measure (\<lambda>(k, _, _, s). free_block_slot_count s - k)") auto

declare climb_slots.simps [simp del]

text \<open>
  The first block of the slot is taken: it is used, or moved to the slot of its size when it
  is too large for this one and kept as the fallback. The result is \<open>(found, fallback, state)\<close>.
\<close>

definition take_first ::
  "nat \<Rightarrow> nat \<Rightarrow> nat \<Rightarrow> rm_state \<Rightarrow> (nat \<times> nat \<times> rm_state) res" where
  "take_first k upper_size sz s =
     bind_res (read_slot k s) (\<lambda>block.
     bind_res (write_slot k (b_next (blk s block)) s) (\<lambda>s1.
     if block_size s1 block > upper_size
     then bind_res (freeblock_insert block s1) (\<lambda>s2. Inr (0, block, s2))
     else if block_size s1 block < sz then Inl Abort
     else Inr (block, 0, s1)))"

text \<open>
  Search the slot of the requested size. Blocks too large for the slot are moved to theirs on
  the way; the last one moved is the fallback. The result is \<open>(found, fallback, state)\<close>.
\<close>

function scan_own_slot ::
  "nat \<Rightarrow> nat \<Rightarrow> nat \<Rightarrow> nat \<Rightarrow> nat \<Rightarrow> nat \<Rightarrow> nat \<Rightarrow> rm_state \<Rightarrow> (nat \<times> nat \<times> rm_state) res" where
  "scan_own_slot fuel k upper_size sz block prevblock fallback s =
     (if block = 0 then Inr (0, fallback, s)
      else if fuel = 0 then Inl Diverge
      else if block_size s block \<ge> sz then
        bind_res (read_slot k s) (\<lambda>first.
        if first = block then
          if block_size s block > upper_size then
            bind_res (write_slot k (b_next (blk s block)) s) (\<lambda>s1.
            bind_res (freeblock_insert block s1) (\<lambda>s2.
            bind_res (read_slot k s2) (\<lambda>next.
            scan_own_slot (fuel - 1) k upper_size sz next prevblock block s2)))
          else
            bind_res (write_slot k (b_next (blk s block)) s) (\<lambda>s1. Inr (block, fallback, s1))
        else
          if block_size s block > upper_size then
            let nextblock = b_next (blk s block);
                s1 = upd_blk prevblock (\<lambda>x. x\<lparr>b_next := nextblock\<rparr>) s
            in bind_res (freeblock_insert block s1) (\<lambda>s2.
               if b_next (blk s2 prevblock) \<noteq> nextblock then Inl Abort
               else scan_own_slot (fuel - 1) k upper_size sz nextblock prevblock block s2)
          else
            Inr (block, fallback,
                 upd_blk prevblock (\<lambda>x. x\<lparr>b_next := b_next (blk s block)\<rparr>) s))
      else scan_own_slot (fuel - 1) k upper_size sz (b_next (blk s block)) block fallback s)"
  by pat_completeness auto
termination by (relation "measure (\<lambda>(fuel, _). fuel)") auto

declare scan_own_slot.simps [simp del]

text \<open>
  The search: the first slot whose blocks are all large enough, a full scan if that is past
  the last slot, the next larger slots, and at last the slot of the size itself.
\<close>

definition freeblock_search :: "nat \<Rightarrow> rm_state \<Rightarrow> (nat \<times> nat \<times> rm_state) res" where
  "freeblock_search sz s =
     (let target_k = u32 (rm_log2 sz + 1) in
      if target_k = free_block_slot_count s then
        bind_res (read_slot (target_k - 1) s) (\<lambda>block.
        bind_res (scan_last_slot list_fuel (target_k - 1) sz block block s) (\<lambda>(found, s1).
        Inr (found, 0, s1)))
      else
        bind_res (read_slot target_k s) (\<lambda>first.
        let (k, upper_size, block) = climb_slots target_k (int_shl1 (target_k + 1)) first s in
        if block \<noteq> 0 then take_first k upper_size sz s
        else
          let k = rm_log2 sz in
          bind_res (read_slot k s) (\<lambda>block.
          scan_own_slot list_fuel k (int_shl1 (k + 1)) sz block block 0 s)))"

text \<open>
  Use what the search has found: split the block and put the rest back. A block found that
  cannot be split is not used.
\<close>

definition freeblock_find :: "nat \<Rightarrow> rm_state \<Rightarrow> (nat \<times> rm_state) res" where
  "freeblock_find sz s =
     bind_res (freeblock_search sz s) (\<lambda>(found_block, fallback_block, s1).
     if found_block \<noteq> 0 then
       bind_res (freeblock_shrink found_block sz s1) (\<lambda>(rest, s2).
       if rest = 0 then Inr (0, s2)
       else bind_res (freeblock_insert rest s2) (\<lambda>s3. Inr (b_header (blk s3 found_block), s3)))
     else if fallback_block \<noteq> 0 then
       let fallback_k = rm_log2 (block_size s1 fallback_block) in
       bind_res (write_slot fallback_k (b_next (blk s1 fallback_block)) s1) (\<lambda>s2.
       bind_res (freeblock_shrink fallback_block sz s2) (\<lambda>(rest, s3).
       bind_res (if rest \<noteq> 0 then freeblock_insert rest s3 else Inr s3) (\<lambda>s4.
       Inr (b_header (blk s4 fallback_block), s4))))
     else Inr (0, s1))"

end
