(* ===== verification/Rm_Alloc.thy ===== *)
theory Rm_Alloc
  imports Rm_Freelist
begin

text \<open>
  The client operations of \<open>src/jeff/compact.c\<close> but for compaction: \<open>rm_init\<close>,
  \<open>rm_malloc\<close> (over \<open>block_new\<close>), \<open>rm_free\<close> (over \<open>block_free\<close>), and the locks.
\<close>

section \<open>Initialisation\<close>

definition zero_header :: rm_header_t where
  "zero_header = \<lparr>h_memory = 0, h_size = 0, h_type = BLOCK_TYPE_FREE, h_next = 0,
                  h_next_unused = 0\<rparr>"

definition zero_block :: free_memory_block_t where
  "zero_block = \<lparr>b_header = 0, b_next = 0\<rparr>"

text \<open>\<open>memset(heap, 0, n)\<close> on the whole heap, at each of the types it is read at.\<close>

definition memset_heap :: "nat \<Rightarrow> nat \<Rightarrow> rm_state \<Rightarrow> rm_state" where
  "memset_heap heap n s =
     s\<lparr>slots := map (\<lambda>_. 0) (slots s),
       hdr := (\<lambda>a. if heap \<le> a \<and> a + sizeof_rm_header_t \<le> heap + n then zero_header
                  else hdr s a),
       blk := (\<lambda>a. if heap \<le> a \<and> a + sizeof_free_memory_block_t \<le> heap + n then zero_block
                  else blk s a),
       mem := (\<lambda>a. if heap \<le> a \<and> a < heap + n then 0 else mem s a)\<rparr>"

definition rm_init :: "nat \<Rightarrow> nat \<Rightarrow> rm_state \<Rightarrow> rm_state" where
  "rm_init heap n s =
     (let count = u32 (rm_log2 n + 1);
          s1 = s\<lparr>memory_size := n, free_block_slot_count := count, free_block_slots := heap,
                 slots := replicate count 0\<rparr>;
          s2 = s1\<lparr>memory_bottom := u64 (heap + count * sizeof_ptr)\<rparr>;
          s3 = s2\<lparr>memory_top := memory_bottom s2\<rparr>;
          s4 = s3\<lparr>header_top := u64 (heap + n + 2 ^ 64 - sizeof_rm_header_t)\<rparr>;
          s5 = s4\<lparr>header_bottom := u64 (header_top s4 + 2 ^ 64 - sizeof_rm_header_t),
                  header_root := header_top s4\<rparr>;
          s6 = (upd_hdr (header_root s5) (\<lambda>x. x\<lparr>h_next := 0\<rparr>) s5)
                 \<lparr>header_used_count := 0, unused_header_root := 0\<rparr>;
          s7 = header_set_unused (header_top s6) s6;
          s8 = upd_hdr (header_top s7) (\<lambda>x. x\<lparr>h_size := 0\<rparr>) s7;
          s9 = s8\<lparr>highest_address_header := header_top s8\<rparr>
      in memset_heap heap n s9)"

section \<open>Allocation\<close>

definition block_new :: "nat \<Rightarrow> rm_state \<Rightarrow> (nat \<times> rm_state) res" where
  "block_new n s =
     (let sz = (if n < sizeof_free_memory_block_t then sizeof_free_memory_block_t else n) in
      bind_res
        (if u64 (memory_top s + sz + sizeof_rm_header_t) < header_bottom s then
           let (h, s1) = header_new True s in
           if h = 0 then Inr (0, s1)
           else
             let s2 = upd_hdr h (\<lambda>x. x\<lparr>h_size := u32 sz, h_memory := memory_top s1,
                                      h_type := BLOCK_TYPE_UNLOCKED\<rparr>) s1
             in if h_memory (hdr s2 h) < memory_bottom s2 then Inl Abort
                else Inr (h, s2\<lparr>header_used_count := header_used_count s2 + 1,
                                memory_top := u64 (memory_top s2 + sz)\<rparr>)
         else
           bind_res (freeblock_find (u32 sz) s) (\<lambda>(h, s1).
           if h = 0 then Inr (0, s1)
           else if h_memory (hdr s1 h) \<le> memory_bottom s1 then Inl Abort
           else
             let s2 = upd_hdr h (\<lambda>x. x\<lparr>h_type := BLOCK_TYPE_UNLOCKED\<rparr>)
                        (s1\<lparr>header_used_count := header_used_count s1 + 1\<rparr>)
             in Inr (h, s2\<lparr>free_block_hits := free_block_hits s2 + 1,
                          free_block_alloc := u32 (free_block_alloc s2 + sz)\<rparr>)))
        (\<lambda>(h, s'). if h = 0 then Inr (0, s')
                  else Inr (h, update_highest_address_if_needed h s')))"

definition rm_malloc :: "int \<Rightarrow> rm_state \<Rightarrow> (nat \<times> rm_state) res" where
  "rm_malloc n s = block_new (uintptr_of_int n) s"

section \<open>Freeing\<close>

definition block_free :: "nat \<Rightarrow> rm_state \<Rightarrow> (nat \<times> rm_state) res" where
  "block_free header s =
     (if header = 0 \<or> h_type (hdr s header) = BLOCK_TYPE_FREE then Inr (header, s)
      else
        let block = rm_block_from_header s header;
            s1 = upd_hdr header (\<lambda>x. x\<lparr>h_type := BLOCK_TYPE_FREE\<rparr>) s;
            s2 = upd_blk block (\<lambda>x. x\<lparr>b_header := header, b_next := 0\<rparr>) s1;
            bh = b_header (blk s2 block)
        in if u64 (h_size (hdr s2 bh) + h_memory (hdr s2 bh)) \<ge> header_bottom s2
           then Inr (0, s2)
           else
             let index = rm_log2 (h_size (hdr s2 header)) in
             if h_size (hdr s2 bh) \<noteq> h_size (hdr s2 header) then Inr (0, s2)
             else
               bind_res (read_slot index s2) (\<lambda>old.
               bind_res (write_slot index block (upd_blk block (\<lambda>x. x\<lparr>b_next := old\<rparr>) s2)) (\<lambda>s3.
               Inr (header, s3\<lparr>header_used_count := header_used_count s3 - 1\<rparr>))))"

definition rm_free :: "nat \<Rightarrow> rm_state \<Rightarrow> rm_state res" where
  "rm_free h s = bind_res (block_free h s) (\<lambda>(_, s'). Inr s')"

section \<open>Locking\<close>

definition rm_lock :: "nat \<Rightarrow> rm_state \<Rightarrow> (nat \<times> rm_state) res" where
  "rm_lock f s =
     (if f = 0 then Inl Null_deref
      else let s' = upd_hdr f (\<lambda>x. x\<lparr>h_type := BLOCK_TYPE_LOCKED\<rparr>) s
           in Inr (h_memory (hdr s' f), s'))"

definition rm_weaklock :: "nat \<Rightarrow> rm_state \<Rightarrow> (nat \<times> rm_state) res" where
  "rm_weaklock f s =
     (if f = 0 then Inl Null_deref
      else let s' = upd_hdr f (\<lambda>x. x\<lparr>h_type := BLOCK_TYPE_WEAK_LOCKED\<rparr>) s
           in Inr (h_memory (hdr s' f), s'))"

definition rm_unlock :: "nat \<Rightarrow> rm_state \<Rightarrow> rm_state res" where
  "rm_unlock f s =
     (if f = 0 then Inl Null_deref
      else Inr (upd_hdr f (\<lambda>x. x\<lparr>h_type := BLOCK_TYPE_UNLOCKED\<rparr>) s))"

end
