(* ===== verification/Rm_Sort.thy ===== *)
theory Rm_Sort
  imports Rm_Alloc
begin

text \<open>
  The sort of the header list, \<open>src/jeff/listsort.c\<close>: a bottom-up merge sort that relinks
  the headers in place, in passes over runs of length 1, 2, 4, ...
\<close>

section \<open>Operations\<close>

type_synonym rm_compare_cb = "rm_state \<Rightarrow> nat \<Rightarrow> nat \<Rightarrow> nat"

text \<open>The comparison treats a null \<open>memory\<close> as infinitely large.\<close>

definition sort_address :: "rm_state \<Rightarrow> nat \<Rightarrow> nat" where
  "sort_address s h = (if h_memory (hdr s h) = 0 then 2 ^ 64 - 1 else h_memory (hdr s h))"

definition rm_header__cmp :: rm_compare_cb where
  "rm_header__cmp s a b = (if sort_address s a > sort_address s b then 1 else 0)"

definition link_after :: "bool \<Rightarrow> nat \<Rightarrow> rm_state \<Rightarrow> nat \<Rightarrow> nat" where
  "link_after is_circular oldhead s q =
     (if is_circular \<and> nxt s q = oldhead then 0 else nxt s q)"

text \<open>Step \<open>insize\<close> places along from \<open>q\<close>, or to the end of the list; counts the steps.\<close>

fun step_run :: "bool \<Rightarrow> nat \<Rightarrow> rm_state \<Rightarrow> nat \<Rightarrow> nat \<Rightarrow> nat \<Rightarrow> nat \<times> nat" where
  "step_run is_circular oldhead s 0 q psize = (q, psize)"
| "step_run is_circular oldhead s (Suc i) q psize =
     (let q' = link_after is_circular oldhead s q in
      if q' = 0 then (0, psize + 1) else step_run is_circular oldhead s i q' (psize + 1))"

definition append_element :: "nat \<Rightarrow> nat \<Rightarrow> nat \<Rightarrow> rm_state \<Rightarrow> nat \<times> rm_state" where
  "append_element e list tail s =
     (if tail \<noteq> 0 then (list, upd_hdr tail (\<lambda>x. x\<lparr>h_next := e\<rparr>) s) else (e, s))"

text \<open>Merge the run of \<open>psize\<close> nodes at \<open>p\<close> with at most \<open>qsize\<close> nodes at \<open>q\<close> behind \<open>tail\<close>.\<close>

function merge_runs ::
  "bool \<Rightarrow> nat \<Rightarrow> rm_compare_cb \<Rightarrow> nat \<Rightarrow> nat \<Rightarrow> nat \<Rightarrow> nat \<Rightarrow> nat \<Rightarrow> nat \<Rightarrow> rm_state
   \<Rightarrow> nat \<times> nat \<times> nat \<times> rm_state" where
  "merge_runs circ oldhead cmp p psize q qsize list tail s =
     (if psize > 0 \<or> (qsize > 0 \<and> q \<noteq> 0) then
        if psize > 0 \<and> (qsize = 0 \<or> q = 0 \<or> cmp s p q \<le> 0) then
          let (list', s') = append_element p list tail s
          in merge_runs circ oldhead cmp (link_after circ oldhead s p) (psize - 1) q qsize
               list' p s'
        else
          let (list', s') = append_element q list tail s
          in merge_runs circ oldhead cmp p psize (link_after circ oldhead s q) (qsize - 1)
               list' q s'
      else (list, tail, q, s))"
  by pat_completeness auto
termination
  by (relation "measure (\<lambda>(_, _, _, _, psize, _, qsize, _, _, _). psize + qsize)") auto

declare merge_runs.simps [simp del]

text \<open>One pass: merge the runs pairwise; the result is \<open>(list, tail, nmerges, state)\<close>.\<close>

function merge_pass ::
  "nat \<Rightarrow> bool \<Rightarrow> nat \<Rightarrow> rm_compare_cb \<Rightarrow> nat \<Rightarrow> nat \<Rightarrow> nat \<Rightarrow> nat \<Rightarrow> nat \<Rightarrow> rm_state
   \<Rightarrow> (nat \<times> nat \<times> nat \<times> rm_state) res" where
  "merge_pass fuel circ oldhead cmp insize p list tail nmerges s =
     (if p = 0 then Inr (list, tail, nmerges, s)
      else if fuel = 0 then Inl Diverge
      else
        let (q, psize) = step_run circ oldhead s insize p 0;
            (list', tail', q', s') = merge_runs circ oldhead cmp p psize q insize list tail s
        in merge_pass (fuel - 1) circ oldhead cmp insize q' list' tail' (nmerges + 1) s')"
  by pat_completeness auto
termination by (relation "measure (\<lambda>(fuel, _). fuel)") auto

declare merge_pass.simps [simp del]

text \<open>The passes, until one does a single merge; doubling \<open>insize\<close> can overflow an \<open>int\<close>.\<close>

function sort_passes ::
  "bool \<Rightarrow> rm_compare_cb \<Rightarrow> nat \<Rightarrow> nat \<Rightarrow> rm_state \<Rightarrow> (nat \<times> rm_state) res" where
  "sort_passes circ cmp insize list s =
     (if insize = 0 then Inl Diverge
      else
        bind_res (merge_pass list_fuel circ list cmp insize list 0 0 0 s)
          (\<lambda>(list', tail, nmerges, s').
           if tail = 0 then Inl Null_deref
           else
             let s'' = upd_hdr tail (\<lambda>x. x\<lparr>h_next := (if circ then list' else 0)\<rparr>) s' in
             if nmerges \<le> 1 then Inr (list', s'')
             else if insize * 2 \<ge> 2 ^ 31 then Inl Int_overflow
             else sort_passes circ cmp (insize * 2) list' s''))"
  by pat_completeness auto
termination by (relation "measure (\<lambda>(_, _, insize, _). 2 ^ 31 - insize)") auto

declare sort_passes.simps [simp del]

definition rm_header__sort ::
  "nat \<Rightarrow> bool \<Rightarrow> bool \<Rightarrow> rm_compare_cb \<Rightarrow> rm_state \<Rightarrow> (nat \<times> rm_state) res" where
  "rm_header__sort list is_circular is_double cmp s =
     (if list = 0 then Inr (0, s) else sort_passes is_circular cmp 1 list s)"

definition rm_header_sort_all :: "rm_state \<Rightarrow> rm_state res" where
  "rm_header_sort_all s =
     bind_res (rm_header__sort (header_root s) False False rm_header__cmp s)
       (\<lambda>(root, s'). Inr (s'\<lparr>header_root := root\<rparr>))"

end
