(* ===== verification/Rm_Compact.thy ===== *)
theory Rm_Compact
  imports Rm_Sort
begin

text \<open>
  Compaction, \<open>rm_compact\<close> of \<open>src/jeff/compact.c\<close>. The headers are sorted by address; a pass
  then takes the first range of free blocks and a range of unlocked blocks behind it, moves the
  unlocked blocks down and relinks; a last part drops what is free above the highest used
  address and rebuilds the free lists.

  The clock the loop is limited by is code outside of the repository: the model takes the
  readings of \<open>clock_gettime\<close>, one for each call, as a function \<open>clk\<close>.
\<close>

section \<open>Time\<close>

text \<open>A reading of the clock: seconds and nanoseconds.\<close>

type_synonym timespec = "nat \<times> nat"

definition uptime_nanoseconds :: "timespec \<Rightarrow> nat" where
  "uptime_nanoseconds t = u64 (fst t * 1000000000 + snd t)"

section \<open>Ranges of headers\<close>

function find_last_nonfree_loop :: "nat \<Rightarrow> nat \<Rightarrow> nat \<Rightarrow> rm_state \<Rightarrow> nat res" where
  "find_last_nonfree_loop fuel last_nonfree root s =
     (if root \<noteq> 0 \<and> h_type (hdr s root) \<noteq> BLOCK_TYPE_FREE then
        if fuel = 0 then Inl Diverge
        else find_last_nonfree_loop (fuel - 1) root (nxt s root) s
      else Inr last_nonfree)"
  by pat_completeness auto
termination by (relation "measure (\<lambda>(fuel, _). fuel)") auto

declare find_last_nonfree_loop.simps [simp del]

definition find_last_nonfree_header :: "nat \<Rightarrow> rm_state \<Rightarrow> nat res" where
  "find_last_nonfree_header root s =
     bind_res (find_last_nonfree_loop list_fuel 0 root s) (\<lambda>last_nonfree.
     if last_nonfree \<noteq> 0 \<and> h_type (hdr s last_nonfree) = BLOCK_TYPE_FREE
     then Inr 0 else Inr last_nonfree)"

text \<open>The loops of \<open>get_free_header_range\<close>: to the first free header, and over the range.\<close>

function skip_to_free :: "nat \<Rightarrow> nat \<Rightarrow> rm_state \<Rightarrow> nat res" where
  "skip_to_free fuel start s =
     (if start \<noteq> 0 \<and> h_type (hdr s start) \<noteq> BLOCK_TYPE_FREE then
        if fuel = 0 then Inl Diverge else skip_to_free (fuel - 1) (nxt s start) s
      else Inr start)"
  by pat_completeness auto
termination by (relation "measure (\<lambda>(fuel, _). fuel)") auto

declare skip_to_free.simps [simp del]

function sum_free_range ::
  "nat \<Rightarrow> nat \<Rightarrow> nat \<Rightarrow> nat \<Rightarrow> nat \<Rightarrow> rm_state \<Rightarrow> (nat \<times> nat \<times> nat) res" where
  "sum_free_range fuel acc range_last before_last start s =
     (if start \<noteq> 0 \<and> h_type (hdr s start) = BLOCK_TYPE_FREE then
        if fuel = 0 then Inl Diverge
        else sum_free_range (fuel - 1) (u32 (acc + h_size (hdr s start))) start range_last
               (nxt s start) s
      else Inr (acc, range_last, before_last))"
  by pat_completeness auto
termination by (relation "measure (\<lambda>(fuel, _). fuel)") auto

declare sum_free_range.simps [simp del]

text \<open>The result is \<open>(size, first, last, block_before_last)\<close>.\<close>

definition get_free_header_range :: "nat \<Rightarrow> rm_state \<Rightarrow> (nat \<times> nat \<times> nat \<times> nat) res" where
  "get_free_header_range start s =
     bind_res (skip_to_free list_fuel start s) (\<lambda>first.
     if first = 0 then Inr (0, 0, 0, 0)
     else
       bind_res (sum_free_range list_fuel 0 first 0 first s) (\<lambda>(acc, last_h, before_last).
       Inr (acc, first, last_h, before_last)))"

text \<open>
  The loops of \<open>get_unlocked_header_range\<close>; \<open>passed\<close> is \<open>*passed_free_blocks\<close>, \<open>prev\<close> is
  \<open>*block_before_first\<close>.
\<close>

function skip_to_unlocked ::
  "nat \<Rightarrow> nat \<Rightarrow> nat \<Rightarrow> bool \<Rightarrow> rm_state \<Rightarrow> (nat \<times> nat \<times> bool) res" where
  "skip_to_unlocked fuel start prev passed s =
     (if start \<noteq> 0 \<and> h_type (hdr s start) \<noteq> BLOCK_TYPE_UNLOCKED then
        if fuel = 0 then Inl Diverge
        else skip_to_unlocked (fuel - 1) (nxt s start) start
               (passed \<or> h_type (hdr s start) = BLOCK_TYPE_FREE) s
      else Inr (start, prev, passed))"
  by pat_completeness auto
termination by (relation "measure (\<lambda>(fuel, _). fuel)") auto

declare skip_to_unlocked.simps [simp del]

text \<open>With a size limit: on to the first unlocked block that fits, but not past a free one.\<close>

function skip_to_fitting ::
  "nat \<Rightarrow> nat \<Rightarrow> nat \<Rightarrow> nat \<Rightarrow> rm_state \<Rightarrow> (bool \<times> nat \<times> nat) res" where
  "skip_to_fitting fuel max_size start prev s =
     (if start \<noteq> 0 \<and> h_type (hdr s start) \<noteq> BLOCK_TYPE_FREE then
        if fuel = 0 then Inl Diverge
        else if h_type (hdr s start) = BLOCK_TYPE_UNLOCKED \<and> h_size (hdr s start) \<le> max_size
        then Inr (True, start, prev)
        else skip_to_fitting (fuel - 1) max_size (nxt s start) start s
      else Inr (False, start, prev))"
  by pat_completeness auto
termination by (relation "measure (\<lambda>(fuel, _). fuel)") auto

declare skip_to_fitting.simps [simp del]

function sum_unlocked_range ::
  "nat \<Rightarrow> nat \<Rightarrow> nat \<Rightarrow> nat \<Rightarrow> nat \<Rightarrow> rm_state \<Rightarrow> (nat \<times> nat \<times> nat) res" where
  "sum_unlocked_range fuel max_size acc range_last start s =
     (if start \<noteq> 0 \<and> h_type (hdr s start) = BLOCK_TYPE_UNLOCKED then
        if fuel = 0 then Inl Diverge
        else if max_size > 0 \<and> u32 (acc + h_size (hdr s start)) > max_size
        then Inr (acc, range_last, start)
        else sum_unlocked_range (fuel - 1) max_size (u32 (acc + h_size (hdr s start))) start
               (nxt s start) s
      else Inr (acc, range_last, start))"
  by pat_completeness auto
termination by (relation "measure (\<lambda>(fuel, _). fuel)") auto

declare sum_unlocked_range.simps [simp del]

text \<open>The result is \<open>(size, first, last, block_before_first, passed_free_blocks)\<close>.\<close>

definition get_unlocked_header_range ::
  "nat \<Rightarrow> nat \<Rightarrow> nat \<Rightarrow> bool \<Rightarrow> rm_state \<Rightarrow> (nat \<times> nat \<times> nat \<times> nat \<times> bool) res" where
  "get_unlocked_header_range start block_before_first max_size passed s =
     bind_res (skip_to_unlocked list_fuel start block_before_first passed s)
       (\<lambda>(start, prev, passed).
     if start = 0 then Inr (0, 0, 0, prev, passed)
     else
       bind_res
         (if max_size > 0 then skip_to_fitting list_fuel max_size start prev s
          else Inr (True, start, prev))
         (\<lambda>(found, start, prev).
       let passed = (passed \<or> start \<noteq> 0 \<and> h_type (hdr s start) = BLOCK_TYPE_FREE) in
       if \<not> found then Inr (0, 0, 0, 0, passed)
       else
         bind_res (sum_unlocked_range list_fuel max_size 0 start start s)
           (\<lambda>(acc, last_h, stop).
         Inr (acc, start, last_h, prev,
              passed \<or> stop \<noteq> 0 \<and> h_type (hdr s stop) = BLOCK_TYPE_FREE))))"

definition header_memory_offset :: "nat \<Rightarrow> nat \<Rightarrow> rm_state \<Rightarrow> nat" where
  "header_memory_offset first_h last_h s =
     (let f = h_memory (hdr s first_h); l = h_memory (hdr s last_h)
      in if f > l then 0 else u32 (l - f))"

section \<open>Moving and relinking\<close>

definition memmove :: "nat \<Rightarrow> nat \<Rightarrow> nat \<Rightarrow> rm_state \<Rightarrow> rm_state" where
  "memmove dest src n s =
     s\<lparr>mem := (\<lambda>a. if dest \<le> a \<and> a < dest + n then mem s (src + (a - dest)) else mem s a)\<rparr>"

text \<open>Move the used blocks from \<open>h\<close> to before \<open>stop\<close> down; sums their sizes.\<close>

function move_used_blocks ::
  "nat \<Rightarrow> nat \<Rightarrow> nat \<Rightarrow> nat \<Rightarrow> nat \<Rightarrow> rm_state \<Rightarrow> (nat \<times> rm_state) res" where
  "move_used_blocks fuel used_offset unlocked_last unlocked_size h s =
     (if h \<noteq> 0 \<and> h \<noteq> nxt s unlocked_last then
        if fuel = 0 then Inl Diverge
        else
          let src = h_memory (hdr s h);
              dest = u64 (src + 2 ^ 64 - used_offset);
              s1 = upd_hdr h (\<lambda>x. x\<lparr>h_memory := dest\<rparr>) s;
              n = h_size (hdr s1 h);
              s2 = memmove dest src n s1
          in move_used_blocks (fuel - 1) used_offset unlocked_last (u32 (unlocked_size + n))
               (nxt s2 h) s2
      else Inr (unlocked_size, s))"
  by pat_completeness auto
termination by (relation "measure (\<lambda>(fuel, _). fuel)") auto

declare move_used_blocks.simps [simp del]

text \<open>Squish the free blocks: the loop over the headers of the free range.\<close>

function squish_free_blocks :: "nat \<Rightarrow> nat \<Rightarrow> nat \<Rightarrow> rm_state \<Rightarrow> rm_state res" where
  "squish_free_blocks fuel free_first h s =
     (if h \<noteq> 0 \<and> h \<noteq> nxt s free_first then
        if fuel = 0 then Inl Diverge
        else let s1 = header_set_unused h s
             in squish_free_blocks (fuel - 1) free_first (nxt s1 h) s1
      else Inr s)"
  by pat_completeness auto
termination by (relation "measure (\<lambda>(fuel, _). fuel)") auto

declare squish_free_blocks.simps [simp del]

text \<open>A free block of the given extent, in a new header that is not on the list yet.\<close>

definition new_free_header :: "nat \<Rightarrow> nat \<Rightarrow> rm_state \<Rightarrow> (nat \<times> rm_state) res" where
  "new_free_header start n s =
     (let (h, s1) = header_new False s in
      if h = 0 then Inl Null_deref
      else Inr (h, upd_hdr h (\<lambda>x. x\<lparr>h_type := BLOCK_TYPE_FREE, h_memory := start,
                                    h_size := n\<rparr>) s1))"

definition set_next :: "nat \<Rightarrow> nat \<Rightarrow> rm_state \<Rightarrow> rm_state res" where
  "set_next h n s =
     (if h = 0 then Inl Null_deref else Inr (upd_hdr h (\<lambda>x. x\<lparr>h_next := n\<rparr>) s))"

text \<open>The unlocked blocks were right behind the free ones: the free space is now behind them.\<close>

definition relink_adjacent ::
  "nat \<Rightarrow> nat \<Rightarrow> nat \<Rightarrow> nat \<Rightarrow> nat \<Rightarrow> rm_state \<Rightarrow> rm_state res" where
  "relink_adjacent free_memory_start unlocked_size free_size unlocked_last unlocked_last_next s =
     bind_res (new_free_header (u64 (free_memory_start + unlocked_size)) free_size s)
       (\<lambda>(free_memory, s1).
     bind_res (set_next unlocked_last free_memory s1) (\<lambda>s2.
     set_next free_memory unlocked_last_next s2))"

text \<open>
  There are locked blocks in between: a new free block takes the place of the unlocked ones,
  and what is left of the free space becomes a free block or extends the last moved block.
\<close>

definition relink_nonadjacent ::
  "nat \<Rightarrow> nat \<Rightarrow> nat \<Rightarrow> nat \<Rightarrow> nat \<Rightarrow> nat \<Rightarrow> nat \<Rightarrow> nat \<Rightarrow> rm_state \<Rightarrow> rm_state res" where
  "relink_nonadjacent unlocked_first_memory unlocked_size free_size unlocked_first unlocked_last
     unlocked_last_next block_before_first_unlocked free_last_next s =
     bind_res (new_free_header unlocked_first_memory unlocked_size s) (\<lambda>(free_unlocked, s1).
     if h_memory (hdr s1 free_unlocked) \<le> memory_bottom s1 then Inl Abort
     else
       bind_res (set_next block_before_first_unlocked free_unlocked s1) (\<lambda>s2.
       bind_res (set_next free_unlocked unlocked_last_next s2) (\<lambda>s3.
       if free_size \<ge> unlocked_size + sizeof_free_memory_block_t then
         bind_res
           (new_free_header (u64 (h_memory (hdr s3 unlocked_first) + unlocked_size))
              (u32 (free_size + 2 ^ 32 - unlocked_size)) s3)
           (\<lambda>(spare_free, s4).
         if h_memory (hdr s4 spare_free) \<le> memory_bottom s4 then Inl Abort
         else
           bind_res (set_next unlocked_last spare_free s4) (\<lambda>s5.
           set_next spare_free free_last_next s5))
       else
         set_next unlocked_last free_last_next
           (upd_hdr unlocked_last
              (\<lambda>x. x\<lparr>h_size := u32 (h_size x + u32 (free_size + 2 ^ 32 - unlocked_size))\<rparr>) s3))))"

section \<open>One pass of the loop\<close>

text \<open>The loop goes on from a header (\<open>Again\<close>) or is left (\<open>Finished\<close>).\<close>

datatype pass_result = Finished | Again nat

text \<open>The second half of a pass: move, squish, relink.\<close>

definition compact_move ::
  "nat \<Rightarrow> nat \<Rightarrow> nat \<Rightarrow> nat \<Rightarrow> nat \<Rightarrow> nat \<Rightarrow> nat \<Rightarrow> rm_state \<Rightarrow> (pass_result \<times> rm_state) res" where
  "compact_move root_last_nonfree free_size free_first free_last unlocked_first unlocked_last
     block_before_first_unlocked s =
     (let adjacent = (nxt s free_last = unlocked_first);
          used_offset = header_memory_offset free_first unlocked_first s
      in if used_offset = 0 then Inr (Finished, s)
      else
        let unlocked_last_next = nxt s unlocked_last;
            free_last_next = nxt s free_last;
            unlocked_first_memory = h_memory (hdr s unlocked_first)
        in
        bind_res (move_used_blocks list_fuel used_offset unlocked_last 0 unlocked_first s)
          (\<lambda>(unlocked_size, s1).
        let free_memory_start = h_memory (hdr s1 free_first) in
        bind_res (squish_free_blocks list_fuel free_first free_first s1) (\<lambda>s2.
        bind_res
          (if adjacent
           then relink_adjacent free_memory_start unlocked_size free_size unlocked_last
                  unlocked_last_next s2
           else relink_nonadjacent unlocked_first_memory unlocked_size free_size unlocked_first
                  unlocked_last unlocked_last_next block_before_first_unlocked free_last_next s2)
          (\<lambda>s3.
        bind_res
          (if root_last_nonfree = 0 then Inr (s3\<lparr>header_root := unlocked_first\<rparr>)
           else set_next root_last_nonfree unlocked_first s3)
          (\<lambda>s4.
        Inr (Again unlocked_last, update_highest_address_if_needed unlocked_last s4))))))"

text \<open>The first half: the ranges, and the ways out of the loop.\<close>

definition compact_pass :: "nat \<Rightarrow> rm_state \<Rightarrow> (pass_result \<times> rm_state) res" where
  "compact_pass root s =
     bind_res (find_last_nonfree_header root s) (\<lambda>root_last_nonfree.
     bind_res (get_free_header_range root s) (\<lambda>(free_size, free_first, free_last, _).
     if free_size = 0 then Inr (Finished, s)
     else
       let start = nxt s free_last in
       if start = 0 then Inr (Finished, s)
       else
         let max_size = (if h_type (hdr s start) \<noteq> BLOCK_TYPE_UNLOCKED then free_size else 0) in
         bind_res (get_unlocked_header_range start 0 max_size False s)
           (\<lambda>(unlocked_size, unlocked_first, unlocked_last, block_before_first_unlocked,
              passed_free_blocks).
         if max_size > 0 \<and> unlocked_first = 0 \<and> unlocked_last = 0 then
           if nxt s free_last \<noteq> 0 \<and> passed_free_blocks then Inr (Again (nxt s free_last), s)
           else Inr (Finished, s)
         else if unlocked_size = 0 then Inr (Finished, s)
         else compact_move root_last_nonfree free_size free_first free_last unlocked_first
                unlocked_last block_before_first_unlocked s)))"

text \<open>
  The loop. \<open>i\<close> counts the readings of the clock; \<open>maxtime = 0\<close> is no limit.
\<close>

function compact_loop ::
  "nat \<Rightarrow> (nat \<Rightarrow> timespec) \<Rightarrow> nat \<Rightarrow> nat \<Rightarrow> nat \<Rightarrow> nat \<Rightarrow> rm_state \<Rightarrow> rm_state res" where
  "compact_loop fuel clk i start_time maxtime root s =
     (let now = uptime_nanoseconds (clk i);
          time_diff = u64 (now + 2 ^ 64 - start_time)
      in if maxtime > 0 \<and> time_diff \<ge> maxtime then Inr s
      else if fuel = 0 then Inl Diverge
      else
        bind_res (compact_pass root s) (\<lambda>(r, s').
        case r of Finished \<Rightarrow> Inr s'
        | Again root' \<Rightarrow> compact_loop (fuel - 1) clk (i + 1) start_time maxtime root' s'))"
  by pat_completeness auto
termination by (relation "measure (\<lambda>(fuel, _). fuel)") auto

declare compact_loop.simps [simp del]

section \<open>After the loop\<close>

text \<open>The highest used address and the header it belongs to.\<close>

function highest_used ::
  "nat \<Rightarrow> nat \<Rightarrow> nat \<Rightarrow> nat \<Rightarrow> rm_state \<Rightarrow> (nat \<times> nat) res" where
  "highest_used fuel highest_used_address largest_header h s =
     (if h \<noteq> 0 then
        if fuel = 0 then Inl Diverge
        else
          let top = u64 (h_memory (hdr s h) + h_size (hdr s h)) in
          if \<not> rm_header_is_unused s h \<and> h_type (hdr s h) \<noteq> BLOCK_TYPE_FREE
             \<and> top > highest_used_address
          then highest_used (fuel - 1) top h (nxt s h) s
          else highest_used (fuel - 1) highest_used_address largest_header (nxt s h) s
      else Inr (highest_used_address, largest_header))"
  by pat_completeness auto
termination by (relation "measure (\<lambda>(fuel, _). fuel)") auto

declare highest_used.simps [simp del]

text \<open>Drop the free blocks above the highest used address.\<close>

function prune_free_blocks :: "nat \<Rightarrow> nat \<Rightarrow> nat \<Rightarrow> rm_state \<Rightarrow> rm_state res" where
  "prune_free_blocks fuel highest_used_address h s =
     (if h \<noteq> 0 then
        if fuel = 0 then Inl Diverge
        else if \<not> rm_header_is_unused s h \<and> h_type (hdr s h) = BLOCK_TYPE_FREE
             \<and> h_memory (hdr s h) \<ge> highest_used_address
        then
          let s1 = header_set_unused h s;
              h' = nxt s1 h;
              s2 = upd_hdr h (\<lambda>x. x\<lparr>h_next := 0\<rparr>) s1
          in prune_free_blocks (fuel - 1) highest_used_address h' s2
        else prune_free_blocks (fuel - 1) highest_used_address (nxt s h) s
      else Inr s)"
  by pat_completeness auto
termination by (relation "measure (\<lambda>(fuel, _). fuel)") auto

declare prune_free_blocks.simps [simp del]

text \<open>Raise \<open>header_bottom\<close> over unused headers; past \<open>header_top\<close> it reads outside the heap.\<close>

function raise_header_bottom :: "rm_state \<Rightarrow> rm_state res" where
  "raise_header_bottom s =
     (if header_bottom s > header_top s then Inl Out_of_bounds
      else if rm_header_is_unused s (header_bottom s)
      then raise_header_bottom (s\<lparr>header_bottom := header_bottom s + sizeof_rm_header_t\<rparr>)
      else Inr s)"
  by pat_completeness auto
termination by (relation "measure (\<lambda>s. Suc (header_top s) - header_bottom s)") auto

declare raise_header_bottom.simps [simp del]

function rebuild_loop :: "nat \<Rightarrow> nat \<Rightarrow> rm_state \<Rightarrow> rm_state res" where
  "rebuild_loop fuel h s =
     (if h \<noteq> 0 then
        if fuel = 0 then Inl Diverge
        else if h_memory (hdr s h) = 0 \<or> h_type (hdr s h) \<noteq> BLOCK_TYPE_FREE
        then rebuild_loop (fuel - 1) (nxt s h) s
        else
          let k = rm_log2 (h_size (hdr s h)) in
          if h_size (hdr s h) \<ge> sizeof_free_memory_block_t then
            let block = rm_block_from_header s h;
                s1 = upd_blk block (\<lambda>x. x\<lparr>b_header := h, b_next := 0\<rparr>) s
            in
            bind_res (read_slot k s1) (\<lambda>first.
            bind_res
              (if first = 0 then write_slot k block s1
               else write_slot k block (upd_blk block (\<lambda>x. x\<lparr>b_next := first\<rparr>) s1))
              (\<lambda>s2. rebuild_loop (fuel - 1) (nxt s2 h) s2))
          else rebuild_loop (fuel - 1) (nxt s h) s
      else Inr s)"
  by pat_completeness auto
termination by (relation "measure (\<lambda>(fuel, _). fuel)") auto

declare rebuild_loop.simps [simp del]

definition rebuild_free_block_slots :: "rm_state \<Rightarrow> rm_state res" where
  "rebuild_free_block_slots s =
     rebuild_loop list_fuel (header_root s) (s\<lparr>slots := replicate (free_block_slot_count s) 0\<rparr>)"

text \<open>The part of \<open>rm_compact\<close> after the loop.\<close>

definition compact_finish :: "rm_state \<Rightarrow> rm_state res" where
  "compact_finish s =
     bind_res (highest_used list_fuel (memory_bottom s) (header_root s) (header_root s) s)
       (\<lambda>(highest_used_address, largest_header).
     bind_res (prune_free_blocks list_fuel highest_used_address (header_root s) s) (\<lambda>s1.
     bind_res (set_next largest_header 0 s1) (\<lambda>s2.
     bind_res (raise_header_bottom s2) (\<lambda>s3.
     bind_res (rebuild_free_block_slots s3) (\<lambda>s4.
     Inr (s4\<lparr>memory_top := highest_used_address\<rparr>))))))"

definition rm_compact :: "(nat \<Rightarrow> timespec) \<Rightarrow> nat \<Rightarrow> rm_state \<Rightarrow> rm_state res" where
  "rm_compact clk maxtime s =
     bind_res (rm_header_sort_all s) (\<lambda>s1.
     bind_res
       (compact_loop list_fuel clk 1 (uptime_nanoseconds (clk 0)) maxtime (header_root s1) s1)
       compact_finish)"

end
