(* ===== verification/Rm_Inv.thy ===== *)
theory Rm_Inv
  imports Rm_Compact
begin

text \<open>
  The well-formedness invariant of the allocator's state and the lemmas on it that the proofs
  of the operations share.

  \<open>wfs s L P F\<close> relates the state to three lists of headers: \<open>L\<close>, the header list in the order of
  the links; \<open>P\<close>, the same headers in the order of memory, whose extents fill the memory between
  \<open>memory_bottom\<close> and \<open>memory_top\<close> without a gap; and for each slot \<open>k\<close> the headers \<open>F k\<close> of its
  free list.
\<close>

section \<open>The invariant\<close>

definition geometry :: "rm_state \<Rightarrow> bool" where
  "geometry s \<longleftrightarrow>
     0 < memory_bottom s \<and> memory_bottom s \<le> memory_top s \<and> memory_top s < header_bottom s
     \<and> header_bottom s \<le> header_top s \<and> sizeof_rm_header_t dvd (header_top s - header_bottom s)
     \<and> header_top s < memory_bottom s + memory_size s \<and> memory_size s < 2 ^ 31
     \<and> header_top s + 2 ^ 32 \<le> 2 ^ 64
     \<and> free_block_slot_count s = rm_log2 (memory_size s) + 1
     \<and> length (slots s) = free_block_slot_count s"

definition placed :: "rm_state \<Rightarrow> nat list \<Rightarrow> nat list \<Rightarrow> bool" where
  "placed s L P \<longleftrightarrow>
     mset P = mset L \<and> tiled (memory_bottom s) (memory_top s) (map (extent s) P)
     \<and> (\<forall>h\<in>set L. sizeof_free_memory_block_t \<le> h_size (hdr s h))"

definition listed_free :: "rm_state \<Rightarrow> nat list \<Rightarrow> nat \<Rightarrow> nat \<Rightarrow> bool" where
  "listed_free s L k h \<longleftrightarrow>
     h \<in> set L \<and> h_type (hdr s h) = BLOCK_TYPE_FREE \<and> rm_log2 (h_size (hdr s h)) = k
     \<and> b_header (blk s (rm_block_from_header s h)) = h
     \<and> cell_stored (mem s) (rm_block_from_header s h) (blk s (rm_block_from_header s h))"

definition free_lists :: "rm_state \<Rightarrow> nat list \<Rightarrow> (nat \<Rightarrow> nat list) \<Rightarrow> bool" where
  "free_lists s L F \<longleftrightarrow>
     (\<forall>k<length (slots s).
        chain (bnxt s) (slots s ! k) (map (rm_block_from_header s) (F k)) 0
        \<and> (\<forall>h\<in>set (F k). listed_free s L k h))"

definition in_use :: "rm_state \<Rightarrow> nat \<Rightarrow> bool" where
  "in_use s h \<longleftrightarrow> h_type (hdr s h) \<noteq> BLOCK_TYPE_FREE"

definition wfs :: "rm_state \<Rightarrow> nat list \<Rightarrow> nat list \<Rightarrow> (nat \<Rightarrow> nat list) \<Rightarrow> bool" where
  "wfs s L P F \<longleftrightarrow>
     geometry s \<and> header_list s L \<and> unused_root_ok s \<and> (\<forall>h\<in>set L. header_slot s h)
     \<and> placed s L P \<and> free_lists s L F
     \<and> header_used_count s = int (length (filter (in_use s) L))"

definition well_formed :: "rm_state \<Rightarrow> bool" where
  "well_formed s \<longleftrightarrow> (\<exists>L P F. wfs s L P F)"

text \<open>The blocks the client holds: the headers on the list that have memory and are not free.\<close>

definition live :: "rm_state \<Rightarrow> nat \<Rightarrow> bool" where
  "live s h \<longleftrightarrow>
     (\<exists>L. chain (nxt s) (header_root s) L 0 \<and> h \<in> set L) \<and> h_memory (hdr s h) \<noteq> 0 \<and> in_use s h"

section \<open>Consequences\<close>

lemma header_list_distinct: "header_list s L \<Longrightarrow> distinct L"
  by (auto simp: header_list_def chain_null_distinct split: if_splits)

lemma placed_set: "placed s L P \<Longrightarrow> set P = set L"
  unfolding placed_def by (metis set_mset_mset)

lemma placed_bounds:
  assumes "placed s L P" and "h \<in> set L"
  shows "memory_bottom s \<le> h_memory (hdr s h)"
    and "h_memory (hdr s h) + h_size (hdr s h) \<le> memory_top s"
    and "sizeof_free_memory_block_t \<le> h_size (hdr s h)"
proof -
  have "extent s h \<in> set (map (extent s) P)" using assms placed_set by fastforce
  with assms(1) have "memory_bottom s \<le> fst (extent s h)
      \<and> fst (extent s h) + snd (extent s h) \<le> memory_top s"
    unfolding placed_def by (blast dest: tiled_bounds)
  then show "memory_bottom s \<le> h_memory (hdr s h)"
    and "h_memory (hdr s h) + h_size (hdr s h) \<le> memory_top s" by simp_all
  show "sizeof_free_memory_block_t \<le> h_size (hdr s h)" using assms by (simp add: placed_def)
qed

lemma placed_disjoint:
  assumes p: "placed s L P" and d: "distinct L"
    and gh: "g \<in> set L" "h \<in> set L" "g \<noteq> h"
  shows "disjoint_extents (extent s g) (extent s h)"
proof -
  have "set P = set L" using p by (rule placed_set)
  with gh obtain i j where ij: "i < length P" "g = P ! i" "j < length P" "h = P ! j"
    by (metis in_set_conv_nth)
  with gh have "i \<noteq> j" by auto
  have t: "tiled (memory_bottom s) (memory_top s) (map (extent s) P)"
    using p by (simp add: placed_def)
  from \<open>i \<noteq> j\<close> consider "i < j" | "j < i" by linarith
  then show ?thesis
  proof cases
    case 1
    with tiled_disjoint [OF t 1] ij show ?thesis by (simp add: disjoint_extents_def)
  next
    case 2
    with tiled_disjoint [OF t 2] ij show ?thesis by (simp add: disjoint_extents_def)
  qed
qed

lemma block_positions_apart:
  assumes "placed s L P" and "distinct L" and "g \<in> set L" and "h \<in> set L" and "g \<noteq> h"
  shows "rm_block_from_header s g \<noteq> rm_block_from_header s h"
  using placed_disjoint [OF assms] placed_bounds [OF assms(1,3)] placed_bounds [OF assms(1,4)]
  by (auto simp: disjoint_extents_def rm_block_from_header_def)

lemma cells_apart:
  assumes "placed s L P" and "distinct L" and "g \<in> set L" and "h \<in> set L" and "g \<noteq> h"
  shows "rm_block_from_header s g + sizeof_free_memory_block_t \<le> rm_block_from_header s h
    \<or> rm_block_from_header s h + sizeof_free_memory_block_t \<le> rm_block_from_header s g"
  using placed_disjoint [OF assms] placed_bounds [OF assms(1,3)] placed_bounds [OF assms(1,4)]
  by (auto simp: disjoint_extents_def rm_block_from_header_def)

lemma block_position_pos:
  assumes "geometry s" and "placed s L P" and "h \<in> set L"
  shows "0 < rm_block_from_header s h"
  using placed_bounds [OF assms(2,3)] assms(1)
  by (auto simp: rm_block_from_header_def geometry_def)

lemma wf_sizes:
  assumes "wfs s L P F" and "h \<in> set L"
  shows "memory_bottom s \<le> h_memory (hdr s h)"
    and "h_memory (hdr s h) + h_size (hdr s h) \<le> memory_top s"
    and "sizeof_free_memory_block_t \<le> h_size (hdr s h)"
    and "h_size (hdr s h) < memory_size s"
    and "h_size (hdr s h) < 2 ^ 31"
    and "0 < h_memory (hdr s h)"
    and "h_memory (hdr s h) + h_size (hdr s h) < header_bottom s"
    and "h_memory (hdr s h) + h_size (hdr s h) < 2 ^ 64"
    and "rm_log2 (h_size (hdr s h)) < length (slots s)"
proof -
  have g: "geometry s" and p: "placed s L P" using assms(1) by (auto simp: wfs_def)
  show b: "memory_bottom s \<le> h_memory (hdr s h)"
      "h_memory (hdr s h) + h_size (hdr s h) \<le> memory_top s"
      "sizeof_free_memory_block_t \<le> h_size (hdr s h)"
    using placed_bounds [OF p assms(2)] .
  with g show "h_size (hdr s h) < memory_size s" "h_size (hdr s h) < 2 ^ 31"
      "0 < h_memory (hdr s h)" "h_memory (hdr s h) + h_size (hdr s h) < header_bottom s"
      "h_memory (hdr s h) + h_size (hdr s h) < 2 ^ 64"
    by (auto simp: geometry_def)
  then have "rm_log2 (h_size (hdr s h)) \<le> rm_log2 (memory_size s)"
    using b g by (intro rm_log2_mono) (auto simp: geometry_def)
  with g show "rm_log2 (h_size (hdr s h)) < length (slots s)" by (simp add: geometry_def)
qed

lemma wf_parts:
  assumes "wfs s L P F"
  shows "geometry s" and "header_list s L" and "unused_root_ok s"
    and "\<And>h. h \<in> set L \<Longrightarrow> header_slot s h" and "placed s L P" and "free_lists s L F"
    and "distinct L" and "length (slots s) = rm_log2 (memory_size s) + 1"
  using assms by (auto simp: wfs_def geometry_def header_list_distinct)

lemma free_lists_member:
  "free_lists s L F \<Longrightarrow> k < length (slots s) \<Longrightarrow> h \<in> set (F k) \<Longrightarrow> listed_free s L k h"
  by (auto simp: free_lists_def)

lemma free_lists_chain:
  "free_lists s L F \<Longrightarrow> k < length (slots s) \<Longrightarrow>
   chain (bnxt s) (slots s ! k) (map (rm_block_from_header s) (F k)) 0"
  by (auto simp: free_lists_def)

text \<open>A free list is not touched by writes that keep its blocks and their headers.\<close>

lemma free_lists_cong:
  assumes fl: "free_lists s L F" and sl: "slots s' = slots s"
    and same: "\<And>k h. k < length (slots s) \<Longrightarrow> h \<in> set (F k) \<Longrightarrow>
        h \<in> set L' \<and> h_memory (hdr s' h) = h_memory (hdr s h)
        \<and> h_size (hdr s' h) = h_size (hdr s h) \<and> h_type (hdr s' h) = h_type (hdr s h)
        \<and> blk s' (rm_block_from_header s h) = blk s (rm_block_from_header s h)
        \<and> (cell_stored (mem s) (rm_block_from_header s h) (blk s (rm_block_from_header s h))
           \<longrightarrow> cell_stored (mem s') (rm_block_from_header s h) (blk s (rm_block_from_header s h)))"
  shows "free_lists s' L' F"
  unfolding free_lists_def
proof (intro allI impI conjI)
  fix k assume k: "k < length (slots s')"
  with sl have k': "k < length (slots s)" by simp
  with fl have c: "chain (bnxt s) (slots s ! k) (map (rm_block_from_header s) (F k)) 0"
    and l: "\<forall>h\<in>set (F k). listed_free s L k h"
    by (auto simp: free_lists_def)
  have pos: "rm_block_from_header s' h = rm_block_from_header s h" if "h \<in> set (F k)" for h
    using same [OF k' that] by (simp add: rm_block_from_header_def)
  then have m: "map (rm_block_from_header s') (F k) = map (rm_block_from_header s) (F k)"
    by (intro map_cong) auto
  have "chain (bnxt s') (slots s ! k) (map (rm_block_from_header s) (F k)) 0
      = chain (bnxt s) (slots s ! k) (map (rm_block_from_header s) (F k)) 0"
    using same [OF k'] by (intro chain_cong) auto
  with c sl show "chain (bnxt s') (slots s' ! k) (map (rm_block_from_header s') (F k)) 0"
    unfolding m by simp
  show "\<forall>h\<in>set (F k). listed_free s' L' k h"
    using l same [OF k'] pos by (auto simp: listed_free_def)
qed

lemma placed_cong:
  assumes "placed s L P" and "memory_bottom s' = memory_bottom s" and "memory_top s' = memory_top s"
    and "\<And>h. h \<in> set L \<Longrightarrow> extent s' h = extent s h"
  shows "placed s' L P"
proof -
  have m: "map (extent s') P = map (extent s) P"
    using assms(4) placed_set [OF assms(1)] by (intro map_cong) auto
  have "h_size (hdr s' h) = h_size (hdr s h)" if "h \<in> set L" for h
    using assms(4) [OF that] by (metis extent_sel(2))
  with assms show ?thesis by (simp add: placed_def m)
qed

lemma in_use_count_step:
  assumes d: "distinct L" and h: "h \<in> set L" and n: "\<not> p h"
    and q: "\<And>x. q x \<longleftrightarrow> x = h \<or> p x"
  shows "length (filter q L) = Suc (length (filter p L))"
proof -
  have "{x \<in> set L. q x} = insert h {x \<in> set L. p x}" using h q by auto
  then have "card {x \<in> set L. q x} = Suc (card {x \<in> set L. p x})" using n by simp
  with d show ?thesis by (simp add: distinct_length_filter Int_def conj_commute)
qed

lemma live_wf:
  assumes w: "wfs s L P F"
  shows "live s h \<longleftrightarrow> h \<in> set L \<and> in_use s h"
proof (cases "L = []")
  case True
  with wf_parts(2) [OF w] have r: "header_root s \<noteq> 0" "unused_header_root s = header_root s"
    by (auto simp: header_list_def)
  with wf_parts(3) [OF w] have "nxt s (header_root s) = 0" "h_memory (hdr s (header_root s)) = 0"
    by (auto simp: unused_root_ok_def Let_def)
  then have "chain (nxt s) (header_root s) M 0 \<Longrightarrow> h \<in> set M \<Longrightarrow> h_memory (hdr s h) = 0" for M
    by (cases M) auto
  with True show ?thesis by (auto simp: live_def)
next
  case False
  with wf_parts(2) [OF w] have "chain (nxt s) (header_root s) L 0" by (simp add: header_list_def)
  then show ?thesis using wf_sizes(6) [OF w] by (auto simp: live_def dest: chain_functional)
qed

section \<open>The bytes between the blocks in use\<close>

text \<open>
  \<open>spare s x\<close>: the address \<open>x\<close> lies in the memory of the blocks but in no block in use. These are the
  bytes the allocator may write its cells to; \<open>keeps_bytes\<close> says that it writes no others.
\<close>

definition spare :: "rm_state \<Rightarrow> nat \<Rightarrow> bool" where
  "spare s x \<longleftrightarrow>
     memory_bottom s \<le> x \<and> x < memory_top s
     \<and> (\<forall>g. live s g \<longrightarrow> \<not> (h_memory (hdr s g) \<le> x \<and> x < h_memory (hdr s g) + h_size (hdr s g)))"

definition keeps_bytes :: "rm_state \<Rightarrow> rm_state \<Rightarrow> bool" where
  "keeps_bytes s s' \<longleftrightarrow> (\<forall>x. \<not> spare s x \<longrightarrow> mem s' x = mem s x)"

lemma keeps_bytes_same: "mem s' = mem s \<Longrightarrow> keeps_bytes s s'"
  by (simp add: keeps_bytes_def)

lemma keeps_bytes_trans:
  "keeps_bytes s t \<Longrightarrow> keeps_bytes t u \<Longrightarrow> (\<And>x. spare t x \<Longrightarrow> spare s x) \<Longrightarrow> keeps_bytes s u"
  unfolding keeps_bytes_def by metis

lemma spare_cell:
  assumes w: "wfs s L P F" and h: "h \<in> set L" "\<not> in_use s h"
    and x: "h_memory (hdr s h) \<le> x" "x < h_memory (hdr s h) + h_size (hdr s h)"
  shows "spare s x"
  unfolding spare_def
proof (intro conjI allI impI notI)
  show "memory_bottom s \<le> x" "x < memory_top s" using wf_sizes(1,2) [OF w h(1)] x by simp_all
  fix g assume "live s g" and g: "h_memory (hdr s g) \<le> x \<and> x < h_memory (hdr s g) + h_size (hdr s g)"
  then have "g \<in> set L" "g \<noteq> h" using live_wf [OF w, of g] h(2) by auto
  from placed_disjoint [OF wf_parts(5,7) [OF w] this(1) h(1) this(2)] g x show False
    by (auto simp: disjoint_extents_def)
qed

text \<open>A cell anywhere in a free block is spare.\<close>

lemma keeps_bytes_cell:
  assumes w: "wfs s L P F" and h: "h \<in> set L" "\<not> in_use s h"
    and b: "h_memory (hdr s h) \<le> b" "b + sizeof_free_memory_block_t \<le> h_memory (hdr s h) + h_size (hdr s h)"
    and m: "mem s' = store_cell b c (mem s)"
  shows "keeps_bytes s s'"
  unfolding keeps_bytes_def
proof (intro allI impI)
  fix x assume "\<not> spare s x"
  then have "x < b \<or> b + sizeof_free_memory_block_t \<le> x" using spare_cell [OF w h, of x] b by linarith
  then show "mem s' x = mem s x" unfolding m by (rule store_cell_else)
qed

lemma keeps_bytes_own_cell:
  assumes w: "wfs s L P F" and h: "h \<in> set L" "\<not> in_use s h"
    and m: "mem s' = store_cell (rm_block_from_header s h) c (mem s)"
  shows "keeps_bytes s s'"
  by (rule keeps_bytes_cell [OF w h _ _ m])
    (use wf_sizes(3) [OF w h(1)] in \<open>auto simp: rm_block_from_header_def\<close>)

section \<open>Writes that keep the invariant\<close>

text \<open>Changing the type of a block in use, or only fields outside of the invariant.\<close>

lemma wf_same:
  assumes "wfs s L P F"
    and "memory_bottom s' = memory_bottom s" "memory_top s' = memory_top s"
      "memory_size s' = memory_size s" "free_block_slot_count s' = free_block_slot_count s"
      "header_top s' = header_top s" "header_bottom s' = header_bottom s"
      "header_root s' = header_root s" "unused_header_root s' = unused_header_root s"
      "header_used_count s' = header_used_count s" "slots s' = slots s" "hdr s' = hdr s"
      "blk s' = blk s" "mem s' = mem s"
  shows "wfs s' L P F"
proof -
  have e: "extent s' = extent s" "rm_block_from_header s' = rm_block_from_header s"
      "in_use s' = in_use s" "header_slot s' = header_slot s"
    using assms(2-) by (simp_all add: fun_eq_iff extent_def rm_block_from_header_def
        in_use_def header_slot_def)
  have l: "listed_free s' = listed_free s"
    using assms(2-) e by (intro ext) (simp add: listed_free_def)
  from assms show ?thesis
    by (simp add: wfs_def geometry_def header_list_def unused_root_ok_def placed_def
        free_lists_def e l)
qed

lemma wf_retype:
  assumes w: "wfs s L P F" and h: "h \<in> set L" "in_use s h" and t: "t \<noteq> BLOCK_TYPE_FREE"
  shows "wfs (upd_hdr h (\<lambda>x. x\<lparr>h_type := t\<rparr>) s) L P F"
proof -
  let ?s = "upd_hdr h (\<lambda>x. x\<lparr>h_type := t\<rparr>) s"
  have fl: "free_lists ?s L F"
  proof (rule free_lists_cong [OF wf_parts(6) [OF w]])
    fix k g assume "k < length (slots s)" "g \<in> set (F k)"
    with wf_parts(6) [OF w] have l: "listed_free s L k g" by (rule free_lists_member)
    with h have "g \<noteq> h" by (auto simp: listed_free_def in_use_def)
    with l show "g \<in> set L \<and> h_memory (hdr ?s g) = h_memory (hdr s g)
        \<and> h_size (hdr ?s g) = h_size (hdr s g) \<and> h_type (hdr ?s g) = h_type (hdr s g)
        \<and> blk ?s (rm_block_from_header s g) = blk s (rm_block_from_header s g)
        \<and> (cell_stored (mem s) (rm_block_from_header s g) (blk s (rm_block_from_header s g))
           \<longrightarrow> cell_stored (mem ?s) (rm_block_from_header s g) (blk s (rm_block_from_header s g)))"
      by (simp add: listed_free_def)
  qed simp
  have pl: "placed ?s L P"
    using wf_parts(5) [OF w] by (rule placed_cong) (auto simp: extent_def)
  have ch: "chain (nxt ?s) (header_root s) L 0 = chain (nxt s) (header_root s) L 0"
    by (rule chain_cong) auto
  have use: "in_use ?s = in_use s" using h t by (auto simp: in_use_def fun_eq_iff)
  have u: "unused_root_ok ?s"
    using w by (auto simp: wfs_def unused_root_ok_def header_slot_def Let_def)
  have g: "geometry ?s" using wf_parts(1) [OF w] by (simp add: geometry_def)
  have hl: "header_list ?s L" using wf_parts(2) [OF w] ch by (simp add: header_list_def)
  have sl: "\<forall>g\<in>set L. header_slot ?s g"
    using wf_parts(4) [OF w] by (simp add: header_slot_def)
  show ?thesis using w by (simp add: wfs_def g hl u sl pl fl use)
qed

end
