(* ===== verification/Rm_Ranges.thy ===== *)
theory Rm_Ranges
  imports Rm_Inv
begin

text \<open>
  What the range functions of the compaction find: on a list of headers that ends, each loop
  stops within the fuel and splits the list at the place where it stopped.
\<close>

section \<open>Ends of lists\<close>

text \<open>The C code represents "no header" by the null pointer.\<close>

definition head0 :: "nat list \<Rightarrow> nat" where
  "head0 xs = (if xs = [] then 0 else hd xs)"

definition last0 :: "nat \<Rightarrow> nat list \<Rightarrow> nat" where
  "last0 d xs = (if xs = [] then d else last xs)"

lemma head0_simps [simp]: "head0 [] = 0" "head0 (x # xs) = x"
  by (simp_all add: head0_def)

lemma last0_simps [simp]: "last0 d [] = d" "last0 d (x # xs) = last0 x xs"
  by (simp_all add: last0_def)

lemma chain_head0: "chain nx p xs 0 \<Longrightarrow> head0 xs = p"
  by (cases xs) auto

lemma chain_head0_append: "chain nx p (xs @ ys) 0 \<Longrightarrow> chain nx p xs (head0 ys)"
  by (auto simp: chain_append chain_head0)

lemma chain_last_link: "chain nx p xs r \<Longrightarrow> xs \<noteq> [] \<Longrightarrow> nx (last xs) = r"
  by (induction xs arbitrary: p) auto

lemma chain_relink_last:
  "chain nx p xs r \<Longrightarrow> xs \<noteq> [] \<Longrightarrow> distinct xs \<Longrightarrow> chain (nx(last xs := v)) p xs v"
  by (induction xs arbitrary: p) (auto split: if_splits)

definition sizes :: "rm_state \<Rightarrow> nat list \<Rightarrow> nat" where
  "sizes s xs = sum_list (map (\<lambda>h. h_size (hdr s h)) xs)"

lemma sizes_simps [simp]:
  "sizes s [] = 0" "sizes s (x # xs) = h_size (hdr s x) + sizes s xs"
  "sizes s (xs @ ys) = sizes s xs + sizes s ys"
  by (simp_all add: sizes_def)

definition is_free :: "rm_state \<Rightarrow> nat \<Rightarrow> bool" where
  "is_free s h \<longleftrightarrow> h_type (hdr s h) = BLOCK_TYPE_FREE"

definition is_unlocked :: "rm_state \<Rightarrow> nat \<Rightarrow> bool" where
  "is_unlocked s h \<longleftrightarrow> h_type (hdr s h) = BLOCK_TYPE_UNLOCKED"

lemma in_use_is_free: "in_use s h \<longleftrightarrow> \<not> is_free s h"
  by (simp add: in_use_def is_free_def)

lemma unlocked_in_use: "is_unlocked s h \<Longrightarrow> in_use s h"
  by (simp add: in_use_def is_unlocked_def)

section \<open>Free ranges\<close>

lemma find_last_nonfree_loop_spec:
  "chain (nxt s) p xs 0 \<Longrightarrow> length xs \<le> fuel \<Longrightarrow>
   find_last_nonfree_loop fuel l p s = Inr (last0 l (takeWhile (in_use s) xs))"
proof (induction xs arbitrary: p l fuel)
  case Nil
  then show ?case by (simp add: find_last_nonfree_loop.simps)
next
  case (Cons x xs)
  then obtain f where "fuel = Suc f" by (cases fuel) auto
  moreover have "h_type (hdr s x) \<noteq> BLOCK_TYPE_FREE \<longleftrightarrow> in_use s x" by (simp add: in_use_def)
  ultimately show ?case using Cons by (subst find_last_nonfree_loop.simps) auto
qed

lemma last0_in: "xs \<noteq> [] \<Longrightarrow> last0 d xs \<in> set xs"
  by (simp add: last0_def)

lemma find_last_nonfree_header_spec:
  assumes "chain (nxt s) p xs 0" and "length xs \<le> list_fuel"
  shows "find_last_nonfree_header p s = Inr (last0 0 (takeWhile (in_use s) xs))"
proof -
  let ?l = "last0 0 (takeWhile (in_use s) xs)"
  have "?l = 0 \<or> in_use s ?l"
    using last0_in [of "takeWhile (in_use s) xs" 0] by (cases "takeWhile (in_use s) xs = []")
      (auto dest: set_takeWhileD)
  then show ?thesis
    using find_last_nonfree_loop_spec [OF assms, of 0]
    by (auto simp: find_last_nonfree_header_def in_use_def)
qed

lemma skip_to_free_spec:
  "chain (nxt s) p xs 0 \<Longrightarrow> length xs \<le> fuel \<Longrightarrow>
   skip_to_free fuel p s = Inr (head0 (dropWhile (in_use s) xs))"
proof (induction xs arbitrary: p fuel)
  case Nil
  then show ?case by (simp add: skip_to_free.simps)
next
  case (Cons x xs)
  then obtain f where "fuel = Suc f" by (cases fuel) auto
  moreover have "h_type (hdr s x) \<noteq> BLOCK_TYPE_FREE \<longleftrightarrow> in_use s x" by (simp add: in_use_def)
  ultimately show ?case using Cons by (subst skip_to_free.simps) auto
qed

lemma sum_free_range_spec:
  "chain (nxt s) p xs 0 \<Longrightarrow> length xs \<le> fuel \<Longrightarrow> acc + sizes s xs < 2 ^ 32 \<Longrightarrow>
   \<exists>b. sum_free_range fuel acc l b0 p s
     = Inr (acc + sizes s (takeWhile (is_free s) xs), last0 l (takeWhile (is_free s) xs), b)"
proof (induction xs arbitrary: p fuel acc l b0)
  case Nil
  then show ?case by (simp add: sum_free_range.simps)
next
  case (Cons x xs)
  then obtain f where f: "fuel = Suc f" by (cases fuel) auto
  show ?case
  proof (cases "is_free s x")
    case True
    let ?acc = "acc + h_size (hdr s x)"
    have "\<exists>b. sum_free_range f ?acc x l (nxt s x) s
        = Inr (?acc + sizes s (takeWhile (is_free s) xs), last0 x (takeWhile (is_free s) xs), b)"
      using Cons.prems f by (intro Cons.IH) auto
    moreover have "sum_free_range fuel acc l b0 p s = sum_free_range f (u32 ?acc) x l (nxt s x) s"
      using Cons.prems f True by (subst sum_free_range.simps) (simp add: is_free_def)
    moreover have "u32 ?acc = ?acc" using Cons.prems by (intro u32_small) simp
    ultimately show ?thesis using True by (simp add: add.assoc)
  next
    case False
    then show ?thesis using Cons.prems f
      by (subst sum_free_range.simps) (simp add: is_free_def)
  qed
qed

lemma get_free_header_range_spec:
  assumes "chain (nxt s) p xs 0" and "length xs \<le> list_fuel" and "sizes s xs < 2 ^ 32"
    and "xs = A @ FR @ T" and "A = takeWhile (in_use s) xs"
    and "FR = takeWhile (is_free s) (FR @ T)"
  shows "\<exists>b. get_free_header_range p s = Inr (sizes s FR, head0 FR, last0 0 FR, b)"
proof -
  have d: "dropWhile (in_use s) xs = FR @ T"
    using assms(4,5) by (metis append_same_eq takeWhile_dropWhile_id same_append_eq)
  have sk: "skip_to_free list_fuel p s = Inr (head0 (FR @ T))"
    using skip_to_free_spec [OF assms(1,2)] d by simp
  show ?thesis
  proof (cases "FR = []")
    case True
    have "T = []"
    proof (rule ccontr)
      assume "T \<noteq> []"
      with d True have "\<not> in_use s (hd T)" by (metis append_Nil hd_dropWhile)
      then show False using assms(6) True \<open>T \<noteq> []\<close> by (cases T) (auto simp: in_use_is_free)
    qed
    with True sk show ?thesis by (simp add: get_free_header_range_def)
  next
    case False
    have c: "chain (nxt s) (hd FR) (FR @ T) 0"
      using assms(1,4) False by (cases FR) (auto simp: chain_append)
    have l: "length (FR @ T) \<le> list_fuel" "0 + sizes s (FR @ T) < 2 ^ 32"
      using assms(2-4) by auto
    have "hd FR \<noteq> 0" using c False by (cases FR) auto
    moreover from sum_free_range_spec [OF c l, of "hd FR" 0] assms(6)
    obtain b where "sum_free_range list_fuel 0 (hd FR) 0 (hd FR) s
        = Inr (sizes s FR, last0 (hd FR) FR, b)" by auto
    moreover have "last0 (hd FR) FR = last0 0 FR" using False by (simp add: last0_def)
    moreover have "head0 (FR @ T) = hd FR" "head0 FR = hd FR" using False
      by (simp_all add: head0_def)
    ultimately show ?thesis using sk False by (simp add: get_free_header_range_def)
  qed
qed

section \<open>Unlocked ranges\<close>

lemma skip_to_unlocked_spec:
  "chain (nxt s) p xs 0 \<Longrightarrow> length xs \<le> fuel \<Longrightarrow>
   \<exists>M T b'. xs = M @ T \<and> (T \<noteq> [] \<longrightarrow> is_unlocked s (hd T)) \<and> (\<forall>h\<in>set M. \<not> is_unlocked s h)
     \<and> skip_to_unlocked fuel p prev b s = Inr (head0 T, last0 prev M, b')"
proof (induction xs arbitrary: p fuel prev b)
  case Nil
  then show ?case by (simp add: skip_to_unlocked.simps)
next
  case (Cons x xs)
  then obtain f where f: "fuel = Suc f" by (cases fuel) auto
  show ?case
  proof (cases "is_unlocked s x")
    case True
    then have "skip_to_unlocked fuel p prev b s = Inr (x, prev, b)"
      using Cons.prems by (subst skip_to_unlocked.simps) (simp add: is_unlocked_def)
    with True show ?thesis by (intro exI [of _ "[]"] exI [of _ "x # xs"]) simp
  next
    case False
    have "chain (nxt s) (nxt s x) xs 0" "length xs \<le> f" using Cons.prems f by auto
    from Cons.IH [OF this, of x "b \<or> h_type (hdr s x) = BLOCK_TYPE_FREE"] obtain M T b' where
      "xs = M @ T" "T \<noteq> [] \<longrightarrow> is_unlocked s (hd T)" "\<forall>h\<in>set M. \<not> is_unlocked s h"
      "skip_to_unlocked f (nxt s x) x (b \<or> h_type (hdr s x) = BLOCK_TYPE_FREE) s
        = Inr (head0 T, last0 x M, b')" by blast
    moreover have "skip_to_unlocked fuel p prev b s
        = skip_to_unlocked f (nxt s x) x (b \<or> h_type (hdr s x) = BLOCK_TYPE_FREE) s"
      using Cons.prems f False by (subst skip_to_unlocked.simps) (simp add: is_unlocked_def)
    ultimately show ?thesis using False
      by (intro exI [of _ "x # M"] exI [of _ T] exI [of _ b']) simp
  qed
qed

lemma skip_to_fitting_spec:
  "chain (nxt s) p xs 0 \<Longrightarrow> length xs \<le> fuel \<Longrightarrow>
   \<exists>M T found. xs = M @ T
     \<and> (found \<longrightarrow> T \<noteq> [] \<and> is_unlocked s (hd T) \<and> h_size (hdr s (hd T)) \<le> mx)
     \<and> skip_to_fitting fuel mx p prev s = Inr (found, head0 T, last0 prev M)"
proof (induction xs arbitrary: p fuel prev)
  case Nil
  then show ?case by (intro exI [of _ "[]"] exI [of _ False]) (simp add: skip_to_fitting.simps)
next
  case (Cons x xs)
  then obtain f where f: "fuel = Suc f" by (cases fuel) auto
  have p: "p = x" "x \<noteq> 0" using Cons.prems by auto
  consider (free) "is_free s x" | (fits) "is_unlocked s x" "h_size (hdr s x) \<le> mx"
    | (other) "\<not> is_free s x" "\<not> (is_unlocked s x \<and> h_size (hdr s x) \<le> mx)" by blast
  then show ?case
  proof cases
    case free
    then have "skip_to_fitting fuel mx p prev s = Inr (False, x, prev)"
      using p by (subst skip_to_fitting.simps) (simp add: is_free_def)
    then show ?thesis by (intro exI [of _ "[]"] exI [of _ "x # xs"] exI [of _ False]) simp
  next
    case fits
    then have "skip_to_fitting fuel mx p prev s = Inr (True, x, prev)"
      using p f by (subst skip_to_fitting.simps) (simp add: is_unlocked_def)
    with fits show ?thesis by (intro exI [of _ "[]"] exI [of _ "x # xs"] exI [of _ True]) simp
  next
    case other
    have "chain (nxt s) (nxt s x) xs 0" "length xs \<le> f" using Cons.prems f by auto
    from Cons.IH [OF this, of x] obtain M T found where
      "xs = M @ T" "found \<longrightarrow> T \<noteq> [] \<and> is_unlocked s (hd T) \<and> h_size (hdr s (hd T)) \<le> mx"
      "skip_to_fitting f mx (nxt s x) x s = Inr (found, head0 T, last0 x M)" by blast
    moreover have "skip_to_fitting fuel mx p prev s = skip_to_fitting f mx (nxt s x) x s"
      using p f other by (subst skip_to_fitting.simps) (auto simp: is_free_def is_unlocked_def)
    ultimately show ?thesis
      by (intro exI [of _ "x # M"] exI [of _ T] exI [of _ found]) simp
  qed
qed

lemma sum_unlocked_range_spec:
  "chain (nxt s) p xs 0 \<Longrightarrow> length xs \<le> fuel \<Longrightarrow> acc + sizes s xs < 2 ^ 32 \<Longrightarrow>
   \<exists>U R. xs = U @ R \<and> (\<forall>h\<in>set U. is_unlocked s h)
     \<and> (0 < mx \<longrightarrow> U = [] \<or> acc + sizes s U \<le> mx)
     \<and> (xs \<noteq> [] \<and> is_unlocked s (hd xs) \<and> (mx = 0 \<or> acc + h_size (hdr s (hd xs)) \<le> mx)
         \<longrightarrow> U \<noteq> [])
     \<and> sum_unlocked_range fuel mx acc l p s = Inr (acc + sizes s U, last0 l U, head0 R)"
proof (induction xs arbitrary: p fuel acc l)
  case Nil
  then show ?case by (simp add: sum_unlocked_range.simps)
next
  case (Cons x xs)
  then obtain f where f: "fuel = Suc f" by (cases fuel) auto
  have p: "p = x" "x \<noteq> 0" using Cons.prems by auto
  let ?acc = "acc + h_size (hdr s x)"
  have u: "u32 ?acc = ?acc" using Cons.prems by (intro u32_small) simp
  show ?case
  proof (cases "is_unlocked s x \<and> (mx = 0 \<or> ?acc \<le> mx)")
    case True
    have "chain (nxt s) (nxt s x) xs 0" "length xs \<le> f" "?acc + sizes s xs < 2 ^ 32"
      using Cons.prems f by auto
    from Cons.IH [OF this, of x] obtain U R where
      "xs = U @ R" "\<forall>h\<in>set U. is_unlocked s h" "0 < mx \<longrightarrow> U = [] \<or> ?acc + sizes s U \<le> mx"
      "sum_unlocked_range f mx ?acc x (nxt s x) s = Inr (?acc + sizes s U, last0 x U, head0 R)"
      by blast
    moreover have "sum_unlocked_range fuel mx acc l p s
        = sum_unlocked_range f mx ?acc x (nxt s x) s"
      using p f True u by (subst sum_unlocked_range.simps) (auto simp: is_unlocked_def)
    ultimately show ?thesis using True
      by (intro exI [of _ "x # U"] exI [of _ R]) (auto simp: add.assoc)
  next
    case False
    then have "sum_unlocked_range fuel mx acc l p s = Inr (acc, l, x)"
      using p f u by (subst sum_unlocked_range.simps) (auto simp: is_unlocked_def)
    with False show ?thesis by (intro exI [of _ "[]"] exI [of _ "x # xs"]) auto
  qed
qed

text \<open>
  A range that is found is a part \<open>U\<close> of the list, all of its blocks unlocked, and \<open>M\<close> is what was
  passed on the way; with a size limit it does not exceed the limit.
\<close>

lemma get_unlocked_header_range_spec:
  assumes c: "chain (nxt s) p xs 0" and l: "length xs \<le> list_fuel" and sz: "sizes s xs < 2 ^ 32"
  shows "\<exists>n f k prev b. get_unlocked_header_range p 0 mx False s = Inr (n, f, k, prev, b)
    \<and> (n = 0 \<and> f = 0 \<and> k = 0 \<and> \<not> (mx = 0 \<and> xs \<noteq> [] \<and> is_unlocked s (hd xs))
       \<or> (\<exists>M U R. xs = M @ U @ R \<and> U \<noteq> [] \<and> (\<forall>h\<in>set U. is_unlocked s h) \<and> n = sizes s U
            \<and> f = hd U \<and> k = last U \<and> prev = last0 0 M \<and> (0 < mx \<longrightarrow> n \<le> mx)
            \<and> (mx = 0 \<and> is_unlocked s (hd xs) \<longrightarrow> M = [])))"
proof -
  from skip_to_unlocked_spec [OF c l, of 0 False] obtain M T b where
    1: "xs = M @ T" "T \<noteq> [] \<longrightarrow> is_unlocked s (hd T)" "\<forall>h\<in>set M. \<not> is_unlocked s h"
       "skip_to_unlocked list_fuel p 0 False s = Inr (head0 T, last0 0 M, b)" by blast
  show ?thesis
  proof (cases "T = []")
    case True
    moreover have "xs \<noteq> [] \<Longrightarrow> \<not> is_unlocked s (hd xs)" using 1(1,3) True by (cases xs) auto
    ultimately show ?thesis using 1(4) by (auto simp: get_unlocked_header_range_def)
  next
    case False
    have cT: "chain (nxt s) (head0 T) T 0" "length T \<le> list_fuel"
      using c l 1(1) False by (auto simp: chain_append chain_head0)
    have h0: "head0 T \<noteq> 0" using cT False by (cases T) auto
    have "\<exists>M' T' found. T = M' @ T'
       \<and> (found \<longrightarrow> T' \<noteq> [] \<and> is_unlocked s (hd T') \<and> (mx = 0 \<or> h_size (hdr s (hd T')) \<le> mx))
       \<and> (mx = 0 \<longrightarrow> M' = [])
       \<and> (if mx > 0 then skip_to_fitting list_fuel mx (head0 T) (last0 0 M) s
          else Inr (True, head0 T, last0 0 M)) = Inr (found, head0 T', last0 (last0 0 M) M')"
    proof (cases "mx > 0")
      case True
      with skip_to_fitting_spec [OF cT, of mx "last0 0 M"] show ?thesis by auto
    next
      case mx0: False
      with 1(2) False show ?thesis by (intro exI [of _ "[]"] exI [of _ T] exI [of _ True]) simp
    qed
    then obtain M' T' found where
      2: "T = M' @ T'" "found \<Longrightarrow> T' \<noteq> []" "found \<Longrightarrow> is_unlocked s (hd T')"
       "found \<Longrightarrow> mx = 0 \<or> h_size (hdr s (hd T')) \<le> mx" "mx = 0 \<longrightarrow> M' = []"
       "(if mx > 0 then skip_to_fitting list_fuel mx (head0 T) (last0 0 M) s
          else Inr (True, head0 T, last0 0 M)) = Inr (found, head0 T', last0 (last0 0 M) M')"
      by blast
    show ?thesis
    proof (cases found)
      case False
      moreover from this have "mx \<noteq> 0" using 2(6) by (cases "mx = 0") auto
      ultimately show ?thesis
        using 1(4) 2(6) h0 by (simp add: get_unlocked_header_range_def Let_def)
    next
      case True
      have cT': "chain (nxt s) (head0 T') T' 0" "length T' \<le> list_fuel" "0 + sizes s T' < 2 ^ 32"
        using cT 2(1) sz 1(1) by (auto simp: chain_append chain_head0)
      from sum_unlocked_range_spec [OF cT', of mx "head0 T'"] 2(2-4) True obtain U R where
        3: "T' = U @ R" "\<forall>h\<in>set U. is_unlocked s h" "0 < mx \<longrightarrow> sizes s U \<le> mx" "U \<noteq> []"
          "sum_unlocked_range list_fuel mx 0 (head0 T') (head0 T') s
            = Inr (sizes s U, last0 (head0 T') U, head0 R)"
        by (auto simp: sizes_def)
      have e: "last0 (head0 T') U = last U" "head0 T' = hd U" using 3(1,4)
        by (simp_all add: last0_def head0_def)
      have g: "\<exists>b'. get_unlocked_header_range p 0 mx False s
          = Inr (sizes s U, hd U, last U, last0 (last0 0 M) M', b')"
        using 1(4) 2(6) 3(5) h0 True e by (simp add: get_unlocked_header_range_def Let_def)
      moreover have "last0 (last0 0 M) M' = last0 0 (M @ M')"
        by (cases "M' = []") (auto simp: last0_def)
      moreover have "xs = (M @ M') @ U @ R" using 1(1) 2(1) 3(1) by simp
      moreover have "mx = 0 \<and> is_unlocked s (hd xs) \<longrightarrow> M @ M' = []"
        using 1(1,3) 2(5) by (cases M) auto
      ultimately show ?thesis using 3(2-4) by metis
    qed
  qed
qed

section \<open>The ways a pass can go\<close>

lemma compact_pass_spec:
  assumes c: "chain (nxt s) root xs 0" and l: "length xs \<le> list_fuel" and sz: "sizes s xs < 2 ^ 32"
    and pos: "\<forall>h\<in>set xs. 0 < h_size (hdr s h)"
  obtains
    (finished) A FR T where "compact_pass root s = Inr (Finished, s)" "xs = A @ FR @ T"
      "\<forall>h\<in>set A. in_use s h" "\<forall>h\<in>set FR. is_free s h"
      "FR = [] \<Longrightarrow> T = []" "T \<noteq> [] \<Longrightarrow> \<not> is_unlocked s (hd T) \<and> in_use s (hd T)"
  | (skip) A FR T where "xs = A @ FR @ T" "\<forall>h\<in>set A. in_use s h" "\<forall>h\<in>set FR. is_free s h"
      "FR \<noteq> []" "T \<noteq> []" "in_use s (hd T)" "compact_pass root s = Inr (Again (hd T), s)"
      "\<not> is_unlocked s (hd T)"
  | (move) A FR M U R where "xs = A @ FR @ M @ U @ R" "\<forall>h\<in>set A. in_use s h"
      "\<forall>h\<in>set FR. is_free s h" "FR \<noteq> []" "U \<noteq> []" "\<forall>h\<in>set U. is_unlocked s h"
      "M \<noteq> [] \<Longrightarrow> sizes s U \<le> sizes s FR"
      "compact_pass root s = compact_move (last0 0 A) (sizes s FR) (hd FR) (last FR) (hd U)
         (last U) (last0 0 M) s"
      "in_use s (hd (M @ U))" "is_unlocked s (hd (M @ U)) \<Longrightarrow> M = []"
proof -
  define A FR T where "A = takeWhile (in_use s) xs"
    and "FR = takeWhile (is_free s) (dropWhile (in_use s) xs)"
    and "T = dropWhile (is_free s) (dropWhile (in_use s) xs)"
  have xs: "xs = A @ FR @ T" by (simp add: A_def FR_def T_def)
  have FR': "FR = takeWhile (is_free s) (FR @ T)" by (simp add: FR_def T_def)
  have A: "\<forall>h\<in>set A. in_use s h" unfolding A_def using set_takeWhileD by fast
  have FR: "\<forall>h\<in>set FR. is_free s h" unfolding FR_def using set_takeWhileD by fast
  have T: "T \<noteq> [] \<Longrightarrow> in_use s (hd T)"
    unfolding T_def using hd_dropWhile in_use_is_free by blast
  from get_free_header_range_spec [OF c l sz xs A_def FR'] obtain b where
    fr: "get_free_header_range root s = Inr (sizes s FR, head0 FR, last0 0 FR, b)" by blast
  note ln = find_last_nonfree_header_spec [OF c l, folded A_def]
  show thesis
  proof (cases "FR = [] \<or> T = []")
    case True
    have "FR \<noteq> [] \<Longrightarrow> sizes s FR \<noteq> 0" using pos xs by (cases FR) auto
    moreover have "FR \<noteq> [] \<Longrightarrow> T = [] \<Longrightarrow> nxt s (last FR) = 0"
      using c xs by (auto simp: chain_append dest: chain_last_link)
    ultimately have r: "compact_pass root s = Inr (Finished, s)"
      using True fr ln by (auto simp: compact_pass_def Let_def last0_def)
    have "T = []" if "FR = []"
    proof (rule ccontr)
      assume "T \<noteq> []"
      moreover from this FR' that have "\<not> is_free s (hd T)" by (cases T) auto
      moreover have "dropWhile (in_use s) xs = T"
        using that by (metis FR_def T_def append_Nil takeWhile_dropWhile_id)
      ultimately have "\<not> in_use s (hd T)" by (metis hd_dropWhile)
      with T \<open>T \<noteq> []\<close> show False by blast
    qed
    with True have "T = []" by blast
    with finished [OF r xs A FR] show thesis by blast
  next
    case False
    have cT: "chain (nxt s) (hd T) T 0" using c xs False by (cases T) (auto simp: chain_append)
    have lT: "length T \<le> list_fuel" "sizes s T < 2 ^ 32" using l sz xs by auto
    have n: "nxt s (last FR) = hd T" "hd T \<noteq> 0"
    proof -
      have "chain (nxt s) (hd FR) FR (head0 T)"
        using c xs False by (cases FR) (auto simp: chain_append dest: chain_head0)
      with False show "nxt s (last FR) = hd T" by (auto dest: chain_last_link simp: head0_def)
      show "hd T \<noteq> 0" using cT False by (cases T) auto
    qed
    have sFR: "0 < sizes s FR" using pos xs False by (cases FR) auto
    let ?mx = "if h_type (hdr s (hd T)) \<noteq> BLOCK_TYPE_UNLOCKED then sizes s FR else 0"
    obtain m f k prev pf where
      g: "get_unlocked_header_range (hd T) 0 ?mx False s = Inr (m, f, k, prev, pf)"
      and r: "m = 0 \<and> f = 0 \<and> k = 0 \<and> \<not> (?mx = 0 \<and> T \<noteq> [] \<and> is_unlocked s (hd T))
       \<or> (\<exists>M U R. T = M @ U @ R \<and> U \<noteq> [] \<and> (\<forall>h\<in>set U. is_unlocked s h) \<and> m = sizes s U
            \<and> f = hd U \<and> k = last U \<and> prev = last0 0 M \<and> (0 < ?mx \<longrightarrow> m \<le> ?mx)
            \<and> (?mx = 0 \<and> is_unlocked s (hd T) \<longrightarrow> M = []))"
      using get_unlocked_header_range_spec [OF cT lT, of ?mx] by (elim exE conjE)
    have pass: "compact_pass root s =
       (if ?mx > 0 \<and> f = 0 \<and> k = 0 then
          if pf then Inr (Again (hd T), s) else Inr (Finished, s)
        else if m = 0 then Inr (Finished, s)
        else compact_move (last0 0 A) (sizes s FR) (hd FR) (last FR) f k prev s)"
      using fr ln g n sFR False
      by (simp add: compact_pass_def Let_def last0_def head0_def)
    from r show thesis
    proof (elim disjE exE conjE)
      assume "m = 0" "f = 0" "k = 0" and nu: "\<not> (?mx = 0 \<and> T \<noteq> [] \<and> is_unlocked s (hd T))"
      from nu False have hT: "\<not> is_unlocked s (hd T)" by (auto simp: is_unlocked_def)
      from \<open>m = 0\<close> \<open>f = 0\<close> \<open>k = 0\<close> consider "compact_pass root s = Inr (Again (hd T), s)"
        | "compact_pass root s = Inr (Finished, s)"
        unfolding pass by (cases "?mx > 0"; cases pf) simp_all
      then show thesis
      proof cases
        case 1
        with skip [OF xs A FR _ _ T _ hT] False show thesis by blast
      next
        case 2
        with finished [OF _ xs A FR] False T hT show thesis by blast
      qed
    next
      fix M U R assume u: "T = M @ U @ R" "U \<noteq> []" "\<forall>h\<in>set U. is_unlocked s h" "m = sizes s U"
        "f = hd U" "k = last U" "prev = last0 0 M" "0 < ?mx \<longrightarrow> m \<le> ?mx"
        "?mx = 0 \<and> is_unlocked s (hd T) \<longrightarrow> M = []"
      have "m \<noteq> 0" using u(1,2,4) pos xs by (cases U) auto
      moreover have "f \<noteq> 0"
        using u(1,2,5) cT by (cases U) (auto simp: chain_append)
      moreover have "M \<noteq> [] \<Longrightarrow> sizes s U \<le> sizes s FR"
        using u(4,8,9) sFR by (auto simp: is_unlocked_def split: if_splits)
      ultimately have "compact_pass root s = compact_move (last0 0 A) (sizes s FR) (hd FR)
          (last FR) (hd U) (last U) (last0 0 M) s" "M \<noteq> [] \<Longrightarrow> sizes s U \<le> sizes s FR"
        unfolding pass u(5-7) by simp_all
      moreover have "xs = A @ FR @ M @ U @ R" using xs u(1) by simp
      moreover have "FR \<noteq> []" "T \<noteq> []" using False by simp_all
      moreover have "hd (M @ U) = hd T" using u(1,2) by (cases M; cases U) auto
      moreover have "is_unlocked s (hd T) \<Longrightarrow> M = []" using u(9) by (simp add: is_unlocked_def)
      ultimately show thesis using move [OF _ A FR _ u(2,3)] T by metis
    qed
  qed
qed

end
