(* ===== verification/Rm_Sorting.thy ===== *)
theory Rm_Sorting
  imports Rm_Sort
begin

text \<open>
  Correctness of the list sort (\<open>src/jeff/listsort.c\<close>): on a list that ends, \<open>rm_header__sort\<close>
  returns, writes only links, and leaves the nodes in the order of the stable sort by address.
  The passes on the linked list are related to passes on HOL lists (\<open>merge_key\<close>, \<open>chunks\<close>).
\<close>

section \<open>Merging HOL lists\<close>

fun merge_key :: "('a \<Rightarrow> nat) \<Rightarrow> 'a list \<Rightarrow> 'a list \<Rightarrow> 'a list" where
  "merge_key f xs [] = xs"
| "merge_key f [] (y # ys) = y # ys"
| "merge_key f (x # xs) (y # ys) =
     (if f x \<le> f y then x # merge_key f xs (y # ys) else y # merge_key f (x # xs) ys)"

lemma merge_key_Nil [simp]: "merge_key f [] ys = ys"
  by (cases ys) auto

lemma mset_merge_key [simp]: "mset (merge_key f xs ys) = mset xs + mset ys"
  by (induction f xs ys rule: merge_key.induct) auto

lemma set_merge_key [simp]: "set (merge_key f xs ys) = set xs \<union> set ys"
  by (induction f xs ys rule: merge_key.induct) auto

lemma sorted_merge_key:
  "sorted (map f xs) \<Longrightarrow> sorted (map f ys) \<Longrightarrow> sorted (map f (merge_key f xs ys))"
proof (induction f xs ys rule: merge_key.induct)
  case (3 f x xs y ys)
  show ?case
  proof (cases "f x \<le> f y")
    case True
    with 3 show ?thesis by (auto intro: order_trans)
  next
    case False
    with 3 show ?thesis by (auto intro: order_trans [of _ "f x"])
  qed
qed auto

lemma filter_merge_key:
  "sorted (map f xs) \<Longrightarrow>
   filter (\<lambda>x. f x = c) (merge_key f xs ys)
     = filter (\<lambda>x. f x = c) xs @ filter (\<lambda>x. f x = c) ys"
proof (induction f xs ys rule: merge_key.induct)
  case (3 f x xs y ys)
  show ?case
  proof (cases "f x \<le> f y")
    case True
    with 3 show ?thesis by simp
  next
    case False
    with 3 have "f y = c \<Longrightarrow> filter (\<lambda>x. f x = c) (x # xs) = []"
      by (auto simp: filter_empty_conv)
    with False 3 show ?thesis by auto
  qed
qed auto

lemma merge_key_sort:
  "merge_key f (sort_key f xs) (sort_key f ys) = sort_key f (xs @ ys)"
proof (rule sym, rule properties_for_sort_key)
  show "mset (merge_key f (sort_key f xs) (sort_key f ys)) = mset (xs @ ys)" by simp
  show "sorted (map f (merge_key f (sort_key f xs) (sort_key f ys)))"
    by (intro sorted_merge_key sorted_sort_key)
  fix k
  have e: "(\<lambda>x. f k = f x) = (\<lambda>x. f x = f k)" by auto
  show "filter (\<lambda>x. f k = f x) (merge_key f (sort_key f xs) (sort_key f ys))
      = filter (\<lambda>x. f k = f x) (xs @ ys)"
    unfolding e by (simp add: filter_merge_key sort_key_stable)
qed

text \<open>The list after the pass over runs of length \<open>n\<close>: sorted in chunks of \<open>n\<close> elements.\<close>

function chunks :: "nat \<Rightarrow> ('a \<Rightarrow> nat) \<Rightarrow> 'a list \<Rightarrow> 'a list" where
  "chunks n f xs =
     (if xs = [] \<or> n = 0 then [] else sort_key f (take n xs) @ chunks n f (drop n xs))"
  by pat_completeness auto
termination by (relation "measure (\<lambda>(n, f, xs). length xs)") auto

declare chunks.simps [simp del]

lemma chunks_Nil [simp]: "chunks n f [] = []"
  by (simp add: chunks.simps)

lemma chunks_step:
  "0 < n \<Longrightarrow> chunks n f xs = sort_key f (take n xs) @ chunks n f (drop n xs)"
  by (cases "xs = []") (simp_all add: chunks.simps [of n f xs])

lemma chunks_one: "chunks (Suc 0) f xs = xs"
proof (induction xs)
  case (Cons x xs)
  with chunks_step [of "Suc 0" f "x # xs"] show ?case by simp
qed simp

lemma chunks_all: "0 < n \<Longrightarrow> length xs \<le> n \<Longrightarrow> chunks n f xs = sort_key f xs"
  using chunks_step [of n f xs] by simp

lemma mset_chunks: "0 < n \<Longrightarrow> mset (chunks n f xs) = mset xs"
proof (induction n f xs rule: chunks.induct)
  case (1 n f xs)
  show ?case
  proof (cases "xs = []")
    case False
    with 1 have "mset (chunks n f (drop n xs)) = mset (drop n xs)" by simp
    with chunks_step [OF 1(2), of f xs]
    have "mset (chunks n f xs) = mset (take n xs @ drop n xs)" by (simp del: append_take_drop_id)
    then show ?thesis by simp
  qed simp
qed

lemma length_chunks: "0 < n \<Longrightarrow> length (chunks n f xs) = length xs"
  using mset_chunks [of n f xs] by (metis size_mset)

lemma take_chunks: "0 < n \<Longrightarrow> take n (chunks n f xs) = sort_key f (take n xs)"
  using chunks_step [of n f xs] by (cases "length xs \<le> n") simp_all

lemma drop_chunks: "0 < n \<Longrightarrow> drop n (chunks n f xs) = chunks n f (drop n xs)"
  using chunks_step [of n f xs] by (cases "length xs \<le> n") simp_all

text \<open>Merging neighbouring chunks doubles the length of the sorted chunks.\<close>

lemma chunks_double:
  assumes "0 < n"
  shows "chunks (2 * n) f xs
    = merge_key f (take n (chunks n f xs)) (take n (drop n (chunks n f xs)))
      @ chunks (2 * n) f (drop (2 * n) xs)"
proof -
  have "take (2 * n) xs = take n xs @ take n (drop n xs)"
    by (simp add: mult_2 take_add)
  then have "sort_key f (take (2 * n) xs)
      = merge_key f (take n (chunks n f xs)) (take n (drop n (chunks n f xs)))"
    using assms by (simp add: take_chunks drop_chunks merge_key_sort)
  then show ?thesis using assms chunks_step [of "2 * n" f xs] by simp
qed

section \<open>States that differ in links\<close>

text \<open>\<open>links_only X s s'\<close>: only links of the headers in \<open>X\<close> have changed.\<close>

definition links_only :: "nat set \<Rightarrow> rm_state \<Rightarrow> rm_state \<Rightarrow> bool" where
  "links_only X s s' \<longleftrightarrow>
     s' = s\<lparr>hdr := hdr s'\<rparr>
     \<and> (\<forall>h. hdr s' h = (hdr s h)\<lparr>h_next := nxt s' h\<rparr>) \<and> (\<forall>h. h \<notin> X \<longrightarrow> hdr s' h = hdr s h)"

lemma links_only_refl [simp]: "links_only X s s"
  by (simp add: links_only_def)

lemma links_only_trans:
  assumes "links_only X s t" and "links_only X t u"
  shows "links_only X s u"
proof -
  have t: "t = s\<lparr>hdr := hdr t\<rparr>" and u: "u = t\<lparr>hdr := hdr u\<rparr>"
    using assms unfolding links_only_def by blast+
  have "t\<lparr>hdr := hdr u\<rparr> = s\<lparr>hdr := hdr u\<rparr>"
    using arg_cong [OF t, of "\<lambda>x. x\<lparr>hdr := hdr u\<rparr>"] by simp
  with u have "u = s\<lparr>hdr := hdr u\<rparr>" by (rule trans)
  moreover have "hdr u h = (hdr s h)\<lparr>h_next := nxt u h\<rparr>" for h
  proof -
    have u': "hdr u h = (hdr t h)\<lparr>h_next := nxt u h\<rparr>"
      and t': "hdr t h = (hdr s h)\<lparr>h_next := nxt t h\<rparr>"
      using assms unfolding links_only_def by blast+
    have "(hdr t h)\<lparr>h_next := nxt u h\<rparr> = (hdr s h)\<lparr>h_next := nxt u h\<rparr>"
      using arg_cong [OF t', of "\<lambda>x. x\<lparr>h_next := nxt u h\<rparr>"] by simp
    with u' show ?thesis by (rule trans)
  qed
  moreover have "hdr u h = hdr s h" if "h \<notin> X" for h
    using assms that unfolding links_only_def by metis
  ultimately show ?thesis unfolding links_only_def by blast
qed

lemma links_only_mono: "links_only X s t \<Longrightarrow> X \<subseteq> Y \<Longrightarrow> links_only Y s t"
  by (auto simp: links_only_def)

lemma links_only_upd: "h \<in> X \<Longrightarrow> links_only X s (upd_hdr h (\<lambda>x. x\<lparr>h_next := n\<rparr>) s)"
  by (auto simp: links_only_def upd_hdr_def)

lemma links_only_keep:
  assumes "links_only X s s'"
  shows "h_memory (hdr s' h) = h_memory (hdr s h)" and "h_size (hdr s' h) = h_size (hdr s h)"
    and "h_type (hdr s' h) = h_type (hdr s h)"
    and "h_next_unused (hdr s' h) = h_next_unused (hdr s h)"
    and "h \<notin> X \<Longrightarrow> hdr s' h = hdr s h"
    and "sort_address s' = sort_address s"
proof -
  have e: "hdr s' h = (hdr s h)\<lparr>h_next := nxt s' h\<rparr>" for h
    using assms unfolding links_only_def by blast
  have f: "h_memory (hdr s' h) = h_memory (hdr s h)" for h by (subst e) simp
  show "h_memory (hdr s' h) = h_memory (hdr s h)" "h_size (hdr s' h) = h_size (hdr s h)"
    "h_type (hdr s' h) = h_type (hdr s h)"
    "h_next_unused (hdr s' h) = h_next_unused (hdr s h)" by (subst e, simp)+
  show "h \<notin> X \<Longrightarrow> hdr s' h = hdr s h" using assms unfolding links_only_def by blast
  show "sort_address s' = sort_address s" by (simp add: fun_eq_iff sort_address_def f)
qed

lemma rm_header__cmp_le: "rm_header__cmp s p q \<le> 0 \<longleftrightarrow> sort_address s p \<le> sort_address s q"
  by (simp add: rm_header__cmp_def)

section \<open>One merge\<close>

text \<open>The merged list so far: empty, or from \<open>list\<close> up to \<open>tail\<close>, whose link is still open.\<close>

definition merged :: "rm_state \<Rightarrow> nat \<Rightarrow> nat \<Rightarrow> nat list \<Rightarrow> bool" where
  "merged s list tail out \<longleftrightarrow>
     (out = [] \<and> list = 0 \<and> tail = 0)
     \<or> (\<exists>ys. out = ys @ [tail] \<and> tail \<noteq> 0 \<and> chain (nxt s) list ys tail)"

lemma append_element_merged:
  assumes m: "merged s list tail out" and e: "e \<noteq> 0" "e \<notin> set out" and d: "distinct out"
    and a: "append_element e list tail s = (list', s')"
  shows "merged s' list' e (out @ [e])" and "links_only (set out) s s'"
proof -
  show "links_only (set out) s s'"
    using m a by (auto simp: append_element_def merged_def intro!: links_only_upd split: if_splits)
  show "merged s' list' e (out @ [e])"
  proof (cases "tail = 0")
    case True
    with m a e show ?thesis by (auto simp: append_element_def merged_def)
  next
    case False
    with m obtain ys where ys: "out = ys @ [tail]" "chain (nxt s) list ys tail"
      by (auto simp: merged_def)
    have "tail \<notin> set ys" using d ys(1) by simp
    then have "chain ((nxt s)(tail := e)) list (ys @ [tail]) e"
      using ys(2) False by (intro chain_snoc_link)
    moreover have "nxt s' = (nxt s)(tail := e)" "list' = list"
      using a False by (auto simp: append_element_def fun_eq_iff)
    ultimately show ?thesis using ys(1) e(1) by (simp add: merged_def)
  qed
qed

lemma chain_links_only:
  assumes "links_only X s s'" and "set xs \<inter> X = {}"
  shows "chain (nxt s') p xs q = chain (nxt s) p xs q"
  using assms(2) links_only_keep(5) [OF assms(1)]
  by (intro chain_cong arg_cong [of _ _ h_next]) auto

lemma merge_runs_spec:
  assumes "merged s list tail out" and "chain (nxt s) p ps r" and "psize = length ps"
    and "chain (nxt s) q qs 0" and "distinct (out @ ps @ qs)"
  shows "\<exists>list' tail' q' s'.
    merge_runs False oh rm_header__cmp p psize q qsize list tail s = (list', tail', q', s')
    \<and> merged s' list' tail' (out @ merge_key (sort_address s) ps (take qsize qs))
    \<and> chain (nxt s') q' (drop qsize qs) 0
    \<and> links_only (set out \<union> set ps \<union> set (take qsize qs)) s s'"
  using assms
proof (induction "psize + qsize" arbitrary: p psize ps q qsize qs list tail out s)
  case (0 qsize psize)
  then show ?case by (simp add: merge_runs.simps)
next
  case (Suc n)
  let ?f = "sort_address s"
  have q0: "q = 0 \<longleftrightarrow> qs = []" using Suc.prems(4) by (cases qs) auto
  have unfold: "merge_runs False oh rm_header__cmp p psize q qsize list tail s =
      (if psize > 0 \<or> (qsize > 0 \<and> qs \<noteq> []) then
        if psize > 0 \<and> (qsize = 0 \<or> qs = [] \<or> ?f p \<le> ?f q) then
          let (list', s') = append_element p list tail s
          in merge_runs False oh rm_header__cmp (nxt s p) (psize - 1) q qsize list' p s'
        else
          let (list', s') = append_element q list tail s
          in merge_runs False oh rm_header__cmp p psize (nxt s q) (qsize - 1) list' q s'
      else (list, tail, q, s))"
    using q0 by (subst merge_runs.simps) (simp add: rm_header__cmp_le link_after_def del: le_zero_eq)
  consider (finished) "ps = []" "qsize = 0 \<or> qs = []"
    | (left) ps' where "ps = p # ps'" "p \<noteq> 0" "chain (nxt s) (nxt s p) ps' r"
        "qsize = 0 \<or> qs = [] \<or> ?f p \<le> ?f q"
    | (right) qs' m where "qs = q # qs'" "q \<noteq> 0" "chain (nxt s) (nxt s q) qs' 0" "qsize = Suc m"
        "ps = [] \<or> \<not> ?f p \<le> ?f q"
    using Suc.prems(2,4) by (cases ps; cases qs; cases qsize) auto
  then show ?case
  proof cases
    case finished
    then have "merge_runs False oh rm_header__cmp p psize q qsize list tail s
        = (list, tail, q, s)" using unfold Suc.prems(3) by auto
    moreover have "take qsize qs = []" "drop qsize qs = qs" using finished by auto
    ultimately show ?thesis using Suc.prems finished by auto
  next
    case left
    obtain list' s' where a: "append_element p list tail s = (list', s')" by fastforce
    have po: "p \<notin> set out" "distinct out" using Suc.prems(5) left(1) by auto
    note app = append_element_merged [OF Suc.prems(1) left(2) po a]
    have c1: "chain (nxt s') (nxt s p) ps' r"
      using left(3) chain_links_only [OF app(2), of ps'] Suc.prems(5) left(1) by auto
    have c2: "chain (nxt s') q qs 0"
      using Suc.prems(4) chain_links_only [OF app(2), of qs] Suc.prems(5) by auto
    have d: "distinct ((out @ [p]) @ ps' @ qs)" using Suc.prems(5) left(1) by auto
    have n: "n = (psize - 1) + qsize" "psize - 1 = length ps'" "0 < psize"
      using Suc.hyps(2) Suc.prems(3) left(1) by auto
    have f: "sort_address s' = ?f" using app(2) by (rule links_only_keep)
    from Suc.hyps(1) [OF n(1) app(1) c1 n(2) c2 d] obtain list'' tail'' q'' s'' where
      r: "merge_runs False oh rm_header__cmp (nxt s p) (psize - 1) q qsize list' p s'
          = (list'', tail'', q'', s'')"
      "merged s'' list'' tail'' ((out @ [p]) @ merge_key ?f ps' (take qsize qs))"
      "chain (nxt s'') q'' (drop qsize qs) 0"
      "links_only (set (out @ [p]) \<union> set ps' \<union> set (take qsize qs)) s' s''"
      unfolding f by blast
    have "merge_key ?f ps (take qsize qs) = p # merge_key ?f ps' (take qsize qs)"
      using left q0 Suc.prems(4) by (cases qs; cases qsize) auto
    moreover have "links_only (set out \<union> set ps \<union> set (take qsize qs)) s s''"
      by (rule links_only_trans [OF links_only_mono [OF app(2)] links_only_mono [OF r(4)]])
        (use left(1) in auto)
    moreover have "merge_runs False oh rm_header__cmp p psize q qsize list tail s
        = (list'', tail'', q'', s'')"
      using unfold left(4) n(3) a r(1) by simp
    ultimately show ?thesis using r by simp
  next
    case right
    obtain list' s' where a: "append_element q list tail s = (list', s')" by fastforce
    have qo: "q \<notin> set out" "distinct out" using Suc.prems(5) right(1) by auto
    note app = append_element_merged [OF Suc.prems(1) right(2) qo a]
    have c1: "chain (nxt s') p ps r"
      using Suc.prems(2) chain_links_only [OF app(2), of ps] Suc.prems(5) by auto
    have c2: "chain (nxt s') (nxt s q) qs' 0"
      using right(3) chain_links_only [OF app(2), of qs'] Suc.prems(5) right(1) by auto
    have d: "distinct ((out @ [q]) @ ps @ qs')" using Suc.prems(5) right(1) by auto
    have n: "n = psize + m" using Suc.hyps(2) right(4) by simp
    have f: "sort_address s' = ?f" using app(2) by (rule links_only_keep)
    from Suc.hyps(1) [OF n app(1) c1 Suc.prems(3) c2 d] obtain list'' tail'' q'' s'' where
      r: "merge_runs False oh rm_header__cmp p psize (nxt s q) m list' q s'
          = (list'', tail'', q'', s'')"
      "merged s'' list'' tail'' ((out @ [q]) @ merge_key ?f ps (take m qs'))"
      "chain (nxt s'') q'' (drop m qs') 0"
      "links_only (set (out @ [q]) \<union> set ps \<union> set (take m qs')) s' s''"
      unfolding f by blast
    have "merge_key ?f ps (take qsize qs) = q # merge_key ?f ps (take m qs')"
      using right Suc.prems(2) by (cases ps) auto
    moreover have "links_only (set out \<union> set ps \<union> set (take qsize qs)) s s''"
      by (rule links_only_trans [OF links_only_mono [OF app(2)] links_only_mono [OF r(4)]])
        (use right(1,4) in auto)
    moreover have "merge_runs False oh rm_header__cmp p psize q qsize list tail s
        = (list'', tail'', q'', s'')"
      using unfold right Suc.prems(3) a r(1) by auto
    ultimately show ?thesis using r right(1,4) by simp
  qed
qed

section \<open>One pass\<close>

lemma step_run_spec:
  "chain (nxt s) q xs 0 \<Longrightarrow> xs \<noteq> [] \<Longrightarrow>
   \<exists>q'. step_run False oh s n q k = (q', k + min n (length xs))
     \<and> chain (nxt s) q (take n xs) q' \<and> chain (nxt s) q' (drop n xs) 0"
proof (induction n arbitrary: q xs k)
  case 0
  then show ?case by simp
next
  case (Suc n)
  from Suc.prems obtain ys where xs: "xs = q # ys" "q \<noteq> 0" "chain (nxt s) (nxt s q) ys 0"
    by (cases xs) auto
  show ?case
  proof (cases "nxt s q = 0")
    case True
    with xs show ?thesis by (simp add: link_after_def)
  next
    case False
    with xs(3) have "ys \<noteq> []" by auto
    from Suc.IH [OF xs(3) this, of "k + 1"] show ?thesis
      using xs False by (auto simp: link_after_def)
  qed
qed

text \<open>The effect of a pass on the list of nodes.\<close>

function merge_pairs :: "nat \<Rightarrow> ('a \<Rightarrow> nat) \<Rightarrow> 'a list \<Rightarrow> 'a list" where
  "merge_pairs n f xs =
     (if xs = [] \<or> n = 0 then []
      else merge_key f (take n xs) (take n (drop n xs)) @ merge_pairs n f (drop (2 * n) xs))"
  by pat_completeness auto
termination by (relation "measure (\<lambda>(n, f, xs). length xs)") auto

declare merge_pairs.simps [simp del]

lemma merge_pairs_Nil [simp]: "merge_pairs n f [] = []"
  by (simp add: merge_pairs.simps)

lemma merge_pairs_step:
  "0 < n \<Longrightarrow> merge_pairs n f xs
     = merge_key f (take n xs) (take n (drop n xs)) @ merge_pairs n f (drop (2 * n) xs)"
  by (cases "xs = []") (simp_all add: merge_pairs.simps [of n f xs])

lemma merge_pairs_chunks: "0 < n \<Longrightarrow> merge_pairs n f (chunks n f xs) = chunks (2 * n) f xs"
proof (induction n f xs rule: merge_pairs.induct)
  case (1 n f xs)
  show ?case
  proof (cases "xs = []")
    case False
    have "drop (2 * n) (chunks n f xs) = chunks n f (drop (2 * n) xs)"
    proof -
      have "drop (2 * n) (chunks n f xs) = drop n (drop n (chunks n f xs))"
        by (simp add: mult_2)
      also have "\<dots> = chunks n f (drop (2 * n) xs)" using 1(2) by (simp add: drop_chunks mult_2)
      finally show ?thesis .
    qed
    then show ?thesis
      using 1 False merge_pairs_step [OF 1(2), of f "chunks n f xs"]
        chunks_double [OF 1(2), of f xs]
      by simp
  qed simp
qed

lemma mset_merge_pairs: "0 < n \<Longrightarrow> mset (merge_pairs n f xs) = mset xs"
proof (induction n f xs rule: merge_pairs.induct)
  case (1 n f xs)
  show ?case
  proof (cases "xs = []")
    case False
    have "xs = take n xs @ take n (drop n xs) @ drop (2 * n) xs"
      by (metis append_take_drop_id drop_drop mult_2)
    then have "mset xs = mset (take n xs) + mset (take n (drop n xs)) + mset (drop (2 * n) xs)"
      by (metis mset_append union_assoc)
    then show ?thesis using 1 False merge_pairs_step [OF 1(2), of f xs] by simp
  qed simp
qed

lemma merge_pass_spec:
  assumes "merged s list tail out" and "chain (nxt s) p xs 0" and "distinct (out @ xs)"
    and "length xs \<le> fuel" and "0 < n"
  shows "\<exists>list' tail' m s'.
    merge_pass fuel False oh rm_header__cmp n p list tail k s = Inr (list', tail', k + m, s')
    \<and> merged s' list' tail' (out @ merge_pairs n (sort_address s) xs)
    \<and> links_only (set out \<union> set xs) s s'
    \<and> (m = 0 \<longleftrightarrow> xs = []) \<and> (m \<le> 1 \<longleftrightarrow> length xs \<le> 2 * n)"
  using assms
proof (induction fuel arbitrary: s list tail out p xs k)
  case 0
  then show ?case by (simp add: merge_pass.simps)
next
  case (Suc fuel)
  let ?f = "sort_address s"
  show ?case
  proof (cases "xs = []")
    case True
    with Suc.prems show ?thesis by (simp add: merge_pass.simps)
  next
    case False
    then have p: "p \<noteq> 0" using Suc.prems(2) by (cases xs) auto
    from step_run_spec [OF Suc.prems(2) False, of oh n 0] obtain q where
      q: "step_run False oh s n p 0 = (q, min n (length xs))"
      "chain (nxt s) p (take n xs) q" "chain (nxt s) q (drop n xs) 0" by auto
    have d: "distinct (out @ take n xs @ drop n xs)" using Suc.prems(3) by simp
    have l: "min n (length xs) = length (take n xs)" by simp
    from merge_runs_spec [OF Suc.prems(1) q(2) l q(3) d, of oh n]
    obtain list1 tail1 q1 s1 where
      r: "merge_runs False oh rm_header__cmp p (min n (length xs)) q n list tail s
          = (list1, tail1, q1, s1)"
      "merged s1 list1 tail1 (out @ merge_key ?f (take n xs) (take n (drop n xs)))"
      "chain (nxt s1) q1 (drop (2 * n) xs) 0"
      "links_only (set out \<union> set (take n xs) \<union> set (take n (drop n xs))) s s1"
      by (auto simp: mult_2)
    have xs: "xs = take n xs @ take n (drop n xs) @ drop (2 * n) xs"
      by (metis append_take_drop_id drop_drop mult_2)
    have d1: "distinct ((out @ merge_key ?f (take n xs) (take n (drop n xs))) @ drop (2 * n) xs)"
    proof -
      have "mset ((out @ merge_key ?f (take n xs) (take n (drop n xs))) @ drop (2 * n) xs)
          = mset (out @ xs)"
        by (subst (4) xs) simp
      with Suc.prems(3) show ?thesis by (metis distinct_count_atmost_1 set_mset_mset)
    qed
    have len: "length (drop (2 * n) xs) \<le> fuel" using Suc.prems(4,5) False by (cases xs) auto
    have f: "sort_address s1 = ?f" using r(4) by (rule links_only_keep)
    from Suc.IH [OF r(2,3) d1 len Suc.prems(5), of "k + 1"] obtain list2 tail2 m s2 where
      i: "merge_pass fuel False oh rm_header__cmp n q1 list1 tail1 (k + 1) s1
          = Inr (list2, tail2, k + 1 + m, s2)"
      "merged s2 list2 tail2 ((out @ merge_key ?f (take n xs) (take n (drop n xs)))
          @ merge_pairs n ?f (drop (2 * n) xs))"
      "links_only (set (out @ merge_key ?f (take n xs) (take n (drop n xs)))
          \<union> set (drop (2 * n) xs)) s1 s2"
      "m = 0 \<longleftrightarrow> drop (2 * n) xs = []"
      unfolding f by blast
    have "set xs = set (take n xs) \<union> set (take n (drop n xs)) \<union> set (drop (2 * n) xs)"
      by (subst xs) (simp add: Un_assoc)
    then have lo: "links_only (set out \<union> set xs) s s2"
      by (intro links_only_trans [OF links_only_mono [OF r(4)] links_only_mono [OF i(3)]]) auto
    have "merge_pass (Suc fuel) False oh rm_header__cmp n p list tail k s
        = Inr (list2, tail2, k + (m + 1), s2)"
      using p q(1) r(1) i(1) by (subst merge_pass.simps) simp
    moreover have "merged s2 list2 tail2 (out @ merge_pairs n ?f xs)"
      using i(2) merge_pairs_step [OF Suc.prems(5), of ?f xs] by simp
    moreover have "m + 1 \<le> 1 \<longleftrightarrow> length xs \<le> 2 * n" using i(4) by auto
    ultimately show ?thesis using lo False by (intro exI [of _ list2] exI [of _ tail2]
          exI [of _ "m + 1"] exI [of _ s2]) simp
  qed
qed

section \<open>The sort\<close>

lemma merged_close:
  assumes "merged s list tail out" and "distinct out" and "out \<noteq> []"
  shows "tail \<noteq> 0" and "tail \<in> set out"
    and "chain (nxt (upd_hdr tail (\<lambda>x. x\<lparr>h_next := 0\<rparr>) s)) list out 0"
proof -
  from assms obtain ys where ys: "out = ys @ [tail]" "tail \<noteq> 0" "chain (nxt s) list ys tail"
    by (auto simp: merged_def)
  then show "tail \<noteq> 0" "tail \<in> set out" by auto
  have "nxt (upd_hdr tail (\<lambda>x. x\<lparr>h_next := 0\<rparr>) s) = (nxt s)(tail := 0)"
    by (simp add: fun_eq_iff)
  moreover have "chain ((nxt s)(tail := 0)) list (ys @ [tail]) 0"
    using ys assms(2) by (intro chain_snoc_link) auto
  ultimately show "chain (nxt (upd_hdr tail (\<lambda>x. x\<lparr>h_next := 0\<rparr>) s)) list out 0"
    using ys(1) by simp
qed

lemma sort_passes_spec:
  assumes "0 < n" "n < 2 ^ 31" and "xs \<noteq> []" "distinct xs" "length xs \<le> 2 ^ 31"
    and "chain (nxt s) list (chunks n (sort_address s) xs) 0"
  shows "\<exists>root s'. sort_passes False rm_header__cmp n list s = Inr (root, s')
    \<and> chain (nxt s') root (sort_key (sort_address s) xs) 0 \<and> links_only (set xs) s s'"
  using assms
proof (induction "2 ^ 31 - n" arbitrary: n list s rule: less_induct)
  case less
  let ?f = "sort_address s" and ?c = "chunks n (sort_address s) xs"
  have mc: "mset ?c = mset xs" using less.prems(1) by (rule mset_chunks)
  then have sc: "set ?c = set xs" "distinct ?c" "length ?c = length xs" "?c \<noteq> []"
    using less.prems(3,4) by (metis set_mset_mset, metis distinct_count_atmost_1 set_mset_mset,
        metis size_mset, metis mset_zero_iff)
  have m: "merged s 0 0 []" by (simp add: merged_def)
  have fuel: "length ?c \<le> list_fuel" using sc(3) less.prems(5) by (simp add: list_fuel_def)
  have "distinct ([] @ ?c)" using sc(2) by simp
  from merge_pass_spec [OF m less.prems(6) this fuel less.prems(1), of list 0]
  obtain list1 tail1 k s1 where
    r: "merge_pass list_fuel False list rm_header__cmp n list 0 0 0 s
        = Inr (list1, tail1, k, s1)"
    "merged s1 list1 tail1 (chunks (2 * n) ?f xs)" "links_only (set xs) s s1"
    "k \<le> 1 \<longleftrightarrow> length xs \<le> 2 * n"
    using sc(1,3) less.prems(1) by (auto simp: merge_pairs_chunks)
  have md: "mset (chunks (2 * n) ?f xs) = mset xs" using less.prems(1) by (intro mset_chunks) simp
  then have sd: "set (chunks (2 * n) ?f xs) = set xs" "distinct (chunks (2 * n) ?f xs)"
      "chunks (2 * n) ?f xs \<noteq> []"
    using less.prems(3,4) by (metis set_mset_mset, metis distinct_count_atmost_1 set_mset_mset,
        metis mset_zero_iff)
  define s2 where "s2 = upd_hdr tail1 (\<lambda>x. x\<lparr>h_next := 0\<rparr>) s1"
  note close = merged_close [OF r(2) sd(2,3), folded s2_def]
  have lo: "links_only (set xs) s s2"
    using links_only_trans [OF r(3) links_only_upd [of tail1 "set xs" s1 0]] close(2) sd(1)
    by (simp add: s2_def)
  have f: "sort_address s2 = ?f" using lo by (rule links_only_keep)
  have step: "sort_passes False rm_header__cmp n list s =
      (if k \<le> 1 then Inr (list1, s2)
       else if n * 2 \<ge> 2 ^ 31 then Inl Int_overflow
       else sort_passes False rm_header__cmp (n * 2) list1 s2)"
    using less.prems(1) r(1) close(1) by (subst sort_passes.simps) (simp add: Let_def s2_def)
  show ?case
  proof (cases "k \<le> 1")
    case True
    with r(4) have "chunks (2 * n) ?f xs = sort_key ?f xs"
      using less.prems(1) by (intro chunks_all) auto
    with True step close(3) lo show ?thesis by auto
  next
    case False
    then have n2: "n * 2 < 2 ^ 31" using r(4) less.prems(5) by simp
    have ch: "chain (nxt s2) list1 (chunks (n * 2) (sort_address s2) xs) 0"
      using close(3) f by (simp add: mult.commute)
    have lt: "2 ^ 31 - n * 2 < 2 ^ 31 - n" "0 < n * 2"
      using n2 less.prems(1) diff_less_mono2 [of n "n * 2" "2 ^ 31"] by simp_all
    from less.hyps [OF lt n2 less.prems(3,4,5) ch]
    obtain root s3 where "sort_passes False rm_header__cmp (n * 2) list1 s2 = Inr (root, s3)"
      "chain (nxt s3) root (sort_key ?f xs) 0" "links_only (set xs) s2 s3"
      unfolding f by auto
    with False step n2 links_only_trans [OF lo] show ?thesis by auto
  qed
qed

text \<open>
  The sort returns with the stably sorted list; the nodes of a list that ends are distinct, and
  with at most \<open>2 ^ 31\<close> of them the run length does not overflow.
\<close>

lemma rm_header__sort_spec:
  assumes "chain (nxt s) root xs 0" and "length xs \<le> 2 ^ 31"
  shows "\<exists>root' s'. rm_header__sort root False d rm_header__cmp s = Inr (root', s')
    \<and> chain (nxt s') root' (sort_key (sort_address s) xs) 0 \<and> links_only (set xs) s s'"
proof (cases "xs = []")
  case True
  with assms(1) show ?thesis by (simp add: rm_header__sort_def)
next
  case False
  with assms(1) have "root \<noteq> 0" by (cases xs) auto
  moreover have "distinct xs" using assms(1) by (rule chain_null_distinct)
  moreover have "chain (nxt s) root (chunks 1 (sort_address s) xs) 0"
    using assms(1) by (simp add: chunks_one)
  ultimately show ?thesis
    using sort_passes_spec [of 1 xs s root] False assms(2) by (simp add: rm_header__sort_def)
qed

end
