(* ===== verification/Rm_Move.thy ===== *)
theory Rm_Move
  imports Rm_Ranges Rm_Sorting
begin

text \<open>
  The moves of the compaction: what a pass does to the list, to the headers and to the bytes of
  memory. The facts on links and on tilings are stated for any link field and any extents; the
  states come after them.
\<close>

section \<open>Links\<close>

lemma chain_appendI: "chain nx p xs r \<Longrightarrow> chain nx r ys q \<Longrightarrow> chain nx p (xs @ ys) q"
  by (auto simp: chain_append)

lemma chain_segment:
  assumes "chain nx p xs r" and "\<And>x. x \<in> set xs \<Longrightarrow> x \<noteq> last xs \<Longrightarrow> ny x = nx x"
    and "distinct xs" and "xs \<noteq> []" and "ny (last xs) = v"
  shows "chain ny p xs v"
proof -
  have "chain (nx(last xs := v)) p xs v" using assms(1,3,4) by (intro chain_relink_last)
  moreover have "chain (nx(last xs := v)) p xs v = chain ny p xs v"
    using assms(2,5) by (intro chain_cong) auto
  ultimately show ?thesis by simp
qed

text \<open>\<open>B\<close> gets the moved blocks \<open>U\<close> as its successors, or they become the start of the list.\<close>

lemma chain_before:
  assumes c: "chain nx p (B @ ys) 0" and d: "distinct B"
    and same: "\<And>x. x \<in> set B \<Longrightarrow> x \<noteq> last B \<Longrightarrow> ny x = nx x"
    and lst: "B \<noteq> [] \<Longrightarrow> ny (last B) = u"
  shows "chain ny (if B = [] then u else p) B u"
proof (cases "B = []")
  case False
  from c obtain r where "chain nx p B r" by (auto simp: chain_append)
  from chain_segment [OF this same d False lst] False show ?thesis by simp
qed simp

lemma chain_relink:
  assumes c: "chain nx p (B @ FR @ M @ U @ R) 0" and ne: "FR \<noteq> []" "U \<noteq> []" and f: "f \<in> set FR"
    and S: "set S \<inter> set (B @ FR @ M @ U @ R) = {}" "0 \<notin> set S" "length S \<le> 1"
    and B: "\<And>x. x \<in> set B \<Longrightarrow> x \<noteq> last B \<Longrightarrow> ny x = nx x" "B \<noteq> [] \<Longrightarrow> ny (last B) = hd U"
    and U: "\<And>x. x \<in> set U \<Longrightarrow> x \<noteq> last U \<Longrightarrow> ny x = nx x"
      "ny (last U) = head0 (S @ M @ [f])"
    and Sn: "\<And>x. x \<in> set S \<Longrightarrow> ny x = head0 (M @ [f])"
    and M: "\<And>x. x \<in> set M \<Longrightarrow> x \<noteq> last M \<Longrightarrow> ny x = nx x" "M \<noteq> [] \<Longrightarrow> ny (last M) = f"
    and fn: "ny f = head0 R" and R: "\<And>x. x \<in> set R \<Longrightarrow> ny x = nx x"
  shows "chain ny (if B = [] then hd U else p) (B @ U @ S @ M @ [f] @ R) 0"
proof -
  have d: "distinct (B @ FR @ M @ U @ R)" using c by (rule chain_null_distinct)
  have f0: "f \<noteq> 0" using c f by (auto dest: chain_nonnull)
  from c obtain r1 r2 r3 r4 where
    cc: "chain nx p B r1" "chain nx r1 FR r2" "chain nx r2 M r3" "chain nx r3 U r4" "chain nx r4 R 0"
    by (auto simp: chain_append)
  have cB: "chain ny (if B = [] then hd U else p) B (hd U)"
    using c d B by (intro chain_before) auto
  have "r3 = hd U" using cc(4) ne by (cases U) auto
  then have cU: "chain ny (hd U) U (head0 (S @ M @ [f]))"
    using chain_segment [OF cc(4) U(1) _ ne(2) U(2)] d by auto
  have cS: "chain ny (head0 (S @ M @ [f])) S (head0 (M @ [f]))"
  proof (cases S)
    case (Cons x xs)
    with S(3) have "S = [x]" by simp
    with S(2) Sn show ?thesis by auto
  qed simp
  have cM: "chain ny (head0 (M @ [f])) M f"
  proof (cases "M = []")
    case False
    have "r2 = hd M" using cc(3) False by (cases M) auto
    with chain_segment [OF cc(3) M(1) _ False M(2) [OF False]] d False show ?thesis
      by (auto simp: head0_def)
  qed simp
  have cR: "chain ny (head0 R) R 0"
  proof -
    have "r4 = head0 R" using cc(5) by (simp add: chain_head0)
    moreover have "chain ny r4 R 0 = chain nx r4 R 0" using R by (intro chain_cong) auto
    ultimately show ?thesis using cc(5) by simp
  qed
  have "chain ny f ([f] @ R) 0" using f0 fn cR by simp
  then show ?thesis by (intro chain_appendI [OF cB] chain_appendI [OF cU] chain_appendI [OF cS]
        chain_appendI [OF cM])
qed

section \<open>Tilings\<close>

text \<open>Extents shifted down by \<open>off\<close>, the last one longer by \<open>ext\<close>.\<close>

lemma tiled_shift:
  assumes "tiled c d (map e xs)" and "off \<le> c" and "xs \<noteq> []" and "distinct xs"
    and "\<And>x. x \<in> set xs \<Longrightarrow> e' x = (fst (e x) - off, snd (e x) + (if x = last xs then ext else 0))"
  shows "tiled (c - off) (d - off + ext) (map e' xs)"
  using assms
proof (induction xs arbitrary: c)
  case Nil
  then show ?case by simp
next
  case (Cons x xs)
  show ?case
  proof (cases "xs = []")
    case True
    with Cons.prems show ?thesis by auto
  next
    case False
    then have l: "last (x # xs) = last xs" and nl: "x \<noteq> last xs"
      using Cons.prems(4) by auto
    have x: "e' x = (fst (e x) - off, snd (e x))"
      using Cons.prems(5) [of x] nl unfolding l by simp
    have "e' y = (fst (e y) - off, snd (e y) + (if y = last xs then ext else 0))"
      if "y \<in> set xs" for y using Cons.prems(5) [of y] that unfolding l by simp
    then have "tiled (c + snd (e x) - off) (d - off + ext) (map e' xs)"
      using Cons.prems(1,2,4) False by (intro Cons.IH) simp_all
    moreover have "c + snd (e x) - off = c - off + snd (e x)" using Cons.prems(2) by simp
    moreover have "fst (e x) = c" using Cons.prems(1) by simp
    ultimately show ?thesis by (simp add: x)
  qed
qed

lemma tiled_hd: "tiled c d (map e xs) \<Longrightarrow> xs \<noteq> [] \<Longrightarrow> fst (e (hd xs)) = c"
  by (cases xs) auto

lemma tiled_cong: "(\<And>x. x \<in> set xs \<Longrightarrow> e' x = e x) \<Longrightarrow> tiled c d (map e' xs) = tiled c d (map e xs)"
  by (metis map_cong)

lemma tiled_segments:
  "tiled lo hi (map e (xs @ ys)) \<longleftrightarrow> (\<exists>m. tiled lo m (map e xs) \<and> tiled m hi (map e ys))"
  by (simp add: tiled_append)

lemma tiled_length: "tiled lo hi (map e xs) \<Longrightarrow> hi = lo + sum_list (map (\<lambda>x. snd (e x)) xs)"
  by (drule tiled_sum) (simp add: comp_def)

lemma tiled_extent_sizes: "tiled lo hi (map (extent s) xs) \<Longrightarrow> hi = lo + sizes s xs"
  by (drule tiled_length) (simp add: sizes_def)

section \<open>Moving the blocks\<close>

lemma memmove_hdr [simp]: "hdr (memmove d c n s) = hdr s"
  by (simp add: memmove_def)

text \<open>The state after the blocks \<open>U\<close>, which fill \<open>c\<close> to \<open>d\<close>, have been moved down by \<open>off\<close>.\<close>

definition shift_blocks :: "nat \<Rightarrow> nat \<Rightarrow> nat \<Rightarrow> nat list \<Rightarrow> rm_state \<Rightarrow> rm_state" where
  "shift_blocks off c d U s =
     s\<lparr>hdr := (\<lambda>h. if h \<in> set U then (hdr s h)\<lparr>h_memory := h_memory (hdr s h) - off\<rparr>
                   else hdr s h),
       mem := (\<lambda>x. if c - off \<le> x \<and> x < d - off then mem s (x + off) else mem s x)\<rparr>"

lemma shift_blocks_step:
  assumes "x \<notin> set U" and "off \<le> c" and "h_memory (hdr s x) = c" and "n = h_size (hdr s x)"
    and "c + n \<le> d"
  shows "shift_blocks off (c + n) d U
      (memmove (c - off) c n (upd_hdr x (\<lambda>y. y\<lparr>h_memory := c - off\<rparr>) s))
    = shift_blocks off c d (x # U) s"
proof -
  let ?s = "memmove (c - off) c n (upd_hdr x (\<lambda>y. y\<lparr>h_memory := c - off\<rparr>) s)"
  have "hdr (shift_blocks off (c + n) d U ?s) h = hdr (shift_blocks off c d (x # U) s) h" for h
    using assms(1,3) by (cases "h = x") (simp_all add: shift_blocks_def memmove_def upd_hdr_def)
  then have "hdr (shift_blocks off (c + n) d U ?s) = hdr (shift_blocks off c d (x # U) s)" by blast
  moreover have "mem (shift_blocks off (c + n) d U ?s) y = mem (shift_blocks off c d (x # U) s) y"
    for y
  proof -
    obtain c' d' where c: "c = c' + off" and d: "d = c' + off + n + d'"
      using assms(2,5) by (metis add.commute le_Suc_ex)
    show ?thesis
      unfolding c d by (auto simp: shift_blocks_def memmove_def upd_hdr_def not_le
          intro!: arg_cong [of _ _ "mem s"])
  qed
  then have "mem (shift_blocks off (c + n) d U ?s) = mem (shift_blocks off c d (x # U) s)" by blast
  ultimately show ?thesis
    by (intro rm_state.equality) (simp_all add: shift_blocks_def memmove_def upd_hdr_def)
qed

lemma shift_blocks_Nil: "shift_blocks off c c [] s = s"
proof -
  have "mem (shift_blocks off c c [] s) y = mem s y" for y by (auto simp: shift_blocks_def)
  moreover have "hdr (shift_blocks off c c [] s) h = hdr s h" for h by (simp add: shift_blocks_def)
  ultimately have "mem (shift_blocks off c c [] s) = mem s" "hdr (shift_blocks off c c [] s) = hdr s"
    by blast+
  then show ?thesis by (intro rm_state.equality) (simp_all add: shift_blocks_def)
qed

lemma move_used_blocks_spec:
  "chain (nxt s) p U (nxt s ul) \<Longrightarrow> distinct U \<Longrightarrow> nxt s ul \<notin> set U \<Longrightarrow>
   tiled c d (map (extent s) U) \<Longrightarrow> off \<le> c \<Longrightarrow> d < 2 ^ 64 \<Longrightarrow>
   acc + sizes s U < 2 ^ 32 \<Longrightarrow> length U \<le> fuel \<Longrightarrow>
   move_used_blocks fuel off ul acc p s = Inr (acc + sizes s U, shift_blocks off c d U s)"
proof (induction U arbitrary: p s c acc fuel)
  case Nil
  then have "c = d" "p = nxt s ul" by simp_all
  then have "shift_blocks off c d [] s = s" by (simp add: shift_blocks_Nil)
  with \<open>p = nxt s ul\<close> show ?case by (subst move_used_blocks.simps) (simp only: sizes_simps, simp)
next
  case (Cons x U)
  let ?n = "h_size (hdr s x)"
  from Cons.prems obtain f where f: "fuel = Suc f" by (cases fuel) auto
  have x: "p = x" "x \<noteq> 0" "h_memory (hdr s x) = c" "x \<noteq> nxt s ul" "x \<notin> set U"
    and t: "tiled (c + ?n) d (map (extent s) U)"
    using Cons.prems by auto
  have le: "c + ?n \<le> d" using t by (rule tiled_le)
  define s2 where "s2 = memmove (c - off) c ?n (upd_hdr x (\<lambda>y. y\<lparr>h_memory := c - off\<rparr>) s)"
  have nx: "nxt s2 = nxt s" by (simp add: s2_def fun_eq_iff)
  have nu: "nxt s2 ul = nxt s ul" using fun_cong [OF nx, of ul] .
  have other: "hdr s2 h = hdr s h" if "h \<noteq> x" for h using that by (simp add: s2_def memmove_def)
  have "u64 (c + 2 ^ 64 - off) = c - off"
  proof -
    have "c + 2 ^ 64 - off = (c - off) + 2 ^ 64" using Cons.prems(5) by simp
    then have "u64 (c + 2 ^ 64 - off) = (c - off) mod 2 ^ 64" by (simp only: u64_def mod_add_self2)
    also have "\<dots> = c - off" using le Cons.prems(6) by (intro mod_less) simp
    finally show ?thesis .
  qed
  moreover have "u32 (acc + ?n) = acc + ?n" using Cons.prems(7) by (intro u32_small) simp
  ultimately have step: "move_used_blocks fuel off ul acc p s
      = move_used_blocks f off ul (acc + ?n) (nxt s x) s2"
    using f x nx by (subst move_used_blocks.simps) (simp add: Let_def s2_def)
  have same: "hdr s2 h = hdr s h" if "h \<in> set U" for h using that x(5) by (intro other) auto
  have m: "map (extent s2) U = map (extent s) U"
    by (rule map_cong) (simp_all add: extent_def same)
  have z: "sizes s2 U = sizes s U"
    unfolding sizes_def by (rule arg_cong [of _ _ sum_list], rule map_cong) (simp_all add: same)
  have "chain (nxt s2) (nxt s x) U (nxt s2 ul)" "distinct U" "nxt s2 ul \<notin> set U"
      "acc + ?n + sizes s2 U < 2 ^ 32" "length U \<le> f" "off \<le> c + ?n"
    using Cons.prems f x(1) z unfolding nx nu by auto
  moreover have "tiled (c + ?n) d (map (extent s2) U)" unfolding m by (rule t)
  ultimately have "move_used_blocks f off ul (acc + ?n) (nxt s x) s2
      = Inr (acc + ?n + sizes s U, shift_blocks off (c + ?n) d U s2)"
    using Cons.IH [of s2 "nxt s x" "c + ?n" "acc + ?n" f] Cons.prems(6) z by simp
  moreover have "shift_blocks off (c + ?n) d U s2 = shift_blocks off c d (x # U) s"
    unfolding s2_def using x le Cons.prems(5) by (intro shift_blocks_step) auto
  ultimately show ?case using step by (simp add: add.assoc)
qed

end
