(* ===== verification/Rm_Pass.thy ===== *)
theory Rm_Pass
  imports Rm_Move
begin

text \<open>
  One pass of the compaction on states: the invariant of the loop, what \<open>compact_move\<close> computes,
  and that it keeps the invariant and the contents of the blocks in use.
\<close>

section \<open>The invariant of the loop\<close>

text \<open>
  \<open>cstate s L\<close>: the header list \<open>L\<close> is not empty and lies in the order of memory; the free lists are
  not part of it, since the loop does not maintain them.
\<close>

definition cstate :: "rm_state \<Rightarrow> nat list \<Rightarrow> bool" where
  "cstate s L \<longleftrightarrow>
     geometry s \<and> L \<noteq> [] \<and> chain (nxt s) (header_root s) L 0 \<and> unused_root_ok s
     \<and> (\<forall>h\<in>set L. header_slot s h) \<and> placed s L L
     \<and> header_used_count s = int (length (filter (in_use s) L))"

lemma cstate_parts:
  assumes "cstate s L"
  shows "geometry s" and "L \<noteq> []" and "chain (nxt s) (header_root s) L 0" and "unused_root_ok s"
    and "\<And>h. h \<in> set L \<Longrightarrow> header_slot s h" and "placed s L L" and "distinct L"
    and "tiled (memory_bottom s) (memory_top s) (map (extent s) L)"
    and "\<And>h. h \<in> set L \<Longrightarrow> sizeof_free_memory_block_t \<le> h_size (hdr s h)"
    and "\<And>h. h \<in> set L \<Longrightarrow> h \<noteq> 0" and "\<And>h. h \<in> set L \<Longrightarrow> h_memory (hdr s h) \<noteq> 0"
    and "memory_top s < memory_bottom s + 2 ^ 31"
    and "memory_top s < 2 ^ 64" and "0 < memory_bottom s"
proof -
  show "geometry s" "L \<noteq> []" "chain (nxt s) (header_root s) L 0" "unused_root_ok s"
    "\<And>h. h \<in> set L \<Longrightarrow> header_slot s h" "placed s L L" "distinct L"
    "tiled (memory_bottom s) (memory_top s) (map (extent s) L)"
    "\<And>h. h \<in> set L \<Longrightarrow> sizeof_free_memory_block_t \<le> h_size (hdr s h)"
    "\<And>h. h \<in> set L \<Longrightarrow> h \<noteq> 0"
    using assms by (auto simp: cstate_def placed_def dest: chain_null_distinct chain_nonnull)
  then show "memory_top s < memory_bottom s + 2 ^ 31" "memory_top s < 2 ^ 64"
    "0 < memory_bottom s" by (auto simp: geometry_def)
  then show "\<And>h. h \<in> set L \<Longrightarrow> h_memory (hdr s h) \<noteq> 0"
    using placed_bounds(1) [OF \<open>placed s L L\<close>] by fastforce
qed

lemma sizes_lower: "\<forall>h\<in>set xs. 16 \<le> h_size (hdr s h) \<Longrightarrow> 16 * length xs \<le> sizes s xs"
  by (induction xs) auto

lemma cstate_sizes:
  assumes "cstate s L"
  shows "sizes s L < 2 ^ 31" and "16 * length L \<le> sizes s L" and "length L < 2 ^ 31"
proof -
  have "memory_top s = memory_bottom s + sizes s L"
    using cstate_parts(8) [OF assms] by (rule tiled_extent_sizes)
  with cstate_parts(12) [OF assms] show s: "sizes s L < 2 ^ 31" by simp
  have "\<forall>h\<in>set L. 16 \<le> h_size (hdr s h)" using cstate_parts(9) [OF assms] by blast
  then show l: "16 * length L \<le> sizes s L" by (rule sizes_lower)
  from s l show "length L < 2 ^ 31" by linarith
qed

lemma header_off_unused:
  "unused_root_ok s \<Longrightarrow> h_memory (hdr s h) \<noteq> 0 \<Longrightarrow> h \<noteq> 0 \<Longrightarrow> unused_header_root s \<noteq> h"
  by (cases "unused_header_root s = 0") (auto simp: unused_root_ok_def Let_def)

section \<open>The blocks in use\<close>

text \<open>
  \<open>moved_down s s' g\<close>: the block of \<open>g\<close> may have moved down, but holds the same bytes; a block that is
  locked has not moved. The last block moved into a gap takes the rest of the gap when that is
  too small for a free block.
\<close>

definition moved_down :: "rm_state \<Rightarrow> rm_state \<Rightarrow> nat \<Rightarrow> bool" where
  "moved_down s s' g \<longleftrightarrow>
     h_type (hdr s' g) = h_type (hdr s g)
     \<and> h_size (hdr s g) \<le> h_size (hdr s' g) \<and> h_memory (hdr s' g) \<le> h_memory (hdr s g)
     \<and> (h_type (hdr s g) \<noteq> BLOCK_TYPE_UNLOCKED \<longrightarrow>
          h_memory (hdr s' g) = h_memory (hdr s g) \<and> h_size (hdr s' g) = h_size (hdr s g))
     \<and> (\<forall>i<h_size (hdr s g). mem s' (h_memory (hdr s' g) + i) = mem s (h_memory (hdr s g) + i))"

definition kept :: "rm_state \<Rightarrow> rm_state \<Rightarrow> nat list \<Rightarrow> nat list \<Rightarrow> bool" where
  "kept s s' L L' \<longleftrightarrow>
     {g \<in> set L'. in_use s' g} = {g \<in> set L. in_use s g}
     \<and> (\<forall>g\<in>set L. in_use s g \<longrightarrow> moved_down s s' g)"

lemma moved_down_refl: "moved_down s s g"
  by (simp add: moved_down_def)

lemma moved_down_trans:
  assumes "moved_down s t g" and "moved_down t u g"
  shows "moved_down s u g"
  using assms unfolding moved_down_def by (metis (no_types, lifting) le_trans order_less_le_trans)

lemma kept_refl: "kept s s L L"
  by (simp add: kept_def moved_down_refl)

lemma kept_trans:
  assumes "kept s t L M" and "kept t u M N"
  shows "kept s u L N"
proof -
  have e: "{g \<in> set M. in_use t g} = {g \<in> set L. in_use s g}"
      "{g \<in> set N. in_use u g} = {g \<in> set M. in_use t g}"
    using assms unfolding kept_def by blast+
  have "moved_down s u g" if g: "g \<in> set L" "in_use s g" for g
  proof -
    have "g \<in> set M" "in_use t g" using e(1) g by blast+
    then show ?thesis using assms g moved_down_trans unfolding kept_def by blast
  qed
  with e show ?thesis unfolding kept_def by blast
qed

section \<open>Headers for the free space\<close>

text \<open>A header for a free block, with all its fields.\<close>

definition free_header :: "nat \<Rightarrow> nat \<Rightarrow> nat \<Rightarrow> rm_header_t" where
  "free_header m n x = \<lparr>h_memory = m, h_size = n, h_type = BLOCK_TYPE_FREE, h_next = x,
                        h_next_unused = 0\<rparr>"

lemma free_header_sel [simp]:
  "h_memory (free_header m n x) = m" "h_size (free_header m n x) = n"
  "h_type (free_header m n x) = BLOCK_TYPE_FREE" "h_next (free_header m n x) = x"
  "(free_header m n x)\<lparr>h_next := y\<rparr> = free_header m n y"
  by (simp_all add: free_header_def)

lemma free_header_fill:
  "x\<lparr>h_next_unused := 0, h_next := 0, h_type := BLOCK_TYPE_FREE, h_memory := m, h_size := n\<rparr>
     = free_header m n 0"
  by (cases x) (simp add: free_header_def)

text \<open>The first header of the free range is given back, and is the one taken for the new block.\<close>

lemma squish_first:
  assumes "f \<noteq> 0" and "nxt s f \<noteq> f"
  shows "squish_free_blocks list_fuel f f s = Inr (header_set_unused f s)"
proof -
  have fuel: "list_fuel \<noteq> 0" by (simp add: list_fuel_def)
  have "nxt (header_set_unused f s) f = 0" using assms(1) by simp
  then show ?thesis
    using assms fuel by (subst squish_free_blocks.simps, subst squish_free_blocks.simps)
      (simp add: Let_def)
qed

lemma new_free_header_recycled:
  assumes "f \<noteq> 0"
  shows "new_free_header m n (header_set_unused f s)
    = Inr (f, s\<lparr>unused_header_root := 0, hdr := (hdr s)(f := free_header m n 0)\<rparr>)"
  using assms
  by (simp add: new_free_header_def header_new_def header_set_unused_alt header_clear_def
      rm_header_find_free_def Let_def upd_hdr_def free_header_fill)

lemma new_free_header_grow:
  assumes "unused_header_root s = 0"
  shows "new_free_header m n s =
    (if memory_top s < header_bottom s - 2 * sizeof_rm_header_t
     then Inr (header_bottom s - sizeof_rm_header_t,
       s\<lparr>header_bottom := header_bottom s - sizeof_rm_header_t,
         hdr := (hdr s)(header_bottom s - sizeof_rm_header_t := free_header m n 0)\<rparr>)
     else Inl Null_deref)"
  using assms
  by (auto simp: new_free_header_def header_new_def header_clear_def
      rm_header_find_free_def Let_def upd_hdr_def free_header_fill)

section \<open>The parts of the list in a pass\<close>

text \<open>
  A pass that moves blocks: \<open>B\<close> is the list before the free range \<open>FR\<close>, \<open>U\<close> are the unlocked blocks
  that move, \<open>M\<close> is what lies between, \<open>R\<close> is the rest.
\<close>

definition pass_split ::
  "rm_state \<Rightarrow> nat list \<Rightarrow> nat list \<Rightarrow> nat list \<Rightarrow> nat list \<Rightarrow> nat list \<Rightarrow> nat list \<Rightarrow> bool" where
  "pass_split s L B FR M U R \<longleftrightarrow>
     cstate s L \<and> L = B @ FR @ M @ U @ R \<and> FR \<noteq> [] \<and> U \<noteq> [] \<and> (\<forall>h\<in>set FR. is_free s h)
     \<and> (\<forall>h\<in>set U. is_unlocked s h) \<and> (M \<noteq> [] \<longrightarrow> sizes s U \<le> sizes s FR)"

text \<open>Where the parts lie: \<open>FR\<close> from \<open>a\<close>, \<open>M\<close> from \<open>b\<close>, \<open>U\<close> from \<open>c\<close> to \<open>d\<close>.\<close>

lemma pass_positions:
  assumes ps: "pass_split s L B FR M U R"
    and a: "a = h_memory (hdr s (hd FR))" and b: "b = a + sizes s FR" and c: "c = b + sizes s M"
    and d: "d = c + sizes s U"
  shows "tiled (memory_bottom s) a (map (extent s) B)" and "tiled a b (map (extent s) FR)"
    and "tiled b c (map (extent s) M)" and "tiled c d (map (extent s) U)"
    and "tiled d (memory_top s) (map (extent s) R)"
    and "h_memory (hdr s (hd U)) = c" and "memory_bottom s \<le> a" and "d \<le> memory_top s"
    and "16 \<le> sizes s FR" and "16 \<le> sizes s U"
proof -
  have t: "tiled (memory_bottom s) (memory_top s) (map (extent s) (B @ FR @ M @ U @ R))"
    and ne: "FR \<noteq> []" "U \<noteq> []"
    and sz: "\<And>h. h \<in> set (FR @ U) \<Longrightarrow> 16 \<le> h_size (hdr s h)"
    using ps cstate_parts(8,9) unfolding pass_split_def by fastforce+
  from t obtain p1 p2 p3 p4 where
    T: "tiled (memory_bottom s) p1 (map (extent s) B)" "tiled p1 p2 (map (extent s) FR)"
      "tiled p2 p3 (map (extent s) M)" "tiled p3 p4 (map (extent s) U)"
      "tiled p4 (memory_top s) (map (extent s) R)"
    unfolding tiled_segments by blast
  have "p1 = a" using tiled_hd [OF T(2) ne(1)] a by simp
  moreover have "p2 = b" using tiled_extent_sizes [OF T(2)] b calculation by simp
  moreover have "p3 = c" using tiled_extent_sizes [OF T(3)] c calculation by simp
  moreover have "p4 = d" using tiled_extent_sizes [OF T(4)] d calculation by simp
  ultimately show "tiled (memory_bottom s) a (map (extent s) B)" "tiled a b (map (extent s) FR)"
    "tiled b c (map (extent s) M)" and tU: "tiled c d (map (extent s) U)"
    and "tiled d (memory_top s) (map (extent s) R)"
    using T by simp_all
  then show "memory_bottom s \<le> a" "d \<le> memory_top s" by (auto dest: tiled_le)
  show "h_memory (hdr s (hd U)) = c" using tiled_hd [OF tU ne(2)] by simp
  show "16 \<le> sizes s FR" "16 \<le> sizes s U"
    using ne sz [of "hd FR"] sz [of "hd U"] by (cases FR; cases U; force)+
qed

definition heap_frame :: "rm_state \<Rightarrow> rm_state \<Rightarrow> bool" where
  "heap_frame s s' \<longleftrightarrow>
     memory_bottom s' = memory_bottom s \<and> memory_top s' = memory_top s
     \<and> memory_size s' = memory_size s \<and> free_block_slot_count s' = free_block_slot_count s
     \<and> header_top s' = header_top s \<and> header_used_count s' = header_used_count s
     \<and> slots s' = slots s"

text \<open>
  What the new state has to satisfy: the blocks of \<open>U\<close> are shifted to the start of the free range,
  the last one longer by \<open>ext\<close>; \<open>S\<close> (for the space that is left over) and \<open>f\<close> are free headers; the
  blocks of \<open>B\<close>, \<open>M\<close> and \<open>R\<close> are the same.
\<close>

definition pass_headers ::
  "rm_state \<Rightarrow> rm_state \<Rightarrow> nat list \<Rightarrow> nat list \<Rightarrow> nat list \<Rightarrow> nat list \<Rightarrow> nat list \<Rightarrow> nat \<Rightarrow> nat \<Rightarrow> nat
   \<Rightarrow> bool" where
  "pass_headers s s' B S M U R f off ext \<longleftrightarrow>
     (\<forall>h\<in>set B \<union> set M \<union> set R. extent s' h = extent s h \<and> h_type (hdr s' h) = h_type (hdr s h))
     \<and> (\<forall>h\<in>set U. h_memory (hdr s' h) = h_memory (hdr s h) - off
          \<and> h_size (hdr s' h) = h_size (hdr s h) + (if h = last U then ext else 0)
          \<and> h_type (hdr s' h) = h_type (hdr s h))
     \<and> (\<forall>h\<in>set S \<union> {f}. is_free s' h \<and> sizeof_free_memory_block_t \<le> h_size (hdr s' h)
          \<and> header_slot s' h)"

lemma pass_kept:
  assumes ps: "pass_split s L B FR M U R"
    and pos: "a = h_memory (hdr s (hd FR))" "b = a + sizes s FR" "c = b + sizes s M"
      "d = c + sizes s U"
    and ph: "pass_headers s s' B S M U R f (c - a) ext"
    and mem: "mem s' = mem (shift_blocks (c - a) c d U s)"
  shows "kept s s' L (B @ U @ S @ M @ [f] @ R)"
proof -
  note pp = pass_positions [OF ps pos]
  have L: "L = B @ FR @ M @ U @ R" and free: "\<forall>h\<in>set FR. is_free s h"
    and un: "\<forall>h\<in>set U. is_unlocked s h" and su: "M \<noteq> [] \<longrightarrow> sizes s U \<le> sizes s FR"
    using ps by (auto simp: pass_split_def)
  have same: "extent s' h = extent s h" "h_type (hdr s' h) = h_type (hdr s h)"
    if "h \<in> set B \<union> set M \<union> set R" for h using ph that unfolding pass_headers_def by blast+
  have use: "in_use s' h = in_use s h" if "h \<in> set B \<union> set M \<union> set R \<union> set U" for h
    using ph that unfolding pass_headers_def in_use_def by auto
  have nfree: "\<not> in_use s' h" if "h \<in> set S \<union> {f}" for h
    using ph that unfolding pass_headers_def in_use_is_free by blast
  have "{g \<in> set (B @ U @ S @ M @ [f] @ R). in_use s' g} = {g \<in> set L. in_use s g}"
    using use nfree free unfolding L by (auto simp: in_use_is_free)
  moreover have "moved_down s s' g" if g: "g \<in> set L" "in_use s g" for g
  proof (cases "g \<in> set U")
    case True
    then have u: "h_memory (hdr s' g) = h_memory (hdr s g) - (c - a)"
        "h_size (hdr s g) \<le> h_size (hdr s' g)" "h_type (hdr s' g) = h_type (hdr s g)"
      using ph unfolding pass_headers_def by auto
    have "extent s g \<in> set (map (extent s) U)" using True by simp
    from tiled_bounds [OF pp(4) this]
    have bd: "c \<le> h_memory (hdr s g)" "h_memory (hdr s g) + h_size (hdr s g) \<le> d" by simp_all
    have "mem s' (h_memory (hdr s' g) + i) = mem s (h_memory (hdr s g) + i)"
      if "i < h_size (hdr s g)" for i
    proof -
      have "c - (c - a) \<le> h_memory (hdr s' g) + i" "h_memory (hdr s' g) + i < d - (c - a)"
          "h_memory (hdr s' g) + i + (c - a) = h_memory (hdr s g) + i"
        using u(1) bd that pos by auto
      then have "mem s' (h_memory (hdr s' g) + i) = mem s (h_memory (hdr s' g) + i + (c - a))"
        by (simp add: mem shift_blocks_def del: diff_diff_cancel)
      then show ?thesis
        by (simp only: \<open>h_memory (hdr s' g) + i + (c - a) = h_memory (hdr s g) + i\<close>)
    qed
    moreover have "h_type (hdr s g) = BLOCK_TYPE_UNLOCKED"
      using un True by (auto simp: is_unlocked_def)
    ultimately show ?thesis using u by (simp add: moved_down_def)
  next
    case False
    then have gB: "g \<in> set B \<union> set M \<union> set R"
      using g free unfolding L by (auto simp: in_use_is_free)
    have out: "h_memory (hdr s g) + h_size (hdr s g) \<le> a \<or> c - (c - a) + (d - c) \<le> h_memory (hdr s g)"
    proof -
      from gB consider "g \<in> set B" | "g \<in> set M" | "g \<in> set R" by blast
      then show ?thesis
      proof cases
        case 1
        then have "extent s g \<in> set (map (extent s) B)" by simp
        from tiled_bounds [OF pp(1) this] show ?thesis by simp
      next
        case 2
        then have "extent s g \<in> set (map (extent s) M)" "M \<noteq> []" by auto
        with tiled_bounds [OF pp(3)] su pos show ?thesis by fastforce
      next
        case 3
        then have "extent s g \<in> set (map (extent s) R)" by simp
        from tiled_bounds [OF pp(5) this] pos show ?thesis by simp
      qed
    qed
    have "mem s' (h_memory (hdr s g) + i) = mem s (h_memory (hdr s g) + i)"
      if "i < h_size (hdr s g)" for i
    proof -
      have "\<not> (c - (c - a) \<le> h_memory (hdr s g) + i \<and> h_memory (hdr s g) + i < d - (c - a))"
        using out that pos by auto
      then show ?thesis unfolding mem shift_blocks_def by auto
    qed
    then show ?thesis using same [OF gB] by (simp add: moved_down_def extent_def)
  qed
  ultimately show ?thesis unfolding kept_def by blast
qed

lemma pass_cstate:
  assumes ps: "pass_split s L B FR M U R"
    and pos: "a = h_memory (hdr s (hd FR))" "b = a + sizes s FR" "c = b + sizes s M"
      "d = c + sizes s U"
    and ph: "pass_headers s s' B S M U R f (c - a) ext"
    and fr: "heap_frame s s'" "unused_header_root s' = 0"
    and hb: "header_bottom s' = header_bottom s
      \<or> header_bottom s' = header_bottom s - sizeof_rm_header_t
        \<and> memory_top s < header_bottom s - 2 * sizeof_rm_header_t"
    and ch: "chain (nxt s') (header_root s') (B @ U @ S @ M @ [f] @ R) 0"
    and ti: "tiled (a + sizes s U + ext) d (map (extent s') (S @ M @ [f]))"
  shows "cstate s' (B @ U @ S @ M @ [f] @ R)"
proof -
  let ?L = "B @ U @ S @ M @ [f] @ R"
  note pp = pass_positions [OF ps pos]
  have cs: "cstate s L" and L: "L = B @ FR @ M @ U @ R" and ne: "U \<noteq> []"
    and free: "\<forall>h\<in>set FR. is_free s h"
    using ps by (auto simp: pass_split_def)
  note cp = cstate_parts [OF cs]
  have frm: "memory_bottom s' = memory_bottom s" "memory_top s' = memory_top s"
      "memory_size s' = memory_size s" "free_block_slot_count s' = free_block_slot_count s"
      "header_top s' = header_top s" "header_used_count s' = header_used_count s"
      "slots s' = slots s"
    using fr(1) by (simp_all add: heap_frame_def)
  have same: "extent s' h = extent s h" "h_type (hdr s' h) = h_type (hdr s h)"
    if "h \<in> set B \<union> set M \<union> set R" for h using ph that unfolding pass_headers_def by blast+
  have use: "in_use s' h = in_use s h" if "h \<in> set B \<union> set M \<union> set R \<union> set U" for h
    using ph that unfolding pass_headers_def in_use_def by auto
  have nfree: "\<not> in_use s' h" if "h \<in> set S \<union> {f}" for h
    using ph that unfolding pass_headers_def in_use_is_free by blast
  have geo: "geometry s'"
  proof -
    have "header_bottom s \<le> header_top s" "sizeof_rm_header_t dvd header_top s - header_bottom s"
      using cp(1) by (simp_all add: geometry_def)
    moreover from this(1) have "header_top s + sizeof_rm_header_t - header_bottom s
        = (header_top s - header_bottom s) + sizeof_rm_header_t" by simp
    ultimately have "sizeof_rm_header_t dvd header_top s + sizeof_rm_header_t - header_bottom s"
      by (simp only: dvd_add_triv_right_iff)
    with hb cp(1) frm show ?thesis unfolding geometry_def by (elim disjE) auto
  qed
  have slot: "header_slot s' h" if "h \<in> set ?L" for h
  proof (cases "h \<in> set S \<union> {f}")
    case True
    with ph show ?thesis unfolding pass_headers_def by blast
  next
    case False
    with that have "h \<in> set L" unfolding L by auto
    from cp(5) [OF this] hb frm show ?thesis by (auto simp: header_slot_def)
  qed
  have sz: "sizeof_free_memory_block_t \<le> h_size (hdr s' h)" if h: "h \<in> set ?L" for h
  proof -
    from h consider "h \<in> set S \<union> {f}" | "h \<in> set B \<union> set M \<union> set R" | "h \<in> set U" by auto
    then show ?thesis
    proof cases
      case 1
      with ph show ?thesis unfolding pass_headers_def by blast
    next
      case 2
      with same(1) [OF 2] cp(9) [of h] L show ?thesis by (auto simp: extent_def)
    next
      case 3
      with ph have "h_size (hdr s h) \<le> h_size (hdr s' h)" unfolding pass_headers_def by auto
      with cp(9) [of h] L 3 show ?thesis by auto
    qed
  qed
  have dist: "distinct ?L" using ch by (rule chain_null_distinct)
  have e: "c - (c - a) = a" "d - (c - a) = a + sizes s U" using pos by auto
  have "tiled (c - (c - a)) (d - (c - a) + ext) (map (extent s') U)"
    by (rule tiled_shift [OF pp(4)]) (use ne dist ph pos in \<open>auto simp: pass_headers_def extent_def\<close>)
  then have tU: "tiled a (a + sizes s U + ext) (map (extent s') U)" unfolding e .
  have tB: "tiled (memory_bottom s) a (map (extent s') B)"
    using pp(1) same(1) by (subst tiled_cong [of B _ "extent s"]) auto
  have tR: "tiled d (memory_top s) (map (extent s') R)"
    using pp(5) same(1) by (subst tiled_cong [of R _ "extent s"]) auto
  have "tiled (memory_bottom s) (memory_top s) (map (extent s') (B @ U @ (S @ M @ [f]) @ R))"
    unfolding tiled_segments using tB tU ti tR unfolding tiled_segments by blast
  then have "placed s' ?L ?L" unfolding placed_def frm using sz by simp
  moreover have "length (filter (in_use s') ?L) = length (filter (in_use s) L)"
  proof -
    have "filter (in_use s') X = filter (in_use s) X" if "set X \<subseteq> set B \<union> set M \<union> set R \<union> set U" for X
      using use that by (intro filter_cong) auto
    then have "filter (in_use s') B = filter (in_use s) B" "filter (in_use s') M = filter (in_use s) M"
        "filter (in_use s') R = filter (in_use s) R" "filter (in_use s') U = filter (in_use s) U"
      by blast+
    moreover have "filter (in_use s') S = []" "filter (in_use s) FR = []"
      using nfree free by (auto simp: filter_empty_conv in_use_is_free)
    ultimately show ?thesis using nfree unfolding L by simp
  qed
  moreover have "unused_root_ok s'" using fr(2) by (simp add: unused_root_ok_def)
  ultimately show ?thesis
    using geo ch slot cs frm(6) unfolding cstate_def by simp
qed

end
