(* ===== verification/Rm_Relink.thy ===== *)
theory Rm_Relink
  imports Rm_Pass
begin

text \<open>
  \<open>compact_move\<close> on a list that a pass has split: both ways of relinking give a state as
  \<open>pass_cstate\<close> and \<open>pass_kept\<close> want it; the only failure is a header that is missing for the
  space left over when locked blocks lie in between.
\<close>

section \<open>The common first part\<close>

lemma chain_no_self_loop: "chain nx p xs 0 \<Longrightarrow> x \<in> set xs \<Longrightarrow> nx x \<noteq> x"
proof
  assume c: "chain nx p xs 0" and x: "x \<in> set xs" and e: "nx x = x"
  from x obtain ys zs where xs: "xs = ys @ x # zs" by (meson split_list)
  have d: "distinct xs" using c by (rule chain_null_distinct)
  have "chain nx (nx x) zs 0" using c unfolding xs by (rule chain_step)
  with e d xs have "zs = []" by (cases zs) auto
  with c xs have "nx x = 0" by (auto dest: chain_last)
  with e chain_nonnull [OF c x] show False by simp
qed

lemma pass_links:
  assumes ps: "pass_split s L B FR M U R"
  shows "chain (nxt s) (hd U) U (head0 R)" and "nxt s (last U) = head0 R"
    and "nxt s (last FR) = head0 (M @ U)" and "head0 R \<notin> set U" and "nxt s (hd FR) \<noteq> hd FR"
    and "distinct L" and "hd FR \<in> set FR" and "hd U \<noteq> 0" and "last U \<noteq> 0" and "hd FR \<noteq> 0"
    and "B \<noteq> [] \<Longrightarrow> last B \<noteq> 0" and "M \<noteq> [] \<Longrightarrow> last M \<noteq> 0"
    and "nxt s (last FR) = hd U \<longleftrightarrow> M = []"
proof -
  have c: "chain (nxt s) (header_root s) (B @ FR @ M @ U @ R) 0"
    and L: "L = B @ FR @ M @ U @ R" and ne: "FR \<noteq> []" "U \<noteq> []"
    using ps cstate_parts(3) unfolding pass_split_def by blast+
  show d: "distinct L" using c unfolding L by (rule chain_null_distinct)
  show f: "hd FR \<in> set FR" using ne by simp
  from c obtain r1 r2 where c2: "chain (nxt s) r1 FR r2" "chain (nxt s) r2 (M @ U @ R) 0"
    unfolding chain_append by blast
  from c2(2) obtain r3 where "chain (nxt s) r3 (U @ R) 0" unfolding chain_append by blast
  then have c3: "chain (nxt s) (head0 (U @ R)) (U @ R) 0" by (simp add: chain_head0)
  show cU: "chain (nxt s) (hd U) U (head0 R)"
    using chain_head0_append [OF c3] ne by (simp add: head0_def)
  show "nxt s (last U) = head0 R" using chain_last_link [OF cU ne(2)] .
  have "r2 = head0 (M @ U)" using c2(2) ne by (cases M; cases U) auto
  then show fl: "nxt s (last FR) = head0 (M @ U)" using chain_last_link [OF c2(1) ne(1)] by simp
  have z: "0 \<notin> set L" using chain_nonnull [OF c] L by blast
  show "head0 R \<notin> set U" using d z ne unfolding L by (cases R) auto
  have fL: "hd FR \<in> set (B @ FR @ M @ U @ R)" using f by simp
  show "nxt s (hd FR) \<noteq> hd FR" using chain_no_self_loop [OF c fL] .
  show "hd U \<noteq> 0" "last U \<noteq> 0" "hd FR \<noteq> 0"
    using z ne hd_in_set [OF ne(2)] last_in_set [OF ne(2)] f unfolding L by (metis Un_iff set_append)+
  show "B \<noteq> [] \<Longrightarrow> last B \<noteq> 0" "M \<noteq> [] \<Longrightarrow> last M \<noteq> 0"
    using z last_in_set [of B] last_in_set [of M] unfolding L by (metis Un_iff set_append)+
  have "hd M \<noteq> hd U" if "M \<noteq> []" using d that ne unfolding L by (cases M; cases U) auto
  then show "nxt s (last FR) = hd U \<longleftrightarrow> M = []"
    using fl ne by (cases "M = []") (auto simp: head0_def)
qed

lemma shift_blocks_sel [simp]:
  "heap_frame s (shift_blocks off c d U s)"
  "header_bottom (shift_blocks off c d U s) = header_bottom s"
  "header_root (shift_blocks off c d U s) = header_root s"
  "unused_header_root (shift_blocks off c d U s) = unused_header_root s"
  by (simp_all add: shift_blocks_def heap_frame_def)

lemma shift_blocks_hdr:
  "h \<notin> set U \<Longrightarrow> hdr (shift_blocks off c d U s) h = hdr s h"
  "h \<in> set U \<Longrightarrow> hdr (shift_blocks off c d U s) h
     = (hdr s h)\<lparr>h_memory := h_memory (hdr s h) - off\<rparr>"
  by (simp_all add: shift_blocks_def)

lemma shift_blocks_next: "h_next (hdr (shift_blocks off c d U s) h) = h_next (hdr s h)"
  by (simp add: shift_blocks_def)

text \<open>Up to the relinking, both cases are the same.\<close>

lemma compact_move_start:
  assumes ps: "pass_split s L B FR M U R"
    and pos: "a = h_memory (hdr s (hd FR))" "b = a + sizes s FR" "c = b + sizes s M"
      "d = c + sizes s U"
  shows "compact_move rln fs (hd FR) (last FR) (hd U) (last U) bb s =
    bind_res
      (if M = []
       then relink_adjacent a (sizes s U) fs (last U) (head0 R)
              (header_set_unused (hd FR) (shift_blocks (c - a) c d U s))
       else relink_nonadjacent c (sizes s U) fs (hd U) (last U) (head0 R) bb (head0 (M @ U))
              (header_set_unused (hd FR) (shift_blocks (c - a) c d U s)))
      (\<lambda>s3. bind_res
        (if rln = 0 then Inr (s3\<lparr>header_root := hd U\<rparr>) else set_next rln (hd U) s3)
        (\<lambda>s4. Inr (Again (last U), s4\<lparr>highest_address_header := last U\<rparr>)))"
proof -
  let ?s1 = "shift_blocks (c - a) c d U s"
  note pp = pass_positions [OF ps pos] and pl = pass_links [OF ps]
  have cs: "cstate s L" and L: "L = B @ FR @ M @ U @ R" using ps by (auto simp: pass_split_def)
  note cp = cstate_parts [OF cs]
  have dU: "distinct U" "hd FR \<notin> set U" using pl(6,7) unfolding L by auto
  have le: "a \<le> c" "d < 2 ^ 64" "d < a + 2 ^ 31" "c - a \<noteq> 0" "c - a < 2 ^ 32"
    using pos pp(7-9) cp(12,13) by auto
  have off: "header_memory_offset (hd FR) (hd U) s = c - a"
    using le pp(6) pos(1) by (simp add: header_memory_offset_def Let_def)
  have "sizes s U < 2 ^ 32" "length U \<le> list_fuel"
    using cstate_sizes [OF cs] unfolding L by (auto simp: list_fuel_def)
  then have mv: "move_used_blocks list_fuel (c - a) (last U) 0 (hd U) s = Inr (sizes s U, ?s1)"
    using move_used_blocks_spec [of s "hd U" U "last U" c d "c - a" 0 list_fuel] pl(1,2,4) pp(4)
      dU(1) le by simp
  have sq: "squish_free_blocks list_fuel (hd FR) (hd FR) ?s1 = Inr (header_set_unused (hd FR) ?s1)"
    using pl(5,10) by (intro squish_first) (simp_all add: shift_blocks_next)
  have hm: "h_memory (hdr ?s1 (hd FR)) = a" using dU(2) pos(1) by (simp add: shift_blocks_hdr)
  show ?thesis
    unfolding compact_move_def Let_def off mv sq bind_res_simps prod.case hm pl(2,3) pp(6)
    using le(4) pl(9) pl(13) [unfolded pl(3)]
    by (simp add: update_highest_address_if_needed_def mv sq hm)
qed

section \<open>Relinking\<close>

lemma relink_adjacent_spec:
  assumes "f \<noteq> 0" "ul \<noteq> 0" "ul \<noteq> f" and "a + su < 2 ^ 64"
  shows "relink_adjacent a su fs ul x (header_set_unused f t) =
    Inr (t\<lparr>unused_header_root := 0,
           hdr := (hdr t)(f := free_header (a + su) fs x, ul := (hdr t ul)\<lparr>h_next := f\<rparr>)\<rparr>)"
  using assms
  by (simp add: relink_adjacent_def new_free_header_recycled set_next_def upd_hdr_def
      fun_upd_twist)

lemma u32_diff: "su \<le> fs \<Longrightarrow> fs < 2 ^ 32 \<Longrightarrow> u32 (fs + 2 ^ 32 - su) = fs - su"
proof -
  assume le: "su \<le> fs" "fs < 2 ^ 32"
  then have "fs + 2 ^ 32 - su = (fs - su) + 2 ^ 32" by simp
  then have "u32 (fs + 2 ^ 32 - su) = (fs - su) mod 2 ^ 32" by (simp only: u32_def mod_add_self2)
  also have "\<dots> = fs - su" using le by (intro mod_less) simp
  finally show ?thesis .
qed

text \<open>Relinking over locked blocks; the rest of the gap becomes a block, or extends the last one.\<close>

lemma relink_nonadjacent_extend:
  assumes "f \<noteq> 0" "ul \<noteq> 0" "bb \<noteq> 0" "ul \<noteq> f" "bb \<noteq> f" "bb \<noteq> ul" and "memory_bottom t < c"
    and "su \<le> fs" "fs < su + sizeof_free_memory_block_t" "fs < 2 ^ 31"
      "h_size (hdr t ul) < 2 ^ 31"
  shows "relink_nonadjacent c su fs uf ul x bb y (header_set_unused f t) =
    Inr (t\<lparr>unused_header_root := 0,
           hdr := (hdr t)(f := free_header c su x, bb := (hdr t bb)\<lparr>h_next := f\<rparr>,
             ul := (hdr t ul)\<lparr>h_size := h_size (hdr t ul) + (fs - su), h_next := y\<rparr>)\<rparr>)"
proof -
  have u: "u32 (fs + 2 ^ 32 - su) = fs - su" using assms(8,10) by (intro u32_diff) auto
  have v: "u32 (h_size (hdr t ul) + (fs - su)) = h_size (hdr t ul) + (fs - su)"
    using assms(9-11) by (intro u32_small) auto
  define t1 where "t1 = t\<lparr>unused_header_root := 0, hdr := (hdr t)(f := free_header c su 0)\<rparr>"
  define t3 where "t3 = upd_hdr f (\<lambda>h. h\<lparr>h_next := x\<rparr>) (upd_hdr bb (\<lambda>h. h\<lparr>h_next := f\<rparr>) t1)"
  have n: "new_free_header c su (header_set_unused f t) = Inr (f, t1)"
    unfolding t1_def using assms(1) by (rule new_free_header_recycled)
  have m: "\<not> h_memory (hdr t1 f) \<le> memory_bottom t1" using assms(7) by (simp add: t1_def)
  have l: "\<not> su + sizeof_free_memory_block_t \<le> fs" using assms(9) by simp
  have "relink_nonadjacent c su fs uf ul x bb y (header_set_unused f t) =
    Inr (upd_hdr ul (\<lambda>h. h\<lparr>h_next := y\<rparr>)
          (upd_hdr ul (\<lambda>h. h\<lparr>h_size := u32 (h_size h + (fs - su))\<rparr>) t3))"
    unfolding relink_nonadjacent_def u n using m l assms(1-3) by (simp add: set_next_def t3_def)
  moreover have "hdr t3 ul = hdr t ul" using assms(4,6) by (simp add: t3_def t1_def)
  moreover have "hdr t3 = (hdr t)(f := free_header c su x, bb := (hdr t bb)\<lparr>h_next := f\<rparr>)"
    using assms(5) by (auto simp: t3_def t1_def fun_eq_iff)
  ultimately show ?thesis
    using v by (simp add: upd_hdr_def) (simp add: t3_def t1_def upd_hdr_def)
qed

lemma relink_nonadjacent_spare:
  assumes "f \<noteq> 0" "ul \<noteq> 0" "bb \<noteq> 0" "ul \<noteq> f" "bb \<noteq> f" "bb \<noteq> ul" "uf \<noteq> f" "uf \<noteq> bb"
    and "memory_bottom t < c" "memory_bottom t < a + su"
    and "su + sizeof_free_memory_block_t \<le> fs" "fs < 2 ^ 31" "a + su < 2 ^ 64"
    and "h_memory (hdr t uf) = a"
    and r: "r = header_bottom t - sizeof_rm_header_t" "r \<noteq> f" "r \<noteq> ul" "r \<noteq> bb" "r \<noteq> uf"
  shows "relink_nonadjacent c su fs uf ul x bb y (header_set_unused f t) =
    (if memory_top t < header_bottom t - 2 * sizeof_rm_header_t
     then Inr (t\<lparr>unused_header_root := 0, header_bottom := r,
           hdr := (hdr t)(f := free_header c su x, bb := (hdr t bb)\<lparr>h_next := f\<rparr>,
             r := free_header (a + su) (fs - su) y, ul := (hdr t ul)\<lparr>h_next := r\<rparr>)\<rparr>)
     else Inl Null_deref)"
proof -
  have u: "u32 (fs + 2 ^ 32 - su) = fs - su" using assms(11,12) by (intro u32_diff) auto
  define t1 where "t1 = t\<lparr>unused_header_root := 0, hdr := (hdr t)(f := free_header c su 0)\<rparr>"
  define t3 where "t3 = upd_hdr f (\<lambda>h. h\<lparr>h_next := x\<rparr>) (upd_hdr bb (\<lambda>h. h\<lparr>h_next := f\<rparr>) t1)"
  define t4 where "t4 = t3\<lparr>header_bottom := r, hdr := (hdr t3)(r := free_header (a + su) (fs - su) 0)\<rparr>"
  have n: "new_free_header c su (header_set_unused f t) = Inr (f, t1)"
    unfolding t1_def using assms(1) by (rule new_free_header_recycled)
  have m: "\<not> h_memory (hdr t1 f) \<le> memory_bottom t1" using assms(9) by (simp add: t1_def)
  have h3: "hdr t3 = (hdr t)(f := free_header c su x, bb := (hdr t bb)\<lparr>h_next := f\<rparr>)"
    using assms(5) by (auto simp: t3_def t1_def fun_eq_iff)
  have a: "u64 (h_memory (hdr t1 uf) + su) = a + su" using assms(7,13,14) by (simp add: t1_def)
  have f3: "unused_header_root t3 = 0" "header_bottom t3 = header_bottom t"
      "memory_top t3 = memory_top t" "memory_bottom t3 = memory_bottom t"
    by (simp_all add: t3_def t1_def)
  note grow = new_free_header_grow [OF f3(1), of "a + su" "fs - su", unfolded f3(2,3) r(1)[symmetric]]
  have step: "relink_nonadjacent c su fs uf ul x bb y (header_set_unused f t) =
    bind_res (new_free_header (a + su) (fs - su) t3)
      (\<lambda>(sf, s4). if h_memory (hdr s4 sf) \<le> memory_bottom s4 then Inl Abort
        else bind_res (set_next ul sf s4) (\<lambda>s5. set_next sf y s5))"
    unfolding relink_nonadjacent_def u n
    using m assms(1,3,7,8,11) a by (simp add: set_next_def flip: t3_def)
  show ?thesis
  proof (cases "memory_top t < header_bottom t - 2 * sizeof_rm_header_t")
    case False
    then show ?thesis using step grow by simp
  next
    case True
    then have "r \<noteq> 0" using r(1) by auto
    then have "relink_nonadjacent c su fs uf ul x bb y (header_set_unused f t) =
        Inr (upd_hdr r (\<lambda>h. h\<lparr>h_next := y\<rparr>) (upd_hdr ul (\<lambda>h. h\<lparr>h_next := r\<rparr>) t4))"
      using step grow True assms(2,10) by (simp add: set_next_def t4_def f3)
    moreover have "hdr (upd_hdr r (\<lambda>h. h\<lparr>h_next := y\<rparr>) (upd_hdr ul (\<lambda>h. h\<lparr>h_next := r\<rparr>) t4))
        = (hdr t)(f := free_header c su x, bb := (hdr t bb)\<lparr>h_next := f\<rparr>,
             r := free_header (a + su) (fs - su) y, ul := (hdr t ul)\<lparr>h_next := r\<rparr>)"
      using assms(4,6) r(3) by (auto simp: t4_def h3 fun_eq_iff)
    ultimately show ?thesis using True
      by (simp add: upd_hdr_def) (simp add: t4_def t3_def t1_def upd_hdr_def)
  qed
qed

section \<open>The state after a pass\<close>

text \<open>The last two steps: the link to the moved blocks, or the new root.\<close>

definition link_moved :: "nat \<Rightarrow> nat \<Rightarrow> nat \<Rightarrow> rm_state \<Rightarrow> rm_state" where
  "link_moved rln uf ul s =
     (if rln = 0 then s\<lparr>header_root := uf\<rparr> else upd_hdr rln (\<lambda>x. x\<lparr>h_next := uf\<rparr>) s)
       \<lparr>highest_address_header := ul\<rparr>"

lemma link_moved_res:
  "bind_res (if rln = 0 then Inr (s\<lparr>header_root := uf\<rparr>) else set_next rln uf s)
     (\<lambda>s4. Inr (Again ul, s4\<lparr>highest_address_header := ul\<rparr>)) = Inr (Again ul, link_moved rln uf ul s)"
  by (simp add: link_moved_def set_next_def)

lemma link_moved_sel [simp]:
  "heap_frame s (link_moved rln uf ul t) \<longleftrightarrow> heap_frame s t"
  "header_bottom (link_moved rln uf ul t) = header_bottom t"
  "header_top (link_moved rln uf ul t) = header_top t"
  "header_root (link_moved rln uf ul t) = (if rln = 0 then uf else header_root t)"
  "unused_header_root (link_moved rln uf ul t) = unused_header_root t"
  "mem (link_moved rln uf ul t) = mem t"
  "h_memory (hdr (link_moved rln uf ul t) h) = h_memory (hdr t h)"
  "h_size (hdr (link_moved rln uf ul t) h) = h_size (hdr t h)"
  "h_type (hdr (link_moved rln uf ul t) h) = h_type (hdr t h)"
  "h_next (hdr (link_moved rln uf ul t) h) = (if rln \<noteq> 0 \<and> h = rln then uf else h_next (hdr t h))"
  by (simp_all add: link_moved_def heap_frame_def)

lemma link_moved_extent [simp]: "extent (link_moved rln uf ul t) = extent t"
  by (simp add: fun_eq_iff extent_def)

definition pass_done ::
  "rm_state \<Rightarrow> rm_state \<Rightarrow> nat list \<Rightarrow> nat list \<Rightarrow> nat list \<Rightarrow> nat list \<Rightarrow> nat list \<Rightarrow> nat \<Rightarrow> nat list
   \<Rightarrow> bool" where
  "pass_done s s' L B S M U f R \<longleftrightarrow>
     cstate s' (B @ U @ S @ M @ [f] @ R) \<and> kept s s' L (B @ U @ S @ M @ [f] @ R)
     \<and> length S \<le> 1 \<and> heap_frame s s'
     \<and> header_bottom s' + sizeof_rm_header_t * length S = header_bottom s
     \<and> (\<forall>h\<in>set S \<union> {f}. is_free s' h)
     \<and> (\<forall>h\<in>set M \<union> set R \<union> set U. h_type (hdr s' h) = h_type (hdr s h))"

lemma pass_finish:
  assumes ps: "pass_split s L B FR M U R"
    and pos: "a = h_memory (hdr s (hd FR))" "b = a + sizes s FR" "c = b + sizes s M"
      "d = c + sizes s U"
    and f: "f = hd FR"
    and ph: "pass_headers s t B S M U R f (c - a) ext"
    and fr: "heap_frame s t" "unused_header_root t = 0" "header_root t = header_root s"
      "mem t = mem (shift_blocks (c - a) c d U s)"
    and hb: "header_bottom t + sizeof_rm_header_t * length S = header_bottom s"
      "S \<noteq> [] \<Longrightarrow> memory_top s < header_bottom s - 2 * sizeof_rm_header_t"
    and S: "set S \<inter> set L = {}" "0 \<notin> set S" "length S \<le> 1"
    and nB: "\<And>x. x \<in> set B \<Longrightarrow> nxt t x = nxt s x"
    and nU: "\<And>x. x \<in> set U \<Longrightarrow> x \<noteq> last U \<Longrightarrow> nxt t x = nxt s x"
      "nxt t (last U) = head0 (S @ M @ [f])"
    and nS: "\<And>x. x \<in> set S \<Longrightarrow> nxt t x = head0 (M @ [f])"
    and nM: "\<And>x. x \<in> set M \<Longrightarrow> x \<noteq> last M \<Longrightarrow> nxt t x = nxt s x" "M \<noteq> [] \<Longrightarrow> nxt t (last M) = f"
    and nf: "nxt t f = head0 R" and nR: "\<And>x. x \<in> set R \<Longrightarrow> nxt t x = nxt s x"
    and ti: "tiled (a + sizes s U + ext) d (map (extent t) (S @ M @ [f]))"
  shows "pass_done s (link_moved (last0 0 B) (hd U) (last U) t) L B S M U f R"
proof -
  let ?t = "link_moved (last0 0 B) (hd U) (last U) t"
  note pl = pass_links [OF ps]
  have cs: "cstate s L" and L: "L = B @ FR @ M @ U @ R" and ne: "FR \<noteq> []" "U \<noteq> []"
    using ps by (auto simp: pass_split_def)
  have rln: "last0 0 B = 0 \<longleftrightarrow> B = []" using pl(11) by (auto simp: last0_def)
  have eB: "B \<noteq> [] \<Longrightarrow> last0 0 B = last B" by (simp add: last0_def)
  have ph': "pass_headers s ?t B S M U R f (c - a) ext"
    using ph by (simp add: pass_headers_def is_free_def header_slot_def)
  have notB: "x \<noteq> last0 0 B \<or> last0 0 B = 0" if "x \<in> set U \<union> set S \<union> set M \<union> set R \<union> {f}" for x
  proof (cases "B = []")
    case False
    then have "last B \<in> set B" by simp
    then have "x \<noteq> last B" using that pl(6,7) S(1) f unfolding L by auto
    then show ?thesis using eB False by simp
  qed (simp add: rln)
  have sameN: "nxt ?t x = nxt t x" if "x \<in> set U \<union> set S \<union> set M \<union> set R \<union> {f}" for x
    using notB [OF that] by auto
  have ch: "chain (nxt ?t) (if B = [] then hd U else header_root s) (B @ U @ S @ M @ [f] @ R) 0"
  proof (rule chain_relink [OF _ ne _ _ S(2,3)])
    show "chain (nxt s) (header_root s) (B @ FR @ M @ U @ R) 0"
      using cstate_parts(3) [OF cs] unfolding L .
    show "f \<in> set FR" using pl(7) f by simp
    show "set S \<inter> set (B @ FR @ M @ U @ R) = {}" using S(1) unfolding L .
    show "nxt ?t x = nxt s x" if "x \<in> set B" "x \<noteq> last B" for x
      using that nB eB by (cases "B = []") auto
    show "nxt ?t (last B) = hd U" if "B \<noteq> []" using that eB rln by auto
    show "nxt ?t x = nxt s x" if "x \<in> set U" "x \<noteq> last U" for x
      using that nU(1) sameN [of x] by simp
    show "nxt ?t (last U) = head0 (S @ M @ [f])" using ne nU(2) sameN [of "last U"] by simp
    show "nxt ?t x = head0 (M @ [f])" if "x \<in> set S" for x using that nS sameN [of x] by simp
    show "nxt ?t x = nxt s x" if "x \<in> set M" "x \<noteq> last M" for x
      using that nM(1) sameN [of x] by simp
    show "nxt ?t (last M) = f" if "M \<noteq> []" using that nM(2) sameN [of "last M"] by simp
    show "nxt ?t f = head0 R" using nf sameN [of f] by simp
    show "nxt ?t x = nxt s x" if "x \<in> set R" for x using that nR sameN [of x] by simp
  qed
  have hb': "header_bottom ?t = header_bottom s
      \<or> header_bottom ?t = header_bottom s - sizeof_rm_header_t
        \<and> memory_top s < header_bottom s - 2 * sizeof_rm_header_t"
    using hb S(3) by (cases S) auto
  have ti': "tiled (a + sizes s U + ext) d (map (extent ?t) (S @ M @ [f]))" using ti by simp
  have root: "header_root ?t = (if B = [] then hd U else header_root s)" using rln fr(3) by simp
  have "cstate ?t (B @ U @ S @ M @ [f] @ R)"
    by (rule pass_cstate [OF ps pos ph' _ _ hb' _ ti'])
      (use fr ch root in \<open>simp_all only: link_moved_sel\<close>)
  moreover have "kept s ?t L (B @ U @ S @ M @ [f] @ R)"
    by (rule pass_kept [OF ps pos ph']) (simp add: fr)
  moreover have "\<forall>h\<in>set S \<union> {f}. is_free ?t h" using ph' unfolding pass_headers_def by blast
  moreover have "\<forall>h\<in>set M \<union> set R \<union> set U. h_type (hdr ?t h) = h_type (hdr s h)"
    using ph' unfolding pass_headers_def by blast
  ultimately show ?thesis using S(3) fr(1) hb(1) unfolding pass_done_def by simp
qed

section \<open>The three cases\<close>

lemma pass_slots:
  assumes "pass_split s L B FR M U R"
  shows "h \<in> set L \<Longrightarrow> header_bottom s \<le> h" and "h \<in> set L \<Longrightarrow> h \<le> header_top s"
    and "h \<in> set L \<Longrightarrow> sizeof_rm_header_t dvd header_top s - h"
proof -
  have "h \<in> set L \<Longrightarrow> header_slot s h" using assms cstate_parts(5) unfolding pass_split_def by blast
  then show "h \<in> set L \<Longrightarrow> header_bottom s \<le> h" "h \<in> set L \<Longrightarrow> h \<le> header_top s"
    "h \<in> set L \<Longrightarrow> sizeof_rm_header_t dvd header_top s - h" by (auto simp: header_slot_def)
qed

lemma compact_move_adjacent:
  assumes ps: "pass_split s L B FR [] U R"
  shows "\<exists>s'. compact_move (last0 0 B) (sizes s FR) (hd FR) (last FR) (hd U) (last U) bb s
      = Inr (Again (last U), s') \<and> pass_done s s' L B [] [] U (hd FR) R"
proof -
  define a b c d where pos: "a = h_memory (hdr s (hd FR))" "b = a + sizes s FR"
    "c = b + sizes s []" "d = c + sizes s U"
  let ?f = "hd FR" and ?u = "last U" and ?su = "sizes s U" and ?fs = "sizes s FR"
  define t where "t = shift_blocks (c - a) c d U s"
  note pp = pass_positions [OF ps pos] and pl = pass_links [OF ps]
  have cs: "cstate s L" and L: "L = B @ FR @ U @ R" and ne: "FR \<noteq> []" "U \<noteq> []"
    using ps by (auto simp: pass_split_def)
  have u: "?u \<in> set U" "?f \<in> set FR" using ne by auto
  have neq: "?f \<notin> set B \<union> set U \<union> set R" "?u \<notin> set B \<union> set R \<union> {?f}"
    using pl(6) u unfolding L by auto
  have small: "a + ?su < 2 ^ 64" using pp(8) pos cstate_parts(13) [OF cs] by simp
  define t3 where "t3 = t\<lparr>unused_header_root := 0,
      hdr := (hdr t)(?f := free_header (a + ?su) ?fs (head0 R), ?u := (hdr t ?u)\<lparr>h_next := ?f\<rparr>)\<rparr>"
  have "relink_adjacent a ?su ?fs ?u (head0 R) (header_set_unused ?f t) = Inr t3"
    unfolding t3_def using pl(9,10) neq small by (intro relink_adjacent_spec) auto
  then have run: "compact_move (last0 0 B) ?fs ?f (last FR) (hd U) ?u bb s
      = Inr (Again ?u, link_moved (last0 0 B) (hd U) ?u t3)"
    unfolding compact_move_start [OF ps pos] t_def [symmetric] by (simp add: link_moved_res)
  have hU: "hdr t h = (hdr s h)\<lparr>h_memory := h_memory (hdr s h) - (c - a)\<rparr>" if "h \<in> set U" for h
    using that by (simp add: t_def shift_blocks_hdr)
  have ho: "hdr t h = hdr s h" if "h \<in> set B \<union> set R \<union> {?f}" for h
    using that pl(6) neq unfolding L t_def by (intro shift_blocks_hdr(1)) auto
  have "pass_done s (link_moved (last0 0 B) (hd U) ?u t3) L B [] [] U ?f R"
  proof (rule pass_finish [OF ps pos refl])
    have "hdr t3 h = hdr s h" if "h \<in> set B \<union> set R" for h
      using that neq ho pl(6) unfolding L by (auto simp: t3_def)
    moreover have "h_memory (hdr t3 h) = h_memory (hdr s h) - (c - a)"
        "h_size (hdr t3 h) = h_size (hdr s h)" "h_type (hdr t3 h) = h_type (hdr s h)"
      if "h \<in> set U" for h using that neq hU by (auto simp: t3_def)
    moreover have "hdr t3 ?f = free_header (a + ?su) ?fs (head0 R)" using neq by (auto simp: t3_def)
    moreover have "header_slot t3 ?f"
      using cstate_parts(5) [OF cs, of ?f] u by (simp add: L header_slot_def t3_def t_def
          shift_blocks_def)
    ultimately show "pass_headers s t3 B [] [] U R ?f (c - a) 0"
      using pp(9) unfolding pass_headers_def by (auto simp: extent_def is_free_def)
    show "tiled (a + ?su + 0) d (map (extent t3) ([] @ [] @ [?f]))"
      using neq pos by (auto simp: t3_def extent_def)
    show "nxt t3 x = nxt s x" if "x \<in> set B" for x
      using that neq ho pl(6) unfolding L by (auto simp: t3_def)
    show "nxt t3 x = nxt s x" if "x \<in> set R" for x
      using that neq ho pl(6) unfolding L by (auto simp: t3_def)
    show "nxt t3 x = nxt s x" if "x \<in> set U" "x \<noteq> last U" for x
      using that neq hU by (auto simp: t3_def)
  qed (use neq in \<open>auto simp: t3_def t_def shift_blocks_def heap_frame_def\<close>)
  with run show ?thesis by blast
qed

lemma compact_move_extend:
  assumes ps: "pass_split s L B FR M U R" and M: "M \<noteq> []"
    and fs: "sizes s FR < sizes s U + sizeof_free_memory_block_t"
  shows "\<exists>s'. compact_move (last0 0 B) (sizes s FR) (hd FR) (last FR) (hd U) (last U) (last0 0 M) s
      = Inr (Again (last U), s') \<and> pass_done s s' L B [] M U (hd FR) R"
proof -
  define a b c d where pos: "a = h_memory (hdr s (hd FR))" "b = a + sizes s FR"
    "c = b + sizes s M" "d = c + sizes s U"
  let ?f = "hd FR" and ?u = "last U" and ?su = "sizes s U" and ?fs = "sizes s FR" and ?m = "last M"
  let ?y = "head0 (M @ U)"
  define t where "t = shift_blocks (c - a) c d U s"
  note pp = pass_positions [OF ps pos] and pl = pass_links [OF ps]
  have cs: "cstate s L" and L: "L = B @ FR @ M @ U @ R" and ne: "FR \<noteq> []" "U \<noteq> []"
    and le: "?su \<le> ?fs"
    using ps M by (auto simp: pass_split_def)
  have u: "?u \<in> set U" "?f \<in> set FR" "?m \<in> set M" using ne M by auto
  have neq: "?f \<notin> set B \<union> set U \<union> set R \<union> set M" "?u \<notin> set B \<union> set R \<union> set M \<union> {?f}"
      "?m \<notin> set B \<union> set U \<union> set R \<union> {?f}"
    using pl(6) u unfolding L by auto
  have hU: "hdr t h = (hdr s h)\<lparr>h_memory := h_memory (hdr s h) - (c - a)\<rparr>" if "h \<in> set U" for h
    using that by (simp add: t_def shift_blocks_hdr)
  have ho: "hdr t h = hdr s h" if "h \<in> set B \<union> set R \<union> set M \<union> {?f}" for h
    using that pl(6) neq unfolding L t_def by (intro shift_blocks_hdr(1)) auto
  have "memory_bottom t = memory_bottom s" by (simp add: t_def shift_blocks_def)
  then have mb: "memory_bottom t < c" using pp(7,9) pos by simp
  have zl: "sizes s L < 2 ^ 31" using cstate_sizes [OF cs] by blast
  have "h_size (hdr s ?u) \<le> sizes s U" using u(1) unfolding sizes_def
    by (intro member_le_sum_list) simp_all
  then have small: "?fs < 2 ^ 31" "h_size (hdr t ?u) < 2 ^ 31"
    using zl u(1) hU unfolding L by simp_all
  define t3 where "t3 = t\<lparr>unused_header_root := 0,
      hdr := (hdr t)(?f := free_header c ?su (head0 R), ?m := (hdr t ?m)\<lparr>h_next := ?f\<rparr>,
        ?u := (hdr t ?u)\<lparr>h_size := h_size (hdr t ?u) + (?fs - ?su), h_next := ?y\<rparr>)\<rparr>"
  have "relink_nonadjacent c ?su ?fs (hd U) ?u (head0 R) ?m ?y (header_set_unused ?f t) = Inr t3"
    unfolding t3_def using pl(9,10,12) M neq u mb le fs small
    by (intro relink_nonadjacent_extend) auto
  moreover have lm: "last0 0 M = ?m" using M by (simp add: last0_def)
  ultimately have run: "compact_move (last0 0 B) ?fs ?f (last FR) (hd U) ?u (last0 0 M) s
      = Inr (Again ?u, link_moved (last0 0 B) (hd U) ?u t3)"
    unfolding compact_move_start [OF ps pos] t_def [symmetric] lm using M
    by (simp add: link_moved_res)
  have "pass_done s (link_moved (last0 0 B) (hd U) ?u t3) L B [] M U ?f R"
  proof (rule pass_finish [OF ps pos refl])
    have bmr: "h_memory (hdr t3 h) = h_memory (hdr s h)" "h_size (hdr t3 h) = h_size (hdr s h)"
        "h_type (hdr t3 h) = h_type (hdr s h)" if "h \<in> set B \<union> set M \<union> set R" for h
      using that neq ho pl(6) unfolding L by (auto simp: t3_def)
    moreover have "h_memory (hdr t3 h) = h_memory (hdr s h) - (c - a)"
        "h_size (hdr t3 h) = h_size (hdr s h) + (if h = ?u then ?fs - ?su else 0)"
        "h_type (hdr t3 h) = h_type (hdr s h)"
      if "h \<in> set U" for h using that neq hU by (auto simp: t3_def)
    moreover have fh: "hdr t3 ?f = free_header c ?su (head0 R)" using neq u by (auto simp: t3_def)
    moreover have "header_slot t3 ?f"
      using cstate_parts(5) [OF cs, of ?f] u by (simp add: L header_slot_def t3_def t_def
          shift_blocks_def)
    ultimately show "pass_headers s t3 B [] M U R ?f (c - a) (?fs - ?su)"
      using pp(10) unfolding pass_headers_def by (auto simp: extent_def is_free_def)
    have "tiled b c (map (extent t3) M)"
      using pp(3) bmr by (subst tiled_cong [of M _ "extent s"]) (auto simp: extent_def)
    moreover have "tiled c d (map (extent t3) [?f])" using fh pos by (simp add: extent_def)
    moreover have "a + ?su + (?fs - ?su) = b" using le pos by simp
    ultimately show "tiled (a + ?su + (?fs - ?su)) d (map (extent t3) ([] @ M @ [?f]))"
      unfolding append_Nil tiled_segments by auto
    show "nxt t3 x = nxt s x" if "x \<in> set B" for x
      using that neq ho pl(6) unfolding L by (auto simp: t3_def)
    show "nxt t3 x = nxt s x" if "x \<in> set R" for x
      using that neq ho pl(6) unfolding L by (auto simp: t3_def)
    show "nxt t3 x = nxt s x" if "x \<in> set U" "x \<noteq> last U" for x
      using that neq hU by (auto simp: t3_def)
    show "nxt t3 x = nxt s x" if "x \<in> set M" "x \<noteq> last M" for x
      using that neq ho pl(6) unfolding L by (auto simp: t3_def)
  qed (use neq u M in \<open>auto simp: t3_def t_def shift_blocks_def heap_frame_def head0_def\<close>)
  with run show ?thesis by blast
qed

lemma compact_move_spare:
  assumes ps: "pass_split s L B FR M U R" and M: "M \<noteq> []"
    and fs: "sizes s U + sizeof_free_memory_block_t \<le> sizes s FR"
  defines "run \<equiv>
      compact_move (last0 0 B) (sizes s FR) (hd FR) (last FR) (hd U) (last U) (last0 0 M) s"
  shows "(\<not> memory_top s < header_bottom s - 2 * sizeof_rm_header_t \<longrightarrow> run = Inl Null_deref)
    \<and> (memory_top s < header_bottom s - 2 * sizeof_rm_header_t \<longrightarrow>
        (\<exists>s' r. run = Inr (Again (last U), s') \<and> pass_done s s' L B [r] M U (hd FR) R))"
proof -
  define a b c d where pos: "a = h_memory (hdr s (hd FR))" "b = a + sizes s FR"
    "c = b + sizes s M" "d = c + sizes s U"
  let ?f = "hd FR" and ?u = "last U" and ?su = "sizes s U" and ?fs = "sizes s FR" and ?m = "last M"
  let ?y = "head0 (M @ U)" and ?hb = "header_bottom s"
  define r where "r = ?hb - sizeof_rm_header_t"
  define t where "t = shift_blocks (c - a) c d U s"
  note pp = pass_positions [OF ps pos] and pl = pass_links [OF ps]
  have cs: "cstate s L" and L: "L = B @ FR @ M @ U @ R" and ne: "FR \<noteq> []" "U \<noteq> []"
    and le: "?su \<le> ?fs"
    using ps M by (auto simp: pass_split_def)
  have u: "?u \<in> set U" "?f \<in> set FR" "?m \<in> set M" "hd U \<in> set U" using ne M by auto
  have neq: "?f \<notin> set B \<union> set U \<union> set R \<union> set M" "?u \<notin> set B \<union> set R \<union> set M \<union> {?f}"
      "?m \<notin> set B \<union> set U \<union> set R \<union> {?f}"
    using pl(6) u unfolding L by auto
  have rL: "r \<notin> set L"
    using pass_slots(1) [OF ps] cstate_parts(1) [OF cs] by (fastforce simp: r_def geometry_def)
  then have rn: "r \<noteq> ?f" "r \<noteq> ?u" "r \<noteq> ?m" "r \<noteq> hd U" "r \<notin> set B \<union> set M \<union> set U \<union> set R"
    using u unfolding L by auto
  have hU: "hdr t h = (hdr s h)\<lparr>h_memory := h_memory (hdr s h) - (c - a)\<rparr>" if "h \<in> set U" for h
    using that by (simp add: t_def shift_blocks_hdr)
  have ho: "hdr t h = hdr s h" if "h \<in> set B \<union> set R \<union> set M \<union> {?f}" for h
    using that pl(6) neq unfolding L t_def by (intro shift_blocks_hdr(1)) auto
  have ft: "memory_bottom t = memory_bottom s" "memory_top t = memory_top s" "header_bottom t = ?hb"
    by (simp_all add: t_def shift_blocks_def)
  then have mb: "memory_bottom t < c" "memory_bottom t < a + ?su" using pp(7,9,10) pos by simp_all
  have small: "?fs < 2 ^ 31" "a + ?su < 2 ^ 64"
    using cstate_sizes(1) [OF cs] pp(8) pos cstate_parts(13) [OF cs] unfolding L by simp_all
  have hu: "h_memory (hdr t (hd U)) = a" using hU [OF u(4)] pp(6) pos by simp
  define t3 where "t3 = t\<lparr>unused_header_root := 0, header_bottom := r,
      hdr := (hdr t)(?f := free_header c ?su (head0 R), ?m := (hdr t ?m)\<lparr>h_next := ?f\<rparr>,
        r := free_header (a + ?su) (?fs - ?su) ?y, ?u := (hdr t ?u)\<lparr>h_next := r\<rparr>)\<rparr>"
  have "relink_nonadjacent c ?su ?fs (hd U) ?u (head0 R) ?m ?y (header_set_unused ?f t)
      = (if memory_top t < header_bottom t - 2 * sizeof_rm_header_t then Inr t3 else Inl Null_deref)"
    unfolding t3_def using pl(9,10,12) M neq u mb fs small hu rn
    by (intro relink_nonadjacent_spare) (auto simp: r_def ft)
  moreover have lm: "last0 0 M = ?m" using M by (simp add: last0_def)
  ultimately have run: "run = (if memory_top s < ?hb - 2 * sizeof_rm_header_t
      then Inr (Again ?u, link_moved (last0 0 B) (hd U) ?u t3) else Inl Null_deref)"
    unfolding run_def compact_move_start [OF ps pos] t_def [symmetric] lm using M
    by (simp add: link_moved_res ft)
  have "pass_done s (link_moved (last0 0 B) (hd U) ?u t3) L B [r] M U ?f R"
    if room: "memory_top s < ?hb - 2 * sizeof_rm_header_t"
  proof (rule pass_finish [OF ps pos refl])
    have bmr: "h_memory (hdr t3 h) = h_memory (hdr s h)" "h_size (hdr t3 h) = h_size (hdr s h)"
        "h_type (hdr t3 h) = h_type (hdr s h)" if "h \<in> set B \<union> set M \<union> set R" for h
      using that neq ho pl(6) rn unfolding L by (auto simp: t3_def)
    moreover have "h_memory (hdr t3 h) = h_memory (hdr s h) - (c - a)"
        "h_size (hdr t3 h) = h_size (hdr s h)" "h_type (hdr t3 h) = h_type (hdr s h)"
      if "h \<in> set U" for h using that neq hU rn by (auto simp: t3_def)
    moreover have fh: "hdr t3 ?f = free_header c ?su (head0 R)" using neq u rn by (auto simp: t3_def)
    moreover have rh: "hdr t3 r = free_header (a + ?su) (?fs - ?su) ?y" using rn by (simp add: t3_def)
    moreover have "header_slot t3 ?f"
      using cstate_parts(5) [OF cs, of ?f] u le_trans [OF diff_le_self [of ?hb 29], of ?f]
      by (simp add: L header_slot_def t3_def t_def r_def shift_blocks_def)
    moreover have "header_slot t3 r"
    proof -
      have "?hb \<le> header_top s" "sizeof_rm_header_t dvd header_top s - ?hb"
        using cstate_parts(1) [OF cs] by (simp_all add: geometry_def)
      moreover have "header_top s - r = (header_top s - ?hb) + sizeof_rm_header_t"
        using room calculation(1) by (simp add: r_def)
      ultimately have "sizeof_rm_header_t dvd header_top s - r"
        by (simp only: dvd_add_triv_right_iff)
      moreover have "r \<le> header_top s" using \<open>?hb \<le> header_top s\<close> by (simp add: r_def)
      ultimately show ?thesis by (simp add: header_slot_def t3_def t_def shift_blocks_def)
    qed
    ultimately show "pass_headers s t3 B [r] M U R ?f (c - a) 0"
      using pp(10) fs unfolding pass_headers_def by (auto simp: extent_def is_free_def)
    have "tiled b c (map (extent t3) M)"
      using pp(3) bmr by (subst tiled_cong [of M _ "extent s"]) (auto simp: extent_def)
    moreover have "tiled c d (map (extent t3) [?f])" using fh pos by (simp add: extent_def)
    moreover have "tiled (a + ?su + 0) b (map (extent t3) [r])"
      using rh le pos by (simp add: extent_def)
    ultimately show "tiled (a + ?su + 0) d (map (extent t3) ([r] @ M @ [?f]))"
      unfolding tiled_segments by blast
    show "nxt t3 x = nxt s x" if "x \<in> set B" for x
      using that neq ho pl(6) rn unfolding L by (auto simp: t3_def)
    show "nxt t3 x = nxt s x" if "x \<in> set R" for x
      using that neq ho pl(6) rn unfolding L by (auto simp: t3_def)
    show "nxt t3 x = nxt s x" if "x \<in> set U" "x \<noteq> last U" for x
      using that neq hU rn by (auto simp: t3_def)
    show "nxt t3 x = nxt s x" if "x \<in> set M" "x \<noteq> last M" for x
      using that neq ho pl(6) rn unfolding L by (auto simp: t3_def)
    show "set [r] \<inter> set L = {}" using rL by simp
    show "0 \<notin> set [r]" using room by (auto simp: r_def)
    show "header_bottom t3 + sizeof_rm_header_t * length [r] = ?hb"
      using room by (simp add: t3_def r_def)
  qed (use neq u M rn room in \<open>auto simp: t3_def t_def shift_blocks_def heap_frame_def head0_def\<close>)
  with run show ?thesis by auto
qed

text \<open>A pass over a split list: done, or no header was left for the rest of the gap.\<close>

lemma compact_move_spec:
  assumes ps: "pass_split s L B FR M U R"
  obtains (done_pass) s' S where
      "compact_move (last0 0 B) (sizes s FR) (hd FR) (last FR) (hd U) (last U) (last0 0 M) s
        = Inr (Again (last U), s')" "pass_done s s' L B S M U (hd FR) R"
  | (no_header) "compact_move (last0 0 B) (sizes s FR) (hd FR) (last FR) (hd U) (last U)
        (last0 0 M) s = Inl Null_deref"
      "header_bottom s \<le> memory_top s + 2 * sizeof_rm_header_t"
proof -
  consider "M = []" | "M \<noteq> []" "sizes s FR < sizes s U + sizeof_free_memory_block_t"
    | "M \<noteq> []" "sizes s U + sizeof_free_memory_block_t \<le> sizes s FR" by linarith
  then show thesis
  proof cases
    case 1
    with compact_move_adjacent [OF ps [unfolded 1], of "last0 0 M"] done_pass show thesis by blast
  next
    case 2
    with compact_move_extend [OF ps 2] done_pass show thesis by blast
  next
    case 3
    show thesis
    proof (cases "memory_top s < header_bottom s - 2 * sizeof_rm_header_t")
      case True
      with compact_move_spare [OF ps 3] done_pass show thesis by blast
    next
      case False
      with compact_move_spare [OF ps 3] no_header show thesis by auto
    qed
  qed
qed

end
