(* ===== verification/Rm_Loop.thy ===== *)
theory Rm_Loop
  imports Rm_Relink
begin

text \<open>
  The compaction loop: it ends within the fuel, whatever the clock says, and keeps the invariant
  and the blocks in use. A pass either moves the root past a range of free blocks or takes at
  least one unlocked block from behind the first free block to the front of it.
\<close>

section \<open>The measure of the loop\<close>

definition pending :: "rm_state \<Rightarrow> nat list \<Rightarrow> nat" where
  "pending s xs = length (filter (is_unlocked s) (dropWhile (in_use s) xs))"

lemma pending_le: "pending s xs \<le> length (filter (is_unlocked s) xs)"
  by (induction xs) (auto simp: pending_def)

lemma pending_split:
  assumes "\<forall>h\<in>set A. in_use s h" and "\<forall>h\<in>set FR. is_free s h" and "FR \<noteq> []"
  shows "pending s (A @ FR @ T) = length (filter (is_unlocked s) T)"
proof -
  have "dropWhile (in_use s) (A @ FR @ T) = FR @ T"
    using assms by (cases FR) (auto simp: in_use_is_free)
  moreover have "filter (is_unlocked s) FR = []"
    using assms(2) by (auto simp: filter_empty_conv is_free_def is_unlocked_def)
  ultimately show ?thesis by (simp add: pending_def)
qed

lemma filter_unlocked_cong:
  assumes "\<forall>h\<in>set xs. h_type (hdr s' h) = h_type (hdr s h)"
  shows "filter (is_unlocked s') xs = filter (is_unlocked s) xs"
  using assms by (intro filter_cong) (auto simp: is_unlocked_def)

lemma pending_moved:
  assumes "pass_done s s' L B S M U f R" and "U \<noteq> []" and "\<forall>h\<in>set U. is_unlocked s h"
  shows "pending s' (last U # S @ M @ [f] @ R) + 1 \<le> length (filter (is_unlocked s) (M @ U @ R))"
proof -
  have t: "\<forall>h\<in>set M \<union> set R \<union> set U. h_type (hdr s' h) = h_type (hdr s h)"
    and free: "\<forall>h\<in>set S \<union> {f}. is_free s' h"
    using assms(1) unfolding pass_done_def by blast+
  have "in_use s' (last U)" using t assms(2,3) by (auto simp: in_use_def is_unlocked_def)
  then have "pending s' (last U # S @ M @ [f] @ R) = pending s' (S @ M @ [f] @ R)"
    by (simp add: pending_def)
  also have "\<dots> \<le> length (filter (is_unlocked s') (S @ M @ [f] @ R))" by (rule pending_le)
  also have "filter (is_unlocked s') (S @ M @ [f] @ R)
      = filter (is_unlocked s) M @ filter (is_unlocked s) R"
  proof -
    have "filter (is_unlocked s') S = []" "\<not> is_unlocked s' f"
      using free by (auto simp: filter_empty_conv is_free_def is_unlocked_def)
    moreover have "filter (is_unlocked s') M = filter (is_unlocked s) M"
        "filter (is_unlocked s') R = filter (is_unlocked s) R"
      using t by (intro filter_unlocked_cong; simp)+
    ultimately show ?thesis by simp
  qed
  finally have "pending s' (last U # S @ M @ [f] @ R)
      \<le> length (filter (is_unlocked s) M) + length (filter (is_unlocked s) R)" by simp
  moreover have "filter (is_unlocked s) U = U" using assms(3) by (simp add: filter_id_conv)
  moreover have "1 \<le> length U" using assms(2) by (cases U) auto
  ultimately show ?thesis by simp
qed

section \<open>The loop\<close>

text \<open>
  There is room for the headers of the space that is left over: at most one for each unlocked
  block that can still move.
\<close>

definition header_room :: "rm_state \<Rightarrow> nat \<Rightarrow> bool" where
  "header_room s n \<longleftrightarrow>
     memory_top s + sizeof_rm_header_t * n + 2 * sizeof_rm_header_t < header_bottom s"

lemma compact_loop_step:
  assumes "\<not> (mt > 0 \<and> u64 (uptime_nanoseconds (clk i) + 2 ^ 64 - st) \<ge> mt)"
  shows "compact_loop (Suc fuel) clk i st mt root s =
    bind_res (compact_pass root s) (\<lambda>(r, s').
      case r of Finished \<Rightarrow> Inr s' | Again root' \<Rightarrow> compact_loop fuel clk (i + 1) st mt root' s')"
  using assms by (subst compact_loop.simps) (simp only: Let_def if_False nat.simps diff_Suc_1)

lemma compact_loop_spec:
  assumes "cstate s L" and "L = Pre @ xs" and "xs \<noteq> []" and "root = hd xs"
    and "Pre = [] \<or> in_use s (hd xs)" and "pending s xs * 2 ^ 31 + length xs \<le> fuel"
  shows "(compact_loop fuel clk i st mt root s = Inl Null_deref \<and> \<not> header_room s (pending s xs))
    \<or> (\<exists>s' L'. compact_loop fuel clk i st mt root s = Inr s' \<and> cstate s' L' \<and> kept s s' L L'
        \<and> heap_frame s s')"
  using assms
proof (induction fuel arbitrary: s L Pre xs root i)
  case 0
  then show ?case by (cases xs) auto
next
  case (Suc fuel)
  note cp = cstate_parts [OF Suc.prems(1)] and cz = cstate_sizes [OF Suc.prems(1)]
  have stop: ?case if "compact_loop (Suc fuel) clk i st mt root s = Inr s"
    using that Suc.prems(1) kept_refl [of s L] unfolding heap_frame_def by blast
  show ?case
  proof (cases "mt > 0 \<and> u64 (uptime_nanoseconds (clk i) + 2 ^ 64 - st) \<ge> mt")
    case True
    then show ?thesis by (intro stop) (subst compact_loop.simps, simp add: Let_def)
  next
    case False
    note step = compact_loop_step [of mt clk i st fuel root s, OF this]
    have "chain (nxt s) (head0 xs) xs 0"
      using cp(3) unfolding Suc.prems(2) by (auto simp: chain_append chain_head0)
    then have c: "chain (nxt s) root xs 0" using Suc.prems(3,4) by (simp add: head0_def)
    have l: "length xs \<le> list_fuel" "sizes s xs < 2 ^ 32"
      using cz unfolding Suc.prems(2) by (auto simp: list_fuel_def)
    have pos: "\<forall>h\<in>set xs. 0 < h_size (hdr s h)"
      using cp(9) unfolding Suc.prems(2) by fastforce
    show ?thesis
    proof (cases rule: compact_pass_spec [OF c l pos])
      case (1 A FR T)
      then show ?thesis by (intro stop) (simp add: step)
    next
      case (2 A FR T)
      have p: "pending s T \<le> pending s xs"
        unfolding 2(1) pending_split [OF 2(2-4)] by (rule pending_le)
      have len: "length T < length xs" using 2(1,4) by (cases FR) auto
      have "pending s T * 2 ^ 31 \<le> pending s xs * 2 ^ 31" using p by simp
      then have fuel: "pending s T * 2 ^ 31 + length T \<le> fuel" using Suc.prems(6) len by linarith
      have L: "L = (Pre @ A @ FR) @ T" using Suc.prems(2) 2(1) by simp
      have "header_room s (pending s xs) \<Longrightarrow> header_room s (pending s T)"
        using p by (simp add: header_room_def)
      with Suc.IH [OF Suc.prems(1) L 2(5) refl _ fuel, of "i + 1"] 2(6,7)
      show ?thesis unfolding step by auto
    next
      case (3 A FR M U R)
      have ps: "pass_split s L (Pre @ A) FR M U R"
        using Suc.prems(1,2) 3(1,3-7) by (simp add: pass_split_def)
      have "A \<noteq> [] \<or> Pre = []"
      proof (rule ccontr)
        assume "\<not> (A \<noteq> [] \<or> Pre = [])"
        with Suc.prems(5) 3(1,4) have "in_use s (hd FR)" by simp
        with 3(3,4) show False by (simp add: in_use_is_free)
      qed
      then have rln: "last0 0 (Pre @ A) = last0 0 A" by (auto simp: last0_def)
      show ?thesis
      proof (cases rule: compact_move_spec [OF ps])
        case (1 s' S)
        let ?xs = "last U # S @ M @ [hd FR] @ R"
        let ?L = "(Pre @ A) @ U @ S @ M @ [hd FR] @ R"
        have cs: "cstate s' ?L" and k: "kept s s' L ?L" and fr: "heap_frame s s'"
          and hb: "header_bottom s' + sizeof_rm_header_t * length S = header_bottom s"
          and S1: "length S \<le> 1"
          and ty: "\<forall>h\<in>set M \<union> set R \<union> set U. h_type (hdr s' h) = h_type (hdr s h)"
          using 1(2) unfolding pass_done_def by blast+
        have p: "pending s' ?xs + 1 \<le> pending s xs"
          using pending_moved [OF 1(2) 3(5,6)] pending_split [OF 3(2,3,4)] 3(1) by simp
        have LL: "?L = (Pre @ A @ butlast U) @ ?xs" using 3(5) by simp
        have "length ?xs < 2 ^ 31" using cstate_sizes(3) [OF cs] unfolding LL by simp
        moreover have "(pending s' ?xs + 1) * 2 ^ 31 \<le> pending s xs * 2 ^ 31"
          using p by (intro mult_right_mono) simp_all
        ultimately have fuel: "pending s' ?xs * 2 ^ 31 + length ?xs \<le> fuel"
          using Suc.prems(6) unfolding distrib_right by linarith
        have use: "in_use s' (hd ?xs)"
          using ty 3(5,6) by (auto simp: in_use_def is_unlocked_def)
        have room: "header_room s (pending s xs) \<Longrightarrow> header_room s' (pending s' ?xs)"
          using p hb S1 fr unfolding header_room_def heap_frame_def by linarith
        have run: "compact_loop (Suc fuel) clk i st mt root s
            = compact_loop fuel clk (i + 1) st mt (hd ?xs) s'"
          using 3(8) 1(1) rln unfolding step by simp
        from Suc.IH [OF cs LL list.distinct(2) refl disjI2 [OF use] fuel, of "i + 1"] show ?thesis
        proof (elim disjE conjE exE)
          assume "compact_loop fuel clk (i + 1) st mt (hd ?xs) s' = Inl Null_deref"
            "\<not> header_room s' (pending s' ?xs)"
          with run room show ?thesis by auto
        next
          fix s'' L'' assume r: "compact_loop fuel clk (i + 1) st mt (hd ?xs) s' = Inr s''"
            "cstate s'' L''" "kept s' s'' ?L L''" "heap_frame s' s''"
          have "kept s s'' L L''" using k r(3) by (rule kept_trans)
          moreover have "heap_frame s s''" using fr r(4) by (simp add: heap_frame_def)
          ultimately show ?thesis using run r by auto
        qed
      next
        case 2
        have "compact_loop (Suc fuel) clk i st mt root s = Inl Null_deref"
          using 3(8) 2(1) rln unfolding step by simp
        moreover have "\<not> header_room s (pending s xs)" using 2(2) by (simp add: header_room_def)
        ultimately show ?thesis by blast
      qed
    qed
  qed
qed

text \<open>
  Without locked blocks and without a time limit, the loop goes on until all blocks in use lie in
  front of all free ones; it needs no new header for that.
\<close>

lemma compact_loop_packs:
  assumes "cstate s L" and "L = Pre @ xs" and "xs \<noteq> []" and "root = hd xs"
    and "\<forall>h\<in>set Pre. in_use s h" and "\<forall>h\<in>set L. in_use s h \<longrightarrow> is_unlocked s h"
    and "Pre = [] \<or> in_use s (hd xs)" and "pending s xs * 2 ^ 31 + length xs \<le> fuel"
  shows "\<exists>s' A E. compact_loop fuel clk i st 0 root s = Inr s' \<and> cstate s' (A @ E)
    \<and> kept s s' L (A @ E) \<and> heap_frame s s'
    \<and> (\<forall>h\<in>set A. in_use s' h) \<and> (\<forall>h\<in>set E. is_free s' h)"
  using assms
proof (induction fuel arbitrary: s L Pre xs root i)
  case 0
  then show ?case by (cases xs) auto
next
  case (Suc fuel)
  note cp = cstate_parts [OF Suc.prems(1)] and cz = cstate_sizes [OF Suc.prems(1)]
  have "\<not> ((0::nat) > 0 \<and> u64 (uptime_nanoseconds (clk i) + 2 ^ 64 - st) \<ge> 0)" by simp
  note step = compact_loop_step [of 0 clk i st fuel root s, OF this]
  have "chain (nxt s) (head0 xs) xs 0"
    using cp(3) unfolding Suc.prems(2) by (auto simp: chain_append chain_head0)
  then have c: "chain (nxt s) root xs 0" using Suc.prems(3,4) by (simp add: head0_def)
  have l: "length xs \<le> list_fuel" "sizes s xs < 2 ^ 32"
    using cz unfolding Suc.prems(2) by (auto simp: list_fuel_def)
  have pos: "\<forall>h\<in>set xs. 0 < h_size (hdr s h)"
    using cp(9) unfolding Suc.prems(2) by fastforce
  show ?case
  proof (cases rule: compact_pass_spec [OF c l pos])
    case (1 A FR T)
    have "T = []"
    proof (rule ccontr)
      assume "T \<noteq> []"
      with 1(6) have "in_use s (hd T)" "\<not> is_unlocked s (hd T)" "hd T \<in> set L"
        using Suc.prems(2) 1(2) by auto
      with Suc.prems(6) show False by blast
    qed
    with 1(2) Suc.prems(2) have L: "L = (Pre @ A) @ FR" by simp
    have "compact_loop (Suc fuel) clk i st 0 root s = Inr s" using 1(1) step by simp
    with Suc.prems(1,5) 1(3,4) show ?thesis unfolding L
      by (intro exI [of _ s] exI [of _ "Pre @ A"] exI [of _ FR])
        (auto simp: kept_refl heap_frame_def)
  next
    case (2 A FR T)
    then have "hd T \<in> set L" using Suc.prems(2) by auto
    with 2(6,8) Suc.prems(6) show ?thesis by blast
  next
    case (3 A FR M U R)
    have "hd (M @ U) \<in> set L" using Suc.prems(2) 3(1,5) by (cases M) auto
    with 3(9,10) Suc.prems(6) have M: "M = []" by blast
    have ps: "pass_split s L (Pre @ A) FR [] U R"
      using Suc.prems(1,2) 3 M by (simp add: pass_split_def)
    have "A \<noteq> [] \<or> Pre = []"
    proof (rule ccontr)
      assume "\<not> (A \<noteq> [] \<or> Pre = [])"
      with Suc.prems(7) 3(1,4) have "in_use s (hd FR)" by simp
      with 3(3,4) show False by (simp add: in_use_is_free)
    qed
    then have rln: "last0 0 (Pre @ A) = last0 0 A" by (auto simp: last0_def)
    from compact_move_adjacent [OF ps, of "last0 0 M"] obtain s' where
      1: "compact_move (last0 0 (Pre @ A)) (sizes s FR) (hd FR) (last FR) (hd U) (last U)
            (last0 0 M) s = Inr (Again (last U), s')"
        "pass_done s s' L (Pre @ A) [] [] U (hd FR) R" by blast
    let ?xs = "last U # [] @ [] @ [hd FR] @ R"
    let ?L = "(Pre @ A) @ U @ [] @ [] @ [hd FR] @ R"
    have cs: "cstate s' ?L" and k: "kept s s' L ?L" and fr: "heap_frame s s'"
      and ty: "\<forall>h\<in>set [] \<union> set R \<union> set U. h_type (hdr s' h) = h_type (hdr s h)"
      using 1(2) unfolding pass_done_def by blast+
    have p: "pending s' ?xs + 1 \<le> pending s xs"
      using pending_moved [OF 1(2) 3(5,6)] pending_split [OF 3(2,3,4)] 3(1) M by simp
    have LL: "?L = (Pre @ A @ butlast U) @ ?xs" using 3(5) by simp
    have "length ?xs < 2 ^ 31" using cstate_sizes(3) [OF cs] unfolding LL by simp
    moreover have "(pending s' ?xs + 1) * 2 ^ 31 \<le> pending s xs * 2 ^ 31"
      using p by (intro mult_right_mono) simp_all
    ultimately have fuel: "pending s' ?xs * 2 ^ 31 + length ?xs \<le> fuel"
      using Suc.prems(8) unfolding distrib_right by linarith
    have moved: "in_use s' g \<and> is_unlocked s' g" if "g \<in> set L" "in_use s g" for g
    proof -
      have "h_type (hdr s' g) = h_type (hdr s g)"
        using k that unfolding kept_def moved_down_def by blast
      with that Suc.prems(6) show ?thesis by (simp add: in_use_def is_unlocked_def)
    qed
    have use: "\<forall>h\<in>set (Pre @ A @ butlast U). in_use s' h"
    proof
      fix h assume h: "h \<in> set (Pre @ A @ butlast U)"
      then have "h \<in> set L" using Suc.prems(2) 3(1) by (auto dest: in_set_butlastD)
      moreover have "in_use s h"
        using h Suc.prems(5) 3(2,6) by (auto dest: in_set_butlastD intro: unlocked_in_use)
      ultimately show "in_use s' h" using moved by blast
    qed
    have un: "\<forall>h\<in>set ?L. in_use s' h \<longrightarrow> is_unlocked s' h"
      using k moved unfolding kept_def by blast
    have "last U \<in> set L" "in_use s (last U)"
      using Suc.prems(2) 3(1,5,6) by (auto intro: unlocked_in_use)
    then have "in_use s' (hd ?xs)" using moved by simp
    note IH = Suc.IH [OF cs LL list.distinct(2) refl use un disjI2 [OF this] fuel, of "i + 1"]
    have run: "compact_loop (Suc fuel) clk i st 0 root s
        = compact_loop fuel clk (i + 1) st 0 (hd ?xs) s'"
      using 3(8) 1(1) rln unfolding step by simp
    from IH obtain s'' A' E where
      r: "compact_loop fuel clk (i + 1) st 0 (hd ?xs) s' = Inr s''" "cstate s'' (A' @ E)"
        "kept s' s'' ?L (A' @ E)" "heap_frame s' s''"
        "\<forall>h\<in>set A'. in_use s'' h" "\<forall>h\<in>set E. is_free s'' h" by blast
    have "kept s s'' L (A' @ E)" using k r(3) by (rule kept_trans)
    moreover have "heap_frame s s''" using fr r(4) by (simp add: heap_frame_def)
    ultimately show ?thesis using run r by auto
  qed
qed

end
