(* ===== verification/Rm_Finish.thy ===== *)
theory Rm_Finish
  imports Rm_Loop
begin

text \<open>
  The part of \<open>rm_compact\<close> after the loop: the free blocks above the last used one are dropped, the
  header array shrinks, and the free lists are built anew.
\<close>

section \<open>The highest used address\<close>

lemma highest_used_free:
  "chain (nxt s) h xs 0 \<Longrightarrow> length xs \<le> fuel \<Longrightarrow> \<forall>x\<in>set xs. is_free s x \<Longrightarrow>
   highest_used fuel a l h s = Inr (a, l)"
proof (induction xs arbitrary: h fuel)
  case Nil
  then show ?case by (simp add: highest_used.simps)
next
  case (Cons x xs)
  then obtain f where "fuel = Suc f" by (cases fuel) auto
  with Cons show ?case by (subst highest_used.simps) (simp add: is_free_def Let_def)
qed

lemma highest_used_spec:
  "chain (nxt s) h (D @ u # E) 0 \<Longrightarrow> length (D @ u # E) \<le> fuel \<Longrightarrow>
   tiled p q (map (extent s) (D @ u # E)) \<Longrightarrow> a \<le> p \<Longrightarrow> 0 < p \<Longrightarrow> q < 2 ^ 64 \<Longrightarrow>
   \<forall>x\<in>set (D @ u # E). 0 < h_size (hdr s x) \<Longrightarrow> in_use s u \<Longrightarrow> \<forall>x\<in>set E. is_free s x \<Longrightarrow>
   highest_used fuel a l h s = Inr (h_memory (hdr s u) + h_size (hdr s u), u)"
proof (induction D arbitrary: h fuel a l p)
  case Nil
  then obtain f where f: "fuel = Suc f" by (cases fuel) auto
  have u: "h = u" "h_memory (hdr s u) = p" "0 < h_size (hdr s u)" "u \<noteq> 0" using Nil by auto
  have "p + h_size (hdr s u) \<le> q" using Nil.prems(3) by (auto dest: tiled_le)
  then have "u64 (p + h_size (hdr s u)) = p + h_size (hdr s u)"
    using Nil.prems(6) by (intro u64_small) simp
  moreover have "highest_used f (p + h_size (hdr s u)) u (nxt s u) s = Inr (p + h_size (hdr s u), u)"
    using Nil.prems f by (intro highest_used_free [of s _ E]) auto
  ultimately show ?case
    using Nil.prems(4,5,8) f u
    by (subst highest_used.simps) (simp add: rm_header_is_unused_def in_use_def Let_def)
next
  case (Cons x D)
  then obtain f where f: "fuel = Suc f" by (cases fuel) auto
  have x: "h = x" "h_memory (hdr s x) = p" "0 < h_size (hdr s x)" "x \<noteq> 0" using Cons.prems by auto
  let ?p = "p + h_size (hdr s x)"
  have t: "tiled ?p q (map (extent s) (D @ u # E))" using Cons.prems(3) by simp
  then have "?p \<le> q" by (rule tiled_le)
  then have "u64 ?p = ?p" using Cons.prems(6) by (intro u64_small) simp
  moreover have "highest_used f a' l' (nxt s x) s = Inr (h_memory (hdr s u) + h_size (hdr s u), u)"
    if "a' \<le> ?p" for a' l'
    using Cons.prems f t x that by (intro Cons.IH [of _ _ ?p]) auto
  ultimately show ?case
    using Cons.prems(4) f x by (subst highest_used.simps) (simp add: Let_def)
qed

section \<open>Pruning\<close>

text \<open>
  Only the first free block above the last used one gives its header back: clearing the header
  clears the link the loop goes on with.
\<close>

definition prune_state :: "nat list \<Rightarrow> rm_state \<Rightarrow> rm_state" where
  "prune_state E s = (if E = [] then s else header_set_unused (hd E) s)"

lemma upd_next_same:
  assumes "h_next (hdr t e) = n"
  shows "upd_hdr e (\<lambda>x. x\<lparr>h_next := n\<rparr>) t = t"
proof -
  have "(hdr t e)\<lparr>h_next := n\<rparr> = hdr t e" using assms by (cases "hdr t e") simp
  then show ?thesis by (simp add: upd_hdr_def)
qed

lemma prune_free_blocks_spec:
  "chain (nxt s) h (D @ E) 0 \<Longrightarrow> length (D @ E) < fuel \<Longrightarrow>
   \<forall>x\<in>set D. in_use s x \<or> h_memory (hdr s x) < a \<Longrightarrow>
   \<forall>x\<in>set E. is_free s x \<and> a \<le> h_memory (hdr s x) \<and> h_memory (hdr s x) \<noteq> 0 \<Longrightarrow>
   prune_free_blocks fuel a h s = Inr (prune_state E s)"
proof (induction D arbitrary: h fuel)
  case Nil
  then obtain f where f: "fuel = Suc f" by (cases fuel) auto
  show ?case
  proof (cases E)
    case Nil
    with Nil.prems show ?thesis by (simp add: prune_free_blocks.simps prune_state_def)
  next
    case (Cons e es)
    then have e: "h = e" "e \<noteq> 0" using Nil.prems by auto
    let ?s = "header_set_unused e s"
    have n: "nxt ?s e = 0" using e by simp
    have z: "upd_hdr e (\<lambda>x. x\<lparr>h_next := 0\<rparr>) ?s = ?s"
      using n by (rule upd_next_same)
    have kill: "\<not> rm_header_is_unused s e \<and> h_type (hdr s e) = BLOCK_TYPE_FREE
        \<and> a \<le> h_memory (hdr s e)"
      using Nil.prems(4) Cons by (simp add: rm_header_is_unused_def is_free_def)
    have "prune_free_blocks fuel a h s
        = prune_free_blocks f a (nxt ?s e) (upd_hdr e (\<lambda>x. x\<lparr>h_next := 0\<rparr>) ?s)"
      unfolding e(1) f using e(2) kill by (subst prune_free_blocks.simps) (simp only: Let_def, simp)
    also have "\<dots> = prune_free_blocks f a 0 ?s" unfolding n z ..
    also have "\<dots> = Inr ?s" by (simp add: prune_free_blocks.simps)
    finally show ?thesis using Cons by (simp add: prune_state_def)
  qed
next
  case (Cons x D)
  then obtain f where f: "fuel = Suc f" by (cases fuel) auto
  have "prune_free_blocks fuel a h s = prune_free_blocks f a (nxt s x) s"
    using Cons.prems f by (subst prune_free_blocks.simps) (auto simp: in_use_def)
  also have "\<dots> = Inr (prune_state E s)" using Cons.prems f by (intro Cons.IH) auto
  finally show ?case .
qed

section \<open>Shrinking the header array\<close>

lemma raise_header_bottom_spec:
  assumes "header_slot s h" and "h_memory (hdr s h) \<noteq> 0" and "0 < header_bottom s"
    and "sizeof_rm_header_t dvd header_top s - header_bottom s"
  shows "\<exists>n. raise_header_bottom s = Inr (s\<lparr>header_bottom := n\<rparr>) \<and> header_bottom s \<le> n
    \<and> n \<le> header_top s \<and> sizeof_rm_header_t dvd header_top s - n \<and> \<not> rm_header_is_unused s n
    \<and> (\<forall>g. header_slot s g \<and> h_memory (hdr s g) \<noteq> 0 \<longrightarrow> n \<le> g)"
  using assms
proof (induction s rule: raise_header_bottom.induct)
  case (1 s)
  let ?hb = "header_bottom s"
  let ?s = "s\<lparr>header_bottom := ?hb + sizeof_rm_header_t\<rparr>"
  have le: "\<not> header_top s < ?hb" using "1.prems"(1) by (auto simp: header_slot_def)
  show ?case
  proof (cases "rm_header_is_unused s ?hb")
    case False
    then have "raise_header_bottom s = Inr (s\<lparr>header_bottom := ?hb\<rparr>)"
      using le by (subst raise_header_bottom.simps) simp
    then show ?thesis using "1.prems" le False by (intro exI [of _ ?hb]) (auto simp: header_slot_def)
  next
    case True
    have base: "header_slot s ?hb" using "1.prems"(4) le by (simp add: header_slot_def)
    have up: "header_slot ?s g" if g: "header_slot s g" "h_memory (hdr s g) \<noteq> 0" for g
    proof -
      have "g \<noteq> ?hb" using True g(2) by (auto simp: rm_header_is_unused_def)
      then have "?hb < g" using g(1) by (auto simp: header_slot_def)
      from header_slots_apart [OF base g(1) this] g(1) show ?thesis by (simp add: header_slot_def)
    qed
    have h: "header_slot ?s h" using "1.prems"(1,2) by (rule up)
    have dv: "sizeof_rm_header_t dvd header_top ?s - header_bottom ?s"
    proof -
      have "?hb + sizeof_rm_header_t \<le> header_top s" using h by (simp add: header_slot_def)
      then have "header_top s - ?hb = (header_top s - (?hb + sizeof_rm_header_t)) + sizeof_rm_header_t"
        by simp
      with "1.prems"(4) show ?thesis by (simp only: dvd_add_triv_right_iff) simp
    qed
    from "1.IH" [OF le True h _ _ dv] "1.prems"(2) obtain n where
      n: "raise_header_bottom ?s = Inr (?s\<lparr>header_bottom := n\<rparr>)" "header_bottom ?s \<le> n"
      "n \<le> header_top ?s" "sizeof_rm_header_t dvd header_top ?s - n" "\<not> rm_header_is_unused ?s n"
      "\<forall>g. header_slot ?s g \<and> h_memory (hdr ?s g) \<noteq> 0 \<longrightarrow> n \<le> g" by auto
    have "raise_header_bottom s = Inr (s\<lparr>header_bottom := n\<rparr>)"
      using n(1) le True by (subst raise_header_bottom.simps) simp
    moreover have "\<forall>g. header_slot s g \<and> h_memory (hdr s g) \<noteq> 0 \<longrightarrow> n \<le> g"
      using n(6) up by simp
    moreover have "\<not> rm_header_is_unused s n" using n(5) by (simp add: rm_header_is_unused_def)
    ultimately show ?thesis using n(2-4) by (intro exI [of _ n]) simp
  qed
qed

section \<open>Rebuilding the free lists\<close>

text \<open>Slot \<open>k\<close> of the new lists: the free headers of that size class, the last ones first.\<close>

definition rebuilt :: "rm_state \<Rightarrow> nat list \<Rightarrow> nat \<Rightarrow> nat list" where
  "rebuilt s xs k = rev (filter (\<lambda>h. is_free s h \<and> rm_log2 (h_size (hdr s h)) = k) xs)"

lemma rebuilt_simps:
  "rebuilt s [] k = []"
  "rebuilt s (xs @ [x]) k =
     (if is_free s x \<and> rm_log2 (h_size (hdr s x)) = k then x # rebuilt s xs k else rebuilt s xs k)"
  by (simp_all add: rebuilt_def)

lemma free_lists_push:
  assumes fl: "free_lists s L F" and h: "h \<in> set L" "is_free s h"
    and k: "k = rm_log2 (h_size (hdr s h))" "k < length (slots s)"
    and b: "b = rm_block_from_header s h" "b \<noteq> 0"
    and off: "\<And>j g. j < length (slots s) \<Longrightarrow> g \<in> set (F j) \<Longrightarrow>
        rm_block_from_header s g + sizeof_free_memory_block_t \<le> b
        \<or> b + sizeof_free_memory_block_t \<le> rm_block_from_header s g"
    and t: "hdr t = hdr s" "slots t = (slots s)[k := b]"
      "blk t = (blk s)(b := \<lparr>b_header = h, b_next = slots s ! k\<rparr>)"
      "mem t = store_cell b \<lparr>b_header = h, b_next = slots s ! k\<rparr> (mem s)"
  shows "free_lists t L (F(k := h # F k))"
  unfolding free_lists_def
proof (intro allI impI conjI ballI)
  fix j assume j: "j < length (slots t)"
  with t have j': "j < length (slots s)" by simp
  have pos: "rm_block_from_header t = rm_block_from_header s"
    using t by (simp add: fun_eq_iff rm_block_from_header_def)
  have "chain (bnxt t) (slots s ! j) (map (rm_block_from_header s) (F j)) 0
      = chain (bnxt s) (slots s ! j) (map (rm_block_from_header s) (F j)) 0"
    using off [OF j'] t by (intro chain_cong) fastforce+
  with free_lists_chain [OF fl j']
  have c: "chain (bnxt t) (slots s ! j) (map (rm_block_from_header s) (F j)) 0" by simp
  have hd: "slots t ! j = (if j = k then b else slots s ! j)" "bnxt t b = slots s ! k"
    using t k by auto
  show "chain (bnxt t) (slots t ! j) (map (rm_block_from_header t) ((F(k := h # F k)) j)) 0"
    unfolding pos using c hd b by (cases "j = k") simp_all
  fix g assume g: "g \<in> set ((F(k := h # F k)) j)"
  show "listed_free t L j g"
  proof (cases "g \<in> set (F j)")
    case True
    have "rm_block_from_header s g \<noteq> b" using off [OF j' True] by auto
    with free_lists_member [OF fl j' True] off [OF j' True] t show ?thesis
      by (auto simp: listed_free_def pos cell_stored_apart)
  next
    case False
    with g have "g = h" "j = k" by (auto split: if_splits)
    with h k b t show ?thesis by (simp add: listed_free_def pos is_free_def)
  qed
qed

text \<open>Only bytes of free blocks have changed.\<close>

definition cells_only :: "rm_state \<Rightarrow> nat list \<Rightarrow> (nat \<Rightarrow> 8 word) \<Rightarrow> bool" where
  "cells_only s L m \<longleftrightarrow>
     (\<forall>x. m x \<noteq> mem s x \<longrightarrow>
       (\<exists>g\<in>set L. is_free s g \<and> h_memory (hdr s g) \<le> x \<and> x < h_memory (hdr s g) + h_size (hdr s g)))"

lemma cells_only_step:
  assumes "cells_only t L m" and "mem t = store_cell (rm_block_from_header s x) c (mem s)"
    and "hdr t = hdr s" and "x \<in> set L" "is_free s x" "sizeof_free_memory_block_t \<le> h_size (hdr s x)"
  shows "cells_only s L m"
  unfolding cells_only_def
proof (intro allI impI)
  fix y assume y: "m y \<noteq> mem s y"
  show "\<exists>g\<in>set L. is_free s g \<and> h_memory (hdr s g) \<le> y \<and> y < h_memory (hdr s g) + h_size (hdr s g)"
  proof (cases "m y = mem t y")
    case True
    with y assms(2) have "h_memory (hdr s x) \<le> y \<and> y < h_memory (hdr s x) + h_size (hdr s x)"
      using assms(6) by (auto simp: store_cell_def rm_block_from_header_def split: if_splits)
    with assms(4,5) show ?thesis by blast
  next
    case False
    with assms(1,3) show ?thesis by (auto simp: cells_only_def is_free_def)
  qed
qed

lemma rebuild_loop_spec:
  assumes "chain (nxt s) h xs 0" and "length xs \<le> fuel" and "L = ds @ xs"
    and "free_lists s L (rebuilt s ds)"
    and "distinct L \<and> (\<forall>g\<in>set L. \<forall>h\<in>set L. g \<noteq> h \<longrightarrow>
           rm_block_from_header s g + sizeof_free_memory_block_t \<le> rm_block_from_header s h
           \<or> rm_block_from_header s h + sizeof_free_memory_block_t \<le> rm_block_from_header s g)"
    and "\<forall>x\<in>set L. h_memory (hdr s x) \<noteq> 0 \<and> sizeof_free_memory_block_t \<le> h_size (hdr s x)
           \<and> rm_log2 (h_size (hdr s x)) < length (slots s) \<and> rm_block_from_header s x \<noteq> 0"
  shows "\<exists>sl bl me. rebuild_loop fuel h s = Inr (s\<lparr>slots := sl, blk := bl, mem := me\<rparr>)
    \<and> length sl = length (slots s)
    \<and> free_lists (s\<lparr>slots := sl, blk := bl, mem := me\<rparr>) L (rebuilt s L) \<and> cells_only s L me"
  using assms
proof (induction xs arbitrary: h fuel s ds)
  case Nil
  then show ?case
    by (intro exI [of _ "slots s"] exI [of _ "blk s"] exI [of _ "mem s"])
      (simp add: rebuild_loop.simps cells_only_def)
next
  case (Cons x xs)
  then obtain f where f: "fuel = Suc f" by (cases fuel) auto
  have x: "h = x" "x \<noteq> 0" "x \<in> set L" using Cons.prems by auto
  let ?k = "rm_log2 (h_size (hdr s x))" and ?b = "rm_block_from_header s x"
  have ok: "h_memory (hdr s x) \<noteq> 0" "sizeof_free_memory_block_t \<le> h_size (hdr s x)"
      "?k < length (slots s)" "?b \<noteq> 0" using Cons.prems(6) x(3) by auto
  have c: "chain (nxt s) (nxt s x) xs 0" and L: "L = (ds @ [x]) @ xs" and lf: "length xs \<le> f"
    using Cons.prems(1,2,3) f by auto
  show ?case
  proof (cases "is_free s x")
    case False
    then have "rebuilt s (ds @ [x]) = rebuilt s ds" by (simp add: fun_eq_iff rebuilt_simps)
    then have "free_lists s L (rebuilt s (ds @ [x]))" using Cons.prems(4) by simp
    from Cons.IH [OF c lf L this Cons.prems(5,6)]
    show ?thesis using False x f by (subst rebuild_loop.simps) (simp add: is_free_def)
  next
    case True
    define t where "t = s\<lparr>blk := (blk s)(?b := \<lparr>b_header = x, b_next = slots s ! ?k\<rparr>),
        mem := store_cell ?b \<lparr>b_header = x, b_next = slots s ! ?k\<rparr> (mem s),
        slots := (slots s)[?k := ?b]\<rparr>"
    have cell: "c\<lparr>b_header := x, b_next := n\<rparr> = \<lparr>b_header = x, b_next = n\<rparr>" for c n
      by (cases c) simp
    have step: "rebuild_loop fuel h s = rebuild_loop f (nxt t x) t"
      using True x f ok
      by (subst rebuild_loop.simps)
        (simp add: is_free_def Let_def read_slot_def write_slot_def upd_blk_def t_def cell)
    have th: "hdr t = hdr s" and tl: "length (slots t) = length (slots s)" by (simp_all add: t_def)
    have pos: "rm_block_from_header t = rm_block_from_header s"
      by (simp add: fun_eq_iff rm_block_from_header_def th)
    have rb: "rebuilt t = rebuilt s" by (simp add: fun_eq_iff rebuilt_def is_free_def th)
    have F: "(rebuilt s ds)(?k := x # rebuilt s ds ?k) = rebuilt s (ds @ [x])"
      using True by (auto simp: fun_eq_iff rebuilt_simps)
    have "free_lists t L ((rebuilt s ds)(?k := x # rebuilt s ds ?k))"
    proof (rule free_lists_push [OF Cons.prems(4) x(3) True refl ok(3) refl ok(4)])
      fix j g assume "g \<in> set (rebuilt s ds j)"
      then have "g \<in> set ds" by (simp add: rebuilt_def)
      then have "g \<in> set L" "g \<noteq> x" using Cons.prems(3,5) by auto
      then show "rm_block_from_header s g + sizeof_free_memory_block_t \<le> ?b
          \<or> ?b + sizeof_free_memory_block_t \<le> rm_block_from_header s g" using Cons.prems(5) x(3) by blast
    qed (simp_all add: t_def)
    then have fl: "free_lists t L (rebuilt t (ds @ [x]))" unfolding F rb .
    have c': "chain (nxt t) (nxt t x) xs 0" using c by (simp add: th)
    from Cons.IH [OF c' lf L fl] Cons.prems(5,6) obtain sl bl me where
      r: "rebuild_loop f (nxt t x) t = Inr (t\<lparr>slots := sl, blk := bl, mem := me\<rparr>)"
      "length sl = length (slots t)" "free_lists (t\<lparr>slots := sl, blk := bl, mem := me\<rparr>) L (rebuilt t L)"
      "cells_only t L me"
      unfolding pos th tl by blast
    have "cells_only s L me"
      by (rule cells_only_step [OF r(4) _ th x(3) True ok(2)]) (simp add: t_def)
    moreover have "t\<lparr>slots := sl, blk := bl, mem := me\<rparr> = s\<lparr>slots := sl, blk := bl, mem := me\<rparr>"
      by (simp add: t_def)
    ultimately show ?thesis using r(1-3) step tl rb by auto
  qed
qed

end
