(* ===== verification/Rm_Blocks.thy ===== *)
theory Rm_Blocks
  imports Rm_Inv
begin

text \<open>
  How the block operations act on a well-formed state: taking memory off the top, giving a
  block back to its slot, unlinking a block from a slot, splitting it, and handing it out.
\<close>

section \<open>The header pool in a well-formed state\<close>

lemma new_header_frame:
  assumes "new_header s s' h L"
  shows "memory_bottom s' = memory_bottom s" and "memory_top s' = memory_top s"
    and "memory_size s' = memory_size s" and "header_top s' = header_top s"
    and "free_block_slot_count s' = free_block_slot_count s"
    and "header_used_count s' = header_used_count s"
    and "slots s' = slots s" and "blk s' = blk s" and "mem s' = mem s"
    and "unused_header_root s' = 0"
proof -
  have e: "s' = s\<lparr>hdr := hdr s', header_root := header_root s', header_bottom := header_bottom s',
      unused_header_root := 0\<rparr>" using assms unfolding new_header_def by blast
  show "memory_bottom s' = memory_bottom s" "memory_top s' = memory_top s"
    "memory_size s' = memory_size s" "header_top s' = header_top s"
    "free_block_slot_count s' = free_block_slot_count s"
    "header_used_count s' = header_used_count s"
    "slots s' = slots s" "blk s' = blk s" "mem s' = mem s" "unused_header_root s' = 0"
    using arg_cong [OF e, of memory_bottom] arg_cong [OF e, of memory_top]
      arg_cong [OF e, of memory_size] arg_cong [OF e, of header_top]
      arg_cong [OF e, of free_block_slot_count] arg_cong [OF e, of header_used_count]
      arg_cong [OF e, of slots] arg_cong [OF e, of blk] arg_cong [OF e, of mem]
      arg_cong [OF e, of unused_header_root]
    by simp_all
qed

lemma new_headerD:
  assumes "new_header s s' h L"
  shows "h \<noteq> 0" and "h \<notin> set L" and "header_slot s' h"
    and "chain (nxt s') (header_root s') (h # L) 0"
    and "header_bottom s' = header_bottom s
      \<or> header_bottom s' = header_bottom s - sizeof_rm_header_t
        \<and> memory_top s < header_bottom s - 2 * sizeof_rm_header_t"
    and "\<And>g. g \<noteq> h \<Longrightarrow> hdr s' g = hdr s g"
  using assms unfolding new_header_def by blast+

lemma wf_header_new:
  assumes w: "wfs s L P F" and n: "header_new True s = (h, s')" "h \<noteq> 0"
  shows "new_header s s' h L"
proof (rule header_new_spec [OF _ _ _ _ _ _ _ n])
  show "header_list s L" "unused_root_ok s" using w by (simp_all add: wfs_def)
  show "\<And>h. h \<in> set L \<Longrightarrow> header_slot s h" using wf_parts(4) [OF w] .
  show "\<And>h. h \<in> set L \<Longrightarrow> h_memory (hdr s h) \<noteq> 0" using wf_sizes(6) [OF w] by simp
  show "0 < header_bottom s" "header_bottom s \<le> header_top s"
      "sizeof_rm_header_t dvd (header_top s - header_bottom s)"
    using wf_parts(1) [OF w] by (auto simp: geometry_def)
qed

text \<open>A new header is given an extent: \<open>s'\<close> is the state with it on the list, \<open>t\<close> the later one.\<close>

lemma new_header_slots:
  assumes w: "wfs s L P F" and n: "new_header s s' h L"
    and t: "header_bottom t = header_bottom s'" "header_top t = header_top s'"
    and g: "g \<in> set (h # L)"
  shows "header_slot t g"
proof (cases "g = h")
  case True
  with new_headerD(3) [OF n] t show ?thesis by (simp add: header_slot_def)
next
  case False
  with g w have "header_slot s g" by (simp add: wfs_def)
  then show ?thesis
    by (rule header_slot_grow) (use new_headerD(5) [OF n] t new_header_frame(4) [OF n] in auto)
qed

lemma new_header_geometry:
  assumes w: "wfs s L P F" and n: "new_header s s' h L"
    and t: "memory_bottom t = memory_bottom s'" "memory_size t = memory_size s'"
      "header_bottom t = header_bottom s'" "header_top t = header_top s'"
      "free_block_slot_count t = free_block_slot_count s'" "slots t = slots s'"
    and m: "memory_bottom t \<le> memory_top t" "memory_top t < header_bottom t"
  shows "geometry t"
proof -
  have g: "geometry s" using w by (simp add: wfs_def)
  have "header_slot s' h" using n by (rule new_headerD)
  then have le: "header_bottom s' \<le> header_top s'" by (simp add: header_slot_def)
  have "sizeof_rm_header_t dvd (header_top s' - header_bottom s')"
  proof (cases "header_bottom s' = header_bottom s")
    case True
    with g new_header_frame(4) [OF n] show ?thesis by (simp add: geometry_def)
  next
    case False
    with new_headerD(5) [OF n] have b: "header_bottom s' = header_bottom s - sizeof_rm_header_t"
        "memory_top s < header_bottom s - 2 * sizeof_rm_header_t"
      by auto
    with g have "header_top s' - header_bottom s'
        = (header_top s - header_bottom s) + sizeof_rm_header_t"
      using new_header_frame(4) [OF n] by (auto simp: geometry_def)
    with g show ?thesis by (simp only: geometry_def dvd_add_triv_right_iff)
  qed
  with g le m show ?thesis
    using new_header_frame [OF n] by (simp add: geometry_def t)
qed

section \<open>Taking memory off the top\<close>

lemma wf_grab_top:
  assumes w: "wfs s L P F" and n: "new_header s s' h L"
    and room: "memory_top s + sz + sizeof_rm_header_t < header_bottom s"
    and sz: "sizeof_free_memory_block_t \<le> sz"
    and t: "t = (upd_hdr h (\<lambda>x. x\<lparr>h_size := sz, h_memory := memory_top s,
                    h_type := BLOCK_TYPE_UNLOCKED\<rparr>) s')
                \<lparr>header_used_count := header_used_count s + 1, memory_top := memory_top s + sz\<rparr>"
  shows "wfs t (h # L) (P @ [h]) F"
proof -
  note fr = new_header_frame [OF n]
  have geo: "geometry s" using w by (simp add: wfs_def)
  have hL: "h \<notin> set L" using n by (rule new_headerD)
  have other: "hdr t g = hdr s g" if "g \<in> set L" for g
    using that hL new_headerD(6) [OF n, of g] t by auto
  have ext: "extent t g = extent s g" if "g \<in> set L" for g
    using other [OF that] by (simp add: extent_def)
  have use: "in_use t g = in_use s g" if "g \<in> set L" for g
    using other [OF that] by (simp add: in_use_def)
  have me: "extent t h = (memory_top s, sz)" "in_use t h"
    using t by (simp_all add: extent_def in_use_def)
  have "header_bottom s - sizeof_rm_header_t \<le> header_bottom s'"
    using new_headerD(5) [OF n] by auto
  then have g: "geometry t"
    using room geo fr t by (intro new_header_geometry [OF w n]) (auto simp: geometry_def)
  have "header_root t = header_root s'" "\<And>x. nxt t x = nxt s' x" using t by auto
  then have hl: "header_list t (h # L)"
    using new_headerD(4) [OF n] by (simp add: header_list_def del: chain.simps)
  have u: "unused_root_ok t" using fr t by (simp add: unused_root_ok_def)
  have sl: "\<forall>g\<in>set (h # L). header_slot t g"
    using t by (intro ballI new_header_slots [OF w n]) auto
  have p: "placed s L P" using w by (simp add: wfs_def)
  have m: "map (extent t) P = map (extent s) P"
    using ext placed_set [OF p] by (intro map_cong) auto
  have "placed t (h # L) (P @ [h])"
    using p other sz me fr t unfolding placed_def map_append m
    by (auto simp: tiled_append)
  moreover have "free_lists t (h # L) F"
  proof (rule free_lists_cong [of s L])
    show "free_lists s L F" using w by (simp add: wfs_def)
    show "slots t = slots s" using t fr by simp
    fix k x assume "k < length (slots s)" "x \<in> set (F k)"
    with w have "x \<in> set L" by (auto simp: wfs_def free_lists_def listed_free_def)
    with other [OF this] show "x \<in> set (h # L) \<and> h_memory (hdr t x) = h_memory (hdr s x)
        \<and> h_size (hdr t x) = h_size (hdr s x) \<and> h_type (hdr t x) = h_type (hdr s x)
        \<and> blk t (rm_block_from_header s x) = blk s (rm_block_from_header s x)
        \<and> (cell_stored (mem s) (rm_block_from_header s x) (blk s (rm_block_from_header s x))
           \<longrightarrow> cell_stored (mem t) (rm_block_from_header s x) (blk s (rm_block_from_header s x)))"
      using t fr by simp
  qed
  moreover have "header_used_count t = int (length (filter (in_use t) (h # L)))"
  proof -
    have "filter (in_use t) L = filter (in_use s) L" using use by (intro filter_cong) auto
    with w me t show ?thesis by (simp add: wfs_def)
  qed
  ultimately show ?thesis using g hl u sl by (simp add: wfs_def)
qed

section \<open>Putting a block on a slot and taking it off\<close>

text \<open>Writes to the list cells and the slots only change the free lists.\<close>

lemma wf_relist:
  assumes w: "wfs s L P F" and fl: "free_lists t L G"
    and e: "memory_bottom t = memory_bottom s" "memory_top t = memory_top s"
      "memory_size t = memory_size s" "free_block_slot_count t = free_block_slot_count s"
      "header_top t = header_top s" "header_bottom t = header_bottom s"
      "header_root t = header_root s" "unused_header_root t = unused_header_root s"
      "header_used_count t = header_used_count s" "length (slots t) = length (slots s)"
      "hdr t = hdr s"
  shows "wfs t L P G"
proof -
  have f: "extent t = extent s" "in_use t = in_use s" "header_slot t = header_slot s"
    using e by (simp_all add: fun_eq_iff extent_def in_use_def header_slot_def)
  from w fl show ?thesis
    by (simp add: wfs_def geometry_def header_list_def unused_root_ok_def placed_def e f)
qed

lemma listed_position_apart:
  assumes w: "wfs s L P F" and j: "j < length (slots s)" "g \<in> set (F j)"
    and h: "h \<in> set L" "g \<noteq> h"
  shows "rm_block_from_header s g \<noteq> rm_block_from_header s h"
proof (rule block_positions_apart [of s L P])
  show "g \<in> set L" using free_lists_member [of s L F] w j by (auto simp: wfs_def listed_free_def)
qed (use w h wf_parts(7) [OF w] in \<open>auto simp: wfs_def\<close>)

lemma listed_cells_apart:
  assumes w: "wfs s L P F" and j: "j < length (slots s)" "g \<in> set (F j)"
    and h: "h \<in> set L" "g \<noteq> h"
  shows "rm_block_from_header s g + sizeof_free_memory_block_t \<le> rm_block_from_header s h
    \<or> rm_block_from_header s h + sizeof_free_memory_block_t \<le> rm_block_from_header s g"
proof (rule cells_apart [of s L P])
  show "g \<in> set L" using free_lists_member [of s L F] w j by (auto simp: wfs_def listed_free_def)
qed (use w h wf_parts(7) [OF w] in \<open>auto simp: wfs_def\<close>)

text \<open>\<open>off_lists s F h\<close>: no free list holds \<open>h\<close>.\<close>

definition off_lists :: "rm_state \<Rightarrow> (nat \<Rightarrow> nat list) \<Rightarrow> nat \<Rightarrow> bool" where
  "off_lists s F h \<longleftrightarrow> (\<forall>k<length (slots s). h \<notin> set (F k))"

lemma listed_slot:
  "wfs s L P F \<Longrightarrow> k < length (slots s) \<Longrightarrow> h \<in> set (F k) \<Longrightarrow> rm_log2 (h_size (hdr s h)) = k"
  by (auto simp: wfs_def free_lists_def listed_free_def)

lemma in_use_off_lists: "wfs s L P F \<Longrightarrow> in_use s h \<Longrightarrow> off_lists s F h"
  by (auto simp: wfs_def free_lists_def listed_free_def in_use_def off_lists_def)

lemma wf_push:
  assumes w: "wfs s L P F" and h: "h \<in> set L" "h_type (hdr s h) = BLOCK_TYPE_FREE"
    and off: "off_lists s F h" and k: "k = rm_log2 (h_size (hdr s h))"
    and b: "b = rm_block_from_header s h" "b_header (blk s b) = h"
    and t: "t = (upd_blk b (\<lambda>x. x\<lparr>b_next := slots s ! k\<rparr>) s)\<lparr>slots := (slots s)[k := b]\<rparr>"
  shows "wfs t L P (F(k := h # F k))"
proof (rule wf_relist [OF w])
  have kl: "k < length (slots s)" using wf_sizes(9) [OF w h(1)] k by simp
  have bpos: "b \<noteq> 0" using block_position_pos [of s L P h] w h b by (auto simp: wfs_def)
  have pos: "rm_block_from_header t = rm_block_from_header s"
    using t by (simp add: fun_eq_iff rm_block_from_header_def)
  have apart: "b \<notin> set (map (rm_block_from_header s) (F j))" if "j < length (slots s)" for j
    using listed_position_apart [OF w that _ h(1)] off that b(1)
    by (fastforce simp: off_lists_def)
  show "free_lists t L (F(k := h # F k))"
    unfolding free_lists_def
  proof (intro allI impI conjI ballI)
    fix j assume j: "j < length (slots t)"
    with t have j': "j < length (slots s)" by simp
    have "chain (bnxt t) p (map (rm_block_from_header s) (F j)) 0
        = chain (bnxt s) p (map (rm_block_from_header s) (F j)) 0" for p
      using apart [OF j'] t by (intro chain_cong) auto
    moreover have "chain (bnxt s) (slots s ! j) (map (rm_block_from_header s) (F j)) 0"
      using w j' by (simp add: wfs_def free_lists_def)
    ultimately have c: "chain (bnxt t) (slots s ! j) (map (rm_block_from_header s) (F j)) 0"
      by blast
    have hd: "slots t ! j = (if j = k then b else slots s ! j)" "bnxt t b = slots s ! k"
      using t kl by auto
    show "chain (bnxt t) (slots t ! j)
        (map (rm_block_from_header t) ((F(k := h # F k)) j)) 0"
      unfolding pos using c hd b(1) bpos by (cases "j = k") simp_all
    fix g assume g: "g \<in> set ((F(k := h # F k)) j)"
    show "listed_free t L j g"
    proof (cases "g = h")
      case True
      with off g j' have "j = k" by (auto simp: off_lists_def split: if_splits)
      moreover have "hdr t = hdr s" "b_header (blk t x) = b_header (blk s x)" for x
        using t by simp_all
      moreover have "cell_stored (mem t) b (blk t b)" using t by simp
      ultimately show ?thesis using True h k b by (simp add: listed_free_def pos)
    next
      case False
      with g have gj: "g \<in> set (F j)" by (auto split: if_splits)
      with w j' have l: "listed_free s L j g" by (auto simp: wfs_def free_lists_def)
      moreover have "hdr t = hdr s" "b_header (blk t x) = b_header (blk s x)" for x
        using t by simp_all
      moreover have "cell_stored (mem t) (rm_block_from_header s g) (blk t (rm_block_from_header s g))"
        using l listed_cells_apart [OF w j' gj h(1) False] apart [OF j'] gj t b(1)
        by (auto simp: listed_free_def cell_stored_apart)
      ultimately show ?thesis by (simp add: listed_free_def pos)
    qed
  qed
qed (simp_all add: t)

lemma wf_unlink:
  assumes w: "wfs s L P F" and k: "k < length (slots s)"
    and new: "chain (bnxt t) (slots t ! k) (map (rm_block_from_header s) hs) 0"
    and sub: "set hs \<subseteq> set (F k)"
    and eq: "hdr t = hdr s" "\<And>j. j \<noteq> k \<Longrightarrow> slots t ! j = slots s ! j"
      "length (slots t) = length (slots s)"
    and bh: "\<And>x. b_header (blk t x) = b_header (blk s x)"
    and bn: "\<And>j g. j < length (slots s) \<Longrightarrow> j \<noteq> k \<Longrightarrow> g \<in> set (F j) \<Longrightarrow>
      bnxt t (rm_block_from_header s g) = bnxt s (rm_block_from_header s g)"
    and cs: "\<And>j g. j < length (slots s) \<Longrightarrow> g \<in> set ((F(k := hs)) j) \<Longrightarrow>
      cell_stored (mem t) (rm_block_from_header s g) (blk t (rm_block_from_header s g))"
  shows "free_lists t L (F(k := hs))"
proof -
  have pos: "rm_block_from_header t = rm_block_from_header s"
    using eq by (simp add: fun_eq_iff rm_block_from_header_def)
  have ch: "chain (bnxt t) p (map (rm_block_from_header s) (F j)) 0
      = chain (bnxt s) p (map (rm_block_from_header s) (F j)) 0"
    if "j < length (slots s)" "j \<noteq> k" for p j
    using bn [OF that] by (intro chain_cong) auto
  show ?thesis
    unfolding free_lists_def
  proof (intro allI impI conjI ballI)
    fix j assume "j < length (slots t)"
    then have j: "j < length (slots s)" using eq by simp
    show "chain (bnxt t) (slots t ! j) (map (rm_block_from_header t) ((F(k := hs)) j)) 0"
      using ch [OF j] new eq free_lists_chain [OF wf_parts(6) [OF w] j] by (auto simp: pos)
    fix g assume g: "g \<in> set ((F(k := hs)) j)"
    then have "g \<in> set (F j)" using sub by (auto split: if_splits)
    from free_lists_member [OF wf_parts(6) [OF w] j this] cs [OF j g]
    show "listed_free t L j g" using eq(1) bh by (simp add: listed_free_def pos)
  qed
qed

lemma wf_unlink_first:
  assumes w: "wfs s L P F" and k: "k < length (slots s)" and F: "F k = h # hs"
    and t: "t = s\<lparr>slots := (slots s)[k := b_next (blk s (slots s ! k))]\<rparr>"
  shows "wfs t L P (F(k := hs))"
proof (rule wf_relist [OF w])
  have c: "chain (bnxt s) (slots s ! k) (map (rm_block_from_header s) (h # hs)) 0"
    using free_lists_chain [of s L F k] w k F by (simp add: wfs_def)
  show "free_lists t L (F(k := hs))"
  proof (rule wf_unlink [OF w k])
    fix j g assume j: "j < length (slots s)" and "g \<in> set ((F(k := hs)) j)"
    then have "g \<in> set (F j)" using F by (auto split: if_splits)
    from free_lists_member [OF wf_parts(6) [OF w] j this]
    show "cell_stored (mem t) (rm_block_from_header s g) (blk t (rm_block_from_header s g))"
      using t by (simp add: listed_free_def)
  qed (use c k F t in auto)
qed (simp_all add: t)

lemma wf_unlink_later:
  assumes w: "wfs s L P F" and k: "k < length (slots s)" and F: "F k = as @ g # h # hs"
    and t: "t = upd_blk (rm_block_from_header s g)
                  (\<lambda>x. x\<lparr>b_next := b_next (blk s (rm_block_from_header s h))\<rparr>) s"
  shows "wfs t L P (F(k := as @ g # hs))"
proof (rule wf_relist [OF w])
  let ?b = "rm_block_from_header s"
  have c: "chain (bnxt s) (slots s ! k) (map ?b (as @ g # h # hs)) 0"
    using free_lists_chain [of s L F k] w k F by (simp add: wfs_def)
  have d: "distinct (map ?b (as @ g # h # hs))" using c by (rule chain_null_distinct)
  then have n: "?b g \<notin> set (map ?b as)" "?b g \<notin> set (map ?b hs)" by auto
  from c have c1: "chain (bnxt s) (slots s ! k) (map ?b as) (?b g)" "?b g \<noteq> 0"
      "chain (bnxt s) (bnxt s (?b h)) (map ?b hs) 0"
    by (auto simp: chain_append)
  have bnt: "bnxt t = (bnxt s)(?b g := bnxt s (?b h))" using t by (auto simp: fun_eq_iff)
  have c2: "chain (bnxt t) (slots s ! k) (map ?b as) (?b g)"
      "chain (bnxt t) (bnxt s (?b h)) (map ?b hs) 0"
    using c1 n unfolding bnt by simp_all
  have "bnxt t (?b g) = bnxt s (?b h)" using t by simp
  with c2 c1(2) have "chain (bnxt t) (slots s ! k) (map ?b as @ ?b g # map ?b hs) 0"
    unfolding chain_append chain.simps by metis
  then have new: "chain (bnxt t) (slots t ! k) (map ?b (as @ g # hs)) 0"
    using t by simp
  show "free_lists t L (F(k := as @ g # hs))"
  proof (rule wf_unlink [OF w k new])
    fix j x assume j: "j < length (slots s)" "j \<noteq> k" and x: "x \<in> set (F j)"
    have "x \<noteq> g" using listed_slot [OF w j(1) x] listed_slot [OF w k, of g] j F by auto
    moreover have "g \<in> set L" using w k F by (auto simp: wfs_def free_lists_def listed_free_def)
    ultimately have "?b x \<noteq> ?b g" using listed_position_apart [OF w j(1) x] by blast
    then show "bnxt t (?b x) = bnxt s (?b x)" using t by simp
  next
    fix j x assume j: "j < length (slots s)" and "x \<in> set ((F(k := as @ g # hs)) j)"
    then have x: "x \<in> set (F j)" using F by (auto split: if_splits)
    show "cell_stored (mem t) (?b x) (blk t (?b x))"
    proof (cases "x = g")
      case True
      then show ?thesis using t by simp
    next
      case False
      have "g \<in> set L" using w k F by (auto simp: wfs_def free_lists_def listed_free_def)
      from listed_cells_apart [OF w j x this False] listed_position_apart [OF w j x this False]
        free_lists_member [OF wf_parts(6) [OF w] j x]
      show ?thesis using t by (auto simp: listed_free_def cell_stored_apart)
    qed
  qed (use F t in auto)
qed (simp_all add: t)

section \<open>Marking a block free, handing a block out\<close>

lemma wf_mark_free:
  assumes w: "wfs s L P F" and h: "h \<in> set L" "in_use s h"
    and t: "t = (upd_blk (rm_block_from_header s h) (\<lambda>x. x\<lparr>b_header := h, b_next := n\<rparr>)
                  (upd_hdr h (\<lambda>x. x\<lparr>h_type := BLOCK_TYPE_FREE\<rparr>) s))
                \<lparr>header_used_count := header_used_count s - 1\<rparr>"
  shows "wfs t L P F" and "off_lists t F h" and "b_header (blk t (rm_block_from_header t h)) = h"
proof -
  have off: "off_lists s F h" using w h(2) by (rule in_use_off_lists)
  have fl: "free_lists t L F"
  proof (rule free_lists_cong [OF wf_parts(6) [OF w]])
    fix k g assume k: "k < length (slots s)" and g: "g \<in> set (F k)"
    with w have l: "listed_free s L k g" by (auto simp: wfs_def free_lists_def)
    have ne: "g \<noteq> h" using off k g by (auto simp: off_lists_def)
    with listed_position_apart [OF w k g h(1)]
    have "rm_block_from_header s g \<noteq> rm_block_from_header s h" .
    with l ne t listed_cells_apart [OF w k g h(1) ne] show "g \<in> set L \<and> h_memory (hdr t g) = h_memory (hdr s g)
        \<and> h_size (hdr t g) = h_size (hdr s g) \<and> h_type (hdr t g) = h_type (hdr s g)
        \<and> blk t (rm_block_from_header s g) = blk s (rm_block_from_header s g)
        \<and> (cell_stored (mem s) (rm_block_from_header s g) (blk s (rm_block_from_header s g))
           \<longrightarrow> cell_stored (mem t) (rm_block_from_header s g) (blk s (rm_block_from_header s g)))"
      by (auto simp: listed_free_def cell_stored_apart)
  qed (simp add: t)
  have pl: "placed t L P"
    using wf_parts(5) [OF w] by (rule placed_cong) (auto simp: extent_def t)
  have "header_root t = header_root s" "\<And>x. nxt t x = nxt s x" using t by auto
  then have hl: "header_list t L" using wf_parts(2) [OF w] t by (simp add: header_list_def)
  have u: "unused_root_ok t"
    using w t by (auto simp: wfs_def unused_root_ok_def header_slot_def Let_def)
  have g: "geometry t" using wf_parts(1) [OF w] t by (simp add: geometry_def)
  have sl: "\<forall>g\<in>set L. header_slot t g"
    using wf_parts(4) [OF w] t by (simp add: header_slot_def)
  have "length (filter (in_use s) L) = Suc (length (filter (in_use t) L))"
    using wf_parts(7) [OF w] h t by (intro in_use_count_step) (auto simp: in_use_def)
  then have "header_used_count t = int (length (filter (in_use t) L))"
    using w t by (simp add: wfs_def)
  with g hl u sl pl fl show "wfs t L P F" by (simp add: wfs_def)
  show "off_lists t F h" using off t by (simp add: off_lists_def)
  show "b_header (blk t (rm_block_from_header t h)) = h"
    using t by (simp add: rm_block_from_header_def)
qed

lemma wf_hand_out:
  assumes w: "wfs s L P F" and h: "h \<in> set L" "\<not> in_use s h" and off: "off_lists s F h"
    and ty: "ty \<noteq> BLOCK_TYPE_FREE"
    and t: "t = (upd_hdr h (\<lambda>x. x\<lparr>h_type := ty\<rparr>) s)
                \<lparr>header_used_count := header_used_count s + 1\<rparr>"
  shows "wfs t L P F"
proof -
  have fl: "free_lists t L F"
  proof (rule free_lists_cong [OF wf_parts(6) [OF w]])
    fix k g assume k: "k < length (slots s)" and g: "g \<in> set (F k)"
    with w have l: "listed_free s L k g" by (auto simp: wfs_def free_lists_def)
    have "g \<noteq> h" using off k g by (auto simp: off_lists_def)
    with l t show "g \<in> set L \<and> h_memory (hdr t g) = h_memory (hdr s g)
        \<and> h_size (hdr t g) = h_size (hdr s g) \<and> h_type (hdr t g) = h_type (hdr s g)
        \<and> blk t (rm_block_from_header s g) = blk s (rm_block_from_header s g)
        \<and> (cell_stored (mem s) (rm_block_from_header s g) (blk s (rm_block_from_header s g))
           \<longrightarrow> cell_stored (mem t) (rm_block_from_header s g) (blk s (rm_block_from_header s g)))"
      by (simp add: listed_free_def)
  qed (simp add: t)
  have pl: "placed t L P"
    using wf_parts(5) [OF w] by (rule placed_cong) (auto simp: extent_def t)
  have "header_root t = header_root s" "\<And>x. nxt t x = nxt s x" using t by auto
  then have hl: "header_list t L" using wf_parts(2) [OF w] t by (simp add: header_list_def)
  have u: "unused_root_ok t"
    using w t by (auto simp: wfs_def unused_root_ok_def header_slot_def Let_def)
  have g: "geometry t" using wf_parts(1) [OF w] t by (simp add: geometry_def)
  have sl: "\<forall>g\<in>set L. header_slot t g"
    using wf_parts(4) [OF w] t by (simp add: header_slot_def)
  have "length (filter (in_use t) L) = Suc (length (filter (in_use s) L))"
    using wf_parts(7) [OF w] h t ty by (intro in_use_count_step) (auto simp: in_use_def)
  then have "header_used_count t = int (length (filter (in_use t) L))"
    using w t by (simp add: wfs_def)
  with g hl u sl pl fl show ?thesis by (simp add: wfs_def)
qed

section \<open>Splitting a block\<close>

lemma tiled_split:
  assumes "tiled lo hi (es @ (a, d + n) # fs)"
  shows "tiled lo hi (es @ (a, d) # (a + d, n) # fs)"
  using assms by (auto simp: tiled_append add.assoc)

lemma wf_split:
  assumes w: "wfs s L P F" and h: "h \<in> set L" "\<not> in_use s h" and off: "off_lists s F h"
    and n: "new_header s s1 r L"
    and d: "h_size (hdr s h) = d + sz" "sizeof_free_memory_block_t \<le> d"
      "sizeof_free_memory_block_t \<le> sz"
    and t: "t = upd_blk (h_memory (hdr s h) + d - sizeof_free_memory_block_t)
                  (\<lambda>x. x\<lparr>b_next := 0, b_header := r\<rparr>)
                (upd_hdr h (\<lambda>x. x\<lparr>h_memory := h_memory x + d, h_size := sz\<rparr>)
                (upd_hdr r (\<lambda>x. x\<lparr>h_type := BLOCK_TYPE_FREE, h_memory := h_memory (hdr s h),
                                 h_size := d\<rparr>) s1))"
  shows "\<exists>Q. wfs t (r # L) Q F"
    and "off_lists t F h" and "off_lists t F r"
    and "rm_block_from_header t h = rm_block_from_header s h"
    and "blk t (rm_block_from_header s h) = blk s (rm_block_from_header s h)"
    and "b_header (blk t (rm_block_from_header t r)) = r"
proof -
  let ?m = "h_memory (hdr s h)" and ?b = "h_memory (hdr s h) + d - sizeof_free_memory_block_t"
  note fr = new_header_frame [OF n]
  note p = wf_parts(5) [OF w]
  have rL: "r \<notin> set L" and r0: "r \<noteq> 0" using n by (auto dest: new_headerD)
  with h have rh: "r \<noteq> h" by auto
  have hs1: "hdr s1 h = hdr s h" using new_headerD(6) [OF n] rh by simp
  have th: "hdr t h = (hdr s h)\<lparr>h_memory := ?m + d, h_size := sz\<rparr>" using t rh hs1 by simp
  have tr: "h_memory (hdr t r) = ?m" "h_size (hdr t r) = d" "h_type (hdr t r) = BLOCK_TYPE_FREE"
    using t rh by auto
  have other: "hdr t g = hdr s g" if "g \<in> set L" "g \<noteq> h" for g
    using that rL new_headerD(6) [OF n, of g] t by auto
  have top: "?m + d + sz \<le> memory_top s" "memory_bottom s \<le> ?m"
    using wf_sizes(1,2) [OF w h(1)] d by simp_all
  have roff: "off_lists t F r"
    using w rL t fr by (auto simp: off_lists_def wfs_def free_lists_def listed_free_def)
  show "off_lists t F r" by (rule roff)
  show "off_lists t F h" using off t fr by (simp add: off_lists_def)
  show bh: "rm_block_from_header t h = rm_block_from_header s h"
    using th d by (simp add: rm_block_from_header_def)
  have bne: "rm_block_from_header s h \<noteq> ?b" using d by (simp add: rm_block_from_header_def)
  show "blk t (rm_block_from_header s h) = blk s (rm_block_from_header s h)"
    using t bne fr by simp
  have "rm_block_from_header t r = ?b" using tr by (simp add: rm_block_from_header_def)
  then show "b_header (blk t (rm_block_from_header t r)) = r" using t by simp
  have fl: "free_lists t (r # L) F"
  proof (rule free_lists_cong [OF wf_parts(6) [OF w]])
    show "slots t = slots s" using t fr by simp
    fix k g assume k: "k < length (slots s)" and g: "g \<in> set (F k)"
    with w have l: "listed_free s L k g" by (auto simp: wfs_def free_lists_def)
    then have gL: "g \<in> set L" by (simp add: listed_free_def)
    have ne: "g \<noteq> h" using off k g by (auto simp: off_lists_def)
    have "disjoint_extents (extent s g) (extent s h)"
      using placed_disjoint [OF p wf_parts(7) [OF w] gL h(1) ne] .
    then have "rm_block_from_header s g \<noteq> ?b"
      "rm_block_from_header s g + sizeof_free_memory_block_t \<le> ?b
       \<or> ?b + sizeof_free_memory_block_t \<le> rm_block_from_header s g"
      using d wf_sizes(3) [OF w gL] by (auto simp: disjoint_extents_def rm_block_from_header_def)
    with other [OF gL ne] gL t fr
    show "g \<in> set (r # L) \<and> h_memory (hdr t g) = h_memory (hdr s g)
        \<and> h_size (hdr t g) = h_size (hdr s g) \<and> h_type (hdr t g) = h_type (hdr s g)
        \<and> blk t (rm_block_from_header s g) = blk s (rm_block_from_header s g)
        \<and> (cell_stored (mem s) (rm_block_from_header s g) (blk s (rm_block_from_header s g))
           \<longrightarrow> cell_stored (mem t) (rm_block_from_header s g) (blk s (rm_block_from_header s g)))"
      by (auto simp: cell_stored_apart)
  qed
  have "h \<in> set P" using placed_set [OF p] h by simp
  then obtain As Bs where P: "P = As @ h # Bs" by (meson split_list)
  have "distinct P" using p wf_parts(7) [OF w] by (metis placed_def mset_eq_imp_distinct_iff)
  with P have notin: "h \<notin> set As" "h \<notin> set Bs" by auto
  have sub: "set As \<subseteq> set L" "set Bs \<subseteq> set L" using P placed_set [OF p] by auto
  have same: "extent t x = extent s x" if "x \<in> set As \<union> set Bs" for x
  proof -
    have "x \<in> set L" "x \<noteq> h" using that notin sub by auto
    from other [OF this] show ?thesis by (simp add: extent_def)
  qed
  have mA: "map (extent t) As = map (extent s) As" "map (extent t) Bs = map (extent s) Bs"
    using same by simp_all
  have "tiled (memory_bottom s) (memory_top s)
      (map (extent s) As @ (?m, d + sz) # map (extent s) Bs)"
    using p P d by (simp add: placed_def extent_def)
  then have "tiled (memory_bottom s) (memory_top s)
      (map (extent s) As @ (?m, d) # (?m + d, sz) # map (extent s) Bs)" by (rule tiled_split)
  moreover have "memory_bottom t = memory_bottom s" "memory_top t = memory_top s"
    using t fr by simp_all
  moreover have "extent t h = (?m + d, sz)" "extent t r = (?m, d)"
    using th tr by (simp_all add: extent_def)
  ultimately have "tiled (memory_bottom t) (memory_top t) (map (extent t) (As @ r # h # Bs))"
    by (simp add: mA)
  moreover have "mset (As @ r # h # Bs) = mset (r # L)" using p P by (simp add: placed_def)
  moreover have "\<forall>g\<in>set (r # L). sizeof_free_memory_block_t \<le> h_size (hdr t g)"
  proof
    fix g assume "g \<in> set (r # L)"
    then consider "g = r" | "g = h" | "g \<in> set L" "g \<noteq> h" by auto
    then show "sizeof_free_memory_block_t \<le> h_size (hdr t g)"
      using th tr d other wf_sizes(3) [OF w] by cases auto
  qed
  ultimately have pl: "placed t (r # L) (As @ r # h # Bs)" by (simp add: placed_def)
  have "header_root t = header_root s1" "\<And>x. nxt t x = nxt s1 x" using t by auto
  then have hl: "header_list t (r # L)"
    using new_headerD(4) [OF n] by (simp add: header_list_def del: chain.simps)
  have u: "unused_root_ok t" using fr t by (simp add: unused_root_ok_def)
  have geo: "geometry s" using w by (simp add: wfs_def)
  have g: "geometry t"
    using new_headerD(5) [OF n] geo fr t
    by (intro new_header_geometry [OF w n]) (auto simp: geometry_def)
  have sl: "\<forall>g\<in>set (r # L). header_slot t g"
    using t by (intro ballI new_header_slots [OF w n]) auto
  have use: "in_use t g = in_use s g" if "g \<in> set L" for g
    using that other [OF that] th by (cases "g = h") (auto simp: in_use_def)
  then have "filter (in_use t) L = filter (in_use s) L" by (intro filter_cong) auto
  then have "header_used_count t = int (length (filter (in_use t) (r # L)))"
    using w tr t fr by (simp add: wfs_def in_use_def)
  with g hl u sl pl fl have "wfs t (r # L) (As @ r # h # Bs) F" by (simp add: wfs_def)
  then show "\<exists>Q. wfs t (r # L) Q F" ..
qed

end
