(* ===== verification/Rm_Search.thy ===== *)
theory Rm_Search
  imports Rm_Blocks
begin

text \<open>
  The free list search in a well-formed state: which block \<open>freeblock_search\<close> finds, that it
  is complete, and that the paths which move misplaced blocks are never taken.
\<close>

section \<open>Unlinking\<close>

text \<open>\<open>s'\<close> is \<open>s\<close> with the block of \<open>h\<close> taken off slot \<open>k\<close>; only links have changed.\<close>

definition relinked :: "rm_state \<Rightarrow> rm_state \<Rightarrow> bool" where
  "relinked s s' \<longleftrightarrow>
     hdr s' = hdr s \<and> keeps_bytes s s' \<and> (\<forall>b. b_header (blk s' b) = b_header (blk s b))
     \<and> memory_bottom s' = memory_bottom s \<and> memory_top s' = memory_top s
     \<and> memory_size s' = memory_size s \<and> free_block_slot_count s' = free_block_slot_count s
     \<and> header_top s' = header_top s \<and> header_bottom s' = header_bottom s
     \<and> header_root s' = header_root s \<and> unused_header_root s' = unused_header_root s
     \<and> header_used_count s' = header_used_count s \<and> length (slots s') = length (slots s)"

lemma relinked_spare: "relinked s s' \<Longrightarrow> spare s' = spare s"
  by (auto simp: relinked_def spare_def live_def in_use_def fun_eq_iff)

definition unlinked ::
  "rm_state \<Rightarrow> rm_state \<Rightarrow> nat list \<Rightarrow> nat list \<Rightarrow> (nat \<Rightarrow> nat list) \<Rightarrow> nat \<Rightarrow> nat \<Rightarrow> bool" where
  "unlinked s s' L P F k h \<longleftrightarrow>
     k < length (slots s) \<and> relinked s s'
     \<and> (\<exists>xs ys. F k = xs @ h # ys \<and> wfs s' L P (F(k := xs @ ys)))"

lemma unlinkedI:
  "k < length (slots s) \<Longrightarrow> relinked s s' \<Longrightarrow> F k = xs @ h # ys \<Longrightarrow>
   wfs s' L P (F(k := xs @ ys)) \<Longrightarrow> unlinked s s' L P F k h"
  unfolding unlinked_def by blast

lemma unlinked_facts:
  assumes "wfs s L P F" and "unlinked s s' L P F k h"
  shows "h \<in> set L" and "\<not> in_use s h" and "rm_log2 (h_size (hdr s h)) = k"
    and "b_header (blk s (rm_block_from_header s h)) = h"
    and "hdr s' = hdr s" and "rm_block_from_header s' = rm_block_from_header s"
proof -
  from assms(2) have k: "k < length (slots s)" and h: "h \<in> set (F k)" and e: "hdr s' = hdr s"
    by (auto simp: unlinked_def relinked_def)
  from free_lists_member [OF wf_parts(6) [OF assms(1)] k h]
  show "h \<in> set L" "\<not> in_use s h" "rm_log2 (h_size (hdr s h)) = k"
    "b_header (blk s (rm_block_from_header s h)) = h"
    by (auto simp: listed_free_def in_use_def)
  show "hdr s' = hdr s" by (rule e)
  with e show "rm_block_from_header s' = rm_block_from_header s"
    by (simp add: fun_eq_iff rm_block_from_header_def)
qed

lemma wf_list_distinct:
  assumes "wfs s L P F" and "k < length (slots s)"
  shows "distinct (F k)"
proof -
  have "distinct (map (rm_block_from_header s) (F k))"
    using assms by (intro chain_null_distinct [of "bnxt s" "slots s ! k"])
      (auto simp: wfs_def free_lists_def)
  then show ?thesis by (simp add: distinct_map)
qed

lemma unlinked_off_lists:
  assumes w: "wfs s L P F" and u: "unlinked s s' L P F k h" and F': "wfs s' L P F'"
    and e: "F' = F(k := xs @ ys)" "F k = xs @ h # ys"
  shows "off_lists s' F' h"
  unfolding off_lists_def
proof (intro allI impI)
  fix j assume "j < length (slots s')"
  with u have j: "j < length (slots s)" by (simp add: unlinked_def relinked_def)
  have k: "k < length (slots s)" using u by (simp add: unlinked_def)
  show "h \<notin> set (F' j)"
  proof (cases "j = k")
    case True
    with wf_list_distinct [OF w k] e show ?thesis by auto
  next
    case False
    with listed_slot [OF w j, of h] unlinked_facts(3) [OF w u] e show ?thesis by auto
  qed
qed

lemma slot_empty_iff:
  assumes "wfs s L P F" and "k < length (slots s)"
  shows "slots s ! k = 0 \<longleftrightarrow> F k = []"
proof -
  have "chain (bnxt s) (slots s ! k) (map (rm_block_from_header s) (F k)) 0"
    using assms by (simp add: wfs_def free_lists_def)
  then show ?thesis by (cases "F k") auto
qed

lemma listed_size:
  assumes w: "wfs s L P F" and k: "k < length (slots s)" and h: "h \<in> set (F k)"
  shows "2 ^ k \<le> h_size (hdr s h)" and "h_size (hdr s h) < 2 ^ Suc k"
    and "h_size (hdr s h) \<le> int_shl1 (k + 1)" and "h \<in> set L" and "k < 31"
proof -
  show hL: "h \<in> set L" using w k h by (auto simp: wfs_def free_lists_def listed_free_def)
  have s: "0 < h_size (hdr s h)" "h_size (hdr s h) < 2 ^ 32" "h_size (hdr s h) < 2 ^ 31"
    using wf_sizes(3,5) [OF w hL] by auto
  show b: "2 ^ k \<le> h_size (hdr s h)" "h_size (hdr s h) < 2 ^ Suc k"
    using rm_log2_bounds [OF s(1,2)] listed_slot [OF w k h] by auto
  show k31: "k < 31"
  proof (rule ccontr)
    assume "\<not> k < 31"
    then have "(2::nat) ^ 31 \<le> 2 ^ k" by (intro power_increasing) auto
    with b s show False by linarith
  qed
  show "h_size (hdr s h) \<le> int_shl1 (k + 1)"
  proof (cases "k < 30")
    case True
    with b show ?thesis by simp
  next
    case False
    with k31 have "k = 30" by simp
    with b show ?thesis by (simp add: int_shl1_def)
  qed
qed

section \<open>The scans\<close>

text \<open>
  A scan stands at the first of the blocks \<open>bs\<close>, behind the blocks \<open>as\<close> that do not fit.
\<close>

lemma scan_last_slot_spec:
  assumes w: "wfs s L P F" and k: "k < length (slots s)"
  shows "F k = as @ bs \<Longrightarrow> \<forall>h\<in>set as. h_size (hdr s h) < sz \<Longrightarrow>
    chain (bnxt s) block (map (rm_block_from_header s) bs) 0 \<Longrightarrow>
    (if as = [] then block = slots s ! k else prevblock = rm_block_from_header s (last as)) \<Longrightarrow>
    length bs \<le> fuel \<Longrightarrow>
    \<exists>found s'. scan_last_slot fuel k sz block prevblock s = Inr (found, s') \<and>
      (found = 0 \<and> s' = s \<and> (\<forall>h\<in>set (F k). h_size (hdr s h) < sz) \<or>
       (\<exists>h. found = rm_block_from_header s h \<and> sz \<le> h_size (hdr s h) \<and> found \<noteq> 0
            \<and> unlinked s s' L P F k h))"
proof (induction bs arbitrary: as block prevblock fuel)
  case Nil
  then show ?case by (auto simp: scan_last_slot.simps)
next
  case (Cons h bs)
  let ?b = "rm_block_from_header s"
  have hF: "h \<in> set (F k)" using Cons.prems(1) by simp
  have l: "listed_free s L k h" using w k hF by (auto simp: wfs_def free_lists_def)
  have blk: "block = ?b h" "block \<noteq> 0" "chain (bnxt s) (bnxt s block) (map ?b bs) 0"
    using Cons.prems(3) by auto
  have bh: "b_header (blk s block) = h" using l blk by (simp add: listed_free_def)
  from Cons.prems(5) have fuel: "fuel \<noteq> 0" by auto
  show ?case
  proof (cases "sz \<le> h_size (hdr s h)")
    case False
    have "\<exists>found s'. scan_last_slot (fuel - 1) k sz (bnxt s block) block s = Inr (found, s') \<and>
      (found = 0 \<and> s' = s \<and> (\<forall>h\<in>set (F k). h_size (hdr s h) < sz) \<or>
       (\<exists>h. found = ?b h \<and> sz \<le> h_size (hdr s h) \<and> found \<noteq> 0 \<and> unlinked s s' L P F k h))"
      by (rule Cons.IH [of "as @ [h]"]) (use Cons.prems False blk in auto)
    with False bh blk(2) fuel show ?thesis by (subst scan_last_slot.simps) simp
  next
    case True
    have un: "\<exists>s'. scan_last_slot fuel k sz block prevblock s = Inr (block, s')
        \<and> unlinked s s' L P F k h"
    proof (cases as)
      case Nil
      then have first: "block = slots s ! k" and F: "F k = h # bs" using Cons.prems(1,4) by auto
      define s' where "s' = s\<lparr>slots := (slots s)[k := b_next (blk s (slots s ! k))]\<rparr>"
      have "wfs s' L P (F(k := [] @ bs))" using wf_unlink_first [OF w k F s'_def] by simp
      then have "unlinked s s' L P F k h"
        by (rule unlinkedI [rotated 3]) (use k F in \<open>auto simp: relinked_def keeps_bytes_same s'_def\<close>)
      moreover have "scan_last_slot fuel k sz block prevblock s = Inr (block, s')"
        using True bh blk(2) fuel first k
        by (subst scan_last_slot.simps) (simp add: read_slot_def write_slot_def s'_def)
      ultimately show ?thesis by blast
    next
      case (Cons a as')
      then obtain pre g where as: "as = pre @ [g]" by (metis list.simps(3) rev_exhaust)
      have F: "F k = pre @ g # h # bs" using Cons.prems(1) as by simp
      have prev: "prevblock = ?b g" using Cons.prems(4) as by simp
      define s' where "s' = upd_blk (?b g) (\<lambda>x. x\<lparr>b_next := b_next (blk s (?b h))\<rparr>) s"
      have "g \<in> set (F k)" using F by simp
      from free_lists_member [OF wf_parts(6) [OF w] k this]
      have g: "g \<in> set L" "\<not> in_use s g" by (auto simp: listed_free_def in_use_def)
      have "keeps_bytes s s'" by (rule keeps_bytes_own_cell [OF w g]) (simp add: s'_def)
      then have r: "relinked s s'" by (simp add: relinked_def s'_def)
      have "wfs s' L P (F(k := (pre @ [g]) @ bs))" using wf_unlink_later [OF w k F s'_def] by simp
      then have "unlinked s s' L P F k h"
        by (rule unlinkedI [rotated 3]) (use k F r in auto)
      moreover have "block \<noteq> slots s ! k"
      proof -
        have c: "chain (bnxt s) (slots s ! k) (map ?b (F k)) 0"
          using w k by (simp add: wfs_def free_lists_def)
        have "distinct (map ?b (F k))" using c by (rule chain_null_distinct)
        moreover have "hd (map ?b (F k)) = slots s ! k" using chain_hd [OF c] F by simp
        ultimately show ?thesis using F blk(1) by (cases pre) auto
      qed
      then have "scan_last_slot fuel k sz block prevblock s = Inr (block, s')"
        using True bh blk fuel k prev
        by (subst scan_last_slot.simps) (simp add: read_slot_def s'_def)
      ultimately show ?thesis by blast
    qed
    with True blk show ?thesis by blast
  qed
qed

text \<open>
  Where no block of the slot is too large for it, the scan of the requested size's own slot is
  the plain scan: the branch that moves a block to another slot is not taken.
\<close>

lemma scan_own_slot_plain:
  assumes "\<And>h. h \<in> set hs \<Longrightarrow> b_header (blk s (rm_block_from_header s h)) = h"
    and "\<And>h. h \<in> set hs \<Longrightarrow> h_size (hdr s h) \<le> upper"
  shows "chain (bnxt s) block (map (rm_block_from_header s) hs) 0 \<Longrightarrow>
    scan_own_slot fuel k upper sz block prevblock fallback s =
      bind_res (scan_last_slot fuel k sz block prevblock s) (\<lambda>(found, s'). Inr (found, fallback, s'))"
  using assms
proof (induction hs arbitrary: block prevblock fuel)
  case Nil
  then show ?case by (simp add: scan_own_slot.simps [of fuel] scan_last_slot.simps [of fuel])
next
  case (Cons h hs)
  then have b: "b_header (blk s block) = h" "h_size (hdr s h) \<le> upper" "block \<noteq> 0" by auto
  have IH: "scan_own_slot (fuel - 1) k upper sz (bnxt s block) block fallback s =
      bind_res (scan_last_slot (fuel - 1) k sz (bnxt s block) block s)
        (\<lambda>(found, s'). Inr (found, fallback, s'))"
    by (rule Cons.IH) (use Cons.prems in auto)
  from b IH show ?case
    by (auto simp: scan_own_slot.simps [of fuel] scan_last_slot.simps [of fuel]
        read_slot_def write_slot_def)
qed

lemma climb_slots_spec:
  assumes "k < free_block_slot_count s"
  shows "block = slots s ! k \<Longrightarrow> up = int_shl1 (k + 1) \<Longrightarrow>
    (case climb_slots k up block s of (k', up', b') \<Rightarrow>
       (b' \<noteq> 0 \<longrightarrow> k \<le> k' \<and> k' < free_block_slot_count s \<and> b' = slots s ! k'
                   \<and> up' = int_shl1 (k' + 1))
       \<and> (b' = 0 \<longrightarrow> (\<forall>j. k \<le> j \<and> j < free_block_slot_count s \<longrightarrow> slots s ! j = 0)))"
  using assms
proof (induction k up block s rule: climb_slots.induct)
  case (1 k up block s)
  show ?case
  proof (cases "block = 0")
    case False
    with 1 show ?thesis by (simp add: climb_slots.simps [of k])
  next
    case True
    show ?thesis
    proof (cases "k + 1 < free_block_slot_count s")
      case False
      with True "1.prems" have "climb_slots k up block s = (k + 1, up, 0)"
        by (simp add: climb_slots.simps [of k] climb_slots.simps [of "Suc k"])
      moreover have "j = k" if "k \<le> j" "j < free_block_slot_count s" for j
        using that False by simp
      ultimately show ?thesis using True "1.prems" by auto
    next
      case more: True
      have c: "block = 0 \<and> k < free_block_slot_count s" using True "1.prems" by simp
      have eq: "climb_slots k up block s
          = climb_slots (k + 1) (int_shl1 (k + 2)) (slots s ! (k + 1)) s"
        using c more by (subst climb_slots.simps) simp
      have IH: "case climb_slots (k + 1) (int_shl1 (k + 2)) (slots s ! (k + 1)) s of
          (k', up', b') \<Rightarrow>
           (b' \<noteq> 0 \<longrightarrow> k + 1 \<le> k' \<and> k' < free_block_slot_count s \<and> b' = slots s ! k'
                       \<and> up' = int_shl1 (k' + 1))
           \<and> (b' = 0 \<longrightarrow> (\<forall>j. k + 1 \<le> j \<and> j < free_block_slot_count s \<longrightarrow> slots s ! j = 0))"
        using "1.IH"(1) [OF c more] more by simp
      have "slots s ! j = 0"
        if "\<forall>j. k + 1 \<le> j \<and> j < free_block_slot_count s \<longrightarrow> slots s ! j = 0"
          "k \<le> j" "j < free_block_slot_count s" for j
        using that True "1.prems"(1) by (cases "j = k") auto
      with IH show ?thesis unfolding eq by (auto split: prod.splits)
    qed
  qed
qed

lemma take_first_spec:
  assumes w: "wfs s L P F" and k: "k < length (slots s)" and F: "F k = h # hs"
    and sz: "sz < 2 ^ k"
  shows "\<exists>s'. take_first k (int_shl1 (k + 1)) sz s = Inr (rm_block_from_header s h, 0, s')
    \<and> unlinked s s' L P F k h"
proof -
  let ?b = "rm_block_from_header s h"
  have hF: "h \<in> set (F k)" using F by simp
  have l: "listed_free s L k h" using w k hF by (auto simp: wfs_def free_lists_def)
  have "chain (bnxt s) (slots s ! k) (map (rm_block_from_header s) (F k)) 0"
    using w k by (simp add: wfs_def free_lists_def)
  with F have first: "slots s ! k = ?b" by simp
  define s' where "s' = s\<lparr>slots := (slots s)[k := b_next (blk s (slots s ! k))]\<rparr>"
  have "wfs s' L P (F(k := [] @ hs))" using wf_unlink_first [OF w k F s'_def] by simp
  then have u: "unlinked s s' L P F k h"
    by (rule unlinkedI [rotated 3]) (use k F in \<open>auto simp: relinked_def keeps_bytes_same s'_def\<close>)
  have "sz \<le> h_size (hdr s h)" using listed_size(1) [OF w k hF] sz by linarith
  moreover have "b_header (blk s ?b) = h" using l by (simp add: listed_free_def)
  ultimately have "take_first k (int_shl1 (k + 1)) sz s = Inr (?b, 0, s')"
    using first k listed_size(3) [OF w k hF]
    by (simp add: take_first_def read_slot_def write_slot_def s'_def)
  with u show ?thesis by blast
qed

section \<open>The search\<close>

lemma wf_list_fuel:
  assumes w: "wfs s L P F" and k: "k < length (slots s)"
  shows "length (F k) \<le> list_fuel"
proof -
  have "set (F k) \<subseteq> set L" using w k by (auto simp: wfs_def free_lists_def listed_free_def)
  then have "length (F k) \<le> length L"
    using wf_list_distinct [OF w k] wf_parts(7) [OF w] by (metis card_mono distinct_card finite_set)
  also have "length L < 2 ^ 64"
    by (rule distinct_bounded_length [OF wf_parts(7) [OF w]])
      (use wf_parts(1,4) [OF w] in \<open>fastforce simp: header_slot_def geometry_def\<close>)+
  finally show ?thesis by (simp add: list_fuel_def)
qed

lemma freeblock_search_spec:
  assumes w: "wfs s L P F" and sz: "0 < sz" "sz < 2 ^ 31" "rm_log2 sz < length (slots s)"
  shows "\<exists>found s'. freeblock_search sz s = Inr (found, 0, s') \<and>
    (found = 0 \<and> s' = s \<and> (\<forall>k<length (slots s). \<forall>h\<in>set (F k). h_size (hdr s h) < sz) \<or>
     (\<exists>h k. found = rm_block_from_header s h \<and> sz \<le> h_size (hdr s h) \<and> found \<noteq> 0
          \<and> unlinked s s' L P F k h))"
proof -
  let ?k = "rm_log2 sz" and ?b = "rm_block_from_header s"
  have lg: "2 ^ ?k \<le> sz" "sz < 2 ^ Suc ?k" "?k < 32" using rm_log2_bounds [of sz] sz by auto
  have cnt: "length (slots s) = free_block_slot_count s" using w by (simp add: wfs_def geometry_def)
  have u: "u32 (?k + 1) = ?k + 1" using lg by (intro u32_small) simp
  have small: "h_size (hdr s h) < sz" if "j < ?k" "j < length (slots s)" "h \<in> set (F j)" for j h
  proof -
    have "h_size (hdr s h) < 2 ^ Suc j" by (rule listed_size [OF w that(2,3)])
    also have "\<dots> \<le> (2::nat) ^ ?k" using that(1) by (intro power_increasing) auto
    finally show ?thesis using lg by linarith
  qed
  have scan: "\<exists>found s'. scan_last_slot list_fuel ?k sz (slots s ! ?k) (slots s ! ?k) s
        = Inr (found, s') \<and>
      (found = 0 \<and> s' = s \<and> (\<forall>h\<in>set (F ?k). h_size (hdr s h) < sz) \<or>
       (\<exists>h. found = ?b h \<and> sz \<le> h_size (hdr s h) \<and> found \<noteq> 0 \<and> unlinked s s' L P F ?k h))"
    by (rule scan_last_slot_spec [OF w sz(3), of "[]"])
      (use free_lists_chain [OF wf_parts(6) [OF w] sz(3)] wf_list_fuel [OF w sz(3)] in auto)
  show ?thesis
  proof (cases "?k + 1 = free_block_slot_count s")
    case True
    from scan obtain found s' where f: "scan_last_slot list_fuel ?k sz (slots s ! ?k) (slots s ! ?k) s
        = Inr (found, s')" and r: "found = 0 \<and> s' = s \<and> (\<forall>h\<in>set (F ?k). h_size (hdr s h) < sz) \<or>
       (\<exists>h. found = ?b h \<and> sz \<le> h_size (hdr s h) \<and> found \<noteq> 0 \<and> unlinked s s' L P F ?k h)" by blast
    have "freeblock_search sz s = Inr (found, 0, s')"
      using u f sz(3) by (simp add: freeblock_search_def read_slot_def Let_def True [symmetric])
    moreover have "h_size (hdr s h) < sz"
      if "\<forall>h\<in>set (F ?k). h_size (hdr s h) < sz" "j < length (slots s)" "h \<in> set (F j)" for j h
      using that small [of j h] True cnt by (cases "j = ?k") auto
    ultimately show ?thesis using r by blast
  next
    case False
    with sz(3) cnt have k1: "?k + 1 < free_block_slot_count s" by simp
    obtain k' up' b' where cl: "climb_slots (?k + 1) (int_shl1 (?k + 2)) (slots s ! (?k + 1)) s
        = (k', up', b')" by (metis prod_cases3)
    have cs: "(b' \<noteq> 0 \<longrightarrow> ?k + 1 \<le> k' \<and> k' < free_block_slot_count s \<and> b' = slots s ! k'
                   \<and> up' = int_shl1 (k' + 1))
       \<and> (b' = 0 \<longrightarrow> (\<forall>j. ?k + 1 \<le> j \<and> j < free_block_slot_count s \<longrightarrow> slots s ! j = 0))"
      using climb_slots_spec [OF k1, of "slots s ! (?k + 1)" "int_shl1 (?k + 2)"] cl by simp
    have start: "freeblock_search sz s =
        (if b' \<noteq> 0 then take_first k' up' sz s
         else scan_own_slot list_fuel ?k (int_shl1 (?k + 1)) sz (slots s ! ?k) (slots s ! ?k) 0 s)"
      using False u k1 cnt sz(3) cl by (simp add: freeblock_search_def read_slot_def Let_def)
    show ?thesis
    proof (cases "b' = 0")
      case False
      with cs have k': "?k + 1 \<le> k'" "k' < length (slots s)" "b' = slots s ! k'"
          "up' = int_shl1 (k' + 1)" using cnt by auto
      with False slot_empty_iff [OF w k'(2)] obtain h hs where F: "F k' = h # hs"
        by (metis list.exhaust)
      have "(2::nat) ^ Suc ?k \<le> 2 ^ k'" using k'(1) by (intro power_increasing) auto
      with lg have "sz < 2 ^ k'" by linarith
      from take_first_spec [OF w k'(2) F this] obtain s' where
        t: "take_first k' (int_shl1 (k' + 1)) sz s = Inr (?b h, 0, s')"
        and un: "unlinked s s' L P F k' h" by blast
      have hF: "h \<in> set (F k')" using F by simp
      have "sz \<le> h_size (hdr s h)"
        using listed_size(1) [OF w k'(2) hF] \<open>sz < 2 ^ k'\<close> by linarith
      moreover have "?b h \<noteq> 0"
        using block_position_pos [of s L P h] w listed_size(4) [OF w k'(2) hF]
        by (auto simp: wfs_def)
      ultimately show ?thesis using t un False k' start by auto
    next
      case True
      have own: "scan_own_slot list_fuel ?k (int_shl1 (?k + 1)) sz (slots s ! ?k) (slots s ! ?k) 0 s
          = bind_res (scan_last_slot list_fuel ?k sz (slots s ! ?k) (slots s ! ?k) s)
              (\<lambda>(found, s'). Inr (found, 0, s'))"
      proof (rule scan_own_slot_plain)
        fix h assume "h \<in> set (F ?k)"
        then show "b_header (blk s (?b h)) = h" "h_size (hdr s h) \<le> int_shl1 (?k + 1)"
          using listed_size(3) [OF w sz(3)] free_lists_member [OF wf_parts(6) [OF w] sz(3)]
          by (auto simp: listed_free_def)
      qed (rule free_lists_chain [OF wf_parts(6) [OF w] sz(3)])
      have "F j = []" if "?k < j" "j < length (slots s)" for j
        using slot_empty_iff [OF w that(2)] that cs True cnt by auto
      then have "h_size (hdr s h) < sz"
        if "\<forall>h\<in>set (F ?k). h_size (hdr s h) < sz" "j < length (slots s)" "h \<in> set (F j)" for j h
        using that small [of j h] by (cases "j < ?k"; cases "j = ?k") auto
      with scan own start True show ?thesis by fastforce
    qed
  qed
qed

end
