(* ===== verification/Rm_Malloc.thy ===== *)
theory Rm_Malloc
  imports Rm_Search
begin

text \<open>
  \<open>rm_init\<close>, \<open>rm_malloc\<close>, \<open>rm_free\<close> and the locks on well-formed states: each keeps the
  invariant, and does to the blocks of the client what its contract says.
\<close>

section \<open>Splitting and finding\<close>

text \<open>
  \<open>split_off s s' L h sz\<close>: the free block of \<open>h\<close> has been cut down to its last \<open>sz\<close> bytes, is on
  no free list, and the rest belongs to a new header; every other header of \<open>L\<close> is unchanged.
\<close>

definition split_off :: "rm_state \<Rightarrow> rm_state \<Rightarrow> nat list \<Rightarrow> nat \<Rightarrow> nat \<Rightarrow> bool" where
  "split_off s s' L h sz \<longleftrightarrow>
     sz + sizeof_free_memory_block_t \<le> h_size (hdr s h)
     \<and> h_size (hdr s' h) = sz \<and> \<not> in_use s' h
     \<and> h_memory (hdr s' h) = h_memory (hdr s h) + (h_size (hdr s h) - sz)
     \<and> (\<forall>g\<in>set L. g \<noteq> h \<longrightarrow> hdr s' g = hdr s g)
     \<and> keeps_bytes s s' \<and> (\<forall>x. spare s' x \<longrightarrow> spare s x)
     \<and> memory_bottom s' = memory_bottom s \<and> memory_top s' = memory_top s
     \<and> memory_size s' = memory_size s
     \<and> (\<exists>r Q F. r \<notin> set L \<and> \<not> in_use s' r \<and> wfs s' (r # L) Q F \<and> off_lists s' F h)"

lemma int_of_u32_diff:
  assumes "sz \<le> n" and "n < 2 ^ 31"
  shows "int_of_u32 (n + 2 ^ 32 - sz) = int (n - sz)"
proof -
  have "n + 2 ^ 32 - sz = (n - sz) + 2 ^ 32" using assms by simp
  moreover have "u32 ((n - sz) + 2 ^ 32) = n - sz"
    unfolding u32_def mod_add_self2 using assms by (intro mod_less) simp
  ultimately have u: "u32 (n + 2 ^ 32 - sz) = n - sz" by (simp only:)
  from assms have "n - sz < 2 ^ 31" by simp
  then show ?thesis unfolding int_of_u32_def u by simp
qed

lemma freeblock_shrink_spec:
  assumes w: "wfs s L P F" and h: "h \<in> set L" "\<not> in_use s h" and off: "off_lists s F h"
    and b: "b_header (blk s (rm_block_from_header s h)) = h"
    and sz: "sizeof_free_memory_block_t \<le> sz" "sz \<le> h_size (hdr s h)"
  shows "freeblock_shrink (rm_block_from_header s h) sz s = Inr (0, s)
    \<or> (\<exists>r s'. freeblock_shrink (rm_block_from_header s h) sz s = Inr (rm_block_from_header s' r, s')
        \<and> rm_block_from_header s' r \<noteq> 0 \<and> r \<notin> set L \<and> (\<exists>Q. wfs s' (r # L) Q F)
        \<and> off_lists s' F r \<and> b_header (blk s' (rm_block_from_header s' r)) = r
        \<and> \<not> in_use s' r \<and> b_header (blk s' (rm_block_from_header s h)) = h
        \<and> off_lists s' F h \<and> split_off s s' L h sz)"
proof -
  let ?b = "rm_block_from_header s h"   obtain d where dsz: "h_size (hdr s h) = d + sz" using sz(2) le_Suc_ex add.commute by metis
  have size: "h_size (hdr s h) < 2 ^ 31" using w h(1) by (rule wf_sizes)
  have diff: "int_of_u32 (block_size s ?b + 2 ^ 32 - sz) = int d"
    using int_of_u32_diff [OF sz(2) size] b dsz by simp
  have bpos: "?b \<noteq> 0" using block_position_pos [of s L P h] w h by (auto simp: wfs_def)
  obtain r s1 where hn: "header_new True s = (r, s1)" by fastforce
  consider "d < sizeof_free_memory_block_t" | "sizeof_free_memory_block_t \<le> d" "r = 0"
    | "sizeof_free_memory_block_t \<le> d" "r \<noteq> 0" by linarith
  then show ?thesis
  proof cases
    case 1
    then show ?thesis
      using bpos unfolding freeblock_shrink_def freeblock_shrink_with_header_def diff Let_def
      by simp
  next
    case 2
    then have "s1 = s" using header_new_none [of True s] hn by simp
    with 2 show ?thesis
      using bpos hn unfolding freeblock_shrink_def freeblock_shrink_with_header_def diff Let_def
      by simp
  next
    case 3
    have n: "new_header s s1 r L" using wf_header_new [OF w hn 3(2)] .
    have rL: "r \<notin> set L" using n by (rule new_headerD)
    then have rh: "r \<noteq> h" using h by auto
    have hs1: "hdr s1 h = hdr s h" using new_headerD(6) [OF n] rh by simp
    have b1: "blk s1 = blk s" by (rule new_header_frame [OF n])
    define t where "t = upd_blk (h_memory (hdr s h) + d - sizeof_free_memory_block_t)
        (\<lambda>x. x\<lparr>b_next := 0, b_header := r\<rparr>)
      (upd_hdr h (\<lambda>x. x\<lparr>h_memory := h_memory x + d, h_size := sz\<rparr>)
      (upd_hdr r (\<lambda>x. x\<lparr>h_type := BLOCK_TYPE_FREE, h_memory := h_memory (hdr s h),
                       h_size := d\<rparr>) s1))"
    note split = wf_split [OF w h off n dsz 3(1) sz(1) t_def]
    have tr: "rm_block_from_header t r = h_memory (hdr s h) + d - sizeof_free_memory_block_t"
      using rh by (simp add: t_def rm_block_from_header_def)
    have "0 < h_memory (hdr s h)" using w h(1) by (rule wf_sizes)
    then have rpos: "rm_block_from_header t r \<noteq> 0" using tr 3(1) by simp
    have bt: "blk t ?b = blk s ?b" by (rule split)
    then have bhb: "b_header (blk t ?b) = h" using b by simp
    have th: "hdr t h = (hdr s h)\<lparr>h_memory := h_memory (hdr s h) + d, h_size := sz\<rparr>"
      using rh hs1 by (simp add: t_def)
    have tother: "hdr t g = hdr s g" if "g \<in> set L" "g \<noteq> h" for g
      using that rL new_headerD(6) [OF n, of g] by (auto simp: t_def)
    have "freeblock_shrink ?b sz s = Inr (rm_block_from_header t r, t)"
    proof -
      let ?s2 = "upd_hdr h (\<lambda>x. x\<lparr>h_memory := h_memory x + d, h_size := sz\<rparr>)
        (upd_hdr r (\<lambda>x. x\<lparr>h_type := BLOCK_TYPE_FREE, h_memory := h_memory (hdr s h),
                       h_size := d\<rparr>) s1)"
      have p: "rm_block_from_header ?s2 r = rm_block_from_header t r"
        using rh by (simp add: t_def rm_block_from_header_def)
      have "block_size t ?b = sz" using bhb th by simp
      then show ?thesis
        using bpos hn 3 b b1 rh hs1 sz(1) dsz p tr
        unfolding freeblock_shrink_def freeblock_shrink_with_header_def diff Let_def
        by (simp flip: t_def)
    qed
    moreover have "\<not> in_use t r" "\<not> in_use t h"
      using h rh th by (auto simp: t_def in_use_def)
    moreover have "keeps_bytes s t"
    proof (rule keeps_bytes_cell [OF w h])
      show "h_memory (hdr s h) \<le> h_memory (hdr s h) + d - sizeof_free_memory_block_t"
        "h_memory (hdr s h) + d - sizeof_free_memory_block_t + sizeof_free_memory_block_t
         \<le> h_memory (hdr s h) + h_size (hdr s h)" using 3(1) dsz by simp_all
    qed (simp add: t_def new_header_frame(9) [OF n])
    moreover have "spare s x" if x: "spare t x" for x
      unfolding spare_def
    proof (intro conjI allI impI)
      show "memory_bottom s \<le> x" "x < memory_top s"
        using x new_header_frame(1,2) [OF n] by (simp_all add: spare_def t_def)
      fix g assume "live s g"
      then have g: "g \<in> set L" "in_use s g" "g \<noteq> h" using live_wf [OF w, of g] h(2) by auto
      from split(1) obtain Q where "wfs t (r # L) Q F" by blast
      from live_wf [OF this, of g] g tother [OF g(1,3)] have "live t g" "hdr t g = hdr s g"
        by (simp_all add: in_use_def)
      with x show "\<not> (h_memory (hdr s g) \<le> x \<and> x < h_memory (hdr s g) + h_size (hdr s g))"
        by (auto simp: spare_def)
    qed
    moreover have "split_off s t L h sz"
      unfolding split_off_def
      using calculation(4,5) sz(1) dsz 3(1) th tother \<open>\<not> in_use t h\<close> \<open>\<not> in_use t r\<close> rL split(1,2)
        new_header_frame [OF n]
      by (auto simp: t_def)
    ultimately show ?thesis using split rpos rL bhb by blast
  qed
qed

lemma freeblock_insert_spec:
  assumes w: "wfs s L P F" and h: "h \<in> set L" "\<not> in_use s h" and off: "off_lists s F h"
    and b: "b_header (blk s (rm_block_from_header s h)) = h"
  shows "\<exists>s'. freeblock_insert (rm_block_from_header s h) s = Inr s' \<and> relinked s s'
    \<and> wfs s' L P (F(rm_log2 (h_size (hdr s h)) := h # F (rm_log2 (h_size (hdr s h)))))"
proof -
  let ?b = "rm_block_from_header s h" and ?k = "rm_log2 (h_size (hdr s h))"
  have k: "?k < length (slots s)" using w h(1) by (rule wf_sizes)
  have top: "u64 (h_size (hdr s h) + h_memory (hdr s h)) < header_bottom s"
    using wf_sizes(7,8) [OF w h(1)] by (simp add: add.commute)
  define t where
    "t = (upd_blk ?b (\<lambda>x. x\<lparr>b_next := slots s ! ?k\<rparr>) s)\<lparr>slots := (slots s)[?k := ?b]\<rparr>"
  have ty: "h_type (hdr s h) = BLOCK_TYPE_FREE" using h(2) by (simp add: in_use_def)
  have "wfs t L P (F(?k := h # F ?k))"
    by (rule wf_push [OF w h(1) ty off refl refl b t_def])
  moreover have "freeblock_insert ?b s = Inr t"
    using k top b by (simp add: freeblock_insert_def read_slot_def write_slot_def Let_def t_def)
  moreover have "keeps_bytes s t" by (rule keeps_bytes_own_cell [OF w h]) (simp add: t_def)
  then have "relinked s t" by (simp add: relinked_def t_def)
  ultimately show ?thesis by blast
qed

lemma off_lists_push:
  "off_lists s F h \<Longrightarrow> g \<noteq> h \<Longrightarrow> length (slots s') = length (slots s) \<Longrightarrow>
   off_lists s' (F(k := g # F k)) h"
  by (auto simp: off_lists_def)

lemma relinked_split_off:
  assumes "split_off s s1 L h sz" and "relinked s1 s2"
    and "r \<notin> set L" and "\<not> in_use s1 r" and "wfs s2 (r # L) Q F" and "off_lists s2 F h"
  shows "split_off s s2 L h sz"
proof -
  have "keeps_bytes s s2" "\<forall>x. spare s2 x \<longrightarrow> spare s x"
    using assms(1,2) relinked_spare [OF assms(2)] keeps_bytes_trans [of s s1 s2]
    by (auto simp: split_off_def relinked_def)
  with assms show ?thesis unfolding split_off_def relinked_def in_use_def by metis
qed

lemma split_off_relinked:
  assumes "relinked s s1" and "split_off s1 s2 L h sz"
  shows "split_off s s2 L h sz"
proof -
  have "keeps_bytes s s2" "\<forall>x. spare s2 x \<longrightarrow> spare s x"
    using assms relinked_spare [OF assms(1)] keeps_bytes_trans [of s s1 s2]
    by (auto simp: split_off_def relinked_def)
  with assms show ?thesis unfolding split_off_def relinked_def by metis
qed

lemma freeblock_find_spec:
  assumes w: "wfs s L P F" and sz: "sizeof_free_memory_block_t \<le> sz" "sz < 2 ^ 31"
      "rm_log2 sz < length (slots s)"
  shows "\<exists>h s'. freeblock_find sz s = Inr (h, s') \<and>
    (h = 0 \<and> relinked s s' \<and> (\<exists>F'. wfs s' L P F')
     \<or> h \<in> set L \<and> \<not> in_use s h \<and> split_off s s' L h sz)"
proof -
  have pos: "0 < sz" using sz by simp
  obtain found s1 where f: "freeblock_search sz s = Inr (found, 0, s1)"
    and r: "found = 0 \<and> s1 = s \<and> (\<forall>k<length (slots s). \<forall>h\<in>set (F k). h_size (hdr s h) < sz) \<or>
     (\<exists>h k. found = rm_block_from_header s h \<and> sz \<le> h_size (hdr s h) \<and> found \<noteq> 0
          \<and> unlinked s s1 L P F k h)"
    using freeblock_search_spec [OF w pos sz(2,3)] by blast
  from r show ?thesis
  proof (elim disjE exE conjE)
    assume "found = 0" "s1 = s"
    then have "freeblock_find sz s = Inr (0, s)" using f by (simp add: freeblock_find_def)
    moreover have "relinked s s" by (simp add: relinked_def keeps_bytes_same)
    ultimately show ?thesis using w by blast
  next
    fix h k assume h: "found = rm_block_from_header s h" "sz \<le> h_size (hdr s h)" "found \<noteq> 0"
      and u: "unlinked s s1 L P F k h"
    note uf = unlinked_facts [OF w u]
    from u obtain xs ys where F: "F k = xs @ h # ys" and w1: "wfs s1 L P (F(k := xs @ ys))"
      and rl: "relinked s s1" unfolding unlinked_def by blast
    let ?F = "F(k := xs @ ys)"
    have off: "off_lists s1 ?F h" by (rule unlinked_off_lists [OF w u w1 refl F])
    have free: "\<not> in_use s1 h" using uf(2,5) by (simp add: in_use_def)
    have b: "b_header (blk s1 (rm_block_from_header s1 h)) = h"
      using uf(4,6) rl by (simp add: relinked_def)
    have le: "sz \<le> h_size (hdr s1 h)" using h(2) uf(5) by simp
    have fnd: "found = rm_block_from_header s1 h" using h uf(6) by simp
    from freeblock_shrink_spec [OF w1 uf(1) free off b sz(1) le]
    show ?thesis
    proof (elim disjE exE conjE)
      assume "freeblock_shrink (rm_block_from_header s1 h) sz s1 = Inr (0, s1)"
      then have "freeblock_find sz s = Inr (0, s1)"
        using f h(3) fnd by (simp add: freeblock_find_def)
      with rl w1 show ?thesis by blast
    next
      fix r t Q
      assume sh: "freeblock_shrink (rm_block_from_header s1 h) sz s1
          = Inr (rm_block_from_header t r, t)"
        and rpos: "rm_block_from_header t r \<noteq> 0" and rL: "r \<notin> set L"
        and wt: "wfs t (r # L) Q ?F" and ro: "off_lists t ?F r"
        and rb: "b_header (blk t (rm_block_from_header t r)) = r" and rf: "\<not> in_use t r"
        and hb: "b_header (blk t (rm_block_from_header s1 h)) = h"
        and ho: "off_lists t ?F h" and so: "split_off s1 t L h sz"
      let ?k = "rm_log2 (h_size (hdr t r))"
      have "r \<in> set (r # L)" by simp
      from freeblock_insert_spec [OF wt this rf ro rb] obtain t' where
        ins: "freeblock_insert (rm_block_from_header t r) t = Inr t'" and rt: "relinked t t'"
        and wt': "wfs t' (r # L) Q (?F(?k := r # ?F ?k))" by blast
      have ho': "off_lists t' (?F(?k := r # ?F ?k)) h"
        using ho rL uf(1) rt by (intro off_lists_push) (auto simp: relinked_def)
      have "freeblock_find sz s = Inr (h, t')"
        using f h(3) fnd sh rpos ins hb rt by (simp add: freeblock_find_def relinked_def)
      moreover have "split_off s t' L h sz"
        by (rule split_off_relinked [OF rl relinked_split_off [OF so rt rL rf wt' ho']])
      ultimately show ?thesis using uf(1,2) by blast
    qed
  qed
qed

section \<open>Allocation\<close>

text \<open>What the client sees of a block: its memory, its size and its type.\<close>

definition same_block :: "rm_state \<Rightarrow> rm_state \<Rightarrow> nat \<Rightarrow> bool" where
  "same_block s s' g \<longleftrightarrow>
     h_memory (hdr s' g) = h_memory (hdr s g) \<and> h_size (hdr s' g) = h_size (hdr s g)
     \<and> h_type (hdr s' g) = h_type (hdr s g)"

text \<open>The size that is used for a request, and the requests the heap's slots provide for.\<close>

definition request_size :: "nat \<Rightarrow> nat" where
  "request_size n = max n sizeof_free_memory_block_t"

definition request_ok :: "rm_state \<Rightarrow> nat \<Rightarrow> bool" where
  "request_ok s n \<longleftrightarrow> n < 2 ^ 31 \<and> rm_log2 (request_size n) < length (slots s)"

text \<open>
  \<open>allocated s s' h n\<close>: the state \<open>s'\<close> has a new live block \<open>h\<close> of the size of the request, the
  other live blocks are the same, and of the bytes only spare ones have changed.
\<close>

definition allocated :: "rm_state \<Rightarrow> rm_state \<Rightarrow> nat \<Rightarrow> nat \<Rightarrow> bool" where
  "allocated s s' h n \<longleftrightarrow>
     \<not> live s h \<and> live s' h \<and> h_size (hdr s' h) = request_size n
     \<and> h_type (hdr s' h) = BLOCK_TYPE_UNLOCKED
     \<and> (\<forall>g. g \<noteq> h \<longrightarrow> (live s' g \<longleftrightarrow> live s g) \<and> (live s g \<longrightarrow> same_block s s' g))
     \<and> keeps_bytes s s'"

definition not_allocated :: "rm_state \<Rightarrow> rm_state \<Rightarrow> bool" where
  "not_allocated s s' \<longleftrightarrow>
     (\<forall>g. (live s' g \<longleftrightarrow> live s g) \<and> (live s g \<longrightarrow> same_block s s' g)) \<and> keeps_bytes s s'"

lemma relinked_live:
  assumes "relinked s s'" and "wfs s L P F" and "wfs s' L P F'"
  shows "not_allocated s s'"
  using assms live_wf [OF assms(2)] live_wf [OF assms(3)]
  by (auto simp: not_allocated_def same_block_def relinked_def in_use_def)

lemma block_new_top:
  assumes w: "wfs s L P F" and n: "n < 2 ^ 31"
    and room: "memory_top s + request_size n + sizeof_rm_header_t < header_bottom s"
  shows "\<exists>h s'. block_new n s = Inr (h, s') \<and>
    (h = 0 \<and> s' = s \<and> fst (header_new True s) = 0
     \<or> h \<noteq> 0 \<and> h \<notin> set L \<and> wfs s' (h # L) (P @ [h]) F
       \<and> h_size (hdr s' h) = request_size n \<and> h_memory (hdr s' h) = memory_top s
       \<and> h_type (hdr s' h) = BLOCK_TYPE_UNLOCKED
       \<and> (\<forall>g. g \<noteq> h \<longrightarrow> hdr s' g = hdr s g) \<and> mem s' = mem s
       \<and> memory_top s' = memory_top s + request_size n)"
proof -
  let ?sz = "request_size n"
  obtain h s1 where hn: "header_new True s = (h, s1)" by fastforce
  have geo: "geometry s" using w by (simp add: wfs_def)
  have sz: "?sz < 2 ^ 31" "?sz < 2 ^ 32" "sizeof_free_memory_block_t \<le> ?sz"
    using n by (auto simp: request_size_def)
  have eq: "(if n < sizeof_free_memory_block_t then sizeof_free_memory_block_t else n) = ?sz"
    by (simp add: request_size_def max_def)
  have nowrap: "memory_top s + ?sz + sizeof_rm_header_t < 2 ^ 64"
    using room geo by (auto simp: geometry_def)
  show ?thesis
  proof (cases "h = 0")
    case True
    then have "s1 = s" using header_new_none [of True s] hn by simp
    with True show ?thesis
      unfolding block_new_def eq using hn room nowrap by (simp add: Let_def)
  next
    case False
    have nh: "new_header s s1 h L" using wf_header_new [OF w hn False] .
    note fr = new_header_frame [OF nh]
    define t where "t = (upd_hdr h (\<lambda>x. x\<lparr>h_size := ?sz, h_memory := memory_top s,
                    h_type := BLOCK_TYPE_UNLOCKED\<rparr>) s1)
                \<lparr>header_used_count := header_used_count s + 1, memory_top := memory_top s + ?sz\<rparr>"
    define t' where "t' = t\<lparr>highest_address_header := h\<rparr>"
    have "wfs t (h # L) (P @ [h]) F" by (rule wf_grab_top [OF w nh room sz(3) t_def])
    then have "wfs t' (h # L) (P @ [h]) F" by (rule wf_same) (simp_all add: t'_def)
    moreover have "block_new n s = Inr (h, t')"
      unfolding block_new_def eq
      using hn room nowrap False sz geo fr
      by (simp add: Let_def update_highest_address_if_needed_def t'_def t_def geometry_def)
    moreover have "hdr t' g = hdr s g" if "g \<noteq> h" for g
      using that new_headerD(6) [OF nh that] by (simp add: t'_def t_def)
    moreover have "mem t' = mem s" using fr by (simp add: t'_def t_def)
    moreover have "h \<notin> set L" using nh by (rule new_headerD)
    ultimately show ?thesis using False by (auto simp: t'_def t_def)
  qed
qed

lemma block_new_reuse:
  assumes w: "wfs s L P F" and n: "request_ok s n"
    and room: "\<not> memory_top s + request_size n + sizeof_rm_header_t < header_bottom s"
  shows "\<exists>h s'. block_new n s = Inr (h, s') \<and>
    (h = 0 \<and> relinked s s' \<and> (\<exists>F'. wfs s' L P F')
     \<or> h \<in> set L \<and> \<not> in_use s h \<and> (\<exists>r Q F'. r \<notin> set L \<and> wfs s' (r # L) Q F' \<and> \<not> in_use s' r)
       \<and> h_size (hdr s' h) = request_size n
       \<and> h_memory (hdr s' h) = h_memory (hdr s h) + (h_size (hdr s h) - request_size n)
       \<and> h_type (hdr s' h) = BLOCK_TYPE_UNLOCKED
       \<and> (\<forall>g\<in>set L. g \<noteq> h \<longrightarrow> hdr s' g = hdr s g) \<and> keeps_bytes s s'
       \<and> memory_top s' = memory_top s)"
proof -
  let ?sz = "request_size n"
  have geo: "geometry s" using w by (simp add: wfs_def)
  have sz: "?sz < 2 ^ 31" "?sz < 2 ^ 32" "sizeof_free_memory_block_t \<le> ?sz"
      "rm_log2 ?sz < length (slots s)"
    using n by (auto simp: request_size_def request_ok_def)
  have eq: "(if n < sizeof_free_memory_block_t then sizeof_free_memory_block_t else n) = ?sz"
    by (simp add: request_size_def max_def)
  have nowrap: "memory_top s + ?sz + sizeof_rm_header_t < 2 ^ 64"
    using geo sz(1) by (auto simp: geometry_def)
  have full: "\<not> u64 (memory_top s + ?sz + sizeof_rm_header_t) < header_bottom s"
    using room nowrap by simp
  obtain h s1 where f: "freeblock_find ?sz s = Inr (h, s1)"
    and r: "h = 0 \<and> relinked s s1 \<and> (\<exists>F'. wfs s1 L P F')
     \<or> h \<in> set L \<and> \<not> in_use s h \<and> split_off s s1 L h ?sz"
    using freeblock_find_spec [OF w sz(3,1,4)] by blast
  show ?thesis
  proof (cases "h = 0")
    case True
    then have "0 \<notin> set L" using w by (auto simp: wfs_def header_slot_def geometry_def)
    with True r have "relinked s s1 \<and> (\<exists>F'. wfs s1 L P F')" by auto
    moreover have "block_new n s = Inr (0, s1)"
      unfolding block_new_def eq using f True full sz(2) by (simp add: Let_def)
    ultimately show ?thesis by blast
  next
    case False
    with r have h: "h \<in> set L" "\<not> in_use s h" and so: "split_off s s1 L h ?sz" by auto
    then obtain r Q F' where rL: "r \<notin> set L" and rf: "\<not> in_use s1 r"
      and w1: "wfs s1 (r # L) Q F'" and ho: "off_lists s1 F' h"
      unfolding split_off_def by blast
    have hm: "h_memory (hdr s1 h) = h_memory (hdr s h) + (h_size (hdr s h) - ?sz)"
        "?sz + sizeof_free_memory_block_t \<le> h_size (hdr s h)" "h_size (hdr s1 h) = ?sz"
        "\<not> in_use s1 h" "memory_bottom s1 = memory_bottom s" "memory_top s1 = memory_top s"
        "keeps_bytes s s1" and other: "\<forall>g\<in>set L. g \<noteq> h \<longrightarrow> hdr s1 g = hdr s g"
      using so unfolding split_off_def by blast+
    have above: "memory_bottom s < h_memory (hdr s1 h)"
      using hm(1,2) wf_sizes(1) [OF w h(1)] by simp
    define t where "t = (upd_hdr h (\<lambda>x. x\<lparr>h_type := BLOCK_TYPE_UNLOCKED\<rparr>) s1)
        \<lparr>header_used_count := header_used_count s1 + 1\<rparr>"
    define t' where "t' = t\<lparr>free_block_hits := free_block_hits s1 + 1,
        free_block_alloc := u32 (free_block_alloc s1 + ?sz), highest_address_header := h\<rparr>"
    have "h \<in> set (r # L)" using h by simp
    then have "wfs t (r # L) Q F'"
      by (rule wf_hand_out [OF w1 _ hm(4) ho _ t_def]) simp
    then have wt: "wfs t' (r # L) Q F'" by (rule wf_same) (simp_all add: t'_def)
    have "block_new n s = Inr (h, t')"
      unfolding block_new_def eq using f False full sz(2) above hm(5)
      by (simp add: Let_def update_highest_address_if_needed_def t'_def t_def upd_hdr_def)
    moreover have "\<not> in_use t' r"
      using rf rL h by (auto simp: t'_def t_def in_use_def)
    moreover have "h_size (hdr t' h) = ?sz" "h_type (hdr t' h) = BLOCK_TYPE_UNLOCKED"
        "h_memory (hdr t' h) = h_memory (hdr s h) + (h_size (hdr s h) - ?sz)"
        "keeps_bytes s t'" "memory_top t' = memory_top s"
      using hm by (simp_all add: t'_def t_def keeps_bytes_def)
    moreover have "\<forall>g\<in>set L. g \<noteq> h \<longrightarrow> hdr t' g = hdr s g"
      using other by (simp add: t'_def t_def)
    ultimately show ?thesis using h wt rL by blast
  qed
qed

end
