(* ===== verification/Rm_Client.thy ===== *)
theory Rm_Client
  imports Rm_Malloc
begin

text \<open>
  The contracts of \<open>rm_init\<close>, \<open>rm_malloc\<close>, \<open>rm_free\<close> and the locks on well-formed states: none
  of them fails, each keeps the invariant, and each does to the blocks of the client what it
  promises. The properties of the manifest rest on them.
\<close>

section \<open>Initialisation\<close>

definition init_ok :: "nat \<Rightarrow> nat \<Rightarrow> bool" where
  "init_ok heap n \<longleftrightarrow>
     0 < heap \<and> heap + n + 2 ^ 32 \<le> 2 ^ 64 \<and> n < 2 ^ 31
     \<and> (rm_log2 n + 1) * sizeof_ptr + 2 * sizeof_rm_header_t < n"

lemma rm_init_fields:
  assumes ok: "init_ok heap n" and t_def: "t = rm_init heap n s"
  shows "memory_bottom t = heap + (rm_log2 n + 1) * sizeof_ptr"
    and "memory_top t = heap + (rm_log2 n + 1) * sizeof_ptr"
    and "memory_size t = n" and "free_block_slot_count t = rm_log2 n + 1"
    and "header_top t = heap + n - sizeof_rm_header_t"
    and "header_bottom t = heap + n - 2 * sizeof_rm_header_t"
    and "header_root t = heap + n - sizeof_rm_header_t"
    and "unused_header_root t = heap + n - sizeof_rm_header_t"
    and "header_used_count t = 0" and "slots t = replicate (rm_log2 n + 1) 0"
    and "hdr t (heap + n - sizeof_rm_header_t) = zero_header"
    and "hdr t (heap + n - 2 * sizeof_rm_header_t) = zero_header"
proof -
  let ?c = "rm_log2 n + 1"
  have n: "0 < n" "n < 2 ^ 32" using ok by (auto simp: init_ok_def)
  have c: "?c < 2 ^ 32" using rm_log2_bounds(3) [OF n] by simp
  let ?ht = "heap + n - sizeof_rm_header_t" and ?hb = "heap + n - 2 * sizeof_rm_header_t"
  have b: "u64 (heap + ?c * sizeof_ptr) = heap + ?c * sizeof_ptr"
    using ok by (intro u64_small) (auto simp: init_ok_def)
  have ht: "u64 (heap + n + 2 ^ 64 - sizeof_rm_header_t) = ?ht"
  proof -
    have "heap + n + 2 ^ 64 - sizeof_rm_header_t = ?ht + 2 ^ 64"
      using ok by (auto simp: init_ok_def)
    then have "u64 (heap + n + 2 ^ 64 - sizeof_rm_header_t) = ?ht mod 2 ^ 64"
      by (simp only: u64_def mod_add_self2)
    also have "\<dots> = ?ht" using ok by (intro mod_less) (auto simp: init_ok_def)
    finally show ?thesis .
  qed
  have hb: "u64 (?ht + 2 ^ 64 - sizeof_rm_header_t) = ?hb"
  proof -
    have "?ht + 2 ^ 64 - sizeof_rm_header_t = ?hb + 2 ^ 64"
      using ok by (auto simp: init_ok_def)
    then have "u64 (?ht + 2 ^ 64 - sizeof_rm_header_t) = ?hb mod 2 ^ 64"
      by (simp only: u64_def mod_add_self2)
    also have "\<dots> = ?hb" using ok by (intro mod_less) (auto simp: init_ok_def)
    finally show ?thesis .
  qed
  have pos: "?ht \<noteq> 0" using ok by (auto simp: init_ok_def)
  have in_heap: "heap \<le> ?ht" "?ht + sizeof_rm_header_t \<le> heap + n"
      "heap \<le> ?hb" "?hb + sizeof_rm_header_t \<le> heap + n"
    using ok by (auto simp: init_ok_def)
  have u: "u32 ?c = ?c" using c by (rule u32_small)
  have norm: "u64 (heap + (rm_log2 n * sizeof_ptr + sizeof_ptr)) = heap + ?c * sizeof_ptr"
      "u64 (heap + (sizeof_ptr + rm_log2 n * sizeof_ptr)) = heap + ?c * sizeof_ptr"
      "u64 (18446744073709551587 + (heap + n)) = ?ht" "u64 (18446744073709551587 + ?ht) = ?hb"
      "u64 (18446744073709551558 + (heap + n)) = ?hb"
    using b ht hb in_heap by (simp_all add: algebra_simps)
  show "memory_bottom t = heap + ?c * sizeof_ptr" "memory_top t = heap + ?c * sizeof_ptr"
      "memory_size t = n" "free_block_slot_count t = ?c" "header_top t = ?ht"
      "header_bottom t = ?hb" "header_root t = ?ht" "unused_header_root t = ?ht"
      "header_used_count t = 0" "slots t = replicate ?c 0" "hdr t ?ht = zero_header"
      "hdr t ?hb = zero_header"
    unfolding t_def rm_init_def u Let_def memset_heap_def
    using pos in_heap
    by (simp_all add: norm header_set_unused_alt header_clear_def)
qed

lemma rm_init_wf:
  assumes ok: "init_ok heap n"
  shows "wfs (rm_init heap n s) [] [] (\<lambda>_. [])"
proof -
  let ?ht = "heap + n - sizeof_rm_header_t"
  define t where "t = rm_init heap n s"
  note f = rm_init_fields [OF ok t_def]
  have pos: "?ht \<noteq> 0" using ok by (auto simp: init_ok_def)
  have geo: "geometry t"
    using ok by (auto simp: geometry_def f init_ok_def)
  have dvd: "header_slot t ?ht" using ok by (auto simp: header_slot_def f init_ok_def)
  show ?thesis
    unfolding wfs_def t_def [symmetric] using geo dvd pos
    by (auto simp: header_list_def unused_root_ok_def placed_def free_lists_def f zero_header_def
        Let_def nth_replicate simp del: replicate_Suc)
qed

section \<open>Requests\<close>

lemma request_ok_within:
  assumes w: "wfs s L P F" and n: "n \<le> memory_size s" "sizeof_free_memory_block_t \<le> memory_size s"
  shows "request_ok s n"
proof -
  have g: "geometry s" using w by (rule wf_parts)
  then have lt: "n < 2 ^ 31" "memory_size s < 2 ^ 32" using n by (auto simp: geometry_def)
  have "rm_log2 (request_size n) \<le> rm_log2 (memory_size s)"
    using n lt by (intro rm_log2_mono) (auto simp: request_size_def)
  with g lt show ?thesis by (simp add: request_ok_def geometry_def)
qed

lemma same_header: "hdr s' g = hdr s g \<Longrightarrow> same_block s s' g \<and> in_use s' g = in_use s g"
  by (simp add: same_block_def in_use_def)

lemma rm_malloc_wf:
  assumes w: "wfs s L P F" and n: "0 \<le> n" "request_ok s (nat n)"
  shows "\<exists>h s'. rm_malloc n s = Inr (h, s') \<and> well_formed s'
    \<and> (h = 0 \<and> not_allocated s s' \<or> h \<noteq> 0 \<and> allocated s s' h (nat n))"
proof -
  let ?n = "nat n"
  have lt: "?n < 2 ^ 31" using n(2) by (simp add: request_ok_def)
  then have m: "rm_malloc n s = block_new ?n s"
    using n(1) by (simp add: rm_malloc_def uintptr_of_int_nonneg)
  have zero: "0 \<notin> set L" using w by (auto simp: wfs_def header_slot_def geometry_def)
  show ?thesis
  proof (cases "memory_top s + request_size ?n + sizeof_rm_header_t < header_bottom s")
    case True
    from block_new_top [OF w lt True] obtain h s' where b: "block_new ?n s = Inr (h, s')"
      and r: "h = 0 \<and> s' = s \<or> h \<noteq> 0 \<and> h \<notin> set L \<and> wfs s' (h # L) (P @ [h]) F
       \<and> h_size (hdr s' h) = request_size ?n \<and> h_memory (hdr s' h) = memory_top s
       \<and> h_type (hdr s' h) = BLOCK_TYPE_UNLOCKED
       \<and> (\<forall>g. g \<noteq> h \<longrightarrow> hdr s' g = hdr s g) \<and> mem s' = mem s
       \<and> memory_top s' = memory_top s + request_size ?n" by blast
    from r show ?thesis
    proof (elim disjE conjE)
      assume "h = 0" "s' = s"
      then show ?thesis using b m w by (auto simp: not_allocated_def same_block_def well_formed_def keeps_bytes_same)
    next
      assume h: "h \<noteq> 0" "h \<notin> set L" and w': "wfs s' (h # L) (P @ [h]) F"
        and sz: "h_size (hdr s' h) = request_size ?n"
        and ty: "h_type (hdr s' h) = BLOCK_TYPE_UNLOCKED"
        and other: "\<forall>g. g \<noteq> h \<longrightarrow> hdr s' g = hdr s g" and me: "mem s' = mem s"
      have "\<forall>g. g \<noteq> h \<longrightarrow> same_block s s' g \<and> in_use s' g = in_use s g"
        using other same_header by blast
      moreover have "in_use s' h" using ty by (simp add: in_use_def)
      ultimately have "allocated s s' h ?n"
        unfolding allocated_def live_wf [OF w] live_wf [OF w']
        using h sz ty keeps_bytes_same [OF me] by auto
      moreover have "rm_malloc n s = Inr (h, s')" using b m by simp
      ultimately show ?thesis using w' h(1) unfolding well_formed_def by blast
    qed
  next
    case False
    from block_new_reuse [OF w n(2) False] obtain h s' where b: "block_new ?n s = Inr (h, s')"
      and r: "h = 0 \<and> relinked s s' \<and> (\<exists>F'. wfs s' L P F')
       \<or> h \<in> set L \<and> \<not> in_use s h
       \<and> (\<exists>r Q F'. r \<notin> set L \<and> wfs s' (r # L) Q F' \<and> \<not> in_use s' r)
       \<and> h_size (hdr s' h) = request_size ?n
       \<and> h_memory (hdr s' h) = h_memory (hdr s h) + (h_size (hdr s h) - request_size ?n)
       \<and> h_type (hdr s' h) = BLOCK_TYPE_UNLOCKED
       \<and> (\<forall>g\<in>set L. g \<noteq> h \<longrightarrow> hdr s' g = hdr s g) \<and> keeps_bytes s s'
       \<and> memory_top s' = memory_top s" by blast
    from r show ?thesis
    proof (elim disjE conjE exE)
      fix F' assume "h = 0" "relinked s s'" and w': "wfs s' L P F'"
      with relinked_live [OF _ w w'] have "h = 0 \<and> not_allocated s s'" by blast
      moreover have "rm_malloc n s = Inr (h, s')" using b m by simp
      ultimately show ?thesis using w' unfolding well_formed_def by blast
    next
      fix r Q F' assume h: "h \<in> set L" "\<not> in_use s h" and rL: "r \<notin> set L" "\<not> in_use s' r"
        and w': "wfs s' (r # L) Q F'"
        and sz: "h_size (hdr s' h) = request_size ?n"
        and ty: "h_type (hdr s' h) = BLOCK_TYPE_UNLOCKED"
        and other: "\<forall>g\<in>set L. g \<noteq> h \<longrightarrow> hdr s' g = hdr s g" and me: "keeps_bytes s s'"
      have "h \<noteq> 0" using h(1) zero by metis
      moreover have "allocated s s' h ?n"
      proof -
        have "\<forall>g\<in>set L. g \<noteq> h \<longrightarrow> same_block s s' g \<and> in_use s' g = in_use s g"
          using other same_header by blast
        moreover have "in_use s' h" using ty by (simp add: in_use_def)
        ultimately show ?thesis
          unfolding allocated_def live_wf [OF w] live_wf [OF w']
          using h sz ty me rL by auto
      qed
      moreover have "rm_malloc n s = Inr (h, s')" using b m by simp
      ultimately show ?thesis using w' unfolding well_formed_def by blast
    qed
  qed
qed

section \<open>Freeing\<close>

text \<open>
  \<open>released s s' h\<close>: the block \<open>h\<close> has ended and is free, the others are the same, and of the bytes
  only the last sixteen of \<open>h\<close> may have changed, which hold its cell.
\<close>

definition released :: "rm_state \<Rightarrow> rm_state \<Rightarrow> nat \<Rightarrow> bool" where
  "released s s' h \<longleftrightarrow>
     \<not> live s' h \<and> h_type (hdr s' h) = BLOCK_TYPE_FREE \<and> extent s' h = extent s h
     \<and> (\<forall>g. g \<noteq> h \<longrightarrow> (live s' g \<longleftrightarrow> live s g) \<and> same_block s s' g)
     \<and> (\<forall>x. mem s' x \<noteq> mem s x \<longrightarrow>
          h_memory (hdr s h) + h_size (hdr s h) \<le> x + sizeof_free_memory_block_t
          \<and> x < h_memory (hdr s h) + h_size (hdr s h))"

lemma block_free_wf:
  assumes w: "wfs s L P F" and h: "live s h"
  shows "\<exists>s' F'. block_free h s = Inr (h, s') \<and> wfs s' L P F' \<and> released s s' h
    \<and> F' = F(rm_log2 (h_size (hdr s h)) := h # F (rm_log2 (h_size (hdr s h))))"
proof -
  let ?b = "rm_block_from_header s h" and ?k = "rm_log2 (h_size (hdr s h))"
  from h live_wf [OF w] have hL: "h \<in> set L" "in_use s h" by auto
  have h0: "h \<noteq> 0" using w hL by (auto simp: wfs_def header_slot_def geometry_def)
  define t where "t = (upd_blk ?b (\<lambda>x. x\<lparr>b_header := h, b_next := 0\<rparr>)
                  (upd_hdr h (\<lambda>x. x\<lparr>h_type := BLOCK_TYPE_FREE\<rparr>) s))
                \<lparr>header_used_count := header_used_count s - 1\<rparr>"
  note mf = wf_mark_free [OF w hL t_def]
  have pos: "rm_block_from_header t h = ?b" by (simp add: t_def rm_block_from_header_def)
  have ty: "h_type (hdr t h) = BLOCK_TYPE_FREE" by (simp add: t_def)
  have sz: "h_size (hdr t h) = h_size (hdr s h)" by (simp add: t_def)
  define t' where "t' = (upd_blk ?b (\<lambda>x. x\<lparr>b_next := slots t ! ?k\<rparr>) t)
      \<lparr>slots := (slots t)[?k := ?b]\<rparr>"
  have w': "wfs t' L P (F(?k := h # F ?k))"
    by (rule wf_push [OF mf(1) hL(1) ty mf(2) sz [symmetric, THEN arg_cong] _ _ t'_def])
      (use mf(3) pos in simp_all)
  have k: "?k < length (slots s)" using w hL(1) by (rule wf_sizes)
  have nw: "u64 (h_size (hdr s h) + h_memory (hdr s h)) < header_bottom s"
    using wf_sizes(7,8) [OF w hL(1)] by (simp add: add.commute)
  have "block_free h s = Inr (h, t')"
    using h0 hL(2) k nw
    by (simp add: block_free_def in_use_def Let_def read_slot_def write_slot_def t'_def t_def
        upd_blk_def upd_hdr_def)
  moreover have "released s t' h"
  proof -
    have "16 \<le> h_size (hdr s h)" using wf_sizes(3) [OF w hL(1)] .
    then have "h_memory (hdr s h) + h_size (hdr s h) \<le> x + 16 \<and> x < h_memory (hdr s h) + h_size (hdr s h)"
      if "mem t' x \<noteq> mem s x" for x
      using that by (auto simp: t'_def t_def store_cell_def rm_block_from_header_def split: if_splits)
    then show ?thesis
      unfolding released_def live_wf [OF w] live_wf [OF w']
      using hL by (auto simp: t'_def t_def in_use_def same_block_def extent_def)
  qed
  ultimately show ?thesis using w' by blast
qed

lemma rm_free_wf:
  assumes "well_formed s" and "live s h"
  shows "\<exists>s'. rm_free h s = Inr s' \<and> well_formed s' \<and> released s s' h"
  using assms block_free_wf unfolding well_formed_def rm_free_def by fastforce

section \<open>Locking\<close>

text \<open>Nothing but the type of the block \<open>h\<close> has changed.\<close>

definition locked_as :: "rm_state \<Rightarrow> rm_state \<Rightarrow> nat \<Rightarrow> rm_block_type_t \<Rightarrow> bool" where
  "locked_as s s' h t \<longleftrightarrow>
     s' = s\<lparr>hdr := (hdr s)(h := (hdr s h)\<lparr>h_type := t\<rparr>)\<rparr> \<and> (\<forall>g. live s' g \<longleftrightarrow> live s g)"

lemma retype_locked_as:
  assumes w: "wfs s L P F" and h: "live s h" and t: "t \<noteq> BLOCK_TYPE_FREE"
  shows "h \<noteq> 0" and "wfs (upd_hdr h (\<lambda>x. x\<lparr>h_type := t\<rparr>) s) L P F"
    and "locked_as s (upd_hdr h (\<lambda>x. x\<lparr>h_type := t\<rparr>) s) h t"
proof -
  from h live_wf [OF w] have hL: "h \<in> set L" "in_use s h" by auto
  show "h \<noteq> 0" using w hL by (auto simp: wfs_def header_slot_def geometry_def)
  show w': "wfs (upd_hdr h (\<lambda>x. x\<lparr>h_type := t\<rparr>) s) L P F" by (rule wf_retype [OF w hL t])
  show "locked_as s (upd_hdr h (\<lambda>x. x\<lparr>h_type := t\<rparr>) s) h t"
    unfolding locked_as_def live_wf [OF w] live_wf [OF w']
    using hL t by (auto simp: in_use_def upd_hdr_def)
qed

lemma rm_lock_wf:
  assumes "well_formed s" and "live s h"
  shows "\<exists>s'. rm_lock h s = Inr (h_memory (hdr s h), s') \<and> well_formed s'
    \<and> locked_as s s' h BLOCK_TYPE_LOCKED"
  using assms retype_locked_as [of s _ _ _ h BLOCK_TYPE_LOCKED]
  unfolding well_formed_def rm_lock_def by fastforce

lemma rm_weaklock_wf:
  assumes "well_formed s" and "live s h"
  shows "\<exists>s'. rm_weaklock h s = Inr (h_memory (hdr s h), s') \<and> well_formed s'
    \<and> locked_as s s' h BLOCK_TYPE_WEAK_LOCKED"
  using assms retype_locked_as [of s _ _ _ h BLOCK_TYPE_WEAK_LOCKED]
  unfolding well_formed_def rm_weaklock_def by fastforce

lemma rm_unlock_wf:
  assumes "well_formed s" and "live s h"
  shows "\<exists>s'. rm_unlock h s = Inr s' \<and> well_formed s'
    \<and> locked_as s s' h BLOCK_TYPE_UNLOCKED"
  using assms retype_locked_as [of s _ _ _ h BLOCK_TYPE_UNLOCKED]
  unfolding well_formed_def rm_unlock_def by fastforce

end
