(* ===== verification/Rm_Compacted.thy ===== *)
theory Rm_Compacted
  imports Rm_Finish Rm_Client
begin

text \<open>
  \<open>rm_compact\<close> as a whole: from a well-formed state with a block in use, compaction returns a state
  that is well formed up to the header on offer, with the same blocks in use and the same bytes in
  them; it fails only when a header is missing.
\<close>

section \<open>The last part\<close>

text \<open>
  Shrinking the header array can pass the header on offer, which \<open>rm_compact\<close> does not withdraw.
  \<open>withdraw_unused\<close> is the state with that header withdrawn.
\<close>

definition withdraw_unused :: "rm_state \<Rightarrow> rm_state" where
  "withdraw_unused s =
     s\<lparr>unused_header_root :=
         (if unused_header_root s < header_bottom s then 0 else unused_header_root s)\<rparr>"

lemma withdraw_unused_sel [simp]:
  "hdr (withdraw_unused s) = hdr s" "blk (withdraw_unused s) = blk s"
  "mem (withdraw_unused s) = mem s" "slots (withdraw_unused s) = slots s"
  "memory_bottom (withdraw_unused s) = memory_bottom s"
  "memory_top (withdraw_unused s) = memory_top s" "memory_size (withdraw_unused s) = memory_size s"
  "free_block_slot_count (withdraw_unused s) = free_block_slot_count s"
  "header_top (withdraw_unused s) = header_top s"
  "header_bottom (withdraw_unused s) = header_bottom s"
  "header_root (withdraw_unused s) = header_root s"
  "header_used_count (withdraw_unused s) = header_used_count s"
  by (simp_all add: withdraw_unused_def)

lemma split_last_used:
  assumes "h \<in> set L" and "in_use s h"
  obtains D u E where "L = D @ u # E" and "in_use s u" and "\<forall>x\<in>set E. is_free s x"
proof -
  from assms have "\<exists>x\<in>set L. in_use s x" by blast
  from split_list_last_prop [OF this] show thesis using that by (auto simp: in_use_is_free)
qed

text \<open>The state before the free lists are rebuilt.\<close>

definition pruned :: "rm_state \<Rightarrow> nat list \<Rightarrow> nat \<Rightarrow> nat \<Rightarrow> rm_state" where
  "pruned s E u n =
     (upd_hdr u (\<lambda>x. x\<lparr>h_next := 0\<rparr>) (prune_state E s))\<lparr>header_bottom := n\<rparr>"

lemma prune_state_sel:
  assumes "E = [] \<or> hd E \<noteq> 0"
  shows "heap_frame s (prune_state E s)" and "mem (prune_state E s) = mem s"
    and "header_bottom (prune_state E s) = header_bottom s"
    and "header_root (prune_state E s) = header_root s"
    and "unused_header_root (prune_state E s) = (if E = [] then unused_header_root s else hd E)"
    and "h \<notin> set E \<Longrightarrow> hdr (prune_state E s) h = hdr s h"
    and "E \<noteq> [] \<Longrightarrow> h_memory (hdr (prune_state E s) (hd E)) = 0
      \<and> h_next (hdr (prune_state E s) (hd E)) = 0 \<and> h_next_unused (hdr (prune_state E s) (hd E)) = 0"
  using assms by (cases E; simp add: prune_state_def heap_frame_def)+

lemma pruned_facts:
  assumes cs: "cstate s L" and L: "L = D @ u # E" and u: "in_use s u"
    and E: "\<forall>x\<in>set E. is_free s x"
    and n: "header_bottom s \<le> n" "n \<le> header_top s" "sizeof_rm_header_t dvd header_top s - n"
      "\<And>h. h \<in> set (D @ [u]) \<Longrightarrow> n \<le> h"
    and t: "hdr t = hdr (pruned s E u n)" "header_root t = header_root s" "header_bottom t = n"
      "unused_header_root t = unused_header_root (pruned s E u n)" "memory_bottom t = memory_bottom s"
      "memory_top t = h_memory (hdr s u) + h_size (hdr s u)" "memory_size t = memory_size s"
      "free_block_slot_count t = free_block_slot_count s" "header_top t = header_top s"
      "header_used_count t = header_used_count s" "length (slots t) = length (slots s)"
    and fl: "free_lists t (D @ [u]) F"
  shows "wfs (withdraw_unused t) (D @ [u]) (D @ [u]) F"
proof -
  let ?L = "D @ [u]" and ?t = "withdraw_unused t"
  note cp = cstate_parts [OF cs]
  have uE: "E = [] \<or> hd E \<noteq> 0" using cp(10) [of "hd E"] unfolding L by (cases E) auto
  note ps = prune_state_sel [OF uE]
  have d: "distinct L" by (rule cp(7))
  have hh: "hdr t h = (if h = u then (hdr s u)\<lparr>h_next := 0\<rparr> else hdr s h)" if "h \<notin> set E" for h
    using ps(6) [of h s] ps(6) [of u s] that d unfolding L by (auto simp: t(1) pruned_def)
  have nE: "h \<notin> set E" if "h \<in> set ?L" for h using that d unfolding L by (auto simp: disjoint_iff)
  have sz: "h_size (hdr t h) = h_size (hdr s h)" "h_memory (hdr t h) = h_memory (hdr s h)"
      "h_type (hdr t h) = h_type (hdr s h)" if "h \<in> set ?L" for h
    using hh [OF nE [OF that]] by auto
  have tl: "tiled (memory_bottom s) (memory_top s) (map (extent s) ((D @ [u]) @ E))"
    using cp(8) unfolding L by simp
  then obtain m where m: "tiled (memory_bottom s) m (map (extent s) ?L)"
      "tiled m (memory_top s) (map (extent s) E)" unfolding tiled_segments by blast
  have mu: "m = h_memory (hdr s u) + h_size (hdr s u)" using m(1) by (auto simp: tiled_append)
  have le: "memory_bottom s \<le> m" "m \<le> memory_top s" using m by (auto dest: tiled_le)
  have geo: "geometry ?t"
    using cp(1) le n(1-3) unfolding geometry_def by (simp add: t mu)
  have pl: "placed ?t ?L ?L"
  proof -
    have e: "map (extent ?t) ?L = map (extent s) ?L"
      using sz by (intro map_cong) (simp_all add: extent_def)
    have "tiled (memory_bottom ?t) (memory_top ?t) (map (extent ?t) ?L)"
      unfolding e using m(1) by (simp only: t withdraw_unused_sel mu)
    moreover have "sizeof_free_memory_block_t \<le> h_size (hdr ?t h)" if "h \<in> set ?L" for h
      using sz(1) [OF that] cp(9) [of h] that unfolding L by auto
    ultimately show ?thesis unfolding placed_def by blast
  qed
  have ch: "chain (nxt ?t) (header_root ?t) ?L 0"
  proof -
    have "chain (nxt s) (header_root s) ((D @ [u]) @ E) 0" using cp(3) unfolding L by simp
    then obtain r where "chain (nxt s) (header_root s) ?L r" unfolding chain_append by blast
    moreover have "distinct ?L" using d unfolding L by auto
    moreover have "nxt t x = nxt s x" if "x \<in> set ?L" "x \<noteq> last ?L" for x
      using hh [OF nE [OF that(1)]] that by auto
    moreover have "nxt t (last ?L) = 0" using hh [OF nE [of u]] by simp
    ultimately show ?thesis using chain_segment [of "nxt s" "header_root s" ?L r "nxt t" 0]
      by (simp add: t)
  qed
  have slot: "header_slot ?t h" if "h \<in> set ?L" for h
  proof -
    have "header_slot s h" using that cp(5) unfolding L by auto
    with n(4) [OF that] show ?thesis by (simp add: header_slot_def t)
  qed
  have use: "length (filter (in_use ?t) ?L) = length (filter (in_use s) L)"
  proof -
    have "filter (in_use ?t) ?L = filter (in_use s) ?L"
      using sz(3) by (intro filter_cong) (simp_all add: in_use_def)
    moreover have "filter (in_use s) E = []" using E by (auto simp: filter_empty_conv in_use_is_free)
    ultimately show ?thesis unfolding L by simp
  qed
  have un: "unused_root_ok ?t"
  proof (cases "unused_header_root t < n")
    case True
    then show ?thesis by (simp add: unused_root_ok_def withdraw_unused_def t(3) Let_def)
  next
    case False
    let ?r = "unused_header_root t"
    have r: "?r = (if E = [] then unused_header_root s else hd E)"
      by (simp add: t(4) pruned_def ps(5))
    have "?r = 0 \<or> header_slot s ?r \<and> h_memory (hdr t ?r) = 0 \<and> h_next (hdr t ?r) = 0
        \<and> h_next_unused (hdr t ?r) = 0"
    proof (cases "E = []")
      case True
      have "?r = 0 \<or> header_slot s ?r \<and> h_memory (hdr s ?r) = 0 \<and> h_next (hdr s ?r) = 0
          \<and> h_next_unused (hdr s ?r) = 0"
        using cp(4) r True by (simp add: unused_root_ok_def Let_def)
      moreover have "?r \<noteq> 0 \<Longrightarrow> ?r \<noteq> u"
        using calculation cp(11) [of u] unfolding L by auto
      ultimately show ?thesis using hh [of ?r] True by auto
    next
      case E': False
      then have "hd E \<in> set L" "hd E \<noteq> u" using d unfolding L by (auto simp: neq_Nil_conv)
      moreover have "hdr t (hd E) = hdr (prune_state E s) (hd E)"
        using \<open>hd E \<noteq> u\<close> by (simp add: t(1) pruned_def)
      ultimately show ?thesis using r E' cp(5) ps(7) [OF E', of s] by simp
    qed
    with False show ?thesis
      by (auto simp: unused_root_ok_def withdraw_unused_def header_slot_def t(3,9) Let_def)
  qed
  have flw: "free_lists ?t ?L F"
  proof -
    have "rm_block_from_header ?t = rm_block_from_header t"
      by (simp add: fun_eq_iff rm_block_from_header_def)
    moreover have "listed_free ?t = listed_free t"
      using calculation by (intro ext) (simp add: listed_free_def)
    ultimately show ?thesis using fl by (simp add: free_lists_def)
  qed
  have hl: "header_list ?t ?L" using ch by (simp add: header_list_def)
  have "header_used_count ?t = int (length (filter (in_use ?t) ?L))"
    unfolding use using cs by (simp add: cstate_def t)
  with geo hl un slot pl flw show ?thesis unfolding wfs_def by blast
qed

lemma compact_finish_spec:
  assumes cs: "cstate s L" and L: "L = D @ u # E" and u: "in_use s u"
    and E: "\<forall>x\<in>set E. is_free s x"
  shows "\<exists>s' F. compact_finish s = Inr s' \<and> wfs (withdraw_unused s') (D @ [u]) (D @ [u]) F
    \<and> cells_only s (D @ [u]) (mem s') \<and> (\<forall>h\<in>set (D @ [u]). extent s' h = extent s h
        \<and> h_type (hdr s' h) = h_type (hdr s h))
    \<and> memory_bottom s' = memory_bottom s
    \<and> memory_top s' = h_memory (hdr s u) + h_size (hdr s u)
    \<and> unused_header_root s' = (if E = [] then unused_header_root s else hd E)
    \<and> header_bottom s \<le> header_bottom s' \<and> header_slot s' (header_bottom s')
    \<and> \<not> rm_header_is_unused s' (header_bottom s') \<and> header_top s' = header_top s
    \<and> (E \<noteq> [] \<longrightarrow> h_memory (hdr s' (hd E)) = 0) \<and> (\<forall>h. h \<notin> set L \<longrightarrow> hdr s' h = hdr s h)"
proof -
  let ?top = "h_memory (hdr s u) + h_size (hdr s u)" and ?L = "D @ [u]"
  let ?s1 = "prune_state E s" and ?s2 = "upd_hdr u (\<lambda>x. x\<lparr>h_next := 0\<rparr>) (prune_state E s)"
  note cp = cstate_parts [OF cs] and cz = cstate_sizes [OF cs]
  have c: "chain (nxt s) (header_root s) (D @ u # E) 0" and len: "length (D @ u # E) < 2 ^ 31"
    using cp(3) cz(3) unfolding L by simp_all
  have fuel: "length (D @ u # E) \<le> list_fuel" "length ((D @ [u]) @ E) < list_fuel"
    using len by (auto simp: list_fuel_def)
  have uE: "E = [] \<or> hd E \<noteq> 0" using cp(10) [of "hd E"] unfolding L by (cases E) auto
  note ps = prune_state_sel [OF uE]
  have d: "distinct L" and u0: "u \<noteq> 0" using cp(7,10) unfolding L by simp_all
  have hu: "highest_used list_fuel (memory_bottom s) (header_root s) (header_root s) s = Inr (?top, u)"
    by (rule highest_used_spec [OF c fuel(1) _ le_refl cp(14,13) _ u E])
      (use cp(8,9) in \<open>fastforce simp: L\<close>)+
  have tl: "tiled (memory_bottom s) (memory_top s) (map (extent s) ((D @ [u]) @ E))"
    using cp(8) unfolding L by simp
  then obtain m where m: "tiled (memory_bottom s) m (map (extent s) ?L)"
      "tiled m (memory_top s) (map (extent s) E)" unfolding tiled_segments by blast
  have mu: "m = ?top" using m(1) by (auto simp: tiled_append)
  have low: "in_use s x \<or> h_memory (hdr s x) < ?top" if "x \<in> set ?L" for x
  proof -
    have "extent s x \<in> set (map (extent s) ?L)" using that unfolding set_map by (rule imageI)
    from tiled_bounds [OF m(1) this] cp(9) [of x] that mu show ?thesis unfolding L by auto
  qed
  have high: "is_free s x \<and> ?top \<le> h_memory (hdr s x) \<and> h_memory (hdr s x) \<noteq> 0"
    if "x \<in> set E" for x
  proof -
    have "extent s x \<in> set (map (extent s) E)" using that by simp
    from tiled_bounds [OF m(2) this] cp(11) [of x] E that mu show ?thesis unfolding L by auto
  qed
  have pr: "prune_free_blocks list_fuel ?top (header_root s) s = Inr ?s1"
    by (rule prune_free_blocks_spec [of s _ "D @ [u]"]) (use c fuel(2) low high in auto)
  have nE: "h \<notin> set E" if "h \<in> set ?L" for h using that d unfolding L by (auto simp: disjoint_iff)
  have hh: "hdr ?s2 h = (if h = u then (hdr s u)\<lparr>h_next := 0\<rparr> else hdr s h)" if "h \<in> set ?L" for h
    using ps(6) [OF nE [OF that], of s] ps(6) [OF nE [of u], of s] by simp
  have bot: "header_bottom ?s2 = header_bottom s" "header_top ?s2 = header_top s"
    using ps(1,3) [of s] by (simp_all add: heap_frame_def)
  have slot: "header_slot ?s2 h \<and> h_memory (hdr ?s2 h) \<noteq> 0" if "h \<in> set ?L" for h
    using hh [OF that] cp(5,11) [of h] that bot unfolding L by (auto simp: header_slot_def)
  have "\<exists>n. raise_header_bottom ?s2 = Inr (?s2\<lparr>header_bottom := n\<rparr>) \<and> header_bottom ?s2 \<le> n
      \<and> n \<le> header_top ?s2 \<and> sizeof_rm_header_t dvd header_top ?s2 - n \<and> \<not> rm_header_is_unused ?s2 n
      \<and> (\<forall>g. header_slot ?s2 g \<and> h_memory (hdr ?s2 g) \<noteq> 0 \<longrightarrow> n \<le> g)"
    by (rule raise_header_bottom_spec [of _ u])
      (use slot [of u] bot cp(1) in \<open>simp_all add: geometry_def\<close>)
  then obtain n where n: "raise_header_bottom ?s2 = Inr (?s2\<lparr>header_bottom := n\<rparr>)"
      "header_bottom s \<le> n" "n \<le> header_top s" "sizeof_rm_header_t dvd header_top s - n"
      "\<And>g. g \<in> set ?L \<Longrightarrow> n \<le> g" "\<not> rm_header_is_unused ?s2 n"
    using slot unfolding bot by blast
  let ?s3 = "pruned s E u n"
  have s3: "raise_header_bottom ?s2 = Inr ?s3" using n(1) by (simp only: pruned_def)
  have h3: "hdr ?s3 = hdr ?s2" by (simp add: pruned_def)
  have fr3: "memory_bottom ?s3 = memory_bottom s" "memory_top ?s3 = memory_top s"
      "memory_size ?s3 = memory_size s" "header_top ?s3 = header_top s"
      "free_block_slot_count ?s3 = free_block_slot_count s" "header_root ?s3 = header_root s"
      "header_used_count ?s3 = header_used_count s" "header_bottom ?s3 = n" "mem ?s3 = mem s"
    using ps(1,2,4) [of s] by (simp_all add: pruned_def heap_frame_def)
  define r where "r = ?s3\<lparr>slots := replicate (free_block_slot_count s) 0\<rparr>"
  have count: "free_block_slot_count s = length (slots s)" "length (slots s) = rm_log2 (memory_size s) + 1"
    using cp(1) by (simp_all add: geometry_def)
  have rh: "hdr r h = (if h = u then (hdr s u)\<lparr>h_next := 0\<rparr> else hdr s h)" if "h \<in> set ?L" for h
    using hh [OF that] by (simp add: r_def h3)
  have cr: "chain (nxt r) (header_root s) ?L 0"
  proof -
    have "chain (nxt s) (header_root s) ((D @ [u]) @ E) 0" using c by simp
    then obtain q where "chain (nxt s) (header_root s) ?L q" unfolding chain_append by blast
    moreover have "distinct ?L" using d unfolding L by auto
    moreover have "nxt r x = nxt s x" if "x \<in> set ?L" "x \<noteq> last ?L" for x
      using rh [OF that(1)] that by auto
    moreover have "nxt r (last ?L) = 0" using rh [of u] by simp
    ultimately show ?thesis using chain_segment [of "nxt s" "header_root s" ?L q "nxt r" 0] by simp
  qed
  have same: "h_size (hdr r h) = h_size (hdr s h)" "h_memory (hdr r h) = h_memory (hdr s h)"
      "h_type (hdr r h) = h_type (hdr s h)" if "h \<in> set ?L" for h
    using rh [OF that] by simp_all
  have posr: "rm_block_from_header r h = rm_block_from_header s h" if "h \<in> set ?L" for h
    using same [OF that] by (simp add: rm_block_from_header_def)
  have fl0: "free_lists r ?L (rebuilt r [])"
    by (simp add: free_lists_def rebuilt_simps r_def)
  have ds: "distinct ?L \<and> (\<forall>g\<in>set ?L. \<forall>h\<in>set ?L. g \<noteq> h \<longrightarrow>
      rm_block_from_header r g + sizeof_free_memory_block_t \<le> rm_block_from_header r h
      \<or> rm_block_from_header r h + sizeof_free_memory_block_t \<le> rm_block_from_header r g)"
  proof (intro conjI ballI impI)
    show "distinct ?L" using d unfolding L by auto
    fix g h assume g: "g \<in> set ?L" "h \<in> set ?L" "g \<noteq> h"
    then have "g \<in> set L" "h \<in> set L" unfolding L by auto
    from cells_apart [OF cp(6,7) this g(3)] posr [OF g(1)] posr [OF g(2)]
    show "rm_block_from_header r g + sizeof_free_memory_block_t \<le> rm_block_from_header r h
      \<or> rm_block_from_header r h + sizeof_free_memory_block_t \<le> rm_block_from_header r g" by simp
  qed
  have ok: "\<forall>x\<in>set ?L. h_memory (hdr r x) \<noteq> 0 \<and> sizeof_free_memory_block_t \<le> h_size (hdr r x)
      \<and> rm_log2 (h_size (hdr r x)) < length (slots r) \<and> rm_block_from_header r x \<noteq> 0"
  proof
    fix x assume x: "x \<in> set ?L"
    then have xL: "x \<in> set L" unfolding L by auto
    from placed_bounds [OF cp(6) xL] have b: "memory_bottom s \<le> h_memory (hdr s x)"
        "h_memory (hdr s x) + h_size (hdr s x) \<le> memory_top s" "16 \<le> h_size (hdr s x)" .
    have "rm_log2 (h_size (hdr s x)) \<le> rm_log2 (memory_size s)"
      using b cp(1) by (intro rm_log2_mono) (auto simp: geometry_def)
    moreover have "rm_block_from_header s x \<noteq> 0"
      using block_position_pos [OF cp(1,6) xL] by simp
    ultimately show "h_memory (hdr r x) \<noteq> 0 \<and> sizeof_free_memory_block_t \<le> h_size (hdr r x)
      \<and> rm_log2 (h_size (hdr r x)) < length (slots r) \<and> rm_block_from_header r x \<noteq> 0"
      using same [OF x] posr [OF x] b cp(11) [OF xL] count by (simp add: r_def)
  qed
  have lenL: "length ?L \<le> list_fuel" using fuel(1) by simp
  from rebuild_loop_spec [OF cr lenL append_Nil [symmetric] fl0 ds ok] obtain sl bl me where
    rb: "rebuild_loop list_fuel (header_root s) r = Inr (r\<lparr>slots := sl, blk := bl, mem := me\<rparr>)"
      "length sl = length (slots r)" "free_lists (r\<lparr>slots := sl, blk := bl, mem := me\<rparr>) ?L (rebuilt r ?L)"
      "cells_only r ?L me"
    by blast
  define t where "t = r\<lparr>slots := sl, blk := bl, mem := me, memory_top := ?top\<rparr>"
  have run: "compact_finish s = Inr t"
    unfolding compact_finish_def hu bind_res_simps prod.case pr set_next_def
    using u0 s3 rb(1) by (simp add: rebuild_free_block_slots_def fr3 t_def flip: r_def)
  have "free_lists t ?L (rebuilt r ?L)"
  proof -
    have "rm_block_from_header t = rm_block_from_header (r\<lparr>slots := sl, blk := bl, mem := me\<rparr>)"
      by (simp add: fun_eq_iff rm_block_from_header_def t_def)
    moreover have "listed_free t = listed_free (r\<lparr>slots := sl, blk := bl, mem := me\<rparr>)"
      using calculation by (intro ext) (simp add: listed_free_def, simp add: t_def)
    ultimately show ?thesis using rb(3) by (simp add: free_lists_def t_def)
  qed
  then have "wfs (withdraw_unused t) ?L ?L (rebuilt r ?L)"
    by (rule pruned_facts [OF cs L u E n(2-5), rotated -1])
      (use rb(2) count in \<open>simp_all add: t_def r_def fr3\<close>)
  moreover have "cells_only s ?L (mem t)"
  proof -
    have "mem r = mem s" by (simp add: r_def fr3)
    moreover have "is_free r h = is_free s h" if "h \<in> set ?L" for h
      using same(3) [OF that] by (simp add: is_free_def)
    moreover have "mem t = me" by (simp add: t_def)
    ultimately show ?thesis using rb(4) same unfolding cells_only_def by metis
  qed
  moreover have "memory_bottom t = memory_bottom s" by (simp add: t_def r_def fr3)
  moreover have "\<forall>h\<in>set ?L. extent t h = extent s h \<and> h_type (hdr t h) = h_type (hdr s h)"
    using same by (simp add: t_def extent_def)
  moreover have "unused_header_root t = (if E = [] then unused_header_root s else hd E)"
    by (simp add: t_def r_def pruned_def ps(5))
  moreover have ht: "hdr t = hdr ?s2" "header_bottom t = n" "header_top t = header_top s"
    by (simp_all add: t_def r_def h3 fr3)
  then have "header_bottom s \<le> header_bottom t" "header_slot t (header_bottom t)"
    "\<not> rm_header_is_unused t (header_bottom t)" "header_top t = header_top s"
    using n(2-4,6) by (simp_all add: header_slot_def rm_header_is_unused_def)
  moreover have "h_memory (hdr t (hd E)) = 0" if "E \<noteq> []"
  proof -
    have "hd E \<noteq> u" using d that unfolding L by (cases E) auto
    then show ?thesis using ps(7) [OF that, of s] by (simp add: ht)
  qed
  moreover have "hdr t h = hdr s h" if "h \<notin> set L" for h
    using that ps(6) [of h s] unfolding L by (simp add: ht)
  ultimately show ?thesis using run by (intro exI [of _ t]) (auto simp: t_def)
qed

section \<open>The sort\<close>

lemma tiled_strict: "tiled lo hi es \<Longrightarrow> \<forall>e\<in>set es. 0 < snd e \<Longrightarrow> sorted_wrt (<) (map fst es)"
proof (induction es arbitrary: lo)
  case (Cons e es)
  then have t: "tiled (lo + snd e) hi es" and e: "fst e = lo" "0 < snd e" by auto
  have "lo < fst d" if "d \<in> set es" for d using tiled_bounds [OF t that] e by simp
  with Cons t e show ?case by auto
qed simp

text \<open>
  The interface between the compaction and the sort: what \<open>rm_compact\<close> needs of a sort of the
  header list. The address order is the order of memory.
\<close>

locale header_sort =
  fixes sort_list :: "nat \<Rightarrow> rm_state \<Rightarrow> (nat \<times> rm_state) res"
  assumes sort_list: "\<And>s root xs. chain (nxt s) root xs 0 \<Longrightarrow> length xs \<le> 2 ^ 31 \<Longrightarrow>
      \<exists>root' s'. sort_list root s = Inr (root', s')
        \<and> chain (nxt s') root' (sort_key (sort_address s) xs) 0 \<and> links_only (set xs) s s'"
begin

lemma sort_gives_memory_order:
  assumes w: "wfs s L P F" and ne: "L \<noteq> []"
  shows "\<exists>root s'. sort_list (header_root s) s = Inr (root, s')
    \<and> cstate (s'\<lparr>header_root := root\<rparr>) P \<and> links_only (set L) s s'"
proof -
  have ch: "chain (nxt s) (header_root s) L 0"
    using wf_parts(2) [OF w] ne by (simp add: header_list_def)
  have pl: "placed s L P" using w by (rule wf_parts)
  then have mP: "mset P = mset L" and t: "tiled (memory_bottom s) (memory_top s) (map (extent s) P)"
    and z: "\<forall>h\<in>set L. 16 \<le> h_size (hdr s h)" by (simp_all add: placed_def)
  have sP: "set P = set L" using pl by (rule placed_set)
  have "sum_list (map (\<lambda>h. h_size (hdr s h)) P) < 2 ^ 31"
    using tiled_extent_sizes [OF t] wf_parts(1) [OF w] by (auto simp: geometry_def sizes_def)
  moreover have "\<forall>h\<in>set P. 16 \<le> h_size (hdr s h)" using z sP by simp
  then have "16 * length P \<le> sizes s P" by (rule sizes_lower)
  ultimately have "length P \<le> 2 ^ 31" by (simp add: sizes_def)
  moreover have lP: "length P = length L" using mP by (metis size_mset)
  ultimately have len: "length L \<le> 2 ^ 31" by simp
  have addr: "sort_address s h = h_memory (hdr s h)" if "h \<in> set L" for h
    using wf_sizes(6) [OF w that] by (simp add: sort_address_def)
  have st: "sorted_wrt (<) (map (sort_address s) P)"
  proof -
    have "sorted_wrt (<) (map fst (map (extent s) P))"
      using z sP by (intro tiled_strict [OF t]) auto
    moreover have "map fst (map (extent s) P) = map (sort_address s) P"
      using addr sP by auto
    ultimately show ?thesis by (simp only:)
  qed
  then have "inj_on (sort_address s) (set L)"
    using sP by (metis distinct_map strict_sorted_iff)
  then have "sort_key (sort_address s) L = P"
    using st mP by (intro sort_key_inj_key_eq) (simp_all add: strict_sorted_iff)
  with sort_list [OF ch len] obtain root s' where
    r: "sort_list (header_root s) s = Inr (root, s')" "chain (nxt s') root P 0"
      "links_only (set L) s s'" by auto
  let ?t = "s'\<lparr>header_root := root\<rparr>"
  note lk = links_only_keep [OF r(3)]
  have e: "s' = s\<lparr>hdr := hdr s'\<rparr>" using r(3) by (simp add: links_only_def)
  have f: "memory_bottom s' = memory_bottom s" "memory_top s' = memory_top s"
      "memory_size s' = memory_size s" "free_block_slot_count s' = free_block_slot_count s"
      "header_top s' = header_top s" "header_bottom s' = header_bottom s"
      "unused_header_root s' = unused_header_root s" "header_used_count s' = header_used_count s"
      "slots s' = slots s"
    by (subst e, simp)+
  have ext: "extent ?t = extent s" using lk(1,2) by (simp add: fun_eq_iff extent_def)
  have "unused_root_ok ?t"
  proof (cases "unused_header_root s = 0")
    case False
    have u: "h_memory (hdr s (unused_header_root s)) = 0"
      using wf_parts(3) [OF w] False by (auto simp: unused_root_ok_def Let_def)
    then have "unused_header_root s \<notin> set L" using wf_sizes(6) [OF w] by force
    with lk(5) wf_parts(3) [OF w] show ?thesis
      by (auto simp: unused_root_ok_def header_slot_def f Let_def)
  qed (simp add: unused_root_ok_def f)
  moreover have "filter (in_use ?t) P = filter (in_use s) P"
    using lk(3) by (intro filter_cong) (simp_all add: in_use_def)
  moreover have "length (filter (in_use s) P) = length (filter (in_use s) L)"
    using mP by (metis mset_filter size_mset)
  moreover have "geometry ?t" using wf_parts(1) [OF w] by (simp add: geometry_def f)
  moreover have "placed ?t P P" using t z sP lk(2) unfolding placed_def ext by (simp add: f)
  moreover have "\<forall>h\<in>set P. header_slot ?t h" using wf_parts(4) [OF w] sP by (simp add: header_slot_def f)
  moreover have "header_used_count s = int (length (filter (in_use s) L))" using w by (simp add: wfs_def)
  moreover have "P \<noteq> []" using ne sP by auto
  ultimately have "cstate ?t P" using r(2) unfolding cstate_def by (simp add: f)
  with r show ?thesis by blast
qed

end

interpretation listsort: header_sort "\<lambda>root s. rm_header__sort root False False rm_header__cmp s"
  by unfold_locales (rule rm_header__sort_spec)

section \<open>Compaction\<close>

lemma wf_nonempty: "wfs s L P F \<Longrightarrow> live s h \<Longrightarrow> L \<noteq> []"
  using live_wf by fastforce

lemma live_withdraw_unused [simp]: "live (withdraw_unused s) = live s"
  by (simp add: fun_eq_iff live_def in_use_def)

text \<open>The compaction up to the last part, and all of it.\<close>

lemma rm_compact_loop_spec:
  assumes w: "wfs s L P F" and h: "live s h"
  shows "\<exists>s1. rm_header_sort_all s = Inr s1 \<and> cstate s1 P \<and> kept s s1 L P
    \<and> heap_frame s s1 \<and> header_bottom s1 = header_bottom s
    \<and> (\<forall>g. h_type (hdr s1 g) = h_type (hdr s g))"
proof -
  from listsort.sort_gives_memory_order [OF w wf_nonempty [OF w h]] obtain root t where
    t: "rm_header__sort (header_root s) False False rm_header__cmp s = Inr (root, t)"
      "cstate (t\<lparr>header_root := root\<rparr>) P" "links_only (set L) s t" by blast
  note lk = links_only_keep [OF t(3)]
  have e: "t = s\<lparr>hdr := hdr t\<rparr>" using t(3) by (simp add: links_only_def)
  have f: "mem t = mem s" "heap_frame s t" "header_bottom t = header_bottom s"
    by (subst e, simp add: heap_frame_def)+
  have "set P = set L" using wf_parts(5) [OF w] by (rule placed_set)
  then have "kept s (t\<lparr>header_root := root\<rparr>) L P"
    using lk f(1) by (auto simp: kept_def moved_down_def in_use_def)
  with t f lk(3) show ?thesis
    by (intro exI [of _ "t\<lparr>header_root := root\<rparr>"]) (simp add: rm_header_sort_all_def heap_frame_def)
qed

lemma kept_finish:
  assumes cs: "cstate s L" and L: "L = D @ u # E" and E: "\<forall>x\<in>set E. is_free s x"
    and m: "cells_only s (D @ [u]) (mem s')"
    and e: "\<forall>h\<in>set (D @ [u]). extent s' h = extent s h \<and> h_type (hdr s' h) = h_type (hdr s h)"
  shows "kept s s' L (D @ [u])"
proof -
  have "mem s' (h_memory (hdr s g) + i) = mem s (h_memory (hdr s g) + i)"
    if g: "g \<in> set L" "in_use s g" and i: "i < h_size (hdr s g)" for g i
  proof (rule ccontr)
    assume "mem s' (h_memory (hdr s g) + i) \<noteq> mem s (h_memory (hdr s g) + i)"
    with m obtain f where f: "f \<in> set (D @ [u])" "is_free s f" "h_memory (hdr s f) \<le> h_memory (hdr s g) + i"
        "h_memory (hdr s g) + i < h_memory (hdr s f) + h_size (hdr s f)" unfolding cells_only_def by blast
    then have "f \<in> set L" "f \<noteq> g" using g(2) L by (auto simp: in_use_is_free)
    from placed_disjoint [OF cstate_parts(6,7) [OF cs] this(1) g(1) this(2)] f i show False
      by (auto simp: disjoint_extents_def)
  qed
  with L E e show ?thesis
    by (auto simp: kept_def moved_down_def in_use_is_free is_free_def extent_def)
qed

lemma rm_compact_wf:
  assumes w: "wfs s L P F" and h: "live s h"
  shows "(rm_compact clk mt s = Inl Null_deref
        \<and> \<not> header_room s (length (filter (is_unlocked s) L)))
    \<or> (\<exists>s' L' F'. rm_compact clk mt s = Inr s' \<and> wfs (withdraw_unused s') L' L' F' \<and> kept s s' L L')"
proof -
  from rm_compact_loop_spec [OF w h] obtain s1 where
    s1: "rm_header_sort_all s = Inr s1" "cstate s1 P" "kept s s1 L P" "heap_frame s s1"
      "header_bottom s1 = header_bottom s" "\<forall>g. h_type (hdr s1 g) = h_type (hdr s g)" by blast
  note c1 = cstate_parts [OF s1(2)] and z1 = cstate_sizes [OF s1(2)]
  have root: "header_root s1 = hd P" using c1(2,3) by (cases P) auto
  have pd: "pending s1 P \<le> length (filter (is_unlocked s) L)"
  proof -
    have "pending s1 P \<le> length (filter (is_unlocked s1) P)" by (rule pending_le)
    also have "filter (is_unlocked s1) P = filter (is_unlocked s) P"
      using s1(6) by (intro filter_unlocked_cong) simp
    also have "length \<dots> = length (filter (is_unlocked s) L)"
      using wf_parts(5) [OF w] unfolding placed_def by (metis mset_filter size_mset)
    finally show ?thesis .
  qed
  have fuel: "pending s1 P * 2 ^ 31 + length P \<le> list_fuel"
  proof -
    have "pending s1 P \<le> length P" using pending_le [of s1 P] length_filter_le le_trans by blast
    then have "pending s1 P * 2 ^ 31 \<le> 2 ^ 31 * 2 ^ 31" using z1(3) by (intro mult_right_mono) auto
    with z1(3) show ?thesis by (simp add: list_fuel_def)
  qed
  let ?loop = "compact_loop list_fuel clk 1 (uptime_nanoseconds (clk 0)) mt (header_root s1) s1"
  have run: "rm_compact clk mt s = bind_res ?loop compact_finish"
    using s1(1) by (simp add: rm_compact_def)
  from compact_loop_spec [OF s1(2) append_Nil [symmetric] c1(2) root disjI1 [OF refl] fuel,
      of clk 1 "uptime_nanoseconds (clk 0)" mt]
  show ?thesis
  proof (elim disjE conjE exE)
    assume "?loop = Inl Null_deref" "\<not> header_room s1 (pending s1 P)"
    moreover have "\<not> header_room s (length (filter (is_unlocked s) L))"
      using calculation(2) pd s1(4,5) by (auto simp: header_room_def heap_frame_def)
    ultimately show ?thesis using run by simp
  next
    fix s2 L2 assume r: "?loop = Inr s2" "cstate s2 L2" "kept s1 s2 P L2"
    have k: "kept s s2 L L2" using s1(3) r(3) by (rule kept_trans)
    have "h \<in> set L2" "in_use s2 h"
      using k h live_wf [OF w, of h] unfolding kept_def by blast+
    then obtain D u E where L2: "L2 = D @ u # E" "in_use s2 u" "\<forall>x\<in>set E. is_free s2 x"
      by (rule split_last_used)
    from compact_finish_spec [OF r(2) L2] obtain s' F' where
      f: "compact_finish s2 = Inr s'" "wfs (withdraw_unused s') (D @ [u]) (D @ [u]) F'"
        "cells_only s2 (D @ [u]) (mem s')"
        "\<forall>h\<in>set (D @ [u]). extent s' h = extent s2 h \<and> h_type (hdr s' h) = h_type (hdr s2 h)"
      by blast
    have "kept s s' L (D @ [u])" by (rule kept_trans [OF k kept_finish [OF r(2) L2(1,3) f(3,4)]])
    with run r(1) f(1,2) show ?thesis by auto
  qed
qed

lemma kept_live:
  assumes "kept s s' L L'" and "wfs s L P F" and "wfs (withdraw_unused s') L' P' F'"
  shows "live s' g \<longleftrightarrow> live s g" and "live s g \<Longrightarrow> moved_down s s' g"
proof -
  have "live s' g \<longleftrightarrow> g \<in> set L' \<and> in_use s' g"
    using live_wf [OF assms(3), of g] by (simp add: in_use_def)
  with assms(1) live_wf [OF assms(2), of g] show "live s' g \<longleftrightarrow> live s g"
    and "live s g \<Longrightarrow> moved_down s s' g" unfolding kept_def by blast+
qed

text \<open>Without locked blocks and without a time limit no gap is left.\<close>

lemma loop_fuel:
  assumes "cstate s L"
  shows "pending s L * 2 ^ 31 + length L \<le> list_fuel"
proof -
  have "pending s L \<le> length L" using pending_le [of s L] length_filter_le le_trans by blast
  then have "pending s L * 2 ^ 31 \<le> 2 ^ 31 * 2 ^ 31"
    using cstate_sizes(3) [OF assms] by (intro mult_right_mono) auto
  with cstate_sizes(3) [OF assms] show ?thesis by (simp add: list_fuel_def)
qed

lemma rm_compact_packs_wf:
  assumes w: "wfs s L P F" and h: "live s h"
    and un: "\<And>g. live s g \<Longrightarrow> h_type (hdr s g) = BLOCK_TYPE_UNLOCKED"
  shows "\<exists>s' L' F'. rm_compact clk 0 s = Inr s' \<and> wfs (withdraw_unused s') L' L' F'
    \<and> kept s s' L L' \<and> (\<forall>g\<in>set L'. live s' g) \<and> memory_bottom s' = memory_bottom s"
proof -
  from rm_compact_loop_spec [OF w h] obtain s1 where
    s1: "rm_header_sort_all s = Inr s1" "cstate s1 P" "kept s s1 L P" "heap_frame s s1"
      "header_bottom s1 = header_bottom s" "\<forall>g. h_type (hdr s1 g) = h_type (hdr s g)" by blast
  note c1 = cstate_parts [OF s1(2)]
  have root: "header_root s1 = hd P" using c1(2,3) by (cases P) auto
  have un1: "\<forall>g\<in>set P. in_use s1 g \<longrightarrow> is_unlocked s1 g"
  proof (intro ballI impI)
    fix g assume g: "g \<in> set P" "in_use s1 g"
    then have "g \<in> set L \<and> in_use s g" using s1(3) unfolding kept_def by blast
    with un live_wf [OF w, of g] s1(6) show "is_unlocked s1 g" by (simp add: is_unlocked_def)
  qed
  let ?loop = "compact_loop list_fuel clk 1 (uptime_nanoseconds (clk 0)) 0 (header_root s1) s1"
  have run: "rm_compact clk 0 s = bind_res ?loop compact_finish"
    using s1(1) by (simp add: rm_compact_def)
  have "\<forall>g\<in>set []. in_use s1 g" by simp
  from compact_loop_packs [OF s1(2) append_Nil [symmetric] c1(2) root this un1 disjI1 [OF refl]
      loop_fuel [OF s1(2)], of clk 1 "uptime_nanoseconds (clk 0)"]
  obtain s2 A E where r: "?loop = Inr s2" "cstate s2 (A @ E)" "kept s1 s2 P (A @ E)"
      "\<forall>g\<in>set A. in_use s2 g" "\<forall>g\<in>set E. is_free s2 g"
      "heap_frame s1 s2" by blast
  have k: "kept s s2 L (A @ E)" using s1(3) r(3) by (rule kept_trans)
  have "h \<in> set (A @ E)" "in_use s2 h" using k h live_wf [OF w, of h] unfolding kept_def by blast+
  with r(5) have "A \<noteq> []" by (auto simp: in_use_is_free)
  then have A: "A @ E = butlast A @ last A # E" "butlast A @ [last A] = A" by simp_all
  have "in_use s2 (last A)" using r(4) \<open>A \<noteq> []\<close> by simp
  from compact_finish_spec [OF r(2) A(1) this r(5)] obtain s' F' where
    f: "compact_finish s2 = Inr s'" "wfs (withdraw_unused s') A A F'" "cells_only s2 A (mem s')"
      "\<forall>g\<in>set A. extent s' g = extent s2 g \<and> h_type (hdr s' g) = h_type (hdr s2 g)"
      "memory_bottom s' = memory_bottom s2"
    unfolding A(2) by blast
  have "kept s2 s' (A @ E) A" using kept_finish [OF r(2) A(1) r(5)] f(3,4) unfolding A(2) by blast
  with k have "kept s s' L A" by (rule kept_trans)
  moreover have "live s' g" if "g \<in> set A" for g
    using live_wf [OF f(2), of g] that r(4) f(4) by (simp add: in_use_def)
  moreover have "memory_bottom s' = memory_bottom s"
    using f(5) r(6) s1(4) by (simp add: heap_frame_def)
  ultimately show ?thesis using run r(1) f(1,2) by auto
qed

lemma wf_packed:
  assumes w: "wfs s L P F" and all: "\<forall>g\<in>set L. live s g"
  shows "memory_top s = memory_bottom s + (\<Sum>g | live s g. h_size (hdr s g))"
proof -
  have pl: "placed s L P" and d: "distinct L" using w by (auto intro: wf_parts)
  have "mset P = mset L" "tiled (memory_bottom s) (memory_top s) (map (extent s) P)"
    using pl by (simp_all add: placed_def)
  then have "memory_top s = memory_bottom s + sizes s P" by (intro tiled_extent_sizes)
  also have "sizes s P = sizes s L"
    unfolding sizes_def using \<open>mset P = mset L\<close> by (metis mset_map sum_mset_sum_list)
  also have "\<dots> = (\<Sum>g\<in>set L. h_size (hdr s g))"
    unfolding sizes_def using d by (rule sum_list_distinct_conv_sum_set)
  also have "set L = {g. live s g}" using all live_wf [OF w] by blast
  finally show ?thesis .
qed

section \<open>A heap with no block in use\<close>

text \<open>
  Compacting a heap nothing has been allocated from: the header array is swept past its top, and
  the next header that is read lies outside of the heap.
\<close>

lemma raise_past_top:
  assumes "rm_header_is_unused s (header_bottom s)"
    and "rm_header_is_unused s (header_bottom s + sizeof_rm_header_t)"
    and "header_top s = header_bottom s + sizeof_rm_header_t"
  shows "raise_header_bottom s = Inl Out_of_bounds"
proof -
  let ?s1 = "s\<lparr>header_bottom := header_bottom s + sizeof_rm_header_t\<rparr>"
  let ?s2 = "s\<lparr>header_bottom := header_bottom s + 2 * sizeof_rm_header_t\<rparr>"
  have "raise_header_bottom s = raise_header_bottom ?s1"
    using assms by (subst raise_header_bottom.simps) simp
  also have "\<dots> = raise_header_bottom ?s2"
    using assms by (subst raise_header_bottom.simps) (simp add: rm_header_is_unused_def add.commute)
  also have "\<dots> = Inl Out_of_bounds"
    using assms(3) by (subst raise_header_bottom.simps) simp
  finally show ?thesis .
qed

lemma compact_finish_unused:
  assumes r: "header_root s = r" "r \<noteq> 0" "hdr s r = zero_header" "header_top s = r"
    and b: "header_bottom s \<noteq> 0" "hdr s (header_bottom s) = zero_header"
      "r = header_bottom s + sizeof_rm_header_t"
  shows "compact_finish s = Inl Out_of_bounds"
proof -
  have fuel: "list_fuel \<noteq> 0" by (simp add: list_fuel_def)
  have z: "h_memory (hdr s r) = 0" "h_type (hdr s r) = BLOCK_TYPE_FREE" "h_next (hdr s r) = 0"
    using r(3) by (simp_all add: zero_header_def)
  have "highest_used list_fuel (memory_bottom s) r r s = Inr (memory_bottom s, r)"
    using r(2) z by (intro highest_used_free [of s r "[r]"])
      (simp_all add: list_fuel_def is_free_def)
  moreover have "prune_free_blocks list_fuel (memory_bottom s) r s = Inr s"
    using r(2) z fuel
    by (subst prune_free_blocks.simps, subst prune_free_blocks.simps)
      (simp add: rm_header_is_unused_def)
  moreover have "set_next r 0 s = Inr s"
    using r(2) upd_next_same [OF z(3)] by (simp add: set_next_def)
  moreover have "raise_header_bottom s = Inl Out_of_bounds"
    using r b by (intro raise_past_top) (auto simp: rm_header_is_unused_def zero_header_def)
  ultimately show ?thesis using r(1) by (simp add: compact_finish_def)
qed

lemma rm_compact_fresh:
  assumes ok: "init_ok heap n"
  shows "rm_compact clk mt (rm_init heap n s) = Inl Out_of_bounds"
proof -
  let ?ht = "heap + n - sizeof_rm_header_t" and ?hb = "heap + n - 2 * sizeof_rm_header_t"
  define t where "t = rm_init heap n s"
  note f = rm_init_fields [OF ok t_def]
  have ne: "?ht \<noteq> 0" "?hb \<noteq> 0" "?ht = ?hb + sizeof_rm_header_t"
    using ok by (auto simp: init_ok_def)
  have "chain (nxt t) ?ht [?ht] 0" using f(11) ne(1) by (simp add: zero_header_def)
  moreover have "length [?ht] \<le> 2 ^ 31" by simp
  ultimately have "\<exists>root' s'. rm_header__sort ?ht False False rm_header__cmp t = Inr (root', s')
      \<and> chain (nxt s') root' (sort_key (sort_address t) [?ht]) 0 \<and> links_only (set [?ht]) t s'"
    by (rule rm_header__sort_spec)
  then obtain root' s' where s': "rm_header__sort ?ht False False rm_header__cmp t = Inr (root', s')"
      "chain (nxt s') root' [?ht] 0" "links_only {?ht} t s'" by auto
  let ?s = "s'\<lparr>header_root := ?ht\<rparr>"
  have root: "root' = ?ht" "h_next (hdr s' ?ht) = 0" using s'(2) by simp_all
  have hdr: "hdr s' ?ht = zero_header"
  proof -
    have "hdr s' ?ht = (hdr t ?ht)\<lparr>h_next := nxt s' ?ht\<rparr>"
      using s'(3) unfolding links_only_def by blast
    with root(2) f(11) show ?thesis by (simp add: zero_header_def)
  qed
  have "?hb \<notin> {?ht}" using ok by (auto simp: init_ok_def)
  then have hb: "hdr s' ?hb = zero_header"
    using links_only_keep(5) [OF s'(3), of ?hb] f(12) by simp
  have e: "s' = t\<lparr>hdr := hdr s'\<rparr>" using s'(3) by (simp add: links_only_def)
  have fr: "header_bottom s' = ?hb" "header_top s' = ?ht"
    by (subst e, simp add: f)+
  have sort: "rm_header_sort_all t = Inr ?s" using s'(1) root(1) f(7)
    by (simp add: rm_header_sort_all_def)
  have "chain (nxt ?s) ?ht [?ht] 0" using root ne(1) by simp
  note ch = this
  have fuel: "length [?ht] \<le> list_fuel" by (simp add: list_fuel_def)
  have z: "sizes ?s [?ht] = 0" "is_free ?s ?ht" "\<not> in_use ?s ?ht"
    using hdr by (simp_all add: is_free_def in_use_def zero_header_def)
  have "\<exists>b. get_free_header_range ?ht ?s = Inr (sizes ?s [?ht], head0 [?ht], last0 0 [?ht], b)"
    by (rule get_free_header_range_spec [OF ch fuel, of "[]" _ "[]"]) (use z in simp_all)
  then obtain b where "get_free_header_range ?ht ?s = Inr (0, ?ht, ?ht, b)" unfolding z by auto
  moreover have "\<exists>l. find_last_nonfree_header ?ht ?s = Inr l"
    using find_last_nonfree_header_spec [OF ch fuel] by blast
  ultimately have pass: "compact_pass ?ht ?s = Inr (Finished, ?s)"
    by (auto simp: compact_pass_def)
  have "list_fuel \<noteq> 0" by (simp add: list_fuel_def)
  then have "compact_loop list_fuel clk 1 (uptime_nanoseconds (clk 0)) mt ?ht ?s = Inr ?s"
    using pass by (subst compact_loop.simps) (simp add: Let_def)
  moreover have "compact_finish ?s = Inl Out_of_bounds"
  proof (rule compact_finish_unused [of _ ?ht])
    have "header_bottom ?s = ?hb" using fr(1) by simp
    then show "?ht = header_bottom ?s + sizeof_rm_header_t" using ok by (simp add: init_ok_def)
  qed (use fr hdr hb ne(1,2) in simp_all)
  ultimately show ?thesis using sort by (simp add: rm_compact_def t_def)
qed

end
