(* ===== verification/Rm_Contract.thy ===== *)
theory Rm_Contract
  imports Rm_Compacted
begin

text \<open>
  The allocator as its client sees it: the contract of a block store as a locale, interpreted by
  \<open>rm_malloc\<close> and \<open>rm_free\<close>, and the step relation of all client operations.
\<close>

section \<open>The contract of a block store\<close>

text \<open>A client program: requests and releases of handles.\<close>

datatype store_op = Alloc int | Release nat

fun run_ops ::
  "(int \<Rightarrow> 's \<Rightarrow> (nat \<times> 's) res) \<Rightarrow> (nat \<Rightarrow> 's \<Rightarrow> 's res) \<Rightarrow> store_op list \<Rightarrow> 's \<Rightarrow> 's res" where
  "run_ops alloc release [] s = Inr s"
| "run_ops alloc release (Alloc n # ops) s =
     bind_res (alloc n s) (\<lambda>(_, s'). run_ops alloc release ops s')"
| "run_ops alloc release (Release h # ops) s =
     bind_res (release h s) (run_ops alloc release ops)"

text \<open>The client keeps its side: it only releases what it holds and asks for what the store takes.\<close>

fun ops_ok ::
  "('s \<Rightarrow> nat \<Rightarrow> bool) \<Rightarrow> ('s \<Rightarrow> int \<Rightarrow> bool) \<Rightarrow> (int \<Rightarrow> 's \<Rightarrow> (nat \<times> 's) res)
   \<Rightarrow> (nat \<Rightarrow> 's \<Rightarrow> 's res) \<Rightarrow> store_op list \<Rightarrow> 's \<Rightarrow> bool" where
  "ops_ok held fits alloc release [] s = True"
| "ops_ok held fits alloc release (Alloc n # ops) s =
     (fits s n \<and> (case alloc n s of Inl _ \<Rightarrow> True
                  | Inr (_, s') \<Rightarrow> ops_ok held fits alloc release ops s'))"
| "ops_ok held fits alloc release (Release h # ops) s =
     (held s h \<and> (case release h s of Inl _ \<Rightarrow> True
                  | Inr s' \<Rightarrow> ops_ok held fits alloc release ops s'))"

locale block_store =
  fixes inv :: "'s \<Rightarrow> bool" and held :: "'s \<Rightarrow> nat \<Rightarrow> bool" and place :: "'s \<Rightarrow> nat \<Rightarrow> nat \<times> nat"
    and fits :: "'s \<Rightarrow> int \<Rightarrow> bool" and alloc :: "int \<Rightarrow> 's \<Rightarrow> (nat \<times> 's) res"
    and release :: "nat \<Rightarrow> 's \<Rightarrow> 's res"
  assumes held_apart: "\<And>s g h. inv s \<Longrightarrow> held s g \<Longrightarrow> held s h \<Longrightarrow> g \<noteq> h \<Longrightarrow>
      disjoint_extents (place s g) (place s h)"
    and alloc_keeps: "\<And>s n. inv s \<Longrightarrow> fits s n \<Longrightarrow>
      \<exists>h s'. alloc n s = Inr (h, s') \<and> inv s'
        \<and> (\<forall>g. held s g \<longrightarrow> held s' g \<and> place s' g = place s g)"
    and release_keeps: "\<And>s h. inv s \<Longrightarrow> held s h \<Longrightarrow>
      \<exists>s'. release h s = Inr s' \<and> inv s'
        \<and> (\<forall>g. held s g \<and> g \<noteq> h \<longrightarrow> held s' g \<and> place s' g = place s g)"
begin

lemma client_run:
  "inv s \<Longrightarrow> ops_ok held fits alloc release ops s \<Longrightarrow>
   \<exists>s'. run_ops alloc release ops s = Inr s' \<and> inv s'
     \<and> (\<forall>g. held s g \<and> Release g \<notin> set ops \<longrightarrow> held s' g \<and> place s' g = place s g)"
proof (induction ops arbitrary: s)
  case Nil
  then show ?case by simp
next
  case (Cons x ops)
  show ?case
  proof (cases x)
    case (Alloc n)
    from alloc_keeps [of s n] Cons.prems Alloc obtain h t where
      t: "alloc n s = Inr (h, t)" "inv t"
        "\<forall>g. held s g \<longrightarrow> held t g \<and> place t g = place s g" by auto
    with Cons.prems Alloc have "ops_ok held fits alloc release ops t" by simp
    from Cons.IH [OF t(2) this] t Alloc show ?thesis by auto
  next
    case (Release h)
    from release_keeps [of s h] Cons.prems Release obtain t where
      t: "release h s = Inr t" "inv t"
        "\<forall>g. held s g \<and> g \<noteq> h \<longrightarrow> held t g \<and> place t g = place s g" by auto
    with Cons.prems Release have "ops_ok held fits alloc release ops t" by simp
    from Cons.IH [OF t(2) this] t Release show ?thesis by auto
  qed
qed

text \<open>Two handles the client still has at the end of a run never share memory.\<close>

lemma client_run_apart:
  assumes "inv s" and "ops_ok held fits alloc release ops s"
    and "run_ops alloc release ops s = Inr s'" and "held s' g" and "held s' h" and "g \<noteq> h"
  shows "disjoint_extents (place s' g) (place s' h)"
  using client_run [OF assms(1,2)] assms(3-6) held_apart by auto

end

section \<open>The model keeps the contract\<close>

definition rm_fits :: "rm_state \<Rightarrow> int \<Rightarrow> bool" where
  "rm_fits s n \<longleftrightarrow> 0 \<le> n \<and> request_ok s (nat n)"

lemma wf_live_apart:
  assumes "well_formed s" and "live s g" and "live s h" and "g \<noteq> h"
  shows "disjoint_extents (extent s g) (extent s h)"
proof -
  from assms(1) obtain L P F where w: "wfs s L P F" by (auto simp: well_formed_def)
  show ?thesis
    using placed_disjoint [OF wf_parts(5,7) [OF w]] assms(2-4) live_wf [OF w] by blast
qed

lemma wf_live_inside:
  assumes "well_formed s" and "live s h"
  shows "memory_bottom s \<le> h_memory (hdr s h)"
    and "h_memory (hdr s h) + h_size (hdr s h) \<le> memory_top s"
    and "memory_top s < header_bottom s"
proof -
  from assms(1) obtain L P F where w: "wfs s L P F" by (auto simp: well_formed_def)
  with assms(2) have "h \<in> set L" using live_wf by blast
  with wf_sizes(1,2) [OF w] wf_parts(1) [OF w]
  show "memory_bottom s \<le> h_memory (hdr s h)"
    "h_memory (hdr s h) + h_size (hdr s h) \<le> memory_top s" "memory_top s < header_bottom s"
    by (auto simp: geometry_def)
qed

lemma same_block_extent: "same_block s s' g \<Longrightarrow> extent s' g = extent s g"
  by (simp add: same_block_def extent_def)

interpretation rm_store: block_store well_formed live extent rm_fits rm_malloc rm_free
proof unfold_locales
  show "disjoint_extents (extent s g) (extent s h)"
    if "well_formed s" "live s g" "live s h" "g \<noteq> h" for s g h using that by (rule wf_live_apart)
  show "\<exists>h s'. rm_malloc n s = Inr (h, s') \<and> well_formed s'
      \<and> (\<forall>g. live s g \<longrightarrow> live s' g \<and> extent s' g = extent s g)"
    if "well_formed s" "rm_fits s n" for s n
  proof -
    from that obtain L P F where w: "wfs s L P F" by (auto simp: well_formed_def)
    from that(2) have "0 \<le> n" "request_ok s (nat n)" by (simp_all add: rm_fits_def)
    from rm_malloc_wf [OF w this] obtain h s' where
      r: "rm_malloc n s = Inr (h, s')" "well_formed s'"
        "h = 0 \<and> not_allocated s s' \<or> h \<noteq> 0 \<and> allocated s s' h (nat n)" by blast
    then have "\<forall>g. live s g \<longrightarrow> live s' g \<and> extent s' g = extent s g"
      unfolding not_allocated_def allocated_def using same_block_extent by metis
    with r show ?thesis by blast
  qed
  show "\<exists>s'. rm_free h s = Inr s' \<and> well_formed s'
      \<and> (\<forall>g. live s g \<and> g \<noteq> h \<longrightarrow> live s' g \<and> extent s' g = extent s g)"
    if "well_formed s" "live s h" for s h
    using rm_free_wf [OF that] unfolding released_def by (meson same_block_extent)
qed

section \<open>The step relation of the client operations\<close>

text \<open>
  Compaction is a step from a state with a block in use. Its result is well formed but for the header
  on offer, which the shrinking of the header array may pass: then \<open>offer_lost\<close>.
\<close>

definition offer_lost :: "rm_state \<Rightarrow> bool" where
  "offer_lost s \<longleftrightarrow> unused_header_root s \<noteq> 0 \<and> unused_header_root s < header_bottom s"

lemma not_offer_lost: "\<not> offer_lost s \<Longrightarrow> withdraw_unused s = s"
  by (auto simp: offer_lost_def withdraw_unused_def)

lemma offer_lost_ill_formed: "offer_lost s \<Longrightarrow> \<not> well_formed s"
  by (auto simp: offer_lost_def well_formed_def wfs_def unused_root_ok_def header_slot_def Let_def)

inductive rm_step :: "rm_state \<Rightarrow> rm_state \<Rightarrow> bool" where
  step_malloc: "rm_fits s n \<Longrightarrow> rm_malloc n s = Inr (h, s') \<Longrightarrow> rm_step s s'"
| step_free: "live s h \<Longrightarrow> rm_free h s = Inr s' \<Longrightarrow> rm_step s s'"
| step_lock: "live s h \<Longrightarrow> rm_lock h s = Inr (m, s') \<Longrightarrow> rm_step s s'"
| step_weaklock: "live s h \<Longrightarrow> rm_weaklock h s = Inr (m, s') \<Longrightarrow> rm_step s s'"
| step_unlock: "live s h \<Longrightarrow> rm_unlock h s = Inr s' \<Longrightarrow> rm_step s s'"
| step_compact: "live s h \<Longrightarrow> rm_compact clk mt s = Inr s' \<Longrightarrow> rm_step s s'"

inductive_cases rm_stepE: "rm_step s s'"

lemma rm_step_wf:
  "well_formed s \<Longrightarrow> rm_step s s' \<Longrightarrow>
   well_formed s'
   \<or> (\<exists>h clk mt. live s h \<and> rm_compact clk mt s = Inr s'
        \<and> offer_lost s' \<and> well_formed (withdraw_unused s'))"
proof -
  assume w: "well_formed s" and st: "rm_step s s'"
  from w obtain L P F where wl: "wfs s L P F" by (auto simp: well_formed_def)
  from st show ?thesis
  proof cases
    case (step_malloc n h)
    with rm_store.alloc_keeps [OF w, of n] show ?thesis by auto
  next
    case (step_free h)
    with rm_free_wf [OF w, of h] show ?thesis by auto
  next
    case (step_lock h m)
    with rm_lock_wf [OF w, of h] show ?thesis by auto
  next
    case (step_weaklock h m)
    with rm_weaklock_wf [OF w, of h] show ?thesis by auto
  next
    case (step_unlock h)
    with rm_unlock_wf [OF w, of h] show ?thesis by auto
  next
    case (step_compact h clk mt)
    from rm_compact_wf [OF wl step_compact(1), of clk mt] step_compact(2)
    have wu: "well_formed (withdraw_unused s')" unfolding well_formed_def by auto
    show ?thesis
    proof (cases "offer_lost s'")
      case True
      with step_compact wu show ?thesis by blast
    next
      case False
      from wu show ?thesis unfolding not_offer_lost [OF False] ..
    qed
  qed
qed

inductive rm_reachable :: "nat \<Rightarrow> nat \<Rightarrow> rm_state \<Rightarrow> bool" for heap n where
  reach_init: "rm_reachable heap n (rm_init heap n s)"
| reach_step: "rm_reachable heap n s \<Longrightarrow> rm_step s s' \<Longrightarrow> rm_reachable heap n s'"

lemma rm_init_well_formed: "init_ok heap n \<Longrightarrow> well_formed (rm_init heap n s)"
  unfolding well_formed_def using rm_init_wf by blast

text \<open>A reachable state is well formed, or comes after a compaction that has lost the offer.\<close>

lemma reachable_wf:
  "rm_reachable heap n s \<Longrightarrow> init_ok heap n \<Longrightarrow>
   well_formed s
   \<or> (\<exists>t u h clk mt. rm_reachable heap n t \<and> well_formed t \<and> live t h \<and> rm_compact clk mt t = Inr u
        \<and> offer_lost u \<and> well_formed (withdraw_unused u) \<and> rm_step\<^sup>*\<^sup>* u s)"
proof (induction rule: rm_reachable.induct)
  case (reach_init s)
  then show ?case by (simp add: rm_init_well_formed)
next
  case (reach_step s s')
  show ?case
  proof (cases "well_formed s")
    case False
    with reach_step.IH [OF reach_step.prems] obtain t u h clk mt where
      t: "rm_reachable heap n t" "well_formed t" "live t h" "rm_compact clk mt t = Inr u"
        "offer_lost u" "well_formed (withdraw_unused u)" "rm_step\<^sup>*\<^sup>* u s" by blast
    from t(7) reach_step.hyps(2) have "rm_step\<^sup>*\<^sup>* u s'" by (rule rtranclp.rtrancl_into_rtrancl)
    with t(1-6) show ?thesis by blast
  next
    case True
    from rm_step_wf [OF True reach_step.hyps(2)] reach_step.hyps(1) True show ?thesis by blast
  qed
qed

section \<open>Room at the top and the headers of a compaction\<close>

lemma rm_malloc_top:
  assumes w: "well_formed s" and n: "0 \<le> n" "n < 2 ^ 31"
    and room: "memory_top s + request_size (nat n) + 2 * sizeof_rm_header_t < header_bottom s"
  shows "\<exists>h s'. rm_malloc n s = Inr (h, s') \<and> h \<noteq> 0
    \<and> extent s' h = (memory_top s, request_size (nat n))
    \<and> memory_top s' = memory_top s + request_size (nat n)"
proof -
  from w obtain L P F where wl: "wfs s L P F" by (auto simp: well_formed_def)
  have lt: "nat n < 2 ^ 31" using n by simp
  have m: "rm_malloc n s = block_new (nat n) s"
    using n by (simp add: rm_malloc_def uintptr_of_int_nonneg)
  have new: "fst (header_new True s) \<noteq> 0"
  proof
    assume "fst (header_new True s) = 0"
    from header_new_none [OF this] room show False by linarith
  qed
  have "memory_top s + request_size (nat n) + sizeof_rm_header_t < header_bottom s"
    using room by simp
  from block_new_top [OF wl lt this] new m show ?thesis unfolding extent_def by (elim exE) auto
qed

text \<open>A request that is larger than any slot of the heap.\<close>

lemma rm_malloc_no_slot:
  assumes w: "well_formed s" and n: "0 \<le> n" "n < 2 ^ 31"
    and big: "length (slots s) \<le> rm_log2 (request_size (nat n))"
  shows "rm_malloc n s = Inl Out_of_bounds"
proof -
  let ?sz = "request_size (nat n)"
  from w obtain L P F where wl: "wfs s L P F" by (auto simp: well_formed_def)
  then have g: "geometry s" by (rule wf_parts)
  have sz: "0 < ?sz" "?sz < 2 ^ 31" using n by (auto simp: request_size_def)
  then have lg: "2 ^ rm_log2 ?sz \<le> ?sz" "rm_log2 ?sz < 32" by (auto intro: rm_log2_bounds)
  have "memory_size s < 2 ^ Suc (rm_log2 (memory_size s))"
    using g by (intro rm_log2_bounds) (auto simp: geometry_def)
  also have "(2::nat) ^ Suc (rm_log2 (memory_size s)) \<le> 2 ^ rm_log2 ?sz"
    using g big by (intro power_increasing) (auto simp: geometry_def)
  also note lg(1)
  finally have "memory_size s < ?sz" .
  with g have full: "header_bottom s \<le> memory_top s + ?sz + sizeof_rm_header_t"
      "memory_top s + ?sz + sizeof_rm_header_t < 2 ^ 64"
    using sz by (auto simp: geometry_def)
  have eq: "(if nat n < sizeof_free_memory_block_t then sizeof_free_memory_block_t else nat n)
      = ?sz" by (simp add: request_size_def max_def)
  have "freeblock_find ?sz s = Inl Out_of_bounds"
    using big lg(2) g
    by (simp add: freeblock_find_def freeblock_search_def read_slot_def geometry_def Let_def)
  with full sz show ?thesis
    unfolding rm_malloc_def uintptr_of_int_nonneg [OF n] block_new_def eq
    by (simp add: Let_def)
qed

text \<open>A negative request: the sum wraps around and the top of the memory goes down.\<close>

lemma u64_minus: "k \<le> a \<Longrightarrow> a - k < 2 ^ 64 \<Longrightarrow> u64 (a + (2 ^ 64 - k)) = a - k" if "k \<le> 2 ^ 64"
proof -
  assume "k \<le> a" "a - k < 2 ^ 64"
  then have "a + (2 ^ 64 - k) = (a - k) + 2 ^ 64" using that by simp
  then show ?thesis using \<open>a - k < 2 ^ 64\<close> by (simp only: u64_def mod_add_self2 mod_less)
qed

lemma rm_malloc_negative:
  assumes w: "well_formed s" and k: "0 < k" "k \<le> 2 ^ 31" "k \<le> memory_top s"
    and room: "unused_header_root s \<noteq> 0 \<or> memory_top s + 2 * sizeof_rm_header_t < header_bottom s"
    and k29: "sizeof_rm_header_t \<le> k"
  shows "\<exists>h s'. rm_malloc (- int k) s = Inr (h, s') \<and> h \<noteq> 0 \<and> memory_top s' = memory_top s - k"
proof -
  obtain sz where sz: "sz = 2 ^ 64 - k" by blast
  from w obtain L P F where wl: "wfs s L P F" by (auto simp: well_formed_def)
  then have g: "geometry s" by (rule wf_parts)
  have n: "uintptr_of_int (- int k) = sz" unfolding sz using k by (subst uintptr_of_int_neg) simp_all
  have big: "\<not> sz < sizeof_free_memory_block_t" unfolding sz using k by simp
  obtain h s1 where hn: "header_new True s = (h, s1)" by fastforce
  have h: "h \<noteq> 0"
  proof
    assume "h = 0"
    with header_new_none [of True s] hn room show False by auto
  qed
  have fr: "memory_top s1 = memory_top s" "memory_bottom s1 = memory_bottom s"
    using new_header_frame [OF wf_header_new [OF wl hn h]] by simp_all
  have lt: "memory_top s + sizeof_rm_header_t < 2 ^ 64" using g by (auto simp: geometry_def)
  have swap: "memory_top s + sz + sizeof_rm_header_t = memory_top s + sizeof_rm_header_t + sz"
    by (simp only: ac_simps)
  have u: "u64 (memory_top s + sz + sizeof_rm_header_t) = memory_top s + sizeof_rm_header_t - k"
    unfolding swap unfolding sz using k lt by (intro u64_minus) linarith+
  have v: "u64 (memory_top s + sz) = memory_top s - k"
    unfolding sz using k lt by (intro u64_minus) linarith+
  have "memory_top s + sizeof_rm_header_t - k < header_bottom s"
    using g k29 by (auto simp: geometry_def)
  then show ?thesis
    unfolding rm_malloc_def n block_new_def if_not_P [OF big]
    using hn h fr g
    by (simp add: u v Let_def geometry_def update_highest_address_if_needed_def)
qed

lemma unlocked_count:
  assumes "wfs s L P F"
  shows "length (filter (is_unlocked s) L)
    = card {g. live s g \<and> h_type (hdr s g) = BLOCK_TYPE_UNLOCKED}"
proof -
  have "{g. live s g \<and> h_type (hdr s g) = BLOCK_TYPE_UNLOCKED} = {g \<in> set L. is_unlocked s g}"
    unfolding live_wf [OF assms] by (auto simp: is_unlocked_def in_use_def)
  moreover have "distinct L" using assms by (rule wf_parts)
  ultimately show ?thesis
    by (simp only: distinct_card [OF distinct_filter, symmetric] set_filter)
qed

lemma rm_compact_contract:
  assumes w: "well_formed s" and h: "live s h"
  shows "rm_compact clk mt s = Inl Null_deref
      \<and> \<not> header_room s (card {g. live s g \<and> h_type (hdr s g) = BLOCK_TYPE_UNLOCKED})
    \<or> (\<exists>s'. rm_compact clk mt s = Inr s' \<and> well_formed (withdraw_unused s')
        \<and> (\<forall>g. (live s' g \<longleftrightarrow> live s g) \<and> (live s g \<longrightarrow> moved_down s s' g)))"
proof -
  from w obtain L P F where wl: "wfs s L P F" by (auto simp: well_formed_def)
  from rm_compact_wf [OF wl h, of clk mt] show ?thesis
    unfolding unlocked_count [OF wl, symmetric]
  proof (elim disjE exE conjE)
    fix s' L' F'
    assume r: "rm_compact clk mt s = Inr s'" and w': "wfs (withdraw_unused s') L' L' F'"
      and k: "kept s s' L L'"
    have "(live s' g \<longleftrightarrow> live s g) \<and> (live s g \<longrightarrow> moved_down s s' g)" for g
      using kept_live [OF k wl w', of g] by blast
    with r w' show "rm_compact clk mt s = Inl Null_deref
        \<and> \<not> header_room s (length (filter (is_unlocked s) L))
      \<or> (\<exists>s'. rm_compact clk mt s = Inr s' \<and> well_formed (withdraw_unused s')
        \<and> (\<forall>g. (live s' g \<longleftrightarrow> live s g) \<and> (live s g \<longrightarrow> moved_down s s' g)))"
      unfolding well_formed_def by blast
  qed blast
qed

lemma rm_compact_packs:
  assumes w: "well_formed s" and h: "live s h"
    and un: "\<And>g. live s g \<Longrightarrow> h_type (hdr s g) = BLOCK_TYPE_UNLOCKED"
  shows "\<exists>s'. rm_compact clk 0 s = Inr s' \<and> well_formed (withdraw_unused s')
    \<and> memory_bottom s' = memory_bottom s
    \<and> memory_top s' = memory_bottom s' + (\<Sum>g | live s' g. h_size (hdr s' g))"
proof -
  from w obtain L P F where wl: "wfs s L P F" by (auto simp: well_formed_def)
  from rm_compact_packs_wf [OF wl h un, of clk] obtain s' L' F' where
    r: "rm_compact clk 0 s = Inr s'" and w': "wfs (withdraw_unused s') L' L' F'"
    and all: "\<forall>g\<in>set L'. live s' g" and b: "memory_bottom s' = memory_bottom s" by blast
  have "\<forall>g\<in>set L'. live (withdraw_unused s') g" using all by simp
  from wf_packed [OF w' this] have
    "memory_top s' = memory_bottom s' + (\<Sum>g | live s' g. h_size (hdr s' g))" by simp
  with r w' b show ?thesis unfolding well_formed_def by blast
qed

end
