(* ===== verification/Rm_Demo.thy ===== *)
theory Rm_Demo
  imports Rm_Contract
begin

text \<open>
  A small heap on which the properties are instantiated: 1024 bytes at address 1000, initialised
  from zeroed memory, then with one block of 100 bytes.
\<close>

definition zero_state :: rm_state where
  "zero_state = \<lparr>memory_bottom = 0, memory_top = 0, memory_size = 0, free_block_slots = 0,
     free_block_slot_count = 0, free_block_hits = 0, free_block_alloc = 0, header_top = 0,
     header_bottom = 0, header_root = 0, header_used_count = 0, last_free_header = 0,
     unused_header_root = 0, highest_address_header = 0, slots = [], hdr = (\<lambda>_. zero_header),
     blk = (\<lambda>_. zero_block), mem = (\<lambda>_. 0)\<rparr>"

definition demo_heap :: rm_state where
  "demo_heap = rm_init 1000 1024 zero_state"

definition demo_block :: rm_state where
  "demo_block = (case rm_malloc 100 demo_heap of Inr (h, s) \<Rightarrow> s | Inl e \<Rightarrow> demo_heap)"

lemma demo_log2: "rm_log2 1024 = 10" "rm_log2 100 = 6" "rm_log2 16 = 4"
  by (rule rm_log2_eqI; simp)+

lemma demo_init_ok: "init_ok 1000 1024"
  by (simp add: init_ok_def demo_log2)

lemma demo_heap_wfs: "wfs demo_heap [] [] (\<lambda>_. [])"
  unfolding demo_heap_def by (rule rm_init_wf [OF demo_init_ok])

lemma demo_heap_wf: "well_formed demo_heap"
  using demo_heap_wfs by (auto simp: well_formed_def)

lemmas demo_fields = rm_init_fields [OF demo_init_ok demo_heap_def, unfolded demo_log2, simplified]

lemma demo_request: "n \<le> 1024 \<Longrightarrow> request_ok demo_heap n"
  by (rule request_ok_within [OF demo_heap_wfs]) (simp_all add: demo_fields)

lemma demo_malloc:
  "rm_malloc 100 demo_heap = Inr (1995, demo_block)"
  "header_root demo_block = 1995" "h_next (hdr demo_block 1995) = 0"
  "h_memory (hdr demo_block 1995) = 1088" "h_size (hdr demo_block 1995) = 100"
  "h_type (hdr demo_block 1995) = BLOCK_TYPE_UNLOCKED" "memory_top demo_block = 1188"
  "header_bottom demo_block = 1966" "slots demo_block = slots demo_heap"
  by (simp_all add: demo_block_def rm_malloc_def uintptr_of_int_def block_new_def header_new_def
      rm_header_find_free_def demo_fields Let_def u64_def u32_def zero_header_def upd_hdr_def
      update_highest_address_if_needed_def)

lemma demo_block_wf: "well_formed demo_block"
proof -
  from rm_malloc_wf [OF demo_heap_wfs, of 100] demo_request [of 100] demo_malloc(1)
  show ?thesis by auto
qed

lemma demo_block_chain: "chain (nxt demo_block) (header_root demo_block) L 0 \<longleftrightarrow> L = [1995]"
proof -
  have c: "chain (nxt demo_block) (header_root demo_block) [1995] 0"
    by (simp only: chain.simps) (simp add: demo_malloc)
  then show ?thesis using chain_functional by blast
qed

lemma demo_block_live: "live demo_block h \<longleftrightarrow> h = 1995"
  unfolding live_def demo_block_chain by (auto simp: demo_malloc in_use_def)

end
