(* ===== verification/Rm_Stat.thy ===== *)
theory Rm_Stat
  imports Rm_Contract
begin

text \<open>
  The statistics of \<open>src/jeff/compact.c\<close> (\<open>rm_stat_total_free_list\<close>,
  \<open>rm_stat_largest_free_block\<close>, \<open>rm_stat_highest_used_address\<close>) and what they report on a
  well-formed heap.
\<close>

section \<open>Operations\<close>

text \<open>The loop over one list; coming back to its first block \<open>a\<close> is a panic.\<close>

function stat_total_list :: "nat \<Rightarrow> nat \<Rightarrow> nat \<Rightarrow> nat \<Rightarrow> rm_state \<Rightarrow> nat res" where
  "stat_total_list fuel a b acc s =
     (if b \<noteq> 0 then
        if fuel = 0 then Inl Diverge
        else
          let acc' = u32 (acc + block_size s b); b' = b_next (blk s b)
          in if a = b' then Inl Abort else stat_total_list (fuel - 1) a b' acc' s
      else Inr acc)"
  by pat_completeness auto
termination by (relation "measure (\<lambda>(fuel, _). fuel)") auto

declare stat_total_list.simps [simp del]

function stat_total_slots :: "nat \<Rightarrow> nat \<Rightarrow> rm_state \<Rightarrow> nat res" where
  "stat_total_slots i acc s =
     (if i < free_block_slot_count s then
        bind_res (read_slot i s) (\<lambda>b.
        bind_res (stat_total_list list_fuel b b acc s) (\<lambda>acc'. stat_total_slots (i + 1) acc' s))
      else Inr acc)"
  by pat_completeness auto
termination by (relation "measure (\<lambda>(i, _, s). free_block_slot_count s - i)") auto

declare stat_total_slots.simps [simp del]

definition rm_stat_total_free_list :: "rm_state \<Rightarrow> nat res" where
  "rm_stat_total_free_list s = stat_total_slots 0 0 s"

function stat_largest_list :: "nat \<Rightarrow> nat \<Rightarrow> nat \<Rightarrow> nat \<Rightarrow> rm_state \<Rightarrow> nat res" where
  "stat_largest_list fuel a b largest s =
     (if b \<noteq> 0 then
        if fuel = 0 then Inl Diverge
        else
          let largest' = (if block_size s b > largest then block_size s b else largest);
              b' = b_next (blk s b)
          in if a = b' then Inl Abort else stat_largest_list (fuel - 1) a b' largest' s
      else Inr largest)"
  by pat_completeness auto
termination by (relation "measure (\<lambda>(fuel, _). fuel)") auto

declare stat_largest_list.simps [simp del]

function stat_largest_slots :: "nat \<Rightarrow> nat \<Rightarrow> rm_state \<Rightarrow> nat res" where
  "stat_largest_slots i largest s =
     (if i < free_block_slot_count s then
        bind_res (read_slot i s) (\<lambda>b.
        bind_res (stat_largest_list list_fuel b b largest s) (\<lambda>largest'.
        stat_largest_slots (i + 1) largest' s))
      else Inr largest)"
  by pat_completeness auto
termination by (relation "measure (\<lambda>(i, _, s). free_block_slot_count s - i)") auto

declare stat_largest_slots.simps [simp del]

definition rm_stat_largest_free_block :: "rm_state \<Rightarrow> nat res" where
  "rm_stat_largest_free_block s = stat_largest_slots 0 0 s"

function stat_highest_loop :: "nat \<Rightarrow> nat \<Rightarrow> nat \<Rightarrow> rm_state \<Rightarrow> nat res" where
  "stat_highest_loop fuel highest h s =
     (if h \<noteq> 0 then
        if fuel = 0 then Inl Diverge
        else
          let top = u64 (h_size (hdr s h) + h_memory (hdr s h)) in
          if h_type (hdr s h) \<noteq> BLOCK_TYPE_FREE \<and> top > highest
          then stat_highest_loop (fuel - 1) top (nxt s h) s
          else stat_highest_loop (fuel - 1) highest (nxt s h) s
      else Inr highest)"
  by pat_completeness auto
termination by (relation "measure (\<lambda>(fuel, _). fuel)") auto

declare stat_highest_loop.simps [simp del]

definition rm_stat_highest_used_address :: "bool \<Rightarrow> rm_state \<Rightarrow> nat res" where
  "rm_stat_highest_used_address full_calculation s =
     (if full_calculation then stat_highest_loop list_fuel 0 (header_root s) s
      else let h = highest_address_header s
           in if h = 0 then Inl Null_deref
              else Inr (u64 (h_memory (hdr s h) + h_size (hdr s h))))"

section \<open>The loops on a chain\<close>

lemma stat_total_list_chain:
  assumes "chain (bnxt s) b bs 0" and "a \<noteq> 0" and "a \<notin> set (tl bs)" and "length bs \<le> fuel"
    and "acc < 2 ^ 32"
  shows "stat_total_list fuel a b acc s = Inr (u32 (acc + sum_list (map (block_size s) bs)))"
  using assms
proof (induction bs arbitrary: b fuel acc)
  case Nil
  then show ?case by (simp add: stat_total_list.simps)
next
  case (Cons x bs)
  have c: "chain (bnxt s) (bnxt s b) bs 0" "b \<noteq> 0" "x = b" using Cons.prems(1) by auto
  have na: "a \<noteq> bnxt s b" using c(1) Cons.prems(2,3) by (cases bs) auto
  have f: "fuel \<noteq> 0" "length bs \<le> fuel - 1" using Cons.prems(4) by auto
  have nt: "a \<notin> set (tl bs)" using Cons.prems(3) by (cases bs) auto
  have "stat_total_list (fuel - 1) a (bnxt s b) (u32 (acc + block_size s b)) s
      = Inr (u32 (u32 (acc + block_size s b) + sum_list (map (block_size s) bs)))"
    by (rule Cons.IH [OF c(1) Cons.prems(2) nt f(2) u32_less])
  moreover have "u32 (u32 (acc + block_size s b) + n) = u32 (acc + (block_size s b + n))" for n
    unfolding u32_def by (metis add.assoc mod_add_left_eq)
  ultimately show ?case
    using c f na by (subst stat_total_list.simps) (simp add: Let_def)
qed

lemma stat_largest_list_chain:
  assumes "chain (bnxt s) b bs 0" and "a \<noteq> 0" and "a \<notin> set (tl bs)" and "length bs \<le> fuel"
  shows "stat_largest_list fuel a b largest s = Inr (fold max (map (block_size s) bs) largest)"
  using assms
proof (induction bs arbitrary: b fuel largest)
  case Nil
  then show ?case by (simp add: stat_largest_list.simps)
next
  case (Cons x bs)
  have c: "chain (bnxt s) (bnxt s b) bs 0" "b \<noteq> 0" "x = b" using Cons.prems(1) by auto
  have na: "a \<noteq> bnxt s b" using c(1) Cons.prems(2,3) by (cases bs) auto
  have f: "fuel \<noteq> 0" "length bs \<le> fuel - 1" using Cons.prems(4) by auto
  have nt: "a \<notin> set (tl bs)" using Cons.prems(3) by (cases bs) auto
  have m: "(if block_size s b > largest then block_size s b else largest)
      = max (block_size s b) largest" by simp
  show ?case
    using c f na Cons.IH [OF c(1) Cons.prems(2) nt f(2)]
    by (subst stat_largest_list.simps) (simp add: Let_def m)
qed

lemma stat_highest_loop_chain:
  assumes "chain (nxt s) h hs 0" and "length hs \<le> fuel"
  shows "stat_highest_loop fuel highest h s
    = Inr (fold max (map (\<lambda>h. u64 (h_size (hdr s h) + h_memory (hdr s h)))
        (filter (in_use s) hs)) highest)"
  using assms
proof (induction hs arbitrary: h fuel highest)
  case Nil
  then show ?case by (simp add: stat_highest_loop.simps)
next
  case (Cons x hs)
  have c: "chain (nxt s) (nxt s h) hs 0" "h \<noteq> 0" "x = h" using Cons.prems(1) by auto
  have f: "fuel \<noteq> 0" "length hs \<le> fuel - 1" using Cons.prems(2) by auto
  show ?case
    using c f Cons.IH [OF c(1) f(2)]
    by (subst stat_highest_loop.simps)
      (simp add: Let_def in_use_def [of s h] max.absorb1 max.absorb2 not_less less_imp_le)
qed

section \<open>On a well-formed heap\<close>

text \<open>All the listed free blocks: each is on one list only, is on the header list and not in use.\<close>

definition listed :: "rm_state \<Rightarrow> (nat \<Rightarrow> nat list) \<Rightarrow> nat list" where
  "listed s F = concat (map F [0..<length (slots s)])"

lemma distinct_concat_map:
  "distinct ks \<Longrightarrow> (\<And>k. k \<in> set ks \<Longrightarrow> distinct (f k)) \<Longrightarrow>
   (\<And>j k. j \<in> set ks \<Longrightarrow> k \<in> set ks \<Longrightarrow> j \<noteq> k \<Longrightarrow> set (f j) \<inter> set (f k) = {}) \<Longrightarrow>
   distinct (concat (map f ks))"
proof (induction ks)
  case (Cons k ks)
  then have "set (f k) \<inter> set (concat (map f ks)) = {}"
    by (simp add: disjoint_iff) metis
  with Cons show ?case by simp
qed simp

lemma slot_list_distinct:
  assumes "wfs s L P F" and "k < length (slots s)"
  shows "distinct (map (rm_block_from_header s) (F k))" and "distinct (F k)"
  using chain_null_distinct [OF free_lists_chain [OF wf_parts(6) [OF assms(1)] assms(2)]]
  by (simp_all add: distinct_map)

lemma listed_facts:
  assumes w: "wfs s L P F"
  shows "distinct (listed s F)" and "set (listed s F) \<subseteq> {h \<in> set L. \<not> in_use s h}"
proof -
  have m: "listed_free s L k h" if "k < length (slots s)" "h \<in> set (F k)" for k h
    using free_lists_member [OF wf_parts(6) [OF w] that] .
  show "distinct (listed s F)"
    unfolding listed_def
  proof (rule distinct_concat_map)
    show "distinct [0..<length (slots s)]" by simp
    show "distinct (F k)" if "k \<in> set [0..<length (slots s)]" for k
      using slot_list_distinct(2) [OF w] that by simp
    show "set (F j) \<inter> set (F k) = {}"
      if "j \<in> set [0..<length (slots s)]" "k \<in> set [0..<length (slots s)]" "j \<noteq> k" for j k
    proof (rule ccontr)
      assume "set (F j) \<inter> set (F k) \<noteq> {}"
      then obtain h where "h \<in> set (F j)" "h \<in> set (F k)" by blast
      with m [of j h] m [of k h] that show False by (simp add: listed_free_def)
    qed
  qed
  show "set (listed s F) \<subseteq> {h \<in> set L. \<not> in_use s h}"
    using m by (auto simp: listed_def listed_free_def in_use_def)
qed

lemma slot_blocks:
  assumes "wfs s L P F" and "k < length (slots s)"
  shows "map (block_size s) (map (rm_block_from_header s) (F k)) = map (\<lambda>h. h_size (hdr s h)) (F k)"
  using free_lists_member [OF wf_parts(6) [OF assms(1)] assms(2)]
  by (auto simp: listed_free_def)

lemma slot_stat:
  assumes w: "wfs s L P F" and k: "k < length (slots s)" and b: "b = slots s ! k"
  shows "acc < 2 ^ 32 \<Longrightarrow> stat_total_list list_fuel b b acc s = Inr (u32 (acc + sizes s (F k)))"
    and "stat_largest_list list_fuel b b largest s
      = Inr (fold max (map (\<lambda>h. h_size (hdr s h)) (F k)) largest)"
proof -
  let ?bs = "map (rm_block_from_header s) (F k)"
  have c: "chain (bnxt s) b ?bs 0" using free_lists_chain [OF wf_parts(6) [OF w] k] b by simp
  have d: "distinct ?bs" by (rule slot_list_distinct [OF w k])
  have l: "length ?bs \<le> list_fuel" using wf_list_fuel [OF w k] by simp
  show "stat_largest_list list_fuel b b largest s
      = Inr (fold max (map (\<lambda>h. h_size (hdr s h)) (F k)) largest)"
  proof (cases "b = 0")
    case True
    with c show ?thesis by (simp add: stat_largest_list.simps)
  next
    case False
    have "b \<notin> set (tl ?bs)" using c d False by (cases ?bs) auto
    from stat_largest_list_chain [OF c False this l] show ?thesis
      by (simp only: slot_blocks [OF w k])
  qed
  assume a: "acc < 2 ^ 32"
  show "stat_total_list list_fuel b b acc s = Inr (u32 (acc + sizes s (F k)))"
  proof (cases "b = 0")
    case True
    with c a show ?thesis by (simp add: stat_total_list.simps sizes_def)
  next
    case False
    have "b \<notin> set (tl ?bs)" using c d False by (cases ?bs) auto
    from stat_total_list_chain [OF c False this l a] show ?thesis
      by (simp only: slot_blocks [OF w k] sizes_def)
  qed
qed

lemma stat_total_slots_spec:
  assumes w: "wfs s L P F"
  shows "acc + sizes s (concat (map F [i..<length (slots s)])) < 2 ^ 32 \<Longrightarrow>
    stat_total_slots i acc s = Inr (acc + sizes s (concat (map F [i..<length (slots s)])))"
proof (induction "length (slots s) - i" arbitrary: i acc)
  case 0
  then show ?case
    using wf_parts(1) [OF w] by (subst stat_total_slots.simps) (simp add: geometry_def sizes_def)
next
  case (Suc n)
  then have i: "i < length (slots s)" by simp
  then have up: "[i..<length (slots s)] = i # [Suc i..<length (slots s)]" by (simp add: upt_conv_Cons)
  have split: "sizes s (concat (map F [i..<length (slots s)]))
      = sizes s (F i) + sizes s (concat (map F [Suc i..<length (slots s)]))"
    unfolding up by (simp add: sizes_def)
  with Suc.prems have lt: "acc + sizes s (F i) < 2 ^ 32" "acc < 2 ^ 32"
      "acc + sizes s (F i) + sizes s (concat (map F [Suc i..<length (slots s)])) < 2 ^ 32" by simp_all
  have "stat_total_list list_fuel (slots s ! i) (slots s ! i) acc s = Inr (acc + sizes s (F i))"
    using slot_stat(1) [OF w i refl lt(2)] lt(1) by simp
  moreover have "stat_total_slots (Suc i) (acc + sizes s (F i)) s
      = Inr (acc + sizes s (F i) + sizes s (concat (map F [Suc i..<length (slots s)])))"
    using Suc.hyps(2) by (intro Suc.hyps(1) lt(3)) simp
  ultimately show ?case
    using i wf_parts(1) [OF w] split
    by (subst stat_total_slots.simps) (simp add: read_slot_def geometry_def)
qed

lemma stat_largest_slots_spec:
  assumes w: "wfs s L P F"
  shows "stat_largest_slots i largest s
    = Inr (fold max (map (\<lambda>h. h_size (hdr s h)) (concat (map F [i..<length (slots s)]))) largest)"
proof (induction "length (slots s) - i" arbitrary: i largest)
  case 0
  then show ?case
    using wf_parts(1) [OF w] by (subst stat_largest_slots.simps) (simp add: geometry_def)
next
  case (Suc n)
  then have i: "i < length (slots s)" by simp
  then have up: "[i..<length (slots s)] = i # [Suc i..<length (slots s)]" by (simp add: upt_conv_Cons)
  have "stat_largest_slots (Suc i) l s = Inr (fold max (map (\<lambda>h. h_size (hdr s h))
      (concat (map F [Suc i..<length (slots s)]))) l)" for l
    using Suc.hyps(2) by (intro Suc.hyps(1)) simp
  then show ?case
    unfolding up using i wf_parts(1) [OF w] slot_stat(2) [OF w i refl]
    by (subst stat_largest_slots.simps) (simp add: read_slot_def geometry_def)
qed

text \<open>The memory of the live blocks and of the listed free blocks.\<close>

definition live_memory :: "rm_state \<Rightarrow> nat" where
  "live_memory s = (\<Sum>g | live s g. h_size (hdr s g))"

lemma memory_accounts:
  assumes w: "wfs s L P F"
  shows "sizes s (listed s F) + live_memory s \<le> memory_top s - memory_bottom s"
    and "sizes s (listed s F) < 2 ^ 31"
proof -
  have pl: "placed s L P" and d: "distinct L" using w by (auto intro: wf_parts)
  have t: "tiled (memory_bottom s) (memory_top s) (map (extent s) P)" and m: "mset P = mset L"
    using pl by (simp_all add: placed_def)
  have "sizes s P = sizes s L" unfolding sizes_def using m by (metis mset_map sum_mset_sum_list)
  then have top: "memory_top s = memory_bottom s + sizes s L" using tiled_extent_sizes [OF t] by simp
  let ?A = "set (listed s F)" and ?B = "{g. live s g}"
  have B: "?B = {g \<in> set L. in_use s g}" using live_wf [OF w] by blast
  have A: "?A \<subseteq> set L" "?A \<inter> ?B = {}" using listed_facts(2) [OF w] B by auto
  have "sizes s (listed s F) + live_memory s = (\<Sum>g\<in>?A. h_size (hdr s g)) + (\<Sum>g\<in>?B. h_size (hdr s g))"
    using listed_facts(1) [OF w]
    by (simp add: sizes_def live_memory_def sum_list_distinct_conv_sum_set)
  also have "\<dots> = (\<Sum>g\<in>?A \<union> ?B. h_size (hdr s g))"
    using A(2) B by (intro sum.union_disjoint [symmetric]) auto
  also have "\<dots> \<le> (\<Sum>g\<in>set L. h_size (hdr s g))"
    using A(1) B by (intro sum_mono2) auto
  also have "\<dots> = sizes s L" using d by (simp add: sizes_def sum_list_distinct_conv_sum_set)
  finally show le: "sizes s (listed s F) + live_memory s \<le> memory_top s - memory_bottom s"
    using top by simp
  have "memory_top s - memory_bottom s < 2 ^ 31" using wf_parts(1) [OF w] by (auto simp: geometry_def)
  with le show "sizes s (listed s F) < 2 ^ 31" by linarith
qed

lemma rm_stat_total_free_list_spec:
  assumes w: "wfs s L P F"
  shows "rm_stat_total_free_list s = Inr (sizes s (listed s F))"
  using stat_total_slots_spec [OF w, of 0 0] memory_accounts(2) [OF w]
  by (simp add: rm_stat_total_free_list_def listed_def)

lemma fold_max_Max: "fold max xs (m::nat) = Max (insert m (set xs))"
proof (induction xs arbitrary: m)
  case (Cons x xs)
  then have "fold max (x # xs) m = Max (insert (max x m) (set xs))" by simp
  also have "\<dots> = Max (insert m (set (x # xs)))"
    by (cases "set xs = {}") (auto simp: Max_insert max.commute max.left_commute)
  finally show ?case .
qed simp

lemma rm_stat_largest_free_block_spec:
  assumes w: "wfs s L P F"
  shows "rm_stat_largest_free_block s
    = Inr (Max (insert 0 (h_size ` hdr s ` set (listed s F))))"
  using stat_largest_slots_spec [OF w, of 0 0]
  by (simp add: rm_stat_largest_free_block_def listed_def fold_max_Max image_image)

lemma wf_length:
  assumes w: "wfs s L P F"
  shows "length L \<le> list_fuel"
proof -
  have "length L < 2 ^ 64"
    by (rule distinct_bounded_length [OF wf_parts(7) [OF w]])
      (use wf_parts(1,4) [OF w] in \<open>fastforce simp: header_slot_def geometry_def\<close>)+
  then show ?thesis by (simp add: list_fuel_def)
qed

lemma rm_stat_highest_spec:
  assumes w: "wfs s L P F" and ne: "L \<noteq> []"
  shows "rm_stat_highest_used_address True s
    = Inr (Max (insert 0 ((\<lambda>h. h_memory (hdr s h) + h_size (hdr s h)) ` {h. live s h})))"
proof -
  have c: "chain (nxt s) (header_root s) L 0"
    using wf_parts(2) [OF w] ne by (simp add: header_list_def)
  have l: "length L \<le> list_fuel" by (rule wf_length [OF w])
  have u: "u64 (h_size (hdr s h) + h_memory (hdr s h)) = h_memory (hdr s h) + h_size (hdr s h)"
    if "h \<in> set L" for h
    using wf_sizes(8) [OF w that] by (simp add: add.commute)
  have "(\<lambda>h. u64 (h_size (hdr s h) + h_memory (hdr s h))) ` set (filter (in_use s) L)
      = (\<lambda>h. h_memory (hdr s h) + h_size (hdr s h)) ` {h. live s h}"
    unfolding live_wf [OF w] using u by force
  with stat_highest_loop_chain [OF c l, of 0] show ?thesis
    by (simp add: rm_stat_highest_used_address_def fold_max_Max)
qed

end
