(* ===== verification/Rm_Debug.thy ===== *)
theory Rm_Debug
  imports Rm_Stat
begin

text \<open>
  The checks of \<open>src/jeff/compact_debug.c\<close>, which the debug build runs between the operations:
  each walks one of the structures of the heap and calls \<open>abort\<close> when it finds it damaged. The
  lemmas show what each check accepts, and that none of them stops on a well-formed heap.
\<close>

section \<open>Checks of the headers\<close>

definition poisoned :: "nat \<Rightarrow> bool" where
  "poisoned p \<longleftrightarrow>
     p = 0xbeefbabe \<or> p = 0x42424242 \<or> p = 0x43434343 \<or> p = 0x44444444 \<or> p = 0x45454545"

text \<open>The sweep of the header array; past \<open>header_top\<close> it reads outside of the heap.\<close>

function handles_valid_loop :: "nat \<Rightarrow> rm_state \<Rightarrow> unit res" where
  "handles_valid_loop h s =
     (if h = header_top s then Inr ()
      else if h > header_top s then Inl Out_of_bounds
      else if poisoned (h_memory (hdr s h)) \<or> poisoned (h_next (hdr s h)) then Inl Abort
      else handles_valid_loop (h + sizeof_rm_header_t) s)"
  by pat_completeness auto
termination by (relation "measure (\<lambda>(h, s). header_top s - h)") auto

declare handles_valid_loop.simps [simp del]

definition assert_handles_valid :: "rm_state \<Rightarrow> unit res" where
  "assert_handles_valid s = handles_valid_loop (header_bottom s) s"

definition header_fillchar :: "nat \<Rightarrow> 8 word" where
  "header_fillchar h = of_nat (h mod 256)"

fun memory_contents_loop :: "8 word \<Rightarrow> nat \<Rightarrow> nat \<Rightarrow> rm_state \<Rightarrow> bool" where
  "memory_contents_loop c memory 0 s = True"
| "memory_contents_loop c memory (Suc n) s =
     (if mem s memory \<noteq> c then False else memory_contents_loop c (memory + 1) n s)"

definition assert_memory_contents :: "nat \<Rightarrow> rm_state \<Rightarrow> bool" where
  "assert_memory_contents h s =
     memory_contents_loop (header_fillchar h) (h_memory (hdr s h)) (h_size (hdr s h)) s"

function assert_blocks_loop :: "nat \<Rightarrow> nat \<Rightarrow> rm_state \<Rightarrow> unit res" where
  "assert_blocks_loop fuel node s =
     (if node \<noteq> 0 then
        if fuel = 0 then Inl Diverge
        else if h_type (hdr s node) \<noteq> BLOCK_TYPE_FREE \<and> \<not> assert_memory_contents node s
        then Inl Abort
        else assert_blocks_loop (fuel - 1) (nxt s node) s
      else Inr ())"
  by pat_completeness auto
termination by (relation "measure (\<lambda>(fuel, _). fuel)") auto

declare assert_blocks_loop.simps [simp del]

definition assert_blocks :: "rm_state \<Rightarrow> unit res" where
  "assert_blocks s = assert_blocks_loop list_fuel (header_root s) s"

text \<open>No block in use contains the address \<open>p\<close>.\<close>

function memory_is_free_loop :: "nat \<Rightarrow> nat \<Rightarrow> nat \<Rightarrow> rm_state \<Rightarrow> unit res" where
  "memory_is_free_loop fuel p h s =
     (if h \<noteq> 0 then
        if fuel = 0 then Inl Diverge
        else if h_type (hdr s h) \<noteq> BLOCK_TYPE_FREE \<and> p \<ge> h_memory (hdr s h)
          \<and> p < u64 (h_memory (hdr s h) + h_size (hdr s h))
        then Inl Abort
        else memory_is_free_loop (fuel - 1) p (nxt s h) s
      else Inr ())"
  by pat_completeness auto
termination by (relation "measure (\<lambda>(fuel, _). fuel)") auto

declare memory_is_free_loop.simps [simp del]

definition assert_memory_is_free :: "nat \<Rightarrow> rm_state \<Rightarrow> unit res" where
  "assert_memory_is_free p s = memory_is_free_loop list_fuel p (header_root s) s"

text \<open>The check of the order of the list: \<open>prev\<close> is set to the header it is compared with.\<close>

function list_is_sorted_loop :: "nat \<Rightarrow> nat \<Rightarrow> nat \<Rightarrow> rm_state \<Rightarrow> unit res" where
  "list_is_sorted_loop fuel prev root s =
     (if root \<noteq> 0 then
        if fuel = 0 then Inl Diverge
        else
          let prev = root in
          if h_memory (hdr s prev) > h_memory (hdr s root) then Inl Abort
          else list_is_sorted_loop (fuel - 1) prev (nxt s root) s
      else Inr ())"
  by pat_completeness auto
termination by (relation "measure (\<lambda>(fuel, _). fuel)") auto

declare list_is_sorted_loop.simps [simp del]

definition assert_list_is_sorted :: "nat \<Rightarrow> rm_state \<Rightarrow> unit res" where
  "assert_list_is_sorted root s = list_is_sorted_loop list_fuel root root s"

section \<open>Checks of the free lists\<close>

function verify_lower_list :: "nat \<Rightarrow> nat \<Rightarrow> nat \<Rightarrow> rm_state \<Rightarrow> unit res" where
  "verify_lower_list fuel lower b s =
     (if b \<noteq> 0 then
        if fuel = 0 then Inl Diverge
        else if block_size s b < lower \<or> h_memory (hdr s (b_header (blk s b))) = 0
        then Inl Abort
        else verify_lower_list (fuel - 1) lower (b_next (blk s b)) s
      else Inr ())"
  by pat_completeness auto
termination by (relation "measure (\<lambda>(fuel, _). fuel)") auto

declare verify_lower_list.simps [simp del]

function verify_lower_slots :: "nat \<Rightarrow> rm_state \<Rightarrow> unit res" where
  "verify_lower_slots k s =
     (if k < free_block_slot_count s then
        bind_res (read_slot k s) (\<lambda>b.
        bind_res (verify_lower_list list_fuel (int_shl1 k) b s) (\<lambda>_.
        verify_lower_slots (k + 1) s))
      else Inr ())"
  by pat_completeness auto
termination by (relation "measure (\<lambda>(k, s). free_block_slot_count s - k)") auto

declare verify_lower_slots.simps [simp del]

definition freeblock_verify_lower_size :: "rm_state \<Rightarrow> unit res" where
  "freeblock_verify_lower_size s = verify_lower_slots 0 s"

text \<open>
  The two searches for a block run over the same lists with different tests; \<open>exists_list\<close> is
  their common loop.
\<close>

function exists_list :: "nat \<Rightarrow> (nat \<Rightarrow> rm_state \<Rightarrow> bool) \<Rightarrow> nat \<Rightarrow> rm_state \<Rightarrow> bool res" where
  "exists_list fuel test b s =
     (if b \<noteq> 0 then
        if fuel = 0 then Inl Diverge
        else if test b s then Inr True
        else exists_list (fuel - 1) test (b_next (blk s b)) s
      else Inr False)"
  by pat_completeness auto
termination by (relation "measure (\<lambda>(fuel, _). fuel)") auto

declare exists_list.simps [simp del]

function exists_slots :: "nat \<Rightarrow> (nat \<Rightarrow> rm_state \<Rightarrow> bool) \<Rightarrow> rm_state \<Rightarrow> bool res" where
  "exists_slots i test s =
     (if i < free_block_slot_count s then
        bind_res (read_slot i s) (\<lambda>b.
        bind_res (exists_list list_fuel test b s) (\<lambda>found.
        if found then Inr True else exists_slots (i + 1) test s))
      else Inr False)"
  by pat_completeness auto
termination by (relation "measure (\<lambda>(i, _, s). free_block_slot_count s - i)") auto

declare exists_slots.simps [simp del]

definition freeblock_exists_memory :: "nat \<Rightarrow> rm_state \<Rightarrow> bool res" where
  "freeblock_exists_memory ptr s =
     exists_slots 0 (\<lambda>b s. h_memory (hdr s (b_header (blk s b))) = ptr) s"

definition freeblock_exists :: "nat \<Rightarrow> rm_state \<Rightarrow> bool res" where
  "freeblock_exists block s = exists_slots 0 (\<lambda>b s. b = block) s"

definition freeblock_assert_sane :: "nat \<Rightarrow> rm_state \<Rightarrow> unit res" where
  "freeblock_assert_sane block s =
     (if block \<noteq> rm_block_from_header s (b_header (blk s block)) then Inl Abort else Inr ())"

function checkloop :: "nat \<Rightarrow> nat \<Rightarrow> nat \<Rightarrow> rm_state \<Rightarrow> bool res" where
  "checkloop fuel a block s =
     (if block \<noteq> 0 then
        if fuel = 0 then Inl Diverge
        else
          let block' = b_next (blk s block) in
          if block' = a then Inl Abort else checkloop (fuel - 1) a block' s
      else Inr False)"
  by pat_completeness auto
termination by (relation "measure (\<lambda>(fuel, _). fuel)") auto

declare checkloop.simps [simp del]

definition freeblock_checkloop :: "nat \<Rightarrow> rm_state \<Rightarrow> bool res" where
  "freeblock_checkloop block s = checkloop list_fuel block block s"

section \<open>What the checks accept\<close>

lemma handles_valid_loop_iff:
  "h \<le> header_top s \<Longrightarrow> sizeof_rm_header_t dvd header_top s - h \<Longrightarrow>
   handles_valid_loop h s =
     (if \<exists>g. h \<le> g \<and> g < header_top s \<and> sizeof_rm_header_t dvd header_top s - g
           \<and> (poisoned (h_memory (hdr s g)) \<or> poisoned (h_next (hdr s g)))
      then Inl Abort else Inr ())"
proof (induction h s rule: handles_valid_loop.induct)
  case (1 h s)
  show ?case
  proof (cases "h = header_top s")
    case True
    then show ?thesis by (subst handles_valid_loop.simps) auto
  next
    case False
    then have lt: "h < header_top s" using 1 by simp
    have far: "h + 29 \<le> g" if "h < g" "g \<le> header_top s" "29 dvd header_top s - g" for g
    proof -
      have "(header_top s - h) - (header_top s - g) = g - h" using that by simp
      with 1(3) that(3) have "29 dvd g - h" by (metis dvd_diff_nat)
      with that(1) show ?thesis by (auto dest: dvd_imp_le)
    qed
    have step: "h + 29 \<le> header_top s" using far [of "header_top s"] lt by simp
    then have d: "29 dvd header_top s - (h + 29)" using 1(3) by (simp add: dvd_diff_nat flip: diff_diff_left)
    let ?bad = "\<lambda>g. poisoned (h_memory (hdr s g)) \<or> poisoned (h_next (hdr s g))"
    have split: "(\<exists>g. h \<le> g \<and> g < header_top s \<and> 29 dvd header_top s - g \<and> ?bad g)
        \<longleftrightarrow> ?bad h \<or> (\<exists>g. h + 29 \<le> g \<and> g < header_top s \<and> 29 dvd header_top s - g \<and> ?bad g)"
      using far lt 1(3) by (metis add_leD1 le_neq_implies_less less_imp_le order_refl)
    show ?thesis
    proof (cases "?bad h")
      case True
      with lt False show ?thesis unfolding split by (subst handles_valid_loop.simps) simp
    next
      case nb: False
      from 1(1) [OF False _ nb step d] lt show ?thesis
        unfolding split using nb False by (subst handles_valid_loop.simps) simp
    qed
  qed
qed

lemma memory_contents_loop_iff:
  "memory_contents_loop c a n s \<longleftrightarrow> (\<forall>i<n. mem s (a + i) = c)"
proof (induction n arbitrary: a)
  case (Suc n)
  have "(\<forall>i<Suc n. mem s (a + i) = c) \<longleftrightarrow> mem s a = c \<and> (\<forall>i<n. mem s (a + 1 + i) = c)"
    by (simp add: All_less_Suc2)
  with Suc show ?case by simp
qed simp

lemma assert_memory_contents_iff:
  "assert_memory_contents h s \<longleftrightarrow>
   (\<forall>i<h_size (hdr s h). mem s (h_memory (hdr s h) + i) = header_fillchar h)"
  by (simp add: assert_memory_contents_def memory_contents_loop_iff)

lemma assert_blocks_loop_chain:
  "chain (nxt s) h hs 0 \<Longrightarrow> length hs \<le> fuel \<Longrightarrow>
   assert_blocks_loop fuel h s =
     (if \<forall>g\<in>set hs. in_use s g \<longrightarrow> assert_memory_contents g s then Inr () else Inl Abort)"
proof (induction hs arbitrary: h fuel)
  case (Cons x hs)
  then show ?case
    by (subst assert_blocks_loop.simps) (auto simp: in_use_def)
qed (simp add: assert_blocks_loop.simps)

lemma memory_is_free_loop_chain:
  "chain (nxt s) h hs 0 \<Longrightarrow> length hs \<le> fuel \<Longrightarrow>
   memory_is_free_loop fuel p h s =
     (if \<exists>g\<in>set hs. in_use s g \<and> h_memory (hdr s g) \<le> p
           \<and> p < u64 (h_memory (hdr s g) + h_size (hdr s g))
      then Inl Abort else Inr ())"
proof (induction hs arbitrary: h fuel)
  case (Cons x hs)
  then show ?case
    by (subst memory_is_free_loop.simps) (auto simp: in_use_def)
qed (simp add: memory_is_free_loop.simps)

lemma list_is_sorted_loop_chain:
  "chain (nxt s) h hs 0 \<Longrightarrow> length hs \<le> fuel \<Longrightarrow> list_is_sorted_loop fuel prev h s = Inr ()"
proof (induction hs arbitrary: h fuel prev)
  case (Cons x hs)
  then show ?case by (subst list_is_sorted_loop.simps) auto
qed (simp add: list_is_sorted_loop.simps)

lemma verify_lower_list_chain:
  "chain (bnxt s) b bs 0 \<Longrightarrow> length bs \<le> fuel \<Longrightarrow>
   verify_lower_list fuel n b s =
     (if \<forall>c\<in>set bs. n \<le> block_size s c \<and> h_memory (hdr s (b_header (blk s c))) \<noteq> 0
      then Inr () else Inl Abort)"
proof (induction bs arbitrary: b fuel)
  case (Cons x bs)
  then show ?case by (subst verify_lower_list.simps) (auto simp: not_less)
qed (simp add: verify_lower_list.simps)

lemma exists_list_chain:
  "chain (bnxt s) b bs 0 \<Longrightarrow> length bs \<le> fuel \<Longrightarrow>
   exists_list fuel test b s = Inr (\<exists>c\<in>set bs. test c s)"
proof (induction bs arbitrary: b fuel)
  case (Cons x bs)
  then show ?case by (subst exists_list.simps) auto
qed (simp add: exists_list.simps)

lemma checkloop_chain:
  "chain (bnxt s) b bs 0 \<Longrightarrow> length bs \<le> fuel \<Longrightarrow> a \<noteq> 0 \<Longrightarrow> a \<notin> set (tl bs) \<Longrightarrow>
   checkloop fuel a b s = Inr False"
proof (induction bs arbitrary: b fuel)
  case (Cons x bs)
  then have c: "chain (bnxt s) (bnxt s b) bs 0" "b \<noteq> 0" by auto
  with Cons.prems have "a \<noteq> bnxt s b" "a \<notin> set (tl bs)" by (cases bs; auto)+
  with Cons c show ?case by (subst checkloop.simps) (auto simp: Let_def)
qed (simp add: checkloop.simps)

section \<open>On a well-formed heap\<close>

lemma wf_chain:
  "wfs s L P F \<Longrightarrow> L \<noteq> [] \<Longrightarrow> chain (nxt s) (header_root s) L 0"
  by (auto simp: wfs_def header_list_def)

lemma verify_lower_slots_spec:
  assumes w: "wfs s L P F"
  shows "verify_lower_slots k s = Inr ()"
proof (induction "length (slots s) - k" arbitrary: k)
  case 0
  then show ?case
    using wf_parts(1) [OF w] by (subst verify_lower_slots.simps) (simp add: geometry_def)
next
  case (Suc n)
  then have k: "k < length (slots s)" by simp
  let ?bs = "map (rm_block_from_header s) (F k)"
  have c: "chain (bnxt s) (slots s ! k) ?bs 0" by (rule free_lists_chain [OF wf_parts(6) [OF w] k])
  have l: "length ?bs \<le> list_fuel" using wf_list_fuel [OF w k] by simp
  have size: "int_shl1 k \<le> h_size (hdr s h)" "h_memory (hdr s h) \<noteq> 0" "b_header (blk s (rm_block_from_header s h)) = h"
    if "h \<in> set (F k)" for h
  proof -
    from free_lists_member [OF wf_parts(6) [OF w] k that]
    have h: "h \<in> set L" "rm_log2 (h_size (hdr s h)) = k" "b_header (blk s (rm_block_from_header s h)) = h"
      by (auto simp: listed_free_def)
    have sz: "0 < h_size (hdr s h)" "h_size (hdr s h) < 2 ^ 31" using wf_sizes(3,5) [OF w h(1)] by auto
    then have "2 ^ k \<le> h_size (hdr s h)" using rm_log2_bounds(1) [of "h_size (hdr s h)"] h(2) by simp
    moreover from this sz(2) have "(2::nat) ^ k < 2 ^ 31" by linarith
    then have "k < 31" by (simp only: power_strict_increasing_iff)
    ultimately show "int_shl1 k \<le> h_size (hdr s h)" "h_memory (hdr s h) \<noteq> 0"
      "b_header (blk s (rm_block_from_header s h)) = h"
      using h(3) wf_sizes(6) [OF w h(1)] by simp_all
  qed
  have "verify_lower_list list_fuel (int_shl1 k) (slots s ! k) s = Inr ()"
    using verify_lower_list_chain [OF c l] size by simp
  moreover have "verify_lower_slots (Suc k) s = Inr ()" using Suc.hyps(2) by (intro Suc.hyps(1)) simp
  ultimately show ?case
    using k wf_parts(1) [OF w] by (subst verify_lower_slots.simps) (simp add: read_slot_def geometry_def)
qed

lemma exists_slots_spec:
  assumes w: "wfs s L P F"
  shows "exists_slots i test s
    = Inr (\<exists>k<length (slots s). i \<le> k \<and> (\<exists>h\<in>set (F k). test (rm_block_from_header s h) s))"
proof (induction "length (slots s) - i" arbitrary: i)
  case 0
  then show ?case
    using wf_parts(1) [OF w] by (subst exists_slots.simps) (auto simp: geometry_def)
next
  case (Suc n)
  then have i: "i < length (slots s)" by simp
  let ?bs = "map (rm_block_from_header s) (F i)"
  have c: "chain (bnxt s) (slots s ! i) ?bs 0" by (rule free_lists_chain [OF wf_parts(6) [OF w] i])
  have l: "length ?bs \<le> list_fuel" using wf_list_fuel [OF w i] by simp
  let ?t = "\<lambda>k. \<exists>h\<in>set (F k). test (rm_block_from_header s h) s"
  have "(\<exists>k<length (slots s). i \<le> k \<and> ?t k)
      \<longleftrightarrow> ?t i \<or> (\<exists>k<length (slots s). Suc i \<le> k \<and> ?t k)"
    using i by (metis Suc_leD le_antisym not_less_eq_eq order_refl)
  moreover have "exists_slots (Suc i) test s
      = Inr (\<exists>k<length (slots s). Suc i \<le> k \<and> ?t k)"
    using Suc.hyps(2) by (intro Suc.hyps(1)) simp
  ultimately show ?case
    using i wf_parts(1) [OF w] exists_list_chain [OF c l, of test]
    by (subst exists_slots.simps) (simp add: read_slot_def geometry_def)
qed

lemma listed_iff: "h \<in> set (listed s F) \<longleftrightarrow> (\<exists>k<length (slots s). h \<in> set (F k))"
  by (auto simp: listed_def)

lemma freeblock_exists_spec:
  assumes w: "wfs s L P F"
  shows "freeblock_exists b s = Inr (b \<in> rm_block_from_header s ` set (listed s F))"
  unfolding freeblock_exists_def exists_slots_spec [OF w] sum.inject image_iff Bex_def listed_iff
  by blast

lemma freeblock_exists_memory_spec:
  assumes w: "wfs s L P F"
  shows "freeblock_exists_memory p s = Inr (\<exists>h\<in>set (listed s F). h_memory (hdr s h) = p)"
proof -
  have "b_header (blk s (rm_block_from_header s h)) = h"
    if "k < length (slots s)" "h \<in> set (F k)" for k h
    using free_lists_member [OF wf_parts(6) [OF w] that] by (simp add: listed_free_def)
  then show ?thesis
    unfolding freeblock_exists_memory_def exists_slots_spec [OF w] sum.inject Bex_def listed_iff
    by (metis le0)
qed

text \<open>What \<open>assert_memory_is_free\<close> decides: whether a live block contains the address.\<close>

lemma assert_memory_is_free_spec:
  assumes w: "wfs s L P F" and h: "live s h"
  shows "assert_memory_is_free p s =
    (if \<exists>g. live s g \<and> h_memory (hdr s g) \<le> p \<and> p < h_memory (hdr s g) + h_size (hdr s g)
     then Inl Abort else Inr ())"
proof -
  have c: "chain (nxt s) (header_root s) L 0" using wf_nonempty [OF w h] by (rule wf_chain [OF w])
  have "u64 (h_memory (hdr s g) + h_size (hdr s g)) = h_memory (hdr s g) + h_size (hdr s g)"
    if "g \<in> set L" for g using wf_sizes(8) [OF w that] by simp
  then show ?thesis
    unfolding assert_memory_is_free_def memory_is_free_loop_chain [OF c wf_length [OF w]] live_wf [OF w]
    by auto
qed

lemma checks_pass:
  assumes w: "wfs s L P F" and h: "live s h"
  shows "freeblock_verify_lower_size s = Inr ()"
    and "assert_list_is_sorted (header_root s) s = Inr ()"
    and "k < length (slots s) \<Longrightarrow> freeblock_checkloop (slots s ! k) s = Inr False"
    and "f \<in> set (listed s F) \<Longrightarrow> freeblock_assert_sane (rm_block_from_header s f) s = Inr ()"
    and "f \<in> set (listed s F) \<Longrightarrow> assert_memory_is_free (rm_block_from_header s f) s = Inr ()"
proof -
  show "freeblock_verify_lower_size s = Inr ()"
    by (simp add: freeblock_verify_lower_size_def verify_lower_slots_spec [OF w])
  have c: "chain (nxt s) (header_root s) L 0" using wf_nonempty [OF w h] by (rule wf_chain [OF w])
  show "assert_list_is_sorted (header_root s) s = Inr ()"
    unfolding assert_list_is_sorted_def by (rule list_is_sorted_loop_chain [OF c wf_length [OF w]])
  show "freeblock_checkloop (slots s ! k) s = Inr False" if k: "k < length (slots s)"
  proof -
    let ?bs = "map (rm_block_from_header s) (F k)"
    have b: "chain (bnxt s) (slots s ! k) ?bs 0" by (rule free_lists_chain [OF wf_parts(6) [OF w] k])
    have l: "length ?bs \<le> list_fuel" using wf_list_fuel [OF w k] by simp
    have d: "distinct ?bs" by (rule slot_list_distinct [OF w k])
    show ?thesis
    proof (cases "slots s ! k = 0")
      case True
      then show ?thesis by (simp add: freeblock_checkloop_def checkloop.simps)
    next
      case False
      then have "slots s ! k \<notin> set (tl ?bs)" using b d by (cases ?bs) auto
      from checkloop_chain [OF b l False this] show ?thesis by (simp add: freeblock_checkloop_def)
    qed
  qed
  assume f: "f \<in> set (listed s F)"
  then have fr: "f \<in> set L" "\<not> in_use s f" using listed_facts(2) [OF w] by auto
  from f have "b_header (blk s (rm_block_from_header s f)) = f"
    using free_lists_member [OF wf_parts(6) [OF w]] by (auto simp: listed_iff listed_free_def)
  then show "freeblock_assert_sane (rm_block_from_header s f) s = Inr ()"
    by (simp add: freeblock_assert_sane_def)
  have "\<not> (h_memory (hdr s g) \<le> rm_block_from_header s f
      \<and> rm_block_from_header s f < h_memory (hdr s g) + h_size (hdr s g))" if "live s g" for g
  proof -
    have g: "g \<in> set L" "g \<noteq> f" using that fr(2) live_wf [OF w] by auto
    from placed_disjoint [OF wf_parts(5,7) [OF w] g(1) fr(1) g(2)] show ?thesis
      using wf_sizes(3) [OF w fr(1)] by (auto simp: disjoint_extents_def rm_block_from_header_def)
  qed
  then show "assert_memory_is_free (rm_block_from_header s f) s = Inr ()"
    unfolding assert_memory_is_free_spec [OF w h] by auto
qed

end
