(* ===== verification/Rm_Observed.thy ===== *)
theory Rm_Observed
  imports Rm_Demo Rm_Debug
begin

text \<open>
  The properties of the statistics and of the debug build's checks, with an
  instance of each on a heap with a live block of 50 bytes above a released one of 100.
\<close>

section \<open>The instance\<close>

definition demo_two :: rm_state where
  "demo_two = (case rm_malloc 50 demo_block of Inr (h, s) \<Rightarrow> s | Inl e \<Rightarrow> demo_block)"

definition demo_mixed :: rm_state where
  "demo_mixed = (case rm_free 1995 demo_two of Inr s \<Rightarrow> s | Inl e \<Rightarrow> demo_two)"

lemma demo_block_fields:
  "unused_header_root demo_block = 0" "memory_bottom demo_block = 1088"
  "header_top demo_block = 1995" "free_block_slot_count demo_block = 11"
  "hdr demo_block 1966 = zero_header"
  by (simp_all add: demo_block_def rm_malloc_def uintptr_of_int_def block_new_def header_new_def
      rm_header_find_free_def demo_fields Let_def u64_def u32_def zero_header_def upd_hdr_def
      update_highest_address_if_needed_def)

lemma demo_two_fields:
  "rm_malloc 50 demo_block = Inr (1937, demo_two)"
  "header_root demo_two = 1937" "h_next (hdr demo_two 1937) = 1995"
  "h_memory (hdr demo_two 1937) = 1188" "h_size (hdr demo_two 1937) = 50"
  "h_type (hdr demo_two 1937) = BLOCK_TYPE_UNLOCKED" "hdr demo_two 1995 = hdr demo_block 1995"
  "memory_top demo_two = 1238" "memory_bottom demo_two = 1088"
  "header_bottom demo_two = 1937" "header_top demo_two = 1995" "slots demo_two = slots demo_block"
  "free_block_slot_count demo_two = 11" "highest_address_header demo_two = 1937"
  "hdr demo_two 1966 = zero_header"
  by (simp_all add: demo_two_def rm_malloc_def uintptr_of_int_def block_new_def header_new_def
      rm_header_find_free_def demo_block_fields demo_malloc Let_def u64_def u32_def upd_hdr_def
      update_highest_address_if_needed_def header_clear_def)

lemma demo_mixed_fields:
  "rm_free 1995 demo_two = Inr demo_mixed"
  "header_root demo_mixed = 1937" "hdr demo_mixed 1937 = hdr demo_two 1937"
  "h_next (hdr demo_mixed 1995) = 0" "h_memory (hdr demo_mixed 1995) = 1088"
  "h_size (hdr demo_mixed 1995) = 100" "h_type (hdr demo_mixed 1995) = BLOCK_TYPE_FREE"
  "memory_top demo_mixed = 1238" "memory_bottom demo_mixed = 1088"
  "slots demo_mixed = (slots demo_heap)[6 := 1172]" "highest_address_header demo_mixed = 1937"
  "header_bottom demo_mixed = 1937" "header_top demo_mixed = 1995"
  "hdr demo_mixed 1966 = zero_header"
  by (simp_all add: demo_mixed_def rm_free_def block_free_def demo_two_fields demo_malloc
      demo_block_fields Let_def read_slot_def write_slot_def demo_fields demo_log2
      rm_block_from_header_def u64_def upd_hdr_def upd_blk_def)

lemma demo_log2_50: "rm_log2 50 = 5"
  by (rule rm_log2_eqI) simp_all

lemma demo_two_wf: "well_formed demo_two"
proof -
  have "request_ok demo_block 50"
    by (simp add: request_ok_def request_size_def demo_log2_50 demo_malloc demo_fields)
  with demo_block_wf rm_malloc_wf [of demo_block _ _ _ 50] demo_two_fields(1) show ?thesis
    by (fastforce simp: well_formed_def)
qed

lemma demo_two_live: "live demo_two 1995"
proof -
  have "chain (nxt demo_two) (header_root demo_two) [1937, 1995] 0"
    by (simp only: chain.simps) (simp add: demo_two_fields demo_malloc)
  then show ?thesis unfolding live_def
    by (intro conjI exI [of _ "[1937, 1995]"]) (simp_all add: demo_two_fields demo_malloc in_use_def)
qed

lemma demo_mixed_wf:
  obtains P F where "wfs demo_mixed [1937, 1995] P F" and "listed demo_mixed F = [1995]"
proof -
  obtain L P F where w: "wfs demo_mixed L P F"
    using rm_free_wf [OF demo_two_wf demo_two_live] demo_mixed_fields(1)
    by (auto simp: well_formed_def)
  have c: "chain (nxt demo_mixed) (header_root demo_mixed) [1937, 1995] 0"
    by (simp only: chain.simps) (simp add: demo_two_fields demo_mixed_fields)
  have "live demo_mixed 1937"
    unfolding live_def using c
    by (intro conjI exI [of _ "[1937, 1995]"])
      (simp_all add: demo_two_fields demo_mixed_fields in_use_def)
  then have "L \<noteq> []" by (rule wf_nonempty [OF w])
  from wf_chain [OF w this] c have L: "L = [1937, 1995]" by (rule chain_functional)
  have sub: "set (listed demo_mixed F) \<subseteq> {1995}"
    using listed_facts(2) [OF w] L by (auto simp: in_use_def demo_two_fields demo_mixed_fields)
  have len: "length (slots demo_mixed) = 11" by (simp add: demo_mixed_fields demo_fields)
  have "chain (bnxt demo_mixed) (slots demo_mixed ! 6)
      (map (rm_block_from_header demo_mixed) (F 6)) 0"
    using len by (intro free_lists_chain [OF wf_parts(6) [OF w]]) simp
  then have "F 6 \<noteq> []" by (auto simp: demo_mixed_fields demo_fields)
  then have "listed demo_mixed F \<noteq> []" using len by (force simp: listed_def)
  moreover have "distinct (listed demo_mixed F)" by (rule listed_facts(1) [OF w])
  ultimately have "listed demo_mixed F = [1995]"
    using sub by (cases "listed demo_mixed F") (auto simp: subset_singleton_iff)
  with w L show thesis by (intro that) auto
qed

lemma demo_mixed_live: "live demo_mixed h \<longleftrightarrow> h = 1937"
  by (rule demo_mixed_wf)
    (auto simp: live_wf in_use_def demo_two_fields demo_mixed_fields)

section \<open>Statistics\<close>

text \<open>
  The total that \<open>rm_stat_total_free_list\<close> reports is the sum of the free blocks on the
  lists; its 32-bit sum does not wrap around, and with the live blocks it stays within the memory
  in use.
\<close>

lemma rm_stat_total_accounts:
  assumes "wfs s L P F"
  shows "\<exists>n. rm_stat_total_free_list s = Inr n \<and> n = (\<Sum>h\<leftarrow>listed s F. h_size (hdr s h))
    \<and> n + live_memory s \<le> memory_top s - memory_bottom s"
  using rm_stat_total_free_list_spec [OF assms] memory_accounts(1) [OF assms]
  by (simp add: sizes_def)

text \<open>
  C27. What \<open>rm_stat_largest_free_block\<close> reports decides whether the search of the free lists
  finds a block: it does exactly for requests up to that size.
\<close>

theorem rm_stat_largest_decides_search:
  assumes "wfs s L P F" and "0 < sz" and "sz < 2 ^ 31" and "rm_log2 sz < length (slots s)"
  shows "\<exists>m found s'. rm_stat_largest_free_block s = Inr m
    \<and> freeblock_search sz s = Inr (found, 0, s') \<and> (found \<noteq> 0 \<longleftrightarrow> sz \<le> m)"
proof -
  let ?S = "insert 0 (h_size ` hdr s ` set (listed s F))"
  have le: "sz \<le> Max ?S \<longleftrightarrow> (\<exists>h\<in>set (listed s F). sz \<le> h_size (hdr s h))"
    using assms(2) by (subst Max_ge_iff) auto
  from freeblock_search_spec [OF assms] obtain found s' where
    f: "freeblock_search sz s = Inr (found, 0, s')" and
    c: "found = 0 \<and> s' = s \<and> (\<forall>k<length (slots s). \<forall>h\<in>set (F k). h_size (hdr s h) < sz) \<or>
     (\<exists>h k. found = rm_block_from_header s h \<and> sz \<le> h_size (hdr s h) \<and> found \<noteq> 0
          \<and> unlinked s s' L P F k h)" by blast
  from c have "found \<noteq> 0 \<longleftrightarrow> sz \<le> Max ?S"
    unfolding le Bex_def listed_iff by (fastforce simp: unlinked_def not_less [symmetric])
  with f rm_stat_largest_free_block_spec [OF assms(1)] show ?thesis by blast
qed

theorem rm_stat_largest_decides_search_witness:
  "\<exists>found s'. freeblock_search 50 demo_mixed = Inr (found, 0, s') \<and> found \<noteq> 0"
proof (rule demo_mixed_wf)
  fix P F assume w: "wfs demo_mixed [1937, 1995] P F" "listed demo_mixed F = [1995]"
  have "rm_stat_largest_free_block demo_mixed = Inr 100"
    using rm_stat_largest_free_block_spec [OF w(1)] w(2) by (simp add: demo_mixed_fields)
  with rm_stat_largest_decides_search [OF w(1), of 50] show ?thesis
    by (auto simp: demo_mixed_fields demo_fields demo_log2_50)
qed

text \<open>
  The full calculation of \<open>rm_stat_highest_used_address\<close> is the end of a live block and no
  live block reaches beyond it.
\<close>

lemma rm_stat_highest_is_max:
  assumes "well_formed s" and "live s h"
  shows "\<exists>a g. rm_stat_highest_used_address True s = Inr a \<and> live s g
    \<and> a = h_memory (hdr s g) + h_size (hdr s g)
    \<and> (\<forall>f. live s f \<longrightarrow> h_memory (hdr s f) + h_size (hdr s f) \<le> a) \<and> a \<le> memory_top s"
proof -
  obtain L P F where w: "wfs s L P F" using assms(1) by (auto simp: well_formed_def)
  let ?S = "(\<lambda>g. h_memory (hdr s g) + h_size (hdr s g)) ` {g. live s g}"
  have fin: "finite ?S" "?S \<noteq> {}" using assms(2) by (auto simp: live_wf [OF w])
  have "Max (insert 0 ?S) = Max ?S" using fin by simp
  then have r: "rm_stat_highest_used_address True s = Inr (Max ?S)"
    using rm_stat_highest_spec [OF w wf_nonempty [OF w assms(2)]] by simp
  from Max_in [OF fin] obtain g where g: "live s g" "Max ?S = h_memory (hdr s g) + h_size (hdr s g)"
    by auto
  have "h_memory (hdr s f) + h_size (hdr s f) \<le> Max ?S" if "live s f" for f
    using fin(1) that by (intro Max_ge) auto
  moreover have "Max ?S \<le> memory_top s" using g wf_sizes(2) [OF w] by (simp add: live_wf [OF w])
  ultimately show ?thesis using r g by blast
qed

section \<open>Checks of the debug build\<close>

text \<open>
  No check of the free lists stops on a well-formed heap with a live block: the lower bound
  of each slot holds, no list has a loop, and the cell of a listed block is where its header says,
  outside of every live block.
\<close>

lemma debug_checks_pass:
  assumes "wfs s L P F" and "live s h"
  shows "freeblock_verify_lower_size s = Inr ()
    \<and> (\<forall>k<length (slots s). freeblock_checkloop (slots s ! k) s = Inr False)
    \<and> (\<forall>f\<in>set (listed s F). freeblock_assert_sane (rm_block_from_header s f) s = Inr ()
          \<and> freeblock_exists (rm_block_from_header s f) s = Inr True
          \<and> assert_memory_is_free (rm_block_from_header s f) s = Inr ())"
  using checks_pass [OF assms] freeblock_exists_spec [OF assms(1)] by auto

text \<open>
  \<open>assert_memory_is_free\<close> decides whether an address lies in a block the client holds, and
  \<open>freeblock_exists_memory\<close> whether it is the start of a listed free block; on a well-formed heap
  the second implies that the first does not abort.
\<close>

lemma memory_checks_decide:
  assumes "wfs s L P F" and "live s h"
  shows "(assert_memory_is_free p s = Inl Abort \<longleftrightarrow>
      (\<exists>g. live s g \<and> h_memory (hdr s g) \<le> p \<and> p < h_memory (hdr s g) + h_size (hdr s g)))
    \<and> freeblock_exists_memory p s = Inr (\<exists>f\<in>set (listed s F). h_memory (hdr s f) = p)
    \<and> (freeblock_exists_memory p s = Inr True \<longrightarrow> assert_memory_is_free p s = Inr ())"
proof -
  have e: "freeblock_exists_memory p s = Inr (\<exists>f\<in>set (listed s F). h_memory (hdr s f) = p)"
    by (rule freeblock_exists_memory_spec [OF assms(1)])
  have "\<not> (h_memory (hdr s g) \<le> p \<and> p < h_memory (hdr s g) + h_size (hdr s g))"
    if f: "f \<in> set (listed s F)" "h_memory (hdr s f) = p" and g: "live s g" for f g
  proof -
    have m: "f \<in> set L" "g \<in> set L" "g \<noteq> f"
      using listed_facts(2) [OF assms(1)] f(1) g live_wf [OF assms(1)] by auto
    from placed_disjoint [OF wf_parts(5,7) [OF assms(1)] m(2,1,3)] f(2) show ?thesis
      using wf_sizes(3) [OF assms(1) m(1)] by (auto simp: disjoint_extents_def)
  qed
  then show ?thesis unfolding e assert_memory_is_free_spec [OF assms] by auto
qed

text \<open>
  C31. The sweep of \<open>assert_handles_valid\<close> aborts exactly if a header below \<open>header_top\<close> is
  poisoned, and passes otherwise; the topmost header, at \<open>header_top\<close> itself, is never looked at.
\<close>

theorem assert_handles_valid_iff:
  assumes "well_formed s"
  shows "assert_handles_valid s =
    (if \<exists>i. header_bottom s + i * sizeof_rm_header_t < header_top s
        \<and> (poisoned (h_memory (hdr s (header_bottom s + i * sizeof_rm_header_t)))
           \<or> poisoned (h_next (hdr s (header_bottom s + i * sizeof_rm_header_t))))
     then Inl Abort else Inr ())"
proof -
  let ?b = "header_bottom s" and ?t = "header_top s"
  have g: "?b \<le> ?t" "sizeof_rm_header_t dvd ?t - ?b"
    using assms by (auto simp: well_formed_def wfs_def geometry_def)
  have "(\<exists>h. ?b \<le> h \<and> h < ?t \<and> sizeof_rm_header_t dvd ?t - h \<and> Q h)
      \<longleftrightarrow> (\<exists>i. ?b + i * sizeof_rm_header_t < ?t \<and> Q (?b + i * sizeof_rm_header_t))" for Q
  proof
    assume "\<exists>h. ?b \<le> h \<and> h < ?t \<and> sizeof_rm_header_t dvd ?t - h \<and> Q h"
    then obtain h where h: "?b \<le> h" "h < ?t" "sizeof_rm_header_t dvd ?t - h" "Q h" by blast
    have "(?t - ?b) - (?t - h) = h - ?b" using h by simp
    with g(2) h(3) have "sizeof_rm_header_t dvd h - ?b" by (metis dvd_diff_nat)
    then obtain i where "h - ?b = sizeof_rm_header_t * i" ..
    with h(1) have "h = ?b + i * sizeof_rm_header_t" by simp
    with h show "\<exists>i. ?b + i * sizeof_rm_header_t < ?t \<and> Q (?b + i * sizeof_rm_header_t)" by blast
  next
    assume "\<exists>i. ?b + i * sizeof_rm_header_t < ?t \<and> Q (?b + i * sizeof_rm_header_t)"
    then obtain i where i: "?b + i * sizeof_rm_header_t < ?t" "Q (?b + i * sizeof_rm_header_t)" by blast
    have "sizeof_rm_header_t dvd (?t - ?b) - i * sizeof_rm_header_t"
      using dvd_diff_nat [OF g(2) dvd_triv_right] .
    then have "sizeof_rm_header_t dvd ?t - (?b + i * sizeof_rm_header_t)" by (simp only: diff_diff_left)
    with i show "\<exists>h. ?b \<le> h \<and> h < ?t \<and> sizeof_rm_header_t dvd ?t - h \<and> Q h"
      by (intro exI [of _ "?b + i * sizeof_rm_header_t"]) simp
  qed
  then show ?thesis
    unfolding assert_handles_valid_def handles_valid_loop_iff [OF g] by simp
qed

theorem assert_handles_valid_iff_witness: "assert_handles_valid demo_mixed = Inr ()"
proof (rule demo_mixed_wf)
  fix P F assume "wfs demo_mixed [1937, 1995] P F"
  then have w: "well_formed demo_mixed" by (auto simp: well_formed_def)
  have i: "i = 0 \<or> i = 1" if "1937 + i * 29 < (1995::nat)" for i using that by auto
  have "\<not> (poisoned (h_memory (hdr demo_mixed (1937 + j * 29)))
      \<or> poisoned (h_next (hdr demo_mixed (1937 + j * 29))))" if "j = 0 \<or> j = 1" for j
    using that by (auto simp: poisoned_def zero_header_def demo_mixed_fields demo_two_fields)
  with assert_handles_valid_iff [OF w] i show ?thesis by (auto simp: demo_mixed_fields)
qed

end
