(* ===== verification/Rm_Offer.thy ===== *)
theory Rm_Offer
  imports Rm_Observed
begin

text \<open>
  What becomes of the header on offer when a compaction gives back the free blocks at the end of
  the memory: \<open>rm_compact\<close> offers the header of the lowest of them and then raises the bottom of the
  header array over the unused headers, that one included.
\<close>

section \<open>A compaction that only prunes\<close>

lemma compact_pass_trailing:
  assumes cs: "cstate s (A @ E)" and A: "A \<noteq> []" "\<forall>h\<in>set A. in_use s h"
    and E: "E \<noteq> []" "\<forall>h\<in>set E. is_free s h"
  shows "compact_pass (header_root s) s = Inr (Finished, s)"
proof -
  note cp = cstate_parts [OF cs] and cz = cstate_sizes [OF cs]
  have l: "length (A @ E) \<le> list_fuel" "sizes s (A @ E) < 2 ^ 32" using cz by (auto simp: list_fuel_def)
  have tA: "takeWhile (in_use s) (A @ E) = A"
    using A(2) E by (cases E) (auto simp: takeWhile_append2 in_use_is_free)
  have tE: "takeWhile (is_free s) (E @ []) = E" using E(2) by (simp add: takeWhile_eq_all_conv)
  have "A @ E = A @ E @ []" by simp
  from get_free_header_range_spec [OF cp(3) l this tA [symmetric] tE [symmetric]]
  obtain b where r: "get_free_header_range (header_root s) s = Inr (sizes s E, head0 E, last0 0 E, b)" ..
  obtain e E' where e: "E = E' @ [e]" using E(1) by (metis rev_exhaust)
  have "chain (nxt s) (header_root s) ((A @ E') @ [e]) 0" using cp(3) e by simp
  then have n: "nxt s e = 0" unfolding chain_append by auto
  have "last0 0 E = e" by (simp add: e last0_def)
  moreover have "sizes s E \<noteq> 0"
    using cp(9) [of e] e by (auto simp: sizes_def)
  ultimately show ?thesis
    using r n find_last_nonfree_header_spec [OF cp(3) l(1)] by (simp add: compact_pass_def Let_def)
qed

lemma compact_loop_trailing:
  assumes "cstate s (A @ E)" and "A \<noteq> []" "\<forall>h\<in>set A. in_use s h" and "E \<noteq> []" "\<forall>h\<in>set E. is_free s h"
  shows "compact_loop list_fuel clk i st mt (header_root s) s = Inr s"
  using compact_pass_trailing [OF assms]
  by (subst compact_loop.simps) (simp add: Let_def list_fuel_def)

section \<open>The header that is lost\<close>

text \<open>
  C3. A compaction can break the heap: when every block in use lies below every free one and the
  header of the lowest free block is the lowest of the header array, \<open>rm_compact\<close> returns, with any
  clock and any limit, but the header it then has on offer lies outside of the header array, so that
  the heap is not well-formed; it is again when that header is withdrawn.
\<close>

theorem rm_compact_loses_offer:
  assumes "wfs s L (A @ E) F" and "A \<noteq> []" and "\<forall>h\<in>set A. in_use s h"
    and "E \<noteq> []" and "\<forall>h\<in>set E. \<not> in_use s h" and "hd E = header_bottom s"
  shows "\<exists>s'. rm_compact clk mt s = Inr s' \<and> unused_header_root s' = hd E \<and> hd E < header_bottom s'
    \<and> \<not> well_formed s' \<and> well_formed (withdraw_unused s')"
proof -
  have st: "set (A @ E) = set L" using wf_parts(5) [OF assms(1)] by (rule placed_set)
  then have "live s (hd A)" using live_wf [OF assms(1), of "hd A"] assms(2,3) by auto
  from rm_compact_loop_spec [OF assms(1) this] obtain s1 where
    s1: "rm_header_sort_all s = Inr s1" "cstate s1 (A @ E)" "header_bottom s1 = header_bottom s"
      "\<forall>g. h_type (hdr s1 g) = h_type (hdr s g)" by blast
  have use: "in_use s1 = in_use s" using s1(4) by (simp add: in_use_def fun_eq_iff)
  then have A1: "\<forall>h\<in>set A. in_use s1 h" and E1: "\<forall>h\<in>set E. is_free s1 h"
    using assms(3,5) in_use_is_free [of s1] by auto
  have run: "rm_compact clk mt s = compact_finish s1"
    using s1(1) compact_loop_trailing [OF s1(2) assms(2) A1 assms(4) E1] by (simp add: rm_compact_def)
  have L: "A @ E = butlast A @ last A # E" "in_use s1 (last A)" using assms(2) A1 by simp_all
  from compact_finish_spec [OF s1(2) L E1] obtain s' F' where
    f: "compact_finish s1 = Inr s'" "wfs (withdraw_unused s') (butlast A @ [last A]) (butlast A @ [last A]) F'"
      "unused_header_root s' = (if E = [] then unused_header_root s1 else hd E)"
      "header_bottom s1 \<le> header_bottom s'" "\<not> rm_header_is_unused s' (header_bottom s')"
      "E \<noteq> [] \<longrightarrow> h_memory (hdr s' (hd E)) = 0" by blast
  have "hd E \<noteq> 0" using cstate_parts(10) [OF s1(2), of "hd E"] assms(4) by simp
  then have "header_bottom s' \<noteq> hd E" using f(5,6) assms(4) by (auto simp: rm_header_is_unused_def)
  then have lt: "hd E < header_bottom s'" using f(4) assms(6) s1(3) by simp
  have "offer_lost s'" using lt f(3) assms(4) \<open>hd E \<noteq> 0\<close> by (simp add: offer_lost_def)
  then have "\<not> well_formed s'" by (rule offer_lost_ill_formed)
  with run f(1-3) lt assms(4) show ?thesis by (auto simp: well_formed_def)
qed

definition demo_end :: rm_state where
  "demo_end = (case rm_free 1937 demo_two of Inr s \<Rightarrow> s | Inl e \<Rightarrow> demo_two)"

lemma demo_end_fields:
  "rm_free 1937 demo_two = Inr demo_end" "header_root demo_end = 1937"
  "h_next (hdr demo_end 1937) = 1995" "h_memory (hdr demo_end 1937) = 1188"
  "h_type (hdr demo_end 1937) = BLOCK_TYPE_FREE" "hdr demo_end 1995 = hdr demo_two 1995"
  "memory_bottom demo_end = 1088" "header_bottom demo_end = 1937"
  by (simp_all add: demo_end_def rm_free_def block_free_def demo_two_fields demo_malloc
      demo_block_fields Let_def read_slot_def write_slot_def demo_fields demo_log2 demo_log2_50
      rm_block_from_header_def u64_def upd_hdr_def upd_blk_def)

lemma demo_end_wf: obtains L F where "wfs demo_end L ([1995] @ [1937]) F"
proof -
  have c: "chain (nxt demo_two) (header_root demo_two) [1937, 1995] 0"
    by (simp only: chain.simps) (simp add: demo_two_fields demo_malloc)
  then have "live demo_two 1937" unfolding live_def
    by (intro conjI exI [of _ "[1937, 1995]"]) (simp_all add: demo_two_fields in_use_def)
  from rm_free_wf [OF demo_two_wf this] demo_end_fields(1) obtain L P F where
    w: "wfs demo_end L P F" by (auto simp: well_formed_def)
  have e: "chain (nxt demo_end) (header_root demo_end) [1937, 1995] 0"
    by (simp only: chain.simps) (simp add: demo_end_fields demo_two_fields demo_malloc)
  then have "live demo_end 1995" unfolding live_def
    by (intro conjI exI [of _ "[1937, 1995]"])
      (simp_all add: demo_end_fields demo_two_fields demo_malloc in_use_def)
  then have "L \<noteq> []" by (rule wf_nonempty [OF w])
  from wf_chain [OF w this] e have L: "L = [1937, 1995]" by (rule chain_functional)
  have "mset P = {#1937, 1995#}" "tiled 1088 (memory_top demo_end) (map (extent demo_end) P)"
    using wf_parts(5) [OF w] by (simp_all add: placed_def L demo_end_fields)
  moreover from this(1) have "length P = 2" by (metis mset.simps size_mset size_add_mset size_empty Suc_1 One_nat_def)
  then obtain a b where P: "P = [a, b]" by (auto simp: numeral_2_eq_2 length_Suc_conv)
  ultimately have "P = [1995, 1937]"
    by (auto simp: add_eq_conv_ex extent_def demo_end_fields)
  with w show thesis by (intro that) auto
qed

theorem rm_compact_loses_offer_witness:
  "\<exists>s'. rm_compact (\<lambda>i. (i, 0)) 0 demo_end = Inr s' \<and> unused_header_root s' = 1937 \<and> \<not> well_formed s'"
proof (rule demo_end_wf)
  fix L F assume w: "wfs demo_end L ([1995] @ [1937]) F"
  show ?thesis
    using rm_compact_loses_offer [OF w, of "\<lambda>i. (i, 0)" 0]
    by (auto simp: in_use_def demo_end_fields demo_two_fields demo_malloc)
qed

end
