(* ===== verification/Rm_Bytes.thy ===== *)
theory Rm_Bytes
  imports Rm_Demo
begin

text \<open>
  The free lists as they lie in the bytes of the heap: the cells read back from memory, and the lists
  walked from the slots through the bytes alone.
\<close>

section \<open>Reading cells\<close>

definition load_ptr :: "(nat \<Rightarrow> 8 word) \<Rightarrow> nat \<Rightarrow> nat" where
  "load_ptr m a = (\<Sum>i < sizeof_ptr. unat (m (a + i)) * 256 ^ i)"

text \<open>
  A walk of at most \<open>n\<close> cells from \<open>p\<close>: the headers that the cells name, or no result if the list does
  not end.
\<close>

fun walk_cells :: "nat \<Rightarrow> (nat \<Rightarrow> 8 word) \<Rightarrow> nat \<Rightarrow> nat list option" where
  "walk_cells 0 m p = (if p = 0 then Some [] else None)"
| "walk_cells (Suc n) m p =
     (if p = 0 then Some []
      else map_option (Cons (load_ptr m p)) (walk_cells n m (load_ptr m (p + sizeof_ptr))))"

lemma sum_digits: "(\<Sum>i<k. (n div 256 ^ i mod 256) * 256 ^ i) = (n :: nat) mod 256 ^ k"
proof (induction k)
  case (Suc k)
  have "n mod 256 ^ Suc k = 256 ^ k * (n div 256 ^ k mod 256) + n mod 256 ^ k"
    by (simp add: mod_mult2_eq mult.commute [of 256])
  with Suc show ?case by simp
qed simp

lemma load_ptr_bytes:
  assumes "n < 2 ^ 64" and "\<And>i. i < sizeof_ptr \<Longrightarrow> m (a + i) = word_of_nat (n div 256 ^ i)"
  shows "load_ptr m a = n"
proof -
  have "load_ptr m a = (\<Sum>i < sizeof_ptr. (n div 256 ^ i mod 256) * 256 ^ i)"
    unfolding load_ptr_def by (rule sum.cong) (simp_all add: assms(2) unat_of_nat)
  with assms(1) show ?thesis by (simp add: sum_digits)
qed

lemma load_cell:
  assumes "cell_stored m b c"
  shows "b_header c < 2 ^ 64 \<Longrightarrow> load_ptr m b = b_header c"
    and "b_next c < 2 ^ 64 \<Longrightarrow> load_ptr m (b + sizeof_ptr) = b_next c"
proof -
  have c: "m (b + i) = cell_byte c i" if "i < 16" for i
    using assms that unfolding cell_stored_def by blast
  show "load_ptr m b = b_header c" if "b_header c < 2 ^ 64"
    using that c by (intro load_ptr_bytes) (simp_all add: cell_byte_def)
  show "load_ptr m (b + sizeof_ptr) = b_next c" if "b_next c < 2 ^ 64"
  proof (rule load_ptr_bytes [OF that])
    fix i :: nat assume i: "i < 8"
    then have "m (b + (8 + i)) = cell_byte c (8 + i)" by (intro c) simp
    then show "m (b + 8 + i) = word_of_nat (b_next c div 256 ^ i)" by (simp add: cell_byte_def add.assoc)
  qed
qed

section \<open>The lists of a well-formed heap\<close>

lemma walk_cells_chain:
  assumes w: "wfs s L P F"
  shows "chain (bnxt s) p (map (rm_block_from_header s) hs) 0 \<Longrightarrow> k < length (slots s) \<Longrightarrow>
    set hs \<subseteq> set (F k) \<Longrightarrow> length hs \<le> n \<Longrightarrow> walk_cells n (mem s) p = Some hs"
proof (induction hs arbitrary: p n)
  case Nil
  then show ?case by (cases n) auto
next
  case (Cons h hs)
  then obtain n' where n: "n = Suc n'" by (cases n) auto
  let ?b = "rm_block_from_header s h"
  have c: "p = ?b" "p \<noteq> 0" "chain (bnxt s) (bnxt s ?b) (map (rm_block_from_header s) hs) 0"
    using Cons.prems(1) by auto
  have "h \<in> set (F k)" using Cons.prems(3) by simp
  from free_lists_member [OF wf_parts(6) [OF w] Cons.prems(2) this]
  have l: "h \<in> set L" "b_header (blk s ?b) = h" "cell_stored (mem s) ?b (blk s ?b)"
    by (simp_all add: listed_free_def)
  have geo: "geometry s" using w by (rule wf_parts)
  have "h \<le> header_top s" using wf_parts(4) [OF w l(1)] by (simp add: header_slot_def)
  then have h: "h < 2 ^ 64" using geo by (auto simp: geometry_def)
  have "bnxt s ?b < 2 ^ 64"
  proof (cases hs)
    case Nil
    then show ?thesis using c(3) by simp
  next
    case (Cons g gs)
    then have "g \<in> set (F k)" using Cons.prems(3) by simp
    from free_lists_member [OF wf_parts(6) [OF w] Cons.prems(2) this] have "g \<in> set L"
      by (simp add: listed_free_def)
    from wf_sizes(8) [OF w this] have "rm_block_from_header s g < 2 ^ 64"
      by (simp add: rm_block_from_header_def)
    moreover have "bnxt s ?b = rm_block_from_header s g" using Cons c(3) by simp
    ultimately show ?thesis by simp
  qed
  with load_cell [OF l(3)] l(2) h
  have "load_ptr (mem s) p = h" "load_ptr (mem s) (p + sizeof_ptr) = bnxt s ?b" by (simp_all add: c(1))
  moreover have "walk_cells n' (mem s) (bnxt s ?b) = Some hs"
    by (rule Cons.IH [OF c(3) Cons.prems(2)]) (use Cons.prems(3,4) n in auto)
  ultimately show ?case using c(2) by (simp add: n)
qed

text \<open>
  C5. After every run of a client program the free lists are in the bytes of the heap: from each slot
  the walk through the cells ends, it names different headers, each of a block that is free and of
  the size class of the slot, and the sixteen bytes of each cell lie inside of that block, so that no
  block in use shares a byte with them.
\<close>

theorem free_lists_in_memory:
  assumes "well_formed s" and "ops_ok live rm_fits rm_malloc rm_free ops s"
  shows "\<exists>s'. run_ops rm_malloc rm_free ops s = Inr s'
    \<and> (\<forall>k<length (slots s'). \<exists>hs. walk_cells list_fuel (mem s') (slots s' ! k) = Some hs \<and> distinct hs
        \<and> (\<forall>h\<in>set hs. \<not> live s' h \<and> h_type (hdr s' h) = BLOCK_TYPE_FREE
             \<and> 2 ^ k \<le> h_size (hdr s' h) \<and> h_size (hdr s' h) < 2 ^ Suc k
             \<and> load_ptr (mem s') (h_memory (hdr s' h) + h_size (hdr s' h) - 16) = h
             \<and> (\<forall>g. live s' g \<longrightarrow> disjoint_extents (extent s' h) (extent s' g))))"
proof -
  from rm_store.client_run [OF assms] obtain s' where
    r: "run_ops rm_malloc rm_free ops s = Inr s'" "well_formed s'" by blast
  from r(2) obtain L P F where w: "wfs s' L P F" by (auto simp: well_formed_def)
  have "\<exists>hs. walk_cells list_fuel (mem s') (slots s' ! k) = Some hs \<and> distinct hs
        \<and> (\<forall>h\<in>set hs. \<not> live s' h \<and> h_type (hdr s' h) = BLOCK_TYPE_FREE
             \<and> 2 ^ k \<le> h_size (hdr s' h) \<and> h_size (hdr s' h) < 2 ^ Suc k
             \<and> load_ptr (mem s') (h_memory (hdr s' h) + h_size (hdr s' h) - 16) = h
             \<and> (\<forall>g. live s' g \<longrightarrow> disjoint_extents (extent s' h) (extent s' g)))"
    if k: "k < length (slots s')" for k
  proof (intro exI [of _ "F k"] conjI ballI allI impI)
    show "walk_cells list_fuel (mem s') (slots s' ! k) = Some (F k)"
      by (rule walk_cells_chain [OF w free_lists_chain [OF wf_parts(6) [OF w] k] k subset_refl
            wf_list_fuel [OF w k]])
    show "distinct (F k)" by (rule wf_list_distinct [OF w k])
    fix h assume h: "h \<in> set (F k)"
    note l = free_lists_member [OF wf_parts(6) [OF w] k h, unfolded listed_free_def]
    show "h_type (hdr s' h) = BLOCK_TYPE_FREE" using l by simp
    then show nl: "\<not> live s' h" by (simp add: live_def in_use_def)
    show "2 ^ k \<le> h_size (hdr s' h)" "h_size (hdr s' h) < 2 ^ Suc k"
      using listed_size(1,2) [OF w k h] by simp_all
    have "h \<le> header_top s'" using wf_parts(4) [OF w, of h] l by (simp add: header_slot_def)
    then have "h < 2 ^ 64" using wf_parts(1) [OF w] by (auto simp: geometry_def)
    with load_cell(1) [of "mem s'" "rm_block_from_header s' h" "blk s' (rm_block_from_header s' h)"] l
    show "load_ptr (mem s') (h_memory (hdr s' h) + h_size (hdr s' h) - 16) = h"
      by (simp add: rm_block_from_header_def)
    fix g assume "live s' g"
    then have "g \<in> set L" "h \<noteq> g" using live_wf [OF w, of g] nl by auto
    with placed_disjoint [OF wf_parts(5,7) [OF w], of h g] l
    show "disjoint_extents (extent s' h) (extent s' g)" by simp
  qed
  with r(1) show ?thesis by blast
qed

theorem free_lists_in_memory_witness:
  "\<exists>s' hs. run_ops rm_malloc rm_free [Alloc 100, Release 1995] demo_heap = Inr s'
     \<and> walk_cells list_fuel (mem s') (slots s' ! 6) = Some hs"
proof -
  from rm_free_wf [OF demo_block_wf, of 1995] demo_block_live
  obtain t where t: "rm_free 1995 demo_block = Inr t" by auto
  then have o: "ops_ok live rm_fits rm_malloc rm_free [Alloc 100, Release 1995] demo_heap"
    using demo_request [of 100] demo_malloc(1) demo_block_live by (simp add: rm_fits_def)
  have "length (slots t) = 11"
    using t by (auto simp: rm_free_def block_free_def demo_malloc Let_def read_slot_def write_slot_def
        demo_fields demo_log2 rm_block_from_header_def u64_def)
  then have k: "6 < length (slots t)" by simp
  from free_lists_in_memory [OF demo_heap_wf o] t demo_malloc(1)
  have "run_ops rm_malloc rm_free [Alloc 100, Release 1995] demo_heap = Inr t"
    and a: "\<forall>k<length (slots t). \<exists>hs. walk_cells list_fuel (mem t) (slots t ! k) = Some hs" by auto
  with spec [OF a, of 6] k show ?thesis by blast
qed

end
