(* ===== verification/Rm_Global.thy ===== *)
theory Rm_Global
  imports Rm_Contract
begin

text \<open>
  The state pointer of \<open>src/jeff/compact.c\<close>: every operation works on the meta block that the
  global \<open>g_state\<close> points to; the client may supply the block (\<open>rm_set_state\<close>), keep several
  and switch between them, or leave it to \<open>rm_init\<close> to allocate one with \<open>calloc\<close>. A world
  keeps the meta blocks by address and one memory, in which all heaps lie: slot arrays by the address
  of the array, headers, cells and bytes by address.
\<close>

record rm_world =
  g_state :: nat
  metas :: "nat \<Rightarrow> rmalloc_meta_t"
  w_slots :: "nat \<Rightarrow> nat list"
  w_hdr :: "nat \<Rightarrow> rm_header_t"
  w_blk :: "nat \<Rightarrow> free_memory_block_t"
  w_mem :: "nat \<Rightarrow> 8 word"

text \<open>The state that a meta block describes: its fields with the memory; and its changes put back.\<close>

definition state_at :: "rm_world \<Rightarrow> nat \<Rightarrow> rm_state" where
  "state_at w p =
     rmalloc_meta_t.extend (metas w p)
       \<lparr>slots = w_slots w (free_block_slots (metas w p)), hdr = w_hdr w, blk = w_blk w, mem = w_mem w\<rparr>"

definition put_state :: "nat \<Rightarrow> rm_state \<Rightarrow> rm_world \<Rightarrow> rm_world" where
  "put_state p s w =
     w\<lparr>metas := (metas w)(p := rmalloc_meta_t.truncate s),
       w_slots := (w_slots w)(free_block_slots s := slots s),
       w_hdr := hdr s, w_blk := blk s, w_mem := mem s\<rparr>"

lemma state_at_put_state [simp]: "state_at (put_state p s w) p = s"
  by (simp add: state_at_def put_state_def rmalloc_meta_t.defs)

definition rm_state_size :: nat where
  "rm_state_size = 104"

definition rm_get_state :: "rm_world \<Rightarrow> nat" where
  "rm_get_state w = g_state w"

definition rm_set_state :: "nat \<Rightarrow> rm_world \<Rightarrow> rm_world" where
  "rm_set_state state w = w\<lparr>g_state := state\<rparr>"

definition rm_destroy :: "rm_world \<Rightarrow> rm_world" where
  "rm_destroy w = w"

text \<open>\<open>calloc(1, sizeof(rmalloc_meta_t))\<close>: all fields are zero.\<close>

definition calloc_meta :: rmalloc_meta_t where
  "calloc_meta = \<lparr>memory_bottom = 0, memory_top = 0, memory_size = 0, free_block_slots = 0,
     free_block_slot_count = 0, free_block_hits = 0, free_block_alloc = 0, header_top = 0,
     header_bottom = 0, header_root = 0, header_used_count = 0, last_free_header = 0,
     unused_header_root = 0, highest_address_header = 0\<rparr>"

text \<open>\<open>rm_init\<close> with its first lines; \<open>block\<close> is the address that \<open>calloc\<close> returns.\<close>

definition rm_init_global :: "nat \<Rightarrow> nat \<Rightarrow> nat \<Rightarrow> rm_world \<Rightarrow> rm_world res" where
  "rm_init_global block heap n w =
     (let w1 = (if g_state w = 0
                then w\<lparr>g_state := block, metas := (metas w)(block := calloc_meta)\<rparr>
                else w) in
      if g_state w1 = 0 then Inl Null_deref
      else Inr (put_state (g_state w1) (rm_init heap n (state_at w1 (g_state w1))) w1))"

text \<open>
  \<open>rm_init\<close> works on the meta block the client has set, or else on the one it gets from \<open>calloc\<close>; it
  leaves a well-formed heap there and touches the fields of no other meta block.
\<close>

lemma rm_init_global_wf:
  assumes "init_ok heap n" and "g_state w \<noteq> 0 \<or> block \<noteq> 0"
  shows "\<exists>w'. rm_init_global block heap n w = Inr w'
    \<and> rm_get_state w' = (if g_state w = 0 then block else g_state w)
    \<and> well_formed (state_at w' (rm_get_state w'))
    \<and> (\<forall>p. p \<noteq> rm_get_state w' \<longrightarrow> metas w' p = metas w p)"
proof -
  define w1 where "w1 = (if g_state w = 0
    then w\<lparr>g_state := block, metas := (metas w)(block := calloc_meta)\<rparr> else w)"
  have g: "g_state w1 = (if g_state w = 0 then block else g_state w)" "g_state w1 \<noteq> 0"
    "\<forall>p. p \<noteq> g_state w1 \<longrightarrow> metas w1 p = metas w p"
    using assms(2) by (auto simp: w1_def)
  define w' where "w' = put_state (g_state w1) (rm_init heap n (state_at w1 (g_state w1))) w1"
  have "rm_init_global block heap n w = Inr w'"
    using g(2) by (simp add: rm_init_global_def w1_def w'_def Let_def)
  moreover have "rm_get_state w' = g_state w1" by (simp add: rm_get_state_def w'_def put_state_def)
  moreover have "well_formed (state_at w' (g_state w1))"
    using rm_init_well_formed [OF assms(1)] by (simp add: w'_def)
  moreover have "\<forall>p. p \<noteq> g_state w1 \<longrightarrow> metas w' p = metas w p"
    using g(3) by (simp add: w'_def put_state_def)
  ultimately show ?thesis using g(1) by auto
qed

end
