(* ===== verification/Buddy.thy ===== *)
theory Buddy
  imports Rm_Prelude
begin

text \<open>
  The buddy allocator of \<open>src/buddy/buddy.c\<close>. An info item stands for a size \<open>2 ^ k * 4096\<close>
  and heads a list of chunk items; a chunk item has two halves \<open>a\<close> and \<open>b\<close> of that size and
  flags that say which of them is in use or split. The items live outside of the heap, in memory
  from \<open>malloc\<close>; the model takes the address of the \<open>i\<close>-th call as \<open>alloc i\<close>, 0 when it fails.

  Not modelled: \<open>destroy_chunk_items\<close> (defined twice, over an undeclared variable),
  \<open>destroy_info_items\<close> and \<open>bdestroy\<close>, which rest on it. \<open>destroy_chunk_item\<close>, which
  \<open>merge_nibbles\<close> calls, is defined nowhere: it is a parameter.
\<close>

unbundle bit_operations_syntax

section \<open>Data\<close>

record chunk_item_t =
  c_a :: nat
  c_b :: nat
  c_flags :: "8 word"
  c_next :: nat

record info_item_t =
  i_k :: nat
  i_free_list :: nat
  i_larger :: nat
  i_smaller :: nat

record buddy =
  chunk_heap :: "nat \<Rightarrow> chunk_item_t"
  info_heap :: "nat \<Rightarrow> info_item_t"
  groot :: nat
  mallocs :: nat

abbreviation "MIN_CHUNK_SIZE \<equiv> 4096::nat"
abbreviation "CI_A_USED \<equiv> 1::8 word"
abbreviation "CI_B_USED \<equiv> 2::8 word"
abbreviation "CI_A_SPLIT \<equiv> 4::8 word"
abbreviation "CI_B_SPLIT \<equiv> 8::8 word"
abbreviation "CI_A1_ELSEWHERE \<equiv> 16::8 word"
abbreviation "CI_A2_ELSEWHERE \<equiv> 32::8 word"
abbreviation "CI_B1_ELSEWHERE \<equiv> 64::8 word"
abbreviation "CI_B2_ELSEWHERE \<equiv> 128::8 word"

definition upd_chunk :: "nat \<Rightarrow> (chunk_item_t \<Rightarrow> chunk_item_t) \<Rightarrow> buddy \<Rightarrow> buddy" where
  "upd_chunk c f s = s\<lparr>chunk_heap := (chunk_heap s)(c := f (chunk_heap s c))\<rparr>"

definition upd_info :: "nat \<Rightarrow> (info_item_t \<Rightarrow> info_item_t) \<Rightarrow> buddy \<Rightarrow> buddy" where
  "upd_info i f s = s\<lparr>info_heap := (info_heap s)(i := f (info_heap s i))\<rparr>"

lemma upd_chunk_sel [simp]:
  "chunk_heap (upd_chunk c f s) = (chunk_heap s)(c := f (chunk_heap s c))"
  "info_heap (upd_chunk c f s) = info_heap s" "groot (upd_chunk c f s) = groot s"
  "mallocs (upd_chunk c f s) = mallocs s"
  by (simp_all add: upd_chunk_def)

lemma upd_info_sel [simp]:
  "info_heap (upd_info i f s) = (info_heap s)(i := f (info_heap s i))"
  "chunk_heap (upd_info i f s) = chunk_heap s" "groot (upd_info i f s) = groot s"
  "mallocs (upd_info i f s) = mallocs s"
  by (simp_all add: upd_info_def)

abbreviation cnext :: "buddy \<Rightarrow> nat \<Rightarrow> nat" where
  "cnext s \<equiv> \<lambda>c. c_next (chunk_heap s c)"

abbreviation smaller :: "buddy \<Rightarrow> nat \<Rightarrow> nat" where
  "smaller s \<equiv> \<lambda>i. i_smaller (info_heap s i)"

section \<open>Sizes and flags\<close>

definition chunk_size :: "nat \<Rightarrow> buddy \<Rightarrow> nat" where
  "chunk_size ii s = u32 (2 ^ i_k (info_heap s ii) * MIN_CHUNK_SIZE)"

definition ci_set_flag :: "nat \<Rightarrow> 8 word \<Rightarrow> buddy \<Rightarrow> buddy" where
  "ci_set_flag item flag s = upd_chunk item (\<lambda>x. x\<lparr>c_flags := c_flags x OR flag\<rparr>) s"

definition ci_clear_flag :: "nat \<Rightarrow> 8 word \<Rightarrow> buddy \<Rightarrow> buddy" where
  "ci_clear_flag item flag s = upd_chunk item (\<lambda>x. x\<lparr>c_flags := c_flags x AND NOT flag\<rparr>) s"

definition ci_flag :: "nat \<Rightarrow> 8 word \<Rightarrow> buddy \<Rightarrow> bool" where
  "ci_flag item flag s \<longleftrightarrow> c_flags (chunk_heap s item) AND flag \<noteq> 0"

text \<open>\<open>up2\<close> fills in the bits below the highest one; all arithmetic is on 32 bits.\<close>

definition up2 :: "32 word \<Rightarrow> 32 word" where
  "up2 n =
     (let n = n - 1;
          n = n OR drop_bit 1 n;
          n = n OR drop_bit 2 n;
          n = n OR drop_bit 4 n;
          n = n OR drop_bit 8 n;
          n = n OR drop_bit 16 n
      in n + 1)"

text \<open>\<open>while (n >>= 1) r++\<close>\<close>

fun log2_loop :: "nat \<Rightarrow> nat \<Rightarrow> nat" where
  "log2_loop n r = (if n div 2 = 0 then r else log2_loop (n div 2) (r + 1))"

declare log2_loop.simps [simp del]

definition shadowed_math_log2 :: "nat \<Rightarrow> nat" where
  "shadowed_math_log2 n = log2_loop n 0"

section \<open>Making items\<close>

text \<open>\<open>malloc\<close>; the result is used without a test for null.\<close>

definition malloc_item :: "(nat \<Rightarrow> nat) \<Rightarrow> buddy \<Rightarrow> (nat \<times> buddy) res" where
  "malloc_item alloc s =
     (let p = alloc (mallocs s) in
      if p = 0 then Inl Null_deref else Inr (p, s\<lparr>mallocs := mallocs s + 1\<rparr>))"

definition make_info_item :: "(nat \<Rightarrow> nat) \<Rightarrow> nat \<Rightarrow> buddy \<Rightarrow> (nat \<times> buddy) res" where
  "make_info_item alloc n s =
     bind_res (malloc_item alloc s) (\<lambda>(ii, s1).
     Inr (ii, upd_info ii (\<lambda>_. \<lparr>i_k = shadowed_math_log2 (n div MIN_CHUNK_SIZE), i_free_list = 0,
                               i_larger = 0, i_smaller = 0\<rparr>) s1))"

definition make_chunk_item :: "(nat \<Rightarrow> nat) \<Rightarrow> buddy \<Rightarrow> (nat \<times> buddy) res" where
  "make_chunk_item alloc s =
     bind_res (malloc_item alloc s) (\<lambda>(chunk, s1).
     Inr (chunk, upd_chunk chunk (\<lambda>_. \<lparr>c_a = 0, c_b = 0, c_flags = 0, c_next = 0\<rparr>) s1))"

definition ci_a_free :: "nat \<Rightarrow> buddy \<Rightarrow> bool" where
  "ci_a_free ci s \<longleftrightarrow>
     c_a (chunk_heap s ci) \<noteq> 0 \<and> \<not> ci_flag ci CI_A_USED s \<and> \<not> ci_flag ci CI_A_SPLIT s"

definition ci_b_free :: "nat \<Rightarrow> buddy \<Rightarrow> bool" where
  "ci_b_free ci s \<longleftrightarrow>
     c_b (chunk_heap s ci) \<noteq> 0 \<and> \<not> ci_flag ci CI_B_USED s \<and> \<not> ci_flag ci CI_B_SPLIT s"

definition adjacent_nibbles :: "nat \<Rightarrow> nat \<Rightarrow> nat \<Rightarrow> buddy \<Rightarrow> bool" where
  "adjacent_nibbles a b ii s \<longleftrightarrow>
     nat ((int a + int_of_u32 (chunk_size ii s)) mod 2 ^ 64) = b"

section \<open>Lists of chunks\<close>

function parent_chunk_loop :: "nat \<Rightarrow> nat \<Rightarrow> nat \<Rightarrow> buddy \<Rightarrow> nat res" where
  "parent_chunk_loop fuel ci chunk s =
     (if chunk \<noteq> 0 \<and> c_a (chunk_heap s ci) \<noteq> c_a (chunk_heap s chunk)
         \<and> c_a (chunk_heap s ci) \<noteq> c_b (chunk_heap s chunk) then
        if fuel = 0 then Inl Diverge
        else parent_chunk_loop (fuel - 1) ci (cnext s chunk) s
      else Inr chunk)"
  by pat_completeness auto
termination by (relation "measure (\<lambda>(fuel, _). fuel)") auto

declare parent_chunk_loop.simps [simp del]

definition parent_chunk :: "nat \<Rightarrow> nat \<Rightarrow> buddy \<Rightarrow> nat res" where
  "parent_chunk parent ci s = parent_chunk_loop list_fuel ci (i_free_list (info_heap s parent)) s"

text \<open>To the last item of a list.\<close>

function last_chunk :: "nat \<Rightarrow> nat \<Rightarrow> buddy \<Rightarrow> nat res" where
  "last_chunk fuel chunk s =
     (if chunk = 0 then Inl Null_deref
      else if cnext s chunk \<noteq> 0 then
        if fuel = 0 then Inl Diverge else last_chunk (fuel - 1) (cnext s chunk) s
      else Inr chunk)"
  by pat_completeness auto
termination by (relation "measure (\<lambda>(fuel, _). fuel)") auto

declare last_chunk.simps [simp del]

definition add_chunk :: "nat \<Rightarrow> nat \<Rightarrow> buddy \<Rightarrow> (nat \<times> buddy) res" where
  "add_chunk parent ci s =
     bind_res (last_chunk list_fuel (i_free_list (info_heap s parent)) s) (\<lambda>chunk.
     Inr (ci, upd_chunk chunk (\<lambda>x. x\<lparr>c_next := ci\<rparr>) s))"

function find_free_loop :: "nat \<Rightarrow> nat \<Rightarrow> buddy \<Rightarrow> nat res" where
  "find_free_loop fuel chunk s =
     (if chunk = 0 then Inr 0
      else if ci_a_free chunk s \<or> ci_b_free chunk s then Inr chunk
      else if fuel = 0 then Inl Diverge
      else find_free_loop (fuel - 1) (cnext s chunk) s)"
  by pat_completeness auto
termination by (relation "measure (\<lambda>(fuel, _). fuel)") auto

declare find_free_loop.simps [simp del]

definition find_free_chunk :: "nat \<Rightarrow> buddy \<Rightarrow> nat res" where
  "find_free_chunk ii s = find_free_loop list_fuel (i_free_list (info_heap s ii)) s"

section \<open>Merging\<close>

text \<open>
  Marking the chunks of the next size whose halves now have a part elsewhere: \<open>left\<close> ends in the
  merged piece, \<open>right\<close> starts with it. (The second test compares with \<open>pc1\<close>, as in the code.)
\<close>

definition mark_left :: "nat \<Rightarrow> nat \<Rightarrow> buddy \<Rightarrow> buddy" where
  "mark_left ci pc s =
     (if c_a (chunk_heap s ci) = c_a (chunk_heap s pc) then ci_set_flag pc CI_A2_ELSEWHERE s
      else if c_a (chunk_heap s ci) = c_b (chunk_heap s pc) then ci_set_flag pc CI_B2_ELSEWHERE s
      else s)"

definition merge_apart ::
  "(nat \<Rightarrow> nat) \<Rightarrow> nat \<Rightarrow> nat \<Rightarrow> nat \<Rightarrow> nat \<Rightarrow> nat \<Rightarrow> bool \<Rightarrow> buddy \<Rightarrow> (nat \<times> buddy) res" where
  "merge_apart alloc parent ci1 ci2 pc1 pc2 one_first s =
     (let s2 =
        (if one_first then
           let s1 = mark_left ci1 pc1 s in
           if c_a (chunk_heap s1 ci2) = c_a (chunk_heap s1 pc1) then ci_set_flag pc2 CI_A1_ELSEWHERE s1
           else if c_a (chunk_heap s1 ci2) = c_b (chunk_heap s1 pc2) then ci_set_flag pc2 CI_B1_ELSEWHERE s1
           else s1
         else
           let s1 =
             (if c_a (chunk_heap s ci2) = c_a (chunk_heap s pc1) then ci_set_flag pc2 CI_A2_ELSEWHERE s
              else if c_a (chunk_heap s ci2) = c_b (chunk_heap s pc2) then ci_set_flag pc2 CI_B2_ELSEWHERE s
              else s) in
           if c_a (chunk_heap s1 ci1) = c_a (chunk_heap s1 pc1) then ci_set_flag pc1 CI_A1_ELSEWHERE s1
           else if c_a (chunk_heap s1 ci1) = c_b (chunk_heap s1 pc1) then ci_set_flag pc1 CI_B1_ELSEWHERE s1
           else s1) in
      bind_res (make_chunk_item alloc s2) (\<lambda>(chunk, s3).
      let from = (if one_first then ci1 else ci2);
          s4 = upd_chunk chunk (\<lambda>x. x\<lparr>c_a := c_b (chunk_heap s3 from), c_b := 0\<rparr>) s3
      in add_chunk parent chunk s4))"

definition merge_nibbles ::
  "(nat \<Rightarrow> nat) \<Rightarrow> (nat \<Rightarrow> buddy \<Rightarrow> buddy) \<Rightarrow> nat \<Rightarrow> nat \<Rightarrow> nat \<Rightarrow> buddy \<Rightarrow> (nat \<times> buddy) res" where
  "merge_nibbles alloc destroy_chunk_item parent ci1 ci2 s =
     (let below = i_smaller (info_heap s parent) in
      if ci1 = ci2 then
        if ci_a_free ci1 s \<and> ci_b_free ci1 s \<and> below = 0 then Inl Null_deref
        else if ci_a_free ci1 s \<and> ci_b_free ci1 s
           \<and> adjacent_nibbles (c_a (chunk_heap s ci1)) (c_b (chunk_heap s ci1)) below s then
          bind_res (parent_chunk parent ci1 s) (\<lambda>pc.
          if pc \<noteq> 0 then
            Inr (pc, destroy_chunk_item ci1 (upd_chunk pc (\<lambda>x. x\<lparr>c_flags := 0\<rparr>) s))
          else Inr (0, s))
        else Inr (0, s)
      else if below = 0 then Inl Null_deref
      else if ci_b_free ci1 s \<and> ci_a_free ci2 s
              \<and> u64 (c_b (chunk_heap s ci1) + chunk_size below s) = c_a (chunk_heap s ci2) then
        bind_res (parent_chunk parent ci1 s) (\<lambda>pc1.
        bind_res (parent_chunk parent ci2 s) (\<lambda>pc2.
        if pc1 \<noteq> 0 \<and> pc2 \<noteq> 0 then merge_apart alloc parent ci1 ci2 pc1 pc2 True s
        else Inr (0, s)))
      else if ci_b_free ci2 s \<and> ci_a_free ci1 s
              \<and> u64 (c_b (chunk_heap s ci2) + chunk_size below s) = c_a (chunk_heap s ci1) then
        bind_res (parent_chunk parent ci1 s) (\<lambda>pc1.
        bind_res (parent_chunk parent ci2 s) (\<lambda>pc2.
        if pc1 \<noteq> 0 \<and> pc2 \<noteq> 0 then merge_apart alloc parent ci1 ci2 pc1 pc2 False s
        else Inr (0, s)))
      else Inr (0, s))"

section \<open>Splitting and requests\<close>

definition split_chunk_item ::
  "(nat \<Rightarrow> nat) \<Rightarrow> nat \<Rightarrow> nat \<Rightarrow> nat \<Rightarrow> buddy \<Rightarrow> (nat \<times> buddy) res" where
  "split_chunk_item alloc ii ci into s =
     (let n = (if into = 0 then chunk_size ii s div 2 else chunk_size into s) in
      bind_res (if into = 0 then make_info_item alloc n s else Inr (into, s)) (\<lambda>(info, s1).
      if \<not> ci_a_free ci s1 \<and> \<not> ci_b_free ci s1 then Inr (0, s1)
      else
        let memory = (if ci_a_free ci s1 then c_a (chunk_heap s1 ci) else c_b (chunk_heap s1 ci));
            flag = (if ci_a_free ci s1 then CI_A_SPLIT else CI_B_SPLIT) in
        bind_res (make_chunk_item alloc s1) (\<lambda>(chunk, s2).
        let s3 = upd_chunk chunk (\<lambda>x. x\<lparr>c_a := memory, c_b := u64 (memory + n)\<rparr>)
                   (ci_set_flag ci flag s2) in
        if into \<noteq> 0 then
          bind_res (last_chunk list_fuel (i_free_list (info_heap s3 info)) s3) (\<lambda>c.
          Inr (info, upd_chunk c (\<lambda>x. x\<lparr>c_next := chunk\<rparr>) s3))
        else Inr (info, upd_info info (\<lambda>x. x\<lparr>i_free_list := chunk\<rparr>) s3))))"

function descend :: "nat \<Rightarrow> nat \<Rightarrow> nat \<Rightarrow> buddy \<Rightarrow> nat res" where
  "descend fuel targetk info s =
     (if smaller s info \<noteq> 0 \<and> i_k (info_heap s info) > targetk then
        if fuel = 0 then Inl Diverge else descend (fuel - 1) targetk (smaller s info) s
      else Inr info)"
  by pat_completeness auto
termination by (relation "measure (\<lambda>(fuel, _). fuel)") auto

declare descend.simps [simp del]

text \<open>The \<open>do ... while\<close> loop for the smallest block with a free chunk.\<close>

function find_smallest ::
  "nat \<Rightarrow> nat \<Rightarrow> nat \<Rightarrow> nat \<Rightarrow> nat \<Rightarrow> buddy \<Rightarrow> (nat \<times> nat) res" where
  "find_smallest fuel targetk ii smallest_block smallest_chunk s =
     (if fuel = 0 then Inl Diverge
      else
        bind_res (find_free_chunk ii s) (\<lambda>chunk.
        let sb = (if chunk \<noteq> 0 then ii else smallest_block);
            sc = (if chunk \<noteq> 0 then chunk else smallest_chunk);
            ii' = smaller s ii
        in if ii' \<noteq> 0 \<and> i_k (info_heap s ii') > targetk
           then find_smallest (fuel - 1) targetk ii' sb sc s
           else Inr (sb, sc)))"
  by pat_completeness auto
termination by (relation "measure (\<lambda>(fuel, _). fuel)") auto

declare find_smallest.simps [simp del]

text \<open>One split: into the item of the next size, or into a new one when there is none.\<close>

definition split_below ::
  "(nat \<Rightarrow> nat) \<Rightarrow> nat \<Rightarrow> nat \<Rightarrow> buddy \<Rightarrow> (bool \<times> buddy) res" where
  "split_below alloc block chunk s =
     (if smaller s block \<noteq> 0 then
        bind_res (split_chunk_item alloc block chunk (smaller s block) s) (\<lambda>(_, s1).
        Inr (True, s1))
      else
        bind_res (split_chunk_item alloc block chunk 0 s) (\<lambda>(ii, s1).
        if ii \<noteq> 0 then Inr (True, upd_info block (\<lambda>x. x\<lparr>i_smaller := ii\<rparr>) s1)
        else Inr (False, s1)))"

text \<open>
  Split until the requested size is reached. The debug output after a split reads the flags of
  the chunk found, a null one included.
\<close>

function split_down ::
  "(nat \<Rightarrow> nat) \<Rightarrow> nat \<Rightarrow> nat \<Rightarrow> nat \<Rightarrow> nat \<Rightarrow> buddy \<Rightarrow> (nat \<times> buddy) res" where
  "split_down alloc fuel targetk block chunk s =
     (if i_k (info_heap s block) > targetk then
        if fuel = 0 then Inl Diverge
        else
          bind_res (split_below alloc block chunk s) (\<lambda>(ok, s1).
          if \<not> ok then Inr (0, s1)
          else
            bind_res (find_free_chunk (smaller s1 block) s1) (\<lambda>chunk'.
            if chunk' = 0 then Inl Null_deref
            else split_down alloc (fuel - 1) targetk (smaller s1 block) chunk' s1))
      else Inr (chunk, s))"
  by pat_completeness auto
termination by (relation "measure (\<lambda>(_, fuel, _). fuel)") auto

declare split_down.simps [simp del]

definition request_chunk ::
  "(nat \<Rightarrow> nat) \<Rightarrow> nat \<Rightarrow> nat \<Rightarrow> buddy \<Rightarrow> (nat \<times> buddy) res" where
  "request_chunk alloc root targetk s =
     bind_res (descend list_fuel targetk root s) (\<lambda>info.
     bind_res (if i_k (info_heap s info) = targetk then find_free_chunk info s else Inr 0) (\<lambda>ci.
     if ci \<noteq> 0 then Inr (ci, s)
     else
       bind_res (find_smallest list_fuel targetk root 0 0 s)
         (\<lambda>(smallest_block, smallest_chunk).
       if smallest_block \<noteq> 0
       then split_down alloc list_fuel targetk smallest_block smallest_chunk s
       else Inr (0, s))))"

section \<open>Initialisation and the client operations\<close>

definition make_root_chunk_item :: "(nat \<Rightarrow> nat) \<Rightarrow> nat \<Rightarrow> buddy \<Rightarrow> (nat \<times> buddy) res" where
  "make_root_chunk_item alloc heap s =
     bind_res (malloc_item alloc s) (\<lambda>(ci, s1).
     let s2 = upd_chunk ci (\<lambda>_. \<lparr>c_a = heap, c_b = 0, c_flags = 0, c_next = 0\<rparr>) s1
     in Inr (ci, upd_info (groot s2) (\<lambda>x. x\<lparr>i_free_list := ci\<rparr>) s2))"

text \<open>The heap itself comes from \<open>malloc\<close> too; a null heap is kept as it is.\<close>

definition binit :: "(nat \<Rightarrow> nat) \<Rightarrow> nat \<Rightarrow> buddy \<Rightarrow> buddy res" where
  "binit alloc heap_size s =
     (let n = unat (up2 (of_nat heap_size)) in
      bind_res (make_info_item alloc n s) (\<lambda>(ii, s1).
      let s2 = s1\<lparr>groot := ii\<rparr>;
          heap = alloc (mallocs s2);
          s3 = s2\<lparr>mallocs := mallocs s2 + 1\<rparr>
      in bind_res (make_root_chunk_item alloc heap s3) (\<lambda>(_, s4). Inr s4)))"

definition balloc :: "nat \<Rightarrow> buddy \<Rightarrow> nat \<times> buddy" where
  "balloc n s = (0, s)"

definition bfree :: "nat \<Rightarrow> buddy \<Rightarrow> buddy" where
  "bfree p s = s"

end
