(* ===== verification/Buddy_Inv.thy ===== *)
theory Buddy_Inv
  imports Buddy Rm_Heap
begin

text \<open>
  The buddy allocator: the bit tricks, the invariant of the lists of chunks, and the contract of
  \<open>request_chunk\<close>. \<open>cover\<close> counts the free halves that contain an address: splitting
  a half does not change it, so no byte is lost and none becomes free twice.
\<close>

unbundle bit_operations_syntax

section \<open>Logarithm and the next power of two\<close>

lemma log2_loop_bounds:
  "0 < n \<Longrightarrow> \<exists>k. log2_loop n r = r + k \<and> 2 ^ k \<le> n \<and> n < 2 ^ Suc k"
proof (induction n r rule: log2_loop.induct)
  case (1 n r)
  show ?case
  proof (cases "n div 2 = 0")
    case True
    with 1(2) show ?thesis by (intro exI [of _ 0]) (simp add: log2_loop.simps)
  next
    case False
    then have "0 < n div 2" by simp
    from 1(1) [OF False this] obtain k where
      k: "log2_loop (n div 2) (r + 1) = r + 1 + k" "2 ^ k \<le> n div 2" "n div 2 < 2 ^ Suc k" by blast
    then show ?thesis using False by (intro exI [of _ "Suc k"]) (subst log2_loop.simps, auto)
  qed
qed

lemma shadowed_math_log2_rm_log2:
  assumes "0 < n" and "n < 2 ^ 32"
  shows "shadowed_math_log2 n = rm_log2 n"
proof -
  obtain k where k: "shadowed_math_log2 n = k" "2 ^ k \<le> n" "n < 2 ^ Suc k"
    using log2_loop_bounds [OF assms(1), of 0] by (auto simp: shadowed_math_log2_def)
  have "(2::nat) ^ k < 2 ^ 32" using k(2) assms(2) by linarith
  then have "k < 32" by (simp only: power_strict_increasing_iff)
  with k rm_log2_eqI show ?thesis by simp
qed

lemma shadowed_math_log2_power: "shadowed_math_log2 (2 ^ k) = k"
proof -
  obtain j where j: "shadowed_math_log2 (2 ^ k) = j" "(2::nat) ^ j \<le> 2 ^ k" "(2::nat) ^ k < 2 ^ Suc j"
    using log2_loop_bounds [of "2 ^ k" 0] by (auto simp: shadowed_math_log2_def)
  then have "j \<le> k" "k < Suc j" by (simp_all only: power_increasing_iff power_strict_increasing_iff)
  with j show ?thesis by simp
qed

text \<open>\<open>smeared d w v\<close>: bit \<open>i\<close> of \<open>v\<close> is set when one of the \<open>d\<close> bits of \<open>w\<close> from \<open>i\<close> up is.\<close>

definition smeared :: "nat \<Rightarrow> 32 word \<Rightarrow> 32 word \<Rightarrow> bool" where
  "smeared d w v \<longleftrightarrow> (\<forall>i. bit v i \<longleftrightarrow> (\<exists>j. i \<le> j \<and> j < i + d \<and> bit w j))"

lemma smeared_step: "smeared d w v \<Longrightarrow> smeared (2 * d) w (v OR drop_bit d v)"
  unfolding smeared_def bit_or_iff bit_drop_bit_eq comp_def
proof (intro allI)
  fix i
  assume "\<forall>i. bit v i \<longleftrightarrow> (\<exists>j. i \<le> j \<and> j < i + d \<and> bit w j)"
  then have "bit v i \<or> bit v (d + i) \<longleftrightarrow>
      (\<exists>j. i \<le> j \<and> j < i + d \<and> bit w j) \<or> (\<exists>j. d + i \<le> j \<and> j < d + i + d \<and> bit w j)" by simp
  also have "\<dots> \<longleftrightarrow> (\<exists>j. i \<le> j \<and> j < i + 2 * d \<and> bit w j)"
  proof
    assume "(\<exists>j. i \<le> j \<and> j < i + d \<and> bit w j) \<or> (\<exists>j. d + i \<le> j \<and> j < d + i + d \<and> bit w j)"
    then show "\<exists>j. i \<le> j \<and> j < i + 2 * d \<and> bit w j"
    proof
      assume "\<exists>j. i \<le> j \<and> j < i + d \<and> bit w j"
      then obtain j where "i \<le> j" "j < i + d" "bit w j" by blast
      then show "\<exists>j. i \<le> j \<and> j < i + 2 * d \<and> bit w j" by (intro exI [of _ j]) simp
    next
      assume "\<exists>j. d + i \<le> j \<and> j < d + i + d \<and> bit w j"
      then obtain j where "d + i \<le> j" "j < d + i + d" "bit w j" by blast
      then show "\<exists>j. i \<le> j \<and> j < i + 2 * d \<and> bit w j" by (intro exI [of _ j]) simp
    qed
  next
    assume "\<exists>j. i \<le> j \<and> j < i + 2 * d \<and> bit w j"
    then obtain j where "i \<le> j" "j < i + 2 * d" "bit w j" by blast
    then show "(\<exists>j. i \<le> j \<and> j < i + d \<and> bit w j) \<or> (\<exists>j. d + i \<le> j \<and> j < d + i + d \<and> bit w j)"
      by (cases "j < i + d") auto
  qed
  finally show "bit v i \<or> bit v (d + i) \<longleftrightarrow> (\<exists>j. i \<le> j \<and> j < i + 2 * d \<and> bit w j)" .
qed

lemma up2_smeared: "\<exists>v. smeared 32 (n - 1) v \<and> up2 n = v + 1"
proof -
  have "smeared 1 (n - 1) (n - 1)"
    unfolding smeared_def by (auto simp: less_Suc_eq_le le_antisym)
  from smeared_step [OF smeared_step [OF smeared_step [OF smeared_step [OF smeared_step [OF this]]]]]
  show ?thesis by (simp add: up2_def Let_def)
qed

lemma bit_top:
  fixes w :: "32 word"
  assumes "2 ^ k \<le> unat w" and "unat w < 2 ^ Suc k"
  shows "bit w j \<Longrightarrow> j \<le> k" and "bit w k"
proof -
  have b: "bit w j \<longleftrightarrow> odd (unat w div 2 ^ j)" for j
    by (simp add: bit_unsigned_iff flip: bit_iff_odd)
  have "unat w div 2 ^ k = 1" using assms by (intro div_nat_eqI) simp_all
  then show "bit w k" by (simp add: b)
  show "j \<le> k" if "bit w j"
  proof (rule ccontr)
    assume "\<not> j \<le> k"
    then have "(2::nat) ^ Suc k \<le> 2 ^ j" by (intro power_increasing) auto
    with assms(2) have "unat w div 2 ^ j = 0" by simp
    with that show False by (simp add: b)
  qed
qed

lemma up2_power:
  assumes "0 < unat n" and "unat n \<le> 2 ^ 31"
  shows "\<exists>k\<le>31. unat (up2 n) = 2 ^ k \<and> unat n \<le> 2 ^ k \<and> 2 ^ k < 2 * unat n"
proof -
  obtain v where v: "smeared 32 (n - 1) v" "up2 n = v + 1" using up2_smeared by blast
  have one: "unat (n - 1) = unat n - 1"
    using assms(1) by (intro unat_minus_one) (auto simp: unat_eq_0)
  show ?thesis
  proof (cases "unat n = 1")
    case True
    with one have "n - 1 = 0" by (simp add: unat_eq_0)
    with v(1) have "v = 0" by (intro bit_word_eqI) (simp add: smeared_def)
    with v(2) True show ?thesis by (intro exI [of _ 0]) simp
  next
    case False
    with assms have "0 < unat n - 1" "unat n - 1 < 2 ^ 31" by auto
    then obtain k where k: "k < 31" "2 ^ k \<le> unat n - 1" "unat n - 1 < 2 ^ Suc k"
      using log2_exists by blast
    note top = bit_top [of k "n - 1", unfolded one, OF k(2,3)]
    have "v = mask (Suc k)"
    proof (rule bit_word_eqI)
      fix i assume "i < LENGTH(32)"
      have "(\<exists>j. i \<le> j \<and> j < i + 32 \<and> bit (n - 1) j) \<longleftrightarrow> i \<le> k"
      proof
        assume "\<exists>j. i \<le> j \<and> j < i + 32 \<and> bit (n - 1) j"
        then show "i \<le> k" using top(1) le_trans by blast
      next
        assume "i \<le> k"
        with k(1) top(2) show "\<exists>j. i \<le> j \<and> j < i + 32 \<and> bit (n - 1) j"
          by (intro exI [of _ k]) simp
      qed
      with v(1) \<open>i < LENGTH(32)\<close> show "bit v i = bit (mask (Suc k) :: 32 word) i"
        by (simp add: smeared_def bit_mask_iff less_Suc_eq_le)
    qed
    then have "up2 n = 2 ^ Suc k" using v(2) by (simp add: mask_eq_exp_minus_1)
    then have "up2 n = of_nat (2 ^ Suc k)" by simp
    then have "unat (up2 n) = 2 ^ Suc k mod 2 ^ 32" by (simp only: unat_of_nat len_num1 len_bit0) simp
    also have "(2::nat) ^ Suc k mod 2 ^ 32 = 2 ^ Suc k"
      using k(1) by (intro mod_less power_strict_increasing) simp_all
    finally have "unat (up2 n) = 2 ^ Suc k" .
    with k show ?thesis by (intro exI [of _ "Suc k"]) auto
  qed
qed

section \<open>The invariant\<close>

abbreviation level :: "buddy \<Rightarrow> nat \<Rightarrow> nat" where
  "level s i \<equiv> i_k (info_heap s i)"

definition half_size :: "buddy \<Rightarrow> nat \<Rightarrow> nat" where
  "half_size s i = 2 ^ level s i * MIN_CHUNK_SIZE"

definition has_free :: "buddy \<Rightarrow> nat \<Rightarrow> bool" where
  "has_free s c \<longleftrightarrow> ci_a_free c s \<or> ci_b_free c s"

text \<open>How many free halves of the chunk, each of \<open>n\<close> bytes, contain the address \<open>x\<close>.\<close>

definition covers :: "buddy \<Rightarrow> nat \<Rightarrow> nat \<Rightarrow> nat \<Rightarrow> nat" where
  "covers s n x c =
     (if ci_a_free c s \<and> c_a (chunk_heap s c) \<le> x \<and> x < c_a (chunk_heap s c) + n then 1 else 0)
     + (if ci_b_free c s \<and> c_b (chunk_heap s c) \<le> x \<and> x < c_b (chunk_heap s c) + n then 1 else 0)"

definition cover :: "buddy \<Rightarrow> nat list \<Rightarrow> (nat \<Rightarrow> nat list) \<Rightarrow> nat \<Rightarrow> nat" where
  "cover s is cf x = (\<Sum>i\<leftarrow>is. \<Sum>c\<leftarrow>cf i. covers s (half_size s i) x c)"

text \<open>
  \<open>is\<close>: the info items from \<open>root\<close> on, of descending levels; \<open>cf i\<close>: the chunks on the list of
  the info item \<open>i\<close>. A free half ends below \<open>2 ^ 64\<close>. The levels are at most 19, so that sizes
  fit in 32 bits.
\<close>

definition binv :: "buddy \<Rightarrow> nat \<Rightarrow> nat list \<Rightarrow> (nat \<Rightarrow> nat list) \<Rightarrow> bool" where
  "binv s root is cf \<longleftrightarrow>
     chain (smaller s) root is 0 \<and> is \<noteq> [] \<and> level s root \<le> 19
     \<and> successively (\<lambda>i j. level s i = Suc (level s j)) is
     \<and> (\<forall>i\<in>set is. chain (cnext s) (i_free_list (info_heap s i)) (cf i) 0 \<and> cf i \<noteq> []
          \<and> (\<forall>c\<in>set (cf i). c < 2 ^ 64
              \<and> (ci_a_free c s \<longrightarrow> c_a (chunk_heap s c) + half_size s i \<le> 2 ^ 64)
              \<and> (ci_b_free c s \<longrightarrow> c_b (chunk_heap s c) + half_size s i \<le> 2 ^ 64)))
     \<and> distinct (concat (map cf is))"

text \<open>
  What \<open>malloc\<close> returns up to the call number \<open>lim\<close> is not null, not in use, and not returned
  twice.
\<close>

definition fresh ::
  "(nat \<Rightarrow> nat) \<Rightarrow> nat \<Rightarrow> buddy \<Rightarrow> nat list \<Rightarrow> (nat \<Rightarrow> nat list) \<Rightarrow> bool" where
  "fresh alloc lim s is cf \<longleftrightarrow>
     (\<forall>n\<in>{mallocs s..<lim}. alloc n \<noteq> 0 \<and> alloc n < 2 ^ 64 \<and> alloc n \<notin> set is
        \<and> alloc n \<notin> set (concat (map cf is))
        \<and> (\<forall>m\<in>{mallocs s..<lim}. m \<noteq> n \<longrightarrow> alloc m \<noteq> alloc n))"

section \<open>Walking the lists\<close>

lemma find_free_loop_chain:
  "chain (cnext s) c cs 0 \<Longrightarrow> length cs \<le> fuel \<Longrightarrow>
   find_free_loop fuel c s = Inr (case find (has_free s) cs of None \<Rightarrow> 0 | Some c \<Rightarrow> c)"
proof (induction cs arbitrary: c fuel)
  case (Cons x cs)
  then show ?case
    by (subst find_free_loop.simps) (auto simp: has_free_def [of s c])
qed (simp add: find_free_loop.simps)

lemma last_chunk_chain:
  "chain (cnext s) c cs 0 \<Longrightarrow> cs \<noteq> [] \<Longrightarrow> length cs \<le> Suc fuel \<Longrightarrow> last_chunk fuel c s = Inr (last cs)"
proof (induction cs arbitrary: c fuel)
  case (Cons x cs)
  then have c: "x = c" "c \<noteq> 0" "chain (cnext s) (cnext s c) cs 0" by auto
  show ?case
  proof (cases "cs = []")
    case True
    with c show ?thesis by (subst last_chunk.simps) simp
  next
    case False
    with c have "cnext s c \<noteq> 0" by (cases cs) auto
    moreover from False Cons.prems have "fuel \<noteq> 0" "length cs \<le> Suc (fuel - 1)" by (cases cs; simp)+
    ultimately show ?thesis using Cons.IH [OF c(3) False] c False
      by (subst last_chunk.simps) simp
  qed
qed simp

lemma binv_level:
  assumes "binv s root is cf" and "i \<in> set is"
  shows "chain (cnext s) (i_free_list (info_heap s i)) (cf i) 0" and "cf i \<noteq> []"
    and "distinct (cf i)" and "length (cf i) \<le> list_fuel"
proof -
  show c: "chain (cnext s) (i_free_list (info_heap s i)) (cf i) 0" and "cf i \<noteq> []"
    using assms by (auto simp: binv_def)
  show d: "distinct (cf i)" using c by (rule chain_null_distinct)
  have "c < 2 ^ 64" if "c \<in> set (cf i)" for c using assms that by (auto simp: binv_def)
  moreover have "0 < c" if "c \<in> set (cf i)" for c using chain_nonnull [OF c that] by simp
  ultimately have "length (cf i) < 2 ^ 64"
    by (intro distinct_bounded_length [OF d]) auto
  then show "length (cf i) \<le> list_fuel" by (simp add: list_fuel_def)
qed

lemma find_free_chunk_spec:
  assumes w: "binv s root is cf" and i: "i \<in> set is"
  shows "\<exists>c. find_free_chunk i s = Inr c \<and>
    (c = 0 \<and> (\<forall>d\<in>set (cf i). \<not> has_free s d) \<or> c \<noteq> 0 \<and> c \<in> set (cf i) \<and> has_free s c)"
proof -
  note l = binv_level [OF w i]
  have f: "find_free_chunk i s = Inr (case find (has_free s) (cf i) of None \<Rightarrow> 0 | Some c \<Rightarrow> c)"
    unfolding find_free_chunk_def by (rule find_free_loop_chain [OF l(1,4)])
  show ?thesis
  proof (cases "find (has_free s) (cf i)")
    case None
    with f show ?thesis by (auto simp: find_None_iff)
  next
    case (Some c)
    then have "c \<in> set (cf i)" "has_free s c" by (auto simp: find_Some_iff)
    with f Some chain_nonnull [OF l(1)] show ?thesis by auto
  qed
qed

lemma levels_below:
  assumes "successively (\<lambda>i j. level s i = Suc (level s j)) (i # is)" and "j \<in> set is"
  shows "level s j < level s i"
  using assms by (induction "is" arbitrary: i) (auto, fastforce)

lemma levels_length:
  "successively (\<lambda>i j. level s i = Suc (level s j)) (i # is) \<Longrightarrow> length is \<le> level s i"
  by (induction "is" arbitrary: i) auto

text \<open>The item \<open>descend\<close> stops at: the one of the level asked for, or the last.\<close>

lemma descend_chain:
  assumes "chain (smaller s) i is 0" and "is \<noteq> []" and "targetk \<le> level s i"
    and "successively (\<lambda>i j. level s i = Suc (level s j)) is" and "length is \<le> fuel"
  shows "\<exists>j\<in>set is. descend fuel targetk i s = Inr j \<and> targetk \<le> level s j
    \<and> (\<forall>g\<in>set is. level s g = targetk \<longrightarrow> g = j)"
  using assms
proof (induction "is" arbitrary: i fuel)
  case (Cons x xs)
  then have c: "x = i" "i \<noteq> 0" "chain (smaller s) (smaller s i) xs 0" by auto
  show ?case
  proof (cases "xs = [] \<or> level s i \<le> targetk")
    case True
    then have d: "descend fuel targetk i s = Inr i"
      using c(3) by (subst descend.simps) auto
    have "\<forall>g\<in>set (x # xs). level s g = targetk \<longrightarrow> g = i"
    proof (intro ballI impI, rule ccontr)
      fix g assume a: "g \<in> set (x # xs)" "level s g = targetk" "g \<noteq> i"
      with c(1) have g: "g \<in> set xs" by simp
      then have "level s i \<le> targetk" using True by (cases xs) auto
      with levels_below [of s i xs g] Cons.prems(4) c(1) g a(2) show False by simp
    qed
    moreover have "i \<in> set (x # xs)" using c(1) by simp
    ultimately show ?thesis using d Cons.prems(3) by blast
  next
    case False
    then obtain y ys where xs: "xs = y # ys" by (cases xs) auto
    with c have y: "smaller s i = y" "y \<noteq> 0" by auto
    have lv: "level s i = Suc (level s y)" using Cons.prems(4) xs c(1) by simp
    have t: "targetk \<le> level s (smaller s i)" using False lv y by simp
    have s': "successively (\<lambda>i j. level s i = Suc (level s j)) xs"
      using Cons.prems(4) xs by simp
    have f: "fuel \<noteq> 0" "length xs \<le> fuel - 1" using Cons.prems(5) by auto
    from Cons.IH [OF c(3) _ t s' f(2)] xs obtain j where
      j: "j \<in> set xs" "descend (fuel - 1) targetk (smaller s i) s = Inr j" "targetk \<le> level s j"
        "\<forall>g\<in>set xs. level s g = targetk \<longrightarrow> g = j" by blast
    have "descend fuel targetk i s = Inr j"
      using j(2) False f(1) y by (subst descend.simps) simp
    with j False c(1) show ?thesis by auto
  qed
qed simp

lemma find_smallest_chain:
  assumes w: "binv s root is cf" and "chain (smaller s) i xs 0" and "xs \<noteq> []" and "set xs \<subseteq> set is"
    and "successively (\<lambda>i j. level s i = Suc (level s j)) xs" and "length xs \<le> fuel"
  shows "\<exists>sb' sc'. find_smallest fuel targetk i sb sc s = Inr (sb', sc') \<and>
    (sb' = sb \<and> sc' = sc \<and> (\<forall>j\<in>set xs. j = i \<or> targetk < level s j \<longrightarrow> (\<forall>c\<in>set (cf j). \<not> has_free s c))
     \<or> sb' \<in> set xs \<and> (sb' = i \<or> targetk < level s sb') \<and> sc' \<in> set (cf sb') \<and> has_free s sc')"
  using assms(2-)
proof (induction xs arbitrary: i fuel sb sc)
  case (Cons x xs)
  then have c: "x = i" "i \<noteq> 0" "chain (smaller s) (smaller s i) xs 0" "i \<in> set is" by auto
  obtain ch where f: "find_free_chunk i s = Inr ch"
    and ch: "ch = 0 \<and> (\<forall>d\<in>set (cf i). \<not> has_free s d) \<or> ch \<noteq> 0 \<and> ch \<in> set (cf i) \<and> has_free s ch"
    using find_free_chunk_spec [OF w c(4)] by blast
  let ?sb = "if ch \<noteq> 0 then i else sb" and ?sc = "if ch \<noteq> 0 then ch else sc"
  have f0: "fuel \<noteq> 0" "length xs \<le> fuel - 1" using Cons.prems(5) by auto
  show ?case
  proof (cases "smaller s i \<noteq> 0 \<and> targetk < level s (smaller s i)")
    case False
    then have r: "find_smallest fuel targetk i sb sc s = Inr (?sb, ?sc)"
      using f f0(1) by (subst find_smallest.simps) (auto simp: Let_def)
    have low: "level s j \<le> targetk" if j: "j \<in> set xs" for j
    proof -
      obtain y ys where xs: "xs = y # ys" using j by (cases xs) auto
      with c have y: "smaller s i = y" "y \<noteq> 0" by auto
      with False have "level s y \<le> targetk" by simp
      moreover have "level s j \<le> level s y"
        using j xs Cons.prems(4) levels_below [of s y ys j] by auto
      ultimately show ?thesis by simp
    qed
    show ?thesis
    proof (cases "ch = 0")
      case True
      then have "\<forall>j\<in>set (x # xs). j = i \<or> targetk < level s j \<longrightarrow> (\<forall>c\<in>set (cf j). \<not> has_free s c)"
        using ch low c(1) by fastforce
      with r True show ?thesis by simp
    next
      case nz: False
      with r ch c(1) show ?thesis by simp
    qed
  next
    case True
    then have ne: "xs \<noteq> []" using c(3) by auto
    have s': "successively (\<lambda>i j. level s i = Suc (level s j)) xs"
      using Cons.prems(4) ne by (cases xs) auto
    have sub: "set xs \<subseteq> set is" using Cons.prems(3) by simp
    from Cons.IH [OF c(3) ne sub s' f0(2), of ?sb ?sc] obtain sb' sc' where
      r: "find_smallest (fuel - 1) targetk (smaller s i) ?sb ?sc s = Inr (sb', sc')"
      and q: "sb' = ?sb \<and> sc' = ?sc \<and> (\<forall>j\<in>set xs. j = smaller s i \<or> targetk < level s j
            \<longrightarrow> (\<forall>c\<in>set (cf j). \<not> has_free s c))
        \<or> sb' \<in> set xs \<and> (sb' = smaller s i \<or> targetk < level s sb') \<and> sc' \<in> set (cf sb') \<and> has_free s sc'"
      by blast
    have e: "find_smallest fuel targetk i sb sc s = Inr (sb', sc')"
      using f f0(1) True r by (subst find_smallest.simps) (simp add: Let_def)
    from q show ?thesis
    proof (elim disjE conjE)
      assume a: "sb' = ?sb" "sc' = ?sc" "\<forall>j\<in>set xs. j = smaller s i \<or> targetk < level s j
            \<longrightarrow> (\<forall>c\<in>set (cf j). \<not> has_free s c)"
      show ?thesis
      proof (cases "ch = 0")
        case True
        then have "\<forall>j\<in>set (x # xs). j = i \<or> targetk < level s j \<longrightarrow> (\<forall>c\<in>set (cf j). \<not> has_free s c)"
          using a(3) ch c(1) levels_below [of s i xs] Cons.prems(4) by fastforce
        with e a True show ?thesis by simp
      next
        case nz: False
        with e a ch c(1) show ?thesis by simp
      qed
    next
      assume "sb' \<in> set xs" "sb' = smaller s i" "sc' \<in> set (cf sb')" "has_free s sc'"
      with e True show ?thesis by auto
    next
      assume "sb' \<in> set xs" "targetk < level s sb'" "sc' \<in> set (cf sb')" "has_free s sc'"
      with e show ?thesis by auto
    qed
  qed
qed simp

section \<open>Splitting\<close>

lemma flag_masks:
  fixes f :: "8 word"
  shows "(f OR 4) AND 1 = f AND 1" "(f OR 4) AND 2 = f AND 2" "(f OR 4) AND 8 = f AND 8"
    "(f OR 4) AND 4 = 4" "(f OR 8) AND 1 = f AND 1" "(f OR 8) AND 2 = f AND 2"
    "(f OR 8) AND 4 = f AND 4" "(f OR 8) AND 8 = 8"
  by (simp_all add: bit.conj_disj_distrib2 word_ao_absorbs)

text \<open>
  What a split does to the chunks: \<open>c\<close> loses a free half at \<open>m\<close>, \<open>p\<close> is a new chunk of both
  halves of it; the others keep their halves and flags.
\<close>

definition split_chunks :: "buddy \<Rightarrow> buddy \<Rightarrow> nat \<Rightarrow> nat \<Rightarrow> nat \<Rightarrow> nat \<Rightarrow> bool" where
  "split_chunks s s' c p m n \<longleftrightarrow>
     m \<noteq> 0 \<and> m + 2 * n \<le> 2 ^ 64 \<and> 0 < n
     \<and> c_a (chunk_heap s' p) = m \<and> c_b (chunk_heap s' p) = m + n \<and> c_flags (chunk_heap s' p) = 0
     \<and> (\<forall>d. d \<noteq> p \<longrightarrow> c_a (chunk_heap s' d) = c_a (chunk_heap s d)
          \<and> c_b (chunk_heap s' d) = c_b (chunk_heap s d)
          \<and> (d \<noteq> c \<longrightarrow> c_flags (chunk_heap s' d) = c_flags (chunk_heap s d)))
     \<and> (ci_a_free c s \<and> m = c_a (chunk_heap s c)
          \<and> c_flags (chunk_heap s' c) = c_flags (chunk_heap s c) OR CI_A_SPLIT
        \<or> ci_b_free c s \<and> m = c_b (chunk_heap s c)
          \<and> c_flags (chunk_heap s' c) = c_flags (chunk_heap s c) OR CI_B_SPLIT)"

lemma split_chunks_free:
  assumes sp: "split_chunks s s' c p m n" and d: "d \<noteq> p"
  shows "ci_a_free d s' \<Longrightarrow> ci_a_free d s" and "ci_b_free d s' \<Longrightarrow> ci_b_free d s"
    and "c_a (chunk_heap s' d) = c_a (chunk_heap s d)"
    and "c_b (chunk_heap s' d) = c_b (chunk_heap s d)"
  using sp d unfolding split_chunks_def ci_a_free_def ci_b_free_def ci_flag_def
  by (cases "d = c"; auto simp: flag_masks)+

lemma split_chunks_new:
  assumes sp: "split_chunks s s' c p m n" and n: "m + 2 * n \<le> 2 ^ 64" "0 < n"
  shows "ci_a_free p s'" and "ci_b_free p s'"
    and "covers s' n x p = (if m \<le> x \<and> x < m + 2 * n then 1 else 0)"
proof -
  show f: "ci_a_free p s'" "ci_b_free p s'"
    using sp by (auto simp: split_chunks_def ci_a_free_def ci_b_free_def ci_flag_def)
  show "covers s' n x p = (if m \<le> x \<and> x < m + 2 * n then 1 else 0)"
    using sp f by (auto simp: covers_def split_chunks_def)
qed

lemma split_chunks_covers:
  assumes sp: "split_chunks s s' c p m n" and c: "c \<noteq> p"
  shows "d \<noteq> p \<Longrightarrow> d \<noteq> c \<Longrightarrow> covers s' k x d = covers s k x d"
    and "covers s' (2 * n) x c + (if m \<le> x \<and> x < m + 2 * n then 1 else 0) = covers s (2 * n) x c"
proof -
  show "covers s' k x d = covers s k x d" if "d \<noteq> p" "d \<noteq> c"
    using sp that by (simp add: split_chunks_def covers_def ci_a_free_def ci_b_free_def ci_flag_def)
  have e: "c_a (chunk_heap s' c) = c_a (chunk_heap s c)" "c_b (chunk_heap s' c) = c_b (chunk_heap s c)"
    using sp c by (auto simp: split_chunks_def)
  from sp consider
      "ci_a_free c s" "m = c_a (chunk_heap s c)" "c_flags (chunk_heap s' c) = c_flags (chunk_heap s c) OR 4"
    | "ci_b_free c s" "m = c_b (chunk_heap s c)" "c_flags (chunk_heap s' c) = c_flags (chunk_heap s c) OR 8"
    unfolding split_chunks_def by blast
  then show "covers s' (2 * n) x c + (if m \<le> x \<and> x < m + 2 * n then 1 else 0) = covers s (2 * n) x c"
  proof cases
    case 1
    then have "\<not> ci_a_free c s'" "ci_b_free c s' = ci_b_free c s"
      using e by (simp_all add: ci_a_free_def ci_b_free_def ci_flag_def flag_masks)
    with 1 e show ?thesis by (simp add: covers_def)
  next
    case 2
    then have "\<not> ci_b_free c s'" "ci_a_free c s' = ci_a_free c s"
      using e by (simp_all add: ci_a_free_def ci_b_free_def ci_flag_def flag_masks)
    with 2 e show ?thesis by (simp add: covers_def)
  qed
qed

lemma concat_map_disjoint:
  "distinct (concat (map f xs)) \<Longrightarrow> i \<in> set xs \<Longrightarrow> j \<in> set xs \<Longrightarrow> c \<in> set (f i) \<Longrightarrow> i \<noteq> j \<Longrightarrow>
   c \<notin> set (f j)"
  by (induction xs) auto

lemma concat_map_part: "distinct (concat (map f xs)) \<Longrightarrow> i \<in> set xs \<Longrightarrow> distinct (f i)"
  by (induction xs) auto

lemma sum_list_delta:
  "distinct xs \<Longrightarrow> y \<in> set xs \<Longrightarrow> (\<Sum>i\<leftarrow>xs. f i + (if i = y then v else 0)) = (\<Sum>i\<leftarrow>xs. f i) + (v::nat)"
  by (induction xs) (auto simp: sum_list_addf)

lemma cover_split:
  assumes sp: "split_chunks s s' c p m n"
    and d: "distinct is" "distinct (concat (map cf is))" and b: "b \<in> set is" "c \<in> set (cf b)"
    and p: "p \<notin> set (concat (map cf is))"
    and hs: "\<And>i. i \<in> set is \<Longrightarrow> half_size s' i = half_size s i"
    and n: "half_size s b = 2 * n" "half_size s' y = n"
    and new: "y \<in> set is \<and> is' = is \<and> cf' = cf(y := cf y @ [p])
      \<or> y \<notin> set is \<and> is' = is @ [y] \<and> cf' = cf(y := [p])"
  shows "cover s' is' cf' x = cover s is cf x"
proof -
  let ?ind = "if m \<le> x \<and> x < m + 2 * n then 1 else 0 :: nat"
  let ?g = "\<lambda>t i. \<Sum>c\<leftarrow>cf i. covers t (half_size s i) x c"
  have cp: "c \<noteq> p" using b p by auto
  have lim: "m + 2 * n \<le> 2 ^ 64" "0 < n" using sp by (auto simp: split_chunks_def)
  have pc: "covers s' n x p = ?ind" by (rule split_chunks_new [OF sp lim])
  have other: "?g s' i = ?g s i" if i: "i \<in> set is" "i \<noteq> b" for i
  proof -
    have "c \<notin> set (cf i)" using concat_map_disjoint [OF d(2) b(1) i(1) b(2)] i(2) by blast
    moreover have "p \<notin> set (cf i)" using i(1) p by auto
    ultimately have "covers s' k x e = covers s k x e" if "e \<in> set (cf i)" for e k
      using that by (intro split_chunks_covers(1) [OF sp cp]) auto
    then show ?thesis by (simp cong: map_cong)
  qed
  have at_b: "?g s' b + ?ind = ?g s b"
  proof -
    obtain us vs where uv: "cf b = us @ c # vs" using b(2) by (meson split_list)
    have "distinct (cf b)" by (rule concat_map_part [OF d(2) b(1)])
    then have "covers s' k x e = covers s k x e" if "e \<in> set (us @ vs)" for e k
      using that p b(1) uv by (intro split_chunks_covers(1) [OF sp cp]) auto
    then have us: "map (covers s' (2 * n) x) us = map (covers s (2 * n) x) us"
      and vs: "map (covers s' (2 * n) x) vs = map (covers s (2 * n) x) vs" by simp_all
    show ?thesis
      unfolding n(1) uv map_append list.map us vs sum_list_append sum_list.Cons
        split_chunks_covers(2) [OF sp cp, of x, symmetric] by simp
  qed
  have "(\<Sum>i\<leftarrow>is. ?g s' i) + ?ind = (\<Sum>i\<leftarrow>is. ?g s' i + (if i = b then ?ind else 0))"
    by (rule sum_list_delta [OF d(1) b(1), symmetric])
  also have "\<dots> = (\<Sum>i\<leftarrow>is. ?g s i)"
    using other at_b by (intro arg_cong [of _ _ sum_list] map_cong) auto
  finally have total: "(\<Sum>i\<leftarrow>is. ?g s' i) + ?ind = cover s is cf x" by (simp add: cover_def)
  from new show ?thesis
  proof (elim disjE conjE)
    assume y: "y \<in> set is" "is' = is" "cf' = cf(y := cf y @ [p])"
    have "cover s' is' cf' x = (\<Sum>i\<leftarrow>is. ?g s' i + (if i = y then ?ind else 0))"
      unfolding cover_def y(2,3)
      using hs n(2) pc hs [OF y(1)] by (intro arg_cong [of _ _ sum_list] map_cong) auto
    also have "\<dots> = (\<Sum>i\<leftarrow>is. ?g s' i) + ?ind" by (rule sum_list_delta [OF d(1) y(1)])
    finally show ?thesis using total by simp
  next
    assume y: "y \<notin> set is" "is' = is @ [y]" "cf' = cf(y := [p])"
    have "(\<Sum>i\<leftarrow>is. \<Sum>c\<leftarrow>cf' i. covers s' (half_size s' i) x c) = (\<Sum>i\<leftarrow>is. ?g s' i)"
      using y(1,3) hs by (intro arg_cong [of _ _ sum_list] map_cong) auto
    then have "cover s' is' cf' x = (\<Sum>i\<leftarrow>is. ?g s' i) + ?ind"
      unfolding cover_def y(2) using y(3) pc n(2) by simp
    with total show ?thesis by simp
  qed
qed

lemma binv_parts:
  assumes "binv s root is cf"
  shows "chain (smaller s) root is 0" and "is \<noteq> []" and "level s root \<le> 19" and "distinct is"
    and "successively (\<lambda>i j. level s i = Suc (level s j)) is"
    and "distinct (concat (map cf is))" and "length is \<le> 20"
    and "\<And>i. i \<in> set is \<Longrightarrow> i \<noteq> 0" and "\<And>i. i \<in> set is \<Longrightarrow> level s i \<le> level s root"
    and "hd is = root"
proof -
  show c: "chain (smaller s) root is 0" and ne: "is \<noteq> []" and k: "level s root \<le> 19"
    and s: "successively (\<lambda>i j. level s i = Suc (level s j)) is"
    and "distinct (concat (map cf is))" using assms by (auto simp: binv_def)
  show "distinct is" using c by (rule chain_null_distinct)
  show "i \<noteq> 0" if "i \<in> set is" for i using chain_nonnull [OF c that] .
  from c ne obtain js where js: "is = root # js" by (cases "is") auto
  then show "hd is = root" by simp
  from js levels_length [of s root js] s k show "length is \<le> 20" by simp
  show "level s i \<le> level s root" if "i \<in> set is" for i
    using that js levels_below [of s root js i] s by auto
qed

lemma binv_split:
  assumes w: "binv s root is cf" and b: "b \<in> set is" "c \<in> set (cf b)"
    and sp: "split_chunks s s' c p m n" and p: "p \<notin> set (concat (map cf is))" "p < 2 ^ 64"
    and hs: "\<And>i. i \<in> set is \<Longrightarrow> half_size s' i = half_size s i"
    and n: "half_size s' y = n"
    and new: "y \<in> set is \<and> is' = is \<and> cf' = cf(y := cf y @ [p])
      \<or> y \<notin> set is \<and> is' = is @ [y] \<and> cf' = cf(y := [p])"
    and lists: "chain (smaller s') root is' 0" "level s' root \<le> 19"
      "successively (\<lambda>i j. level s' i = Suc (level s' j)) is'"
      "\<And>i. i \<in> set is' \<Longrightarrow> chain (cnext s') (i_free_list (info_heap s' i)) (cf' i) 0"
  shows "binv s' root is' cf'"
proof -
  have lim: "m + 2 * n \<le> 2 ^ 64" "0 < n" using sp by (auto simp: split_chunks_def)
  have pp: "c_a (chunk_heap s' p) + n \<le> 2 ^ 64" "c_b (chunk_heap s' p) + n \<le> 2 ^ 64"
    using sp lim by (auto simp: split_chunks_def)
  have old: "d < 2 ^ 64 \<and> (ci_a_free d s' \<longrightarrow> c_a (chunk_heap s' d) + half_size s' i \<le> 2 ^ 64)
      \<and> (ci_b_free d s' \<longrightarrow> c_b (chunk_heap s' d) + half_size s' i \<le> 2 ^ 64)"
    if "i \<in> set is" "d \<in> set (cf i)" for i d
  proof -
    have "d \<noteq> p" using that p(1) by auto
    with w that hs [OF that(1)] split_chunks_free [OF sp, of d] show ?thesis by (auto simp: binv_def)
  qed
  have "is' \<noteq> []" using new b by auto
  moreover have "cf' i \<noteq> [] \<and> (\<forall>d\<in>set (cf' i). d < 2 ^ 64
      \<and> (ci_a_free d s' \<longrightarrow> c_a (chunk_heap s' d) + half_size s' i \<le> 2 ^ 64)
      \<and> (ci_b_free d s' \<longrightarrow> c_b (chunk_heap s' d) + half_size s' i \<le> 2 ^ 64))"
    if i: "i \<in> set is'" for i
  proof (cases "i = y")
    case True
    with new show ?thesis using old [of y] p(2) pp n by auto
  next
    case False
    with i new have "i \<in> set is" "cf' i = cf i" by auto
    with old [of i] binv_level(2) [OF w] show ?thesis by auto
  qed
  moreover have "distinct (concat (map cf' is'))"
  proof -
    have d: "distinct (concat (map cf is))" "distinct is" using w by (auto intro: binv_parts)
    from new show ?thesis
    proof (elim disjE conjE)
      assume y: "y \<in> set is" "is' = is" "cf' = cf(y := cf y @ [p])"
      have "distinct xs \<Longrightarrow> distinct (concat (map cf xs)) \<Longrightarrow> p \<notin> set (concat (map cf xs)) \<Longrightarrow>
          distinct (concat (map (cf(y := cf y @ [p])) xs))
          \<and> set (concat (map (cf(y := cf y @ [p])) xs)) \<subseteq> insert p (set (concat (map cf xs)))
          \<and> (y \<notin> set xs \<longrightarrow> p \<notin> set (concat (map (cf(y := cf y @ [p])) xs)))" for xs
        by (induction xs) auto
      from this [OF d(2,1) p(1)] y show ?thesis by simp
    next
      assume y: "y \<notin> set is" "is' = is @ [y]" "cf' = cf(y := [p])"
      then have "map cf' is = map cf is" by auto
      with y d p(1) show ?thesis by simp
    qed
  qed
  ultimately show ?thesis using lists unfolding binv_def by blast
qed

lemma chunk_size_half: "level s i \<le> 19 \<Longrightarrow> chunk_size i s = half_size s i"
proof -
  assume "level s i \<le> 19"
  then have "(2::nat) ^ level s i \<le> 2 ^ 19" by (intro power_increasing) auto
  then show ?thesis by (simp add: chunk_size_def half_size_def)
qed

lemma half_size_Suc: "level s i = Suc (level t j) \<Longrightarrow> half_size s i = 2 * half_size t j"
  by (simp add: half_size_def)

text \<open>The part of \<open>split_chunk_item\<close> that is common to both cases.\<close>

definition halved :: "nat \<Rightarrow> nat \<Rightarrow> nat \<Rightarrow> buddy \<Rightarrow> buddy" where
  "halved c p n s =
     (let memory = (if ci_a_free c s then c_a (chunk_heap s c) else c_b (chunk_heap s c));
          flag = (if ci_a_free c s then CI_A_SPLIT else CI_B_SPLIT)
      in upd_chunk p (\<lambda>x. x\<lparr>c_a := memory, c_b := u64 (memory + n)\<rparr>)
           (ci_set_flag c flag
             (upd_chunk p (\<lambda>_. \<lparr>c_a = 0, c_b = 0, c_flags = 0, c_next = 0\<rparr>)
               (s\<lparr>mallocs := mallocs s + 1\<rparr>))))"

lemma halved_split:
  assumes f: "has_free s c" and p: "c \<noteq> p" and n: "0 < n"
    and a: "ci_a_free c s \<Longrightarrow> c_a (chunk_heap s c) + 2 * n \<le> 2 ^ 64"
    and b: "ci_b_free c s \<Longrightarrow> c_b (chunk_heap s c) + 2 * n \<le> 2 ^ 64"
  shows "\<exists>m. split_chunks s (halved c p n s) c p m n"
    and "cnext (halved c p n s) e = (if e = p then 0 else cnext s e)" and "info_heap (halved c p n s) = info_heap s"
    and "mallocs (halved c p n s) = mallocs s + 1"
proof -
  show "cnext (halved c p n s) e = (if e = p then 0 else cnext s e)" "info_heap (halved c p n s) = info_heap s"
    "mallocs (halved c p n s) = mallocs s + 1"
    using p by (auto simp: halved_def Let_def ci_set_flag_def fun_eq_iff)
  show "\<exists>m. split_chunks s (halved c p n s) c p m n"
  proof (cases "ci_a_free c s")
    case True
    have m: "c_a (chunk_heap s c) \<noteq> 0" using True by (simp add: ci_a_free_def)
    have "u64 (c_a (chunk_heap s c) + n) = c_a (chunk_heap s c) + n" using a [OF True] n by simp
    with True m a n p show ?thesis
      by (intro exI [of _ "c_a (chunk_heap s c)"])
        (simp add: split_chunks_def halved_def ci_set_flag_def Let_def)
  next
    case False
    then have fb: "ci_b_free c s" using f by (simp add: has_free_def)
    have m: "c_b (chunk_heap s c) \<noteq> 0" using fb by (simp add: ci_b_free_def)
    have "u64 (c_b (chunk_heap s c) + n) = c_b (chunk_heap s c) + n" using b [OF fb] n by simp
    with fb False m b n p show ?thesis
      by (intro exI [of _ "c_b (chunk_heap s c)"])
        (simp add: split_chunks_def halved_def ci_set_flag_def Let_def)
  qed
qed

lemma freshD:
  assumes "fresh alloc lim s is cf" and "mallocs s \<le> n" and "n < lim"
  shows "alloc n \<noteq> 0" and "alloc n < 2 ^ 64" and "alloc n \<notin> set is"
    and "alloc n \<notin> set (concat (map cf is))"
    and "mallocs s \<le> m \<Longrightarrow> m < lim \<Longrightarrow> m \<noteq> n \<Longrightarrow> alloc m \<noteq> alloc n"
proof -
  have n: "n \<in> {mallocs s..<lim}" using assms by simp
  have a: "alloc n \<noteq> 0 \<and> alloc n < 2 ^ 64 \<and> alloc n \<notin> set is
      \<and> alloc n \<notin> set (concat (map cf is))
      \<and> (\<forall>m\<in>{mallocs s..<lim}. m \<noteq> n \<longrightarrow> alloc m \<noteq> alloc n)"
    using assms(1) n unfolding fresh_def by (rule bspec)
  show "alloc n \<noteq> 0" and "alloc n < 2 ^ 64" and "alloc n \<notin> set is"
    and "alloc n \<notin> set (concat (map cf is))"
    using a by blast+
  show "alloc m \<noteq> alloc n" if "mallocs s \<le> m" "m < lim" "m \<noteq> n"
  proof -
    have "m \<in> {mallocs s..<lim}" using that by simp
    with a that(3) show ?thesis by blast
  qed
qed

lemma fresh_step:
  assumes f: "fresh alloc lim s is cf" and m: "mallocs s \<le> k" "k < mallocs s'" "mallocs s' \<le> lim"
    and sub: "set (concat (map cf' is')) \<subseteq> insert (alloc k) (set (concat (map cf is)))"
    and is': "set is' \<subseteq> set is \<or> (\<exists>j. mallocs s \<le> j \<and> j < mallocs s' \<and> set is' \<subseteq> insert (alloc j) (set is))"
  shows "fresh alloc lim s' is' cf'"
  unfolding fresh_def
proof (intro ballI)
  fix n assume "n \<in> {mallocs s'..<lim}"
  then have n: "mallocs s' \<le> n" "n < lim" by simp_all
  then have n': "mallocs s \<le> n" "n \<noteq> k" "k < lim" using m by auto
  note d = freshD [OF f n'(1) n(2)]
  have "alloc k \<noteq> alloc n" using n' by (intro d(5) [OF m(1)]) simp_all
  with sub d(4) have "alloc n \<notin> set (concat (map cf' is'))" by (metis insertE subsetD)
  moreover have "alloc n \<notin> set is'"
  proof -
    have "alloc j \<noteq> alloc n" if "mallocs s \<le> j" "j < mallocs s'" for j
      using that n m(3) by (intro d(5)) auto
    with is' d(3) show ?thesis by (elim disjE exE conjE) (metis subsetD, metis insertE subsetD)
  qed
  moreover have "alloc g \<noteq> alloc n" if "g \<in> {mallocs s'..<lim}" "g \<noteq> n" for g
    using that m by (intro d(5)) auto
  ultimately show "alloc n \<noteq> 0 \<and> alloc n < 2 ^ 64 \<and> alloc n \<notin> set is'
      \<and> alloc n \<notin> set (concat (map cf' is'))
      \<and> (\<forall>m\<in>{mallocs s'..<lim}. m \<noteq> n \<longrightarrow> alloc m \<noteq> alloc n)"
    using d(1,2) by (simp only: simp_thms) blast
qed

lemma make_chunk_item_eq:
  "alloc (mallocs s) \<noteq> 0 \<Longrightarrow> make_chunk_item alloc s = Inr (alloc (mallocs s),
     upd_chunk (alloc (mallocs s)) (\<lambda>_. \<lparr>c_a = 0, c_b = 0, c_flags = 0, c_next = 0\<rparr>)
       (s\<lparr>mallocs := mallocs s + 1\<rparr>))"
  by (simp add: make_chunk_item_def malloc_item_def Let_def)

lemma make_info_item_eq:
  "alloc (mallocs s) \<noteq> 0 \<Longrightarrow> make_info_item alloc n s = Inr (alloc (mallocs s),
     upd_info (alloc (mallocs s)) (\<lambda>_. \<lparr>i_k = shadowed_math_log2 (n div MIN_CHUNK_SIZE),
         i_free_list = 0, i_larger = 0, i_smaller = 0\<rparr>) (s\<lparr>mallocs := mallocs s + 1\<rparr>))"
  by (simp add: make_info_item_def malloc_item_def Let_def)

lemma split_chunk_item_eq:
  assumes "has_free s1 c" and "p = alloc (mallocs s1)" and "p \<noteq> 0"
    and "n = (if into = 0 then chunk_size ii s div 2 else chunk_size into s)"
    and "(if into = 0 then make_info_item alloc n s else Inr (into, s)) = Inr (info, s1)"
  shows "split_chunk_item alloc ii c into s =
    (if into \<noteq> 0 then
       bind_res (last_chunk list_fuel (i_free_list (info_heap s1 info)) (halved c p n s1)) (\<lambda>d.
       Inr (info, upd_chunk d (\<lambda>x. x\<lparr>c_next := p\<rparr>) (halved c p n s1)))
     else Inr (info, upd_info info (\<lambda>x. x\<lparr>i_free_list := p\<rparr>) (halved c p n s1)))"
proof -
  have nf: "\<not> (\<not> ci_a_free c s1 \<and> \<not> ci_b_free c s1)" using assms(1) by (simp add: has_free_def)
  have h: "info_heap (halved c p n s1) = info_heap s1" by (simp add: halved_def ci_set_flag_def Let_def)
  show ?thesis
    unfolding split_chunk_item_def Let_def assms(4) [symmetric] assms(5) bind_res_simps prod.case
      if_not_P [OF nf] make_chunk_item_eq [of alloc s1, folded assms(2), OF assms(3)]
    using h unfolding halved_def Let_def by simp
qed

lemma split_chunks_relink:
  "split_chunks s s' c p m n \<Longrightarrow> (\<And>d. c_a (chunk_heap t d) = c_a (chunk_heap s' d)
     \<and> c_b (chunk_heap t d) = c_b (chunk_heap s' d) \<and> c_flags (chunk_heap t d) = c_flags (chunk_heap s' d))
   \<Longrightarrow> split_chunks s t c p m n"
  by (simp add: split_chunks_def)

text \<open>What a split achieves: one more level down, with a free chunk there.\<close>

definition split_done ::
  "(nat \<Rightarrow> nat) \<Rightarrow> nat \<Rightarrow> buddy \<Rightarrow> nat \<Rightarrow> nat list \<Rightarrow> (nat \<Rightarrow> nat list) \<Rightarrow> nat \<Rightarrow> buddy \<Rightarrow> bool" where
  "split_done alloc lim s root is cf b t \<longleftrightarrow>
     (\<exists>is' cf'. binv t root is' cf' \<and> fresh alloc lim t is' cf'
        \<and> (\<forall>x. cover t is' cf' x = cover s is cf x)
        \<and> level t root = level s root \<and> mallocs t \<le> mallocs s + 2 \<and> smaller t b \<noteq> 0 \<and> smaller t b \<in> set is'
        \<and> level s b = Suc (level t (smaller t b))
        \<and> (\<exists>c\<in>set (cf' (smaller t b)). has_free t c))"

lemma has_free_new:
  "split_chunks s s' c p m n \<Longrightarrow> has_free s' p"
  using split_chunks_new(1) [of s s' c p m n] by (auto simp: split_chunks_def has_free_def)

lemma split_below_existing:
  assumes w: "binv s root is cf" and f: "fresh alloc lim s is cf" and b: "b \<in> set is" "c \<in> set (cf b)"
    and free: "has_free s c" and y: "smaller s b \<noteq> 0" and room: "mallocs s + 2 \<le> lim"
  shows "\<exists>t. split_below alloc b c s = Inr (True, t) \<and> split_done alloc lim s root is cf b t"
proof -
  let ?y = "smaller s b" and ?p = "alloc (mallocs s)"
  note bp = binv_parts [OF w] and fr = freshD [OF f order_refl less_le_trans [OF _ room, simplified]]
  obtain us vs where uv: "is = us @ b # vs" using b(1) by (meson split_list)
  with bp(1) have "chain (smaller s) ?y vs 0" by (auto simp: chain_append)
  with y obtain vs' where vs: "vs = ?y # vs'" by (cases vs) auto
  have yi: "?y \<in> set is" using uv vs by simp
  have lv: "level s b = Suc (level s ?y)" using bp(5) unfolding uv vs by (simp add: successively_append_iff)
  let ?n = "half_size s ?y"
  have n2: "half_size s b = 2 * ?n" using lv by (rule half_size_Suc)
  have k19: "level s ?y \<le> 19" using bp(3,9) yi le_trans by blast
  have n: "chunk_size ?y s = ?n" using k19 by (rule chunk_size_half)
  have cp: "c \<noteq> ?p" using b fr(4) by auto
  have fits: "ci_a_free c s \<Longrightarrow> c_a (chunk_heap s c) + 2 * ?n \<le> 2 ^ 64"
      "ci_b_free c s \<Longrightarrow> c_b (chunk_heap s c) + 2 * ?n \<le> 2 ^ 64"
    using w b n2 by (auto simp: binv_def)
  have npos: "0 < ?n" by (simp add: half_size_def)
  note hv = halved_split [OF free cp npos fits]
  then obtain m where sp0: "split_chunks s (halved c ?p ?n s) c ?p m ?n" by blast
  note ly = binv_level [OF w yi]
  define d where "d = last (cf ?y)"
  have din: "d \<in> set (cf ?y)" using ly(2) by (simp add: d_def)
  have py: "?p \<notin> set (cf i)" if "i \<in> set is" for i using fr(4) that by auto
  have cy: "chain (cnext (halved c ?p ?n s)) (i_free_list (info_heap s ?y)) (cf ?y) 0"
    using ly(1) py [OF yi] hv(2) chain_cong [of "cf ?y" "cnext (halved c ?p ?n s)" "cnext s"]
    by metis
  have lst: "last_chunk list_fuel (i_free_list (info_heap s ?y)) (halved c ?p ?n s) = Inr d"
    unfolding d_def using ly(4) by (intro last_chunk_chain [OF cy ly(2)]) simp
  define t where "t = upd_chunk d (\<lambda>x. x\<lparr>c_next := ?p\<rparr>) (halved c ?p ?n s)"
  have run: "split_below alloc b c s = Inr (True, t)"
    unfolding split_below_def if_P [OF y]
    using y n lst split_chunk_item_eq [where ?s1.0 = s and s = s and n = ?n and into = ?y and info = ?y
        and ii = b and alloc = alloc, OF free refl fr(1)] by (simp add: t_def)
  have sp: "split_chunks s t c ?p m ?n"
    by (rule split_chunks_relink [OF sp0]) (simp add: t_def)
  have info: "info_heap t = info_heap s" by (simp add: t_def hv(3))
  have mt: "mallocs t = mallocs s + 1" by (simp add: t_def hv(4))
  have lev: "level t i = level s i" "smaller t = smaller s" "half_size t i = half_size s i"
      "smaller t i = smaller s i" for i
    by (simp_all add: info fun_eq_iff half_size_def)
  let ?cf = "cf(?y := cf ?y @ [?p])"
  have nx: "cnext t e = (if e = d then ?p else if e = ?p then 0 else cnext s e)" for e
    using hv(2) [of e] by (simp add: t_def)
  have same: "chain (cnext t) q es r = chain (cnext s) q es r"
    if "?p \<notin> set es" "d \<notin> set es" for q es r
    using that nx by (intro chain_cong) auto
  have chains: "chain (cnext t) (i_free_list (info_heap t i)) (?cf i) 0" if i: "i \<in> set is" for i
  proof (cases "i = ?y")
    case True
    have e: "cf ?y = butlast (cf ?y) @ [d]" using ly(2) by (simp add: d_def)
    have "distinct (cf ?y)" by (rule ly)
    then have db: "d \<notin> set (butlast (cf ?y))" by (subst (asm) e) simp
    have pb: "?p \<notin> set (butlast (cf ?y))" using py [OF yi] in_set_butlastD by metis
    from ly(1) have "chain (cnext s) (i_free_list (info_heap s ?y)) (butlast (cf ?y)) d"
      by (subst (asm) e) (auto simp: chain_append)
    then have "chain (cnext t) (i_free_list (info_heap s ?y)) (butlast (cf ?y)) d"
      using same [OF pb db] by simp
    moreover have "d \<noteq> 0" using chain_nonnull [OF ly(1) din] .
    moreover have "d \<noteq> ?p" using din py [OF yi] by auto
    ultimately have "chain (cnext t) (i_free_list (info_heap s ?y)) ((butlast (cf ?y) @ [d]) @ [?p]) 0"
      using fr(1) nx [of d] nx [of ?p] by (simp add: chain_append)
    with True e show ?thesis by (simp add: info)
  next
    case False
    have "d \<notin> set (cf i)" using concat_map_disjoint [OF bp(6) yi i din] False by auto
    with same [OF py [OF i]] binv_level(1) [OF w i] False show ?thesis by (simp add: info)
  qed
  have "binv t root is ?cf"
    by (rule binv_split [OF w b sp fr(4,2) _ _ disjI1])
      (use bp(1,3,5) chains yi in \<open>simp_all add: lev\<close>)
  moreover have "fresh alloc lim t is ?cf"
  proof (rule fresh_step [OF f order_refl])
    show "mallocs s < mallocs t" "mallocs t \<le> lim" using room by (simp_all add: t_def hv(4))
    show "set (concat (map ?cf is)) \<subseteq> insert ?p (set (concat (map cf is)))"
      by (auto split: if_splits)
  qed simp
  moreover have "cover t is ?cf x = cover s is cf x" for x
    by (rule cover_split [OF sp bp(4,6) b fr(4) _ n2, where y = ?y]) (use yi in \<open>simp_all add: lev\<close>)
  moreover have "has_free t ?p" using sp by (rule has_free_new)
  ultimately have "split_done alloc lim s root is cf b t"
    unfolding split_done_def using y yi lv
    by (intro exI [of _ "is"] exI [of _ ?cf]) (simp add: lev mt)
  with run show ?thesis by blast
qed

lemma split_below_new:
  assumes w: "binv s root is cf" and f: "fresh alloc lim s is cf" and b: "b \<in> set is" "c \<in> set (cf b)"
    and free: "has_free s c" and y: "smaller s b = 0" and pos: "0 < level s b"
    and room: "mallocs s + 2 \<le> lim"
  shows "\<exists>t. split_below alloc b c s = Inr (True, t) \<and> split_done alloc lim s root is cf b t"
proof -
  let ?q = "alloc (mallocs s)" and ?p = "alloc (mallocs s + 1)"
  note bp = binv_parts [OF w] and fq = freshD [OF f order_refl less_le_trans [OF _ room, simplified]]
    and fp = freshD [OF f, of "mallocs s + 1", OF le_add1 less_le_trans [OF _ room, simplified]]
  obtain us vs where uv: "is = us @ b # vs" using b(1) by (meson split_list)
  with bp(1) y have "vs = []" by (auto simp: chain_append)
  with uv have lb: "is = us @ [b]" by simp
  obtain k where k: "level s b = Suc k" using pos by (cases "level s b") auto
  let ?n = "2 ^ k * MIN_CHUNK_SIZE"
  have n2: "half_size s b = 2 * ?n" using k by (simp add: half_size_def)
  have k19: "level s b \<le> 19" using bp(3,9) b(1) le_trans by blast
  have n: "chunk_size b s div 2 = ?n" using chunk_size_half [OF k19] n2 by simp
  have lg: "shadowed_math_log2 (?n div MIN_CHUNK_SIZE) = k" using shadowed_math_log2_power by simp
  define s1 where "s1 = upd_info ?q (\<lambda>_. \<lparr>i_k = k, i_free_list = 0, i_larger = 0, i_smaller = 0\<rparr>)
    (s\<lparr>mallocs := mallocs s + 1\<rparr>)"
  have mk: "make_info_item alloc ?n s = Inr (?q, s1)"
    using make_info_item_eq [of alloc s, OF fq(1), of ?n] lg by (simp add: s1_def)
  have m1: "mallocs s1 = mallocs s + 1" by (simp add: s1_def)
  have ch1: "chunk_heap s1 = chunk_heap s" by (simp add: s1_def)
  have free1: "has_free s1 c" "ci_a_free d s1 = ci_a_free d s" "ci_b_free d s1 = ci_b_free d s" for d
    using free by (simp_all add: has_free_def ci_a_free_def ci_b_free_def ci_flag_def ch1)
  have cp: "c \<noteq> ?p" using b fp(4) by auto
  have fits: "ci_a_free c s1 \<Longrightarrow> c_a (chunk_heap s1 c) + 2 * ?n \<le> 2 ^ 64"
      "ci_b_free c s1 \<Longrightarrow> c_b (chunk_heap s1 c) + 2 * ?n \<le> 2 ^ 64"
    using w b n2 by (auto simp: binv_def free1(2,3) ch1)
  have npos: "0 < ?n" by simp
  note hv = halved_split [OF free1(1) cp npos fits]
  then obtain m where "split_chunks s1 (halved c ?p ?n s1) c ?p m ?n" by blast
  then have sp0: "split_chunks s (halved c ?p ?n s1) c ?p m ?n"
    by (simp add: split_chunks_def free1(2,3) ch1)
  define t where "t = upd_info b (\<lambda>x. x\<lparr>i_smaller := ?q\<rparr>)
    (upd_info ?q (\<lambda>x. x\<lparr>i_free_list := ?p\<rparr>) (halved c ?p ?n s1))"
  have run: "split_below alloc b c s = Inr (True, t)"
    unfolding split_below_def
    using y fq(1) split_chunk_item_eq [where ?s1.0 = s1 and s = s and n = ?n and into = 0 and info = ?q
        and ii = b and alloc = alloc, OF free1(1) refl] fp(1) n mk m1 by (simp add: t_def)
  have sp: "split_chunks s t c ?p m ?n"
    by (rule split_chunks_relink [OF sp0]) (simp add: t_def)
  have qb: "?q \<noteq> b" "?q \<notin> set is" using fq(3) b(1) by auto
  have info: "info_heap t = (info_heap s)(?q := \<lparr>i_k = k, i_free_list = ?p, i_larger = 0, i_smaller = 0\<rparr>,
      b := (info_heap s b)\<lparr>i_smaller := ?q\<rparr>)"
    using qb hv(3) by (auto simp: t_def s1_def fun_eq_iff)
  have lev: "level t i = level s i" "half_size t i = half_size s i"
      "i_free_list (info_heap t i) = i_free_list (info_heap s i)" if "i \<noteq> ?q" for i
    using that by (simp_all add: info half_size_def)
  have new: "level t ?q = k" "half_size t ?q = ?n" "i_free_list (info_heap t ?q) = ?p"
      "smaller t ?q = 0" "smaller t b = ?q"
    using qb by (simp_all add: info half_size_def)
  have nx: "cnext t e = (if e = ?p then 0 else cnext s e)" for e
    using hv(2) [of e] by (simp add: t_def ch1)
  have mt: "mallocs t = mallocs s + 2" using hv(4) m1 by (simp add: t_def)
  let ?cf = "cf(?q := [?p])"
  have chains: "chain (cnext t) (i_free_list (info_heap t i)) (?cf i) 0" if i: "i \<in> set (is @ [?q])" for i
  proof (cases "i = ?q")
    case True
    then show ?thesis using fp(1) nx [of ?p] new(3) by simp
  next
    case False
    with i have i': "i \<in> set is" by simp
    then have "?p \<notin> set (cf i)" using fp(4) by auto
    then have "chain (cnext t) q (cf i) 0 = chain (cnext s) q (cf i) 0" for q
      using nx by (intro chain_cong) auto
    with False lev(3) [OF False] binv_level(1) [OF w i'] show ?thesis by simp
  qed
  have "distinct (us @ [b])" using bp(4) lb by simp
  then have "chain (smaller t) root us b = chain (smaller s) root us b"
    using qb lb by (intro chain_cong) (auto simp: info)
  moreover have "chain (smaller s) root us b" using bp(1) unfolding lb by (auto simp: chain_append)
  ultimately have sm: "chain (smaller t) root (is @ [?q]) 0"
    using bp(8) [OF b(1)] fq(1) new(4,5) unfolding lb by (simp add: chain_append)
  have notq: "i \<noteq> ?q" if "i \<in> set is" for i using that qb by auto
  have suc: "successively (\<lambda>i j. level t i = Suc (level t j)) (is @ [?q])"
  proof -
    have "successively (\<lambda>i j. level t i = Suc (level t j)) is"
      by (rule successively_mono [OF bp(5)]) (use notq lev(1) in auto)
    moreover have "level t b = Suc (level t ?q)" using lev(1) [OF notq [OF b(1)]] k new(1) by simp
    ultimately show ?thesis unfolding lb by (simp add: successively_append_iff)
  qed
  have root: "root \<noteq> ?q" using bp(1,2) qb by (cases "is") auto
  have newc: "?q \<in> set is \<and> is @ [?q] = is \<and> ?cf = cf(?q := cf ?q @ [?p])
      \<or> ?q \<notin> set is \<and> is @ [?q] = is @ [?q] \<and> ?cf = cf(?q := [?p])" using qb by simp
  have "binv t root (is @ [?q]) ?cf"
    by (rule binv_split [OF w b sp _ _ _ new(2) newc sm _ suc])
      (use fp(2,4) bp(3) lev root notq chains in \<open>simp_all\<close>)
  moreover have "fresh alloc lim t (is @ [?q]) ?cf"
  proof (rule fresh_step [OF f, where k = "mallocs s + 1"])
    show "mallocs s + 1 < mallocs t" "mallocs t \<le> lim" using room by (simp_all add: mt)
    show "set (concat (map ?cf (is @ [?q]))) \<subseteq> insert ?p (set (concat (map cf is)))"
      using qb by (auto split: if_splits)
    show "set (is @ [?q]) \<subseteq> set is \<or> (\<exists>j. mallocs s \<le> j \<and> j < mallocs t \<and> set (is @ [?q]) \<subseteq> insert (alloc j) (set is))"
      by (intro disjI2 exI [of _ "mallocs s"]) (auto simp: mt)
  qed simp
  moreover have "cover t (is @ [?q]) ?cf x = cover s is cf x" for x
    by (rule cover_split [OF sp bp(4,6) b _ _ n2 new(2) newc]) (use fp(4) lev notq in simp_all)
  moreover have "has_free t ?p" using sp by (rule has_free_new)
  ultimately have "split_done alloc lim s root is cf b t"
    unfolding split_done_def using fq(1) new(1,5) k lev(1) [OF root] mt
    by (intro exI [of _ "is @ [?q]"] exI [of _ ?cf]) simp
  with run show ?thesis by blast
qed

section \<open>Requests\<close>

lemma split_below_spec:
  assumes "binv s root is cf" and "fresh alloc lim s is cf" and "b \<in> set is" and "c \<in> set (cf b)"
    and "has_free s c" and "0 < level s b" and "mallocs s + 2 \<le> lim"
  shows "\<exists>t. split_below alloc b c s = Inr (True, t) \<and> split_done alloc lim s root is cf b t"
  using split_below_existing [OF assms(1-5) _ assms(7)] split_below_new [OF assms(1-5) _ assms(6,7)]
  by (cases "smaller s b = 0") blast+

lemma split_down_spec:
  assumes "binv s root is cf" and "fresh alloc lim s is cf" and "b \<in> set is" and "c \<in> set (cf b)"
    and "has_free s c" and "targetk \<le> level s b" and "level s b \<le> targetk + fuel"
    and "mallocs s + 2 * (level s b - targetk) \<le> lim"
  shows "\<exists>c' t is' cf'. split_down alloc fuel targetk b c s = Inr (c', t) \<and> binv t root is' cf'
    \<and> fresh alloc lim t is' cf' \<and> (\<forall>x. cover t is' cf' x = cover s is cf x)
    \<and> level t root = level s root \<and> mallocs t \<le> mallocs s + 2 * (level s b - targetk)
    \<and> (\<exists>i\<in>set is'. level t i = targetk \<and> c' \<in> set (cf' i) \<and> has_free t c')"
  using assms
proof (induction fuel arbitrary: s "is" cf b c)
  case 0
  then have e: "level s b = targetk" by simp
  then have "split_down alloc 0 targetk b c s = Inr (c, s)" by (subst split_down.simps) simp
  with 0 e show ?case using le_add1 by blast
next
  case (Suc fuel)
  show ?case
  proof (cases "level s b = targetk")
    case True
    then have "split_down alloc (Suc fuel) targetk b c s = Inr (c, s)"
      by (subst split_down.simps) simp
    with Suc.prems True show ?thesis using le_add1 by blast
  next
    case False
    then have gt: "targetk < level s b" using Suc.prems(6) by simp
    have "mallocs s + 2 \<le> lim" using gt Suc.prems(8) by auto
    from split_below_spec [OF Suc.prems(1-5) _ this] gt obtain t where
      t: "split_below alloc b c s = Inr (True, t)" "split_done alloc lim s root is cf b t" by auto
    let ?y = "smaller t b"
    from t(2) obtain is1 cf1 d where w: "binv t root is1 cf1" and f: "fresh alloc lim t is1 cf1"
      and cv: "\<forall>x. cover t is1 cf1 x = cover s is cf x" and lr: "level t root = level s root"
      and mt: "mallocs t \<le> mallocs s + 2" and y: "?y \<noteq> 0" "?y \<in> set is1" "level s b = Suc (level t ?y)"
      and d: "d \<in> set (cf1 ?y)" "has_free t d" unfolding split_done_def by blast
    from find_free_chunk_spec [OF w y(2)] d obtain c1 where
      c1: "find_free_chunk ?y t = Inr c1" "c1 \<noteq> 0" "c1 \<in> set (cf1 ?y)" "has_free t c1" by blast
    have lim: "targetk \<le> level t ?y" "level t ?y \<le> targetk + fuel"
      "mallocs t + 2 * (level t ?y - targetk) \<le> lim"
      "mallocs t + 2 * (level t ?y - targetk) \<le> mallocs s + 2 * (level s b - targetk)"
      using gt y(3) Suc.prems(7,8) mt by auto
    have step: "split_down alloc (Suc fuel) targetk b c s = split_down alloc fuel targetk ?y c1 t"
      using gt t(1) c1 by (subst split_down.simps) simp
    from Suc.IH [OF w f y(2) c1(3,4) lim(1-3)] obtain c' u is2 cf2 where
      r: "split_down alloc fuel targetk ?y c1 t = Inr (c', u)" "binv u root is2 cf2"
        "fresh alloc lim u is2 cf2" "\<forall>x. cover u is2 cf2 x = cover t is1 cf1 x"
        "level u root = level t root" "mallocs u \<le> mallocs t + 2 * (level t ?y - targetk)"
        "\<exists>i\<in>set is2. level u i = targetk \<and> c' \<in> set (cf2 i) \<and> has_free u c'" by blast
    have "\<forall>x. cover u is2 cf2 x = cover s is cf x" "level u root = level s root"
      "mallocs u \<le> mallocs s + 2 * (level s b - targetk)"
      using r(4,5,6) cv lr lim(4) by simp_all
    with r show ?thesis unfolding step by blast
  qed
qed

lemma request_chunk_spec:
  assumes w: "binv s root is cf" and f: "fresh alloc lim s is cf" and k: "targetk \<le> level s root"
    and room: "mallocs s + 2 * (level s root - targetk) \<le> lim"
  shows "\<exists>c t is' cf'. request_chunk alloc root targetk s = Inr (c, t) \<and> binv t root is' cf'
    \<and> fresh alloc lim t is' cf' \<and> (\<forall>x. cover t is' cf' x = cover s is cf x)
    \<and> level t root = level s root \<and> mallocs t \<le> mallocs s + 2 * (level s root - targetk)
    \<and> (c = 0 \<and> t = s \<and> (\<forall>i\<in>set is. targetk \<le> level s i \<longrightarrow> (\<forall>d\<in>set (cf i). \<not> has_free s d))
       \<or> c \<noteq> 0 \<and> (\<exists>i\<in>set is'. level t i = targetk \<and> c \<in> set (cf' i) \<and> has_free t c))"
proof -
  note bp = binv_parts [OF w]
  have len: "length is \<le> list_fuel" using bp(7) by (simp add: list_fuel_def)
  from descend_chain [OF bp(1,2) k bp(5) len] obtain j where
    j: "j \<in> set is" "descend list_fuel targetk root s = Inr j" "targetk \<le> level s j"
      "\<forall>g\<in>set is. level s g = targetk \<longrightarrow> g = j" by blast
  from find_free_chunk_spec [OF w j(1)] obtain c0 where
    c0: "find_free_chunk j s = Inr c0"
      "c0 = 0 \<and> (\<forall>d\<in>set (cf j). \<not> has_free s d) \<or> c0 \<noteq> 0 \<and> c0 \<in> set (cf j) \<and> has_free s c0" by blast
  show ?thesis
  proof (cases "level s j = targetk \<and> c0 \<noteq> 0")
    case True
    then have "request_chunk alloc root targetk s = Inr (c0, s)"
      using j(2) c0(1) by (simp add: request_chunk_def)
    with True c0(2) w f j(1) show ?thesis using le_add1 by blast
  next
    case False
    have hd: "hd is = root" by (rule bp(10))
    from find_smallest_chain [OF w bp(1,2) order_refl bp(5) len, of targetk 0 0] obtain sb sc where
      r: "find_smallest list_fuel targetk root 0 0 s = Inr (sb, sc)"
      and q: "sb = 0 \<and> sc = 0 \<and> (\<forall>j\<in>set is. j = root \<or> targetk < level s j
            \<longrightarrow> (\<forall>c\<in>set (cf j). \<not> has_free s c))
        \<or> sb \<in> set is \<and> (sb = root \<or> targetk < level s sb) \<and> sc \<in> set (cf sb) \<and> has_free s sc" by blast
    have run: "request_chunk alloc root targetk s =
        (if sb \<noteq> 0 then split_down alloc list_fuel targetk sb sc s else Inr (0, s))"
      using j(2) c0 r False by (cases "level s j = targetk") (simp_all add: request_chunk_def)
    from q show ?thesis
    proof
      assume "sb = 0 \<and> sc = 0 \<and> (\<forall>j\<in>set is. j = root \<or> targetk < level s j
            \<longrightarrow> (\<forall>c\<in>set (cf j). \<not> has_free s c))"
      then have a: "sb = 0" "\<forall>j\<in>set is. j = root \<or> targetk < level s j
            \<longrightarrow> (\<forall>c\<in>set (cf j). \<not> has_free s c)" by blast+
      have "\<not> has_free s d" if i: "i \<in> set is" "targetk \<le> level s i" "d \<in> set (cf i)" for i d
      proof (cases "level s i = targetk")
        case True
        with j(4) i(1) have "i = j" by blast
        with True False c0(2) i(3) show ?thesis by auto
      next
        case neq: False
        with a(2) i show ?thesis by (simp add: le_neq_implies_less)
      qed
      moreover have "request_chunk alloc root targetk s = Inr (0, s)" using run a(1) by simp
      ultimately show ?thesis using w f le_add1 by blast
    next
      assume "sb \<in> set is \<and> (sb = root \<or> targetk < level s sb) \<and> sc \<in> set (cf sb) \<and> has_free s sc"
      then have a: "sb \<in> set is" "sb = root \<or> targetk < level s sb" "sc \<in> set (cf sb)" "has_free s sc"
        by blast+
      have t: "targetk \<le> level s sb" using a(2) k by auto
      have l: "level s sb \<le> targetk + list_fuel"
        using bp(9) [OF a(1)] bp(3) by (simp add: list_fuel_def)
      have "sb \<noteq> 0" using bp(8) [OF a(1)] .
      then have e: "request_chunk alloc root targetk s = split_down alloc list_fuel targetk sb sc s"
        using run by simp
      have lb: "level s sb - targetk \<le> level s root - targetk" using bp(9) [OF a(1)] by simp
      then have r: "mallocs s + 2 * (level s sb - targetk) \<le> lim" using room by simp
      from split_down_spec [OF w f a(1,3,4) t l r] obtain c' t is' cf' where
        s: "split_down alloc list_fuel targetk sb sc s = Inr (c', t)" "binv t root is' cf'"
          "fresh alloc lim t is' cf'" "\<forall>x. cover t is' cf' x = cover s is cf x" "level t root = level s root"
          "mallocs t \<le> mallocs s + 2 * (level s sb - targetk)"
          "\<exists>i\<in>set is'. level t i = targetk \<and> c' \<in> set (cf' i) \<and> has_free t c'" by blast
      then have "c' \<noteq> 0" using binv_level(1) [OF s(2)] chain_nonnull by blast
      moreover have "mallocs t \<le> mallocs s + 2 * (level s root - targetk)" using s(6) lb by simp
      ultimately show ?thesis unfolding e using s(1-5,7) by blast
    qed
  qed
qed

section \<open>Initialisation\<close>

lemma binit_spec:
  assumes n: "4096 \<le> heap_size" "heap_size \<le> 2 ^ 31"
    and f: "\<And>n. mallocs s \<le> n \<Longrightarrow> n < lim \<Longrightarrow> alloc n \<noteq> 0 \<and> alloc n < 2 ^ 64"
      "\<And>m n. mallocs s \<le> m \<Longrightarrow> m < n \<Longrightarrow> n < lim \<Longrightarrow> alloc m \<noteq> alloc n"
      "mallocs s + 3 \<le> lim"
    and fits: "alloc (mallocs s + 1) + 2 ^ 31 \<le> 2 ^ 64"
  shows "\<exists>t i c k. binit alloc heap_size s = Inr t \<and> groot t = i \<and> level t i = k
    \<and> mallocs t = mallocs s + 3 \<and> binv t i [i] (\<lambda>_. [c]) \<and> fresh alloc lim t [i] (\<lambda>_. [c])
    \<and> heap_size \<le> 2 ^ k * MIN_CHUNK_SIZE \<and> 2 ^ k * MIN_CHUNK_SIZE < 2 * heap_size
    \<and> (\<forall>x. cover t [i] (\<lambda>_. [c]) x = (if alloc (mallocs s + 1) \<le> x
          \<and> x < alloc (mallocs s + 1) + 2 ^ k * MIN_CHUNK_SIZE then 1 else 0))"
proof -
  let ?i = "alloc (mallocs s)" and ?h = "alloc (mallocs s + 1)" and ?c = "alloc (mallocs s + 2)"
  have un: "unat (of_nat heap_size :: 32 word) = heap_size" using n by (simp add: unat_of_nat)
  then obtain j where j: "j \<le> 31" "unat (up2 (of_nat heap_size)) = 2 ^ j" "heap_size \<le> 2 ^ j"
      "2 ^ j < 2 * heap_size" using up2_power [of "of_nat heap_size"] n by auto
  have "(2::nat) ^ 12 \<le> 2 ^ j" using j(3) n(1) by simp
  then have "12 \<le> j" by (simp only: power_increasing_iff)
  then obtain k where k: "j = 12 + k" using le_Suc_ex by blast
  have pw: "(2::nat) ^ j = 2 ^ k * MIN_CHUNK_SIZE" unfolding k by (simp add: power_add)
  have lg: "shadowed_math_log2 (2 ^ j div MIN_CHUNK_SIZE) = k"
    unfolding pw using shadowed_math_log2_power by simp
  have nz: "?i \<noteq> 0" "?h \<noteq> 0" "?c \<noteq> 0" "?c < 2 ^ 64" using f(1,3) by auto
  define t where "t = upd_info ?i (\<lambda>x. x\<lparr>i_free_list := ?c\<rparr>)
    (upd_chunk ?c (\<lambda>_. \<lparr>c_a = ?h, c_b = 0, c_flags = 0, c_next = 0\<rparr>)
      (upd_info ?i (\<lambda>_. \<lparr>i_k = k, i_free_list = 0, i_larger = 0, i_smaller = 0\<rparr>) s
         \<lparr>groot := ?i, mallocs := mallocs s + 3\<rparr>))"
  have run: "binit alloc heap_size s = Inr t"
    using nz make_info_item_eq [of alloc s, OF nz(1), of "2 ^ j"]
    by (simp add: binit_def j(2) lg make_root_chunk_item_def malloc_item_def Let_def t_def
        upd_info_def upd_chunk_def)
  have lv: "level t ?i = k" "groot t = ?i" "mallocs t = mallocs s + 3" "smaller t ?i = 0"
    "half_size t ?i = 2 ^ k * MIN_CHUNK_SIZE" "i_free_list (info_heap t ?i) = ?c"
    by (simp_all add: t_def half_size_def)
  have ch: "chunk_heap t ?c = \<lparr>c_a = ?h, c_b = 0, c_flags = 0, c_next = 0\<rparr>" by (simp add: t_def)
  have "(2::nat) ^ j \<le> 2 ^ 31" using j(1) by (intro power_increasing) auto
  then have room: "?h + 2 ^ k * MIN_CHUNK_SIZE \<le> 2 ^ 64" using fits pw by simp
  have fr: "ci_a_free ?c t" "\<not> ci_b_free ?c t"
    using nz ch by (simp_all add: ci_a_free_def ci_b_free_def ci_flag_def)
  have "binv t ?i [?i] (\<lambda>_. [?c])"
    using nz lv fr ch room k j(1) by (simp add: binv_def)
  moreover have "fresh alloc lim t [?i] (\<lambda>_. [?c])"
    unfolding fresh_def
  proof (intro ballI)
    fix m assume "m \<in> {mallocs t..<lim}"
    then have m: "mallocs s + 3 \<le> m" "m < lim" by (simp_all add: lv(3))
    have "alloc m \<noteq> 0 \<and> alloc m < 2 ^ 64" using f(1) m by simp
    moreover have "?i \<noteq> alloc m" "?c \<noteq> alloc m"
      using m f(2) [of "mallocs s" m] f(2) [of "mallocs s + 2" m] by simp_all
    moreover have "alloc g \<noteq> alloc m" if "g \<in> {mallocs t..<lim}" "g \<noteq> m" for g
      using that m lv(3) f(2) [of g m] f(2) [of m g] by (cases "g < m") auto
    ultimately show "alloc m \<noteq> 0 \<and> alloc m < 2 ^ 64 \<and> alloc m \<notin> set [?i]
      \<and> alloc m \<notin> set (concat (map (\<lambda>_. [?c]) [?i]))
      \<and> (\<forall>g\<in>{mallocs t..<lim}. g \<noteq> m \<longrightarrow> alloc g \<noteq> alloc m)"
      by auto
  qed
  moreover have "cover t [?i] (\<lambda>_. [?c]) x = (if ?h \<le> x \<and> x < ?h + 2 ^ k * MIN_CHUNK_SIZE then 1 else 0)" for x
    using fr ch lv(5) by (simp add: cover_def covers_def)
  ultimately show ?thesis using run lv(1,2,3) j(3,4) unfolding pw by blast
qed

end
