(* ===== verification/Buddy_Props.thy ===== *)
theory Buddy_Props
  imports Buddy_Inv
begin

text \<open>
  The properties of the buddy allocator, with a small instance of it: a heap of 16384 bytes and a
  \<open>malloc\<close> that returns one multiple of 100000 after the other.
\<close>

definition zero_buddy :: buddy where
  "zero_buddy = \<lparr>chunk_heap = \<lambda>_. \<lparr>c_a = 0, c_b = 0, c_flags = 0, c_next = 0\<rparr>,
     info_heap = \<lambda>_. \<lparr>i_k = 0, i_free_list = 0, i_larger = 0, i_smaller = 0\<rparr>,
     groot = 0, mallocs = 0\<rparr>"

definition demo_alloc :: "nat \<Rightarrow> nat" where
  "demo_alloc n = 100000 * (n + 1)"

lemma demo_binit:
  obtains t where "binit demo_alloc 16384 zero_buddy = Inr t" and "groot t = 100000"
    and "i_k (info_heap t 100000) = 2" and "mallocs t = 3"
    and "binv t 100000 [100000] (\<lambda>_. [300000])"
    and "fresh demo_alloc 50 t [100000] (\<lambda>_. [300000])"
    and "has_free t 300000"
proof -
  have f: "demo_alloc n \<noteq> 0 \<and> demo_alloc n < 2 ^ 64" if "n < 50" for n
    using that by (simp add: demo_alloc_def)
  have d: "demo_alloc m \<noteq> demo_alloc n" if "m < n" for m n using that by (simp add: demo_alloc_def)
  from binit_spec [of 16384 zero_buddy 50 demo_alloc] f d obtain t i c k where
    t: "binit demo_alloc 16384 zero_buddy = Inr t" "groot t = i" "i_k (info_heap t i) = k"
      "mallocs t = 3" "binv t i [i] (\<lambda>_. [c])" "fresh demo_alloc 50 t [i] (\<lambda>_. [c])"
      "16384 \<le> 2 ^ k * MIN_CHUNK_SIZE" "2 ^ k * MIN_CHUNK_SIZE < 32768"
      "cover t [i] (\<lambda>_. [c]) (demo_alloc 1) = 1"
    by (auto simp: zero_buddy_def demo_alloc_def)
  have i: "i = 100000"
    using t(1,2) by (auto simp: binit_def make_info_item_def malloc_item_def demo_alloc_def
        zero_buddy_def Let_def make_root_chunk_item_def)
  have c: "c = 300000"
  proof -
    have "i_free_list (info_heap t i) = c" using t(5) by (auto simp: binv_def)
    with i t(1) show ?thesis
      by (auto simp: binit_def make_info_item_def malloc_item_def demo_alloc_def
        zero_buddy_def Let_def make_root_chunk_item_def)
  qed
  have k: "k = 2"
  proof -
    have "(2::nat) ^ 2 \<le> 2 ^ k" "(2::nat) ^ k < 2 ^ 3" using t(7,8) by simp_all
    then have "2 \<le> k" "k < 3" by (simp_all only: power_increasing_iff power_strict_increasing_iff)
    then show ?thesis by simp
  qed
  have "has_free t c"
  proof (rule ccontr)
    assume "\<not> has_free t c"
    then have "cover t [i] (\<lambda>_. [c]) (demo_alloc 1) = 0"
      by (simp add: cover_def covers_def has_free_def)
    with t(9) show False by simp
  qed
  then show thesis by (intro that [OF t(1)]) (use t(2-6) i c k in simp_all)
qed

text \<open>
  \<open>up2\<close> of a positive number up to \<open>2 ^ 31\<close> is the least power of two that is not below it.
\<close>

lemma up2_next_power_of_two:
  assumes "0 < unat n" and "unat n \<le> 2 ^ 31"
  shows "\<exists>k\<le>31. unat (up2 n) = 2 ^ k \<and> unat n \<le> 2 ^ k \<and> 2 ^ k < 2 * unat n"
  using assms by (rule up2_power)

text \<open>
  C22. \<open>binit\<close> for 4096 bytes up to 2 GB, with a \<open>malloc\<close> that returns distinct addresses:
  the allocator then has one chunk, of the next power of two, and every address of the heap lies
  in exactly one free half.
\<close>

theorem binit_establishes_invariant:
  assumes "4096 \<le> heap_size" and "heap_size \<le> 2 ^ 31"
    and "\<And>n. mallocs s \<le> n \<Longrightarrow> n < lim \<Longrightarrow> alloc n \<noteq> 0 \<and> alloc n < 2 ^ 64"
    and "\<And>m n. mallocs s \<le> m \<Longrightarrow> m < n \<Longrightarrow> n < lim \<Longrightarrow> alloc m \<noteq> alloc n"
    and "mallocs s + 3 \<le> lim" and "alloc (mallocs s + 1) + 2 ^ 31 \<le> 2 ^ 64"
  shows "\<exists>t i c k. binit alloc heap_size s = Inr t \<and> groot t = i \<and> i_k (info_heap t i) = k
    \<and> mallocs t = mallocs s + 3 \<and> binv t i [i] (\<lambda>_. [c]) \<and> fresh alloc lim t [i] (\<lambda>_. [c])
    \<and> heap_size \<le> 2 ^ k * MIN_CHUNK_SIZE \<and> 2 ^ k * MIN_CHUNK_SIZE < 2 * heap_size
    \<and> (\<forall>x. cover t [i] (\<lambda>_. [c]) x = (if alloc (mallocs s + 1) \<le> x
          \<and> x < alloc (mallocs s + 1) + 2 ^ k * MIN_CHUNK_SIZE then 1 else 0))"
  using assms by (rule binit_spec)

theorem binit_establishes_invariant_witness:
  "\<exists>t i c. binit demo_alloc 16384 zero_buddy = Inr t \<and> binv t i [i] (\<lambda>_. [c])
     \<and> cover t [i] (\<lambda>_. [c]) 200000 = 1"
proof -
  have f: "demo_alloc n \<noteq> 0 \<and> demo_alloc n < 2 ^ 64" if "n < 50" for n
    using that by (simp add: demo_alloc_def)
  have d: "demo_alloc m \<noteq> demo_alloc n" if "m < n" for m n using that by (simp add: demo_alloc_def)
  from binit_establishes_invariant [of 16384 zero_buddy 50 demo_alloc] f d obtain t i c k where
    "binit demo_alloc 16384 zero_buddy = Inr t" "binv t i [i] (\<lambda>_. [c])"
    "\<forall>x. cover t [i] (\<lambda>_. [c]) x = (if demo_alloc 1 \<le> x
          \<and> x < demo_alloc 1 + 2 ^ k * MIN_CHUNK_SIZE then 1 else 0)"
    by (auto simp: zero_buddy_def demo_alloc_def)
  then have t: "binit demo_alloc 16384 zero_buddy = Inr t" "binv t i [i] (\<lambda>_. [c])"
    "cover t [i] (\<lambda>_. [c]) 200000 = 1" by (simp_all add: demo_alloc_def)
  show ?thesis by (intro exI conjI) (rule t)+
qed

text \<open>
  C23. The contract of \<open>request_chunk\<close> up to the size of the root: it ends, keeps the lists
  well-formed and the free memory exactly as it was, split or not. It returns no chunk only if
  no chunk of the size or above has a free half; what it returns is a chunk of the requested size
  with a free half.
\<close>

theorem request_chunk_contract:
  assumes "binv s root is cf" and "fresh alloc lim s is cf" and "targetk \<le> i_k (info_heap s root)"
    and "mallocs s + 2 * (i_k (info_heap s root) - targetk) \<le> lim"
  shows "\<exists>c t is' cf'. request_chunk alloc root targetk s = Inr (c, t) \<and> binv t root is' cf'
    \<and> fresh alloc lim t is' cf' \<and> (\<forall>x. cover t is' cf' x = cover s is cf x)
    \<and> i_k (info_heap t root) = i_k (info_heap s root)
    \<and> mallocs t \<le> mallocs s + 2 * (i_k (info_heap s root) - targetk)
    \<and> (c = 0 \<and> t = s \<and> (\<forall>i\<in>set is. targetk \<le> i_k (info_heap s i) \<longrightarrow> (\<forall>d\<in>set (cf i). \<not> has_free s d))
       \<or> c \<noteq> 0 \<and> (\<exists>i\<in>set is'. i_k (info_heap t i) = targetk \<and> c \<in> set (cf' i) \<and> has_free t c))"
  using assms by (rule request_chunk_spec)

theorem request_chunk_contract_witness:
  "\<exists>s c t. binit demo_alloc 16384 zero_buddy = Inr s \<and> request_chunk demo_alloc (groot s) 0 s = Inr (c, t)
     \<and> c \<noteq> 0 \<and> has_free t c"
proof -
  obtain s where s: "binit demo_alloc 16384 zero_buddy = Inr s" "groot s = 100000"
    "i_k (info_heap s 100000) = 2" "mallocs s = 3" "binv s 100000 [100000] (\<lambda>_. [300000])"
    "fresh demo_alloc 50 s [100000] (\<lambda>_. [300000])" "has_free s 300000" by (rule demo_binit)
  from request_chunk_contract [OF s(5,6), of 0] s(2,3,4,7) show ?thesis
    using s(1) by fastforce
qed

text \<open>
  C24. A request above the size of the root is not refused: with a free root chunk,
  \<open>request_chunk\<close> returns that chunk, which is too small.
\<close>

theorem request_chunk_above_root:
  assumes "binv s root [root] cf" and "i_k (info_heap s root) < targetk" and "c \<in> set (cf root)"
    and "has_free s c"
  shows "\<exists>d. request_chunk alloc root targetk s = Inr (d, s) \<and> d \<in> set (cf root) \<and> has_free s d"
proof -
  from binv_parts(1) [OF assms(1)] have r: "root \<noteq> 0" "i_smaller (info_heap s root) = 0" by auto
  from find_free_chunk_spec [OF assms(1), of root] assms(3,4) obtain d where
    d: "find_free_chunk root s = Inr d" "d \<noteq> 0" "d \<in> set (cf root)" "has_free s d" by auto
  have "descend list_fuel targetk root s = Inr root" using r by (subst descend.simps) simp
  moreover have "find_smallest list_fuel targetk root 0 0 s = Inr (root, d)"
    using r d by (subst find_smallest.simps) (simp add: list_fuel_def)
  moreover have "split_down alloc list_fuel targetk root d s = Inr (d, s)"
    using assms(2) by (subst split_down.simps) simp
  ultimately show ?thesis using assms(2) r(1) d by (simp add: request_chunk_def)
qed

theorem request_chunk_above_root_witness:
  "\<exists>s. binit demo_alloc 16384 zero_buddy = Inr s
     \<and> request_chunk demo_alloc (groot s) 5 s = Inr (300000, s)"
proof -
  obtain s where s: "binit demo_alloc 16384 zero_buddy = Inr s" "groot s = 100000"
    "i_k (info_heap s 100000) = 2" "mallocs s = 3" "binv s 100000 [100000] (\<lambda>_. [300000])"
    "fresh demo_alloc 50 s [100000] (\<lambda>_. [300000])" "has_free s 300000" by (rule demo_binit)
  from request_chunk_above_root [OF s(5), of 5 300000 demo_alloc] s show ?thesis by auto
qed

end
