(* ===== verification/Vg_Trace.thy ===== *)
theory Vg_Trace
  imports Rm_Prelude
begin

text \<open>
  The tracing of memory accesses that the project adds to Memcheck
  (\<open>src/valgrind/memcheck/mc_translate.c\<close>, between the marks \<open>mikaelj\<close>). While a block of code
  is instrumented, its accesses are noted in a buffer of four events; a write to the address just
  read turns the read into a modification; a full buffer and every exit of the block flush it,
  which emits a call of a helper per event. The helpers run with the program and print the
  accesses within the range of the traced heap.
\<close>

section \<open>Noting events\<close>

text \<open>
  Expressions of the intermediate representation: the two forms that are atoms, and the others.
\<close>

datatype ir_expr = RdTmp nat | Const nat | Other_expr nat

fun isIRAtom :: "ir_expr \<Rightarrow> bool" where
  "isIRAtom (Other_expr _) = False"
| "isIRAtom _ = True"

definition eqIRAtom :: "ir_expr \<Rightarrow> ir_expr \<Rightarrow> bool res" where
  "eqIRAtom a1 a2 =
     (if \<not> isIRAtom a1 \<or> \<not> isIRAtom a2 then Inl Abort
      else Inr (case (a1, a2) of
          (RdTmp x, RdTmp y) \<Rightarrow> x = y
        | (Const x, Const y) \<Rightarrow> x = y
        | _ \<Rightarrow> False))"

datatype event_kind = Event_Ir | Event_Dr | Event_Dw | Event_Dm

record vg_event =
  ekind :: event_kind
  ev_addr :: ir_expr
  ev_size :: int

datatype helper = Trace_instr | Trace_load | Trace_store | Trace_modify

text \<open>
  The first \<open>events_used\<close> elements of the array \<open>events\<close>, and the calls that have been added to
  the block of code.
\<close>

record trace_buffer =
  events :: "vg_event list"
  emitted :: "(helper \<times> ir_expr \<times> int) list"

abbreviation N_EVENTS :: nat where
  "N_EVENTS \<equiv> 4"

abbreviation MAX_DSIZE :: int where
  "MAX_DSIZE \<equiv> 512"

fun helper_of :: "event_kind \<Rightarrow> helper" where
  "helper_of Event_Ir = Trace_instr"
| "helper_of Event_Dr = Trace_load"
| "helper_of Event_Dw = Trace_store"
| "helper_of Event_Dm = Trace_modify"

definition flushEvents :: "trace_buffer \<Rightarrow> trace_buffer" where
  "flushEvents b =
     b\<lparr>emitted := emitted b @ map (\<lambda>e. (helper_of (ekind e), ev_addr e, ev_size e)) (events b),
       events := []\<rparr>"

text \<open>The common end of the three operations: flush a full buffer and append.\<close>

definition append_event :: "vg_event \<Rightarrow> trace_buffer \<Rightarrow> trace_buffer res" where
  "append_event e b =
     (let b1 = (if length (events b) = N_EVENTS then flushEvents b else b) in
      if length (events b1) < N_EVENTS then Inr (b1\<lparr>events := events b1 @ [e]\<rparr>) else Inl Abort)"

text \<open>The sizes of instructions are those of \<open>amd64\<close>.\<close>

definition addEvent_Ir :: "ir_expr \<Rightarrow> nat \<Rightarrow> trace_buffer \<Rightarrow> trace_buffer res" where
  "addEvent_Ir iaddr isize b =
     (if \<not> (1 \<le> isize \<and> isize \<le> 16 \<or> isize = 19) then Inl Abort
      else append_event \<lparr>ekind = Event_Ir, ev_addr = iaddr, ev_size = int isize\<rparr> b)"

definition addEvent_Dr :: "ir_expr \<Rightarrow> int \<Rightarrow> trace_buffer \<Rightarrow> trace_buffer res" where
  "addEvent_Dr daddr dsize b =
     (if \<not> isIRAtom daddr \<or> \<not> (dsize \<ge> 1 \<and> dsize \<le> MAX_DSIZE) then Inl Abort
      else append_event \<lparr>ekind = Event_Dr, ev_addr = daddr, ev_size = dsize\<rparr> b)"

definition addEvent_Dw :: "ir_expr \<Rightarrow> int \<Rightarrow> trace_buffer \<Rightarrow> trace_buffer res" where
  "addEvent_Dw daddr dsize b =
     (if \<not> isIRAtom daddr \<or> \<not> (dsize \<ge> 1 \<and> dsize \<le> MAX_DSIZE) then Inl Abort
      else
        let lastEvt = last (events b) in
        bind_res (if events b \<noteq> [] \<and> ekind lastEvt = Event_Dr \<and> ev_size lastEvt = dsize
                  then eqIRAtom (ev_addr lastEvt) daddr else Inr False) (\<lambda>same.
        if same then Inr (b\<lparr>events := butlast (events b) @ [lastEvt\<lparr>ekind := Event_Dm\<rparr>]\<rparr>)
        else append_event \<lparr>ekind = Event_Dw, ev_addr = daddr, ev_size = dsize\<rparr> b))"

section \<open>The helpers\<close>

text \<open>
  A line of the trace. The range of the heap is that of \<open>mc_malloc_wrappers.c\<close>; its ends are
  compared as 32-bit numbers, and addresses are printed as such.
\<close>

datatype trace_line = Line_L nat nat | Line_S nat nat | Line_M nat nat

definition in_trace_range :: "nat \<Rightarrow> nat \<Rightarrow> nat \<Rightarrow> nat \<Rightarrow> bool" where
  "in_trace_range g_memory_start g_memory_end addr n \<longleftrightarrow>
     addr \<ge> u32 g_memory_start \<and> u64 (addr + n) < u32 g_memory_end"

definition trace_instr :: "nat \<Rightarrow> nat \<Rightarrow> trace_line list" where
  "trace_instr addr n = []"

definition trace_load :: "nat \<Rightarrow> nat \<Rightarrow> nat \<Rightarrow> nat \<Rightarrow> trace_line list" where
  "trace_load g_memory_start g_memory_end addr n =
     (if in_trace_range g_memory_start g_memory_end addr n then [Line_L (u32 addr) n] else [])"

definition trace_store :: "nat \<Rightarrow> nat \<Rightarrow> nat \<Rightarrow> nat \<Rightarrow> trace_line list" where
  "trace_store g_memory_start g_memory_end addr n =
     (if in_trace_range g_memory_start g_memory_end addr n then [Line_S (u32 addr) n] else [])"

definition trace_modify :: "nat \<Rightarrow> nat \<Rightarrow> nat \<Rightarrow> nat \<Rightarrow> trace_line list" where
  "trace_modify g_memory_start g_memory_end addr n =
     (if in_trace_range g_memory_start g_memory_end addr n then [Line_M (u32 addr) n] else [])"

section \<open>The buffer against the whole sequence\<close>

text \<open>
  The accesses of a block of code in their order, and the calls one expects for them: one call per
  access, except that a read and the write of as many bytes to the same address right behind it
  make one call.
\<close>

datatype access = Instr nat nat | Read ir_expr int | Write ir_expr int

fun access_ok :: "access \<Rightarrow> bool" where
  "access_ok (Instr a n) \<longleftrightarrow> 1 \<le> n \<and> n \<le> 16 \<or> n = 19"
| "access_ok (Read a n) \<longleftrightarrow> isIRAtom a \<and> 1 \<le> n \<and> n \<le> MAX_DSIZE"
| "access_ok (Write a n) \<longleftrightarrow> isIRAtom a \<and> 1 \<le> n \<and> n \<le> MAX_DSIZE"

fun note_access :: "access \<Rightarrow> trace_buffer \<Rightarrow> trace_buffer res" where
  "note_access (Instr a n) b = addEvent_Ir (Const a) n b"
| "note_access (Read a n) b = addEvent_Dr a n b"
| "note_access (Write a n) b = addEvent_Dw a n b"

fun note_all :: "access list \<Rightarrow> trace_buffer \<Rightarrow> trace_buffer res" where
  "note_all [] b = Inr b"
| "note_all (x # xs) b = bind_res (note_access x b) (note_all xs)"

fun expected :: "access list \<Rightarrow> (helper \<times> ir_expr \<times> int) list" where
  "expected [] = []"
| "expected (Instr a n # xs) = (Trace_instr, Const a, int n) # expected xs"
| "expected (Read a n # Write c m # xs) =
     (if c = a \<and> m = n then (Trace_modify, a, n) # expected xs
      else (Trace_load, a, n) # expected (Write c m # xs))"
| "expected (Read a n # xs) = (Trace_load, a, n) # expected xs"
| "expected (Write a n # xs) = (Trace_store, a, n) # expected xs"

lemma eqIRAtom_eq: "isIRAtom a \<Longrightarrow> isIRAtom c \<Longrightarrow> eqIRAtom a c = Inr (a = c)"
  by (cases a; cases c) (auto simp: eqIRAtom_def)

definition calls :: "trace_buffer \<Rightarrow> (helper \<times> ir_expr \<times> int) list" where
  "calls b = emitted (flushEvents b)"

lemma calls_unfold:
  "calls b = emitted b @ map (\<lambda>e. (helper_of (ekind e), ev_addr e, ev_size e)) (events b)"
  by (simp add: calls_def flushEvents_def)

lemma append_event_spec:
  assumes "length (events b) \<le> N_EVENTS"
  shows "\<exists>b'. append_event e b = Inr b' \<and> length (events b') \<le> N_EVENTS \<and> events b' \<noteq> []
    \<and> last (events b') = e \<and> calls b' = calls b @ [(helper_of (ekind e), ev_addr e, ev_size e)]"
  using assms by (auto simp: append_event_def Let_def flushEvents_def calls_unfold)

text \<open>
  What the buffer will have emitted after the accesses \<open>xs\<close> to come: a read at its end may still
  merge with the first of them.
\<close>

definition open_read :: "trace_buffer \<Rightarrow> bool" where
  "open_read b \<longleftrightarrow> events b \<noteq> [] \<and> ekind (last (events b)) = Event_Dr"

definition resume :: "trace_buffer \<Rightarrow> access list \<Rightarrow> (helper \<times> ir_expr \<times> int) list" where
  "resume b xs =
     (if open_read b
      then butlast (calls b) @ expected (Read (ev_addr (last (events b))) (ev_size (last (events b))) # xs)
      else calls b @ expected xs)"

definition buffer_ok :: "trace_buffer \<Rightarrow> bool" where
  "buffer_ok b \<longleftrightarrow> length (events b) \<le> N_EVENTS \<and> (open_read b \<longrightarrow> isIRAtom (ev_addr (last (events b))))"

lemma calls_last:
  assumes "events b \<noteq> []"
  shows "calls b = butlast (calls b)
    @ [(helper_of (ekind (last (events b))), ev_addr (last (events b)), ev_size (last (events b)))]"
  using assms by (cases "events b" rule: rev_cases) (simp_all add: calls_unfold butlast_append)

lemma resume_apart:
  assumes "\<not> (open_read b \<and> x = Write (ev_addr (last (events b))) (ev_size (last (events b))))"
  shows "resume b (x # xs) = calls b @ expected (x # xs)"
proof (cases "open_read b")
  case True
  then have "expected (Read (ev_addr (last (events b))) (ev_size (last (events b))) # x # xs)
      = (Trace_load, ev_addr (last (events b)), ev_size (last (events b))) # expected (x # xs)"
    using assms by (cases x) auto
  with calls_last [of b] True show ?thesis by (auto simp: resume_def open_read_def)
qed (simp add: resume_def)

lemma resume_append:
  assumes "buffer_ok b" and "ekind e = Event_Dr \<longrightarrow> isIRAtom (ev_addr e)"
  shows "\<exists>b'. append_event e b = Inr b' \<and> buffer_ok b' \<and> resume b' xs = calls b @
    (if ekind e = Event_Dr then expected (Read (ev_addr e) (ev_size e) # xs)
     else (helper_of (ekind e), ev_addr e, ev_size e) # expected xs)"
proof -
  from append_event_spec [of b e] assms(1) obtain b' where
    "append_event e b = Inr b'" "length (events b') \<le> N_EVENTS" "events b' \<noteq> []" "last (events b') = e"
    "calls b' = calls b @ [(helper_of (ekind e), ev_addr e, ev_size e)]" by (auto simp: buffer_ok_def)
  with assms(2) show ?thesis by (auto simp: buffer_ok_def resume_def open_read_def)
qed

lemma note_access_resume:
  assumes b: "buffer_ok b" and x: "access_ok x"
  shows "\<exists>b'. note_access x b = Inr b' \<and> buffer_ok b' \<and> resume b' xs = resume b (x # xs)"
proof (cases x)
  case (Instr a n)
  with resume_append [OF b, of "\<lparr>ekind = Event_Ir, ev_addr = Const a, ev_size = int n\<rparr>" xs] x show ?thesis
    by (simp add: addEvent_Ir_def resume_apart)
next
  case (Read a n)
  with resume_append [OF b, of "\<lparr>ekind = Event_Dr, ev_addr = a, ev_size = n\<rparr>" xs] x show ?thesis
    by (simp add: addEvent_Dr_def resume_apart)
next
  case (Write a n)
  let ?l = "last (events b)"
  show ?thesis
  proof (cases "open_read b \<and> ev_addr ?l = a \<and> ev_size ?l = n")
    case True
    let ?b' = "b\<lparr>events := butlast (events b) @ [?l\<lparr>ekind := Event_Dm\<rparr>]\<rparr>"
    have "note_access x b = Inr ?b'"
      using True x Write by (simp add: addEvent_Dw_def Let_def eqIRAtom_eq open_read_def)
    moreover have "buffer_ok ?b'"
      using b True by (auto simp: buffer_ok_def open_read_def)
    moreover have "calls ?b' = butlast (calls b) @ [(Trace_modify, a, n)]"
      using True by (simp add: calls_unfold butlast_append map_butlast open_read_def)
    then have "resume ?b' xs = resume b (x # xs)"
      using True Write by (simp add: resume_def open_read_def)
    ultimately show ?thesis by blast
  next
    case False
    then have "resume b (x # xs) = calls b @ expected (x # xs)"
      using Write by (intro resume_apart) auto
    moreover have "note_access x b = append_event \<lparr>ekind = Event_Dw, ev_addr = a, ev_size = n\<rparr> b"
      using False x b Write
      by (auto simp: addEvent_Dw_def Let_def eqIRAtom_eq open_read_def buffer_ok_def)
    ultimately show ?thesis
      using resume_append [OF b, of "\<lparr>ekind = Event_Dw, ev_addr = a, ev_size = n\<rparr>" xs] Write by simp
  qed
qed

lemma note_all_resume:
  "buffer_ok b \<Longrightarrow> \<forall>x\<in>set xs. access_ok x \<Longrightarrow>
   \<exists>b'. note_all xs b = Inr b' \<and> buffer_ok b' \<and> calls b' = resume b xs"
proof (induction xs arbitrary: b)
  case Nil
  have "calls b = resume b []"
    using calls_last [of b] by (auto simp: resume_def open_read_def)
  with Nil show ?case by simp
next
  case (Cons x xs)
  then have x: "access_ok x" by simp
  from note_access_resume [OF Cons.prems(1) x, of xs] obtain b1 where
    "note_access x b = Inr b1" "buffer_ok b1" "resume b1 xs = resume b (x # xs)" by blast
  with Cons.IH [of b1] Cons.prems(2) show ?case by auto
qed

section \<open>Properties\<close>

text \<open>
  C35. The buffer of four events loses nothing: for every sequence of accesses, noting them one by
  one and flushing at the end emits the calls expected for the whole sequence, in its order and
  with the same mergers, wherever the buffer was flushed in between.
\<close>

theorem event_buffer_complete:
  assumes "\<forall>x\<in>set xs. access_ok x"
  shows "\<exists>b. note_all xs \<lparr>events = [], emitted = []\<rparr> = Inr b
    \<and> emitted (flushEvents b) = expected xs \<and> events (flushEvents b) = []"
  using note_all_resume [of "\<lparr>events = [], emitted = []\<rparr>" xs] assms
  by (auto simp: buffer_ok_def open_read_def resume_def calls_def flushEvents_def)

theorem event_buffer_complete_witness:
  "\<exists>b. note_all [Instr 64 3, Read (RdTmp 1) 8, Instr 67 2, Read (RdTmp 2) 4, Write (RdTmp 2) 4,
       Write (RdTmp 2) 4] \<lparr>events = [], emitted = []\<rparr> = Inr b
     \<and> emitted (flushEvents b) = [(Trace_instr, Const 64, 3), (Trace_load, RdTmp 1, 8),
          (Trace_instr, Const 67, 2), (Trace_modify, RdTmp 2, 4), (Trace_store, RdTmp 2, 4)]"
  using event_buffer_complete [of "[Instr 64 3, Read (RdTmp 1) 8, Instr 67 2, Read (RdTmp 2) 4,
    Write (RdTmp 2) 4, Write (RdTmp 2) 4]"] by auto

end
