(* ===== verification/Vg_Hash.thy ===== *)
theory Vg_Hash
  imports Rm_Prelude
begin

text \<open>
  The separately chained hash table of \<open>src/valgrind/coregrind/m_hashtable.c\<close>, in which the
  instrumented Memcheck keeps the blocks of the traced program. A node is any structure that
  starts with a link and a key; the table is an array of chains of nodes and grows along a
  table of primes. Memory from \<open>VG_(calloc)\<close> is never null (the core ends the program instead);
  its address is an argument of the operation that allocates.
\<close>

section \<open>State\<close>

record vg_node =
  n_next :: nat
  n_key :: nat

record vg_table =
  n_chains :: nat
  n_elements :: nat
  iterNode :: nat
  iterChain :: nat
  chains :: "nat list"
  iterOK :: bool
  name :: nat

text \<open>The state that the operations work on; the tools extend it with fields of their own.\<close>

record vg_heap =
  nodes :: "nat \<Rightarrow> vg_node"
  tables :: "nat \<Rightarrow> vg_table"

definition upd_node :: "nat \<Rightarrow> (vg_node \<Rightarrow> vg_node) \<Rightarrow> 'a vg_heap_scheme \<Rightarrow> 'a vg_heap_scheme" where
  "upd_node p f s = s\<lparr>nodes := (nodes s)(p := f (nodes s p))\<rparr>"

definition upd_table :: "nat \<Rightarrow> (vg_table \<Rightarrow> vg_table) \<Rightarrow> 'a vg_heap_scheme \<Rightarrow> 'a vg_heap_scheme" where
  "upd_table t f s = s\<lparr>tables := (tables s)(t := f (tables s t))\<rparr>"

lemma upd_node_sel [simp]:
  "nodes (upd_node p f s) = (nodes s)(p := f (nodes s p))"
  "tables (upd_node p f s) = tables s" "vg_heap.more (upd_node p f s) = vg_heap.more s"
  by (simp_all add: upd_node_def)

lemma upd_table_sel [simp]:
  "tables (upd_table t f s) = (tables s)(t := f (tables s t))"
  "nodes (upd_table t f s) = nodes s" "vg_heap.more (upd_table t f s) = vg_heap.more s"
  by (simp_all add: upd_table_def)

abbreviation nnext :: "'a vg_heap_scheme \<Rightarrow> nat \<Rightarrow> nat" where
  "nnext s \<equiv> \<lambda>p. n_next (nodes s p)"

abbreviation key_of :: "'a vg_heap_scheme \<Rightarrow> nat \<Rightarrow> nat" where
  "key_of s p \<equiv> n_key (nodes s p)"

definition read_chain :: "nat \<Rightarrow> nat \<Rightarrow> 'a vg_heap_scheme \<Rightarrow> nat res" where
  "read_chain t i s =
     (if i < length (chains (tables s t)) then Inr (chains (tables s t) ! i) else Inl Out_of_bounds)"

definition write_chain :: "nat \<Rightarrow> nat \<Rightarrow> nat \<Rightarrow> 'a vg_heap_scheme \<Rightarrow> 'a vg_heap_scheme res" where
  "write_chain t i p s =
     (if i < length (chains (tables s t))
      then Inr (upd_table t (\<lambda>x. x\<lparr>chains := (chains x)[i := p]\<rparr>) s) else Inl Out_of_bounds)"

definition CHAIN_NO :: "nat \<Rightarrow> nat \<Rightarrow> 'a vg_heap_scheme \<Rightarrow> nat" where
  "CHAIN_NO key t s = key mod n_chains (tables s t)"

section \<open>Operations\<close>

definition primes :: "nat list" where
  "primes = [769, 1543, 3079, 6151, 12289, 24593, 49157, 98317, 196613, 393241, 786433, 1572869,
     3145739, 6291469, 12582917, 25165843, 50331653, 100663319, 201326611, 402653189]"

abbreviation N_HASH_PRIMES :: nat where
  "N_HASH_PRIMES \<equiv> 20"

definition HT_construct :: "nat \<Rightarrow> nat \<Rightarrow> 'a vg_heap_scheme \<Rightarrow> (nat \<times> 'a vg_heap_scheme) res" where
  "HT_construct table nm s =
     (let n = primes ! 0;
          s1 = upd_table table (\<lambda>_. \<lparr>n_chains = u32 n, n_elements = 0, iterNode = 0, iterChain = 0,
                 chains = replicate n 0, iterOK = True, name = nm\<rparr>) s
      in if nm = 0 then Inl Abort else Inr (table, s1))"

definition HT_count_nodes :: "nat \<Rightarrow> 'a vg_heap_scheme \<Rightarrow> int" where
  "HT_count_nodes table s = int_of_u32 (n_elements (tables s table))"

text \<open>The first prime above \<open>n\<close>, or \<open>n\<close> itself when there is none.\<close>

fun next_prime :: "nat list \<Rightarrow> nat \<Rightarrow> nat" where
  "next_prime [] n = n"
| "next_prime (p # ps) n = (if p > n then p else next_prime ps n)"

text \<open>The new array, \<open>chains\<close>, is not yet that of the table while the nodes move over.\<close>

function move_chain ::
  "nat \<Rightarrow> nat \<Rightarrow> nat \<Rightarrow> nat list \<Rightarrow> 'a vg_heap_scheme \<Rightarrow> (nat list \<times> 'a vg_heap_scheme) res" where
  "move_chain fuel t node cs s =
     (if node \<noteq> 0 then
        if fuel = 0 then Inl Diverge
        else
          let nx = nnext s node;
              chain = CHAIN_NO (key_of s node) t s in
          if chain < length cs then
            move_chain (fuel - 1) t nx (cs[chain := node])
              (upd_node node (\<lambda>x. x\<lparr>n_next := cs ! chain\<rparr>) s)
          else Inl Out_of_bounds
      else Inr (cs, s))"
  by pat_completeness auto
termination by (relation "measure (\<lambda>(fuel, _). fuel)") auto

declare move_chain.simps [simp del]

function move_chains ::
  "nat \<Rightarrow> nat \<Rightarrow> nat \<Rightarrow> nat list \<Rightarrow> 'a vg_heap_scheme \<Rightarrow> (nat list \<times> 'a vg_heap_scheme) res" where
  "move_chains i old_chains t cs s =
     (if i < old_chains then
        bind_res (read_chain t i s) (\<lambda>node.
        bind_res (move_chain list_fuel t node cs s) (\<lambda>(cs', s').
        move_chains (i + 1) old_chains t cs' s'))
      else Inr (cs, s))"
  by pat_completeness auto
termination by (relation "measure (\<lambda>(i, n, _). n - i)") auto

declare move_chains.simps [simp del]

definition resize :: "nat \<Rightarrow> 'a vg_heap_scheme \<Rightarrow> 'a vg_heap_scheme res" where
  "resize table s =
     (let old_chains = n_chains (tables s table) in
      if old_chains = primes ! (N_HASH_PRIMES - 1) then Inr s
      else if \<not> (old_chains \<ge> primes ! 0 \<and> old_chains < primes ! (N_HASH_PRIMES - 1)) then Inl Abort
      else
        let new_chains = next_prime primes (old_chains + 1) in
        if \<not> new_chains > old_chains then Inl Abort
        else if \<not> (new_chains > primes ! 0 \<and> new_chains \<le> primes ! (N_HASH_PRIMES - 1)) then Inl Abort
        else
          let s1 = upd_table table (\<lambda>x. x\<lparr>n_chains := u32 new_chains\<rparr>) s in
          bind_res (move_chains 0 old_chains table (replicate new_chains 0) s1) (\<lambda>(cs, s2).
          Inr (upd_table table (\<lambda>x. x\<lparr>chains := cs\<rparr>) s2)))"

definition HT_add_node :: "nat \<Rightarrow> nat \<Rightarrow> 'a vg_heap_scheme \<Rightarrow> 'a vg_heap_scheme res" where
  "HT_add_node table node s =
     (let chain = CHAIN_NO (key_of s node) table s in
      bind_res (read_chain table chain s) (\<lambda>p.
      bind_res (write_chain table chain node (upd_node node (\<lambda>x. x\<lparr>n_next := p\<rparr>) s)) (\<lambda>s1.
      let s2 = upd_table table (\<lambda>x. x\<lparr>n_elements := u32 (n_elements x + 1)\<rparr>) s1 in
      bind_res (if n_elements (tables s2 table) > n_chains (tables s2 table)
                then resize table s2 else Inr s2) (\<lambda>s3.
      Inr (upd_table table (\<lambda>x. x\<lparr>iterOK := False\<rparr>) s3)))))"

function lookup_loop :: "nat \<Rightarrow> nat \<Rightarrow> nat \<Rightarrow> 'a vg_heap_scheme \<Rightarrow> nat res" where
  "lookup_loop fuel key node s =
     (if node \<noteq> 0 then
        if fuel = 0 then Inl Diverge
        else if key = key_of s node then Inr node
        else lookup_loop (fuel - 1) key (nnext s node) s
      else Inr 0)"
  by pat_completeness auto
termination by (relation "measure (\<lambda>(fuel, _). fuel)") auto

declare lookup_loop.simps [simp del]

definition HT_lookup :: "nat \<Rightarrow> nat \<Rightarrow> 'a vg_heap_scheme \<Rightarrow> nat res" where
  "HT_lookup table key s =
     bind_res (read_chain table (CHAIN_NO key table s) s) (\<lambda>node.
     lookup_loop list_fuel key node s)"

text \<open>Where the link to the current node is stored: in the array or in the node before it.\<close>

datatype vg_link = In_chain nat | In_node nat

fun write_link :: "nat \<Rightarrow> vg_link \<Rightarrow> nat \<Rightarrow> 'a vg_heap_scheme \<Rightarrow> 'a vg_heap_scheme res" where
  "write_link t (In_chain i) p s = write_chain t i p s"
| "write_link t (In_node q) p s = Inr (upd_node q (\<lambda>x. x\<lparr>n_next := p\<rparr>) s)"

function remove_loop ::
  "nat \<Rightarrow> nat \<Rightarrow> nat \<Rightarrow> vg_link \<Rightarrow> nat \<Rightarrow> 'a vg_heap_scheme \<Rightarrow> (nat \<times> 'a vg_heap_scheme) res" where
  "remove_loop fuel t key prev_next_ptr node s =
     (if node \<noteq> 0 then
        if fuel = 0 then Inl Diverge
        else if key = key_of s node then
          bind_res (write_link t prev_next_ptr (nnext s node) s) (\<lambda>s1.
          Inr (node, upd_table t (\<lambda>x. x\<lparr>n_elements := u32 (n_elements x + 2 ^ 32 - 1)\<rparr>) s1))
        else remove_loop (fuel - 1) t key (In_node node) (nnext s node) s
      else Inr (0, s))"
  by pat_completeness auto
termination by (relation "measure (\<lambda>(fuel, _). fuel)") auto

declare remove_loop.simps [simp del]

definition HT_remove :: "nat \<Rightarrow> nat \<Rightarrow> 'a vg_heap_scheme \<Rightarrow> (nat \<times> 'a vg_heap_scheme) res" where
  "HT_remove table key s =
     (let chain = CHAIN_NO key table s in
      bind_res (read_chain table chain s) (\<lambda>node.
      remove_loop list_fuel table key (In_chain chain) node
        (upd_table table (\<lambda>x. x\<lparr>iterOK := False\<rparr>) s)))"

text \<open>Copying a chain behind the \<open>n\<close> elements that the array has room for.\<close>

function array_chain :: "nat \<Rightarrow> nat \<Rightarrow> nat \<Rightarrow> nat list \<Rightarrow> 'a vg_heap_scheme \<Rightarrow> nat list res" where
  "array_chain fuel n node arr s =
     (if node \<noteq> 0 then
        if fuel = 0 then Inl Diverge
        else if length arr < n then array_chain (fuel - 1) n (nnext s node) (arr @ [node]) s
        else Inl Out_of_bounds
      else Inr arr)"
  by pat_completeness auto
termination by (relation "measure (\<lambda>(fuel, _). fuel)") auto

declare array_chain.simps [simp del]

function array_chains :: "nat \<Rightarrow> nat \<Rightarrow> nat \<Rightarrow> nat list \<Rightarrow> 'a vg_heap_scheme \<Rightarrow> nat list res" where
  "array_chains i t n arr s =
     (if i < n_chains (tables s t) then
        bind_res (read_chain t i s) (\<lambda>node.
        bind_res (array_chain list_fuel n node arr s) (\<lambda>arr'. array_chains (i + 1) t n arr' s))
      else Inr arr)"
  by pat_completeness auto
termination by (relation "measure (\<lambda>(i, t, _, _, s). n_chains (tables s t) - i)") auto

declare array_chains.simps [simp del]

text \<open>The result \<open>None\<close> is the null array of an empty table.\<close>

definition HT_to_array :: "nat \<Rightarrow> 'a vg_heap_scheme \<Rightarrow> (nat list option \<times> nat) res" where
  "HT_to_array table s =
     (let n = n_elements (tables s table) in
      if n = 0 then Inr (None, 0)
      else bind_res (array_chains 0 table n [] s) (\<lambda>arr.
           if length arr = n then Inr (Some arr, n) else Inl Abort))"

definition HT_ResetIter :: "nat \<Rightarrow> 'a vg_heap_scheme \<Rightarrow> 'a vg_heap_scheme res" where
  "HT_ResetIter table s =
     (if table = 0 then Inl Abort
      else Inr (upd_table table (\<lambda>x. x\<lparr>iterNode := 0, iterChain := 0, iterOK := True\<rparr>) s))"

function next_chain :: "nat \<Rightarrow> nat \<Rightarrow> 'a vg_heap_scheme \<Rightarrow> (nat \<times> 'a vg_heap_scheme) res" where
  "next_chain i t s =
     (if i < n_chains (tables s t) then
        bind_res (read_chain t i s) (\<lambda>p.
        if p \<noteq> 0 then Inr (p, upd_table t (\<lambda>x. x\<lparr>iterNode := p, iterChain := i + 1\<rparr>) s)
        else next_chain (i + 1) t s)
      else Inr (0, s))"
  by pat_completeness auto
termination by (relation "measure (\<lambda>(i, t, s). n_chains (tables s t) - i)") auto

declare next_chain.simps [simp del]

definition HT_Next :: "nat \<Rightarrow> 'a vg_heap_scheme \<Rightarrow> (nat \<times> 'a vg_heap_scheme) res" where
  "HT_Next table s =
     (let x = tables s table in
      if table = 0 \<or> \<not> iterOK x then Inl Abort
      else if iterNode x \<noteq> 0 \<and> nnext s (iterNode x) \<noteq> 0 then
        let p = nnext s (iterNode x)
        in Inr (p, upd_table table (\<lambda>x. x\<lparr>iterNode := p\<rparr>) s)
      else next_chain (iterChain x) table s)"

text \<open>
  \<open>HT_destruct\<close> hands every node to the function it is given, in the order of the chains; the
  function frees nodes and does not touch the table.
\<close>

function destruct_chain ::
  "nat \<Rightarrow> (nat \<Rightarrow> 'a vg_heap_scheme \<Rightarrow> 'a vg_heap_scheme) \<Rightarrow> nat \<Rightarrow> 'a vg_heap_scheme
     \<Rightarrow> 'a vg_heap_scheme res" where
  "destruct_chain fuel freenode_fn node s =
     (if node \<noteq> 0 then
        if fuel = 0 then Inl Diverge
        else let node_next = nnext s node
             in destruct_chain (fuel - 1) freenode_fn node_next (freenode_fn node s)
      else Inr s)"
  by pat_completeness auto
termination by (relation "measure (\<lambda>(fuel, _). fuel)") auto

declare destruct_chain.simps [simp del]

fun destruct_chains ::
  "nat list \<Rightarrow> (nat \<Rightarrow> 'a vg_heap_scheme \<Rightarrow> 'a vg_heap_scheme) \<Rightarrow> 'a vg_heap_scheme
     \<Rightarrow> 'a vg_heap_scheme res" where
  "destruct_chains [] freenode_fn s = Inr s"
| "destruct_chains (p # ps) freenode_fn s =
     bind_res (destruct_chain list_fuel freenode_fn p s) (destruct_chains ps freenode_fn)"

definition HT_destruct ::
  "nat \<Rightarrow> (nat \<Rightarrow> 'a vg_heap_scheme \<Rightarrow> 'a vg_heap_scheme) \<Rightarrow> 'a vg_heap_scheme
     \<Rightarrow> 'a vg_heap_scheme res" where
  "HT_destruct table freenode_fn s =
     (let x = tables s table in
      if n_chains x \<le> length (chains x)
      then destruct_chains (take (n_chains x) (chains x)) freenode_fn s else Inl Out_of_bounds)"

end
