(* ===== verification/Mc_Malloc.thy ===== *)
theory Mc_Malloc
  imports Vg_Hash
begin

text \<open>
  The replacements of \<open>malloc\<close>, \<open>free\<close> and their relatives in the Memcheck that the project
  instruments to record allocation traces (\<open>src/valgrind/memcheck/mc_malloc_wrappers.c\<close>). Every
  block of the traced program has a chunk in the hash table \<open>malloc_list\<close>; a freed chunk waits in
  one of two queues, linked by the same field that links it in the table, until the volume of the
  queues exceeds a limit. The lines \<open>>>> N\<close> and \<open>>>> F\<close> are the project's trace.

  The other parts of Valgrind are arguments (\<open>mc_env\<close>): the allocators, the execution contexts, the
  shadow memory. What the code calls of them is recorded in order in the field \<open>log\<close>.
\<close>

section \<open>State\<close>

datatype MC_AllocKind = MC_AllocMalloc | MC_AllocNew | MC_AllocNewVec | MC_AllocCustom

text \<open>
  A chunk is a node of the hash table: its link is the node's and its address \<open>data\<close> is the key.
  The bit field \<open>szB\<close> has 62 bits.
\<close>

record mc_chunk =
  szB :: nat
  allockind :: MC_AllocKind
  where_ec :: nat

abbreviation MC_MALLOC_REDZONE_SZB :: nat where
  "MC_MALLOC_REDZONE_SZB \<equiv> 16"

record mc_pool =
  rzB :: nat
  is_zeroed :: bool
  mp_chunks :: nat

datatype mc_call =
    Cli_malloc nat nat nat
  | Cli_free nat
  | Elt_free nat
  | Core_free nat
  | Vg_memset nat int nat
  | Vg_memcpy nat nat nat
  | Make_noaccess nat nat
  | Make_undefined nat nat nat
  | Make_defined nat nat
  | Copy_range_state nat nat nat
  | Free_error nat nat
  | Freemismatch_error nat nat
  | Mempool_error nat nat
  | Print_N nat nat
  | Print_F nat nat
  | Pool_totals nat nat
  | Out_of_order nat nat
  | Overlaps nat nat
  | Bad_mempool nat
  | Dump_chunk nat nat

record mc_state = vg_heap +
  chunk :: "nat \<Rightarrow> mc_chunk"
  mempool :: "nat \<Rightarrow> mc_pool"
  malloc_list :: nat
  mempool_list :: nat
  freed_list_start :: "nat \<Rightarrow> nat"
  freed_list_end :: "nat \<Rightarrow> nat"
  free_queue_volume :: int
  free_queue_length :: int
  cmalloc_n_mallocs :: nat
  cmalloc_n_frees :: nat
  cmalloc_bs_mallocd :: nat
  g_memory_start :: nat
  g_memory_end :: nat
  pool_tick :: nat
  log :: "mc_call list"
  ticks :: nat

text \<open>
  The environment. Each function gets the number of calls into the environment before it, so that
  two calls with the same arguments may have different results.
\<close>

record mc_env =
  clo_verbosity :: int
  clo_xml :: bool
  clo_freelist_vol :: int
  clo_freelist_big_blocks :: int
  clo_malloc_fill :: int
  clo_free_fill :: int
  clo_alignment :: nat
  cli_malloc :: "nat \<Rightarrow> nat \<Rightarrow> nat \<Rightarrow> nat"
  allocEltPA :: "nat \<Rightarrow> nat"
  vg_malloc :: "nat \<Rightarrow> nat"
  get_running_tid :: "nat \<Rightarrow> nat"
  record_ExeContext :: "nat \<Rightarrow> nat \<Rightarrow> nat"
  get_ECU :: "nat \<Rightarrow> nat"
  is_plausible_ECU :: "nat \<Rightarrow> bool"
  check_mem_is_noaccess :: "nat \<Rightarrow> nat \<Rightarrow> bool"

definition call :: "mc_call \<Rightarrow> mc_state \<Rightarrow> mc_state" where
  "call c s = s\<lparr>log := log s @ [c]\<rparr>"

definition ask :: "(nat \<Rightarrow> 'a) \<Rightarrow> mc_state \<Rightarrow> 'a \<times> mc_state" where
  "ask f s = (f (ticks s), s\<lparr>ticks := ticks s + 1\<rparr>)"

definition upd_chunk_info :: "nat \<Rightarrow> (mc_chunk \<Rightarrow> mc_chunk) \<Rightarrow> mc_state \<Rightarrow> mc_state" where
  "upd_chunk_info mc f s = s\<lparr>chunk := (chunk s)(mc := f (chunk s mc))\<rparr>"

abbreviation data_of :: "mc_state \<Rightarrow> nat \<Rightarrow> nat" where
  "data_of s mc \<equiv> n_key (nodes s mc)"

abbreviation size_of :: "mc_state \<Rightarrow> nat \<Rightarrow> nat" where
  "size_of s mc \<equiv> szB (chunk s mc)"

abbreviation set_next :: "nat \<Rightarrow> nat \<Rightarrow> mc_state \<Rightarrow> mc_state" where
  "set_next p q \<equiv> upd_node p (\<lambda>x. x\<lparr>n_next := q\<rparr>)"

definition u62 :: "nat \<Rightarrow> nat" where
  "u62 n = n mod 2 ^ 62"

text \<open>\<open>otag\<close> of heap memory: the context's number with \<open>MC_OKIND_HEAP\<close>, which is 1.\<close>

abbreviation heap_otag :: "nat \<Rightarrow> nat" where
  "heap_otag ecu \<equiv> (if even ecu then ecu + 1 else ecu)"

section \<open>The queues of freed blocks\<close>

definition add_to_freed_queue :: "mc_env \<Rightarrow> nat \<Rightarrow> mc_state \<Rightarrow> mc_state res" where
  "add_to_freed_queue env mc s =
     (let l = (if int (size_of s mc) \<ge> clo_freelist_big_blocks env then 0 else 1::nat) in
      bind_res
        (if freed_list_end s l = 0 then
           if freed_list_start s l \<noteq> 0 then Inl Abort
           else Inr ((set_next mc 0 s)\<lparr>freed_list_end := (freed_list_end s)(l := mc),
                       freed_list_start := (freed_list_start s)(l := mc)\<rparr>)
         else if nnext s (freed_list_end s l) \<noteq> 0 then Inl Abort
         else if int (size_of s mc) \<ge> clo_freelist_vol env then
           Inr ((set_next mc (freed_list_start s l) s)
                  \<lparr>freed_list_start := (freed_list_start s)(l := mc)\<rparr>)
         else
           Inr ((set_next (freed_list_end s l) mc (set_next mc 0 s))
                  \<lparr>freed_list_end := (freed_list_end s)(l := mc)\<rparr>))
        (\<lambda>s1. Inr (s1\<lparr>free_queue_volume := free_queue_volume s1 + int (size_of s1 mc),
                       free_queue_length := free_queue_length s1 + 1\<rparr>)))"

definition delete_MC_Chunk :: "nat \<Rightarrow> mc_state \<Rightarrow> mc_state" where
  "delete_MC_Chunk mc s = call (Elt_free mc) s"

text \<open>The \<open>while\<close> loop on the list \<open>i\<close>.\<close>

function release_list :: "mc_env \<Rightarrow> nat \<Rightarrow> nat \<Rightarrow> mc_state \<Rightarrow> mc_state res" where
  "release_list env fuel i s =
     (if free_queue_volume s > clo_freelist_vol env \<and> freed_list_start s i \<noteq> 0 then
        if fuel = 0 then Inl Diverge
        else if freed_list_end s i = 0 then Inl Abort
        else
          let mc1 = freed_list_start s i;
              s1 = s\<lparr>free_queue_volume := free_queue_volume s - int (size_of s mc1),
                     free_queue_length := free_queue_length s - 1\<rparr> in
          if free_queue_volume s1 < 0 then Inl Abort
          else
            let s2 = (if freed_list_start s1 i = freed_list_end s1 i
                      then s1\<lparr>freed_list_start := (freed_list_start s1)(i := 0),
                              freed_list_end := (freed_list_end s1)(i := 0)\<rparr>
                      else s1\<lparr>freed_list_start := (freed_list_start s1)(i := nnext s1 mc1)\<rparr>);
                s3 = set_next mc1 0 s2;
                s4 = (if allockind (chunk s3 mc1) \<noteq> MC_AllocCustom
                      then call (Cli_free (data_of s3 mc1)) s3 else s3)
            in release_list env (fuel - 1) i (delete_MC_Chunk mc1 s4)
      else Inr s)"
  by pat_completeness auto
termination by (relation "measure (\<lambda>(_, fuel, _). fuel)") auto

declare release_list.simps [simp del]

definition release_oldest_block :: "mc_env \<Rightarrow> mc_state \<Rightarrow> mc_state res" where
  "release_oldest_block env s =
     (if \<not> free_queue_volume s > clo_freelist_vol env then Inl Abort
      else if \<not> (freed_list_start s 0 \<noteq> 0 \<or> freed_list_start s 1 \<noteq> 0) then Inl Abort
      else bind_res (release_list env list_fuel 0 s) (release_list env list_fuel 1))"

definition addr_is_in_block :: "nat \<Rightarrow> nat \<Rightarrow> nat \<Rightarrow> nat \<Rightarrow> bool" where
  "addr_is_in_block a start n rz \<longleftrightarrow> u64 (start + 2 ^ 64 - rz) \<le> a \<and> a < u64 (start + n + rz)"

function bracketting_loop :: "nat \<Rightarrow> nat \<Rightarrow> nat \<Rightarrow> mc_state \<Rightarrow> nat res" where
  "bracketting_loop fuel a mc s =
     (if mc \<noteq> 0 then
        if fuel = 0 then Inl Diverge
        else if addr_is_in_block a (data_of s mc) (size_of s mc) MC_MALLOC_REDZONE_SZB then Inr mc
        else bracketting_loop (fuel - 1) a (nnext s mc) s
      else Inr 0)"
  by pat_completeness auto
termination by (relation "measure (\<lambda>(fuel, _). fuel)") auto

declare bracketting_loop.simps [simp del]

definition get_freed_block_bracketting :: "nat \<Rightarrow> mc_state \<Rightarrow> nat res" where
  "get_freed_block_bracketting a s =
     bind_res (bracketting_loop list_fuel a (freed_list_start s 0) s) (\<lambda>mc.
     if mc \<noteq> 0 then Inr mc else bracketting_loop list_fuel a (freed_list_start s 1) s)"

definition create_MC_Chunk ::
  "mc_env \<Rightarrow> nat \<Rightarrow> nat \<Rightarrow> nat \<Rightarrow> MC_AllocKind \<Rightarrow> mc_state \<Rightarrow> (nat \<times> mc_state) res" where
  "create_MC_Chunk env ec p n kind s =
     (let (mc, s1) = ask (allocEltPA env) s;
          s2 = upd_chunk_info mc (\<lambda>_. \<lparr>szB = u62 n, allockind = kind, where_ec = ec\<rparr>)
                 (upd_node mc (\<lambda>x. x\<lparr>n_key := p\<rparr>) s1)
      in bind_res (if free_queue_volume s2 > clo_freelist_vol env
                   then release_oldest_block env s2 else Inr s2) (\<lambda>s3.
         let (ok, s4) = ask (\<lambda>k. check_mem_is_noaccess env k mc) s3
         in if \<not> ok then Inl Abort else Inr (mc, s4)))"

section \<open>Allocation\<close>

definition complain_about_silly_args :: "nat \<Rightarrow> bool" where
  "complain_about_silly_args sizeB \<longleftrightarrow> sizeB \<ge> 2 ^ 63"

definition complain_about_silly_args2 :: "nat \<Rightarrow> nat \<Rightarrow> bool" where
  "complain_about_silly_args2 n sizeB \<longleftrightarrow> n \<ge> 2 ^ 63 \<or> sizeB \<ge> 2 ^ 63"

text \<open>Filling memory with a byte, unless the option is off.\<close>

definition fill :: "int \<Rightarrow> nat \<Rightarrow> nat \<Rightarrow> mc_state \<Rightarrow> mc_state res" where
  "fill c p n s =
     (if c = -1 then Inr s
      else if \<not> (0 \<le> c \<and> c \<le> 255) then Inl Abort
      else Inr (call (Vg_memset p c n) s))"

definition new_context :: "mc_env \<Rightarrow> nat \<Rightarrow> mc_state \<Rightarrow> (nat \<times> mc_state) res" where
  "new_context env tid s =
     (let (ec, s1) = ask (\<lambda>k. record_ExeContext env k tid) s
      in if ec = 0 then Inl Abort else Inr (ec, s1))"

text \<open>The range of traced addresses and the line of the trace for a new block.\<close>

definition trace_new :: "nat \<Rightarrow> nat \<Rightarrow> mc_state \<Rightarrow> mc_state" where
  "trace_new p n s =
     (let s1 = (if g_memory_start s > p then s\<lparr>g_memory_start := p\<rparr> else s);
          s2 = (if g_memory_end s1 < u32 (u32 p + u32 n)
                then s1\<lparr>g_memory_end := u64 (p + n)\<rparr> else s1)
      in call (Print_N (u32 p) (u32 n)) s2)"

definition new_block ::
  "mc_env \<Rightarrow> nat \<Rightarrow> nat \<Rightarrow> nat \<Rightarrow> nat \<Rightarrow> bool \<Rightarrow> MC_AllocKind \<Rightarrow> nat \<Rightarrow> mc_state
     \<Rightarrow> (nat \<times> mc_state) res" where
  "new_block env tid p n alignB zeroed kind table s =
     bind_res
       (if p \<noteq> 0 then if kind \<noteq> MC_AllocCustom then Inl Abort else Inr (p, s)
        else if kind = MC_AllocCustom then Inl Abort
        else
          let (p, s0) = ask (\<lambda>k. cli_malloc env k alignB n) s;
              s1 = call (Cli_malloc alignB n p) s0 in
          if p = 0 then Inr (0, s1)
          else if zeroed then Inr (p, call (Vg_memset p 0 n) s1)
          else bind_res (fill (clo_malloc_fill env) p n s1) (\<lambda>s2. Inr (p, s2)))
       (\<lambda>(p, s1).
        if p = 0 then Inr (0, s1)
        else
          let s2 = s1\<lparr>cmalloc_n_mallocs := u64 (cmalloc_n_mallocs s1 + 1),
                      cmalloc_bs_mallocd := u64 (cmalloc_bs_mallocd s1 + n)\<rparr> in
          bind_res (new_context env tid s2) (\<lambda>(ec, s3).
          bind_res (create_MC_Chunk env ec p n kind s3) (\<lambda>(mc, s4).
          bind_res (HT_add_node table mc s4) (\<lambda>s5.
          bind_res
            (if zeroed then Inr (call (Make_defined p n) s5)
             else if \<not> is_plausible_ECU env (get_ECU env ec) then Inl Abort
             else Inr (call (Make_undefined p n (heap_otag (get_ECU env ec))) s5)) (\<lambda>s6.
          Inr (p, trace_new p n s6))))))"

definition MC_malloc :: "mc_env \<Rightarrow> nat \<Rightarrow> nat \<Rightarrow> mc_state \<Rightarrow> (nat \<times> mc_state) res" where
  "MC_malloc env tid n s =
     (if complain_about_silly_args n then Inr (0, s)
      else new_block env tid 0 n (clo_alignment env) False MC_AllocMalloc (malloc_list s) s)"

definition MC_builtin_new :: "mc_env \<Rightarrow> nat \<Rightarrow> nat \<Rightarrow> mc_state \<Rightarrow> (nat \<times> mc_state) res" where
  "MC_builtin_new env tid n s =
     (if complain_about_silly_args n then Inr (0, s)
      else new_block env tid 0 n (clo_alignment env) False MC_AllocNew (malloc_list s) s)"

definition MC_builtin_vec_new :: "mc_env \<Rightarrow> nat \<Rightarrow> nat \<Rightarrow> mc_state \<Rightarrow> (nat \<times> mc_state) res" where
  "MC_builtin_vec_new env tid n s =
     (if complain_about_silly_args n then Inr (0, s)
      else new_block env tid 0 n (clo_alignment env) False MC_AllocNewVec (malloc_list s) s)"

definition MC_memalign :: "mc_env \<Rightarrow> nat \<Rightarrow> nat \<Rightarrow> nat \<Rightarrow> mc_state \<Rightarrow> (nat \<times> mc_state) res" where
  "MC_memalign env tid alignB n s =
     (if complain_about_silly_args n then Inr (0, s)
      else new_block env tid 0 n alignB False MC_AllocMalloc (malloc_list s) s)"

text \<open>The product of the two sizes of \<open>calloc\<close> is taken modulo the word.\<close>

definition MC_calloc :: "mc_env \<Rightarrow> nat \<Rightarrow> nat \<Rightarrow> nat \<Rightarrow> mc_state \<Rightarrow> (nat \<times> mc_state) res" where
  "MC_calloc env tid nmemb size1 s =
     (if complain_about_silly_args2 nmemb size1 then Inr (0, s)
      else new_block env tid 0 (u64 (nmemb * size1)) (clo_alignment env) True MC_AllocMalloc
             (malloc_list s) s)"

section \<open>Release\<close>

definition die_and_free_mem :: "mc_env \<Rightarrow> nat \<Rightarrow> nat \<Rightarrow> nat \<Rightarrow> mc_state \<Rightarrow> mc_state res" where
  "die_and_free_mem env tid mc rz s =
     bind_res (if allockind (chunk s mc) \<noteq> MC_AllocCustom
               then fill (clo_free_fill env) (data_of s mc) (size_of s mc) s else Inr s) (\<lambda>s1.
     let s2 = call (Make_noaccess (u64 (data_of s1 mc + 2 ^ 64 - rz)) (u64 (size_of s1 mc + 2 * rz))) s1;
         (ec, s3) = ask (\<lambda>k. record_ExeContext env k tid) s2
     in add_to_freed_queue env mc (upd_chunk_info mc (\<lambda>x. x\<lparr>where_ec := ec\<rparr>) s3))"

definition handle_free ::
  "mc_env \<Rightarrow> nat \<Rightarrow> nat \<Rightarrow> nat \<Rightarrow> MC_AllocKind \<Rightarrow> mc_state \<Rightarrow> mc_state res" where
  "handle_free env tid p rz kind s =
     (let s1 = call (Print_F (u32 p) 0) (s\<lparr>cmalloc_n_frees := u64 (cmalloc_n_frees s + 1)\<rparr>) in
      bind_res (HT_remove (malloc_list s1) p s1) (\<lambda>(mc, s2).
      if mc = 0 then Inr (call (Free_error tid p) s2)
      else
        bind_res
          (if kind \<noteq> allockind (chunk s2 mc) then
             if p \<noteq> data_of s2 mc then Inl Abort else Inr (call (Freemismatch_error tid mc) s2)
           else Inr s2)
          (\<lambda>s3. die_and_free_mem env tid mc rz s3)))"

definition MC_free :: "mc_env \<Rightarrow> nat \<Rightarrow> nat \<Rightarrow> mc_state \<Rightarrow> mc_state res" where
  "MC_free env tid p s = handle_free env tid p MC_MALLOC_REDZONE_SZB MC_AllocMalloc s"

definition MC_builtin_delete :: "mc_env \<Rightarrow> nat \<Rightarrow> nat \<Rightarrow> mc_state \<Rightarrow> mc_state res" where
  "MC_builtin_delete env tid p s = handle_free env tid p MC_MALLOC_REDZONE_SZB MC_AllocNew s"

definition MC_builtin_vec_delete :: "mc_env \<Rightarrow> nat \<Rightarrow> nat \<Rightarrow> mc_state \<Rightarrow> mc_state res" where
  "MC_builtin_vec_delete env tid p s = handle_free env tid p MC_MALLOC_REDZONE_SZB MC_AllocNewVec s"

section \<open>Reallocation\<close>

text \<open>
  Moving to a block that is not larger: the red zones and the kept part, the copy, the old block
  to the queue. The result is the chunk of the new block.
\<close>

definition realloc_shrink ::
  "mc_env \<Rightarrow> nat \<Rightarrow> nat \<Rightarrow> nat \<Rightarrow> nat \<Rightarrow> nat \<Rightarrow> nat \<Rightarrow> mc_state \<Rightarrow> (nat \<times> mc_state) res" where
  "realloc_shrink env tid mc p_old a_new old_szB new_szB s =
     bind_res (new_context env tid s) (\<lambda>(ec, s1).
     let s2 = call (Make_noaccess (u64 (a_new + 2 ^ 64 - MC_MALLOC_REDZONE_SZB)) MC_MALLOC_REDZONE_SZB) s1;
         s3 = call (Copy_range_state p_old a_new new_szB) s2;
         s4 = call (Make_noaccess (u64 (a_new + new_szB)) MC_MALLOC_REDZONE_SZB) s3;
         s5 = call (Vg_memcpy a_new p_old new_szB) s4 in
     bind_res (fill (clo_free_fill env) p_old old_szB s5) (\<lambda>s6.
     bind_res (die_and_free_mem env tid mc MC_MALLOC_REDZONE_SZB s6) (\<lambda>s7.
     create_MC_Chunk env ec a_new new_szB MC_AllocMalloc s7)))"

text \<open>Moving to a larger block: as before, and the new part is undefined and filled.\<close>

definition realloc_grow ::
  "mc_env \<Rightarrow> nat \<Rightarrow> nat \<Rightarrow> nat \<Rightarrow> nat \<Rightarrow> nat \<Rightarrow> nat \<Rightarrow> mc_state \<Rightarrow> (nat \<times> mc_state) res" where
  "realloc_grow env tid mc p_old a_new old_szB new_szB s =
     bind_res (new_context env tid s) (\<lambda>(ec, s1).
     let ecu = get_ECU env ec in
     if \<not> is_plausible_ECU env ecu then Inl Abort
     else
       let n = size_of s1 mc;
           s2 = call (Make_noaccess (u64 (a_new + 2 ^ 64 - MC_MALLOC_REDZONE_SZB)) MC_MALLOC_REDZONE_SZB) s1;
           s3 = call (Copy_range_state p_old a_new n) s2;
           s4 = call (Make_undefined (u64 (a_new + n)) (new_szB - n) (heap_otag ecu)) s3;
           s5 = call (Make_noaccess (u64 (a_new + new_szB)) MC_MALLOC_REDZONE_SZB) s4 in
       bind_res (fill (clo_malloc_fill env) (u64 (a_new + old_szB)) (new_szB - old_szB) s5) (\<lambda>s6.
       let s7 = call (Vg_memcpy a_new p_old n) s6 in
       bind_res (fill (clo_free_fill env) p_old old_szB s7) (\<lambda>s8.
       bind_res (die_and_free_mem env tid mc MC_MALLOC_REDZONE_SZB s8) (\<lambda>s9.
       create_MC_Chunk env ec a_new new_szB MC_AllocMalloc s9))))"

definition MC_realloc :: "mc_env \<Rightarrow> nat \<Rightarrow> nat \<Rightarrow> nat \<Rightarrow> mc_state \<Rightarrow> (nat \<times> mc_state) res" where
  "MC_realloc env tid p_old new_szB s =
     (if complain_about_silly_args new_szB then Inr (0, s)
      else
        let s1 = s\<lparr>cmalloc_n_frees := u64 (cmalloc_n_frees s + 1),
                   cmalloc_n_mallocs := u64 (cmalloc_n_mallocs s + 1),
                   cmalloc_bs_mallocd := u64 (cmalloc_bs_mallocd s + new_szB)\<rparr> in
        bind_res (HT_remove (malloc_list s1) p_old s1) (\<lambda>(mc, s2).
        if mc = 0 then Inr (0, call (Free_error tid p_old) s2)
        else
          bind_res
            (if MC_AllocMalloc \<noteq> allockind (chunk s2 mc) then
               if p_old \<noteq> data_of s2 mc then Inl Abort else Inr (call (Freemismatch_error tid mc) s2)
             else Inr s2) (\<lambda>s3.
          let old_szB = size_of s3 mc;
              (a_new, s4) = ask (\<lambda>k. cli_malloc env k (clo_alignment env) new_szB) s3;
              s5 = call (Cli_malloc (clo_alignment env) new_szB a_new) s4 in
          bind_res
            (if a_new = 0 then Inr (mc, s5)
             else if new_szB \<le> old_szB then realloc_shrink env tid mc p_old a_new old_szB new_szB s5
             else realloc_grow env tid mc p_old a_new old_szB new_szB s5) (\<lambda>(mc', s6).
          bind_res (HT_add_node (malloc_list s6) mc' s6) (\<lambda>s7. Inr (a_new, s7))))))"

section \<open>Queries and the resize in place\<close>

definition malloc_usable_size :: "nat \<Rightarrow> mc_state \<Rightarrow> nat res" where
  "malloc_usable_size p s =
     bind_res (HT_lookup (malloc_list s) p s) (\<lambda>mc. Inr (if mc \<noteq> 0 then size_of s mc else 0))"

definition handle_resizeInPlace ::
  "mc_env \<Rightarrow> nat \<Rightarrow> nat \<Rightarrow> nat \<Rightarrow> nat \<Rightarrow> nat \<Rightarrow> mc_state \<Rightarrow> mc_state res" where
  "handle_resizeInPlace env tid p oldSizeB newSizeB rz s =
     bind_res (HT_lookup (malloc_list s) p s) (\<lambda>mc.
     if mc = 0 \<or> size_of s mc \<noteq> oldSizeB \<or> newSizeB = 0 then Inr (call (Free_error tid p) s)
     else if oldSizeB = newSizeB then Inr s
     else
       let s1 = upd_chunk_info mc (\<lambda>x. x\<lparr>szB := u62 newSizeB\<rparr>) s in
       if newSizeB < oldSizeB then
         Inr (call (Make_noaccess (u64 (p + newSizeB)) (u64 (oldSizeB - newSizeB + rz))) s1)
       else
         let (ec, s2) = ask (\<lambda>k. record_ExeContext env k tid) s1;
             s3 = call (Make_undefined (u64 (p + oldSizeB)) (newSizeB - oldSizeB)
                    (heap_otag (get_ECU env ec))) s2
         in Inr (if rz > 0 then call (Make_noaccess (u64 (p + newSizeB)) rz) s3 else s3))"

text \<open>
  The count of blocks and bytes still in use, which \<open>MC_(print_malloc_stats)\<close> prints unless it is
  told to be quiet or to write XML.
\<close>

function count_blocks :: "nat \<Rightarrow> nat \<Rightarrow> nat \<Rightarrow> nat \<Rightarrow> mc_state \<Rightarrow> (nat \<times> nat \<times> mc_state) res" where
  "count_blocks fuel table nblocks nbytes s =
     (if fuel = 0 then Inl Diverge
      else
        bind_res (HT_Next table s) (\<lambda>(mc, s1).
        if mc \<noteq> 0
        then count_blocks (fuel - 1) table (u64 (nblocks + 1)) (u64 (nbytes + size_of s1 mc)) s1
        else Inr (nblocks, nbytes, s1)))"
  by pat_completeness auto
termination by (relation "measure (\<lambda>(fuel, _). fuel)") auto

declare count_blocks.simps [simp del]

definition print_malloc_stats :: "mc_env \<Rightarrow> mc_state \<Rightarrow> (nat \<times> nat \<times> mc_state) res" where
  "print_malloc_stats env s =
     (if clo_verbosity env = 0 \<or> clo_xml env then Inr (0, 0, s)
      else bind_res (HT_ResetIter (malloc_list s) s) (\<lambda>s1. count_blocks list_fuel (malloc_list s) 0 0 s1))"

definition get_cmalloc_n_frees :: "mc_state \<Rightarrow> nat" where
  "get_cmalloc_n_frees s = cmalloc_n_frees s"

end
