(* ===== verification/Vg_Sort.thy ===== *)
theory Vg_Sort
  imports Rm_Prelude
begin

text \<open>
  The quicksort of Bentley and McIlroy that Valgrind's core offers to its tools
  (\<open>bm_qsort\<close> in \<open>src/valgrind/coregrind/m_libcbase.c\<close>), for elements of any size \<open>es\<close> at any
  address. Pointers are indices into the array, in elements; they are integers because \<open>pc\<close> may end
  before the first element. The comparison gets the elements that the pointers point to. The swaps,
  word by word or byte by byte, exchange whole elements. Every access outside of the array is an
  error.
\<close>

unbundle bit_operations_syntax

section \<open>The array\<close>

definition rd :: "'e list \<Rightarrow> int \<Rightarrow> 'e res" where
  "rd xs i = (if 0 \<le> i \<and> i < int (length xs) then Inr (xs ! nat i) else Inl Out_of_bounds)"

definition bm_swap :: "'e list \<Rightarrow> int \<Rightarrow> int \<Rightarrow> 'e list res" where
  "bm_swap xs i j =
     bind_res (rd xs i) (\<lambda>x. bind_res (rd xs j) (\<lambda>y. Inr (xs[nat i := y, nat j := x])))"

definition cmp_at :: "('e \<Rightarrow> 'e \<Rightarrow> int) \<Rightarrow> 'e list \<Rightarrow> int \<Rightarrow> int \<Rightarrow> int res" where
  "cmp_at cmp xs i j = bind_res (rd xs i) (\<lambda>x. bind_res (rd xs j) (\<lambda>y. Inr (cmp x y)))"

section \<open>The sort\<close>

definition bm_med3 :: "('e \<Rightarrow> 'e \<Rightarrow> int) \<Rightarrow> 'e list \<Rightarrow> int \<Rightarrow> int \<Rightarrow> int \<Rightarrow> int res" where
  "bm_med3 cmp xs a b c =
     bind_res (cmp_at cmp xs a b) (\<lambda>r.
     if r < 0 then
       bind_res (cmp_at cmp xs b c) (\<lambda>r. if r < 0 then Inr b else
       bind_res (cmp_at cmp xs a c) (\<lambda>r. Inr (if r < 0 then c else a)))
     else
       bind_res (cmp_at cmp xs b c) (\<lambda>r. if r > 0 then Inr b else
       bind_res (cmp_at cmp xs a c) (\<lambda>r. Inr (if r > 0 then c else a))))"

text \<open>Exchange of two ranges of \<open>n\<close> elements.\<close>

fun bm_swapfunc :: "nat \<Rightarrow> int \<Rightarrow> int \<Rightarrow> 'e list \<Rightarrow> 'e list res" where
  "bm_swapfunc 0 a b xs = Inr xs"
| "bm_swapfunc (Suc n) a b xs = bind_res (bm_swap xs a b) (bm_swapfunc n (a + 1) (b + 1))"

text \<open>The insertion sort of short arrays: the inner and the outer loop.\<close>

function sift_down :: "('e \<Rightarrow> 'e \<Rightarrow> int) \<Rightarrow> int \<Rightarrow> int \<Rightarrow> 'e list \<Rightarrow> 'e list res" where
  "sift_down cmp a pl xs =
     (if pl > a then
        bind_res (cmp_at cmp xs (pl - 1) pl) (\<lambda>r.
        if r > 0 then bind_res (bm_swap xs pl (pl - 1)) (sift_down cmp a (pl - 1)) else Inr xs)
      else Inr xs)"
  by pat_completeness auto
termination by (relation "measure (\<lambda>(cmp, a, pl, xs). nat (pl - a))") auto

function insertion_loop :: "('e \<Rightarrow> 'e \<Rightarrow> int) \<Rightarrow> int \<Rightarrow> int \<Rightarrow> int \<Rightarrow> 'e list \<Rightarrow> 'e list res" where
  "insertion_loop cmp a pm e xs =
     (if pm < e then bind_res (sift_down cmp a pm xs) (insertion_loop cmp a (pm + 1) e) else Inr xs)"
  by pat_completeness auto
termination by (relation "measure (\<lambda>(cmp, a, pm, e, xs). nat (e - pm))") auto

declare sift_down.simps [simp del] insertion_loop.simps [simp del]

definition choose_pivot :: "('e \<Rightarrow> 'e \<Rightarrow> int) \<Rightarrow> int \<Rightarrow> nat \<Rightarrow> 'e list \<Rightarrow> int res" where
  "choose_pivot cmp a n xs =
     (let pm = a + int (n div 2) in
      if n > 7 then
        let pl = a; pn = a + int (n - 1) in
        if n > 40 then
          let s = int (n div 8) in
          bind_res (bm_med3 cmp xs pl (pl + s) (pl + 2 * s)) (\<lambda>pl.
          bind_res (bm_med3 cmp xs (pm - s) pm (pm + s)) (\<lambda>pm.
          bind_res (bm_med3 cmp xs (pn - 2 * s) (pn - s) pn) (\<lambda>pn. bm_med3 cmp xs pl pm pn)))
        else bm_med3 cmp xs pl pm pn
      else Inr pm)"

text \<open>
  The kind of swaps for elements of \<open>es\<close> bytes at the address \<open>a\<close>: 0 for one aligned word, 1 for
  several, 2 for bytes. The pivot is saved in a variable for 0; otherwise it is moved to the front
  of the array and read there, while the partition goes on around it.
\<close>

definition bm_swaptype :: "nat \<Rightarrow> nat \<Rightarrow> nat" where
  "bm_swaptype a es = (if (a OR es) mod 8 \<noteq> 0 then 2 else if es > 8 then 1 else 0)"

datatype 'e pivot = Saved 'e | In_place int

definition pivot_value :: "'e pivot \<Rightarrow> 'e list \<Rightarrow> 'e res" where
  "pivot_value pv xs = (case pv of Saved v \<Rightarrow> Inr v | In_place i \<Rightarrow> rd xs i)"

definition bm_pvinit :: "nat \<Rightarrow> int \<Rightarrow> int \<Rightarrow> 'e list \<Rightarrow> ('e pivot \<times> 'e list) res" where
  "bm_pvinit swaptype a pm xs =
     (if swaptype \<noteq> 0 then bind_res (bm_swap xs a pm) (\<lambda>xs. Inr (In_place a, xs))
      else bind_res (rd xs pm) (\<lambda>v. Inr (Saved v, xs)))"

text \<open>The two inner loops of the partition; equal elements gather at the ends.\<close>

function scan_up ::
  "('e \<Rightarrow> 'e \<Rightarrow> int) \<Rightarrow> 'e pivot \<Rightarrow> int \<Rightarrow> int \<Rightarrow> int \<Rightarrow> 'e list \<Rightarrow> (int \<times> int \<times> 'e list) res" where
  "scan_up cmp pv pa pb pc xs =
     (if pb \<le> pc then
        bind_res (rd xs pb) (\<lambda>x. bind_res (pivot_value pv xs) (\<lambda>v.
        let r = cmp x v in
        if r \<le> 0 then
          if r = 0 then bind_res (bm_swap xs pa pb) (scan_up cmp pv (pa + 1) (pb + 1) pc)
          else scan_up cmp pv pa (pb + 1) pc xs
        else Inr (pa, pb, xs)))
      else Inr (pa, pb, xs))"
  by pat_completeness auto
termination by (relation "measure (\<lambda>(cmp, pv, pa, pb, pc, xs). nat (pc - pb + 1))") auto

function scan_down ::
  "('e \<Rightarrow> 'e \<Rightarrow> int) \<Rightarrow> 'e pivot \<Rightarrow> int \<Rightarrow> int \<Rightarrow> int \<Rightarrow> 'e list \<Rightarrow> (int \<times> int \<times> 'e list) res" where
  "scan_down cmp pv pb pc pd xs =
     (if pc \<ge> pb then
        bind_res (rd xs pc) (\<lambda>x. bind_res (pivot_value pv xs) (\<lambda>v.
        let r = cmp x v in
        if r \<ge> 0 then
          if r = 0 then bind_res (bm_swap xs pc pd) (scan_down cmp pv pb (pc - 1) (pd - 1))
          else scan_down cmp pv pb (pc - 1) pd xs
        else Inr (pc, pd, xs)))
      else Inr (pc, pd, xs))"
  by pat_completeness auto
termination by (relation "measure (\<lambda>(cmp, pv, pb, pc, pd, xs). nat (pc - pb + 1))") auto

declare scan_up.simps [simp del] scan_down.simps [simp del]

text \<open>The endless loop around them.\<close>

fun partition_loop ::
  "nat \<Rightarrow> ('e \<Rightarrow> 'e \<Rightarrow> int) \<Rightarrow> 'e pivot \<Rightarrow> int \<Rightarrow> int \<Rightarrow> int \<Rightarrow> int \<Rightarrow> 'e list
     \<Rightarrow> (int \<times> int \<times> int \<times> int \<times> 'e list) res" where
  "partition_loop 0 cmp pv pa pb pc pd xs = Inl Diverge"
| "partition_loop (Suc fuel) cmp pv pa pb pc pd xs =
     bind_res (scan_up cmp pv pa pb pc xs) (\<lambda>(pa, pb, xs).
     bind_res (scan_down cmp pv pb pc pd xs) (\<lambda>(pc, pd, xs).
     if pb > pc then Inr (pa, pb, pc, pd, xs)
     else bind_res (bm_swap xs pb pc) (partition_loop fuel cmp pv pa (pb + 1) (pc - 1) pd)))"

text \<open>
  The smaller part is sorted first, the larger one by going back to the start, here a second
  call. The fuel bounds the depth of both.
\<close>

fun bm_qsort ::
  "nat \<Rightarrow> nat \<Rightarrow> nat \<Rightarrow> ('e \<Rightarrow> 'e \<Rightarrow> int) \<Rightarrow> int \<Rightarrow> nat \<Rightarrow> 'e list \<Rightarrow> 'e list res" where
  "bm_qsort 0 base es cmp a n xs = Inl Diverge"
| "bm_qsort (Suc fuel) base es cmp a n xs =
     (let swaptype = bm_swaptype (base + nat a * es) es in
      if n < 7 then insertion_loop cmp a (a + 1) (a + int n) xs
      else
        bind_res (choose_pivot cmp a n xs) (\<lambda>pm.
        bind_res (bm_pvinit swaptype a pm xs) (\<lambda>(pv, xs).
        bind_res (partition_loop (Suc n) cmp pv a a (a + int (n - 1)) (a + int (n - 1)) xs)
          (\<lambda>(pa, pb, pc, pd, xs).
        let pn = a + int n;
            s = (if pa - a < pb - pa then pa - a else pb - pa) in
        bind_res (if s > 0 then bm_swapfunc (nat s) a (pb - s) xs else Inr xs) (\<lambda>xs.
        let s = (if pd - pc < pn - pd - 1 then pd - pc else pn - pd - 1) in
        bind_res (if s > 0 then bm_swapfunc (nat s) pb (pn - s) xs else Inr xs) (\<lambda>xs.
        let s1 = pb - pa; s2 = pd - pc in
        if s1 < s2 then
          bind_res (if s1 > 1 then bm_qsort fuel base es cmp a (nat s1) xs else Inr xs) (\<lambda>xs.
          if s2 > 1 then bm_qsort fuel base es cmp (pn - s2) (nat s2) xs else Inr xs)
        else
          bind_res (if s2 > 1 then bm_qsort fuel base es cmp (pn - s2) (nat s2) xs else Inr xs) (\<lambda>xs.
          if s1 > 1 then bm_qsort fuel base es cmp a (nat s1) xs else Inr xs)))))))"

text \<open>The array at the address \<open>base\<close>, with elements of \<open>es\<close> bytes.\<close>

definition ssort :: "nat \<Rightarrow> nat \<Rightarrow> ('e \<Rightarrow> 'e \<Rightarrow> int) \<Rightarrow> 'e list \<Rightarrow> 'e list res" where
  "ssort base es cmp xs = bm_qsort (Suc (length xs)) base es cmp 0 (length xs) xs"

end
