(* ===== verification/Mc_Pool.thy ===== *)
theory Mc_Pool
  imports Mc_Malloc Vg_Sort
begin

text \<open>
  The memory pools of \<open>mc_malloc_wrappers.c\<close>: a pool is a node of the table \<open>mempool_list\<close>, under
  the client's address of the pool, and has a table of chunks of its own. The messages of a
  verbosity above 2 only print and are left out, as are the sanity checks that the source switches
  off (\<open>MP_DETAILED_SANITY_CHECKS\<close>).
\<close>

abbreviation pool_chunks :: "mc_state \<Rightarrow> nat \<Rightarrow> nat" where
  "pool_chunks s mp \<equiv> mp_chunks (mempool s mp)"

definition upd_pool :: "nat \<Rightarrow> (mc_pool \<Rightarrow> mc_pool) \<Rightarrow> mc_state \<Rightarrow> mc_state" where
  "upd_pool mp f s = s\<lparr>mempool := (mempool s)(mp := f (mempool s mp))\<rparr>"

section \<open>The sanity check\<close>

definition mp_compar :: "mc_state \<Rightarrow> nat \<Rightarrow> nat \<Rightarrow> int" where
  "mp_compar s mc1 mc2 =
     (if data_of s mc1 < data_of s mc2 then -1 else if data_of s mc1 > data_of s mc2 then 1 else 0)"

text \<open>The totals that every 10,000th check prints at a verbosity above 1.\<close>

function count_nodes :: "nat \<Rightarrow> nat \<Rightarrow> nat \<Rightarrow> mc_state \<Rightarrow> (nat \<times> mc_state) res" where
  "count_nodes fuel t total_chunks s =
     (if fuel = 0 then Inl Diverge
      else bind_res (HT_Next t s) (\<lambda>(mc, s1).
        if mc \<noteq> 0 then count_nodes (fuel - 1) t (u32 (total_chunks + 1)) s1 else Inr (total_chunks, s1)))"
  by pat_completeness auto
termination by (relation "measure (\<lambda>(fuel, _). fuel)") auto

function count_pools :: "nat \<Rightarrow> nat \<Rightarrow> nat \<Rightarrow> mc_state \<Rightarrow> (nat \<times> nat \<times> mc_state) res" where
  "count_pools fuel total_pools total_chunks s =
     (if fuel = 0 then Inl Diverge
      else bind_res (HT_Next (mempool_list s) s) (\<lambda>(mp2, s1).
        if mp2 \<noteq> 0 then
          bind_res (HT_ResetIter (pool_chunks s1 mp2) s1) (\<lambda>s2.
          bind_res (count_nodes list_fuel (pool_chunks s2 mp2) total_chunks s2) (\<lambda>(n, s3).
          count_pools (fuel - 1) (u32 (total_pools + 1)) n s3))
        else Inr (total_pools, total_chunks, s1)))"
  by pat_completeness auto
termination by (relation "measure (\<lambda>(fuel, _). fuel)") auto

declare count_nodes.simps [simp del] count_pools.simps [simp del]

definition pool_totals :: "mc_env \<Rightarrow> mc_state \<Rightarrow> mc_state res" where
  "pool_totals env s =
     (if clo_verbosity env > 1 then
        let s1 = s\<lparr>pool_tick := u32 (pool_tick s + 1)\<rparr> in
        if pool_tick s \<ge> 10000 then
          bind_res (HT_ResetIter (mempool_list s1) s1) (\<lambda>s2.
          bind_res (count_pools list_fuel 0 0 s2) (\<lambda>(pools, chunks, s3).
          Inr ((call (Pool_totals pools chunks) s3)\<lparr>pool_tick := 0\<rparr>)))
        else Inr s1
      else Inr s)"

text \<open>The complaints about neighbours in the sorted array of \<open>n\<close> chunks, from the \<open>i\<close>-th on.\<close>

fun check_order :: "mc_state \<Rightarrow> nat \<Rightarrow> nat \<Rightarrow> nat list \<Rightarrow> mc_call list" where
  "check_order s n i (x # y # chunks) =
     (if data_of s x > data_of s y then [Out_of_order (i + 1) n] else [])
     @ check_order s n (i + 1) (y # chunks)"
| "check_order s n i _ = []"

fun check_overlap :: "mc_state \<Rightarrow> nat \<Rightarrow> nat \<Rightarrow> nat list \<Rightarrow> mc_call list" where
  "check_overlap s n i (x # y # chunks) =
     (if u64 (data_of s x + size_of s x) > data_of s y then [Overlaps (i + 1) n] else [])
     @ check_overlap s n (i + 1) (y # chunks)"
| "check_overlap s n i _ = []"

definition calls_made :: "mc_call list \<Rightarrow> mc_state \<Rightarrow> mc_state" where
  "calls_made cs s = s\<lparr>log := log s @ cs\<rparr>"

text \<open>The array to sort holds pointers; \<open>VG_(malloc)\<close> aligns it, so its address counts as 0.\<close>

definition check_mempool_sane :: "mc_env \<Rightarrow> nat \<Rightarrow> mc_state \<Rightarrow> mc_state res" where
  "check_mempool_sane env mp s =
     bind_res (HT_to_array (pool_chunks s mp) s) (\<lambda>(arr, n_chunks).
     case arr of None \<Rightarrow> Inr s
     | Some chunks \<Rightarrow>
         bind_res (pool_totals env s) (\<lambda>s1.
         bind_res (ssort 0 8 (mp_compar s1) chunks) (\<lambda>chunks.
         let bad = check_order s1 n_chunks 0 chunks @ check_overlap s1 n_chunks 0 chunks;
             dump = (if bad = [] then []
               else Bad_mempool n_chunks # map (\<lambda>mc. Dump_chunk (data_of s1 mc) (size_of s1 mc)) chunks)
         in Inr (calls_made (bad @ dump) s1))))"

section \<open>Creation and destruction\<close>

definition create_mempool :: "mc_env \<Rightarrow> nat \<Rightarrow> nat \<Rightarrow> bool \<Rightarrow> mc_state \<Rightarrow> mc_state res" where
  "create_mempool env pool rz zeroed s =
     bind_res (HT_lookup (mempool_list s) pool s) (\<lambda>mp0.
     if mp0 \<noteq> 0 then Inl Abort
     else
       let (mp, s1) = ask (vg_malloc env) s;
           s2 = upd_pool mp (\<lambda>x. x\<lparr>rzB := rz, is_zeroed := zeroed\<rparr>)
                  (upd_node mp (\<lambda>x. x\<lparr>n_key := pool\<rparr>) s1);
           (t, s3) = ask (vg_malloc env) s2 in
       bind_res (HT_construct t 1 s3) (\<lambda>(t, s4).
       bind_res (check_mempool_sane env mp (upd_pool mp (\<lambda>x. x\<lparr>mp_chunks := t\<rparr>) s4)) (\<lambda>s5.
       let (ok, s6) = ask (\<lambda>k. check_mem_is_noaccess env k mp) s5 in
       if \<not> ok then Inl Abort else HT_add_node (mempool_list s6) mp s6)))"

definition illegal_mempool :: "mc_env \<Rightarrow> nat \<Rightarrow> mc_state \<Rightarrow> mc_state" where
  "illegal_mempool env pool s =
     (let (tid, s1) = ask (get_running_tid env) s in call (Mempool_error tid pool) s1)"

function forget_chunks :: "nat \<Rightarrow> nat \<Rightarrow> nat \<Rightarrow> mc_state \<Rightarrow> mc_state res" where
  "forget_chunks fuel mp t s =
     (if fuel = 0 then Inl Diverge
      else bind_res (HT_Next t s) (\<lambda>(mc, s1).
        if mc \<noteq> 0 then
          let rz = rzB (mempool s1 mp) in
          forget_chunks (fuel - 1) mp t
            (call (Make_noaccess (u64 (data_of s1 mc + 2 ^ 64 - rz)) (u64 (size_of s1 mc + 2 * rz))) s1)
        else Inr s1))"
  by pat_completeness auto
termination by (relation "measure (\<lambda>(fuel, _). fuel)") auto

declare forget_chunks.simps [simp del]

definition destroy_mempool :: "mc_env \<Rightarrow> nat \<Rightarrow> mc_state \<Rightarrow> mc_state res" where
  "destroy_mempool env pool s =
     bind_res (HT_remove (mempool_list s) pool s) (\<lambda>(mp, s1).
     if mp = 0 then Inr (illegal_mempool env pool s1)
     else
       bind_res (check_mempool_sane env mp s1) (\<lambda>s2.
       bind_res (HT_ResetIter (pool_chunks s2 mp) s2) (\<lambda>s3.
       bind_res (forget_chunks list_fuel mp (pool_chunks s3 mp) s3) (\<lambda>s4.
       bind_res (HT_destruct (pool_chunks s4 mp) delete_MC_Chunk s4) (\<lambda>s5.
       Inr (call (Core_free mp) s5))))))"

section \<open>Allocation and release\<close>

definition mempool_alloc :: "mc_env \<Rightarrow> nat \<Rightarrow> nat \<Rightarrow> nat \<Rightarrow> nat \<Rightarrow> mc_state \<Rightarrow> mc_state res" where
  "mempool_alloc env tid pool addr n s =
     bind_res (HT_lookup (mempool_list s) pool s) (\<lambda>mp.
     if mp = 0 then Inr (call (Mempool_error tid pool) s)
     else
       let x = mempool s mp in
       bind_res (new_block env tid addr n 0 (is_zeroed x) MC_AllocCustom (mp_chunks x) s) (\<lambda>(p, s1).
       let rz = rzB (mempool s1 mp) in
       Inr (if rz > 0
            then call (Make_noaccess (u64 (addr + n)) rz)
                   (call (Make_noaccess (u64 (addr + 2 ^ 64 - rz)) rz) s1)
            else s1)))"

definition mempool_free :: "mc_env \<Rightarrow> nat \<Rightarrow> nat \<Rightarrow> mc_state \<Rightarrow> mc_state res" where
  "mempool_free env pool addr s =
     (let (tid, s0) = ask (get_running_tid env) s in
      bind_res (HT_lookup (mempool_list s0) pool s0) (\<lambda>mp.
      if mp = 0 then Inr (call (Mempool_error tid pool) s0)
      else
        bind_res (HT_remove (pool_chunks s0 mp) addr s0) (\<lambda>(mc, s1).
        if mc = 0 then Inr (call (Free_error tid addr) s1)
        else die_and_free_mem env tid mc (rzB (mempool s1 mp)) s1)))"

section \<open>Trimming\<close>

definition extent_contains :: "nat \<Rightarrow> nat \<Rightarrow> nat \<Rightarrow> bool" where
  "extent_contains addr n x \<longleftrightarrow> addr \<le> x \<and> x < u64 (addr + n)"

text \<open>The part of a chunk within the extent, after the chunk has left the table.\<close>

definition trim_chunk :: "nat \<Rightarrow> nat \<Rightarrow> nat \<Rightarrow> nat \<Rightarrow> mc_state \<Rightarrow> mc_state res" where
  "trim_chunk t mc addr n s =
     (let (mn, lo) = (if data_of s mc < addr then (data_of s mc, addr) else (addr, data_of s mc));
          (mx, hi) = (if u64 (data_of s mc + n) > u64 (addr + n)
                      then (u64 (data_of s mc + n), u64 (addr + n))
                      else (u64 (addr + n), u64 (data_of s mc + n))) in
      if \<not> mn \<le> lo \<or> \<not> lo < hi \<or> \<not> hi \<le> mx then Inl Abort
      else
        let s1 = (if mn < lo \<and> \<not> extent_contains addr n mn then call (Make_noaccess mn (lo - mn)) s else s);
            s2 = (if hi < mx \<and> \<not> extent_contains addr n mx then call (Make_noaccess hi (mx - hi)) s1 else s1);
            s3 = upd_chunk_info mc (\<lambda>x. x\<lparr>szB := u32 (hi - lo)\<rparr>) (upd_node mc (\<lambda>x. x\<lparr>n_key := lo\<rparr>) s2)
        in HT_add_node t mc s3)"

text \<open>The loop over the array of chunks; the first component of the result is \<open>False\<close> after an early return.\<close>

fun trim_loop ::
  "mc_env \<Rightarrow> nat \<Rightarrow> nat \<Rightarrow> nat \<Rightarrow> nat \<Rightarrow> nat list \<Rightarrow> mc_state \<Rightarrow> (bool \<times> mc_state) res" where
  "trim_loop env tid mp addr n [] s = Inr (True, s)"
| "trim_loop env tid mp addr n (mc # chunks) s =
     (let lo = data_of s mc;
          hi = (if size_of s mc = 0 then lo else u64 (lo + size_of s mc + 2 ^ 64 - 1)) in
      if extent_contains addr n lo \<and> extent_contains addr n hi then trim_loop env tid mp addr n chunks s
      else
        bind_res (HT_remove (pool_chunks s mp) lo s) (\<lambda>(r, s1).
        if r = 0 then Inr (False, call (Free_error tid lo) s1)
        else
          bind_res
            (if \<not> extent_contains addr n lo \<and> \<not> extent_contains addr n hi
             then die_and_free_mem env tid mc (rzB (mempool s1 mp)) s1
             else trim_chunk (pool_chunks s1 mp) mc addr n s1)
            (\<lambda>s2. trim_loop env tid mp addr n chunks s2)))"

definition mempool_trim :: "mc_env \<Rightarrow> nat \<Rightarrow> nat \<Rightarrow> nat \<Rightarrow> mc_state \<Rightarrow> mc_state res" where
  "mempool_trim env pool addr n s =
     (let (tid, s0) = ask (get_running_tid env) s in
      bind_res (HT_lookup (mempool_list s0) pool s0) (\<lambda>mp.
      if mp = 0 then Inr (call (Mempool_error tid pool) s0)
      else
        bind_res (check_mempool_sane env mp s0) (\<lambda>s1.
        bind_res (HT_to_array (pool_chunks s1 mp) s1) (\<lambda>(chunks, n_shadows).
        case chunks of
          None \<Rightarrow> if n_shadows = 0 then Inr s1 else Inl Abort
        | Some arr \<Rightarrow>
            if n_shadows = 0 then Inl Abort
            else bind_res (trim_loop env tid mp addr n arr s1) (\<lambda>(finished, s2).
                 if finished then check_mempool_sane env mp s2 else Inr s2)))))"

section \<open>Moving and changing\<close>

definition move_mempool :: "mc_env \<Rightarrow> nat \<Rightarrow> nat \<Rightarrow> mc_state \<Rightarrow> mc_state res" where
  "move_mempool env poolA poolB s =
     bind_res (HT_remove (mempool_list s) poolA s) (\<lambda>(mp, s1).
     if mp = 0 then Inr (illegal_mempool env poolA s1)
     else HT_add_node (mempool_list s1) mp (upd_node mp (\<lambda>x. x\<lparr>n_key := poolB\<rparr>) s1))"

definition mempool_change :: "mc_env \<Rightarrow> nat \<Rightarrow> nat \<Rightarrow> nat \<Rightarrow> nat \<Rightarrow> mc_state \<Rightarrow> mc_state res" where
  "mempool_change env pool addrA addrB n s =
     (let (tid, s0) = ask (get_running_tid env) s in
      bind_res (HT_lookup (mempool_list s0) pool s0) (\<lambda>mp.
      if mp = 0 then Inr (call (Mempool_error tid pool) s0)
      else
        bind_res (check_mempool_sane env mp s0) (\<lambda>s1.
        bind_res (HT_remove (pool_chunks s1 mp) addrA s1) (\<lambda>(mc, s2).
        if mc = 0 then Inr (call (Free_error tid addrA) s2)
        else
          let s3 = upd_chunk_info mc (\<lambda>x. x\<lparr>szB := u62 n\<rparr>) (upd_node mc (\<lambda>x. x\<lparr>n_key := addrB\<rparr>) s2) in
          bind_res (HT_add_node (pool_chunks s3 mp) mc s3) (\<lambda>s4. check_mempool_sane env mp s4)))))"

definition mempool_exists :: "nat \<Rightarrow> mc_state \<Rightarrow> bool res" where
  "mempool_exists pool s = bind_res (HT_lookup (mempool_list s) pool s) (\<lambda>mp. Inr (mp \<noteq> 0))"

end
