(* ===== verification/Vg_Hash_Inv.thy ===== *)
theory Vg_Hash_Inv
  imports Vg_Hash
begin

text \<open>
  The invariant of the hash table, relating it to the lists of nodes of its chains, and what each
  operation does to them.
\<close>

section \<open>The invariant\<close>

definition heads :: "'a vg_heap_scheme \<Rightarrow> nat list \<Rightarrow> nat list list \<Rightarrow> bool" where
  "heads s arr bs \<longleftrightarrow> list_all2 (\<lambda>p b. chain (nnext s) p b 0) arr bs"

definition hashed :: "'a vg_heap_scheme \<Rightarrow> nat list list \<Rightarrow> bool" where
  "hashed s bs \<longleftrightarrow> (\<forall>i<length bs. \<forall>p\<in>set (bs ! i). key_of s p mod length bs = i)"

definition ht :: "'a vg_heap_scheme \<Rightarrow> nat \<Rightarrow> nat list list \<Rightarrow> bool" where
  "ht s t cs \<longleftrightarrow>
     n_chains (tables s t) \<in> set primes \<and> length cs = n_chains (tables s t)
     \<and> heads s (chains (tables s t)) cs \<and> hashed s cs
     \<and> (\<forall>p\<in>set (concat cs). p < 2 ^ 64)
     \<and> n_elements (tables s t) = length (concat cs) \<and> length (concat cs) < 2 ^ 32"

text \<open>The operation changes only the table \<open>t\<close> and the links of the nodes \<open>N\<close>.\<close>

definition only_links :: "nat \<Rightarrow> nat set \<Rightarrow> 'a vg_heap_scheme \<Rightarrow> 'a vg_heap_scheme \<Rightarrow> bool" where
  "only_links t N s s' \<longleftrightarrow>
     (\<forall>u. u \<noteq> t \<longrightarrow> tables s' u = tables s u) \<and> (\<forall>p. p \<notin> N \<longrightarrow> nodes s' p = nodes s p)
     \<and> (\<forall>p. key_of s' p = key_of s p) \<and> vg_heap.more s' = vg_heap.more s"

lemma only_links_refl [simp]: "only_links t N s s"
  by (simp add: only_links_def)

lemma only_links_trans:
  "only_links t M s s' \<Longrightarrow> only_links t N s' s'' \<Longrightarrow> M \<subseteq> K \<Longrightarrow> N \<subseteq> K \<Longrightarrow> only_links t K s s''"
  unfolding only_links_def by (metis subsetD)

lemma only_links_mono: "only_links t M s s' \<Longrightarrow> M \<subseteq> N \<Longrightarrow> only_links t N s s'"
  by (auto simp: only_links_def)

lemma headsI:
  "length arr = length bs \<Longrightarrow> (\<And>i. i < length bs \<Longrightarrow> chain (nnext s) (arr ! i) (bs ! i) 0) \<Longrightarrow>
   heads s arr bs"
  by (simp add: heads_def list_all2_conv_all_nth)

lemma heads_nth:
  assumes "heads s arr bs"
  shows "length arr = length bs" and "i < length bs \<Longrightarrow> chain (nnext s) (arr ! i) (bs ! i) 0"
  using assms by (auto simp: heads_def list_all2_conv_all_nth)

lemma in_concat_nth: "p \<in> set (concat bs) \<longleftrightarrow> (\<exists>i<length bs. p \<in> set (bs ! i))"
  by (simp add: set_concat) (metis in_set_conv_nth nth_mem)

lemma heads_nonnull: "heads s arr bs \<Longrightarrow> p \<in> set (concat bs) \<Longrightarrow> p \<noteq> 0"
  unfolding in_concat_nth by (metis chain_nonnull heads_nth(2))

lemma heads_links_outside:
  assumes "heads s arr bs" and "\<And>p. p \<in> set (concat bs) \<Longrightarrow> nodes s' p = nodes s p"
  shows "heads s' arr bs"
proof (rule headsI)
  show "length arr = length bs" by (rule heads_nth(1) [OF assms(1)])
  show "chain (nnext s') (arr ! i) (bs ! i) 0" if "i < length bs" for i
  proof -
    have "chain (nnext s') (arr ! i) (bs ! i) 0 = chain (nnext s) (arr ! i) (bs ! i) 0"
      using that assms(2) unfolding in_concat_nth by (intro chain_cong) (metis (no_types))
    with heads_nth(2) [OF assms(1) that] show ?thesis by simp
  qed
qed

lemma distinct_concat_nth:
  "(\<And>i. i < length bs \<Longrightarrow> distinct (bs ! i)) \<Longrightarrow>
   (\<And>i j. i < j \<Longrightarrow> j < length bs \<Longrightarrow> set (bs ! i) \<inter> set (bs ! j) = {}) \<Longrightarrow> distinct (concat bs)"
proof (induction bs)
  case (Cons b bs)
  have "distinct (concat bs)"
    using Cons.prems(1) [of "Suc _"] Cons.prems(2) [of "Suc _" "Suc _"] by (intro Cons.IH) auto
  moreover have "set b \<inter> set (concat bs) = {}"
    using Cons.prems(2) [of 0 "Suc _"] unfolding in_concat_nth disjoint_iff by fastforce
  moreover have "distinct b" using Cons.prems(1) [of 0] by simp
  ultimately show ?case by simp
qed simp

lemma ht_distinct:
  assumes "heads s arr bs" and "hashed s bs"
  shows "distinct (concat bs)"
proof (rule distinct_concat_nth)
  show "distinct (bs ! i)" if "i < length bs" for i
    using chain_null_distinct [OF heads_nth(2) [OF assms(1) that]] .
  show "set (bs ! i) \<inter> set (bs ! j) = {}" if "i < j" "j < length bs" for i j
    using assms(2) that unfolding hashed_def disjoint_iff by (metis less_irrefl less_trans)
qed

lemma ht_parts:
  assumes "ht s t cs"
  shows "n_chains (tables s t) \<in> set primes" and "length cs = n_chains (tables s t)"
    and "heads s (chains (tables s t)) cs" and "hashed s cs"
    and "\<And>p. p \<in> set (concat cs) \<Longrightarrow> p < 2 ^ 64"
    and "n_elements (tables s t) = length (concat cs)" and "length (concat cs) < 2 ^ 32"
    and "distinct (concat cs)" and "\<And>p. p \<in> set (concat cs) \<Longrightarrow> p \<noteq> 0"
    and "length (chains (tables s t)) = length cs"
  using assms ht_distinct heads_nonnull heads_nth(1) unfolding ht_def by blast+

lemma primes_bounds: "n \<in> set primes \<Longrightarrow> 769 \<le> n \<and> n \<le> 402653189"
  by (auto simp: primes_def)

lemma ht_chain_no:
  assumes "ht s t cs"
  shows "k mod n_chains (tables s t) < length cs"
  using primes_bounds [OF ht_parts(1) [OF assms]] ht_parts(2) [OF assms] by simp

text \<open>A chain fits into the fuel of a loop.\<close>

lemma ht_fuel:
  assumes "ht s t cs" and "i < length cs"
  shows "length (cs ! i) \<le> list_fuel"
proof -
  have "length (cs ! i) \<le> sum_list (map length cs)" using assms(2) by (intro member_le_sum_list) auto
  also have "\<dots> = length (concat cs)" by (simp add: length_concat)
  finally have "length (cs ! i) < 2 ^ 32" using ht_parts(7) [OF assms(1)] by simp
  then show ?thesis by (simp add: list_fuel_def)
qed

lemma ht_read:
  assumes "ht s t cs" and "i < length cs"
  shows "read_chain t i s = Inr (chains (tables s t) ! i)"
    and "chain (nnext s) (chains (tables s t) ! i) (cs ! i) 0"
  using assms ht_parts(10) [OF assms(1)] heads_nth(2) [OF ht_parts(3) [OF assms(1)]]
  by (simp_all add: read_chain_def)

section \<open>Lookup\<close>

lemma lookup_loop_chain:
  "chain (nnext s) p ps 0 \<Longrightarrow> length ps \<le> fuel \<Longrightarrow>
   lookup_loop fuel k p s = Inr (case find (\<lambda>q. key_of s q = k) ps of None \<Rightarrow> 0 | Some q \<Rightarrow> q)"
proof (induction ps arbitrary: p fuel)
  case (Cons q ps)
  then show ?case by (subst lookup_loop.simps) auto
qed (simp add: lookup_loop.simps)

lemma HT_lookup_find:
  assumes "ht s t cs"
  shows "HT_lookup t k s = Inr (case find (\<lambda>q. key_of s q = k) (cs ! (k mod length cs)) of
    None \<Rightarrow> 0 | Some q \<Rightarrow> q)"
proof -
  have i: "k mod length cs < length cs" using ht_chain_no [OF assms] ht_parts(2) [OF assms] by simp
  show ?thesis
    using lookup_loop_chain [OF ht_read(2) [OF assms i] ht_fuel [OF assms i]] ht_read(1) [OF assms i]
    by (simp add: HT_lookup_def CHAIN_NO_def ht_parts(2) [OF assms, symmetric])
qed

lemma key_in_chain:
  assumes "ht s t cs" and "p \<in> set (concat cs)"
  shows "p \<in> set (cs ! (key_of s p mod length cs))"
proof -
  obtain i where "i < length cs" "p \<in> set (cs ! i)" using assms(2) unfolding in_concat_nth by blast
  moreover from this have "key_of s p mod length cs = i"
    using ht_parts(4) [OF assms(1)] by (simp add: hashed_def)
  ultimately show ?thesis by simp
qed

lemma HT_lookup_spec:
  assumes "ht s t cs"
  shows "\<exists>r. HT_lookup t k s = Inr r
    \<and> (r = 0 \<and> (\<forall>p\<in>set (concat cs). key_of s p \<noteq> k) \<or> r \<in> set (concat cs) \<and> key_of s r = k)"
proof -
  have i: "k mod length cs < length cs" using ht_chain_no [OF assms] ht_parts(2) [OF assms] by simp
  have sub: "p \<in> set (concat cs)" if "p \<in> set (cs ! (k mod length cs))" for p
    using i that unfolding in_concat_nth by blast
  show ?thesis
  proof (cases "find (\<lambda>q. key_of s q = k) (cs ! (k mod length cs))")
    case None
    then have "\<forall>p\<in>set (concat cs). key_of s p \<noteq> k"
      using key_in_chain [OF assms] by (fastforce simp: find_None_iff)
    with None show ?thesis by (simp add: HT_lookup_find [OF assms])
  next
    case (Some q)
    then have "q \<in> set (cs ! (k mod length cs))" "key_of s q = k" by (auto simp: find_Some_iff)
    with Some sub show ?thesis by (simp add: HT_lookup_find [OF assms])
  qed
qed

section \<open>Pushing nodes onto chains\<close>

definition push :: "(nat \<Rightarrow> nat) \<Rightarrow> nat \<Rightarrow> nat list list \<Rightarrow> nat list list" where
  "push key p bs = bs[key p mod length bs := p # bs ! (key p mod length bs)]"

lemma length_push [simp]: "length (push key p bs) = length bs"
  by (simp add: push_def)

lemma mset_add_facts:
  assumes "mset xs = add_mset r (mset ys)"
  shows "length xs = length ys + 1" and "set xs = insert r (set ys)"
proof -
  have "size (mset xs) = Suc (size (mset ys))" unfolding assms by simp
  then show "length xs = length ys + 1" by simp
  have "set_mset (mset xs) = insert r (set_mset (mset ys))" unfolding assms by simp
  then show "set xs = insert r (set ys)" by simp
qed

lemma mset_concat_update:
  "i < length bs \<Longrightarrow> mset (concat (bs[i := x # bs ! i])) = add_mset x (mset (concat bs))"
proof (induction bs arbitrary: i)
  case (Cons b bs)
  then show ?case by (cases i) auto
qed simp

lemma push_index: "bs \<noteq> [] \<Longrightarrow> key p mod length bs < length bs"
  by simp

lemma mset_push: "bs \<noteq> [] \<Longrightarrow> mset (concat (push key p bs)) = add_mset p (mset (concat bs))"
  unfolding push_def by (rule mset_concat_update) simp

lemma set_push: "bs \<noteq> [] \<Longrightarrow> set (concat (push key p bs)) = insert p (set (concat bs))"
  using mset_push [of bs key p] by (metis set_mset_add_mset_insert set_mset_mset)

lemma nth_push:
  "j < length bs \<Longrightarrow>
   push key p bs ! j = (if key p mod length bs = j then p # bs ! j else bs ! j)"
  by (auto simp: push_def)

lemma hashed_push: "hashed s bs \<Longrightarrow> hashed s (push (key_of s) p bs)"
  by (auto simp: hashed_def nth_push)

text \<open>Writing the link of a new node and the head of its chain.\<close>

lemma heads_push:
  assumes "heads s arr bs" and "p \<noteq> 0" and "p \<notin> set (concat bs)" and "bs \<noteq> []"
    and "h = key_of s p mod length bs"
  shows "heads (upd_node p (\<lambda>x. x\<lparr>n_next := arr ! h\<rparr>) s) (arr[h := p]) (push (key_of s) p bs)"
    (is "heads ?s' _ _")
proof -
  have o: "heads ?s' arr bs"
    using assms(3) by (intro heads_links_outside [OF assms(1)]) auto
  have h: "h < length bs" using assms(4,5) by simp
  show ?thesis
  proof (rule headsI)
    show "length (arr[h := p]) = length (push (key_of s) p bs)" using heads_nth(1) [OF assms(1)] by simp
    show "chain (nnext ?s') (arr[h := p] ! i) (push (key_of s) p bs ! i) 0"
      if "i < length (push (key_of s) p bs)" for i
    proof (cases "i = h")
      case True
      then show ?thesis
        using heads_nth(2) [OF o h] heads_nth(1) [OF assms(1)] h assms(2,5) by (simp add: nth_push)
    next
      case False
      then show ?thesis
        using heads_nth(2) [OF o, of i] that assms(5) by (simp add: nth_push)
    qed
  qed
qed

section \<open>Growing\<close>

definition regroup :: "(nat \<Rightarrow> nat) \<Rightarrow> nat list \<Rightarrow> nat list list \<Rightarrow> nat list list" where
  "regroup key ps bs = fold (push key) ps bs"

lemma regroup_simps [simp]:
  "regroup key [] bs = bs" "regroup key (p # ps) bs = regroup key ps (push key p bs)"
  by (simp_all add: regroup_def)

lemma regroup_append: "regroup key (ps @ qs) bs = regroup key qs (regroup key ps bs)"
  by (simp add: regroup_def)

lemma length_regroup [simp]: "length (regroup key ps bs) = length bs"
  by (induction ps arbitrary: bs) auto

lemma regroup_nonempty [simp]: "regroup key ps bs = [] \<longleftrightarrow> bs = []"
  using length_regroup [of key ps bs] by (metis length_0_conv)

lemma mset_regroup: "bs \<noteq> [] \<Longrightarrow> mset (concat (regroup key ps bs)) = mset ps + mset (concat bs)"
proof (induction ps arbitrary: bs)
  case (Cons p ps)
  then have "push key p bs \<noteq> []" by (metis length_push length_0_conv)
  with Cons show ?case by (simp add: mset_push)
qed simp

lemma set_regroup:
  assumes "bs \<noteq> []"
  shows "set (concat (regroup key ps bs)) = set ps \<union> set (concat bs)"
  using mset_regroup [OF assms, of key ps] by (metis set_mset_mset set_mset_union)

lemma hashed_regroup: "hashed s bs \<Longrightarrow> hashed s (regroup (key_of s) ps bs)"
  by (induction ps arbitrary: bs) (auto intro: hashed_push)

text \<open>Every chain is pushed in front, so the nodes of a new chain come in the opposite order.\<close>

lemma nth_regroup:
  "j < length bs \<Longrightarrow>
   regroup key ps bs ! j = rev (filter (\<lambda>p. key p mod length bs = j) ps) @ bs ! j"
  by (induction ps arbitrary: bs) (auto simp: nth_push)

lemma hashed_cong: "(\<And>p. key_of s' p = key_of s p) \<Longrightarrow> hashed s' bs = hashed s bs"
  by (simp add: hashed_def)

lemma move_chain_spec:
  assumes "chain (nnext s) p ps 0" and "length ps \<le> fuel" and "heads s arr bs" and "bs \<noteq> []"
    and "length bs = n_chains (tables s t)" and "set ps \<inter> set (concat bs) = {}"
  shows "\<exists>arr' s'. move_chain fuel t p arr s = Inr (arr', s')
    \<and> heads s' arr' (regroup (key_of s) ps bs) \<and> only_links t (set ps) s s' \<and> tables s' t = tables s t"
  using assms
proof (induction ps arbitrary: p fuel arr bs s)
  case Nil
  then show ?case by (simp add: move_chain.simps)
next
  case (Cons q ps)
  have c: "chain (nnext s) (nnext s p) ps 0" "p \<noteq> 0" "q = p" using Cons.prems(1) by auto
  have d: "p \<notin> set ps" using chain_null_distinct [OF Cons.prems(1)] c(3) by simp
  have f: "fuel \<noteq> 0" "length ps \<le> fuel - 1" using Cons.prems(2) by auto
  define h where "h = key_of s p mod length bs"
  have h: "h < length arr" using Cons.prems(3,4) by (simp add: h_def heads_nth(1))
  have ch: "CHAIN_NO (key_of s p) t s = h" by (simp add: CHAIN_NO_def h_def Cons.prems(5))
  let ?s1 = "upd_node p (\<lambda>x. x\<lparr>n_next := arr ! h\<rparr>) s"
  let ?bs1 = "push (key_of s) p bs"
  have k1: "key_of ?s1 = key_of s" by (simp add: fun_eq_iff)
  have c1: "chain (nnext ?s1) (nnext s p) ps 0"
    using c(1) d by (subst chain_cong [of _ _ "nnext s"]) auto
  have h1: "heads ?s1 (arr[h := p]) ?bs1"
    using Cons.prems(4,6) c by (intro heads_push [OF Cons.prems(3)]) (auto simp: h_def)
  have n1: "?bs1 \<noteq> []" using Cons.prems(4) by (metis length_push length_0_conv)
  have l1: "length ?bs1 = n_chains (tables ?s1 t)" using Cons.prems(5) by simp
  have e1: "set ps \<inter> set (concat ?bs1) = {}"
    using Cons.prems(6) d c(3) unfolding set_push [OF Cons.prems(4)] by auto
  from Cons.IH [OF c1 f(2) h1 n1 l1 e1] obtain arr' s' where
    r: "move_chain (fuel - 1) t (nnext s p) (arr[h := p]) ?s1 = Inr (arr', s')"
      "heads s' arr' (regroup (key_of s) ps ?bs1)" "only_links t (set ps) ?s1 s'"
      "tables s' t = tables s t"
    unfolding k1 by auto
  have "only_links t {p} s ?s1" by (simp add: only_links_def)
  then have "only_links t (set (q # ps)) s s'"
    by (rule only_links_trans [OF _ r(3)]) (use c(3) in auto)
  with r show ?case
    using c f h ch by (subst move_chain.simps) (simp add: Let_def)
qed

lemma heads_Cons:
  "heads s arr (b # bs) \<longleftrightarrow> (\<exists>p ps. arr = p # ps \<and> chain (nnext s) p b 0 \<and> heads s ps bs)"
  by (auto simp: heads_def list_all2_Cons2)

lemma move_chains_spec:
  assumes "heads s (drop i (chains (tables s t))) rest" and "\<And>b. b \<in> set rest \<Longrightarrow> length b \<le> list_fuel"
    and "distinct (concat rest)" and "heads s arr bs" and "bs \<noteq> []"
    and "length bs = n_chains (tables s t)" and "set (concat rest) \<inter> set (concat bs) = {}"
    and "old = length (chains (tables s t))"
  shows "\<exists>arr' s'. move_chains i old t arr s = Inr (arr', s')
    \<and> heads s' arr' (regroup (key_of s) (concat rest) bs) \<and> only_links t (set (concat rest)) s s'
    \<and> tables s' t = tables s t"
  using assms
proof (induction rest arbitrary: i arr bs s)
  case Nil
  then have "\<not> i < old" by (auto simp: heads_def)
  with Nil show ?case by (simp add: move_chains.simps)
next
  case (Cons b rest)
  let ?arr0 = "chains (tables s t)"
  obtain p ps where d: "drop i ?arr0 = p # ps" "chain (nnext s) p b 0" "heads s ps rest"
    using Cons.prems(1) unfolding heads_Cons by blast
  have i: "i < length ?arr0" using d(1) by (metis drop_all list.distinct(1) not_le)
  have p: "?arr0 ! i = p" "drop (Suc i) ?arr0 = ps"
    using d(1) i by (simp_all add: Cons_nth_drop_Suc [symmetric])
  have b: "length b \<le> list_fuel" "set b \<inter> set (concat bs) = {}" "set b \<inter> set (concat rest) = {}"
    using Cons.prems(2,3,7) by auto
  from move_chain_spec [OF d(2) b(1) Cons.prems(4,5,6) b(2)] obtain arr1 s1 where
    m: "move_chain list_fuel t p arr s = Inr (arr1, s1)" "heads s1 arr1 (regroup (key_of s) b bs)"
      "only_links t (set b) s s1" "tables s1 t = tables s t" by blast
  have k1: "key_of s1 = key_of s" using m(3) by (simp add: fun_eq_iff only_links_def)
  let ?bs1 = "regroup (key_of s) b bs"
  have h1: "heads s1 (drop (Suc i) (chains (tables s1 t))) rest"
    using b(3) m(3) unfolding m(4) p(2)
    by (intro heads_links_outside [OF d(3)]) (auto simp: only_links_def)
  have x1: "set (concat rest) \<inter> set (concat ?bs1) = {}"
    using Cons.prems(7) b(3) unfolding set_regroup [OF Cons.prems(5)] by auto
  have y1: "?bs1 \<noteq> []" "length ?bs1 = n_chains (tables s1 t)" "old = length (chains (tables s1 t))"
    using Cons.prems(5,6,8) m(4) by simp_all
  have z1: "distinct (concat rest)" "\<And>c. c \<in> set rest \<Longrightarrow> length c \<le> list_fuel"
    using Cons.prems(2,3) by simp_all
  from Cons.IH [OF h1 z1(2,1) m(2) y1(1,2) x1 y1(3)] obtain arr' s' where
    r: "move_chains (Suc i) old t arr1 s1 = Inr (arr', s')"
      "heads s' arr' (regroup (key_of s) (concat rest) ?bs1)" "only_links t (set (concat rest)) s1 s'"
      "tables s' t = tables s1 t" unfolding k1 by auto
  have "only_links t (set (concat (b # rest))) s s'"
    by (rule only_links_trans [OF m(3) r(3)]) auto
  moreover have "move_chains i old t arr s = Inr (arr', s')"
    using i p(1) m(1) r(1) Cons.prems(8) by (subst move_chains.simps) (simp add: read_chain_def)
  ultimately show ?case using r m(4) by (simp add: regroup_append)
qed

text \<open>The chains after a growth; at the last prime the table stays as it is.\<close>

definition grown :: "(nat \<Rightarrow> nat) \<Rightarrow> nat list list \<Rightarrow> nat list list" where
  "grown key cs =
     (if length cs = primes ! (N_HASH_PRIMES - 1) then cs
      else regroup key (concat cs) (replicate (next_prime primes (length cs + 1)) []))"

lemma next_prime_primes:
  assumes "n \<in> set primes" and "n \<noteq> primes ! (N_HASH_PRIMES - 1)"
  shows "next_prime primes (n + 1) \<in> set primes" and "n < next_prime primes (n + 1)"
    and "n < primes ! (N_HASH_PRIMES - 1)" and "primes ! 0 \<le> n"
    and "primes ! 0 < next_prime primes (n + 1)"
    and "next_prime primes (n + 1) \<le> primes ! (N_HASH_PRIMES - 1)"
  using assms unfolding primes_def by auto

lemma concat_replicate_Nil [simp]: "concat (replicate n []) = []"
  by (induction n) auto

lemma heads_replicate: "heads s (replicate n 0) (replicate n [])"
  by (rule headsI) auto

lemma hashed_replicate: "hashed s (replicate n [])"
  by (simp add: hashed_def)

lemma resize_spec:
  assumes h: "ht s t cs"
  shows "\<exists>s'. resize t s = Inr s' \<and> ht s' t (grown (key_of s) cs)
    \<and> mset (concat (grown (key_of s) cs)) = mset (concat cs) \<and> only_links t (set (concat cs)) s s'"
proof (cases "length cs = primes ! (N_HASH_PRIMES - 1)")
  case True
  then show ?thesis using h ht_parts(2) [OF h] by (simp add: resize_def grown_def)
next
  case False
  note P = ht_parts [OF h]
  define n' where "n' = next_prime primes (length cs + 1)"
  have n: "length cs \<in> set primes" using P(1,2) by simp
  note N = next_prime_primes [OF n False, folded n'_def]
  have "n' \<le> 402653189" "n' \<noteq> 0" using primes_bounds [OF N(1)] by auto
  then have "n' < 2 ^ 32" "n' \<noteq> 0" by auto
  then have u: "u32 n' = n'" "n' \<noteq> 0" by (simp_all only: u32_small not_False_eq_True)
  define s1 where "s1 = upd_table t (\<lambda>x. x\<lparr>n_chains := u32 n'\<rparr>) s"
  have s1: "chains (tables s1 t) = chains (tables s t)" "n_chains (tables s1 t) = n'"
    "nodes s1 = nodes s" "only_links t (set (concat cs)) s s1"
    by (simp_all add: s1_def u only_links_def)
  have a1: "heads s1 (drop 0 (chains (tables s1 t))) cs"
    using P(3) s1(1,3) by (simp add: heads_def)
  have a2: "length b \<le> list_fuel" if "b \<in> set cs" for b
    using ht_fuel [OF h] that by (metis in_set_conv_nth)
  have a3: "(replicate n' [] :: nat list list) \<noteq> []" "length (replicate n' ([]::nat list)) = n_chains (tables s1 t)"
    "set (concat cs) \<inter> set (concat (replicate n' [])) = {}" "length cs = length (chains (tables s1 t))"
    using u s1 P(10) by simp_all
  from move_chains_spec [OF a1 a2 P(8) heads_replicate a3] obtain arr' s2 where
    m: "move_chains 0 (length cs) t (replicate n' 0) s1 = Inr (arr', s2)"
      "heads s2 arr' (regroup (key_of s1) (concat cs) (replicate n' []))"
      "only_links t (set (concat cs)) s1 s2" "tables s2 t = tables s1 t" by blast
  have k: "key_of s1 = key_of s" "key_of s2 = key_of s"
    using m(3) s1(3) by (simp_all add: fun_eq_iff only_links_def)
  let ?g = "regroup (key_of s) (concat cs) (replicate n' [])"
  have g: "grown (key_of s) cs = ?g" using False by (simp add: grown_def n'_def)
  define s3 where "s3 = upd_table t (\<lambda>x. x\<lparr>chains := arr'\<rparr>) s2"
  have k3: "key_of s3 = key_of s" using k by (simp add: s3_def)
  have ms: "mset (concat ?g) = mset (concat cs)" using mset_regroup [OF a3(1)] by simp
  then have st: "set (concat ?g) = set (concat cs)" "length (concat ?g) = length (concat cs)"
    by (metis mset_eq_setD, metis size_mset)
  have "ht s3 t ?g"
    unfolding ht_def
  proof (intro conjI)
    show "n_chains (tables s3 t) \<in> set primes" "length ?g = n_chains (tables s3 t)"
      using N(1) s1(2) m(4) by (simp_all add: s3_def)
    show "heads s3 (chains (tables s3 t)) ?g"
      using m(2) k(1) by (simp add: s3_def heads_def)
    have "hashed s ?g" by (rule hashed_regroup [OF hashed_replicate])
    then show "hashed s3 ?g" using hashed_cong [of s3 s] fun_cong [OF k3] by blast
    show "\<forall>p\<in>set (concat ?g). p < 2 ^ 64" unfolding st using P(5) by blast
    show "n_elements (tables s3 t) = length (concat ?g)" "length (concat ?g) < 2 ^ 32"
      unfolding st using P(6,7) m(4) by (simp_all add: s3_def s1_def)
  qed
  moreover have "resize t s = Inr s3"
    unfolding resize_def Let_def P(2) [symmetric] n'_def [symmetric] s1_def [symmetric]
    using False N(2-6) m(1) by (simp add: s3_def)
  moreover have "only_links t (set (concat cs)) s s3"
    by (rule only_links_trans [OF s1(4) only_links_trans [OF m(3), of "{}" s3 "set (concat cs)"]])
      (auto simp: s3_def only_links_def)
  ultimately show ?thesis using ms unfolding g by blast
qed

section \<open>Adding\<close>

lemma ht_cong:
  "nodes s' = nodes s \<Longrightarrow> n_chains (tables s' t) = n_chains (tables s t) \<Longrightarrow>
   chains (tables s' t) = chains (tables s t) \<Longrightarrow> n_elements (tables s' t) = n_elements (tables s t) \<Longrightarrow>
   ht s' t cs = ht s t cs"
  by (simp only: ht_def heads_def hashed_def)

lemma HT_add_node_spec:
  assumes h: "ht s t cs" and p: "p \<noteq> 0" "p < 2 ^ 64" "p \<notin> set (concat cs)"
    and room: "length (concat cs) + 1 < 2 ^ 32"
  shows "\<exists>s' cs'. HT_add_node t p s = Inr s' \<and> ht s' t cs'
    \<and> mset (concat cs') = add_mset p (mset (concat cs)) \<and> only_links t (insert p (set (concat cs))) s s'"
proof -
  note P = ht_parts [OF h]
  define c where "c = key_of s p mod length cs"
  have ne: "cs \<noteq> []" using primes_bounds [OF P(1)] P(2) by auto
  then have c: "c < length cs" by (simp add: c_def)
  have cn: "CHAIN_NO (key_of s p) t s = c" by (simp add: CHAIN_NO_def c_def P(2))
  let ?cs1 = "push (key_of s) p cs"
  define s1 where "s1 = upd_node p (\<lambda>x. x\<lparr>n_next := chains (tables s t) ! c\<rparr>) s"
  define s2 where "s2 = upd_table t (\<lambda>x. x\<lparr>chains := (chains x)[c := p], n_elements := u32 (n_elements x + 1)\<rparr>) s1"
  have h1: "heads s1 ((chains (tables s t))[c := p]) ?cs1"
    unfolding s1_def by (rule heads_push [OF P(3) p(1,3) ne c_def])
  have m1: "mset (concat ?cs1) = add_mset p (mset (concat cs))" by (rule mset_push [OF ne])
  have l1: "length (concat ?cs1) = length (concat cs) + 1" "set (concat ?cs1) = insert p (set (concat cs))"
    using arg_cong [OF m1, of size] set_push [OF ne] by simp_all
  have k1: "key_of s1 q = key_of s q" "key_of s2 q = key_of s q" for q by (simp_all add: s1_def s2_def)
  have "ht s2 t ?cs1"
    unfolding ht_def
  proof (intro conjI)
    show "n_chains (tables s2 t) \<in> set primes" "length ?cs1 = n_chains (tables s2 t)"
      using P(1,2) by (simp_all add: s2_def s1_def)
    show "heads s2 (chains (tables s2 t)) ?cs1"
      using h1 by (simp add: s2_def s1_def heads_def)
    show "hashed s2 ?cs1"
      using hashed_push [OF P(4), of p] hashed_cong [of s2 s] k1 by blast
    show "\<forall>q\<in>set (concat ?cs1). q < 2 ^ 64" unfolding l1 using P(5) p(2) by blast
    show "n_elements (tables s2 t) = length (concat ?cs1)" "length (concat ?cs1) < 2 ^ 32"
      unfolding l1 using P(6) room by (simp_all add: s2_def s1_def)
  qed
  note h2 = this
  have o2: "only_links t (insert p (set (concat cs))) s s2"
    by (simp add: only_links_def s2_def s1_def)
  have steps: "HT_add_node t p s = bind_res (if n_elements (tables s2 t) > n_chains (tables s2 t)
      then resize t s2 else Inr s2) (\<lambda>s3. Inr (upd_table t (\<lambda>x. x\<lparr>iterOK := False\<rparr>) s3))"
    unfolding HT_add_node_def Let_def cn ht_read(1) [OF h c] s1_def [symmetric] bind_res_simps
    using c P(10) by (simp add: write_chain_def s2_def s1_def upd_table_def o_def)
  have keep: "ht (upd_table t (\<lambda>x. x\<lparr>iterOK := False\<rparr>) r) t bs = ht r t bs" for r bs
    by (rule ht_cong) simp_all
  have olast: "only_links t {} r (upd_table t (\<lambda>x. x\<lparr>iterOK := False\<rparr>) r)" for r
    by (simp add: only_links_def)
  show ?thesis
  proof (cases "n_elements (tables s2 t) > n_chains (tables s2 t)")
    case False
    then show ?thesis
      using steps h2 m1 keep only_links_trans [OF o2 olast [of s2] subset_refl] by auto
  next
    case True
    from resize_spec [OF h2] obtain s3 where r: "resize t s2 = Inr s3" "ht s3 t (grown (key_of s2) ?cs1)"
      "mset (concat (grown (key_of s2) ?cs1)) = mset (concat ?cs1)"
      "only_links t (set (concat ?cs1)) s2 s3" by blast
    have "only_links t (insert p (set (concat cs))) s s3"
      by (rule only_links_trans [OF o2 r(4)]) (simp_all add: l1 del: set_concat)
    from only_links_trans [OF this olast [of s3] subset_refl] show ?thesis
      using steps True r m1 keep by auto
  qed
qed

section \<open>Removing\<close>

text \<open>The link to the node behind the nodes \<open>as\<close> of a chain that the link \<open>l\<close> heads.\<close>

definition link_before :: "vg_link \<Rightarrow> nat list \<Rightarrow> vg_link" where
  "link_before l as = (if as = [] then l else In_node (last as))"

lemma remove_loop_chain:
  assumes "chain (nnext s) q ps 0" and "length ps \<le> fuel"
  shows "remove_loop fuel t k l q s =
    (case find (\<lambda>q. key_of s q = k) ps of None \<Rightarrow> Inr (0, s)
     | Some r \<Rightarrow>
        bind_res (write_link t (link_before l (takeWhile (\<lambda>q. key_of s q \<noteq> k) ps)) (nnext s r) s) (\<lambda>s1.
        Inr (r, upd_table t (\<lambda>x. x\<lparr>n_elements := u32 (n_elements x + 2 ^ 32 - 1)\<rparr>) s1)))"
  using assms
proof (induction ps arbitrary: q fuel l)
  case Nil
  then show ?case by (simp add: remove_loop.simps)
next
  case (Cons p ps)
  then have c: "chain (nnext s) (nnext s q) ps 0" "q \<noteq> 0" "p = q" "fuel \<noteq> 0" "length ps \<le> fuel - 1"
    by auto
  show ?case
  proof (cases "key_of s q = k")
    case True
    with c show ?thesis by (subst remove_loop.simps) (simp add: link_before_def)
  next
    case False
    then have "link_before (In_node q) (takeWhile (\<lambda>q. key_of s q \<noteq> k) ps)
        = link_before l (takeWhile (\<lambda>q. key_of s q \<noteq> k) (p # ps))"
      using c(3) by (simp add: link_before_def)
    with False c Cons.IH [OF c(1,5), of "In_node q"] show ?thesis
      by (subst remove_loop.simps) (simp split: option.split)
  qed
qed

lemma find_split:
  assumes "find Q ps = Some r"
  obtains as bs where "ps = as @ r # bs" and "takeWhile (\<lambda>x. \<not> Q x) ps = as" and "Q r"
proof -
  have "ps = takeWhile (\<lambda>x. \<not> Q x) ps @ dropWhile (\<lambda>x. \<not> Q x) ps" by simp
  moreover have "\<exists>bs. dropWhile (\<lambda>x. \<not> Q x) ps = r # bs" and "Q r"
    using assms by (induction ps) (auto split: if_splits)
  ultimately show thesis by (metis that)
qed

lemma mset_concat_remove:
  "i < length bs \<Longrightarrow> bs ! i = as @ x # cs \<Longrightarrow>
   mset (concat bs) = add_mset x (mset (concat (bs[i := as @ cs])))"
proof (induction bs arbitrary: i)
  case (Cons b bs)
  then show ?case by (cases i) auto
qed simp

text \<open>Cutting a node out of its chain, by the link before it.\<close>

lemma cut_node:
  assumes h: "heads s (chains (tables s t)) cs" and i: "i < length cs" and split: "cs ! i = as @ r # bs"
    and k: "hashed s cs"
  shows "\<exists>s1. write_link t (link_before (In_chain i) as) (nnext s r) s = Inr s1
    \<and> heads s1 (chains (tables s1 t)) (cs[i := as @ bs]) \<and> only_links t (set (concat cs)) s s1
    \<and> n_chains (tables s1 t) = n_chains (tables s t) \<and> n_elements (tables s1 t) = n_elements (tables s t)"
proof (cases as rule: rev_cases)
  case Nil
  let ?s1 = "upd_table t (\<lambda>x. x\<lparr>chains := (chains x)[i := nnext s r]\<rparr>) s"
  have "heads ?s1 (chains (tables ?s1 t)) (cs[i := as @ bs])"
  proof (rule headsI)
    show "length (chains (tables ?s1 t)) = length (cs[i := as @ bs])" using heads_nth(1) [OF h] by simp
    show "chain (nnext ?s1) (chains (tables ?s1 t) ! j) (cs[i := as @ bs] ! j) 0"
      if "j < length (cs[i := as @ bs])" for j
      using heads_nth(2) [OF h, of j] heads_nth(1) [OF h] that Nil split
      by (cases "j = i") auto
  qed
  then show ?thesis using Nil i heads_nth(1) [OF h] by (simp add: write_chain_def only_links_def link_before_def)
next
  case (snoc as' q)
  let ?s1 = "upd_node q (\<lambda>x. x\<lparr>n_next := nnext s r\<rparr>) s"
  have ci: "chain (nnext s) (chains (tables s t) ! i) (as' @ q # r # bs) 0"
    using heads_nth(2) [OF h i] split snoc by simp
  then have di: "distinct (as' @ q # r # bs)" by (rule chain_null_distinct)
  have q: "q \<in> set (concat cs)" using i split snoc unfolding in_concat_nth by auto
  have other: "q \<notin> set (cs ! j)" if "j < length cs" "j \<noteq> i" for j
  proof
    assume "q \<in> set (cs ! j)"
    moreover have "q \<in> set (cs ! i)" using split snoc by simp
    ultimately show False using k i that unfolding hashed_def by metis
  qed
  have nn: "nnext ?s1 = (nnext s)(q := nnext s r)" by (simp add: fun_eq_iff)
  have "heads ?s1 (chains (tables ?s1 t)) (cs[i := as @ bs])"
  proof (rule headsI)
    show "length (chains (tables ?s1 t)) = length (cs[i := as @ bs])" using heads_nth(1) [OF h] by simp
    show "chain (nnext ?s1) (chains (tables ?s1 t) ! j) (cs[i := as @ bs] ! j) 0"
      if "j < length (cs[i := as @ bs])" for j
    proof (cases "j = i")
      case True
      have "chain ((nnext s)(q := nnext s r)) (chains (tables s t) ! i) (as' @ [q] @ bs) 0"
        using ci di by (auto simp: chain_append)
      then show ?thesis unfolding nn using True i snoc by simp
    next
      case False
      with that have "chain ((nnext s)(q := nnext s r)) (chains (tables s t) ! j) (cs ! j) 0"
        using heads_nth(2) [OF h, of j] other [of j] by simp
      then show ?thesis unfolding nn using False by simp
    qed
  qed
  then show ?thesis using snoc q by (simp add: only_links_def link_before_def del: set_concat)
qed

lemma HT_remove_spec:
  assumes h: "ht s t cs"
  shows "\<exists>r s' cs'. HT_remove t k s = Inr (r, s') \<and> ht s' t cs' \<and> only_links t (set (concat cs)) s s'
    \<and> (r = 0 \<and> (\<forall>p\<in>set (concat cs). key_of s p \<noteq> k) \<and> cs' = cs
       \<or> r \<in> set (concat cs) \<and> key_of s r = k \<and> HT_lookup t k s = Inr r
         \<and> mset (concat cs) = add_mset r (mset (concat cs')))"
proof -
  note P = ht_parts [OF h]
  define i where "i = k mod length cs"
  have i: "i < length cs" using ht_chain_no [OF h] P(2) by (simp add: i_def)
  have cn: "CHAIN_NO k t s = i" by (simp add: CHAIN_NO_def i_def P(2))
  define s0 where "s0 = upd_table t (\<lambda>x. x\<lparr>iterOK := False\<rparr>) s"
  have h0: "ht s0 t cs" using h ht_cong [of s0 s] by (simp add: s0_def)
  have o0: "only_links t {} s s0" by (simp add: s0_def only_links_def)
  have k0: "key_of s0 q = key_of s q" "nnext s0 q = nnext s q" for q by (simp_all add: s0_def)
  have r0: "HT_remove t k s = remove_loop list_fuel t k (In_chain i) (chains (tables s t) ! i) s0"
    by (simp add: HT_remove_def Let_def cn ht_read(1) [OF h i] s0_def)
  have c0: "chain (nnext s0) (chains (tables s t) ! i) (cs ! i) 0"
    using ht_read(2) [OF h i] by (simp add: s0_def)
  note loop = remove_loop_chain [OF c0 ht_fuel [OF h i], of t k "In_chain i"]
  have lk: "HT_lookup t k s = Inr (case find (\<lambda>q. key_of s q = k) (cs ! i) of None \<Rightarrow> 0 | Some q \<Rightarrow> q)"
    unfolding i_def by (rule HT_lookup_find [OF h])
  show ?thesis
  proof (cases "find (\<lambda>q. key_of s q = k) (cs ! i)")
    case None
    then have "\<forall>p\<in>set (concat cs). key_of s p \<noteq> k"
      using key_in_chain [OF h] unfolding i_def by (fastforce simp: find_None_iff)
    moreover have "HT_remove t k s = Inr (0, s0)" using r0 loop None k0 by simp
    ultimately show ?thesis using h0 only_links_mono [OF o0] by blast
  next
    case (Some r)
    obtain as bs where sp: "cs ! i = as @ r # bs" "takeWhile (\<lambda>q. key_of s q \<noteq> k) (cs ! i) = as"
      "key_of s r = k" using find_split [OF Some] by blast
    from cut_node [OF ht_parts(3) [OF h0] i sp(1) ht_parts(4) [OF h0]] obtain s1 where
      w: "write_link t (link_before (In_chain i) as) (nnext s0 r) s0 = Inr s1"
        "heads s1 (chains (tables s1 t)) (cs[i := as @ bs])" "only_links t (set (concat cs)) s0 s1"
        "n_chains (tables s1 t) = n_chains (tables s0 t)"
        "n_elements (tables s1 t) = n_elements (tables s0 t)" by blast
    define s2 where "s2 = upd_table t (\<lambda>x. x\<lparr>n_elements := u32 (n_elements x + 2 ^ 32 - 1)\<rparr>) s1"
    let ?cs' = "cs[i := as @ bs]"
    have m: "mset (concat cs) = add_mset r (mset (concat ?cs'))" by (rule mset_concat_remove [OF i sp(1)])
    then have l: "length (concat cs) = length (concat ?cs') + 1" "set (concat ?cs') \<subseteq> set (concat cs)"
      "r \<in> set (concat cs)"
      using mset_add_facts [OF m] by (metis, metis subset_insertI, metis insertI1)
    have "u32 (n_elements (tables s0 t) + 2 ^ 32 - 1) = length (concat ?cs')"
      using ht_parts(6,7) [OF h0] l(1) by (simp add: u32_def)
    moreover have "hashed s ?cs'"
      using P(4) i sp(1) by (auto simp: hashed_def nth_list_update)
    then have "hashed s2 ?cs'"
      using hashed_cong [of s2 s] w(3) k0 by (simp add: s2_def only_links_def hashed_def)
    ultimately have h2: "ht s2 t ?cs'"
      using w P(1,2,5,7) l by (simp add: ht_def s2_def s0_def heads_def) blast
    have o2: "only_links t (set (concat cs)) s1 s2" by (simp add: s2_def only_links_def)
    have "only_links t (set (concat cs)) s s2"
      by (rule only_links_trans [OF o0 only_links_trans [OF w(3) o2 subset_refl subset_refl]]) simp_all
    moreover have "HT_remove t k s = Inr (r, s2)"
      using r0 loop Some sp(2) w(1) k0 by (simp add: s2_def)
    ultimately show ?thesis using h2 m l(3) sp(3) lk Some by auto
  qed
qed

section \<open>The array of the nodes\<close>

lemma array_chain_spec:
  "chain (nnext s) p ps 0 \<Longrightarrow> length ps \<le> fuel \<Longrightarrow> length arr + length ps \<le> n \<Longrightarrow>
   array_chain fuel n p arr s = Inr (arr @ ps)"
proof (induction ps arbitrary: p fuel arr)
  case (Cons q ps)
  then show ?case by (subst array_chain.simps) auto
qed (simp add: array_chain.simps)

lemma array_chains_spec:
  assumes h: "ht s t cs"
  shows "length arr + length (concat (drop i cs)) \<le> n \<Longrightarrow>
    array_chains i t n arr s = Inr (arr @ concat (drop i cs))"
proof (induction "length cs - i" arbitrary: i arr)
  case 0
  then show ?case using ht_parts(2) [OF h] by (subst array_chains.simps) simp
next
  case (Suc m)
  then have i: "i < length cs" by simp
  then have d: "drop i cs = cs ! i # drop (Suc i) cs" by (simp add: Cons_nth_drop_Suc)
  with Suc.prems have l: "length arr + length (cs ! i) \<le> n"
    "length (arr @ cs ! i) + length (concat (drop (Suc i) cs)) \<le> n" by simp_all
  have m: "m = length cs - Suc i" using Suc.hyps(2) by simp
  from Suc.hyps(1) [OF m l(2)] show ?case
    using i ht_read(1) [OF h i] array_chain_spec [OF ht_read(2) [OF h i] ht_fuel [OF h i] l(1)]
      ht_parts(2) [OF h] d
    by (subst array_chains.simps) simp
qed

lemma HT_to_array_spec:
  assumes h: "ht s t cs"
  shows "HT_to_array t s =
    Inr (if concat cs = [] then None else Some (concat cs), length (concat cs))"
  using array_chains_spec [OF h, of "[]" 0 "length (concat cs)"] ht_parts(6) [OF h]
  by (auto simp: HT_to_array_def Let_def)

section \<open>Construction, iteration and destruction\<close>

lemma HT_construct_spec:
  assumes "nm \<noteq> 0"
  shows "\<exists>s'. HT_construct t nm s = Inr (t, s') \<and> ht s' t (replicate 769 []) \<and> only_links t {} s s'"
proof -
  let ?x = "\<lparr>n_chains = 769, n_elements = 0, iterNode = 0, iterChain = 0, chains = replicate 769 0,
    iterOK = True, name = nm\<rparr>"
  let ?s' = "upd_table t (\<lambda>_. ?x) s"
  have n: "primes ! 0 = 769" "769 \<in> set primes" by (simp_all add: primes_def)
  then have "HT_construct t nm s = Inr (t, ?s')"
    using assms unfolding HT_construct_def n by (simp add: Let_def)
  moreover have "ht ?s' t (replicate 769 [])"
    unfolding ht_def using n heads_replicate [of ?s' 769] hashed_replicate [of ?s' 769] by simp
  moreover have "only_links t {} s ?s'" by (simp add: only_links_def)
  ultimately show ?thesis by blast
qed

text \<open>The nodes that an iteration has yet to visit.\<close>

definition iter_at :: "'a vg_heap_scheme \<Rightarrow> nat \<Rightarrow> nat list list \<Rightarrow> nat list \<Rightarrow> bool" where
  "iter_at s t cs xs \<longleftrightarrow>
     (let x = tables s t in
      iterOK x \<and> (iterNode x = 0 \<and> xs = concat (drop (iterChain x) cs)
        \<or> (\<exists>as bs. 0 < iterChain x \<and> iterChain x \<le> length cs
              \<and> cs ! (iterChain x - 1) = as @ iterNode x # bs
              \<and> xs = bs @ concat (drop (iterChain x) cs))))"

lemma HT_ResetIter_spec:
  assumes "ht s t cs" and "t \<noteq> 0"
  shows "\<exists>s'. HT_ResetIter t s = Inr s' \<and> ht s' t cs \<and> iter_at s' t cs (concat cs)
    \<and> only_links t {} s s'"
  using assms ht_cong [of "upd_table t (\<lambda>x. x\<lparr>iterNode := 0, iterChain := 0, iterOK := True\<rparr>) s" s t cs]
  by (simp add: HT_ResetIter_def iter_at_def only_links_def)

lemma next_chain_spec:
  assumes h: "ht s t cs"
  shows "concat (drop i cs) = [] \<Longrightarrow> next_chain i t s = Inr (0, s)"
    and "concat (drop i cs) = y # ys \<Longrightarrow> \<exists>j bs. next_chain i t s =
      Inr (y, upd_table t (\<lambda>x. x\<lparr>iterNode := y, iterChain := j\<rparr>) s) \<and> 0 < j \<and> j \<le> length cs
      \<and> cs ! (j - 1) = y # bs \<and> ys = bs @ concat (drop j cs)"
proof (induction "length cs - i" arbitrary: i)
  case 0
  {
    case 1
    then show ?case using 0 ht_parts(2) [OF h] by (subst next_chain.simps) simp
  next
    case 2
    then show ?case using 0 by simp
  }
next
  case (Suc n)
  then have i: "i < length cs" and n: "n = length cs - Suc i" by simp_all
  then have d: "drop i cs = cs ! i # drop (Suc i) cs" by (simp add: Cons_nth_drop_Suc)
  have lt: "i < n_chains (tables s t)" using i ht_parts(2) [OF h] by simp
  have empty: "cs ! i = [] \<Longrightarrow> next_chain i t s = next_chain (Suc i) t s"
    using ht_read [OF h i] lt by (subst next_chain.simps) simp
  {
    case 1
    then have "cs ! i = []" "concat (drop (Suc i) cs) = []" using d by simp_all
    with Suc.hyps(1) [OF n] empty show ?case by simp
  next
    case 2
    show ?case
    proof (cases "cs ! i")
      case Nil
      with 2 d have "concat (drop (Suc i) cs) = y # ys" by simp
      with Suc.hyps(2) [OF n] empty [OF Nil] show ?thesis by simp
    next
      case (Cons z zs)
      then have "z = y" "ys = zs @ concat (drop (Suc i) cs)" using 2 d by simp_all
      moreover have "chains (tables s t) ! i = z" "z \<noteq> 0" using ht_read(2) [OF h i] Cons by auto
      ultimately have "next_chain i t s =
          Inr (y, upd_table t (\<lambda>x. x\<lparr>iterNode := y, iterChain := Suc i\<rparr>) s)"
        using ht_read(1) [OF h i] lt by (subst next_chain.simps) simp
      with Cons i \<open>z = y\<close> \<open>ys = zs @ concat (drop (Suc i) cs)\<close> show ?thesis
        by (intro exI [of _ "Suc i"]) simp
    qed
  }
qed

lemma HT_Next_spec:
  assumes h: "ht s t cs" and t: "t \<noteq> 0" and at: "iter_at s t cs xs"
  shows "xs = [] \<Longrightarrow> HT_Next t s = Inr (0, s)"
    and "xs = y # ys \<Longrightarrow> \<exists>s'. HT_Next t s = Inr (y, s') \<and> ht s' t cs \<and> iter_at s' t cs ys
      \<and> only_links t {} s s'"
proof -
  let ?x = "tables s t"
  have ok: "iterOK ?x" using at by (simp add: iter_at_def Let_def)
  consider (start) "iterNode ?x = 0" "xs = concat (drop (iterChain ?x) cs)"
    | (inside) as bs where "0 < iterChain ?x" "iterChain ?x \<le> length cs"
        "cs ! (iterChain ?x - 1) = as @ iterNode ?x # bs" "xs = bs @ concat (drop (iterChain ?x) cs)"
    using at by (auto simp: iter_at_def Let_def)
  then have "(xs = concat (drop (iterChain ?x) cs) \<and> \<not> (iterNode ?x \<noteq> 0 \<and> nnext s (iterNode ?x) \<noteq> 0))
      \<or> (\<exists>as b bs. 0 < iterChain ?x \<and> iterChain ?x \<le> length cs
          \<and> cs ! (iterChain ?x - 1) = as @ iterNode ?x # b # bs
          \<and> xs = b # bs @ concat (drop (iterChain ?x) cs)
          \<and> iterNode ?x \<noteq> 0 \<and> nnext s (iterNode ?x) = b \<and> b \<noteq> 0)"
  proof cases
    case start
    then show ?thesis by simp
  next
    case (inside as bs)
    have i: "iterChain ?x - 1 < length cs" using inside(1,2) by simp
    have c: "chain (nnext s) (chains ?x ! (iterChain ?x - 1)) (as @ iterNode ?x # bs) 0"
      using ht_read(2) [OF h i] inside(3) by simp
    then have nz: "iterNode ?x \<noteq> 0" by (auto dest: chain_nonnull)
    show ?thesis
    proof (cases bs)
      case Nil
      with c have "nnext s (iterNode ?x) = 0" using chain_last by fastforce
      with Nil inside(4) show ?thesis by simp
    next
      case (Cons b bs')
      have "nnext s (iterNode ?x) = b" using c unfolding Cons by (rule chain_middle)
      moreover have "b \<noteq> 0" using chain_nonnull [OF c] Cons by simp
      ultimately show ?thesis using inside nz Cons by auto
    qed
  qed
  then show "xs = [] \<Longrightarrow> HT_Next t s = Inr (0, s)"
    and "xs = y # ys \<Longrightarrow> \<exists>s'. HT_Next t s = Inr (y, s') \<and> ht s' t cs \<and> iter_at s' t cs ys
      \<and> only_links t {} s s'"
  proof -
    assume r: "(xs = concat (drop (iterChain ?x) cs) \<and> \<not> (iterNode ?x \<noteq> 0 \<and> nnext s (iterNode ?x) \<noteq> 0))
      \<or> (\<exists>as b bs. 0 < iterChain ?x \<and> iterChain ?x \<le> length cs
          \<and> cs ! (iterChain ?x - 1) = as @ iterNode ?x # b # bs
          \<and> xs = b # bs @ concat (drop (iterChain ?x) cs)
          \<and> iterNode ?x \<noteq> 0 \<and> nnext s (iterNode ?x) = b \<and> b \<noteq> 0)"
    show "HT_Next t s = Inr (0, s)" if "xs = []"
      using r that next_chain_spec(1) [OF h, of "iterChain ?x"] t ok by (auto simp: HT_Next_def Let_def)
    show "\<exists>s'. HT_Next t s = Inr (y, s') \<and> ht s' t cs \<and> iter_at s' t cs ys \<and> only_links t {} s s'"
      if xs: "xs = y # ys"
      using r
    proof
      assume a: "xs = concat (drop (iterChain ?x) cs) \<and> \<not> (iterNode ?x \<noteq> 0 \<and> nnext s (iterNode ?x) \<noteq> 0)"
      with xs have "concat (drop (iterChain ?x) cs) = y # ys" by simp
      from next_chain_spec(2) [OF h this] obtain j bs where
        n: "next_chain (iterChain ?x) t s = Inr (y, upd_table t (\<lambda>x. x\<lparr>iterNode := y, iterChain := j\<rparr>) s)"
          "0 < j" "j \<le> length cs" "cs ! (j - 1) = y # bs" "ys = bs @ concat (drop j cs)" by (elim exE conjE) (rule that)
      let ?s' = "upd_table t (\<lambda>x. x\<lparr>iterNode := y, iterChain := j\<rparr>) s"
      have "HT_Next t s = Inr (y, ?s')" using conjunct2 [OF a] n(1) t ok by (auto simp: HT_Next_def Let_def)
      moreover have "ht ?s' t cs" using h ht_cong [of ?s' s] by simp
      moreover have "iter_at ?s' t cs ys" using n ok by (auto simp: iter_at_def)
      ultimately show ?thesis by (auto simp: only_links_def)
    next
      assume "\<exists>as b bs. 0 < iterChain ?x \<and> iterChain ?x \<le> length cs
          \<and> cs ! (iterChain ?x - 1) = as @ iterNode ?x # b # bs
          \<and> xs = b # bs @ concat (drop (iterChain ?x) cs)
          \<and> iterNode ?x \<noteq> 0 \<and> nnext s (iterNode ?x) = b \<and> b \<noteq> 0"
      then obtain as bs where a: "0 < iterChain ?x" "iterChain ?x \<le> length cs"
          "cs ! (iterChain ?x - 1) = (as @ [iterNode ?x]) @ y # bs" "ys = bs @ concat (drop (iterChain ?x) cs)"
          "iterNode ?x \<noteq> 0" "nnext s (iterNode ?x) = y" "y \<noteq> 0" using xs by auto
      let ?s' = "upd_table t (\<lambda>x. x\<lparr>iterNode := y\<rparr>) s"
      have "HT_Next t s = Inr (y, ?s')" using a(5-7) t ok by (simp add: HT_Next_def Let_def)
      moreover have "ht ?s' t cs" using h ht_cong [of ?s' s] by simp
      moreover have "\<exists>as' bs'. cs ! (iterChain ?x - 1) = as' @ y # bs'
          \<and> ys = bs' @ concat (drop (iterChain ?x) cs)" using a(3,4) by blast
      then have "iter_at ?s' t cs ys" using a(1,2) ok by (simp add: iter_at_def)
      ultimately show ?thesis by (auto simp: only_links_def)
    qed
  qed
qed

lemma destruct_chain_spec:
  assumes "\<And>p q r. q \<noteq> p \<Longrightarrow> nodes (f p r) q = nodes r q"
  shows "chain (nnext s) p ps 0 \<Longrightarrow> length ps \<le> fuel \<Longrightarrow> destruct_chain fuel f p s = Inr (fold f ps s)"
proof (induction ps arbitrary: p fuel s)
  case (Cons q ps)
  then have c: "chain (nnext s) (nnext s p) ps 0" "p \<noteq> 0" "q = p" "fuel \<noteq> 0" "length ps \<le> fuel - 1" by auto
  have "p \<notin> set ps" using chain_null_distinct [OF Cons.prems(1)] c(3) by simp
  then have "chain (nnext (f p s)) (nnext s p) ps 0"
    using c(1) by (subst chain_cong [of _ _ "nnext s"]) (metis assms, assumption)
  from Cons.IH [OF this c(5)] c show ?case by (subst destruct_chain.simps) (simp add: Let_def)
qed (simp add: destruct_chain.simps)

lemma destruct_chains_spec:
  assumes f: "\<And>p q r. q \<noteq> p \<Longrightarrow> nodes (f p r) q = nodes r q"
  shows "heads s arr cs \<Longrightarrow> (\<And>c. c \<in> set cs \<Longrightarrow> length c \<le> list_fuel) \<Longrightarrow> distinct (concat cs) \<Longrightarrow>
    destruct_chains arr f s = Inr (fold f (concat cs) s)"
proof (induction cs arbitrary: arr s)
  case Nil
  then show ?case by (simp add: heads_def)
next
  case (Cons c cs)
  obtain p ps where a: "arr = p # ps" "chain (nnext s) p c 0" "heads s ps cs"
    using Cons.prems(1) unfolding heads_Cons by blast
  have keep: "nodes (fold f xs r) q = nodes r q" if "q \<notin> set xs" for xs q r
    using that f by (induction xs arbitrary: r) auto
  have "heads (fold f c s) ps cs"
    using Cons.prems(3) by (intro heads_links_outside [OF a(3)] keep) auto
  with Cons.IH Cons.prems(2,3) have "destruct_chains ps f (fold f c s) = Inr (fold f (concat cs) (fold f c s))"
    by simp
  then show ?case using destruct_chain_spec [OF f a(2)] Cons.prems(2) a(1) by simp
qed

lemma HT_destruct_spec:
  assumes h: "ht s t cs" and f: "\<And>p q r. q \<noteq> p \<Longrightarrow> nodes (f p r) q = nodes r q"
  shows "HT_destruct t f s = Inr (fold f (concat cs) s)"
proof -
  have "length c \<le> list_fuel" if "c \<in> set cs" for c
    using ht_fuel [OF h] that by (metis in_set_conv_nth)
  with destruct_chains_spec [OF f ht_parts(3) [OF h] _ ht_parts(8) [OF h]] show ?thesis
    using ht_parts(2,10) [OF h] by (simp add: HT_destruct_def Let_def)
qed

section \<open>Nodes with the same key\<close>

lemma filter_concat_one:
  "i < length cs \<Longrightarrow> (\<And>j. j < length cs \<Longrightarrow> j \<noteq> i \<Longrightarrow> filter P (cs ! j) = []) \<Longrightarrow>
   filter P (concat cs) = filter P (cs ! i)"
proof (induction cs arbitrary: i)
  case (Cons c cs)
  show ?case
  proof (cases i)
    case 0
    have "filter P (cs ! j) = []" if "j < length cs" for j
      using Cons.prems(2) [of "Suc j"] that 0 by simp
    then have "\<forall>x\<in>set (concat cs). \<not> P x" unfolding Ball_def in_concat_nth by (auto simp: filter_empty_conv)
    with 0 show ?thesis by (simp add: filter_empty_conv)
  next
    case (Suc i')
    have "filter P (cs ! j) = []" if "j < length cs" "j \<noteq> i'" for j
      using Cons.prems(2) [of "Suc j"] that Suc by simp
    with Cons.IH [of i'] Cons.prems Suc show ?thesis using Cons.prems(2) [of 0] by simp
  qed
qed simp

lemma filter_key_chain:
  assumes "hashed s cs" and "cs \<noteq> []"
  shows "filter (\<lambda>p. key_of s p = k) (concat cs) = filter (\<lambda>p. key_of s p = k) (cs ! (k mod length cs))"
proof (rule filter_concat_one)
  show "k mod length cs < length cs" using assms(2) by simp
  show "filter (\<lambda>p. key_of s p = k) (cs ! j) = []" if "j < length cs" "j \<noteq> k mod length cs" for j
    using assms(1) that by (fastforce simp: hashed_def filter_empty_conv)
qed

lemma grown_same_key:
  assumes h: "ht s t cs" and n: "length cs \<noteq> primes ! (N_HASH_PRIMES - 1)"
  shows "filter (\<lambda>p. key_of s p = k) (grown (key_of s) cs ! (k mod length (grown (key_of s) cs)))
    = rev (filter (\<lambda>p. key_of s p = k) (cs ! (k mod length cs)))"
proof -
  have ne: "cs \<noteq> []" using primes_bounds [OF ht_parts(1) [OF h]] ht_parts(2) [OF h] by auto
  have pr: "length cs \<in> set primes" using ht_parts(1,2) [OF h] by simp
  define n' where "n' = next_prime primes (length cs + 1)"
  have n': "0 < n'" using next_prime_primes(2) [OF pr n] by (simp add: n'_def)
  have g: "grown (key_of s) cs = regroup (key_of s) (concat cs) (replicate n' [])"
    using n by (simp add: grown_def n'_def)
  have "grown (key_of s) cs ! (k mod n') = rev (filter (\<lambda>p. key_of s p mod n' = k mod n') (concat cs))"
    unfolding g using n' by (subst nth_regroup) simp_all
  then have "filter (\<lambda>p. key_of s p = k) (grown (key_of s) cs ! (k mod n'))
      = rev (filter (\<lambda>p. key_of s p = k) (filter (\<lambda>p. key_of s p mod n' = k mod n') (concat cs)))"
    by (simp add: rev_filter)
  also have "filter (\<lambda>p. key_of s p = k) (filter (\<lambda>p. key_of s p mod n' = k mod n') (concat cs))
      = filter (\<lambda>p. key_of s p = k) (concat cs)"
    by (simp only: filter_filter) (rule filter_cong, auto)
  also have "\<dots> = filter (\<lambda>p. key_of s p = k) (cs ! (k mod length cs))"
    by (rule filter_key_chain [OF ht_parts(4) [OF h] ne])
  finally show ?thesis unfolding g by simp
qed

end
