(* ===== verification/Mc_Queue.thy ===== *)
theory Mc_Queue
  imports Mc_Malloc Vg_Hash_Inv
begin

text \<open>
  The queues of freed blocks of \<open>mc_malloc_wrappers.c\<close>: their invariant, and what adding a block
  and releasing the oldest ones does to them.
\<close>

section \<open>Frames\<close>

text \<open>All that is neither a link, a queue, the log nor the counter of environment calls.\<close>

definition same_rest :: "mc_state \<Rightarrow> mc_state \<Rightarrow> bool" where
  "same_rest s s' \<longleftrightarrow>
     (\<forall>p. key_of s' p = key_of s p) \<and> mempool s' = mempool s
     \<and> malloc_list s' = malloc_list s \<and> mempool_list s' = mempool_list s
     \<and> cmalloc_n_mallocs s' = cmalloc_n_mallocs s \<and> cmalloc_n_frees s' = cmalloc_n_frees s
     \<and> cmalloc_bs_mallocd s' = cmalloc_bs_mallocd s \<and> g_memory_start s' = g_memory_start s
     \<and> g_memory_end s' = g_memory_end s \<and> pool_tick s' = pool_tick s"

lemma same_rest_refl [simp]: "same_rest s s"
  by (simp add: same_rest_def)

lemma same_rest_trans: "same_rest s s' \<Longrightarrow> same_rest s' s'' \<Longrightarrow> same_rest s s''"
  by (simp add: same_rest_def)

lemma more_fields:
  assumes "vg_heap.more s' = vg_heap.more (s :: mc_state)"
  shows "chunk s' = chunk s" "mempool s' = mempool s" "malloc_list s' = malloc_list s"
    "mempool_list s' = mempool_list s" "freed_list_start s' = freed_list_start s"
    "freed_list_end s' = freed_list_end s" "free_queue_volume s' = free_queue_volume s"
    "free_queue_length s' = free_queue_length s" "cmalloc_n_mallocs s' = cmalloc_n_mallocs s"
    "cmalloc_n_frees s' = cmalloc_n_frees s" "cmalloc_bs_mallocd s' = cmalloc_bs_mallocd s"
    "g_memory_start s' = g_memory_start s" "g_memory_end s' = g_memory_end s"
    "pool_tick s' = pool_tick s" "log s' = log s" "ticks s' = ticks s"
  using assms by (cases s; cases s'; simp)+

section \<open>The invariant of a queue\<close>

definition queue :: "mc_state \<Rightarrow> nat \<Rightarrow> nat list \<Rightarrow> bool" where
  "queue s i Q \<longleftrightarrow>
     chain (nnext s) (freed_list_start s i) Q 0 \<and> freed_list_end s i = (if Q = [] then 0 else last Q)"

definition volume_of :: "mc_state \<Rightarrow> nat list \<Rightarrow> int" where
  "volume_of s Q = (\<Sum>p\<leftarrow>Q. int (size_of s p))"

lemma volume_of_simps [simp]:
  "volume_of s [] = 0" "volume_of s (p # Q) = int (size_of s p) + volume_of s Q"
  "volume_of s (Q @ R) = volume_of s Q + volume_of s R"
  by (simp_all add: volume_of_def)

lemma volume_of_nonneg: "0 \<le> volume_of s Q"
  by (induction Q) auto

lemma volume_of_cong: "(\<And>p. p \<in> set Q \<Longrightarrow> size_of s' p = size_of s p) \<Longrightarrow> volume_of s' Q = volume_of s Q"
  by (induction Q) auto

lemma queue_start: "queue s i Q \<Longrightarrow> freed_list_start s i = 0 \<longleftrightarrow> Q = []"
  by (cases Q) (auto simp: queue_def)

lemma queueI:
  "nnext s = f \<Longrightarrow> chain f (freed_list_start s i) Q 0 \<Longrightarrow> Q \<noteq> [] \<Longrightarrow> freed_list_end s i = last Q \<Longrightarrow> queue s i Q"
  by (simp add: queue_def)

lemma queue_distinct: "queue s i Q \<Longrightarrow> distinct Q"
  unfolding queue_def by (blast dest: chain_null_distinct)

lemma queue_cong:
  assumes "queue s i Q" and "\<And>p. p \<in> set Q \<Longrightarrow> nodes s' p = nodes s p"
    and "freed_list_start s' i = freed_list_start s i" and "freed_list_end s' i = freed_list_end s i"
  shows "queue s' i Q"
proof -
  have "chain (nnext s') (freed_list_start s i) Q 0 = chain (nnext s) (freed_list_start s i) Q 0"
    using assms(2) by (intro chain_cong) simp
  with assms show ?thesis by (simp add: queue_def)
qed

section \<open>Adding\<close>

definition enqueue :: "mc_env \<Rightarrow> nat \<Rightarrow> nat \<Rightarrow> nat list \<Rightarrow> nat list" where
  "enqueue env n mc Q = (if Q \<noteq> [] \<and> int n \<ge> clo_freelist_vol env then mc # Q else Q @ [mc])"

lemma set_enqueue [simp]: "set (enqueue env n mc Q) = insert mc (set Q)"
  by (auto simp: enqueue_def)

lemma mset_enqueue [simp]: "mset (enqueue env n mc Q) = add_mset mc (mset Q)"
  by (auto simp: enqueue_def)

lemma volume_enqueue: "volume_of s (enqueue env n mc Q) = int (size_of s mc) + volume_of s Q"
  by (simp add: enqueue_def)

definition queue_index :: "mc_env \<Rightarrow> nat \<Rightarrow> nat" where
  "queue_index env n = (if int n \<ge> clo_freelist_big_blocks env then 0 else 1)"

text \<open>Changes of the links of \<open>N\<close> and of the queues only.\<close>

definition queue_frame :: "nat set \<Rightarrow> mc_state \<Rightarrow> mc_state \<Rightarrow> bool" where
  "queue_frame N s s' \<longleftrightarrow>
     same_rest s s' \<and> tables s' = tables s \<and> chunk s' = chunk s \<and> ticks s' = ticks s
     \<and> (\<forall>p. p \<notin> N \<longrightarrow> nodes s' p = nodes s p)"

lemma add_to_freed_queue_spec:
  assumes q: "queue s i Q" and i: "i = queue_index env (size_of s mc)" and mc: "mc \<noteq> 0" "mc \<notin> set Q"
  shows "\<exists>s'. add_to_freed_queue env mc s = Inr s' \<and> queue s' i (enqueue env (size_of s mc) mc Q)
    \<and> free_queue_volume s' = free_queue_volume s + int (size_of s mc) \<and> log s' = log s
    \<and> queue_frame (insert mc (set Q)) s s'
    \<and> (\<forall>j. j \<noteq> i \<longrightarrow> freed_list_start s' j = freed_list_start s j \<and> freed_list_end s' j = freed_list_end s j)"
proof -
  have l: "(if int (size_of s mc) \<ge> clo_freelist_big_blocks env then 0 else 1) = i"
    by (simp add: i queue_index_def)
  let ?new = "\<lambda>s1. s1\<lparr>free_queue_volume := free_queue_volume s1 + int (size_of s1 mc),
                       free_queue_length := free_queue_length s1 + 1\<rparr>"
  show ?thesis
  proof (cases Q rule: rev_cases)
    case Nil
    then have z: "freed_list_start s i = 0" "freed_list_end s i = 0" using q by (simp_all add: queue_def)
    let ?s1 = "(set_next mc 0 s)\<lparr>freed_list_end := (freed_list_end s)(i := mc),
                       freed_list_start := (freed_list_start s)(i := mc)\<rparr>"
    have "add_to_freed_queue env mc s = Inr (?new ?s1)"
      unfolding add_to_freed_queue_def Let_def l using z by simp
    moreover have "queue (?new ?s1) i (enqueue env (size_of s mc) mc Q)"
      using Nil mc by (simp add: queue_def enqueue_def)
    moreover have "queue_frame (insert mc (set Q)) s (?new ?s1)"
      by (simp add: queue_frame_def same_rest_def upd_node_def)
    ultimately show ?thesis by (intro exI [of _ "?new ?s1"]) (simp add: upd_node_def)
  next
    case (snoc Q' e)
    have c: "chain (nnext s) (freed_list_start s i) (Q' @ [e]) 0" and e: "freed_list_end s i = e" "e \<noteq> 0"
      using q snoc chain_nonnull by (fastforce simp: queue_def)+
    have d: "e \<notin> set Q'" using chain_null_distinct [OF c] by simp
    have z: "nnext s (freed_list_end s i) = 0" using chain_last [OF c] e by simp
    show ?thesis
    proof (cases "int (size_of s mc) \<ge> clo_freelist_vol env")
      case True
      let ?s1 = "(set_next mc (freed_list_start s i) s)\<lparr>freed_list_start := (freed_list_start s)(i := mc)\<rparr>"
      have "add_to_freed_queue env mc s = Inr (?new ?s1)"
        unfolding add_to_freed_queue_def Let_def l using z e True by simp
      moreover have "nnext (?new ?s1) = (nnext s)(mc := freed_list_start s i)"
        by (simp add: upd_node_def fun_eq_iff)
      then have "queue (?new ?s1) i (enqueue env (size_of s mc) mc Q)"
        using True snoc e mc c by (intro queueI [of "?new ?s1"]) (auto simp: enqueue_def upd_node_def)
      moreover have "queue_frame (insert mc (set Q)) s (?new ?s1)"
        by (simp add: queue_frame_def same_rest_def upd_node_def)
      ultimately show ?thesis by (intro exI [of _ "?new ?s1"]) (simp add: upd_node_def)
    next
      case False
      let ?s1 = "(set_next (freed_list_end s i) mc (set_next mc 0 s))\<lparr>freed_list_end := (freed_list_end s)(i := mc)\<rparr>"
      have step: "add_to_freed_queue env mc s = Inr (?new ?s1)"
        unfolding add_to_freed_queue_def Let_def l using z e False by simp
      moreover have "chain ((nnext s)(mc := 0, e := mc)) (freed_list_start s i) (Q' @ [e] @ [mc]) 0"
        using c snoc mc d by (auto simp: chain_append)
      moreover have "nnext (?new ?s1) = (nnext s)(mc := 0, e := mc)"
        using e by (simp add: upd_node_def fun_eq_iff)
      ultimately have "queue (?new ?s1) i (enqueue env (size_of s mc) mc Q)"
        using False snoc by (intro queueI [of "?new ?s1"]) (auto simp: enqueue_def upd_node_def)
      moreover have "queue_frame (insert mc (set Q)) s (?new ?s1)"
        using snoc e by (simp add: queue_frame_def same_rest_def upd_node_def)
      ultimately show ?thesis using step by (intro exI [of _ "?new ?s1"]) (simp add: upd_node_def)
    qed
  qed
qed

section \<open>Releasing\<close>

definition free_calls :: "mc_state \<Rightarrow> nat \<Rightarrow> mc_call list" where
  "free_calls s mc =
     (if allockind (chunk s mc) \<noteq> MC_AllocCustom then [Cli_free (data_of s mc)] else []) @ [Elt_free mc]"

text \<open>The part of a queue that is released: from its start while the volume exceeds the limit.\<close>

fun released_part :: "int \<Rightarrow> int \<Rightarrow> mc_state \<Rightarrow> nat list \<Rightarrow> nat list" where
  "released_part limit volume s [] = []"
| "released_part limit volume s (p # Q) =
     (if volume > limit then p # released_part limit (volume - int (size_of s p)) s Q else [])"

lemma released_part_prefix: "\<exists>Q'. Q = released_part limit volume s Q @ Q'"
  by (induction Q arbitrary: volume) auto

lemma released_part_cong:
  "(\<And>p. p \<in> set Q \<Longrightarrow> size_of s' p = size_of s p) \<Longrightarrow>
   released_part limit volume s' Q = released_part limit volume s Q"
  by (induction Q arbitrary: volume) auto

lemma released_part_enough:
  "released_part limit volume s Q = Q \<or> volume - volume_of s (released_part limit volume s Q) \<le> limit"
proof (induction Q arbitrary: volume)
  case (Cons q Q)
  from Cons.IH [of "volume - int (size_of s q)"] show ?case by auto
qed simp

lemma released_part_minimal:
  "released_part limit volume s Q = R @ [p] \<Longrightarrow> volume - volume_of s R > limit"
proof (induction Q arbitrary: volume R)
  case (Cons q Q)
  show ?case
  proof (cases R)
    case Nil
    with Cons.prems show ?thesis by (auto split: if_splits)
  next
    case (Cons r R')
    with Cons.prems Cons.IH [of "volume - int (size_of s q)" R'] show ?thesis by (auto split: if_splits)
  qed
qed simp

definition unreleased :: "int \<Rightarrow> int \<Rightarrow> mc_state \<Rightarrow> nat list \<Rightarrow> nat list" where
  "unreleased limit volume s Q = drop (length (released_part limit volume s Q)) Q"

lemma released_unreleased: "released_part limit volume s Q @ unreleased limit volume s Q = Q"
  unfolding unreleased_def using released_part_prefix [of Q limit volume s]
  by (metis append_eq_conv_conj)

lemma release_list_spec:
  assumes "queue s i Q" and "length Q \<le> fuel" and "volume_of s Q \<le> free_queue_volume s"
  shows "\<exists>s'. release_list env fuel i s = Inr s'
    \<and> queue s' i (unreleased (clo_freelist_vol env) (free_queue_volume s) s Q)
    \<and> log s' = log s @ concat (map (free_calls s) (released_part (clo_freelist_vol env) (free_queue_volume s) s Q))
    \<and> free_queue_volume s' = free_queue_volume s
        - volume_of s (released_part (clo_freelist_vol env) (free_queue_volume s) s Q)
    \<and> queue_frame (set Q) s s'
    \<and> (\<forall>j. j \<noteq> i \<longrightarrow> freed_list_start s' j = freed_list_start s j \<and> freed_list_end s' j = freed_list_end s j)"
  using assms
proof (induction Q arbitrary: s fuel)
  case Nil
  then have "freed_list_start s i = 0" by (simp add: queue_start)
  with Nil show ?case
    by (subst release_list.simps) (simp add: unreleased_def queue_frame_def)
next
  case (Cons p Q)
  let ?lim = "clo_freelist_vol env" and ?v = "free_queue_volume s"
  have c: "freed_list_start s i = p" "p \<noteq> 0" "chain (nnext s) (nnext s p) Q 0"
    and e: "freed_list_end s i = last (p # Q)"
    using Cons.prems(1) by (auto simp: queue_def)
  have d: "p \<notin> set Q" using queue_distinct [OF Cons.prems(1)] by simp
  show ?case
  proof (cases "?v > ?lim")
    case False
    then show ?thesis using Cons.prems(1)
      by (subst release_list.simps) (simp add: unreleased_def queue_frame_def)
  next
    case True
    define s1 where "s1 = s\<lparr>free_queue_volume := ?v - int (size_of s p),
        free_queue_length := free_queue_length s - 1\<rparr>"
    define s2 where "s2 = (if freed_list_start s1 i = freed_list_end s1 i
        then s1\<lparr>freed_list_start := (freed_list_start s1)(i := 0),
                freed_list_end := (freed_list_end s1)(i := 0)\<rparr>
        else s1\<lparr>freed_list_start := (freed_list_start s1)(i := nnext s1 p)\<rparr>)"
    define s3 where "s3 = set_next p 0 s2"
    define s4 where "s4 = (if allockind (chunk s3 p) \<noteq> MC_AllocCustom
        then call (Cli_free (data_of s3 p)) s3 else s3)"
    define s5 where "s5 = delete_MC_Chunk p s4"
    note defs = s5_def s4_def s3_def s2_def s1_def delete_MC_Chunk_def call_def
    have end_last: "last (p # Q) \<noteq> 0"
      using chain_nonnull [of "nnext s" p "p # Q" 0] Cons.prems(1) by (auto simp: queue_def)
    have one: "p = last (p # Q) \<longleftrightarrow> Q = []" using d by (cases Q rule: rev_cases) auto
    have fields: "free_queue_volume s5 = ?v - int (size_of s p)" "chunk s5 = chunk s"
      "log s5 = log s @ free_calls s p" "queue_frame {p} s s5"
      "freed_list_start s5 j = (if j = i then (if Q = [] then 0 else nnext s p) else freed_list_start s j)"
      "freed_list_end s5 j = (if j = i \<and> Q = [] then 0 else freed_list_end s j)" for j
      using c(1) e one by (auto simp: defs free_calls_def queue_frame_def same_rest_def upd_node_def)
    have "chain (nnext s5) (nnext s p) Q 0 = chain (nnext s) (nnext s p) Q 0"
      using d fields(4) by (intro chain_cong) (auto simp: queue_frame_def)
    then have q5: "queue s5 i Q" using c(3) e fields(5,6) by (auto simp: queue_def)
    have v5: "volume_of s5 Q = volume_of s Q" by (rule volume_of_cong) (simp add: fields(2))
    have f: "fuel \<noteq> 0" "length Q \<le> fuel - 1" using Cons.prems(2) by auto
    have nn: "\<not> free_queue_volume s1 < 0"
      using Cons.prems(3) volume_of_nonneg [of s Q] by (simp add: s1_def)
    have step: "release_list env fuel i s = release_list env (fuel - 1) i s5"
      using True c(2) f(1) e end_last nn
      by (subst release_list.simps, unfold Let_def c(1), fold s1_def, fold s2_def, fold s3_def,
        fold s4_def, fold s5_def) simp
    have p5: "released_part ?lim (free_queue_volume s5) s5 Q = released_part ?lim (?v - int (size_of s p)) s Q"
      unfolding fields(1) by (rule released_part_cong) (simp add: fields(2))
    have u5: "unreleased ?lim (free_queue_volume s5) s5 Q = unreleased ?lim ?v s (p # Q)"
      using True by (simp add: unreleased_def p5)
    have calls5: "free_calls s5 q = free_calls s q" for q
      using fields(2,4) by (simp add: free_calls_def queue_frame_def same_rest_def)
    have pre: "volume_of s5 Q \<le> free_queue_volume s5" using Cons.prems(3) v5 fields(1) by simp
    from Cons.IH [OF q5 f(2) pre] obtain s' where
      r: "release_list env (fuel - 1) i s5 = Inr s'"
        "queue s' i (unreleased ?lim ?v s (p # Q))"
        "log s' = log s5 @ concat (map (free_calls s5) (released_part ?lim (?v - int (size_of s p)) s Q))"
        "free_queue_volume s' = free_queue_volume s5 - volume_of s5 (released_part ?lim (?v - int (size_of s p)) s Q)"
        "queue_frame (set Q) s5 s'"
        "\<forall>j. j \<noteq> i \<longrightarrow> freed_list_start s' j = freed_list_start s5 j \<and> freed_list_end s' j = freed_list_end s5 j"
      unfolding u5 p5 by blast
    have "volume_of s5 R = volume_of s R" for R by (rule volume_of_cong) (simp add: fields(2))
    then have "free_queue_volume s' = ?v - volume_of s (released_part ?lim ?v s (p # Q))"
      using r(4) fields(1) True by simp
    moreover have "log s' = log s @ concat (map (free_calls s) (released_part ?lim ?v s (p # Q)))"
      using r(3) fields(3) True calls5 by (simp cong: map_cong)
    moreover have "queue_frame (set (p # Q)) s s'"
      using fields(4) r(5) same_rest_trans by (auto simp: queue_frame_def)
    ultimately show ?thesis using step r(1,2,6) fields(5,6) by simp
  qed
qed

text \<open>Both queues: the one of big blocks first, and the other only once that is empty.\<close>

lemma release_oldest_block_spec:
  assumes q: "queue s 0 Q0" "queue s 1 Q1" and d: "distinct (Q0 @ Q1)" "\<forall>p\<in>set (Q0 @ Q1). p < 2 ^ 64"
    and v: "free_queue_volume s = volume_of s (Q0 @ Q1)" and lim: "0 \<le> clo_freelist_vol env"
    and over: "free_queue_volume s > clo_freelist_vol env"
  shows "\<exists>s' R0 Q0' R1 Q1'. release_oldest_block env s = Inr s' \<and> Q0 = R0 @ Q0' \<and> Q1 = R1 @ Q1'
    \<and> queue s' 0 Q0' \<and> queue s' 1 Q1' \<and> free_queue_volume s' = volume_of s' (Q0' @ Q1')
    \<and> free_queue_volume s' \<le> clo_freelist_vol env \<and> R0 @ R1 \<noteq> []
    \<and> free_queue_volume s' + int (size_of s (last (R0 @ R1))) > clo_freelist_vol env
    \<and> (R1 \<noteq> [] \<longrightarrow> Q0' = []) \<and> log s' = log s @ concat (map (free_calls s) (R0 @ R1))
    \<and> queue_frame (set (Q0 @ Q1)) s s'"
proof -
  let ?lim = "clo_freelist_vol env" and ?v = "free_queue_volume s"
  have nz: "0 < p" if "p \<in> set (Q0 @ Q1)" for p
    using that q chain_nonnull unfolding queue_def by fastforce
  have "length (Q0 @ Q1) < 2 ^ 64"
    using d nz by (intro distinct_bounded_length) auto
  then have len: "length Q0 \<le> list_fuel" "length Q1 \<le> list_fuel" by (simp_all add: list_fuel_def)
  define R0 where "R0 = released_part ?lim ?v s Q0"
  define Q0' where "Q0' = unreleased ?lim ?v s Q0"
  have s0: "Q0 = R0 @ Q0'" by (simp add: R0_def Q0'_def released_unreleased)
  have "volume_of s Q0 \<le> ?v" using v volume_of_nonneg [of s Q1] by simp
  from release_list_spec [OF q(1) len(1) this, of env] obtain s1 where
    a: "release_list env list_fuel 0 s = Inr s1" "queue s1 0 Q0'"
      "log s1 = log s @ concat (map (free_calls s) R0)" "free_queue_volume s1 = ?v - volume_of s R0"
      "queue_frame (set Q0) s s1"
      "freed_list_start s1 1 = freed_list_start s 1" "freed_list_end s1 1 = freed_list_end s 1"
    unfolding R0_def Q0'_def by auto
  have ch1: "chunk s1 = chunk s" using a(5) by (simp add: queue_frame_def)
  have vo1: "volume_of s1 R = volume_of s R" for R by (rule volume_of_cong) (simp add: ch1)
  have q1: "queue s1 1 Q1"
    by (rule queue_cong [OF q(2) _ a(6,7)]) (use a(5) d(1) in \<open>auto simp: queue_frame_def\<close>)
  let ?v1 = "free_queue_volume s1"
  define R1 where "R1 = released_part ?lim ?v1 s1 Q1"
  define Q1' where "Q1' = unreleased ?lim ?v1 s1 Q1"
  have s1: "Q1 = R1 @ Q1'" by (simp add: R1_def Q1'_def released_unreleased)
  have v1: "?v1 = volume_of s Q0' + volume_of s Q1" using a(4) v s0 by simp
  then have "volume_of s1 Q1 \<le> ?v1" using volume_of_nonneg [of s Q0'] vo1 by simp
  from release_list_spec [OF q1 len(2) this, of env] obtain s2 where
    b: "release_list env list_fuel 1 s1 = Inr s2" "queue s2 1 Q1'"
      "log s2 = log s1 @ concat (map (free_calls s1) R1)" "free_queue_volume s2 = ?v1 - volume_of s1 R1"
      "queue_frame (set Q1) s1 s2"
      "freed_list_start s2 0 = freed_list_start s1 0" "freed_list_end s2 0 = freed_list_end s1 0"
    unfolding R1_def Q1'_def by auto
  have q02: "queue s2 0 Q0'"
    by (rule queue_cong [OF a(2) _ b(6,7)]) (use b(5) d(1) s0 in \<open>auto simp: queue_frame_def\<close>)
  have ch2: "chunk s2 = chunk s" using b(5) ch1 by (simp add: queue_frame_def)
  have vo2: "volume_of s2 R = volume_of s R" for R by (rule volume_of_cong) (simp add: ch2)
  have "queue_frame (set Q0 \<union> set Q1) s s2"
    using a(5) b(5) same_rest_trans by (auto simp: queue_frame_def)
  then have fr: "queue_frame (set (Q0 @ Q1)) s s2" by simp
  have calls1: "free_calls s1 p = free_calls s p" for p
    using a(5) by (simp add: free_calls_def queue_frame_def same_rest_def)
  have lg: "log s2 = log s @ concat (map (free_calls s) (R0 @ R1))"
    using a(3) b(3) calls1 by (simp cong: map_cong)
  have v2: "free_queue_volume s2 = volume_of s Q0' + volume_of s Q1'"
    using b(4) v1 s1 vo1 by simp
  have e0: "Q0' = [] \<or> ?v1 \<le> ?lim"
    using released_part_enough [of ?lim ?v s Q0, folded R0_def] a(4) append_self_conv [of R0 Q0']
    unfolding s0 by metis
  have R1: "R1 = []" if "Q0' \<noteq> []" using e0 that unfolding R1_def by (cases Q1) auto
  have e1: "Q1' = [] \<or> free_queue_volume s2 \<le> ?lim"
    using released_part_enough [of ?lim ?v1 s1 Q1, folded R1_def] b(4) append_self_conv [of R1 Q1']
    unfolding s1 by metis
  have le: "free_queue_volume s2 \<le> ?lim"
  proof (cases "Q0' = []")
    case True
    then show ?thesis using e1 v2 lim by (cases "Q1' = []") auto
  next
    case False
    then show ?thesis using e0 R1 b(4) by simp
  qed
  have min: "R0 @ R1 \<noteq> [] \<and> free_queue_volume s2 + int (size_of s (last (R0 @ R1))) > ?lim"
  proof (cases R1 rule: rev_cases)
    case (snoc R p)
    from released_part_minimal [of ?lim ?v1 s1 Q1 R p] snoc have "?v1 - volume_of s1 R > ?lim"
      by (simp add: R1_def)
    then show ?thesis using snoc b(4) by (simp add: vo1 ch1)
  next
    case Nil
    have ne: "R0 \<noteq> []"
    proof
      assume "R0 = []"
      with Nil have "free_queue_volume s2 = ?v" using a(4) b(4) by simp
      with le over show False by simp
    qed
    then obtain R p where R: "R0 = R @ [p]" by (cases R0 rule: rev_cases) auto
    from released_part_minimal [of ?lim ?v s Q0 R p] R have "?v - volume_of s R > ?lim"
      by (simp add: R0_def)
    then show ?thesis using Nil R a(4) b(4) by simp
  qed
  have "Q0 \<noteq> [] \<or> Q1 \<noteq> []" using over v lim by auto
  then have run: "release_oldest_block env s = Inr s2"
    using over a(1) b(1) queue_start [OF q(1)] queue_start [OF q(2)] by (auto simp: release_oldest_block_def)
  have vol2: "free_queue_volume s2 = volume_of s2 (Q0' @ Q1')" using v2 by (simp add: vo2)
  have empty: "R1 \<noteq> [] \<longrightarrow> Q0' = []" using R1 by blast
  show ?thesis
    by (rule exI [of _ s2], rule exI [of _ R0], rule exI [of _ Q0'], rule exI [of _ R1],
        rule exI [of _ Q1'], intro conjI)
      (rule run s0 s1 q02 b(2) vol2 le conjunct1 [OF min] conjunct2 [OF min] empty lg fr)+
qed

end
