(* ===== verification/Mc_Inv.thy ===== *)
theory Mc_Inv
  imports Mc_Queue
begin

text \<open>
  The invariant of the wrappers' state, the blocks that the trace of the project tells of, and what
  allocation, release and reallocation do to both.
\<close>

section \<open>Invariant and environment\<close>

definition mc_inv :: "mc_state \<Rightarrow> nat list list \<Rightarrow> nat list \<Rightarrow> nat list \<Rightarrow> bool" where
  "mc_inv s cs Q0 Q1 \<longleftrightarrow>
     ht s (malloc_list s) cs \<and> queue s 0 Q0 \<and> queue s 1 Q1 \<and> distinct (concat cs @ Q0 @ Q1)
     \<and> (\<forall>p\<in>set (Q0 @ Q1). p < 2 ^ 64) \<and> free_queue_volume s = volume_of s (Q0 @ Q1)"

text \<open>
  What the code asserts of the options and of the other parts of Valgrind: the options are in
  their ranges, a context is found and known, and the pool's memory is hidden from the client.
\<close>

definition env_ok :: "mc_env \<Rightarrow> bool" where
  "env_ok env \<longleftrightarrow>
     0 \<le> clo_freelist_vol env
     \<and> -1 \<le> clo_malloc_fill env \<and> clo_malloc_fill env \<le> 255
     \<and> -1 \<le> clo_free_fill env \<and> clo_free_fill env \<le> 255
     \<and> (\<forall>k tid. record_ExeContext env k tid \<noteq> 0) \<and> (\<forall>ec. is_plausible_ECU env (get_ECU env ec))
     \<and> (\<forall>k mc. check_mem_is_noaccess env k mc)"

text \<open>The pool's answer to the \<open>k\<close>-th question is an unused address.\<close>

definition new_elt :: "mc_env \<Rightarrow> nat \<Rightarrow> nat set \<Rightarrow> bool" where
  "new_elt env k used \<longleftrightarrow> 0 < allocEltPA env k \<and> allocEltPA env k < 2 ^ 64 \<and> allocEltPA env k \<notin> used"

section \<open>The trace\<close>

fun replay_call :: "mc_call \<Rightarrow> (nat \<rightharpoonup> nat) \<Rightarrow> (nat \<rightharpoonup> nat)" where
  "replay_call (Print_N p n) m = m(p \<mapsto> n)"
| "replay_call (Print_F p n) m = m(p := None)"
| "replay_call c m = m"

text \<open>The blocks in use as a reader of the trace sees them.\<close>

definition traced :: "mc_state \<Rightarrow> (nat \<rightharpoonup> nat)" where
  "traced s = fold replay_call (log s) Map.empty"

lemma traced_append: "log s' = log s @ cs \<Longrightarrow> traced s' = fold replay_call cs (traced s)"
  by (simp add: traced_def)

lemma call_sel [simp]:
  "nodes (call c s) = nodes s" "tables (call c s) = tables s" "chunk (call c s) = chunk s"
  "mempool (call c s) = mempool s" "malloc_list (call c s) = malloc_list s"
  "mempool_list (call c s) = mempool_list s"
  "freed_list_start (call c s) = freed_list_start s" "freed_list_end (call c s) = freed_list_end s"
  "free_queue_volume (call c s) = free_queue_volume s" "free_queue_length (call c s) = free_queue_length s"
  "cmalloc_n_mallocs (call c s) = cmalloc_n_mallocs s" "cmalloc_n_frees (call c s) = cmalloc_n_frees s"
  "cmalloc_bs_mallocd (call c s) = cmalloc_bs_mallocd s" "g_memory_start (call c s) = g_memory_start s"
  "g_memory_end (call c s) = g_memory_end s" "pool_tick (call c s) = pool_tick s" "ticks (call c s) = ticks s"
  "log (call c s) = log s @ [c]" "traced (call c s) = replay_call c (traced s)"
  by (simp_all add: call_def traced_def)

lemma free_calls_quiet: "fold replay_call (concat (map (free_calls s) R)) m = m"
  by (induction R) (auto simp: free_calls_def)

lemma fill_spec:
  assumes "-1 \<le> c" and "c \<le> 255"
  shows "\<exists>s'. fill c p n s = Inr s' \<and> (s' = s \<or> s' = call (Vg_memset p c n) s)"
  using assms by (auto simp: fill_def)

section \<open>Frames\<close>

lemma mc_inv_parts:
  assumes "mc_inv s cs Q0 Q1"
  shows "ht s (malloc_list s) cs" and "queue s 0 Q0" and "queue s 1 Q1"
    and "distinct (concat cs @ Q0 @ Q1)" and "\<And>p. p \<in> set (Q0 @ Q1) \<Longrightarrow> p < 2 ^ 64"
    and "free_queue_volume s = volume_of s (Q0 @ Q1)"
  using assms unfolding mc_inv_def by blast+

lemma ht_frame:
  assumes "ht s t cs" and "tables s' t = tables s t" and "\<And>p. p \<in> set (concat cs) \<Longrightarrow> nodes s' p = nodes s p"
  shows "ht s' t cs"
proof -
  have "heads s' (chains (tables s' t)) cs"
    unfolding assms(2) by (rule heads_links_outside [OF ht_parts(3) [OF assms(1)] assms(3)])
  moreover have "hashed s' cs"
    using ht_parts(4) [OF assms(1)] assms(3) unfolding hashed_def in_concat_nth by metis
  ultimately show ?thesis using assms(1,2) by (simp add: ht_def)
qed

text \<open>What an operation may change elsewhere without touching the invariant.\<close>

lemma mc_inv_frame:
  assumes i: "mc_inv s cs Q0 Q1" and m: "malloc_list s' = malloc_list s" "tables s' (malloc_list s) = tables s (malloc_list s)"
    and n: "\<And>p. p \<in> set (concat cs @ Q0 @ Q1) \<Longrightarrow> nodes s' p = nodes s p"
    and f: "freed_list_start s' = freed_list_start s" "freed_list_end s' = freed_list_end s"
      "free_queue_volume s' = free_queue_volume s"
    and c: "\<And>p. p \<in> set (Q0 @ Q1) \<Longrightarrow> size_of s' p = size_of s p"
  shows "mc_inv s' cs Q0 Q1"
proof -
  note P = mc_inv_parts [OF i]
  have "ht s' (malloc_list s') cs" unfolding m(1) using P(1) m(2) n by (intro ht_frame [OF P(1)]) auto
  moreover have "queue s' 0 Q0" using n f by (intro queue_cong [OF P(2)]) auto
  moreover have "queue s' 1 Q1" using n f by (intro queue_cong [OF P(3)]) auto
  moreover have "volume_of s' (Q0 @ Q1) = volume_of s (Q0 @ Q1)" by (rule volume_of_cong [OF c])
  ultimately show ?thesis using i f(3) by (simp add: mc_inv_def)
qed

lemma mc_inv_call [simp]: "mc_inv (call c s) cs Q0 Q1 \<longleftrightarrow> mc_inv s cs Q0 Q1"
  by (auto intro: mc_inv_frame)

section \<open>Releasing the oldest blocks\<close>

lemma release_oldest_block_inv:
  assumes i: "mc_inv s cs Q0 Q1" and env: "env_ok env" and over: "free_queue_volume s > clo_freelist_vol env"
  shows "\<exists>s' R0 Q0' R1 Q1'. release_oldest_block env s = Inr s' \<and> mc_inv s' cs Q0' Q1'
    \<and> Q0 = R0 @ Q0' \<and> Q1 = R1 @ Q1' \<and> free_queue_volume s' \<le> clo_freelist_vol env \<and> R0 @ R1 \<noteq> []
    \<and> free_queue_volume s' + int (size_of s (last (R0 @ R1))) > clo_freelist_vol env
    \<and> (R1 \<noteq> [] \<longrightarrow> Q0' = []) \<and> log s' = log s @ concat (map (free_calls s) (R0 @ R1))
    \<and> queue_frame (set (Q0 @ Q1)) s s' \<and> traced s' = traced s"
proof -
  note P = mc_inv_parts [OF i]
  have d: "distinct (Q0 @ Q1)" "\<forall>p\<in>set (Q0 @ Q1). p < 2 ^ 64" using P(4,5) by auto
  have lim: "0 \<le> clo_freelist_vol env" using env by (simp add: env_ok_def)
  from release_oldest_block_spec [OF P(2,3) d P(6) lim over] obtain s' R0 Q0' R1 Q1' where
    r: "release_oldest_block env s = Inr s'" "Q0 = R0 @ Q0'" "Q1 = R1 @ Q1'" "queue s' 0 Q0'" "queue s' 1 Q1'"
      "free_queue_volume s' = volume_of s' (Q0' @ Q1')" "free_queue_volume s' \<le> clo_freelist_vol env"
      "R0 @ R1 \<noteq> []" "free_queue_volume s' + int (size_of s (last (R0 @ R1))) > clo_freelist_vol env"
      "R1 \<noteq> [] \<longrightarrow> Q0' = []"
      "log s' = log s @ concat (map (free_calls s) (R0 @ R1))" "queue_frame (set (Q0 @ Q1)) s s'"
    by (elim exE conjE) (rule that)
  have ml: "malloc_list s' = malloc_list s" using r(12) by (simp add: queue_frame_def same_rest_def)
  have "ht s' (malloc_list s') cs"
    unfolding ml using r(12) P(4) by (intro ht_frame [OF P(1)]) (auto simp: queue_frame_def)
  then have "mc_inv s' cs Q0' Q1'" using r(2-6) P(4,5) by (auto simp: mc_inv_def)
  moreover have "traced s' = traced s" using traced_append [OF r(11)] by (simp only: free_calls_quiet)
  ultimately show ?thesis
    by (intro exI [of _ s'] exI [of _ R0] exI [of _ Q0'] exI [of _ R1] exI [of _ Q1'] conjI) (rule r | assumption)+
qed

section \<open>A new chunk\<close>

lemma create_MC_Chunk_spec:
  assumes i: "mc_inv s cs Q0 Q1" and env: "env_ok env"
    and a: "a = allocEltPA env (ticks s)" "new_elt env (ticks s) (set (concat cs @ Q0 @ Q1))"
  shows "\<exists>s' Q0' Q1'. create_MC_Chunk env ec p n kind s = Inr (a, s') \<and> mc_inv s' cs Q0' Q1'
    \<and> set Q0' \<subseteq> set Q0 \<and> set Q1' \<subseteq> set Q1
    \<and> chunk s' = (chunk s)(a := \<lparr>szB = u62 n, allockind = kind, where_ec = ec\<rparr>)
    \<and> (\<forall>q. key_of s' q = (if q = a then p else key_of s q)) \<and> traced s' = traced s
    \<and> malloc_list s' = malloc_list s \<and> tables s' = tables s \<and> mempool s' = mempool s
    \<and> mempool_list s' = mempool_list s \<and> g_memory_start s' = g_memory_start s
    \<and> g_memory_end s' = g_memory_end s \<and> pool_tick s' = pool_tick s \<and> ticks s' = ticks s + 2
    \<and> free_queue_volume s' \<le> clo_freelist_vol env"
proof -
  note P = mc_inv_parts [OF i]
  have a': "0 < a" "a < 2 ^ 64" "a \<notin> set (concat cs @ Q0 @ Q1)" using a by (simp_all add: new_elt_def)
  define s2 where "s2 = upd_chunk_info a (\<lambda>_. \<lparr>szB = u62 n, allockind = kind, where_ec = ec\<rparr>)
    (upd_node a (\<lambda>x. x\<lparr>n_key := p\<rparr>) (s\<lparr>ticks := ticks s + 1\<rparr>))"
  have f2: "nodes s2 = (nodes s)(a := (nodes s a)\<lparr>n_key := p\<rparr>)" "tables s2 = tables s"
    "chunk s2 = (chunk s)(a := \<lparr>szB = u62 n, allockind = kind, where_ec = ec\<rparr>)"
    "malloc_list s2 = malloc_list s" "mempool s2 = mempool s" "mempool_list s2 = mempool_list s"
    "g_memory_start s2 = g_memory_start s" "g_memory_end s2 = g_memory_end s" "pool_tick s2 = pool_tick s" "ticks s2 = ticks s + 1"
    "freed_list_start s2 = freed_list_start s" "freed_list_end s2 = freed_list_end s"
    "free_queue_volume s2 = free_queue_volume s" "log s2 = log s"
    by (simp_all add: s2_def upd_chunk_info_def upd_node_def)
  have i2: "mc_inv s2 cs Q0 Q1"
    using a'(3) f2 by (intro mc_inv_frame [OF i]) auto
  define rel where "rel = (if free_queue_volume s2 > clo_freelist_vol env
    then release_oldest_block env s2 else Inr s2)"
  have "\<exists>s3 Q0' Q1'. rel = Inr s3 \<and> mc_inv s3 cs Q0' Q1' \<and> set Q0' \<subseteq> set Q0 \<and> set Q1' \<subseteq> set Q1
    \<and> chunk s3 = chunk s2 \<and> same_rest s2 s3 \<and> tables s3 = tables s2 \<and> ticks s3 = ticks s2
    \<and> traced s3 = traced s2 \<and> free_queue_volume s3 \<le> clo_freelist_vol env"
  proof (cases "free_queue_volume s2 > clo_freelist_vol env")
    case False
    then show ?thesis using i2 by (auto simp: rel_def)
  next
    case True
    from release_oldest_block_inv [OF i2 env True] obtain s3 R0 Q0' R1 Q1' where
      r: "release_oldest_block env s2 = Inr s3" "mc_inv s3 cs Q0' Q1'" "Q0 = R0 @ Q0'" "Q1 = R1 @ Q1'"
        "free_queue_volume s3 \<le> clo_freelist_vol env" "queue_frame (set (Q0 @ Q1)) s2 s3" "traced s3 = traced s2"
      by (elim exE conjE) (rule that)
    then show ?thesis
      using True by (intro exI [of _ s3] exI [of _ Q0'] exI [of _ Q1'])
        (auto simp: rel_def queue_frame_def r(3,4))
  qed
  then obtain s3 Q0' Q1' where r: "rel = Inr s3" "mc_inv s3 cs Q0' Q1'" "set Q0' \<subseteq> set Q0" "set Q1' \<subseteq> set Q1"
    "chunk s3 = chunk s2" "same_rest s2 s3" "tables s3 = tables s2" "ticks s3 = ticks s2"
    "traced s3 = traced s2" "free_queue_volume s3 \<le> clo_freelist_vol env" by blast
  let ?s4 = "s3\<lparr>ticks := ticks s3 + 1\<rparr>"
  have "create_MC_Chunk env ec p n kind s = Inr (a, ?s4)"
    using r(1) env unfolding create_MC_Chunk_def ask_def Let_def prod.case a(1) [symmetric]
      s2_def [symmetric] rel_def [symmetric]
    by (simp add: env_ok_def)
  moreover have "mc_inv ?s4 cs Q0' Q1'" by (rule mc_inv_frame [OF r(2)]) simp_all
  moreover have "traced ?s4 = traced s" using r(9) f2(14) by (simp add: traced_def)
  ultimately show ?thesis
    using r(3-8,10) f2 by (intro exI [of _ ?s4] exI [of _ Q0'] exI [of _ Q1']) (auto simp: same_rest_def)
qed

end
