(* ===== verification/Mc_Ops.thy ===== *)
theory Mc_Ops
  imports Mc_Inv
begin

text \<open>
  The steps that the wrappers share, under the invariant: a chunk enters the table, leaves it, or
  goes to the queues of freed blocks.
\<close>

section \<open>The table\<close>

lemma only_links_more:
  assumes "only_links t N s (s' :: mc_state)"
  shows "chunk s' = chunk s" "malloc_list s' = malloc_list s" "mempool s' = mempool s"
    "mempool_list s' = mempool_list s" "freed_list_start s' = freed_list_start s"
    "freed_list_end s' = freed_list_end s" "free_queue_volume s' = free_queue_volume s"
    "cmalloc_n_mallocs s' = cmalloc_n_mallocs s" "cmalloc_n_frees s' = cmalloc_n_frees s"
    "cmalloc_bs_mallocd s' = cmalloc_bs_mallocd s" "g_memory_start s' = g_memory_start s"
    "g_memory_end s' = g_memory_end s" "pool_tick s' = pool_tick s" "log s' = log s"
    "ticks s' = ticks s" "traced s' = traced s"
  using more_fields [of s' s] assms by (simp_all add: only_links_def traced_def)

lemma mc_inv_table:
  assumes i: "mc_inv s cs Q0 Q1" and h: "ht s' (malloc_list s) cs'" and d: "distinct (concat cs' @ Q0 @ Q1)"
    and l: "only_links (malloc_list s) N s s'" "N \<inter> set (Q0 @ Q1) = {}"
  shows "mc_inv s' cs' Q0 Q1"
proof -
  note P = mc_inv_parts [OF i] and M = only_links_more [OF l(1)]
  have n: "nodes s' p = nodes s p" if "p \<in> set (Q0 @ Q1)" for p
    using l that unfolding only_links_def by blast
  have "queue s' 0 Q0" by (rule queue_cong [OF P(2) n]) (simp_all add: M)
  moreover have "queue s' 1 Q1" by (rule queue_cong [OF P(3) n]) (simp_all add: M)
  moreover have "volume_of s' (Q0 @ Q1) = volume_of s (Q0 @ Q1)" by (rule volume_of_cong) (simp add: M)
  ultimately show ?thesis using h d P(5,6) M(2,7) by (simp add: mc_inv_def)
qed

lemma mc_inv_add:
  assumes i: "mc_inv s cs Q0 Q1" and a: "a \<noteq> 0" "a < 2 ^ 64" "a \<notin> set (concat cs @ Q0 @ Q1)"
    and room: "length (concat cs) + 1 < 2 ^ 32"
  shows "\<exists>s' cs'. HT_add_node (malloc_list s) a s = Inr s' \<and> mc_inv s' cs' Q0 Q1
    \<and> mset (concat cs') = add_mset a (mset (concat cs))
    \<and> only_links (malloc_list s) (insert a (set (concat cs))) s s'"
proof -
  note P = mc_inv_parts [OF i]
  have a': "a \<notin> set (concat cs)" using a(3) by simp
  from HT_add_node_spec [OF P(1) a(1,2) a' room] obtain s' cs' where
    r: "HT_add_node (malloc_list s) a s = Inr s'" "ht s' (malloc_list s) cs'"
      "mset (concat cs') = add_mset a (mset (concat cs))"
      "only_links (malloc_list s) (insert a (set (concat cs))) s s'" by blast
  have "mset (concat cs' @ Q0 @ Q1) = mset (a # concat cs @ Q0 @ Q1)" using r(3) by simp
  then have d: "distinct (concat cs' @ Q0 @ Q1)"
    using P(4) a(3) by (metis mset_eq_imp_distinct_iff distinct.simps(2))
  have "insert a (set (concat cs)) \<inter> set (Q0 @ Q1) = {}" using P(4) a(3) by auto
  from mc_inv_table [OF i r(2) d r(4) this] r show ?thesis by blast
qed

lemma mc_inv_remove:
  assumes i: "mc_inv s cs Q0 Q1"
  shows "\<exists>r s' cs'. HT_remove (malloc_list s) k s = Inr (r, s') \<and> mc_inv s' cs' Q0 Q1
    \<and> only_links (malloc_list s) (set (concat cs)) s s'
    \<and> (r = 0 \<and> (\<forall>p\<in>set (concat cs). key_of s p \<noteq> k) \<and> cs' = cs
       \<or> r \<noteq> 0 \<and> r < 2 ^ 64 \<and> key_of s r = k \<and> r \<notin> set (concat cs' @ Q0 @ Q1)
         \<and> mset (concat cs) = add_mset r (mset (concat cs')))"
proof -
  note P = mc_inv_parts [OF i]
  from HT_remove_spec [OF P(1), of k] obtain r s' cs' where
    r: "HT_remove (malloc_list s) k s = Inr (r, s')" "ht s' (malloc_list s) cs'"
      "only_links (malloc_list s) (set (concat cs)) s s'" and
    c: "r = 0 \<and> (\<forall>p\<in>set (concat cs). key_of s p \<noteq> k) \<and> cs' = cs
       \<or> r \<in> set (concat cs) \<and> key_of s r = k \<and> HT_lookup (malloc_list s) k s = Inr r
         \<and> mset (concat cs) = add_mset r (mset (concat cs'))" by blast
  have x: "set (concat cs) \<inter> set (Q0 @ Q1) = {}" using P(4) by auto
  from c show ?thesis
  proof
    assume n: "r = 0 \<and> (\<forall>p\<in>set (concat cs). key_of s p \<noteq> k) \<and> cs' = cs"
    then have "distinct (concat cs' @ Q0 @ Q1)" using P(4) by simp
    from mc_inv_table [OF i r(2) this r(3) x] r n show ?thesis by blast
  next
    assume n: "r \<in> set (concat cs) \<and> key_of s r = k \<and> HT_lookup (malloc_list s) k s = Inr r
         \<and> mset (concat cs) = add_mset r (mset (concat cs'))"
    then have "mset (concat cs @ Q0 @ Q1) = mset (r # concat cs' @ Q0 @ Q1)" by simp
    then have d: "distinct (r # concat cs' @ Q0 @ Q1)" using P(4) by (metis mset_eq_imp_distinct_iff)
    then have d': "distinct (concat cs' @ Q0 @ Q1)" by simp
    from mc_inv_table [OF i r(2) d' r(3) x] have "mc_inv s' cs' Q0 Q1" .
    moreover have "r \<noteq> 0" "r < 2 ^ 64" using ht_parts(5,9) [OF P(1)] n by blast+
    ultimately show ?thesis using r n d by auto
  qed
qed

section \<open>The queues\<close>

lemma upd_chunk_info_sel [simp]:
  "chunk (upd_chunk_info mc f s) = (chunk s)(mc := f (chunk s mc))"
  "nodes (upd_chunk_info mc f s) = nodes s" "tables (upd_chunk_info mc f s) = tables s"
  "traced (upd_chunk_info mc f s) = traced s" "log (upd_chunk_info mc f s) = log s"
  by (simp_all add: upd_chunk_info_def traced_def)

text \<open>What an operation on the queues or on chunks out of the table leaves alone.\<close>

definition off_table :: "mc_state \<Rightarrow> mc_state \<Rightarrow> bool" where
  "off_table s s' \<longleftrightarrow>
     tables s' = tables s \<and> (\<forall>p. key_of s' p = key_of s p) \<and> (\<forall>p. size_of s' p = size_of s p)
     \<and> (\<forall>p. allockind (chunk s' p) = allockind (chunk s p))
     \<and> malloc_list s' = malloc_list s \<and> mempool s' = mempool s \<and> mempool_list s' = mempool_list s
     \<and> traced s' = traced s \<and> pool_tick s' = pool_tick s"

lemma off_table_trans: "off_table s s' \<Longrightarrow> off_table s' s'' \<Longrightarrow> off_table s s''"
  by (simp add: off_table_def)

lemma volume_of_mset: "mset Q = mset R \<Longrightarrow> volume_of s Q = volume_of s R"
  unfolding volume_of_def by (metis mset_map sum_mset_sum_list)

lemma mc_inv_enqueue:
  assumes i: "mc_inv s cs Q0 Q1" and a: "a \<noteq> 0" "a < 2 ^ 64" "a \<notin> set (concat cs @ Q0 @ Q1)"
  shows "\<exists>s' Q0' Q1'. add_to_freed_queue env a s = Inr s' \<and> mc_inv s' cs Q0' Q1'
    \<and> mset (Q0' @ Q1') = add_mset a (mset (Q0 @ Q1)) \<and> off_table s s' \<and> ticks s' = ticks s
    \<and> chunk s' = chunk s \<and> (\<forall>p. p \<notin> insert a (set (Q0 @ Q1)) \<longrightarrow> nodes s' p = nodes s p)"
proof -
  note P = mc_inv_parts [OF i]
  have fin: "mc_inv s' cs Q0' Q1'" and off: "off_table s s' \<and> ticks s' = ticks s \<and> chunk s' = chunk s
      \<and> (\<forall>p. p \<notin> insert a (set (Q0 @ Q1)) \<longrightarrow> nodes s' p = nodes s p)"
    if q: "queue s' 0 Q0'" "queue s' 1 Q1'" and m: "mset (Q0' @ Q1') = add_mset a (mset (Q0 @ Q1))"
      and f: "queue_frame N s s'" "N \<subseteq> insert a (set (Q0 @ Q1))" and l: "log s' = log s"
      and v: "free_queue_volume s' = free_queue_volume s + int (size_of s a)" for s' Q0' Q1' N
  proof -
    have ml: "malloc_list s' = malloc_list s" using f by (simp add: queue_frame_def same_rest_def)
    have out: "nodes s' p = nodes s p" if "p \<in> set (concat cs)" for p
    proof -
      have "p \<notin> insert a (set (Q0 @ Q1))" using that P(4) a(3) by (auto simp del: set_concat)
      then have "p \<notin> N" using f(2) by blast
      then show ?thesis using f(1) by (simp add: queue_frame_def)
    qed
    have h: "ht s' (malloc_list s') cs"
      unfolding ml by (rule ht_frame [OF P(1) _ out]) (use f in \<open>simp add: queue_frame_def\<close>)
    have "mset (concat cs @ Q0' @ Q1') = mset (a # concat cs @ Q0 @ Q1)" using m by simp
    then have d: "distinct (concat cs @ Q0' @ Q1')"
      using P(4) a(3) by (metis mset_eq_imp_distinct_iff distinct.simps(2))
    have "volume_of s (Q0' @ Q1') = volume_of s (a # Q0 @ Q1)" by (rule volume_of_mset) (use m in simp)
    moreover have "volume_of s' (Q0' @ Q1') = volume_of s (Q0' @ Q1')"
      by (rule volume_of_cong) (use f in \<open>simp add: queue_frame_def\<close>)
    ultimately have "free_queue_volume s' = volume_of s' (Q0' @ Q1')" using v P(6) by simp
    moreover have "\<forall>p\<in>set (Q0' @ Q1'). p < 2 ^ 64"
      using mset_add_facts(2) [OF m] P(5) a(2) by (metis insertE)
    ultimately show "mc_inv s' cs Q0' Q1'" using h q d by (simp add: mc_inv_def)
    show "off_table s s' \<and> ticks s' = ticks s \<and> chunk s' = chunk s
      \<and> (\<forall>p. p \<notin> insert a (set (Q0 @ Q1)) \<longrightarrow> nodes s' p = nodes s p)"
      using f l by (auto simp: queue_frame_def same_rest_def off_table_def traced_def)
  qed
  have a0: "a \<notin> set Q0" "a \<notin> set Q1" using a(3) by auto
  have x: "p \<notin> set Q0 \<or> p \<notin> set Q1" for p using P(4) by auto
  define i where "i = queue_index env (size_of s a)"
  show ?thesis
  proof (cases "i = 0")
    case True
    from add_to_freed_queue_spec [OF P(2) True [unfolded i_def, symmetric] a(1) a0(1)] obtain s' where
      r: "add_to_freed_queue env a s = Inr s'" "queue s' 0 (enqueue env (size_of s a) a Q0)"
        "free_queue_volume s' = free_queue_volume s + int (size_of s a)" "log s' = log s"
        "queue_frame (insert a (set Q0)) s s'"
        "freed_list_start s' 1 = freed_list_start s 1" "freed_list_end s' 1 = freed_list_end s 1" by auto
    have "nodes s' p = nodes s p" if "p \<in> set Q1" for p
    proof -
      have "p \<notin> insert a (set Q0)" using that a0 x [of p] by blast
      with r(5) show ?thesis by (simp add: queue_frame_def)
    qed
    then have q: "queue s' 1 Q1" by (rule queue_cong [OF P(3) _ r(6,7)])
    have m: "mset (enqueue env (size_of s a) a Q0 @ Q1) = add_mset a (mset (Q0 @ Q1))" by simp
    have N: "insert a (set Q0) \<subseteq> insert a (set (Q0 @ Q1))" by auto
    show ?thesis
      using r(1) m fin [OF r(2) q m r(5) N r(4,3)] off [OF r(2) q m r(5) N r(4,3)] by blast
  next
    case False
    then have i1: "1 = queue_index env (size_of s a)" by (simp add: i_def queue_index_def split: if_splits)
    from add_to_freed_queue_spec [OF P(3) i1 a(1) a0(2)] obtain s' where
      r: "add_to_freed_queue env a s = Inr s'" "queue s' 1 (enqueue env (size_of s a) a Q1)"
        "free_queue_volume s' = free_queue_volume s + int (size_of s a)" "log s' = log s"
        "queue_frame (insert a (set Q1)) s s'"
        "freed_list_start s' 0 = freed_list_start s 0" "freed_list_end s' 0 = freed_list_end s 0" by auto
    have "nodes s' p = nodes s p" if "p \<in> set Q0" for p
    proof -
      have "p \<notin> insert a (set Q1)" using that a0 x [of p] by blast
      with r(5) show ?thesis by (simp add: queue_frame_def)
    qed
    then have q: "queue s' 0 Q0" by (rule queue_cong [OF P(2) _ r(6,7)])
    have m: "mset (Q0 @ enqueue env (size_of s a) a Q1) = add_mset a (mset (Q0 @ Q1))" by simp
    have N: "insert a (set Q1) \<subseteq> insert a (set (Q0 @ Q1))" by auto
    show ?thesis
      using r(1) m fin [OF q r(2) m r(5) N r(4,3)] off [OF q r(2) m r(5) N r(4,3)] by blast
  qed
qed

lemma die_and_free_mem_spec:
  assumes i: "mc_inv s cs Q0 Q1" and env: "env_ok env"
    and a: "a \<noteq> 0" "a < 2 ^ 64" "a \<notin> set (concat cs @ Q0 @ Q1)"
  shows "\<exists>s' Q0' Q1'. die_and_free_mem env tid a rz s = Inr s' \<and> mc_inv s' cs Q0' Q1'
    \<and> mset (Q0' @ Q1') = add_mset a (mset (Q0 @ Q1)) \<and> off_table s s' \<and> ticks s' = ticks s + 1
    \<and> (\<forall>p. p \<noteq> a \<longrightarrow> chunk s' p = chunk s p)
    \<and> (\<forall>p. p \<notin> insert a (set (Q0 @ Q1)) \<longrightarrow> nodes s' p = nodes s p)"
proof -
  define fl where "fl = (if allockind (chunk s a) \<noteq> MC_AllocCustom
    then fill (clo_free_fill env) (data_of s a) (size_of s a) s else Inr s)"
  have "\<exists>s1. fl = Inr s1 \<and> (s1 = s \<or> (\<exists>p n c. s1 = call (Vg_memset p c n) s))"
    using env fill_spec [of "clo_free_fill env" "data_of s a" "size_of s a" s]
    unfolding fl_def env_ok_def by auto
  then obtain s1 where s1: "fl = Inr s1" "s1 = s \<or> (\<exists>p n c. s1 = call (Vg_memset p c n) s)" by blast
  have e1: "mc_inv s1 cs Q0 Q1 \<and> off_table s s1 \<and> ticks s1 = ticks s \<and> chunk s1 = chunk s \<and> nodes s1 = nodes s"
    using s1(2) i by (auto simp: off_table_def)
  define s2 where "s2 = call (Make_noaccess (u64 (data_of s1 a + 2 ^ 64 - rz)) (u64 (size_of s1 a + 2 * rz))) s1"
  define s3 where "s3 = upd_chunk_info a (\<lambda>x. x\<lparr>where_ec := record_ExeContext env (ticks s2) tid\<rparr>)
    (s2\<lparr>ticks := ticks s2 + 1\<rparr>)"
  have e3: "off_table s s3" "ticks s3 = ticks s + 1" "nodes s3 = nodes s"
      "\<forall>p. p \<noteq> a \<longrightarrow> chunk s3 p = chunk s p"
    using e1 by (simp_all add: s2_def s3_def off_table_def upd_chunk_info_def traced_def)
  have "mc_inv s3 cs Q0 Q1"
    by (rule mc_inv_frame [OF conjunct1 [OF e1]])
      (use a(3) in \<open>auto simp: s2_def s3_def upd_chunk_info_def\<close>)
  from mc_inv_enqueue [OF this a, of env] obtain s' Q0' Q1' where
    r: "add_to_freed_queue env a s3 = Inr s'" "mc_inv s' cs Q0' Q1'"
      "mset (Q0' @ Q1') = add_mset a (mset (Q0 @ Q1))" "off_table s3 s'" "ticks s' = ticks s3"
      "chunk s' = chunk s3" "\<forall>p. p \<notin> insert a (set (Q0 @ Q1)) \<longrightarrow> nodes s' p = nodes s3 p" by blast
  have "die_and_free_mem env tid a rz s = Inr s'"
    unfolding die_and_free_mem_def fl_def [symmetric] s1(1)
    using r(1) by (simp add: Let_def ask_def s3_def s2_def)
  with r e3 off_table_trans [OF e3(1) r(4)] show ?thesis by metis
qed

end
