(* ===== verification/Mc_Client.thy ===== *)
theory Mc_Client
  imports Mc_Ops
begin

text \<open>
  What allocation, release and reallocation by the traced program do: to the invariant, to the
  blocks in the table, and to the trace of the project.
\<close>

section \<open>Allocation\<close>

text \<open>The blocks of the table, as the address and size that its chunks hold.\<close>

definition chunk_at :: "mc_state \<Rightarrow> nat list list \<Rightarrow> nat \<Rightarrow> nat \<Rightarrow> bool" where
  "chunk_at s cs p n \<longleftrightarrow> (\<exists>a\<in>set (concat cs). data_of s a = p \<and> size_of s a = n)"

text \<open>The chunk \<open>a\<close> for the block of \<open>n\<close> bytes at \<open>p\<close> has joined the table.\<close>

definition joined :: "mc_state \<Rightarrow> nat list list \<Rightarrow> nat \<Rightarrow> nat \<Rightarrow> nat \<Rightarrow> mc_state \<Rightarrow> nat list list \<Rightarrow> bool" where
  "joined s cs a p n s' cs' \<longleftrightarrow>
     mset (concat cs') = add_mset a (mset (concat cs)) \<and> data_of s' a = p \<and> size_of s' a = u62 n
     \<and> (\<forall>q\<in>set (concat cs). data_of s' q = data_of s q \<and> size_of s' q = size_of s q)"

lemma chunk_at_joined:
  assumes "joined s cs a p n s' cs'"
  shows "chunk_at s' cs' k m \<longleftrightarrow> k = p \<and> m = u62 n \<or> chunk_at s cs k m"
  using assms mset_add_facts(2) [of "concat cs'" a "concat cs"]
  unfolding joined_def chunk_at_def by auto

lemma new_block_spec:
  assumes i: "mc_inv s cs Q0 Q1" and env: "env_ok env" and kind: "kind \<noteq> MC_AllocCustom"
    and p: "p = cli_malloc env (ticks s) al n" "p \<noteq> 0"
    and a: "new_elt env (ticks s + 2) (set (concat cs @ Q0 @ Q1))"
    and room: "length (concat cs) + 1 < 2 ^ 32"
  shows "\<exists>s' cs' Q0' Q1' a. new_block env tid 0 n al zeroed kind (malloc_list s) s = Inr (p, s')
    \<and> a = allocEltPA env (ticks s + 2) \<and> ticks s' = ticks s + 4
    \<and> mc_inv s' cs' Q0' Q1' \<and> joined s cs a p n s' cs' \<and> traced s' = (traced s)(u32 p \<mapsto> u32 n)
    \<and> set (Q0' @ Q1') \<subseteq> set (Q0 @ Q1) \<and> free_queue_volume s' \<le> clo_freelist_vol env"
proof -
  define s1 where "s1 = call (Cli_malloc al n p) (s\<lparr>ticks := ticks s + 1\<rparr>)"
  define got where "got = (if zeroed then Inr (p, call (Vg_memset p 0 n) s1)
    else bind_res (fill (clo_malloc_fill env) p n s1) (\<lambda>s2. Inr (p, s2)))"
  have "\<exists>s2. got = Inr (p, s2) \<and> (s2 = s1 \<or> (\<exists>c. s2 = call (Vg_memset p c n) s1))"
    using fill_spec [of "clo_malloc_fill env" p n s1] env by (auto simp: got_def env_ok_def)
  then obtain s2 where s2: "got = Inr (p, s2)" "s2 = s1 \<or> (\<exists>c. s2 = call (Vg_memset p c n) s1)" by blast
  define ec where "ec = record_ExeContext env (ticks s2) tid"
  define s3 where "s3 = s2\<lparr>cmalloc_n_mallocs := u64 (cmalloc_n_mallocs s2 + 1),
    cmalloc_bs_mallocd := u64 (cmalloc_bs_mallocd s2 + n), ticks := ticks s2 + 1\<rparr>"
  have e3: "nodes s3 = nodes s" "tables s3 = tables s" "chunk s3 = chunk s" "malloc_list s3 = malloc_list s"
    "traced s3 = traced s" "ticks s3 = ticks s + 2" "freed_list_start s3 = freed_list_start s"
    "freed_list_end s3 = freed_list_end s" "free_queue_volume s3 = free_queue_volume s"
    using s2(2) by (auto simp: s3_def s1_def call_def traced_def)
  have i3: "mc_inv s3 cs Q0 Q1" by (rule mc_inv_frame [OF i]) (simp_all add: e3)
  define b where "b = allocEltPA env (ticks s3)"
  have b: "0 < b" "b < 2 ^ 64" "b \<notin> set (concat cs @ Q0 @ Q1)" and nb: "new_elt env (ticks s3) (set (concat cs @ Q0 @ Q1))"
    using a e3(6) by (simp_all add: b_def new_elt_def)
  from create_MC_Chunk_spec [OF i3 env b_def nb, of ec p n kind] obtain s4 Q0' Q1' where
    r: "create_MC_Chunk env ec p n kind s3 = Inr (b, s4)" "mc_inv s4 cs Q0' Q1'"
      "set Q0' \<subseteq> set Q0" "set Q1' \<subseteq> set Q1"
      "chunk s4 = (chunk s3)(b := \<lparr>szB = u62 n, allockind = kind, where_ec = ec\<rparr>)"
      "\<forall>q. key_of s4 q = (if q = b then p else key_of s3 q)" "traced s4 = traced s3"
      "malloc_list s4 = malloc_list s3" "free_queue_volume s4 \<le> clo_freelist_vol env" "ticks s4 = ticks s3 + 2" by blast
  have b4: "b \<noteq> 0" "b \<notin> set (concat cs @ Q0' @ Q1')" using b(1,3) r(3,4) by auto
  from mc_inv_add [OF r(2) b4(1) b(2) b4(2) room] obtain s5 cs' where
    t: "HT_add_node (malloc_list s4) b s4 = Inr s5" "mc_inv s5 cs' Q0' Q1'"
      "mset (concat cs') = add_mset b (mset (concat cs))"
      "only_links (malloc_list s4) (insert b (set (concat cs))) s4 s5" by blast
  note M = only_links_more [OF t(4)]
  have key5: "key_of s5 q = (if q = b then p else key_of s q)" for q
    using t(4) r(6) e3(1) by (simp add: only_links_def)
  define s6 where "s6 = (if zeroed then call (Make_defined p n) s5
    else call (Make_undefined p n (heap_otag (get_ECU env ec))) s5)"
  have e6: "nodes s6 = nodes s5" "tables s6 = tables s5" "chunk s6 = chunk s5" "malloc_list s6 = malloc_list s5"
    "traced s6 = traced s5" "freed_list_start s6 = freed_list_start s5" "freed_list_end s6 = freed_list_end s5"
    "free_queue_volume s6 = free_queue_volume s5"
    by (simp_all add: s6_def)
  define s7 where "s7 = trace_new p n s6"
  have e7: "nodes s7 = nodes s5" "tables s7 = tables s5" "chunk s7 = chunk s5" "malloc_list s7 = malloc_list s5"
    "freed_list_start s7 = freed_list_start s5" "freed_list_end s7 = freed_list_end s5"
    "free_queue_volume s7 = free_queue_volume s5"
    by (simp_all add: s7_def trace_new_def Let_def e6)
  have tr: "traced s7 = (traced s)(u32 p \<mapsto> u32 n)"
    using e6(5) M(16) r(7) e3(5) by (simp add: s7_def trace_new_def Let_def traced_def)
  define s2' where "s2' = s2\<lparr>cmalloc_n_mallocs := u64 (cmalloc_n_mallocs s2 + 1),
    cmalloc_bs_mallocd := u64 (cmalloc_bs_mallocd s2 + n)\<rparr>"
  have ctx: "new_context env tid s2' = Inr (ec, s3)"
    using env by (simp add: new_context_def ask_def Let_def s2'_def s3_def ec_def env_ok_def)
  have oth: "(if zeroed then Inr (call (Make_defined p n) s5)
      else if \<not> is_plausible_ECU env (get_ECU env ec) then Inl Abort
      else Inr (call (Make_undefined p n (heap_otag (get_ECU env ec))) s5)) = Inr s6"
    using env by (simp add: s6_def env_ok_def)
  have add: "HT_add_node (malloc_list s) b s4 = Inr s5" using t(1) r(8) e3(4) by simp
  have run: "new_block env tid 0 n al zeroed kind (malloc_list s) s = Inr (p, s7)"
    unfolding new_block_def ask_def Let_def prod.case p(1) [symmetric] s1_def [symmetric]
    by (simp only: kind p(2) not_not simp_thms if_True if_False got_def [symmetric] s2(1)
        bind_res_simps prod.case s2'_def [symmetric] ctx r(1) add oth s7_def [symmetric])
  have "mc_inv s7 cs' Q0' Q1'" by (rule mc_inv_frame [OF t(2)]) (simp_all add: e7)
  moreover have "joined s cs b p n s7 cs'"
    using t(3) key5 b(3) e7(1,3) M(1) r(5) e3(3) by (auto simp: joined_def simp del: set_concat)
  moreover have "set (Q0' @ Q1') \<subseteq> set (Q0 @ Q1)" using r(3,4) by auto
  moreover have "free_queue_volume s7 \<le> clo_freelist_vol env" using e7(7) M(7) r(9) by simp
  moreover have "b = allocEltPA env (ticks s + 2)" using e3(6) by (simp add: b_def)
  moreover have "ticks s7 = ticks s + 4"
    using e3(6) r(10) M(15) by (simp add: s7_def trace_new_def Let_def s6_def)
  ultimately show ?thesis using run tr by blast
qed

section \<open>Release\<close>

text \<open>The chunk \<open>a\<close> has left the table.\<close>

definition parted :: "mc_state \<Rightarrow> nat list list \<Rightarrow> nat \<Rightarrow> mc_state \<Rightarrow> nat list list \<Rightarrow> bool" where
  "parted s cs a s' cs' \<longleftrightarrow>
     mset (concat cs) = add_mset a (mset (concat cs')) \<and> a \<notin> set (concat cs')
     \<and> (\<forall>q. data_of s' q = data_of s q \<and> size_of s' q = size_of s q)"

lemma chunk_at_parted:
  assumes "parted s cs a s' cs'" and "inj_on (data_of s) (set (concat cs))"
  shows "chunk_at s' cs' k m \<longleftrightarrow> k \<noteq> data_of s a \<and> chunk_at s cs k m"
    and "inj_on (data_of s') (set (concat cs'))"
proof -
  have m: "mset (concat cs) = add_mset a (mset (concat cs'))" "a \<notin> set (concat cs')" and
    d: "data_of s' q = data_of s q" "size_of s' q = size_of s q" for q
    using assms(1) by (simp_all add: parted_def)
  have c: "set (concat cs) = insert a (set (concat cs'))" by (rule mset_add_facts(2) [OF m(1)])
  show "inj_on (data_of s') (set (concat cs'))"
    using assms(2) unfolding c d by (rule inj_on_subset) blast
  show "chunk_at s' cs' k m \<longleftrightarrow> k \<noteq> data_of s a \<and> chunk_at s cs k m"
    using assms(2) m(2) unfolding chunk_at_def d c by (auto simp: inj_on_def simp del: set_concat)
qed

lemma parted_off_table:
  "parted s cs a s' cs' \<Longrightarrow> off_table s' s'' \<Longrightarrow> parted s cs a s'' cs'"
  by (simp add: parted_def off_table_def)

text \<open>Taking a chunk out of the table; all else but links stays.\<close>

lemma remove_chunk:
  assumes i: "mc_inv s cs Q0 Q1"
  shows "\<exists>a s' cs'. HT_remove (malloc_list s) k s = Inr (a, s') \<and> mc_inv s' cs' Q0 Q1
    \<and> only_links (malloc_list s) (set (concat cs)) s s'
    \<and> (a = 0 \<and> (\<forall>q\<in>set (concat cs). data_of s q \<noteq> k) \<and> cs' = cs
       \<or> a \<noteq> 0 \<and> a < 2 ^ 64 \<and> data_of s a = k \<and> data_of s' a = k
         \<and> a \<notin> set (concat cs' @ Q0 @ Q1) \<and> parted s cs a s' cs')"
proof -
  from mc_inv_remove [OF i, of k] obtain a s' cs' where
    r: "HT_remove (malloc_list s) k s = Inr (a, s')" "mc_inv s' cs' Q0 Q1"
      "only_links (malloc_list s) (set (concat cs)) s s'" and
    c: "a = 0 \<and> (\<forall>q\<in>set (concat cs). key_of s q \<noteq> k) \<and> cs' = cs
       \<or> a \<noteq> 0 \<and> a < 2 ^ 64 \<and> key_of s a = k \<and> a \<notin> set (concat cs' @ Q0 @ Q1)
         \<and> mset (concat cs) = add_mset a (mset (concat cs'))" by blast
  have k: "data_of s' q = data_of s q \<and> size_of s' q = size_of s q" for q
    using r(3) only_links_more(1) [OF r(3)] by (simp add: only_links_def)
  show ?thesis
    by (rule exI [of _ a], rule exI [of _ s'], rule exI [of _ cs'])
      (use r c k in \<open>auto simp: parted_def simp del: set_concat\<close>)
qed

lemma handle_free_spec:
  assumes i: "mc_inv s cs Q0 Q1" and env: "env_ok env"
  shows "\<exists>s' cs' Q0' Q1'. handle_free env tid p rz kind s = Inr s' \<and> mc_inv s' cs' Q0' Q1'
    \<and> traced s' = (traced s)(u32 p := None)
    \<and> ((\<forall>q\<in>set (concat cs). data_of s q \<noteq> p) \<and> cs' = cs \<and> Q0' = Q0 \<and> Q1' = Q1
         \<and> log s' = log s @ [Print_F (u32 p) 0, Free_error tid p]
         \<and> (\<forall>q. data_of s' q = data_of s q \<and> size_of s' q = size_of s q)
       \<or> (\<exists>a. data_of s a = p \<and> parted s cs a s' cs' \<and> mset (Q0' @ Q1') = add_mset a (mset (Q0 @ Q1))))"
proof -
  define s1 where "s1 = call (Print_F (u32 p) 0) (s\<lparr>cmalloc_n_frees := u64 (cmalloc_n_frees s + 1)\<rparr>)"
  have e1: "nodes s1 = nodes s" "tables s1 = tables s" "chunk s1 = chunk s" "malloc_list s1 = malloc_list s"
    "traced s1 = (traced s)(u32 p := None)" "log s1 = log s @ [Print_F (u32 p) 0]"
    by (simp_all add: s1_def traced_def)
  have i1: "mc_inv s1 cs Q0 Q1"
    by (rule mc_inv_frame [OF i]) (simp_all add: e1, simp_all add: s1_def)
  from remove_chunk [OF i1, of p] obtain a s2 cs' where
    r: "HT_remove (malloc_list s1) p s1 = Inr (a, s2)" "mc_inv s2 cs' Q0 Q1"
      "only_links (malloc_list s1) (set (concat cs)) s1 s2" and
    c: "a = 0 \<and> (\<forall>q\<in>set (concat cs). data_of s1 q \<noteq> p) \<and> cs' = cs
       \<or> a \<noteq> 0 \<and> a < 2 ^ 64 \<and> data_of s1 a = p \<and> data_of s2 a = p
         \<and> a \<notin> set (concat cs' @ Q0 @ Q1) \<and> parted s1 cs a s2 cs'" by blast
  note M = only_links_more [OF r(3)]
  have run: "handle_free env tid p rz kind s = (if a = 0 then Inr (call (Free_error tid p) s2)
      else bind_res (if kind \<noteq> allockind (chunk s2 a) then
             if p \<noteq> data_of s2 a then Inl Abort else Inr (call (Freemismatch_error tid a) s2)
           else Inr s2) (\<lambda>s3. die_and_free_mem env tid a rz s3))"
    unfolding handle_free_def Let_def s1_def [symmetric] r(1) by simp
  from c show ?thesis
  proof
    assume n: "a = 0 \<and> (\<forall>q\<in>set (concat cs). data_of s1 q \<noteq> p) \<and> cs' = cs"
    let ?s' = "call (Free_error tid p) s2"
    have "mc_inv ?s' cs Q0 Q1" using r(2) n by simp
    moreover have "traced ?s' = (traced s)(u32 p := None)" using M(16) e1(5) by simp
    moreover have "\<forall>q. data_of ?s' q = data_of s q \<and> size_of ?s' q = size_of s q"
      using r(3) M(1) e1(1,3) by (simp add: only_links_def)
    ultimately show ?thesis using n run e1(1,6) M(14)
      by (intro exI [of _ ?s'] exI [of _ cs] exI [of _ Q0] exI [of _ Q1]) simp
  next
    assume n: "a \<noteq> 0 \<and> a < 2 ^ 64 \<and> data_of s1 a = p \<and> data_of s2 a = p
         \<and> a \<notin> set (concat cs' @ Q0 @ Q1) \<and> parted s1 cs a s2 cs'"
    then have a: "a \<noteq> 0" "a < 2 ^ 64" "a \<notin> set (concat cs' @ Q0 @ Q1)" by blast+
    define s3 where "s3 = (if kind \<noteq> allockind (chunk s2 a) then call (Freemismatch_error tid a) s2 else s2)"
    have i3: "mc_inv s3 cs' Q0 Q1" using r(2) by (simp add: s3_def)
    from die_and_free_mem_spec [OF i3 env a, of tid rz] obtain s' Q0' Q1' where
      d: "die_and_free_mem env tid a rz s3 = Inr s'" "mc_inv s' cs' Q0' Q1'"
        "mset (Q0' @ Q1') = add_mset a (mset (Q0 @ Q1))" "off_table s3 s'" by blast
    have "off_table s2 s3" by (simp add: s3_def off_table_def)
    then have o: "off_table s2 s'" by (rule off_table_trans [OF _ d(4)])
    have "handle_free env tid p rz kind s = Inr s'"
      using run n d(1) by (cases "kind = allockind (chunk s2 a)") (simp_all add: s3_def)
    moreover have "parted s1 cs a s' cs'" using n parted_off_table [OF _ o] by blast
    then have "parted s cs a s' cs'" using e1(1,3) by (simp add: parted_def)
    moreover have "traced s' = (traced s)(u32 p := None)"
      using o M(16) e1(5) by (simp add: off_table_def)
    moreover have "data_of s a = p" using n e1(1) by simp
    ultimately show ?thesis using d(2,3) by blast
  qed
qed

section \<open>Reallocation\<close>

text \<open>Calls of the environment that are not lines of the trace.\<close>

definition aside :: "nat \<Rightarrow> mc_state \<Rightarrow> mc_state \<Rightarrow> bool" where
  "aside k s s' \<longleftrightarrow> (\<exists>l. s' = s\<lparr>log := l, ticks := ticks s + k\<rparr>) \<and> traced s' = traced s"

lemma aside_refl: "aside 0 s s"
  by (auto simp: aside_def intro: exI [of _ "log s"])

lemma aside_call:
  assumes "aside k s s'" and "replay_call c = id"
  shows "aside k s (call c s')"
proof -
  obtain l where "s' = s\<lparr>log := l, ticks := ticks s + k\<rparr>" using assms(1) by (auto simp: aside_def)
  then have "call c s' = s\<lparr>log := l @ [c], ticks := ticks s + k\<rparr>" by (simp add: call_def)
  moreover have "traced (call c s') = traced s" using assms by (simp add: aside_def)
  ultimately show ?thesis unfolding aside_def by blast
qed

lemma replay_quiet:
  "replay_call (Make_noaccess p n) = id" "replay_call (Make_undefined p n k) = id"
  "replay_call (Copy_range_state p q n) = id" "replay_call (Vg_memcpy p q n) = id"
  "replay_call (Vg_memset p c n) = id" "replay_call (Cli_malloc p q n) = id"
  "replay_call (Freemismatch_error p n) = id"
  by (simp_all add: fun_eq_iff)

lemma aside_fill:
  assumes "aside k s s'" and "-1 \<le> c" and "c \<le> 255"
  shows "\<exists>s''. fill c p n s' = Inr s'' \<and> aside k s s''"
  using fill_spec [OF assms(2,3), of p n s'] aside_call [OF assms(1) replay_quiet(5)] assms(1) by metis

lemma aside_ask: "aside k s s' \<Longrightarrow> aside (k + 1) s (s'\<lparr>ticks := ticks s' + 1\<rparr>)"
  by (auto simp: aside_def traced_def)

lemma aside_fields:
  assumes "aside k s s'"
  shows "nodes s' = nodes s" "tables s' = tables s" "chunk s' = chunk s" "malloc_list s' = malloc_list s"
    "freed_list_start s' = freed_list_start s" "freed_list_end s' = freed_list_end s"
    "free_queue_volume s' = free_queue_volume s" "ticks s' = ticks s + k" "traced s' = traced s"
  using assms by (auto simp: aside_def)

lemma mc_inv_aside:
  assumes "mc_inv s cs Q0 Q1" and "aside k s s'"
  shows "mc_inv s' cs Q0 Q1"
  by (rule mc_inv_frame [OF assms(1)]) (simp_all add: aside_fields [OF assms(2)])

text \<open>The old chunk goes to the queues, a new one is made.\<close>

definition replaced :: "mc_state \<Rightarrow> nat list list \<Rightarrow> nat list \<Rightarrow> nat \<Rightarrow> nat \<Rightarrow> nat \<Rightarrow> nat \<Rightarrow> mc_state \<Rightarrow> bool" where
  "replaced s cs Q a b p n s' \<longleftrightarrow>
     (\<exists>Q0' Q1'. mc_inv s' cs Q0' Q1' \<and> set (Q0' @ Q1') \<subseteq> insert a (set Q)
        \<and> b \<noteq> 0 \<and> b < 2 ^ 64 \<and> b \<notin> set (concat cs @ Q0' @ Q1'))
     \<and> b \<noteq> a \<and> b \<notin> set (concat cs) \<and> data_of s' b = p \<and> size_of s' b = u62 n
     \<and> (\<forall>q. q \<noteq> b \<longrightarrow> data_of s' q = data_of s q \<and> size_of s' q = size_of s q)
     \<and> malloc_list s' = malloc_list s \<and> traced s' = traced s"

lemma replace_chunk:
  assumes i: "mc_inv s cs Q0 Q1" and env: "env_ok env"
    and a: "a \<noteq> 0" "a < 2 ^ 64" "a \<notin> set (concat cs @ Q0 @ Q1)"
    and b: "new_elt env (ticks s + 1) (insert a (set (concat cs @ Q0 @ Q1)))"
  shows "\<exists>b s'. bind_res (die_and_free_mem env tid a rz s) (\<lambda>s1. create_MC_Chunk env ec p n kind s1) = Inr (b, s')
    \<and> replaced s cs (Q0 @ Q1) a b p n s'"
proof -
  from die_and_free_mem_spec [OF i env a, of tid rz] obtain s1 R0 R1 where
    d: "die_and_free_mem env tid a rz s = Inr s1" "mc_inv s1 cs R0 R1"
      "mset (R0 @ R1) = add_mset a (mset (Q0 @ Q1))" "off_table s s1" "ticks s1 = ticks s + 1" by blast
  have R: "set (R0 @ R1) = insert a (set (Q0 @ Q1))" by (rule mset_add_facts(2) [OF d(3)])
  then have all: "set (concat cs @ R0 @ R1) = insert a (set (concat cs @ Q0 @ Q1))" by auto
  define b where "b = allocEltPA env (ticks s1)"
  have nb: "new_elt env (ticks s1) (set (concat cs @ R0 @ R1))" using assms(6) d(5) unfolding all by simp
  then have b: "b \<noteq> 0" "b < 2 ^ 64" "b \<notin> insert a (set (concat cs @ Q0 @ Q1))"
    unfolding all by (auto simp: b_def new_elt_def)
  from create_MC_Chunk_spec [OF d(2) env b_def nb, of ec p n kind] obtain s' Q0' Q1' where
    c: "create_MC_Chunk env ec p n kind s1 = Inr (b, s')" "mc_inv s' cs Q0' Q1'" "set Q0' \<subseteq> set R0" "set Q1' \<subseteq> set R1"
      "chunk s' = (chunk s1)(b := \<lparr>szB = u62 n, allockind = kind, where_ec = ec\<rparr>)"
      "\<forall>q. key_of s' q = (if q = b then p else key_of s1 q)" "traced s' = traced s1"
      "malloc_list s' = malloc_list s1" by blast
  have sub: "set (Q0' @ Q1') \<subseteq> insert a (set (Q0 @ Q1))" using c(3,4) R by auto
  then have "b \<notin> set (concat cs @ Q0' @ Q1')" using b(3) by auto
  then have "replaced s cs (Q0 @ Q1) a b p n s'"
    using c(2,5-8) d(4) b sub unfolding replaced_def off_table_def by auto
  with d(1) c(1) show ?thesis by auto
qed

lemma replaced_aside:
  assumes "aside k s s1" and "replaced s1 cs Q a b p n s'"
  shows "replaced s cs Q a b p n s'"
  using assms(2) unfolding replaced_def aside_fields [OF assms(1)] .

lemma realloc_spec:
  assumes i: "mc_inv s cs Q0 Q1" and env: "env_ok env"
    and a: "a \<noteq> 0" "a < 2 ^ 64" "a \<notin> set (concat cs @ Q0 @ Q1)"
    and b: "new_elt env (ticks s + 2) (insert a (set (concat cs @ Q0 @ Q1)))"
  shows "\<exists>b s'. realloc_shrink env tid a p_old p old n s = Inr (b, s') \<and> replaced s cs (Q0 @ Q1) a b p n s'"
    and "\<exists>b s'. realloc_grow env tid a p_old p old n s = Inr (b, s') \<and> replaced s cs (Q0 @ Q1) a b p n s'"
proof -
  define ec where "ec = record_ExeContext env (ticks s) tid"
  define s1 where "s1 = s\<lparr>ticks := ticks s + 1\<rparr>"
  have ctx: "new_context env tid s = Inr (ec, s1)"
    using env by (simp add: new_context_def ask_def Let_def s1_def ec_def env_ok_def)
  have q1: "aside 1 s s1" using aside_ask [OF aside_refl [of s]] by (simp add: s1_def)
  have e: "-1 \<le> clo_malloc_fill env" "clo_malloc_fill env \<le> 255" "-1 \<le> clo_free_fill env" "clo_free_fill env \<le> 255"
    "is_plausible_ECU env (get_ECU env ec)" using env by (simp_all add: env_ok_def)
  have tail: "\<exists>b s'. bind_res (die_and_free_mem env tid a rz t) (\<lambda>s1. create_MC_Chunk env ec p n kind s1) = Inr (b, s')
    \<and> replaced s cs (Q0 @ Q1) a b p n s'" if "aside 1 s t" for t rz kind
  proof -
    have "new_elt env (ticks t + 1) (insert a (set (concat cs @ Q0 @ Q1)))"
      using b aside_fields(8) [OF that] by (simp add: numeral_2_eq_2)
    from replace_chunk [OF mc_inv_aside [OF i that] env a this] replaced_aside [OF that] show ?thesis by metis
  qed
  define t4 where "t4 = call (Vg_memcpy p p_old n) (call (Make_noaccess (u64 (p + n)) MC_MALLOC_REDZONE_SZB)
    (call (Copy_range_state p_old p n) (call (Make_noaccess (u64 (p + 2 ^ 64 - MC_MALLOC_REDZONE_SZB))
       MC_MALLOC_REDZONE_SZB) s1)))"
  have "aside 1 s t4" unfolding t4_def by (intro aside_call q1 replay_quiet)
  from aside_fill [OF this e(3,4), of p_old old] obtain t5 where
    t5: "fill (clo_free_fill env) p_old old t4 = Inr t5" "aside 1 s t5" by blast
  have "realloc_shrink env tid a p_old p old n s = bind_res (die_and_free_mem env tid a MC_MALLOC_REDZONE_SZB t5)
      (\<lambda>s7. create_MC_Chunk env ec p n MC_AllocMalloc s7)"
    by (simp only: realloc_shrink_def ctx bind_res_simps prod.case Let_def t4_def [symmetric] t5(1))
  with tail [OF t5(2)] show "\<exists>b s'. realloc_shrink env tid a p_old p old n s = Inr (b, s')
      \<and> replaced s cs (Q0 @ Q1) a b p n s'" by simp
  define m where "m = size_of s1 a"
  define u4 where "u4 = call (Make_noaccess (u64 (p + n)) MC_MALLOC_REDZONE_SZB)
    (call (Make_undefined (u64 (p + m)) (n - m) (heap_otag (get_ECU env ec)))
    (call (Copy_range_state p_old p m) (call (Make_noaccess (u64 (p + 2 ^ 64 - MC_MALLOC_REDZONE_SZB))
       MC_MALLOC_REDZONE_SZB) s1)))"
  have "aside 1 s u4" unfolding u4_def by (intro aside_call q1 replay_quiet)
  from aside_fill [OF this e(1,2), of "u64 (p + old)" "n - old"] obtain u5 where
    u5: "fill (clo_malloc_fill env) (u64 (p + old)) (n - old) u4 = Inr u5" "aside 1 s u5" by blast
  from aside_fill [OF aside_call [OF u5(2) replay_quiet(4)] e(3,4), of p_old old] obtain u6 where
    u6: "fill (clo_free_fill env) p_old old (call (Vg_memcpy p p_old m) u5) = Inr u6" "aside 1 s u6" by blast
  have "realloc_grow env tid a p_old p old n s = bind_res (die_and_free_mem env tid a MC_MALLOC_REDZONE_SZB u6)
      (\<lambda>s9. create_MC_Chunk env ec p n MC_AllocMalloc s9)"
    by (simp only: realloc_grow_def ctx bind_res_simps prod.case Let_def e(5) not_True_eq_False if_False
        m_def [symmetric] u4_def [symmetric] u5(1) u6(1))
  with tail [OF u6(2)] show "\<exists>b s'. realloc_grow env tid a p_old p old n s = Inr (b, s')
      \<and> replaced s cs (Q0 @ Q1) a b p n s'" by simp
qed

end
