(* ===== verification/Mc_Props.thy ===== *)
theory Mc_Props
  imports Mc_Client
begin

text \<open>
  The properties of the malloc wrappers: the blocks that the project's trace tells of are those of
  the table as long as the program only allocates and frees; a reallocation is missing from it; the
  queues of freed blocks stay within their limit.
\<close>

section \<open>Programs\<close>

datatype mc_op =
    Malloc nat
  | New nat
  | Vec_new nat
  | Memalign nat nat
  | Calloc nat nat
  | Free nat
  | Delete nat
  | Vec_delete nat

fun run_op :: "mc_env \<Rightarrow> nat \<Rightarrow> mc_op \<Rightarrow> mc_state \<Rightarrow> mc_state res" where
  "run_op env tid (Malloc n) s = bind_res (MC_malloc env tid n s) (\<lambda>(p, s'). Inr s')"
| "run_op env tid (New n) s = bind_res (MC_builtin_new env tid n s) (\<lambda>(p, s'). Inr s')"
| "run_op env tid (Vec_new n) s = bind_res (MC_builtin_vec_new env tid n s) (\<lambda>(p, s'). Inr s')"
| "run_op env tid (Memalign al n) s = bind_res (MC_memalign env tid al n s) (\<lambda>(p, s'). Inr s')"
| "run_op env tid (Calloc m n) s = bind_res (MC_calloc env tid m n s) (\<lambda>(p, s'). Inr s')"
| "run_op env tid (Free p) s = MC_free env tid p s"
| "run_op env tid (Delete p) s = MC_builtin_delete env tid p s"
| "run_op env tid (Vec_delete p) s = MC_builtin_vec_delete env tid p s"

fun run_mc :: "mc_env \<Rightarrow> nat \<Rightarrow> mc_op list \<Rightarrow> mc_state \<Rightarrow> mc_state res" where
  "run_mc env tid [] s = Inr s"
| "run_mc env tid (x # xs) s = bind_res (run_op env tid x s) (run_mc env tid xs)"

text \<open>
  What is asked of the allocators at an allocation of \<open>n\<close> bytes: the client's allocator fails or
  returns an address below \<open>2 ^ 32\<close> at which the table has no block, the pool an unused address;
  and the table has room. The trace has 32 bits for addresses and sizes.
\<close>

definition answers_ok :: "mc_env \<Rightarrow> nat \<Rightarrow> nat \<Rightarrow> mc_state \<Rightarrow> bool" where
  "answers_ok env al n s \<longleftrightarrow>
     (let p = cli_malloc env (ticks s) al n in
      p \<noteq> 0 \<longrightarrow> n < 2 ^ 32 \<and> p < 2 ^ 32 \<and> (\<forall>cs Q0 Q1. mc_inv s cs Q0 Q1 \<longrightarrow>
        (\<forall>a\<in>set (concat cs). data_of s a \<noteq> p) \<and> length (concat cs) + 1 < 2 ^ 32
        \<and> new_elt env (ticks s + 2) (set (concat cs @ Q0 @ Q1))))"

fun op_ok :: "mc_env \<Rightarrow> mc_op \<Rightarrow> mc_state \<Rightarrow> bool" where
  "op_ok env (Malloc n) s \<longleftrightarrow> answers_ok env (clo_alignment env) n s"
| "op_ok env (New n) s \<longleftrightarrow> answers_ok env (clo_alignment env) n s"
| "op_ok env (Vec_new n) s \<longleftrightarrow> answers_ok env (clo_alignment env) n s"
| "op_ok env (Memalign al n) s \<longleftrightarrow> answers_ok env al n s"
| "op_ok env (Calloc m n) s \<longleftrightarrow> answers_ok env (clo_alignment env) (u64 (m * n)) s"
| "op_ok env (Free p) s \<longleftrightarrow> p < 2 ^ 32"
| "op_ok env (Delete p) s \<longleftrightarrow> p < 2 ^ 32"
| "op_ok env (Vec_delete p) s \<longleftrightarrow> p < 2 ^ 32"

fun mc_ops_ok :: "mc_env \<Rightarrow> nat \<Rightarrow> mc_op list \<Rightarrow> mc_state \<Rightarrow> bool" where
  "mc_ops_ok env tid [] s \<longleftrightarrow> True"
| "mc_ops_ok env tid (x # xs) s \<longleftrightarrow>
     op_ok env x s \<and> (case run_op env tid x s of Inl e \<Rightarrow> True | Inr s' \<Rightarrow> mc_ops_ok env tid xs s')"

text \<open>The trace tells of the blocks in the table, with their sizes.\<close>

definition trace_agrees :: "mc_state \<Rightarrow> nat list list \<Rightarrow> bool" where
  "trace_agrees s cs \<longleftrightarrow>
     inj_on (data_of s) (set (concat cs)) \<and> (\<forall>k m. chunk_at s cs k m \<longrightarrow> k < 2 ^ 32)
     \<and> (\<forall>k m. traced s k = Some m \<longleftrightarrow> chunk_at s cs k m)"

definition mc_ok :: "mc_state \<Rightarrow> bool" where
  "mc_ok s \<longleftrightarrow> (\<exists>cs Q0 Q1. mc_inv s cs Q0 Q1 \<and> trace_agrees s cs)"

section \<open>Steps\<close>

lemma agrees_joined:
  assumes t: "trace_agrees s cs" and j: "joined s cs a p n s' cs'"
    and p: "p < 2 ^ 32" "\<And>q. q \<in> set (concat cs) \<Longrightarrow> data_of s q \<noteq> p" and n: "n < 2 ^ 32"
    and l: "traced s' = (traced s)(u32 p \<mapsto> u32 n)"
  shows "trace_agrees s' cs'"
proof -
  have u: "u32 p = p" "u32 n = n" "u62 n = n" using p(1) n by (simp_all add: u32_def u62_def)
  have c: "set (concat cs') = insert a (set (concat cs))"
    using j mset_add_facts(2) [of "concat cs'" a "concat cs"] by (simp add: joined_def)
  have d: "data_of s' a = p" "\<And>q. q \<in> set (concat cs) \<Longrightarrow> data_of s' q = data_of s q"
    using j by (auto simp: joined_def simp del: set_concat)
  have i: "inj_on (data_of s) (set (concat cs))" using t by (simp add: trace_agrees_def)
  have "inj_on (data_of s') (set (concat cs'))"
  proof (rule inj_onI)
    fix x y assume xy: "x \<in> set (concat cs')" "y \<in> set (concat cs')" "data_of s' x = data_of s' y"
    show "x = y"
      using xy d p(2) inj_onD [OF i, of x y] unfolding c by (metis insertE)
  qed
  moreover have "\<not> chunk_at s cs p m" for m using p(2) by (auto simp: chunk_at_def simp del: set_concat)
  ultimately show ?thesis
    using t p(1) unfolding trace_agrees_def chunk_at_joined [OF j] l u by auto
qed

lemma agrees_parted:
  assumes t: "trace_agrees s cs" and j: "parted s cs a s' cs'" and p: "data_of s a < 2 ^ 32"
    and l: "traced s' = (traced s)(u32 (data_of s a) := None)"
  shows "trace_agrees s' cs'"
proof -
  have u: "u32 (data_of s a) = data_of s a" using p by (simp add: u32_def)
  have i: "inj_on (data_of s) (set (concat cs))" using t by (simp add: trace_agrees_def)
  from t show ?thesis
    unfolding trace_agrees_def chunk_at_parted(1) [OF j i] l u using chunk_at_parted(2) [OF j i] by auto
qed

lemma new_block_ok:
  assumes "mc_ok s" and env: "env_ok env" and ok: "answers_ok env al n s" and kind: "kind \<noteq> MC_AllocCustom"
  shows "\<exists>p s'. new_block env tid 0 n al zeroed kind (malloc_list s) s = Inr (p, s') \<and> mc_ok s'"
proof -
  from assms(1) obtain cs Q0 Q1 where i: "mc_inv s cs Q0 Q1" and t: "trace_agrees s cs"
    unfolding mc_ok_def by blast
  define p where "p = cli_malloc env (ticks s) al n"
  show ?thesis
  proof (cases "p = 0")
    case True
    define s1 where "s1 = call (Cli_malloc al n 0) (s\<lparr>ticks := ticks s + 1\<rparr>)"
    have "new_block env tid 0 n al zeroed kind (malloc_list s) s = Inr (0, s1)"
      using True kind by (simp add: new_block_def ask_def Let_def p_def s1_def)
    moreover have d: "aside 1 s s1"
      using aside_call [OF aside_ask [OF aside_refl [of s]] replay_quiet(6)] by (simp add: s1_def)
    moreover have "trace_agrees s1 cs"
      using t unfolding trace_agrees_def chunk_at_def aside_fields [OF d] .
    moreover have "mc_inv s1 cs Q0 Q1" by (rule mc_inv_aside [OF i d])
    ultimately show ?thesis unfolding mc_ok_def by blast
  next
    case False
    then have a: "n < 2 ^ 32" "p < 2 ^ 32" "\<And>q. q \<in> set (concat cs) \<Longrightarrow> data_of s q \<noteq> p"
      "length (concat cs) + 1 < 2 ^ 32" "new_elt env (ticks s + 2) (set (concat cs @ Q0 @ Q1))"
      using ok i unfolding answers_ok_def Let_def p_def [symmetric] by blast+
    from new_block_spec [OF i env kind p_def False a(5,4), of tid zeroed] obtain s' cs' Q0' Q1' b where
      r: "new_block env tid 0 n al zeroed kind (malloc_list s) s = Inr (p, s')" "mc_inv s' cs' Q0' Q1'"
        "joined s cs b p n s' cs'" "traced s' = (traced s)(u32 p \<mapsto> u32 n)" by blast
    have "trace_agrees s' cs'" by (rule agrees_joined [OF t r(3) a(2,3,1) r(4)])
    with r(1,2) show ?thesis unfolding mc_ok_def by blast
  qed
qed

lemma handle_free_ok:
  assumes "mc_ok s" and env: "env_ok env" and p: "p < 2 ^ 32"
  shows "\<exists>s'. handle_free env tid p rz kind s = Inr s' \<and> mc_ok s'"
proof -
  from assms(1) obtain cs Q0 Q1 where i: "mc_inv s cs Q0 Q1" and t: "trace_agrees s cs"
    unfolding mc_ok_def by blast
  from handle_free_spec [OF i env, of tid p rz kind] obtain s' cs' Q0' Q1' where
    r: "handle_free env tid p rz kind s = Inr s'" "mc_inv s' cs' Q0' Q1'" "traced s' = (traced s)(u32 p := None)" and
    c: "(\<forall>q\<in>set (concat cs). data_of s q \<noteq> p) \<and> cs' = cs
         \<and> (\<forall>q. data_of s' q = data_of s q \<and> size_of s' q = size_of s q)
       \<or> (\<exists>a. data_of s a = p \<and> parted s cs a s' cs')" by blast
  from c have "trace_agrees s' cs'"
  proof
    assume n: "(\<forall>q\<in>set (concat cs). data_of s q \<noteq> p) \<and> cs' = cs
      \<and> (\<forall>q. data_of s' q = data_of s q \<and> size_of s' q = size_of s q)"
    then have "\<not> chunk_at s cs p m" for m by (auto simp: chunk_at_def simp del: set_concat)
    moreover have "chunk_at s' cs' = chunk_at s cs" using n by (simp add: chunk_at_def fun_eq_iff)
    moreover have "inj_on (data_of s') (set (concat cs'))"
      using t n by (simp add: trace_agrees_def)
    moreover have "u32 p = p" using p by (simp add: u32_def)
    ultimately show ?thesis using t r(3) by (auto simp: trace_agrees_def)
  next
    assume "\<exists>a. data_of s a = p \<and> parted s cs a s' cs'"
    then obtain a where a: "data_of s a = p" "parted s cs a s' cs'" by blast
    show ?thesis by (rule agrees_parted [OF t a(2)]) (use a p r(3) in simp_all)
  qed
  with r(1,2) show ?thesis unfolding mc_ok_def by blast
qed

lemma run_op_ok:
  assumes "mc_ok s" and "env_ok env" and "op_ok env x s"
  shows "\<exists>s'. run_op env tid x s = Inr s' \<and> mc_ok s'"
proof -
  have alloc: "\<exists>s'. bind_res (if silly then Inr (0, s)
      else new_block env tid 0 n al zeroed kind (malloc_list s) s) (\<lambda>(p, s'). Inr s') = Inr s' \<and> mc_ok s'"
    if "answers_ok env al n s" "kind \<noteq> MC_AllocCustom" for silly n al zeroed kind
    using new_block_ok [OF assms(1,2) that, of tid zeroed] assms(1) by (cases silly) auto
  note free = handle_free_ok [OF assms(1,2)]
  show ?thesis
    using assms(3)
    by (cases x; simp only: run_op.simps op_ok.simps MC_malloc_def MC_builtin_new_def MC_builtin_vec_new_def
        MC_memalign_def MC_calloc_def MC_free_def MC_builtin_delete_def MC_builtin_vec_delete_def)
      (rule alloc free, assumption?, simp?)+
qed

lemma run_mc_ok:
  "mc_ok s \<Longrightarrow> env_ok env \<Longrightarrow> mc_ops_ok env tid xs s \<Longrightarrow> \<exists>s'. run_mc env tid xs s = Inr s' \<and> mc_ok s'"
proof (induction xs arbitrary: s)
  case (Cons x xs)
  then have "op_ok env x s" by simp
  from run_op_ok [OF Cons.prems(1,2) this] obtain s1 where s1: "run_op env tid x s = Inr s1" "mc_ok s1" by blast
  with Cons.IH [OF s1(2) Cons.prems(2)] Cons.prems(3) show ?case by simp
qed simp

section \<open>Sizes\<close>

lemma usable_size:
  assumes i: "mc_inv s cs Q0 Q1" and j: "inj_on (data_of s) (set (concat cs))"
  shows "chunk_at s cs k m \<Longrightarrow> malloc_usable_size k s = Inr m"
    and "(\<And>m. \<not> chunk_at s cs k m) \<Longrightarrow> malloc_usable_size k s = Inr 0"
proof -
  note P = mc_inv_parts [OF i]
  from HT_lookup_spec [OF P(1), of k] obtain r where
    r: "HT_lookup (malloc_list s) k s = Inr r"
      "r = 0 \<and> (\<forall>q\<in>set (concat cs). key_of s q \<noteq> k) \<or> r \<in> set (concat cs) \<and> key_of s r = k" by blast
  show "malloc_usable_size k s = Inr m" if "chunk_at s cs k m"
  proof -
    from that obtain a where a: "a \<in> set (concat cs)" "data_of s a = k" "size_of s a = m"
      unfolding chunk_at_def by blast
    then have "r \<in> set (concat cs)" "key_of s r = k" using r(2) by blast+
    then have "r = a" using inj_onD [OF j, of r a] a(1,2) by simp
    moreover have "a \<noteq> 0" by (rule ht_parts(9) [OF P(1) a(1)])
    ultimately show ?thesis using r(1) a(3) by (simp add: malloc_usable_size_def)
  qed
  show "malloc_usable_size k s = Inr 0" if "\<And>m. \<not> chunk_at s cs k m"
    using that r unfolding chunk_at_def by (auto simp: malloc_usable_size_def simp del: set_concat)
qed

text \<open>The size of the block at \<open>k\<close> that the trace tells of, or 0.\<close>

definition traced_size :: "mc_state \<Rightarrow> nat \<Rightarrow> nat" where
  "traced_size s k = (case traced s k of None \<Rightarrow> 0 | Some m \<Rightarrow> m)"

lemma mc_ok_usable:
  assumes "mc_ok s"
  shows "malloc_usable_size k s = Inr (traced_size s k)"
proof -
  from assms obtain cs Q0 Q1 where i: "mc_inv s cs Q0 Q1" and t: "trace_agrees s cs"
    unfolding mc_ok_def by blast
  then have j: "inj_on (data_of s) (set (concat cs))" and
    t': "traced s k = Some m \<longleftrightarrow> chunk_at s cs k m" for m by (simp_all add: trace_agrees_def)
  show ?thesis
  proof (cases "traced s k")
    case None
    with usable_size(2) [OF i j, of k] t' show ?thesis by (simp add: traced_size_def)
  next
    case (Some m)
    then have "chunk_at s cs k m" using t' by blast
    from usable_size(1) [OF i j this] Some show ?thesis by (simp add: traced_size_def)
  qed
qed

section \<open>Reallocation\<close>

definition realloc_answers_ok :: "mc_env \<Rightarrow> nat \<Rightarrow> mc_state \<Rightarrow> bool" where
  "realloc_answers_ok env n s \<longleftrightarrow>
     (let p = cli_malloc env (ticks s) (clo_alignment env) n in
      p \<noteq> 0 \<longrightarrow> (\<forall>cs Q0 Q1. mc_inv s cs Q0 Q1 \<longrightarrow>
        (\<forall>a\<in>set (concat cs). data_of s a \<noteq> p) \<and> new_elt env (ticks s + 3) (set (concat cs @ Q0 @ Q1))))"

lemma joined_other:
  assumes "joined s cs a p n s' cs'" and "inj_on (data_of s) (set (concat cs))"
    and "\<And>q. q \<in> set (concat cs) \<Longrightarrow> data_of s q \<noteq> p"
  shows "inj_on (data_of s') (set (concat cs'))"
proof (rule inj_onI)
  fix x y assume xy: "x \<in> set (concat cs')" "y \<in> set (concat cs')" "data_of s' x = data_of s' y"
  have "set (concat cs') = insert a (set (concat cs))"
    using assms(1) mset_add_facts(2) [of "concat cs'" a "concat cs"] by (simp add: joined_def)
  moreover have "data_of s' a = p" "\<And>q. q \<in> set (concat cs) \<Longrightarrow> data_of s' q = data_of s q"
    using assms(1) by (auto simp: joined_def simp del: set_concat)
  ultimately show "x = y" using xy assms(3) inj_onD [OF assms(2), of x y] by (metis insertE)
qed

lemma realloc_moves:
  assumes i: "mc_inv s cs Q0 Q1" and env: "env_ok env"
    and a: "a \<noteq> 0" "a < 2 ^ 64" "a \<notin> set (concat cs @ Q0 @ Q1)"
    and b: "new_elt env (ticks s + 2) (insert a (set (concat cs @ Q0 @ Q1)))"
    and room: "length (concat cs) + 1 < 2 ^ 32"
  shows "\<exists>s' cs' Q0' Q1' b. bind_res (if n \<le> old then realloc_shrink env tid a p_old p old n s
        else realloc_grow env tid a p_old p old n s)
      (\<lambda>(mc', s6). bind_res (HT_add_node (malloc_list s6) mc' s6) (\<lambda>s7. Inr (p, s7))) = Inr (p, s')
    \<and> mc_inv s' cs' Q0' Q1' \<and> joined s cs b p n s' cs' \<and> traced s' = traced s"
proof -
  obtain b s6 where r: "(if n \<le> old then realloc_shrink env tid a p_old p old n s
        else realloc_grow env tid a p_old p old n s) = Inr (b, s6)" "replaced s cs (Q0 @ Q1) a b p n s6"
    using realloc_spec [OF i env a b, of tid p_old p old n] by (cases "n \<le> old") auto
  from r(2) obtain Q0' Q1' where q: "mc_inv s6 cs Q0' Q1'" "b \<noteq> 0" "b < 2 ^ 64" "b \<notin> set (concat cs @ Q0' @ Q1')"
    unfolding replaced_def by blast
  from mc_inv_add [OF q room] obtain s7 cs' where
    t: "HT_add_node (malloc_list s6) b s6 = Inr s7" "mc_inv s7 cs' Q0' Q1'"
      "mset (concat cs') = add_mset b (mset (concat cs))"
      "only_links (malloc_list s6) (insert b (set (concat cs))) s6 s7" by blast
  note M = only_links_more [OF t(4)]
  have k: "data_of s7 q = data_of s6 q" "size_of s7 q = size_of s6 q" for q
    using t(4) M(1) by (simp_all add: only_links_def)
  have "joined s cs b p n s7 cs'"
    unfolding joined_def k using t(3) r(2) unfolding replaced_def by metis
  moreover have "traced s7 = traced s" using r(2) M(16) by (simp add: replaced_def)
  ultimately show ?thesis using r(1) t(1,2) by auto
qed

text \<open>The allocator fails: the chunk goes back to the table.\<close>

lemma realloc_returns:
  assumes i: "mc_inv s cs1 Q0 Q1" and a: "a \<noteq> 0" "a < 2 ^ 64" "a \<notin> set (concat cs1 @ Q0 @ Q1)"
    and m: "mset (concat cs) = add_mset a (mset (concat cs1))" and room: "length (concat cs1) + 1 < 2 ^ 32"
  shows "\<exists>s' cs'. HT_add_node (malloc_list s) a s = Inr s' \<and> mc_inv s' cs' Q0 Q1
    \<and> set (concat cs') = set (concat cs) \<and> chunk_at s' cs' = chunk_at s cs
    \<and> (\<forall>q. data_of s' q = data_of s q) \<and> traced s' = traced s"
proof -
  from mc_inv_add [OF i a room] obtain s' cs' where
    t: "HT_add_node (malloc_list s) a s = Inr s'" "mc_inv s' cs' Q0 Q1"
      "mset (concat cs') = add_mset a (mset (concat cs1))"
      "only_links (malloc_list s) (insert a (set (concat cs1))) s s'" by blast
  note M = only_links_more [OF t(4)]
  have k: "data_of s' q = data_of s q" "size_of s' q = size_of s q" for q
    using t(4) M(1) by (simp_all add: only_links_def)
  have c: "set (concat cs') = set (concat cs)" using mset_add_facts(2) [OF t(3)] mset_add_facts(2) [OF m] by simp
  then have "chunk_at s' cs' = chunk_at s cs" unfolding chunk_at_def k c by simp
  with t(1,2) c k M(16) show ?thesis by blast
qed

lemma MC_realloc_spec:
  assumes i: "mc_inv s cs Q0 Q1" and j: "inj_on (data_of s) (set (concat cs))" and env: "env_ok env"
    and at: "chunk_at s cs p_old old" and n: "n < 2 ^ 62"
    and p: "p = cli_malloc env (ticks s) (clo_alignment env) n" and ok: "realloc_answers_ok env n s"
  shows "\<exists>s' cs' Q0' Q1'. MC_realloc env tid p_old n s = Inr (p, s') \<and> mc_inv s' cs' Q0' Q1'
    \<and> inj_on (data_of s') (set (concat cs')) \<and> traced s' = traced s
    \<and> (\<forall>k m. chunk_at s' cs' k m \<longleftrightarrow>
          (if p = 0 then chunk_at s cs k m else k = p \<and> m = n \<or> k \<noteq> p_old \<and> chunk_at s cs k m))"
proof -
  define s1 where "s1 = s\<lparr>cmalloc_n_frees := u64 (cmalloc_n_frees s + 1),
    cmalloc_n_mallocs := u64 (cmalloc_n_mallocs s + 1), cmalloc_bs_mallocd := u64 (cmalloc_bs_mallocd s + n)\<rparr>"
  have e1: "nodes s1 = nodes s" "tables s1 = tables s" "chunk s1 = chunk s" "malloc_list s1 = malloc_list s"
    "traced s1 = traced s" "ticks s1 = ticks s"
    by (simp_all add: s1_def traced_def)
  have i1: "mc_inv s1 cs Q0 Q1"
    by (rule mc_inv_frame [OF i]) (simp_all add: s1_def)
  from remove_chunk [OF i1, of p_old] obtain a s2 cs1 where
    r: "HT_remove (malloc_list s1) p_old s1 = Inr (a, s2)" "mc_inv s2 cs1 Q0 Q1"
      "only_links (malloc_list s1) (set (concat cs)) s1 s2" and
    c: "a = 0 \<and> (\<forall>q\<in>set (concat cs). data_of s1 q \<noteq> p_old) \<and> cs1 = cs
       \<or> a \<noteq> 0 \<and> a < 2 ^ 64 \<and> data_of s1 a = p_old \<and> data_of s2 a = p_old
         \<and> a \<notin> set (concat cs1 @ Q0 @ Q1) \<and> parted s1 cs a s2 cs1" by blast
  note M = only_links_more [OF r(3)]
  have "\<exists>q\<in>set (concat cs). data_of s1 q = p_old" using at e1(1) unfolding chunk_at_def by auto
  with c have a: "a \<noteq> 0" "a < 2 ^ 64" "a \<notin> set (concat cs1 @ Q0 @ Q1)" and
    a2: "data_of s1 a = p_old" "data_of s2 a = p_old" "parted s1 cs a s2 cs1" by blast+
  have ct: "chunk_at s1 cs = chunk_at s cs" and j1: "inj_on (data_of s1) (set (concat cs))"
    using e1 j by (simp_all add: chunk_at_def fun_eq_iff)
  note part = chunk_at_parted [OF a2(3) j1]
  define s3 where "s3 = (if MC_AllocMalloc \<noteq> allockind (chunk s2 a) then call (Freemismatch_error tid a) s2 else s2)"
  define s5 where "s5 = call (Cli_malloc (clo_alignment env) n p) (s3\<lparr>ticks := ticks s3 + 1\<rparr>)"
  have "aside 0 s2 s3"
    using aside_call [OF aside_refl [of s2] replay_quiet(7)] aside_refl [of s2] by (simp add: s3_def)
  from aside_call [OF aside_ask [OF this] replay_quiet(6)]
  have q5: "aside 1 s2 s5" by (simp add: s5_def)
  note A = aside_fields [OF q5]
  have i5: "mc_inv s5 cs1 Q0 Q1" by (rule mc_inv_aside [OF r(2) q5])
  have m: "mset (concat cs) = add_mset a (mset (concat cs1))" using a2(3) by (simp add: parted_def)
  have room: "length (concat cs1) + 1 < 2 ^ 32"
    using mset_add_facts(1) [OF m] ht_parts(7) [OF mc_inv_parts(1) [OF i]] by simp
  have t5: "ticks s5 = ticks s + 1" "traced s5 = traced s" using A(8,9) M(15,16) e1(5,6) by simp_all
  define fin where "fin = (if p = 0 then Inr (a, s5)
    else if n \<le> size_of s3 a then realloc_shrink env tid a p_old p (size_of s3 a) n s5
    else realloc_grow env tid a p_old p (size_of s3 a) n s5)"
  have silly: "\<not> complain_about_silly_args n" using n by (simp add: complain_about_silly_args_def)
  have p3: "p = cli_malloc env (ticks s3) (clo_alignment env) n"
    using p M(15) e1(6) by (simp add: s3_def)
  have mism: "(if MC_AllocMalloc \<noteq> allockind (chunk s2 a)
      then if p_old \<noteq> data_of s2 a then Inl Abort else Inr (call (Freemismatch_error tid a) s2)
      else Inr s2) = Inr s3" using a2(2) by (simp add: s3_def)
  have run: "MC_realloc env tid p_old n s = bind_res fin (\<lambda>(mc', s6).
      bind_res (HT_add_node (malloc_list s6) mc' s6) (\<lambda>s7. Inr (p, s7)))"
    unfolding MC_realloc_def Let_def s1_def [symmetric] r(1) ask_def
    by (simp only: silly a(1) if_False bind_res_simps prod.case mism p3 [symmetric] s5_def [symmetric]
        fin_def [symmetric])
  show ?thesis
  proof (cases "p = 0")
    case True
    from realloc_returns [OF i5 a m room] obtain s' cs' where
      t: "HT_add_node (malloc_list s5) a s5 = Inr s'" "mc_inv s' cs' Q0 Q1" "set (concat cs') = set (concat cs)"
        "chunk_at s' cs' = chunk_at s5 cs" "\<forall>q. data_of s' q = data_of s5 q" "traced s' = traced s5" by blast
    have k: "data_of s5 q = data_of s q" "size_of s5 q = size_of s q" for q
      using A(1,3) r(3) e1(1,3) M(1) by (simp_all add: only_links_def)
    have "chunk_at s' cs' = chunk_at s cs" unfolding t(4) unfolding chunk_at_def k by simp
    moreover have "inj_on (data_of s') (set (concat cs'))" using j t(5) k by (simp only: t(3)) 
    moreover have "MC_realloc env tid p_old n s = Inr (p, s')" unfolding run fin_def using True t(1) by simp
    ultimately show ?thesis
      using t(2,6) t5(2) True by (intro exI [of _ s'] exI [of _ cs'] exI [of _ Q0] exI [of _ Q1]) simp
  next
    case False
    have out: "\<And>q. q \<in> set (concat cs) \<Longrightarrow> data_of s q \<noteq> p" and
      el: "new_elt env (ticks s + 3) (set (concat cs @ Q0 @ Q1))"
      using ok i False unfolding realloc_answers_ok_def Let_def p [symmetric] by blast+
    have "insert a (set (concat cs1 @ Q0 @ Q1)) = set (concat cs @ Q0 @ Q1)"
      using mset_add_facts(2) [OF m] by auto
    then have el5: "new_elt env (ticks s5 + 2) (insert a (set (concat cs1 @ Q0 @ Q1)))"
      using el t5(1) by (simp add: eval_nat_numeral)
    from realloc_moves [OF i5 env a el5 room, of n "size_of s3 a" tid p_old p] obtain s' cs' Q0' Q1' b where
      t: "bind_res (if n \<le> size_of s3 a then realloc_shrink env tid a p_old p (size_of s3 a) n s5
        else realloc_grow env tid a p_old p (size_of s3 a) n s5)
      (\<lambda>(mc', s6). bind_res (HT_add_node (malloc_list s6) mc' s6) (\<lambda>s7. Inr (p, s7))) = Inr (p, s')"
      "mc_inv s' cs' Q0' Q1'" "joined s5 cs1 b p n s' cs'" "traced s' = traced s5" by blast
    have j5: "joined s2 cs1 b p n s' cs'" using t(3) unfolding joined_def A .
    have u: "u62 n = n" using n by (simp add: u62_def)
    have "set (concat cs1) \<subseteq> set (concat cs)" using mset_add_facts(2) [OF m] by blast
    moreover have "data_of s2 q = data_of s q" for q using r(3) e1(1) by (simp add: only_links_def)
    ultimately have "inj_on (data_of s') (set (concat cs'))"
      using out by (intro joined_other [OF j5 part(2)]) auto
    moreover have "MC_realloc env tid p_old n s = Inr (p, s')" unfolding run fin_def using False t(1) by simp
    moreover have "\<forall>k m. chunk_at s' cs' k m \<longleftrightarrow> k = p \<and> m = n \<or> k \<noteq> p_old \<and> chunk_at s cs k m"
      unfolding chunk_at_joined [OF j5] part(1) ct a2(1) u by blast
    ultimately show ?thesis
      using t(2,4) t5(2) False by (intro exI [of _ s'] exI [of _ cs'] exI [of _ Q0'] exI [of _ Q1']) simp
  qed
qed

section \<open>A first state\<close>

definition demo_env :: mc_env where
  "demo_env = \<lparr>clo_verbosity = 1, clo_xml = False, clo_freelist_vol = 50, clo_freelist_big_blocks = 1000,
     clo_malloc_fill = -1, clo_free_fill = -1, clo_alignment = 16,
     cli_malloc = (\<lambda>k al n. 4096 * (k + 1)), allocEltPA = (\<lambda>k. 2 ^ 33 + 64 * k), vg_malloc = (\<lambda>k. 2 ^ 34 + 64 * k),
     get_running_tid = (\<lambda>k. 1), record_ExeContext = (\<lambda>k tid. 7), get_ECU = (\<lambda>ec. 4),
     is_plausible_ECU = (\<lambda>ecu. True), check_mem_is_noaccess = (\<lambda>k p. True)\<rparr>"

definition demo_mc :: mc_state where
  "demo_mc = \<lparr>nodes = (\<lambda>p. \<lparr>n_next = 0, n_key = 0\<rparr>),
     tables = (\<lambda>t. \<lparr>n_chains = 769, n_elements = 0, iterNode = 0, iterChain = 0, chains = replicate 769 0,
       iterOK = True, name = 1\<rparr>),
     chunk = (\<lambda>p. \<lparr>szB = 0, allockind = MC_AllocMalloc, where_ec = 0\<rparr>),
     mempool = (\<lambda>p. \<lparr>rzB = 0, is_zeroed = False, mp_chunks = 0\<rparr>), malloc_list = 5000, mempool_list = 6000,
     freed_list_start = (\<lambda>i. 0), freed_list_end = (\<lambda>i. 0), free_queue_volume = 0, free_queue_length = 0,
     cmalloc_n_mallocs = 0, cmalloc_n_frees = 0, cmalloc_bs_mallocd = 0, g_memory_start = 2 ^ 64 - 1,
     g_memory_end = 0, pool_tick = 0, log = [], ticks = 0\<rparr>"

lemma demo_env_ok: "env_ok demo_env"
  by (simp add: env_ok_def demo_env_def)

lemma demo_mc_inv: "mc_inv demo_mc (replicate 769 []) [] []"
proof -
  have "heads demo_mc (replicate 769 0) (replicate 769 [])" by (rule heads_replicate)
  moreover have "hashed demo_mc (replicate 769 [])" by (rule hashed_replicate)
  ultimately show ?thesis
    by (simp add: mc_inv_def ht_def queue_def demo_mc_def primes_def)
qed

lemma demo_mc_ok: "mc_ok demo_mc"
proof -
  have "trace_agrees demo_mc (replicate 769 [])"
    by (simp add: trace_agrees_def chunk_at_def traced_def demo_mc_def)
  with demo_mc_inv show ?thesis unfolding mc_ok_def by blast
qed

text \<open>The state determines the chains and the queues.\<close>

lemma chain_determines: "chain f p xs z \<Longrightarrow> chain f p ys z \<Longrightarrow> z \<notin> set xs \<Longrightarrow> z \<notin> set ys \<Longrightarrow> xs = ys"
proof (induction xs arbitrary: p ys)
  case Nil
  then show ?case by (cases ys) auto
next
  case (Cons x xs)
  then show ?case by (cases ys) auto
qed

lemma mc_inv_determines:
  assumes "mc_inv s cs Q0 Q1" and "mc_inv s ds R0 R1"
  shows "ds = cs" and "R0 = Q0" and "R1 = Q1"
proof -
  note P = mc_inv_parts [OF assms(1)] and R = mc_inv_parts [OF assms(2)]
  show "R0 = Q0" "R1 = Q1"
    using P(2,3) R(2,3) chain_determines [where z = 0] chain_nonnull unfolding queue_def by metis+
  have "length ds = length cs" using ht_parts(2) [OF P(1)] ht_parts(2) [OF R(1)] by simp
  then show "ds = cs"
  proof (rule nth_equalityI)
    fix i assume i: "i < length ds"
    show "ds ! i = cs ! i"
      using heads_nth(2) [OF ht_parts(3) [OF R(1)], of i] heads_nth(2) [OF ht_parts(3) [OF P(1)], of i] i \<open>length ds = length cs\<close>
        chain_determines [where z = 0] chain_nonnull by metis
  qed
qed

text \<open>The state after an allocation of 100 bytes.\<close>

lemma demo_malloc_100:
  obtains s cs where "run_op demo_env 1 (Malloc 100) demo_mc = Inr s" and "mc_ok s" and "mc_inv s cs [] []"
    and "set (concat cs) = {2 ^ 33 + 128}" and "data_of s (2 ^ 33 + 128) = 4096" and "ticks s = 4"
    and "traced s = [4096 \<mapsto> 100]"
proof -
  have p: "4096 = cli_malloc demo_env (ticks demo_mc) 16 100" by (simp add: demo_env_def demo_mc_def)
  have el: "new_elt demo_env (ticks demo_mc + 2) (set (concat (replicate 769 []) @ [] @ []))"
    by (simp add: new_elt_def demo_env_def demo_mc_def)
  from new_block_spec [OF demo_mc_inv demo_env_ok _ p _ el, of MC_AllocMalloc 1 False]
  obtain s cs Q0 Q1 a where
    r: "new_block demo_env 1 0 100 16 False MC_AllocMalloc (malloc_list demo_mc) demo_mc = Inr (4096, s)"
      "a = allocEltPA demo_env (ticks demo_mc + 2)" "ticks s = ticks demo_mc + 4"
      "mc_inv s cs Q0 Q1" "joined demo_mc (replicate 769 []) a 4096 100 s cs"
      "traced s = (traced demo_mc)(u32 4096 \<mapsto> u32 100)" "set (Q0 @ Q1) \<subseteq> set ([] @ [])" by auto
  have a: "a = 2 ^ 33 + 128" using r(2) by (simp add: demo_env_def demo_mc_def)
  have t: "traced s = [4096 \<mapsto> 100]" using r(6) by (simp add: u32_def demo_mc_def traced_def)
  have "concat cs = [a]" and d: "data_of s a = 4096" "size_of s a = 100"
    using r(5) by (simp_all add: joined_def u62_def)
  then have c: "set (concat cs) = {a}" by simp
  have q: "Q0 = []" "Q1 = []" using r(7) by simp_all
  have "trace_agrees s cs"
    unfolding trace_agrees_def chunk_at_def c t using d by auto
  with r(4) have "mc_ok s" unfolding mc_ok_def by blast
  moreover have "run_op demo_env 1 (Malloc 100) demo_mc = Inr s"
    using r(1) by (simp add: MC_malloc_def complain_about_silly_args_def demo_env_def)
  ultimately show thesis
    using that [of s cs] r(3,4) c d(1) t unfolding q a by (simp add: demo_mc_def)
qed

lemma demo_answers_ok: "answers_ok demo_env 16 100 demo_mc"
proof -
  have p: "cli_malloc demo_env (ticks demo_mc) 16 100 = 4096" and el: "new_elt demo_env (ticks demo_mc + 2) {}"
    by (simp_all add: new_elt_def demo_env_def demo_mc_def)
  have "(\<forall>a\<in>set (concat cs). data_of demo_mc a \<noteq> 4096) \<and> length (concat cs) + 1 < 2 ^ 32
      \<and> new_elt demo_env (ticks demo_mc + 2) (set (concat cs @ Q0 @ Q1))" if "mc_inv demo_mc cs Q0 Q1" for cs Q0 Q1
    using mc_inv_determines [OF demo_mc_inv that] el by simp
  then show ?thesis unfolding answers_ok_def Let_def p by simp
qed

section \<open>Properties\<close>

text \<open>
  C36. A program that allocates and frees, in any order and with any addresses below \<open>2 ^ 32\<close>, runs
  without a failed assertion, and at its end the trace tells the truth: for every address the size
  of the block that the trace's \<open>N\<close> and \<open>F\<close> lines leave there is the usable size that Memcheck
  answers from its table, and 0 where there is none.
\<close>

theorem programs_keep_trace:
  assumes "mc_ok s" and "env_ok env" and "mc_ops_ok env tid xs s"
  shows "\<exists>s'. run_mc env tid xs s = Inr s' \<and> mc_ok s'
    \<and> (\<forall>k. malloc_usable_size k s' = Inr (traced_size s' k))"
  using run_mc_ok [OF assms] mc_ok_usable by blast

theorem programs_keep_trace_witness:
  "\<exists>s'. run_mc demo_env 1 [Malloc 100, Free 8] demo_mc = Inr s' \<and> mc_ok s'
     \<and> malloc_usable_size 4096 s' = Inr 100"
proof -
  obtain s cs where s: "run_op demo_env 1 (Malloc 100) demo_mc = Inr s" "mc_inv s cs [] []"
    "traced s = [4096 \<mapsto> 100]" by (rule demo_malloc_100)
  have "mc_ops_ok demo_env 1 [Malloc 100, Free 8] demo_mc"
    using s(1) demo_answers_ok by (simp add: demo_env_def split: sum.split)
  from programs_keep_trace [OF demo_mc_ok demo_env_ok this] obtain t where
    t: "run_mc demo_env 1 [Malloc 100, Free 8] demo_mc = Inr t" "mc_ok t"
      "\<forall>k. malloc_usable_size k t = Inr (traced_size t k)" by blast
  from handle_free_spec [OF s(2) demo_env_ok, of 1 8 MC_MALLOC_REDZONE_SZB MC_AllocMalloc]
  have "traced t = (traced s)(8 := None)"
    using t(1) s(1) by (auto simp: MC_free_def u32_def)
  then have "traced_size t 4096 = 100" using s(3) by (simp add: traced_size_def)
  with t show ?thesis by auto
qed

text \<open>
  C37. \<open>release_oldest_block\<close> brings the volume of the freed blocks down to the limit, and no
  further than needed: the blocks it releases are the oldest of the queue of large blocks and, once
  that is empty, of the queue of small ones; each is given back once, in that order.
\<close>

theorem release_oldest_block_contract:
  assumes "mc_inv s cs Q0 Q1" and "env_ok env" and "free_queue_volume s > clo_freelist_vol env"
  shows "\<exists>s' R0 Q0' R1 Q1'. release_oldest_block env s = Inr s' \<and> mc_inv s' cs Q0' Q1'
    \<and> Q0 = R0 @ Q0' \<and> Q1 = R1 @ Q1' \<and> (R1 \<noteq> [] \<longrightarrow> Q0' = [])
    \<and> free_queue_volume s' = volume_of s (Q0' @ Q1') \<and> free_queue_volume s' \<le> clo_freelist_vol env
    \<and> free_queue_volume s' + int (size_of s (last (R0 @ R1))) > clo_freelist_vol env
    \<and> log s' = log s @ concat (map (free_calls s) (R0 @ R1))"
proof -
  have "free_queue_volume t = volume_of s Q" if "queue_frame N s t" "mc_inv t cs R R'" "Q = R @ R'" for N t R R' Q
    using that(1,3) mc_inv_parts(6) [OF that(2)] volume_of_cong [of "R @ R'" t s] by (simp add: queue_frame_def)
  then show ?thesis using release_oldest_block_inv [OF assms] by blast
qed

theorem release_oldest_block_contract_witness:
  "\<exists>s s'. free_queue_volume s = 70 \<and> release_oldest_block demo_env s = Inr s'
     \<and> free_queue_volume s' \<le> 50 \<and> log s' = [Cli_free 4096, Elt_free 64]"
proof -
  define s where "s = demo_mc\<lparr>nodes := (nodes demo_mc)(64 := \<lparr>n_next = 128, n_key = 4096\<rparr>),
    chunk := (chunk demo_mc)(64 := \<lparr>szB = 40, allockind = MC_AllocMalloc, where_ec = 7\<rparr>,
      128 := \<lparr>szB = 30, allockind = MC_AllocMalloc, where_ec = 7\<rparr>),
    freed_list_start := (freed_list_start demo_mc)(1 := 64),
    freed_list_end := (freed_list_end demo_mc)(1 := 128), free_queue_volume := 70\<rparr>"
  have "heads s (replicate 769 0) (replicate 769 [])" by (rule heads_replicate)
  moreover have "hashed s (replicate 769 [])" by (rule hashed_replicate)
  ultimately have i: "mc_inv s (replicate 769 []) [] [64, 128]"
    by (simp add: mc_inv_def ht_def queue_def s_def demo_mc_def primes_def)
  have v: "free_queue_volume s > clo_freelist_vol demo_env" "clo_freelist_vol demo_env = 50" "log s = []"
    by (simp_all add: s_def demo_env_def demo_mc_def)
  from release_oldest_block_contract [OF i demo_env_ok v(1)] obtain s' R Q where
    r: "release_oldest_block demo_env s = Inr s'" "[64, 128] = R @ Q" "mc_inv s' (replicate 769 []) [] Q"
      "free_queue_volume s' \<le> 50" "free_queue_volume s' + int (size_of s (last R)) > 50"
      "free_queue_volume s' = volume_of s Q" "log s' = concat (map (free_calls s) R)"
    unfolding v(2,3) by auto
  have "R = [] \<and> Q = [64, 128] \<or> R = [64] \<and> Q = [128] \<or> R = [64, 128] \<and> Q = []"
    using r(2) by (auto simp: Cons_eq_append_conv)
  then have "R = [64]" using r(4-6) by (elim disjE) (simp_all add: s_def)
  then have "log s' = [Cli_free 4096, Elt_free 64]"
    using r(7) by (simp add: free_calls_def s_def)
  with r(1,4) show ?thesis by (intro exI [of _ s] exI [of _ s']) (simp add: s_def)
qed

text \<open>
  C38. A reallocation is missing from the trace. \<open>realloc\<close> of a block that the trace tells of
  succeeds whenever the allocator does: afterwards the new address has the new size and the old one
  has none, but the trace still tells of the old block and not of the new one. When the allocator
  fails the result is null and nothing has changed for either.
\<close>

theorem realloc_missing_from_trace:
  assumes "mc_ok s" and "env_ok env" and "traced s p_old = Some old" and "n < 2 ^ 62"
    and "p = cli_malloc env (ticks s) (clo_alignment env) n" and "realloc_answers_ok env n s"
  shows "\<exists>s'. MC_realloc env tid p_old n s = Inr (p, s') \<and> traced s' = traced s
    \<and> (p = 0 \<longrightarrow> mc_ok s')
    \<and> (p \<noteq> 0 \<longrightarrow> malloc_usable_size p s' = Inr n \<and> traced s' p = None
        \<and> malloc_usable_size p_old s' = Inr 0 \<and> traced s' p_old = Some old)"
proof -
  from assms(1) obtain cs Q0 Q1 where i: "mc_inv s cs Q0 Q1" and t: "trace_agrees s cs"
    unfolding mc_ok_def by blast
  have j: "inj_on (data_of s) (set (concat cs))" and a: "\<And>k m. traced s k = Some m \<longleftrightarrow> chunk_at s cs k m"
    and b: "\<And>k m. chunk_at s cs k m \<Longrightarrow> k < 2 ^ 32" using t unfolding trace_agrees_def by blast+
  have old: "chunk_at s cs p_old old" using assms(3) a by blast
  from MC_realloc_spec [OF i j assms(2) old assms(4-6), of tid] obtain s' cs' Q0' Q1' where
    r: "MC_realloc env tid p_old n s = Inr (p, s')" "mc_inv s' cs' Q0' Q1'"
      "inj_on (data_of s') (set (concat cs'))" "traced s' = traced s" and
    c: "\<And>k m. chunk_at s' cs' k m \<longleftrightarrow>
          (if p = 0 then chunk_at s cs k m else k = p \<and> m = n \<or> k \<noteq> p_old \<and> chunk_at s cs k m)" by blast
  have "mc_ok s'" if "p = 0"
  proof -
    have "chunk_at s' cs' = chunk_at s cs" using c that by (simp add: fun_eq_iff)
    then have "trace_agrees s' cs'" using r(3,4) t by (simp add: trace_agrees_def)
    with r(2) show ?thesis unfolding mc_ok_def by blast
  qed
  moreover have "malloc_usable_size p s' = Inr n \<and> traced s' p = None
      \<and> malloc_usable_size p_old s' = Inr 0 \<and> traced s' p_old = Some old" if "p \<noteq> 0"
  proof -
    have "\<And>q. q \<in> set (concat cs) \<Longrightarrow> data_of s q \<noteq> p"
      using assms(6) i that unfolding realloc_answers_ok_def Let_def assms(5) [symmetric] by blast
    then have no: "\<not> chunk_at s cs p m" for m unfolding chunk_at_def by blast
    with old have "p_old \<noteq> p" by blast
    moreover have "malloc_usable_size p s' = Inr n" by (rule usable_size(1) [OF r(2,3)]) (simp add: c that)
    moreover have "malloc_usable_size p_old s' = Inr 0"
      by (rule usable_size(2) [OF r(2,3)]) (use c that \<open>p_old \<noteq> p\<close> in simp)
    moreover have "traced s p = None" using no a by (metis option.exhaust)
    ultimately show ?thesis using r(4) assms(3) by simp
  qed
  ultimately show ?thesis using r(1,4) by blast
qed

theorem realloc_missing_from_trace_witness:
  "\<exists>s s'. run_op demo_env 1 (Malloc 100) demo_mc = Inr s \<and> MC_realloc demo_env 1 4096 200 s = Inr (20480, s')
     \<and> malloc_usable_size 20480 s' = Inr 200 \<and> traced s' = [4096 \<mapsto> 100]"
proof -
  obtain s cs where s: "run_op demo_env 1 (Malloc 100) demo_mc = Inr s" "mc_ok s" "mc_inv s cs [] []"
    "set (concat cs) = {2 ^ 33 + 128}" "data_of s (2 ^ 33 + 128) = 4096" "ticks s = 4" "traced s = [4096 \<mapsto> 100]"
    by (rule demo_malloc_100)
  have p: "20480 = cli_malloc demo_env (ticks s) (clo_alignment demo_env) 200" using s(6) by (simp add: demo_env_def)
  have el: "new_elt demo_env (ticks s + 3) {2 ^ 33 + 128}" by (simp add: new_elt_def demo_env_def s(6))
  have "(\<forall>a\<in>set (concat ds). data_of s a \<noteq> 20480) \<and> new_elt demo_env (ticks s + 3) (set (concat ds @ Q0 @ Q1))"
    if "mc_inv s ds Q0 Q1" for ds Q0 Q1
    using mc_inv_determines [OF s(3) that] el s(4,5) by (simp del: set_concat)
  then have "realloc_answers_ok demo_env 200 s"
    unfolding realloc_answers_ok_def Let_def p [symmetric] by blast
  from realloc_missing_from_trace [OF s(2) demo_env_ok _ _ p this, of 4096 100 1] s(1,7)
  show ?thesis by auto
qed

end
