(* ===== verification/Vg_Sorted.thy ===== *)
theory Vg_Sorted
  imports Vg_Sort "HOL-Library.Multiset"
begin

text \<open>
  \<open>bm_qsort\<close> sorts: the array is cut into the segments that its pointers bound, and each loop is
  described by what it does to them.
\<close>

section \<open>Access to segments\<close>

abbreviation len :: "'e list \<Rightarrow> int" where
  "len xs \<equiv> int (length xs)"

lemma rd_mid: "i = len A \<Longrightarrow> rd (A @ x # B) i = Inr x"
  by (simp add: rd_def)

lemma rd_in: "0 \<le> i \<Longrightarrow> i < len xs \<Longrightarrow> rd xs i = Inr (xs ! nat i)"
  by (simp add: rd_def)

lemma bm_swap_mid:
  assumes "i = len A" and "j = len A + 1 + len B"
  shows "bm_swap (A @ x # B @ y # C) i j = Inr (A @ y # B @ x # C)"
    and "bm_swap (A @ x # B @ y # C) j i = Inr (A @ y # B @ x # C)"
proof -
  have r: "rd (A @ x # B @ y # C) i = Inr x" "rd (A @ x # B @ y # C) j = Inr y"
    using rd_mid [OF assms(1)] rd_mid [of j "A @ x # B" y C] assms(2) by simp_all
  have n: "nat i = length A" "nat j = length A + Suc (length B)" using assms by auto
  show "bm_swap (A @ x # B @ y # C) i j = Inr (A @ y # B @ x # C)"
    and "bm_swap (A @ x # B @ y # C) j i = Inr (A @ y # B @ x # C)"
    unfolding bm_swap_def r by (simp_all add: n list_update_append)
qed

lemma bm_swap_self: "i = len A \<Longrightarrow> bm_swap (A @ x # B) i i = Inr (A @ x # B)"
  by (simp add: bm_swap_def rd_mid)

text \<open>Exchange of equally long segments, and so of neighbours of any length.\<close>

lemma bm_swapfunc_segments:
  assumes "length A = n" and "length C = n" and "a = len X" and "b = len X + len A + len B"
  shows "bm_swapfunc n a b (X @ A @ B @ C @ Y) = Inr (X @ C @ B @ A @ Y)"
  using assms
proof (induction n arbitrary: X A B C a b)
  case (Suc n)
  then obtain x A' y C' where A: "A = x # A'" and C: "C = y # C'" by (metis length_Suc_conv)
  have "bm_swap (X @ x # (A' @ B) @ y # C' @ Y) a b = Inr (X @ y # (A' @ B) @ x # C' @ Y)"
    using Suc.prems A by (intro bm_swap_mid) simp_all
  moreover have "bm_swapfunc n (a + 1) (b + 1) ((X @ [y]) @ A' @ (B @ [x]) @ C' @ Y)
      = Inr ((X @ [y]) @ C' @ (B @ [x]) @ A' @ Y)"
    using Suc.prems A C by (intro Suc.IH) simp_all
  ultimately show ?case by (simp add: A C)
qed simp

lemma exchange_neighbours:
  assumes "s = (if len A < len B then len A else len B)" and "a = len X" and "b = len X + len A + len B - s"
  shows "\<exists>B' A'. (if s > 0 then bm_swapfunc (nat s) a b (X @ A @ B @ Y) else Inr (X @ A @ B @ Y))
      = Inr (X @ B' @ A' @ Y) \<and> mset B' = mset B \<and> mset A' = mset A"
proof (cases "len A < len B")
  case True
  let ?B1 = "take (length B - length A) B" and ?B2 = "drop (length B - length A) B"
  have B: "B = ?B1 @ ?B2" by simp
  have "bm_swapfunc (nat s) a b (X @ A @ ?B1 @ ?B2 @ Y) = Inr (X @ ?B2 @ ?B1 @ A @ Y)"
    using True assms by (intro bm_swapfunc_segments) auto
  then have "bm_swapfunc (nat s) a b (X @ A @ B @ Y) = Inr (X @ (?B2 @ ?B1) @ A @ Y)"
    by (metis B append.assoc)
  moreover have "mset (?B2 @ ?B1) = mset B" by (metis B mset_append add.commute)
  moreover have "A = []" if "\<not> s > 0" using that True assms(1) by simp
  ultimately show ?thesis
    by (cases "s > 0") (intro exI [of _ "?B2 @ ?B1"] exI [of _ "A"], simp, intro exI [of _ "B"] exI [of _ "A"], simp)
next
  case False
  let ?A1 = "take (length B) A" and ?A2 = "drop (length B) A"
  have A: "A = ?A1 @ ?A2" by simp
  have "bm_swapfunc (nat s) a b (X @ ?A1 @ ?A2 @ B @ Y) = Inr (X @ B @ ?A2 @ ?A1 @ Y)"
    using False assms by (intro bm_swapfunc_segments) auto
  then have "bm_swapfunc (nat s) a b (X @ A @ B @ Y) = Inr (X @ B @ (?A2 @ ?A1) @ Y)"
    by (metis A append.assoc)
  moreover have "mset (?A2 @ ?A1) = mset A" by (metis A mset_append add.commute)
  moreover have "B = []" if "\<not> s > 0" using that False assms(1) by simp
  ultimately show ?thesis
    by (cases "s > 0") (intro exI [of _ "B"] exI [of _ "?A2 @ ?A1"], simp, intro exI [of _ "B"] exI [of _ "A"], simp)
qed

section \<open>Comparisons\<close>

definition cmp_by :: "('e \<Rightarrow> 'e \<Rightarrow> int) \<Rightarrow> ('e \<Rightarrow> nat) \<Rightarrow> bool" where
  "cmp_by cmp f \<longleftrightarrow> (\<forall>x y. (cmp x y < 0 \<longleftrightarrow> f x < f y) \<and> (cmp x y > 0 \<longleftrightarrow> f x > f y))"

lemma cmp_by_iffs:
  assumes "cmp_by cmp f"
  shows "cmp x y < 0 \<longleftrightarrow> f x < f y" "cmp x y > 0 \<longleftrightarrow> f x > f y" "cmp x y \<le> 0 \<longleftrightarrow> f x \<le> f y"
    "cmp x y \<ge> 0 \<longleftrightarrow> f x \<ge> f y" "cmp x y = 0 \<longleftrightarrow> f x = f y"
proof -
  have c: "cmp x y < 0 \<longleftrightarrow> f x < f y" "cmp x y > 0 \<longleftrightarrow> f x > f y" using assms by (auto simp: cmp_by_def)
  then show "cmp x y < 0 \<longleftrightarrow> f x < f y" "cmp x y > 0 \<longleftrightarrow> f x > f y" "cmp x y \<le> 0 \<longleftrightarrow> f x \<le> f y"
    "cmp x y \<ge> 0 \<longleftrightarrow> f x \<ge> f y" "cmp x y = 0 \<longleftrightarrow> f x = f y" by linarith+
qed

section \<open>Scanning\<close>

lemma scan_up_spec:
  assumes c: "cmp_by cmp f" and "\<And>x. x \<in> set E \<Longrightarrow> f x = f v" and "\<And>x. x \<in> set L \<Longrightarrow> f x < f v"
    and "pa = len P + len E" and "pb = len P + len E + len L" and "pc = pb + len M - 1"
  shows "\<exists>E' L' M'. scan_up cmp (Saved v) pa pb pc (P @ E @ L @ M @ R)
      = Inr (len P + len E', len P + len E' + len L', P @ E' @ L' @ M' @ R)
    \<and> (\<forall>x\<in>set E'. f x = f v) \<and> (\<forall>x\<in>set L'. f x < f v) \<and> mset (E' @ L' @ M') = mset (E @ L @ M)
    \<and> length M' \<le> length M \<and> (M' \<noteq> [] \<longrightarrow> f (hd M') > f v)"
  using assms(2-)
proof (induction M arbitrary: E L pa pb)
  case Nil
  then show ?case
    by (subst scan_up.simps) (intro exI [of _ E] exI [of _ L] exI [of _ "[]"], simp)
next
  case (Cons m M)
  let ?xs = "P @ E @ L @ (m # M) @ R"
  have r: "rd ?xs pb = Inr m" using rd_mid [of pb "P @ E @ L" m "M @ R"] Cons.prems(4) by simp
  have in_range: "pb \<le> pc" using Cons.prems(5) by simp
  note I = cmp_by_iffs [OF c, of m v]
  consider "f m > f v" | "f m < f v" | "f m = f v" by linarith
  then show ?case
  proof cases
    case 1
    then have "scan_up cmp (Saved v) pa pb pc ?xs = Inr (pa, pb, ?xs)"
      using in_range r I by (subst scan_up.simps) (simp add: Let_def pivot_value_def)
    with 1 Cons.prems show ?thesis
      by (intro exI [of _ E] exI [of _ L] exI [of _ "m # M"]) simp
  next
    case 2
    then have "scan_up cmp (Saved v) pa pb pc ?xs = scan_up cmp (Saved v) pa (pb + 1) pc (P @ E @ (L @ [m]) @ M @ R)"
      using in_range r I by (subst scan_up.simps) (simp add: Let_def pivot_value_def)
    with Cons.IH [of E "L @ [m]" pa "pb + 1"] Cons.prems 2 show ?thesis by (fastforce simp: ac_simps)
  next
    case 3
    obtain L' where L': "bm_swap ?xs pa pb = Inr (P @ (E @ [m]) @ L' @ M @ R)" "mset L' = mset L"
    proof (cases L)
      case Nil
      then show ?thesis
        using bm_swap_self [of pa "P @ E" m "M @ R"] Cons.prems(3,4) by (intro that [of "[]"]) simp_all
    next
      case (Cons l K)
      then show ?thesis
        using bm_swap_mid(1) [of pa "P @ E" pb K l m "M @ R"] Cons.prems(3,4)
        by (intro that [of "K @ [l]"]) simp_all
    qed
    have "set L' = set L" "length L' = length L" using L'(2) by (metis mset_eq_setD, metis mset_eq_length)
    moreover have "scan_up cmp (Saved v) pa pb pc ?xs = scan_up cmp (Saved v) (pa + 1) (pb + 1) pc (P @ (E @ [m]) @ L' @ M @ R)"
      using in_range r I 3 L'(1) by (subst scan_up.simps) (simp add: Let_def pivot_value_def)
    ultimately show ?thesis
      using Cons.IH [of "E @ [m]" L' "pa + 1" "pb + 1"] Cons.prems 3 L'(2) by (fastforce simp: ac_simps)
  qed
qed

lemma scan_down_spec:
  assumes c: "cmp_by cmp f" and "\<And>x. x \<in> set E \<Longrightarrow> f x = f v" and "\<And>x. x \<in> set G \<Longrightarrow> f x > f v"
    and "pb = len R" and "pc = len R + len M - 1" and "pd = len R + len M + len G - 1"
  shows "\<exists>E' G' M'. scan_down cmp (Saved v) pb pc pd (R @ M @ G @ E @ Q)
      = Inr (len R + len M' - 1, len R + len M' + len G' - 1, R @ M' @ G' @ E' @ Q)
    \<and> (\<forall>x\<in>set E'. f x = f v) \<and> (\<forall>x\<in>set G'. f x > f v) \<and> mset (M' @ G' @ E') = mset (M @ G @ E)
    \<and> length M' \<le> length M \<and> (M' \<noteq> [] \<longrightarrow> f (last M') < f v) \<and> (\<exists>K. M = M' @ K)"
  using assms(2-)
proof (induction M arbitrary: E G pc pd rule: rev_induct)
  case Nil
  then show ?case
    by (subst scan_down.simps) (intro exI [of _ E] exI [of _ G] exI [of _ "[]"], simp)
next
  case (snoc m M)
  let ?xs = "R @ (M @ [m]) @ G @ E @ Q"
  have r: "rd ?xs pc = Inr m" using rd_mid [of pc "R @ M" m "G @ E @ Q"] snoc.prems(4) by simp
  have in_range: "pc \<ge> pb" using snoc.prems(3,4) by simp
  note I = cmp_by_iffs [OF c, of m v]
  consider "f m < f v" | "f m > f v" | "f m = f v" by linarith
  then show ?case
  proof cases
    case 1
    then have "scan_down cmp (Saved v) pb pc pd ?xs = Inr (pc, pd, ?xs)"
      using in_range r I by (subst scan_down.simps) (simp add: Let_def pivot_value_def)
    with 1 snoc.prems show ?thesis
      by (intro exI [of _ E] exI [of _ G] exI [of _ "M @ [m]"]) simp
  next
    case 2
    then have "scan_down cmp (Saved v) pb pc pd ?xs = scan_down cmp (Saved v) pb (pc - 1) pd (R @ M @ (m # G) @ E @ Q)"
      using in_range r I by (subst scan_down.simps) (simp add: Let_def pivot_value_def)
    with snoc.IH [of E "m # G" "pc - 1" pd] snoc.prems 2 show ?thesis by (fastforce simp: ac_simps)
  next
    case 3
    obtain G' where G': "bm_swap ?xs pc pd = Inr (R @ M @ G' @ (m # E) @ Q)" "mset G' = mset G"
    proof (cases G rule: rev_cases)
      case Nil
      then show ?thesis
        using bm_swap_self [of pc "R @ M" m "E @ Q"] snoc.prems(4,5) by (intro that [of "[]"]) simp_all
    next
      case (snoc K g)
      then show ?thesis
        using bm_swap_mid(1) [of pc "R @ M" pd K m g "E @ Q"] snoc.prems(4,5)
        by (intro that [of "g # K"]) simp_all
    qed
    have "set G' = set G" "length G' = length G" using G'(2) by (metis mset_eq_setD, metis mset_eq_length)
    moreover have "scan_down cmp (Saved v) pb pc pd ?xs = scan_down cmp (Saved v) pb (pc - 1) (pd - 1) (R @ M @ G' @ (m # E) @ Q)"
      using in_range r I 3 G'(1) by (subst scan_down.simps) (simp add: Let_def pivot_value_def)
    ultimately show ?thesis
      using snoc.IH [of "m # E" G' "pc - 1" "pd - 1"] snoc.prems 3 G'(2) by (fastforce simp: ac_simps)
  qed
qed

section \<open>The partition\<close>

text \<open>
  The loop ends with no element left between the pointers: equal ones at the left end, smaller
  ones, larger ones, equal ones at the right end.
\<close>

lemma partition_loop_spec:
  assumes c: "cmp_by cmp f"
  shows "\<lbrakk>length M < fuel; \<And>x. x \<in> set E1 \<union> set E2 \<Longrightarrow> f x = f v; \<And>x. x \<in> set L \<Longrightarrow> f x < f v;
      \<And>x. x \<in> set G \<Longrightarrow> f x > f v; pa = len P + len E1; pb = pa + len L; pc = pb + len M - 1;
      pd = pc + len G\<rbrakk> \<Longrightarrow>
    \<exists>E1' L' G' E2'. partition_loop fuel cmp (Saved v) pa pb pc pd (P @ E1 @ L @ M @ G @ E2 @ Q)
      = Inr (len P + len E1', len P + len E1' + len L', len P + len E1' + len L' - 1,
          len P + len E1' + len L' + len G' - 1, P @ E1' @ L' @ G' @ E2' @ Q)
    \<and> (\<forall>x\<in>set E1' \<union> set E2'. f x = f v) \<and> (\<forall>x\<in>set L'. f x < f v) \<and> (\<forall>x\<in>set G'. f x > f v)
    \<and> mset (E1' @ L' @ G' @ E2') = mset (E1 @ L @ M @ G @ E2)"
proof (induction fuel arbitrary: M E1 L G E2 pa pb pc pd)
  case (Suc fuel)
  have e1: "\<And>x. x \<in> set E1 \<Longrightarrow> f x = f v" and e2: "\<And>x. x \<in> set E2 \<Longrightarrow> f x = f v"
    and lg: "\<And>x. x \<in> set L \<Longrightarrow> f x < f v" "\<And>x. x \<in> set G \<Longrightarrow> f x > f v" using Suc.prems by auto
  have pb: "pb = len P + len E1 + len L" and pc: "pc = pb + len M - 1" using Suc.prems by simp_all
  from scan_up_spec [where E = E1 and L = L and R = "G @ E2 @ Q", OF c e1 lg(1) Suc.prems(5) pb pc] obtain E1' L' M' where
    u: "scan_up cmp (Saved v) pa pb pc (P @ E1 @ L @ M @ G @ E2 @ Q)
      = Inr (len P + len E1', len P + len E1' + len L', P @ E1' @ L' @ M' @ G @ E2 @ Q)"
      "\<forall>x\<in>set E1'. f x = f v" "\<forall>x\<in>set L'. f x < f v" "mset (E1' @ L' @ M') = mset (E1 @ L @ M)"
      "length M' \<le> length M" "M' \<noteq> [] \<longrightarrow> f (hd M') > f v" by auto
  have tot: "length E1' + length L' + length M' = length E1 + length L + length M"
    using mset_eq_length [OF u(4)] by simp
  let ?R = "P @ E1' @ L'"
  have q: "len P + len E1' + len L' = len ?R" "pc = len ?R + len M' - 1" "pd = len ?R + len M' + len G - 1"
    using tot pb pc Suc.prems(8) by simp_all
  from scan_down_spec [where E = E2 and G = G and Q = Q, OF c e2 lg(2) q] obtain E2' G' M'' where
    d: "scan_down cmp (Saved v) (len P + len E1' + len L') pc pd (?R @ M' @ G @ E2 @ Q)
      = Inr (len ?R + len M'' - 1, len ?R + len M'' + len G' - 1, ?R @ M'' @ G' @ E2' @ Q)"
      "\<forall>x\<in>set E2'. f x = f v" "\<forall>x\<in>set G'. f x > f v" "mset (M'' @ G' @ E2') = mset (M' @ G @ E2)"
      "length M'' \<le> length M'" "M'' \<noteq> [] \<longrightarrow> f (last M'') < f v" "\<exists>K. M' = M'' @ K" by auto
  have m: "mset (E1' @ L' @ M'' @ G' @ E2') = mset (E1 @ L @ M @ G @ E2)"
  proof -
    have "mset (E1' @ L' @ M'' @ G' @ E2') = mset (E1' @ L' @ M') + mset (G @ E2)"
      using d(4) by (simp add: ac_simps)
    then show ?thesis using u(4) by (simp add: ac_simps)
  qed
  show ?case
  proof (cases "M'' = []")
    case True
    then have "partition_loop (Suc fuel) cmp (Saved v) pa pb pc pd (P @ E1 @ L @ M @ G @ E2 @ Q)
      = Inr (len P + len E1', len P + len E1' + len L', len P + len E1' + len L' - 1,
          len P + len E1' + len L' + len G' - 1, P @ E1' @ L' @ G' @ E2' @ Q)"
      using u(1) d(1) by simp
    with u(2,3) d(2,3) m True show ?thesis
      by (intro exI [of _ E1'] exI [of _ L'] exI [of _ G'] exI [of _ E2']) auto
  next
    case False
    have first: "f (hd M'') > f v" using False d(7) u(6) by (auto simp: hd_append)
    then obtain x K y where M'': "M'' = x # K @ [y]" and xy: "f x > f v" "f y < f v"
      using False d(6) by (cases M''; cases "tl M''" rule: rev_cases) auto
    let ?pb = "len ?R" and ?pc = "len ?R + len M'' - 1"
    have sw: "bm_swap (?R @ M'' @ G' @ E2' @ Q) ?pb ?pc = Inr (?R @ (y # K @ [x]) @ G' @ E2' @ Q)"
      using bm_swap_mid(1) [of ?pb ?R ?pc K x y "G' @ E2' @ Q"] by (simp add: M'')
    have "\<not> ?pb > ?pc" by (simp add: M'')
    then have "partition_loop (Suc fuel) cmp (Saved v) pa pb pc pd (P @ E1 @ L @ M @ G @ E2 @ Q)
      = partition_loop fuel cmp (Saved v) (len P + len E1') (?pb + 1) (?pc - 1) (len ?R + len M'' + len G' - 1)
          (P @ E1' @ (L' @ [y]) @ K @ (x # G') @ E2' @ Q)"
      using u(1) d(1) sw by (simp add: add.assoc)
    moreover have "length K < fuel" using Suc.prems(1) u(5) d(5) by (simp add: M'')
    moreover have "\<And>z. z \<in> set E1' \<union> set E2' \<Longrightarrow> f z = f v" "\<And>z. z \<in> set (L' @ [y]) \<Longrightarrow> f z < f v"
      "\<And>z. z \<in> set (x # G') \<Longrightarrow> f z > f v" using u(2,3) d(2,3) xy by auto
    moreover have "?pb + 1 = len P + len E1' + len (L' @ [y])" "?pc - 1 = ?pb + 1 + len K - 1"
      "len ?R + len M'' + len G' - 1 = ?pc - 1 + len (x # G')" by (simp_all add: M'')
    moreover have "mset (E1' @ (L' @ [y]) @ K @ (x # G') @ E2') = mset (E1 @ L @ M @ G @ E2)"
      using m by (simp add: M'' ac_simps add_mset_commute)
    ultimately show ?thesis
      using Suc.IH [of K E1' E2' "L' @ [y]" "x # G'" "len P + len E1'" "?pb + 1" "?pc - 1"
          "len ?R + len M'' + len G' - 1"] by presburger
  qed
qed simp

text \<open>
  A pivot in place stays where it is: it is compared with itself first, and all later swaps are
  behind it. So the loops do what they do with a saved pivot.
\<close>

lemma rd_swap_else: "bm_swap xs i j = Inr ys \<Longrightarrow> k \<noteq> i \<Longrightarrow> k \<noteq> j \<Longrightarrow> rd ys k = rd xs k"
  by (auto simp: bm_swap_def bind_res_Inr_iff rd_def nth_list_update split: if_splits)

lemma pivot_value_simps [simp]: "pivot_value (Saved v) xs = Inr v" "pivot_value (In_place i) xs = rd xs i"
  by (simp_all add: pivot_value_def)

lemma scan_up_in_place:
  "rd xs i = Inr v \<Longrightarrow> i < pa \<Longrightarrow> pa \<le> pb \<Longrightarrow>
   scan_up cmp (In_place i) pa pb pc xs = scan_up cmp (Saved v) pa pb pc xs
   \<and> (\<forall>pa' pb' ys. scan_up cmp (Saved v) pa pb pc xs = Inr (pa', pb', ys) \<longrightarrow>
        rd ys i = Inr v \<and> i < pa' \<and> pa' \<le> pb')"
proof (induction "nat (pc - pb + 1)" arbitrary: pa pb xs rule: less_induct)
  case less
  note unf = scan_up.simps [of cmp "In_place i" pa pb pc xs] scan_up.simps [of cmp "Saved v" pa pb pc xs]
  show ?case
  proof (cases "pb \<le> pc \<and> (\<exists>x. rd xs pb = Inr x)")
    case False
    then show ?thesis using less.prems by (cases "rd xs pb") (auto simp: unf)
  next
    case True
    then obtain x where le: "pb \<le> pc" and x: "rd xs pb = Inr x" by blast
    have dec: "nat (pc - (pb + 1) + 1) < nat (pc - pb + 1)" using le by simp
    note I = less.hyps [OF dec]
    consider "cmp x v > 0" | "cmp x v < 0" | "cmp x v = 0" by linarith
    then show ?thesis
    proof cases
      case 1
      then show ?thesis using le x less.prems by (simp add: unf Let_def)
    next
      case 2
      then show ?thesis using le x less.prems I [of xs pa] by (simp add: unf Let_def)
    next
      case 3
      show ?thesis
      proof (cases "bm_swap xs pa pb")
        case (Inl e)
        then show ?thesis using le x less.prems 3 by (simp add: unf Let_def)
      next
        case (Inr ys)
        have "rd ys i = Inr v" using rd_swap_else [OF Inr, of i] less.prems by simp
        moreover have "i < pa + 1" "pa + 1 \<le> pb + 1" using less.prems by simp_all
        ultimately have J: "scan_up cmp (In_place i) (pa + 1) (pb + 1) pc ys = scan_up cmp (Saved v) (pa + 1) (pb + 1) pc ys"
          "\<forall>pa' pb' zs. scan_up cmp (Saved v) (pa + 1) (pb + 1) pc ys = Inr (pa', pb', zs) \<longrightarrow>
            rd zs i = Inr v \<and> i < pa' \<and> pa' \<le> pb'" using I by blast+
        have "scan_up cmp pv pa pb pc xs = scan_up cmp pv (pa + 1) (pb + 1) pc ys"
          if "pivot_value pv xs = Inr v" for pv
          using le x 3 Inr that by (simp add: scan_up.simps [of cmp pv pa] Let_def)
        with J less.prems(1) show ?thesis by simp
      qed
    qed
  qed
qed

lemma scan_down_in_place:
  "rd xs i = Inr v \<Longrightarrow> i < pb \<Longrightarrow> pc \<le> pd \<Longrightarrow>
   scan_down cmp (In_place i) pb pc pd xs = scan_down cmp (Saved v) pb pc pd xs
   \<and> (\<forall>pc' pd' ys. scan_down cmp (Saved v) pb pc pd xs = Inr (pc', pd', ys) \<longrightarrow>
        rd ys i = Inr v \<and> pc' \<le> pd')"
proof (induction "nat (pc - pb + 1)" arbitrary: pc pd xs rule: less_induct)
  case less
  note unf = scan_down.simps [of cmp "In_place i" pb pc pd xs] scan_down.simps [of cmp "Saved v" pb pc pd xs]
  show ?case
  proof (cases "pc \<ge> pb \<and> (\<exists>x. rd xs pc = Inr x)")
    case False
    then show ?thesis using less.prems by (cases "rd xs pc") (auto simp: unf)
  next
    case True
    then obtain x where le: "pc \<ge> pb" and x: "rd xs pc = Inr x" by blast
    have dec: "nat (pc - 1 - pb + 1) < nat (pc - pb + 1)" using le by simp
    note I = less.hyps [OF dec]
    consider "cmp x v < 0" | "cmp x v > 0" | "cmp x v = 0" by linarith
    then show ?thesis
    proof cases
      case 1
      then show ?thesis using le x less.prems by (simp add: unf Let_def)
    next
      case 2
      then show ?thesis using le x less.prems I [of xs pd] by (simp add: unf Let_def)
    next
      case 3
      show ?thesis
      proof (cases "bm_swap xs pc pd")
        case (Inl e)
        then show ?thesis using le x less.prems 3 by (simp add: unf Let_def)
      next
        case (Inr ys)
        have "rd ys i = Inr v" using rd_swap_else [OF Inr, of i] less.prems le by simp
        then show ?thesis using le x less.prems 3 Inr I [of ys "pd - 1"] by (simp add: unf Let_def)
      qed
    qed
  qed
qed

lemma partition_loop_in_place:
  "rd xs i = Inr v \<Longrightarrow> i < pa \<Longrightarrow> pa \<le> pb \<Longrightarrow> pc \<le> pd \<Longrightarrow>
   partition_loop fuel cmp (In_place i) pa pb pc pd xs = partition_loop fuel cmp (Saved v) pa pb pc pd xs"
proof (induction fuel arbitrary: pa pb pc pd xs)
  case (Suc fuel)
  note U = scan_up_in_place [OF Suc.prems(1-3), of cmp pc]
  show ?case
  proof (cases "scan_up cmp (Saved v) pa pb pc xs")
    case (Inl e)
    then show ?thesis using U by simp
  next
    case (Inr r)
    obtain pa1 pb1 ys where r: "r = (pa1, pb1, ys)" by (cases r)
    with U Inr have u: "rd ys i = Inr v" "i < pa1" "pa1 \<le> pb1" by auto
    then have "i < pb1" by simp
    note D = scan_down_in_place [OF u(1) this Suc.prems(4), of cmp]
    show ?thesis
    proof (cases "scan_down cmp (Saved v) pb1 pc pd ys")
      case (Inl e)
      then show ?thesis using U D Inr r by simp
    next
      case R: (Inr q)
      obtain pc1 pd1 zs where q: "q = (pc1, pd1, zs)" by (cases q)
      with D R have d: "rd zs i = Inr v" "pc1 \<le> pd1" by auto
      show ?thesis
      proof (cases "pb1 > pc1")
        case True
        then show ?thesis using U D Inr R r q by simp
      next
        case False
        show ?thesis
        proof (cases "bm_swap zs pb1 pc1")
          case (Inl e)
          then show ?thesis using U D Inr R r q False by simp
        next
          case W: (Inr ws)
          have "rd ws i = Inr v" using rd_swap_else [OF W, of i] d(1) u(2,3) False by simp
          then show ?thesis using U D Inr R r q False W u d Suc.IH [of ws pa1 "pb1 + 1" "pc1 - 1" pd1] by simp
        qed
      qed
    qed
  qed
qed simp

lemma partition_loop_front:
  assumes v: "rd xs i = Inr v" and c: "cmp v v = 0" and le: "i \<le> pc" "pc \<le> pd"
  shows "partition_loop (Suc fuel) cmp (In_place i) i i pc pd xs = partition_loop (Suc fuel) cmp (Saved v) i i pc pd xs"
proof -
  have sw: "bm_swap xs i i = Inr xs" using v by (auto simp: bm_swap_def rd_def split: if_splits)
  have up: "scan_up cmp (In_place i) i i pc xs = scan_up cmp (In_place i) (i + 1) (i + 1) pc xs"
    "scan_up cmp (Saved v) i i pc xs = scan_up cmp (Saved v) (i + 1) (i + 1) pc xs"
    using v c le sw by (simp_all add: scan_up.simps [of cmp _ i i] Let_def)
  have "partition_loop (Suc fuel) cmp (In_place i) (i + 1) (i + 1) pc pd xs
    = partition_loop (Suc fuel) cmp (Saved v) (i + 1) (i + 1) pc pd xs"
    by (rule partition_loop_in_place) (use v le in simp_all)
  then show ?thesis by (simp add: up)
qed

text \<open>The choice of the pivot leaves the same elements, and the partition is that with a saved pivot.\<close>

lemma bm_pvinit_spec:
  assumes "cmp_by cmp f" and "X \<noteq> []" and "len P \<le> pm" and "pm < len P + len X" and "pd = len P + len X - 1"
  shows "\<exists>pv v X'. bm_pvinit t (len P) pm (P @ X @ Q) = Inr (pv, P @ X' @ Q) \<and> mset X' = mset X \<and> v \<in> set X
    \<and> partition_loop (Suc n) cmp pv (len P) (len P) pd pd (P @ X' @ Q)
      = partition_loop (Suc n) cmp (Saved v) (len P) (len P) pd pd (P @ X' @ Q)"
proof -
  obtain k where k: "pm = len P + int k" "k < length X" using assms(3,4) zle_iff_zadd by force
  have rv: "rd (P @ X @ Q) pm = Inr (X ! k)" using k by (simp add: rd_def nat_add_distrib nth_append)
  show ?thesis
  proof (cases "t = 0")
    case True
    then show ?thesis using rv k
      by (intro exI [of _ "Saved (X ! k)"] exI [of _ "X ! k"] exI [of _ X]) (simp add: bm_pvinit_def)
  next
    case False
    let ?X' = "X[0 := X ! k, k := X ! 0]"
    have ra: "rd (P @ X @ Q) (len P) = Inr (X ! 0)" using assms(2) by (cases X) (simp_all add: rd_def nth_append)
    have sw: "bm_swap (P @ X @ Q) (len P) pm = Inr (P @ ?X' @ Q)"
      unfolding bm_swap_def ra rv using k assms(2) by (simp add: nat_add_distrib list_update_append)
    have m: "mset ?X' = mset X" using mset_swap [of k X 0] k assms(2) by (simp add: list_update_swap)
    have "rd (P @ ?X' @ Q) (len P) = Inr (X ! k)"
      using k assms(2) by (cases X; cases k) (simp_all add: rd_def nth_append)
    then have "partition_loop (Suc n) cmp (In_place (len P)) (len P) (len P) pd pd (P @ ?X' @ Q)
      = partition_loop (Suc n) cmp (Saved (X ! k)) (len P) (len P) pd pd (P @ ?X' @ Q)"
      using assms cmp_by_iffs(5) [OF assms(1)] by (intro partition_loop_front) simp_all
    with False sw m k show ?thesis
      by (intro exI [of _ "In_place (len P)"] exI [of _ "X ! k"] exI [of _ ?X']) (simp add: bm_pvinit_def)
  qed
qed

section \<open>Short arrays\<close>

lemma sift_down_spec:
  assumes c: "cmp_by cmp f"
  shows "sorted (map f S) \<Longrightarrow> a = len P \<Longrightarrow> pl = a + len S \<Longrightarrow>
    \<exists>S'. sift_down cmp a pl (P @ S @ m # R) = Inr (P @ S' @ R) \<and> mset S' = add_mset m (mset S)
      \<and> sorted (map f S')"
proof (induction S arbitrary: pl R rule: rev_induct)
  case Nil
  then show ?case by (subst sift_down.simps) (intro exI [of _ "[m]"], simp)
next
  case (snoc x S)
  let ?xs = "P @ (S @ [x]) @ m # R"
  have "rd ?xs (pl - 1) = Inr x" "rd ?xs pl = Inr m"
    using rd_mid [of "pl - 1" "P @ S" x "m # R"] rd_mid [of pl "P @ S @ [x]" m R] snoc.prems(2,3) by simp_all
  then have cm: "cmp_at cmp ?xs (pl - 1) pl = Inr (cmp x m)" by (simp add: cmp_at_def)
  have up: "pl > a" using snoc.prems(3) by simp
  show ?case
  proof (cases "f x > f m")
    case False
    then have "sift_down cmp a pl ?xs = Inr ?xs"
      using up cm cmp_by_iffs(2) [OF c] by (subst sift_down.simps) simp
    moreover have "sorted (map f ((S @ [x]) @ [m]))" using snoc.prems(1) False by (auto simp: sorted_append)
    ultimately show ?thesis by (intro exI [of _ "(S @ [x]) @ [m]"]) simp
  next
    case True
    have "bm_swap ?xs pl (pl - 1) = Inr (P @ S @ m # x # R)"
      using bm_swap_mid(2) [of "pl - 1" "P @ S" pl "[]" x m R] snoc.prems(2,3) by simp
    then have "sift_down cmp a pl ?xs = sift_down cmp a (pl - 1) (P @ S @ m # x # R)"
      using up cm True cmp_by_iffs(2) [OF c] by (subst sift_down.simps) simp
    moreover have "sorted (map f S)" using snoc.prems(1) by (simp add: sorted_append)
    ultimately obtain S' where S': "sift_down cmp a pl ?xs = Inr (P @ S' @ x # R)"
      "mset S' = add_mset m (mset S)" "sorted (map f S')"
      using snoc.IH [of "pl - 1" "x # R"] snoc.prems(2,3) by auto
    have "set S' = insert m (set S)" using S'(2) by (metis set_mset_add_mset_insert set_mset_mset)
    then have "sorted (map f (S' @ [x]))" using S'(3) snoc.prems(1) True by (auto simp: sorted_append)
    then show ?thesis using S'(1,2) by (intro exI [of _ "S' @ [x]"]) simp
  qed
qed

lemma insertion_loop_spec:
  assumes c: "cmp_by cmp f"
  shows "sorted (map f S) \<Longrightarrow> a = len P \<Longrightarrow> pm = a + len S \<Longrightarrow> e = pm + len T \<Longrightarrow>
    \<exists>S'. insertion_loop cmp a pm e (P @ S @ T @ Q) = Inr (P @ S' @ Q) \<and> mset S' = mset (S @ T)
      \<and> sorted (map f S')"
proof (induction T arbitrary: S pm)
  case Nil
  then show ?case by (subst insertion_loop.simps) auto
next
  case (Cons t T)
  from sift_down_spec [OF c Cons.prems(1-3), of t "T @ Q"] obtain S1 where
    S1: "sift_down cmp a pm (P @ S @ (t # T) @ Q) = Inr (P @ S1 @ T @ Q)" "mset S1 = add_mset t (mset S)"
      "sorted (map f S1)" by auto
  have "length S1 = length S + 1" using S1(2) by (metis size_mset size_add_mset Suc_eq_plus1)
  with Cons.IH [OF S1(3) Cons.prems(2), of "pm + 1"] Cons.prems(3,4) obtain S' where
    "insertion_loop cmp a (pm + 1) e (P @ S1 @ T @ Q) = Inr (P @ S' @ Q)" "mset S' = mset (S1 @ T)"
    "sorted (map f S')" by auto
  with S1 Cons.prems(4) show ?case by (subst insertion_loop.simps) auto
qed

section \<open>The pivot\<close>

lemma cmp_at_in:
  "0 \<le> i \<Longrightarrow> i < len xs \<Longrightarrow> 0 \<le> j \<Longrightarrow> j < len xs \<Longrightarrow> \<exists>r. cmp_at cmp xs i j = Inr r"
  by (simp add: cmp_at_def rd_in)

lemma bm_med3_spec:
  assumes "lo \<le> a" "a < hi" "lo \<le> b" "b < hi" "lo \<le> c" "c < hi" and "0 \<le> lo" "hi \<le> len xs"
  shows "\<exists>m. bm_med3 cmp xs a b c = Inr m \<and> lo \<le> m \<and> m < hi"
proof -
  obtain r1 r2 r3 where "cmp_at cmp xs a b = Inr r1" "cmp_at cmp xs b c = Inr r2" "cmp_at cmp xs a c = Inr r3"
    using cmp_at_in [of a xs b cmp] cmp_at_in [of b xs c cmp] cmp_at_in [of a xs c cmp] assms by auto
  then show ?thesis using assms by (simp add: bm_med3_def)
qed

lemma choose_pivot_spec:
  assumes n: "7 \<le> n" and a: "0 \<le> a" "a + int n \<le> len xs"
  shows "\<exists>pm. choose_pivot cmp a n xs = Inr pm \<and> a \<le> pm \<and> pm < a + int n"
proof -
  note med = bm_med3_spec [of a _ "a + int n" _ _ xs cmp, OF _ _ _ _ _ _ a]
  have half: "a \<le> a + int (n div 2)" "a + int (n div 2) < a + int n" using n by auto
  consider "n = 7" | "7 < n" "n \<le> 40" | "40 < n" using n by linarith
  then show ?thesis
  proof cases
    case 1
    with half show ?thesis by (simp add: choose_pivot_def Let_def)
  next
    case 2
    with med [of a "a + int (n div 2)" "a + int (n - 1)"] half show ?thesis
      by (simp add: choose_pivot_def Let_def)
  next
    case 3
    define s where "s = int (n div 8)"
    have s: "0 \<le> s" "8 * s \<le> int n" unfolding s_def by simp_all
    have h: "2 * int (n div 2) \<le> int n" "int n \<le> 2 * int (n div 2) + 1" by linarith+
    obtain pl where pl: "bm_med3 cmp xs a (a + s) (a + 2 * s) = Inr pl" "a \<le> pl" "pl < a + int n"
      using med [of a "a + s" "a + 2 * s"] s 3 by auto
    obtain pm where pm: "bm_med3 cmp xs (a + int (n div 2) - s) (a + int (n div 2)) (a + int (n div 2) + s) = Inr pm"
      "a \<le> pm" "pm < a + int n"
      using med [of "a + int (n div 2) - s" "a + int (n div 2)" "a + int (n div 2) + s"] s h 3 by auto
    obtain pn where pn: "bm_med3 cmp xs (a + int (n - 1) - 2 * s) (a + int (n - 1) - s) (a + int (n - 1)) = Inr pn"
      "a \<le> pn" "pn < a + int n"
      using med [of "a + int (n - 1) - 2 * s" "a + int (n - 1) - s" "a + int (n - 1)"] s 3 by auto
    have "choose_pivot cmp a n xs = bm_med3 cmp xs pl pm pn"
      using 3 pl(1) pm(1) pn(1) by (simp only: choose_pivot_def Let_def s_def [symmetric] bind_res_simps) simp
    with med [OF pl(2,3) pm(2,3) pn(2,3)] show ?thesis by simp
  qed
qed

section \<open>The sort\<close>

text \<open>The segment \<open>X\<close> between \<open>P\<close> and \<open>Q\<close> is sorted in place.\<close>

definition sorts :: "('e \<Rightarrow> nat) \<Rightarrow> 'e list \<Rightarrow> 'e list \<Rightarrow> 'e list \<Rightarrow> 'e list res \<Rightarrow> bool" where
  "sorts f P X Q r \<longleftrightarrow> (\<exists>X'. r = Inr (P @ X' @ Q) \<and> mset X' = mset X \<and> sorted (map f X'))"

lemma sorts_part:
  assumes "\<And>P X Q. length X < fuel \<Longrightarrow> sorts f P X Q (bm_qsort fuel base es cmp (len P) (length X) (P @ X @ Q))"
    and "length X < fuel" and "a = len P" and "s = len X"
  shows "sorts f P X Q (if s > 1 then bm_qsort fuel base es cmp a (nat s) (P @ X @ Q) else Inr (P @ X @ Q))"
proof (cases "s > 1")
  case True
  then show ?thesis using assms(1) [OF assms(2)] assms(3,4) by simp
next
  case False
  then have "sorted (map f X)" using assms(4) by (cases X; cases "tl X") auto
  with False show ?thesis by (auto simp: sorts_def)
qed

text \<open>Sorting the two outer parts of three, in either order.\<close>

lemma sorts_both:
  assumes ih: "\<And>P X Q. length X < fuel \<Longrightarrow> sorts f P X Q (bm_qsort fuel base es cmp (len P) (length X) (P @ X @ Q))"
    and "length L < fuel" and "length G < fuel" and "s1 = len L" and "s2 = len G" and "a = len P"
    and "b = len P + len L + len E"
    and "\<And>x. x \<in> set L \<Longrightarrow> f x < k" and "\<And>x. x \<in> set E \<Longrightarrow> f x = k" and "\<And>x. x \<in> set G \<Longrightarrow> k < f x"
  shows "sorts f P (L @ E @ G) Q
    (if s1 < s2 then
       bind_res (if s1 > 1 then bm_qsort fuel base es cmp a (nat s1) (P @ L @ E @ G @ Q) else Inr (P @ L @ E @ G @ Q)) (\<lambda>xs.
       if s2 > 1 then bm_qsort fuel base es cmp b (nat s2) xs else Inr xs)
     else
       bind_res (if s2 > 1 then bm_qsort fuel base es cmp b (nat s2) (P @ L @ E @ G @ Q) else Inr (P @ L @ E @ G @ Q)) (\<lambda>xs.
       if s1 > 1 then bm_qsort fuel base es cmp a (nat s1) xs else Inr xs))"
proof -
  have left: "\<exists>L'. (if s1 > 1 then bm_qsort fuel base es cmp a (nat s1) (P @ L @ E @ R) else Inr (P @ L @ E @ R))
      = Inr (P @ L' @ E @ R) \<and> mset L' = mset L \<and> sorted (map f L')" for R
    using sorts_part [OF ih assms(2,6,4), of "E @ R"] by (auto simp: sorts_def)
  have right: "\<exists>G'. (if s2 > 1 then bm_qsort fuel base es cmp b (nat s2) (P @ K @ E @ G @ Q) else Inr (P @ K @ E @ G @ Q))
      = Inr (P @ K @ E @ G' @ Q) \<and> mset G' = mset G \<and> sorted (map f G')" if "mset K = mset L" for K
  proof -
    have "length K = length L" by (rule mset_eq_length [OF that])
    then have "b = len (P @ K @ E)" using assms(7) by simp
    from sorts_part [OF ih assms(3) this assms(5), of Q] show ?thesis by (auto simp: sorts_def)
  qed
  have fin: "sorts f P (L @ E @ G) Q (Inr (P @ L' @ E @ G' @ Q))"
    if "mset L' = mset L" "sorted (map f L')" "mset G' = mset G" "sorted (map f G')" for L' G'
  proof -
    have "set L' = set L" "set G' = set G" using that(1,3) by (metis mset_eq_setD)+
    moreover have "\<forall>x y. x \<in> set E \<longrightarrow> y \<in> set E \<longrightarrow> f x \<le> f y" using assms(9) by simp
    then have "sorted (map f E)" by (induction E) auto
    ultimately have "sorted (map f (L' @ E @ G'))"
      using that(2,4) assms(8-10) by (fastforce simp: sorted_append)
    then show ?thesis using that(1,3) by (auto simp: sorts_def intro: exI [of _ "L' @ E @ G'"])
  qed
  show ?thesis
  proof (cases "s1 < s2")
    case True
    obtain L' where L': "(if s1 > 1 then bm_qsort fuel base es cmp a (nat s1) (P @ L @ E @ G @ Q) else Inr (P @ L @ E @ G @ Q))
      = Inr (P @ L' @ E @ G @ Q)" "mset L' = mset L" "sorted (map f L')" using left [of "G @ Q"] by blast
    with right [OF L'(2)] fin [OF L'(2,3)] True show ?thesis by (simp only: if_True bind_res_simps) metis
  next
    case False
    obtain G' where G': "(if s2 > 1 then bm_qsort fuel base es cmp b (nat s2) (P @ L @ E @ G @ Q) else Inr (P @ L @ E @ G @ Q))
      = Inr (P @ L @ E @ G' @ Q)" "mset G' = mset G" "sorted (map f G')" using right [OF refl] by blast
    with left [of "G' @ Q"] fin [OF _ _ G'(2,3)] False show ?thesis by (simp only: if_False bind_res_simps) metis
  qed
qed

lemma bm_qsort_spec:
  assumes c: "cmp_by cmp f"
  shows "length X < fuel \<Longrightarrow> sorts f P X Q (bm_qsort fuel base es cmp (len P) (length X) (P @ X @ Q))"
proof (induction fuel arbitrary: P X Q)
  case (Suc fuel)
  let ?n = "length X" and ?a = "len P"
  show ?case
  proof (cases "?n < 7")
    case True
    have "\<exists>S'. insertion_loop cmp ?a (?a + 1) (?a + len X) (P @ X @ Q) = Inr (P @ S' @ Q)
        \<and> mset S' = mset X \<and> sorted (map f S')"
    proof (cases X)
      case Nil
      then show ?thesis by (subst insertion_loop.simps) simp
    next
      case (Cons x T)
      with insertion_loop_spec [OF c, of "[x]" ?a P "?a + 1" "?a + len X" T Q] show ?thesis by simp
    qed
    with True show ?thesis by (auto simp: sorts_def)
  next
    case False
    then obtain pm where pm: "choose_pivot cmp ?a ?n (P @ X @ Q) = Inr pm" "?a \<le> pm" "pm < ?a + len X"
      using choose_pivot_spec [of ?n ?a "P @ X @ Q" cmp] by auto
    let ?pd = "?a + int (?n - 1)" and ?t = "bm_swaptype (base + nat ?a * es) es"
    have "X \<noteq> []" and pd: "?pd = ?a + len X - 1" using False by (auto simp: of_nat_diff)
    from bm_pvinit_spec [OF c this(1) pm(2,3) pd, of ?t Q ?n] obtain pv v Y where
      rv: "bm_pvinit ?t ?a pm (P @ X @ Q) = Inr (pv, P @ Y @ Q)" and Y: "mset Y = mset X" and v: "v \<in> set X"
      and pl: "partition_loop (Suc ?n) cmp pv ?a ?a ?pd ?pd (P @ Y @ Q)
        = partition_loop (Suc ?n) cmp (Saved v) ?a ?a ?pd ?pd (P @ Y @ Q)" by blast
    have "length Y = ?n" using Y by (rule mset_eq_length)
    then obtain E1 L G E2 where p:
      "partition_loop (Suc ?n) cmp pv ?a ?a ?pd ?pd (P @ Y @ Q)
        = Inr (?a + len E1, ?a + len E1 + len L, ?a + len E1 + len L - 1,
            ?a + len E1 + len L + len G - 1, P @ E1 @ L @ G @ E2 @ Q)"
      "\<forall>x\<in>set E1 \<union> set E2. f x = f v" "\<forall>x\<in>set L. f x < f v" "\<forall>x\<in>set G. f x > f v"
      "mset (E1 @ L @ G @ E2) = mset X"
      using partition_loop_spec [OF c, of Y "Suc ?n" "[]" "[]" v "[]" "[]" ?a P ?a ?pd ?pd Q] pd pl Y by auto
    have tot: "len X = len E1 + len L + len G + len E2" using mset_eq_length [OF p(5)] by simp
    have less: "length L < fuel" "length G < fuel"
    proof -
      have "v \<in> set (E1 @ L @ G @ E2)" using v p(5) by (metis mset_eq_setD)
      then have "E1 \<noteq> [] \<or> E2 \<noteq> []" using p(3,4) by auto
      then have "0 < length E1 + length E2" by auto
      then show "length L < fuel" "length G < fuel" using tot Suc.prems by linarith+
    qed
    define s where "s = (if len E1 < len L then len E1 else len L)"
    define t where "t = (if len G < len E2 then len G else len E2)"
    obtain L' E1' where x1: "(if s > 0 then bm_swapfunc (nat s) ?a (?a + len E1 + len L - s) (P @ E1 @ L @ G @ E2 @ Q)
        else Inr (P @ E1 @ L @ G @ E2 @ Q)) = Inr (P @ L' @ E1' @ G @ E2 @ Q)" "mset L' = mset L" "mset E1' = mset E1"
      using exchange_neighbours [OF s_def refl refl, of P "G @ E2 @ Q"] by blast
    have len1: "length L' = length L" "length E1' = length E1" using x1(2,3) by (metis mset_eq_length)+
    have ab: "?a + len E1 + len L = len (P @ L' @ E1')"
      "?a + len X - t = len (P @ L' @ E1') + len G + len E2 - t" using tot len1 by simp_all
    obtain E2' G' where x2: "(if t > 0 then bm_swapfunc (nat t) (?a + len E1 + len L) (?a + len X - t)
        (P @ L' @ E1' @ G @ E2 @ Q) else Inr (P @ L' @ E1' @ G @ E2 @ Q))
        = Inr (P @ L' @ E1' @ E2' @ G' @ Q)" "mset E2' = mset E2" "mset G' = mset G"
      using exchange_neighbours [OF t_def ab, of Q, unfolded append.assoc] by blast
    have len2: "length E2' = length E2" "length G' = length G" using x2(2,3) by (metis mset_eq_length)+
    have sets: "set L' = set L" "set G' = set G" "set E1' = set E1" "set E2' = set E2"
      using x1(2,3) x2(2,3) by (metis mset_eq_setD)+
    have diffs: "?a + len E1 - ?a = len E1" "?a + len E1 + len L - (?a + len E1) = len L"
      "?a + len E1 + len L + len G - 1 - (?a + len E1 + len L - 1) = len G"
      "?a + len X - (?a + len E1 + len L + len G - 1) - 1 = len E2" using tot by simp_all
    have "bm_qsort (Suc fuel) base es cmp ?a ?n (P @ X @ Q) =
      (if len L < len G then
         bind_res (if len L > 1 then bm_qsort fuel base es cmp ?a (nat (len L)) (P @ L' @ (E1' @ E2') @ G' @ Q)
           else Inr (P @ L' @ (E1' @ E2') @ G' @ Q)) (\<lambda>xs.
         if len G > 1 then bm_qsort fuel base es cmp (?a + len X - len G) (nat (len G)) xs else Inr xs)
       else
         bind_res (if len G > 1 then bm_qsort fuel base es cmp (?a + len X - len G) (nat (len G)) (P @ L' @ (E1' @ E2') @ G' @ Q)
           else Inr (P @ L' @ (E1' @ E2') @ G' @ Q)) (\<lambda>xs.
         if len L > 1 then bm_qsort fuel base es cmp ?a (nat (len L)) xs else Inr xs))"
      by (simp only: bm_qsort.simps False if_False pm(1) rv p(1) bind_res_simps prod.case Let_def diffs
          s_def [symmetric] t_def [symmetric] x1(1) x2(1) append.assoc)
    moreover have "sorts f P (L' @ (E1' @ E2') @ G') Q
      (if len L < len G then
         bind_res (if len L > 1 then bm_qsort fuel base es cmp ?a (nat (len L)) (P @ L' @ (E1' @ E2') @ G' @ Q)
           else Inr (P @ L' @ (E1' @ E2') @ G' @ Q)) (\<lambda>xs.
         if len G > 1 then bm_qsort fuel base es cmp (?a + len X - len G) (nat (len G)) xs else Inr xs)
       else
         bind_res (if len G > 1 then bm_qsort fuel base es cmp (?a + len X - len G) (nat (len G)) (P @ L' @ (E1' @ E2') @ G' @ Q)
           else Inr (P @ L' @ (E1' @ E2') @ G' @ Q)) (\<lambda>xs.
         if len L > 1 then bm_qsort fuel base es cmp ?a (nat (len L)) xs else Inr xs))"
      by (rule sorts_both [OF Suc.IH, where k = "f v"])
        (use less len1 len2 sets p(2-4) tot in auto)
    moreover have "mset (L' @ (E1' @ E2') @ G') = mset X"
      using x1(2,3) x2(2,3) p(5) by (simp add: ac_simps)
    ultimately show ?thesis by (simp add: sorts_def)
  qed
qed simp

end
