(* ===== verification/Vg_Keyed.thy ===== *)
theory Vg_Keyed
  imports Rm_Prelude
begin

text \<open>
  What the clients of a set of nodes with keys rely on: an interface under which sequences of
  operations on nodes with different keys compute what a map from keys to nodes computes. The hash
  table of \<open>m_hashtable.c\<close> and the ordered set of \<open>m_oset.c\<close> provide it.
\<close>

section \<open>Operations on a table and on a map\<close>

datatype table_op = Put nat | Take nat | Find nat

text \<open>The results of the operations in order; \<open>Put\<close> has none.\<close>

fun run_table ::
  "(nat \<Rightarrow> 's \<Rightarrow> 's res) \<Rightarrow> (nat \<Rightarrow> 's \<Rightarrow> (nat \<times> 's) res) \<Rightarrow> (nat \<Rightarrow> 's \<Rightarrow> nat res) \<Rightarrow> table_op list
     \<Rightarrow> 's \<Rightarrow> (nat list \<times> 's) res" where
  "run_table add remove lookup [] s = Inr ([], s)"
| "run_table add remove lookup (Put p # ops) s =
     bind_res (add p s) (run_table add remove lookup ops)"
| "run_table add remove lookup (Take k # ops) s =
     bind_res (remove k s) (\<lambda>(r, s1).
     bind_res (run_table add remove lookup ops s1) (\<lambda>(rs, s2). Inr (r # rs, s2)))"
| "run_table add remove lookup (Find k # ops) s =
     bind_res (lookup k s) (\<lambda>r.
     bind_res (run_table add remove lookup ops s) (\<lambda>(rs, s2). Inr (r # rs, s2)))"

fun null_or :: "nat option \<Rightarrow> nat" where
  "null_or None = 0"
| "null_or (Some p) = p"

fun run_map :: "(nat \<Rightarrow> nat) \<Rightarrow> table_op list \<Rightarrow> (nat \<rightharpoonup> nat) \<Rightarrow> nat list \<times> (nat \<rightharpoonup> nat)" where
  "run_map key [] m = ([], m)"
| "run_map key (Put p # ops) m = run_map key ops (m(key p \<mapsto> p))"
| "run_map key (Take k # ops) m =
     (let (rs, m') = run_map key ops (m(k := None)) in (null_or (m k) # rs, m'))"
| "run_map key (Find k # ops) m = (let (rs, m') = run_map key ops m in (null_or (m k) # rs, m'))"

text \<open>Each node put in is fit for it, with a key that the map does not hold, and there is room.\<close>

fun puts_ok :: "(nat \<Rightarrow> bool) \<Rightarrow> (nat \<Rightarrow> nat) \<Rightarrow> nat \<Rightarrow> table_op list \<Rightarrow> (nat \<rightharpoonup> nat) \<Rightarrow> bool" where
  "puts_ok fit key cap [] m \<longleftrightarrow> True"
| "puts_ok fit key cap (Put p # ops) m \<longleftrightarrow>
     fit p \<and> m (key p) = None \<and> card (ran m) + 1 < cap
     \<and> puts_ok fit key cap ops (m(key p \<mapsto> p))"
| "puts_ok fit key cap (Take k # ops) m \<longleftrightarrow> puts_ok fit key cap ops (m(k := None))"
| "puts_ok fit key cap (Find k # ops) m \<longleftrightarrow> puts_ok fit key cap ops m"

text \<open>The table holds the nodes of the map, under their keys.\<close>

definition represents :: "('s \<Rightarrow> nat set \<Rightarrow> bool) \<Rightarrow> ('s \<Rightarrow> nat \<Rightarrow> nat) \<Rightarrow> 's \<Rightarrow> (nat \<rightharpoonup> nat) \<Rightarrow> bool" where
  "represents holds key s m \<longleftrightarrow> holds s (ran m) \<and> (\<forall>k p. m k = Some p \<longrightarrow> key s p = k)"

lemma ran_without:
  assumes "\<And>k p. m k = Some p \<Longrightarrow> f p = k" and "m k = Some q"
  shows "ran (m(k := None)) = ran m - {q}"
proof (intro set_eqI iffI)
  show "x \<in> ran m - {q}" if "x \<in> ran (m(k := None))" for x
    using that assms(1) [of _ x] assms(1) [OF assms(2)] by (auto simp: ran_def split: if_splits)
  show "x \<in> ran (m(k := None))" if x: "x \<in> ran m - {q}" for x
  proof -
    obtain j where "m j = Some x" using x by (auto simp: ran_def)
    with x assms(2) have "(m(k := None)) j = Some x" by auto
    then show ?thesis by (rule ranI)
  qed
qed

section \<open>The interface\<close>

locale keyed_table =
  fixes holds :: "'s \<Rightarrow> nat set \<Rightarrow> bool"
    and key :: "'s \<Rightarrow> nat \<Rightarrow> nat"
    and fit :: "'s \<Rightarrow> nat \<Rightarrow> bool"
    and add :: "nat \<Rightarrow> 's \<Rightarrow> 's res"
    and remove :: "nat \<Rightarrow> 's \<Rightarrow> (nat \<times> 's) res"
    and lookup :: "nat \<Rightarrow> 's \<Rightarrow> nat res"
    and cap :: nat
  assumes add_law: "holds s N \<Longrightarrow> fit s p \<Longrightarrow> p \<notin> N \<Longrightarrow> \<forall>q\<in>N. key s q \<noteq> key s p \<Longrightarrow> card N + 1 < cap \<Longrightarrow>
      \<exists>s'. add p s = Inr s' \<and> holds s' (insert p N) \<and> (\<forall>q. key s' q = key s q \<and> fit s' q = fit s q)"
    and remove_law: "holds s N \<Longrightarrow>
      \<exists>r s'. remove k s = Inr (r, s') \<and> (\<forall>q. key s' q = key s q \<and> fit s' q = fit s q)
        \<and> (r = 0 \<and> (\<forall>p\<in>N. key s p \<noteq> k) \<and> holds s' N \<or> r \<in> N \<and> key s r = k \<and> holds s' (N - {r}))"
    and lookup_law: "holds s N \<Longrightarrow>
      \<exists>r. lookup k s = Inr r \<and> (r = 0 \<and> (\<forall>p\<in>N. key s p \<noteq> k) \<or> r \<in> N \<and> key s r = k)"
begin

abbreviation rep :: "'s \<Rightarrow> (nat \<rightharpoonup> nat) \<Rightarrow> bool" where
  "rep \<equiv> represents holds key"

lemma rep_node: "rep s m \<Longrightarrow> p \<in> ran m \<Longrightarrow> m (key s p) = Some p"
  by (auto simp: represents_def ran_def)

lemma rep_result:
  assumes "rep s m" and "r = 0 \<and> (\<forall>p\<in>ran m. key s p \<noteq> k) \<or> r \<in> ran m \<and> key s r = k"
  shows "r = null_or (m k)" and "r = 0 \<and> m k = None \<or> m k = Some r"
proof -
  show c: "r = 0 \<and> m k = None \<or> m k = Some r"
    using assms(2)
  proof
    assume "r = 0 \<and> (\<forall>p\<in>ran m. key s p \<noteq> k)"
    then show ?thesis using assms(1) by (cases "m k") (auto simp: represents_def ran_def)
  next
    assume "r \<in> ran m \<and> key s r = k"
    then show ?thesis using rep_node [OF assms(1)] by auto
  qed
  then show "r = null_or (m k)" by auto
qed

lemma rep_put:
  assumes "rep s m" and "m (key s p) = None" and "fit s p" "card (ran m) + 1 < cap"
  shows "\<exists>s'. add p s = Inr s' \<and> rep s' (m(key s p \<mapsto> p)) \<and> (\<forall>q. key s' q = key s q \<and> fit s' q = fit s q)"
proof -
  have "p \<notin> ran m" "\<forall>q\<in>ran m. key s q \<noteq> key s p" using rep_node [OF assms(1)] assms(2) by fastforce+
  moreover have "ran (m(key s p \<mapsto> p)) = insert p (ran m)" using assms(2) by (simp add: ran_map_upd)
  ultimately show ?thesis
    using add_law [of s "ran m" p] assms by (auto simp: represents_def)
qed

lemma rep_take:
  assumes "rep s m"
  shows "\<exists>s'. remove k s = Inr (null_or (m k), s') \<and> rep s' (m(k := None)) \<and> (\<forall>q. key s' q = key s q \<and> fit s' q = fit s q)"
proof -
  from assms have "holds s (ran m)" by (simp add: represents_def)
  from remove_law [OF this, of k] obtain r s' where
    r: "remove k s = Inr (r, s')" "\<forall>q. key s' q = key s q \<and> fit s' q = fit s q"
      "r = 0 \<and> (\<forall>p\<in>ran m. key s p \<noteq> k) \<and> holds s' (ran m) \<or> r \<in> ran m \<and> key s r = k \<and> holds s' (ran m - {r})"
    by blast
  from r(3) have "r = 0 \<and> (\<forall>p\<in>ran m. key s p \<noteq> k) \<or> r \<in> ran m \<and> key s r = k" by blast
  note res = rep_result [OF assms this]
  have "holds s' (ran (m(k := None)))"
  proof (cases "m k")
    case None
    then have "r = 0" using res(2) by simp
    moreover have "0 \<notin> ran m \<or> key s 0 \<noteq> k" using None rep_node [OF assms, of 0] by auto
    ultimately have "holds s' (ran m)" using r(3) by blast
    moreover have "m(k := None) = m" using None by auto
    ultimately show ?thesis by simp
  next
    case (Some q)
    then have q: "r = q" "q \<in> ran m" "key s q = k" using res(1) assms by (auto simp: represents_def ran_def)
    then have "holds s' (ran m - {q})" using r(3) by auto
    moreover have "ran (m(k := None)) = ran m - {q}"
      using assms Some by (intro ran_without [of m "key s"]) (auto simp: represents_def)
    ultimately show ?thesis by simp
  qed
  with r(1,2) res(1) assms show ?thesis by (auto simp: represents_def split: if_splits)
qed

lemma rep_find:
  assumes "rep s m"
  shows "lookup k s = Inr (null_or (m k))"
  using lookup_law [of s "ran m" k] rep_result(1) [OF assms] assms by (auto simp: represents_def)

text \<open>Sequences of operations compute what the map computes.\<close>

lemma run_refines_map:
  "rep s m \<Longrightarrow> puts_ok (fit s) (key s) cap ops m \<Longrightarrow>
   \<exists>s'. run_table add remove lookup ops s = Inr (fst (run_map (key s) ops m), s')
     \<and> rep s' (snd (run_map (key s) ops m)) \<and> (\<forall>q. key s' q = key s q \<and> fit s' q = fit s q)"
proof (induction ops arbitrary: s m)
  case Nil
  then show ?case by simp
next
  case (Cons oper ops)
  have ih: "\<exists>s'. run_table add remove lookup ops s1 = Inr (fst (run_map (key s) ops m1), s')
      \<and> rep s' (snd (run_map (key s) ops m1)) \<and> (\<forall>q. key s' q = key s q \<and> fit s' q = fit s q)"
    if "rep s1 m1" "\<forall>q. key s1 q = key s q \<and> fit s1 q = fit s q" "puts_ok (fit s) (key s) cap ops m1" for s1 m1
  proof -
    have k: "key s1 = key s" "fit s1 = fit s" using that(2) by (simp_all add: fun_eq_iff)
    from Cons.IH [OF that(1)] that(3) show ?thesis unfolding k by blast
  qed
  show ?case
  proof (cases oper)
    case (Put p)
    then have p: "m (key s p) = None" "fit s p" "card (ran m) + 1 < cap"
      "puts_ok (fit s) (key s) cap ops (m(key s p \<mapsto> p))" using Cons.prems(2) by simp_all
    from rep_put [OF Cons.prems(1) p(1-3)] obtain s1 where
      a: "add p s = Inr s1" "rep s1 (m(key s p \<mapsto> p))" "\<forall>q. key s1 q = key s q \<and> fit s1 q = fit s q" by blast
    from ih [OF a(2,3) p(4)] a(1) Put show ?thesis by simp
  next
    case (Take k)
    then have ok: "puts_ok (fit s) (key s) cap ops (m(k := None))" using Cons.prems(2) by simp
    from rep_take [OF Cons.prems(1), of k] obtain s1 where
      a: "remove k s = Inr (null_or (m k), s1)" "rep s1 (m(k := None))" "\<forall>q. key s1 q = key s q \<and> fit s1 q = fit s q" by blast
    from ih [OF a(2,3) ok] a(1) Take show ?thesis by (auto simp: Let_def split_beta)
  next
    case (Find k)
    then have ok: "puts_ok (fit s) (key s) cap ops m" using Cons.prems(2) by simp
    from ih [OF Cons.prems(1) _ ok] rep_find [OF Cons.prems(1), of k] Find show ?thesis
      by (auto simp: Let_def split_beta)
  qed
qed

end

end
