(* ===== verification/Vg_Table.thy ===== *)
theory Vg_Table
  imports Vg_Hash_Inv Vg_Keyed
begin

text \<open>
  The hash table of \<open>m_hashtable.c\<close> provides the interface of keyed nodes; its properties.
\<close>

section \<open>The hash table\<close>

definition table_holds :: "nat \<Rightarrow> 'a vg_heap_scheme \<Rightarrow> nat set \<Rightarrow> bool" where
  "table_holds t s N \<longleftrightarrow> (\<exists>cs. ht s t cs \<and> N = set (concat cs))"

interpretation vg: keyed_table "table_holds t" key_of "\<lambda>_ p. 0 < p \<and> p < 2 ^ 64" "HT_add_node t" "HT_remove t" "HT_lookup t" "2 ^ 32"
  for t :: nat
proof
  fix s :: "'b vg_heap_scheme" and N p k
  {
    assume "table_holds t s N" "0 < p \<and> p < 2 ^ 64" "p \<notin> N" "card N + 1 < (2::nat) ^ 32"
    then obtain cs where h: "ht s t cs" "N = set (concat cs)" by (auto simp: table_holds_def)
    then have "length (concat cs) = card N" using distinct_card [OF ht_parts(8) [OF h(1)]] by metis
    with HT_add_node_spec [OF h(1), of p] \<open>0 < p \<and> p < 2 ^ 64\<close> \<open>p \<notin> N\<close> \<open>card N + 1 < 2 ^ 32\<close> h(2)
    obtain s' cs' where a: "HT_add_node t p s = Inr s'" "ht s' t cs'"
      "mset (concat cs') = add_mset p (mset (concat cs))" "only_links t (insert p (set (concat cs))) s s'"
      by auto
    have "set (concat cs') = insert p N" using mset_add_facts(2) [OF a(3)] h(2) by simp
    then show "\<exists>s'. HT_add_node t p s = Inr s' \<and> table_holds t s' (insert p N)
        \<and> (\<forall>q. key_of s' q = key_of s q \<and> (0 < q \<and> q < 2 ^ 64) = (0 < q \<and> q < 2 ^ 64))"
      using a by (auto simp: table_holds_def only_links_def)
  next
    assume "table_holds t s N"
    then obtain cs where h: "ht s t cs" "N = set (concat cs)" by (auto simp: table_holds_def)
    from HT_remove_spec [OF h(1), of k] obtain r s' cs' where
      a: "HT_remove t k s = Inr (r, s')" "ht s' t cs'" "only_links t (set (concat cs)) s s'" and
      c: "r = 0 \<and> (\<forall>p\<in>set (concat cs). key_of s p \<noteq> k) \<and> cs' = cs
       \<or> r \<in> set (concat cs) \<and> key_of s r = k \<and> HT_lookup t k s = Inr r
         \<and> mset (concat cs) = add_mset r (mset (concat cs'))" by blast
    have "set (concat cs') = N - {r}" if m: "mset (concat cs) = add_mset r (mset (concat cs'))"
    proof -
      have "set (concat cs) = insert r (set (concat cs'))" by (rule mset_add_facts(2) [OF m])
      moreover have "distinct (r # concat cs')"
        using ht_parts(8) [OF h(1)] m by (metis mset.simps(2) mset_eq_imp_distinct_iff)
      ultimately show ?thesis using h(2) by auto
    qed
    with c have "r = 0 \<and> (\<forall>p\<in>N. key_of s p \<noteq> k) \<and> table_holds t s' N
        \<or> r \<in> N \<and> key_of s r = k \<and> table_holds t s' (N - {r})"
      using a(2) h(2) by (auto simp: table_holds_def simp del: set_concat)
    with a show "\<exists>r s'. HT_remove t k s = Inr (r, s') \<and> (\<forall>q. key_of s' q = key_of s q \<and> (0 < q \<and> q < 2 ^ 64) = (0 < q \<and> q < 2 ^ 64))
        \<and> (r = 0 \<and> (\<forall>p\<in>N. key_of s p \<noteq> k) \<and> table_holds t s' N
           \<or> r \<in> N \<and> key_of s r = k \<and> table_holds t s' (N - {r}))"
      by (auto simp: only_links_def simp del: set_concat)
  next
    assume "table_holds t s N"
    then obtain cs where h: "ht s t cs" "N = set (concat cs)" by (auto simp: table_holds_def)
    from HT_lookup_spec [OF h(1)] h(2)
    show "\<exists>r. HT_lookup t k s = Inr r \<and> (r = 0 \<and> (\<forall>p\<in>N. key_of s p \<noteq> k) \<or> r \<in> N \<and> key_of s r = k)"
      by simp
  }
qed

section \<open>Properties\<close>

text \<open>
  C33. On nodes with different keys the hash table computes what a map computes: every sequence
  of additions, removals and lookups ends without a fault, returns the nodes that the map returns,
  and leaves a table that holds the nodes of the resulting map; growing in between does not show.
\<close>

theorem table_refines_map:
  assumes "represents (table_holds t) key_of s m" and "puts_ok (\<lambda>p. 0 < p \<and> p < 2 ^ 64) (key_of s) (2 ^ 32) ops m"
  shows "\<exists>s'. run_table (HT_add_node t) (HT_remove t) (HT_lookup t) ops s
      = Inr (fst (run_map (key_of s) ops m), s')
    \<and> represents (table_holds t) key_of s' (snd (run_map (key_of s) ops m))"
  using vg.run_refines_map [OF assms] by blast

definition demo_nodes :: vg_heap where
  "demo_nodes = \<lparr>nodes = (\<lambda>p. \<lparr>n_next = 0, n_key = (if p = 16 then 770 else 1)\<rparr>),
     tables = (\<lambda>_. \<lparr>n_chains = 0, n_elements = 0, iterNode = 0, iterChain = 0, chains = [],
       iterOK = False, name = 0\<rparr>)\<rparr>"

theorem table_refines_map_witness:
  "\<exists>s s'. HT_construct 5000 1 demo_nodes = Inr (5000, s)
     \<and> run_table (HT_add_node 5000) (HT_remove 5000) (HT_lookup 5000)
         [Put 8, Put 16, Find 1, Take 770, Find 770, Find 1] s = Inr ([8, 16, 0, 8], s')"
proof -
  obtain s where s: "HT_construct 5000 1 demo_nodes = Inr (5000, s)" "ht s 5000 (replicate 769 [])"
    "only_links 5000 {} demo_nodes s" using HT_construct_spec [of 1 5000 demo_nodes] by auto
  have k: "key_of s p = (if p = 16 then 770 else 1)" for p
    using s(3) by (simp add: only_links_def demo_nodes_def)
  have "table_holds 5000 s {}" unfolding table_holds_def using s(2) by force
  then have "represents (table_holds 5000) key_of s Map.empty" by (simp add: represents_def)
  moreover have "puts_ok (\<lambda>p. 0 < p \<and> p < 2 ^ 64) (key_of s) (2 ^ 32)
      [Put 8, Put 16, Find 1, Take 770, Find 770, Find 1] Map.empty"
    by (simp add: k)
  ultimately have "\<exists>s'. run_table (HT_add_node 5000) (HT_remove 5000) (HT_lookup 5000)
      [Put 8, Put 16, Find 1, Take 770, Find 770, Find 1] s
      = Inr (fst (run_map (key_of s) [Put 8, Put 16, Find 1, Take 770, Find 770, Find 1] Map.empty), s')"
    using table_refines_map by blast
  moreover have "fst (run_map (key_of s) [Put 8, Put 16, Find 1, Take 770, Find 770, Find 1] Map.empty)
      = [8, 16, 0, 8]"
    by (simp add: k)
  ultimately show ?thesis using s(1) by auto
qed

text \<open>A table of the first size with nodes in one chain only.\<close>

lemma ht_one_chain:
  assumes "n_chains (tables s t) = 769" and "chains (tables s t) = (replicate 769 0)[i := p]" and "i < 769"
    and "chain (nnext s) p b 0" and "n_elements (tables s t) = length b" and "length b < 2 ^ 32"
    and "\<And>q. q \<in> set b \<Longrightarrow> key_of s q mod 769 = i \<and> q < 2 ^ 64"
  shows "ht s t ((replicate 769 [])[i := b])" and "concat ((replicate 769 [])[i := b]) = b"
proof -
  have r: "concat ((replicate n [])[i := b]) = b" if "i < n" for n
    using that
  proof (induction n arbitrary: i)
    case (Suc n)
    then show ?case by (cases i) auto
  qed simp
  show c: "concat ((replicate 769 [])[i := b]) = b" by (rule r [OF assms(3)])
  show "ht s t ((replicate 769 [])[i := b])"
    unfolding ht_def assms(1,2,5) c
  proof (intro conjI)
    show "769 \<in> set primes" by (simp add: primes_def)
    show "heads s ((replicate 769 0)[i := p]) ((replicate 769 [])[i := b])"
      using assms(3,4) by (intro headsI) (auto simp: nth_list_update)
    show "hashed s ((replicate 769 [])[i := b])"
      using assms(3,7) by (auto simp: hashed_def nth_list_update)
  qed (use assms(6,7) in auto)
qed

lemma find_filter: "filter P xs = y # ys \<Longrightarrow> find P xs = Some y"
  by (induction xs) (auto split: if_splits)

lemma lookup_first:
  assumes "ht s t cs" and "filter (\<lambda>p. key_of s p = k) (cs ! (k mod length cs)) \<noteq> []"
  shows "HT_lookup t k s = Inr (hd (filter (\<lambda>p. key_of s p = k) (cs ! (k mod length cs))))"
proof (cases "filter (\<lambda>p. key_of s p = k) (cs ! (k mod length cs))")
  case Nil
  with assms(2) show ?thesis by simp
next
  case (Cons y ys)
  with HT_lookup_find [OF assms(1), of k] find_filter [OF Cons] show ?thesis by simp
qed

text \<open>
  C34. \<open>resize\<close> below the last prime ends, makes the table larger and keeps its nodes; but it
  reverses the order of the nodes with the same key: where a lookup returned the one added last,
  it then returns the one added first.
\<close>

theorem resize_reverses_duplicates:
  assumes "ht s t cs" and "length cs \<noteq> 402653189"
    and "dups = filter (\<lambda>p. key_of s p = k) (cs ! (k mod length cs))"
  shows "\<exists>s' cs'. resize t s = Inr s' \<and> ht s' t cs' \<and> length cs < length cs'
    \<and> mset (concat cs') = mset (concat cs)
    \<and> (dups \<noteq> [] \<longrightarrow> HT_lookup t k s = Inr (hd dups) \<and> HT_lookup t k s' = Inr (last dups))"
proof -
  have n: "length cs \<noteq> primes ! (N_HASH_PRIMES - 1)" using assms(2) by (simp add: primes_def)
  have pr: "length cs \<in> set primes" using ht_parts(1,2) [OF assms(1)] by simp
  let ?cs' = "grown (key_of s) cs"
  from resize_spec [OF assms(1)] obtain s' where r: "resize t s = Inr s'" "ht s' t ?cs'"
    "mset (concat ?cs') = mset (concat cs)" "only_links t (set (concat cs)) s s'" by blast
  have "length ?cs' = next_prime primes (length cs + 1)" unfolding grown_def if_not_P [OF n] by simp
  then have len: "length cs < length ?cs'" using next_prime_primes(2) [OF pr n] by simp
  have k: "key_of s' p = key_of s p" for p using r(4) by (simp add: only_links_def)
  have "HT_lookup t k s = Inr (hd dups) \<and> HT_lookup t k s' = Inr (last dups)" if "dups \<noteq> []"
  proof
    show "HT_lookup t k s = Inr (hd dups)"
      using lookup_first [OF assms(1)] that unfolding assms(3) by blast
    have d: "filter (\<lambda>p. key_of s' p = k) (?cs' ! (k mod length ?cs')) = rev dups"
      unfolding k assms(3) by (rule grown_same_key [OF assms(1) n])
    show "HT_lookup t k s' = Inr (last dups)"
      using lookup_first [OF r(2), of k] that unfolding d by (simp add: hd_rev)
  qed
  with r(1-3) len show ?thesis by blast
qed

theorem resize_reverses_duplicates_witness:
  "\<exists>s s' :: vg_heap. resize 5000 s = Inr s' \<and> HT_lookup 5000 1 s = Inr 24 \<and> HT_lookup 5000 1 s' = Inr 8"
proof -
  let ?cs = "(replicate 769 [])[1 := [24, 8]]"
  define s where "s = demo_nodes\<lparr>nodes := (nodes demo_nodes)(24 := \<lparr>n_next = 8, n_key = 1\<rparr>),
    tables := (tables demo_nodes)(5000 := \<lparr>n_chains = 769, n_elements = 2, iterNode = 0, iterChain = 0,
       chains = (replicate 769 0)[1 := 24], iterOK = False, name = 1\<rparr>)\<rparr>"
  have f: "chains (tables s 5000) = (replicate 769 0)[1 := 24]" "n_chains (tables s 5000) = 769"
    "n_elements (tables s 5000) = 2" "nnext s 24 = 8" "nnext s 8 = 0" "key_of s 24 = 1" "key_of s 8 = 1"
    by (simp_all add: s_def demo_nodes_def)
  have "ht s 5000 ?cs"
    by (rule ht_one_chain(1) [of s 5000 1 24]) (auto simp: f)
  from resize_reverses_duplicates [OF this, of "[24, 8]" 1] f show ?thesis by auto
qed

end
