(* ===== verification/Mc_Pool_Props.thy ===== *)
theory Mc_Pool_Props
  imports Mc_Pool Mc_Props Vg_Sorted Vg_Table
begin

text \<open>
  The properties of the core's sort and of the pools of memory: the sort ends and sorts; the sanity
  check of a pool complains exactly about overlapping chunks; trimming gives a chunk that lies
  across the start of the extent a wrong size.
\<close>

section \<open>The sort\<close>

text \<open>
  C39. The quicksort of the core ends, for elements of any size and at any address: with a fuel
  above the length of the array it returns, never reads or writes outside of the array, and the
  result holds the same elements in the order of the keys that the comparison compares.
\<close>

theorem bm_qsort_terminates_sorted:
  assumes "cmp_by cmp f"
  shows "\<forall>fuel>length xs. \<exists>ys. bm_qsort fuel base es cmp 0 (length xs) xs = Inr ys
    \<and> mset ys = mset xs \<and> sorted (map f ys)"
proof (intro allI, rule impI)
  fix fuel assume "length xs < fuel"
  from bm_qsort_spec [OF assms this, of "[]" "[]" base es]
  show "\<exists>ys. bm_qsort fuel base es cmp 0 (length xs) xs = Inr ys \<and> mset ys = mset xs \<and> sorted (map f ys)"
    by (simp add: sorts_def)
qed

text \<open>Nine elements of three words, for which the pivot stays in the array.\<close>

theorem bm_qsort_terminates_sorted_witness:
  "bm_qsort 20 5000 24 (\<lambda>x y. int x - int y) 0 9 [5, 3, 9, 3, 1, 8, 2, 7, (3::nat)]
     = Inr [1, 2, 3, 3, 3, 5, 7, 8, 9] \<and> bm_swaptype 5000 24 = 1"
proof -
  define xs where "xs = [5, 3, 9, 3, 1, 8, 2, 7, (3::nat)]"
  have len: "length xs = 9" by (simp add: xs_def)
  have "cmp_by (\<lambda>x y. int x - int y) id" by (auto simp: cmp_by_def)
  moreover have "9 < (20::nat)" by simp
  ultimately have "\<exists>ys. bm_qsort 20 5000 24 (\<lambda>x y. int x - int y) 0 9 xs = Inr ys \<and> mset ys = mset xs \<and> sorted (map id ys)"
    using bm_qsort_terminates_sorted [of "\<lambda>x y. int x - int y" id xs] unfolding len by blast
  then obtain ys where
    r: "bm_qsort 20 5000 24 (\<lambda>x y. int x - int y) 0 9 xs = Inr ys" "mset ys = mset xs" "sorted ys" by auto
  have "ys = sort xs" using r(2,3) by (metis properties_for_sort)
  then show ?thesis using r(1) by (simp add: xs_def insort_key.simps bm_swaptype_def)
qed

section \<open>The sanity check\<close>

lemma mp_compar_by: "cmp_by (mp_compar s) (data_of s)"
  by (auto simp: cmp_by_def mp_compar_def)

lemma check_order_sorted: "sorted (map (data_of s) chunks) \<Longrightarrow> check_order s n i chunks = []"
  by (induction s n i chunks rule: check_order.induct) auto

definition ends_before :: "mc_state \<Rightarrow> nat \<Rightarrow> nat \<Rightarrow> bool" where
  "ends_before s x y \<longleftrightarrow> data_of s x + size_of s x \<le> data_of s y"

lemma check_overlap_iff:
  "(\<And>x. x \<in> set chunks \<Longrightarrow> data_of s x + size_of s x < 2 ^ 64) \<Longrightarrow>
   check_overlap s n i chunks = [] \<longleftrightarrow> successively (ends_before s) chunks"
  by (induction s n i chunks rule: check_overlap.induct) (auto simp: u64_def ends_before_def)

lemma successively_ends_before:
  assumes "sorted (map (data_of s) xs)" and "distinct xs" and "\<And>x. x \<in> set xs \<Longrightarrow> 0 < size_of s x"
  shows "successively (ends_before s) xs \<longleftrightarrow>
    (\<forall>x\<in>set xs. \<forall>y\<in>set xs. x \<noteq> y \<longrightarrow> ends_before s x y \<or> ends_before s y x)"
proof -
  have "transp (ends_before s)" by (auto simp: transp_def ends_before_def)
  then have "successively (ends_before s) xs \<longleftrightarrow> sorted_wrt (ends_before s) xs"
    by (rule successively_conv_sorted_wrt)
  also have "\<dots> \<longleftrightarrow> (\<forall>x\<in>set xs. \<forall>y\<in>set xs. x \<noteq> y \<longrightarrow> ends_before s x y \<or> ends_before s y x)"
    using assms
  proof (induction xs)
    case (Cons z xs)
    have "ends_before s z y \<longleftrightarrow> ends_before s z y \<or> ends_before s y z" if "y \<in> set xs" for y
      using Cons.prems(1) Cons.prems(3) [of y] that by (fastforce simp: ends_before_def)
    with Cons show ?case by auto
  qed simp
  finally show ?thesis .
qed

text \<open>Iterating over a table changes only its iterator.\<close>

definition no_iterator :: "vg_table \<Rightarrow> nat \<times> nat \<times> nat list \<times> nat" where
  "no_iterator x = (n_chains x, n_elements x, chains x, name x)"

definition iterators_only :: "mc_state \<Rightarrow> mc_state \<Rightarrow> bool" where
  "iterators_only s s' \<longleftrightarrow>
     (\<exists>T. s' = s\<lparr>tables := T\<rparr> \<and> (\<forall>t. no_iterator (T t) = no_iterator (tables s t)))"

lemma iterators_only_refl [simp]: "iterators_only s s"
  unfolding iterators_only_def by (rule exI [of _ "tables s"]) simp

lemma iterators_only_trans: "iterators_only s s' \<Longrightarrow> iterators_only s' s'' \<Longrightarrow> iterators_only s s''"
  by (auto simp: iterators_only_def)

lemma iterators_only_table:
  "no_iterator (f (tables s t)) = no_iterator (tables s t) \<Longrightarrow> iterators_only s (upd_table t f s)"
  by (auto simp: iterators_only_def upd_table_def)

lemma iterators_only_ht:
  assumes "iterators_only s s'"
  shows "ht s' t cs = ht s t cs" and "mempool_list s' = mempool_list s" and "mempool s' = mempool s"
proof -
  obtain T where T: "s' = s\<lparr>tables := T\<rparr>" "\<forall>t. no_iterator (T t) = no_iterator (tables s t)"
    using assms by (auto simp: iterators_only_def)
  then have "no_iterator (tables s' t) = no_iterator (tables s t)" "nodes s' = nodes s" by simp_all
  then show "ht s' t cs = ht s t cs" by (intro ht_cong) (simp_all add: no_iterator_def)
qed (use assms in \<open>auto simp: iterators_only_def\<close>)

lemma next_chain_iterators: "next_chain i t s = Inr (p, s') \<Longrightarrow> iterators_only s s'"
proof (induction i t s rule: next_chain.induct)
  case (1 i t s)
  then show ?case
    by (subst (asm) next_chain.simps)
      (auto simp: bind_res_Inr_iff Let_def no_iterator_def intro!: iterators_only_table split: if_splits)
qed

lemma HT_Next_iterators: "HT_Next t s = Inr (p, s') \<Longrightarrow> iterators_only s s'"
  by (auto simp: HT_Next_def Let_def bind_res_Inr_iff no_iterator_def intro!: iterators_only_table
      dest: next_chain_iterators split: if_splits)

lemma iter_at_tables: "tables s' t = tables s t \<Longrightarrow> iter_at s' t cs xs = iter_at s t cs xs"
  by (simp add: iter_at_def)

lemma u32_add: "u32 (u32 a + b) = u32 (a + b)" "u32 (Suc (u32 a)) = u32 (Suc a)"
  by (simp_all add: u32_def mod_add_left_eq mod_Suc_eq)

lemma count_nodes_spec:
  "ht s t cs \<Longrightarrow> t \<noteq> 0 \<Longrightarrow> iter_at s t cs xs \<Longrightarrow> (\<And>x. x \<in> set xs \<Longrightarrow> x \<noteq> 0) \<Longrightarrow> length xs < fuel \<Longrightarrow>
   \<exists>s'. count_nodes fuel t (u32 n) s = Inr (u32 (n + length xs), s') \<and> iterators_only s s'
     \<and> (\<forall>u. u \<noteq> t \<longrightarrow> tables s' u = tables s u)"
proof (induction xs arbitrary: fuel n s)
  case Nil
  then show ?case using HT_Next_spec(1) [OF Nil(1-3)] by (subst count_nodes.simps) simp
next
  case (Cons y ys)
  from HT_Next_spec(2) [OF Cons.prems(1-3) refl] obtain s1 where
    s1: "HT_Next t s = Inr (y, s1)" "ht s1 t cs" "iter_at s1 t cs ys" "only_links t {} s s1" by blast
  have "\<And>x. x \<in> set ys \<Longrightarrow> x \<noteq> 0" and f: "length ys < fuel - 1" using Cons.prems(4,5) by simp_all
  from Cons.IH [OF s1(2) Cons.prems(2) s1(3) this, of "n + 1"] obtain s' where
    s': "count_nodes (fuel - 1) t (u32 (n + 1)) s1 = Inr (u32 (n + 1 + length ys), s')" "iterators_only s1 s'"
      "\<forall>u. u \<noteq> t \<longrightarrow> tables s' u = tables s1 u" by auto
  have "count_nodes fuel t (u32 n) s = Inr (u32 (n + length (y # ys)), s')"
    using s1(1) s'(1) Cons.prems(4,5) by (subst count_nodes.simps) (simp add: u32_add)
  moreover have "\<forall>u. u \<noteq> t \<longrightarrow> tables s' u = tables s u" using s'(3) s1(4) by (simp add: only_links_def)
  ultimately show ?case using iterators_only_trans [OF HT_Next_iterators [OF s1(1)] s'(2)] by blast
qed

text \<open>The table of the pools, and those of their chunks.\<close>

definition pools_ok :: "mc_state \<Rightarrow> nat list list \<Rightarrow> (nat \<Rightarrow> nat list list) \<Rightarrow> bool" where
  "pools_ok s ps C \<longleftrightarrow> ht s (mempool_list s) ps \<and> mempool_list s \<noteq> 0
     \<and> (\<forall>q\<in>set (concat ps). ht s (pool_chunks s q) (C q) \<and> pool_chunks s q \<noteq> 0
          \<and> pool_chunks s q \<noteq> mempool_list s)"

lemma pools_ok_iterators: "iterators_only s s' \<Longrightarrow> pools_ok s' ps C = pools_ok s ps C"
  by (simp add: pools_ok_def iterators_only_ht)

abbreviation chunks_in :: "(nat \<Rightarrow> nat list list) \<Rightarrow> nat list \<Rightarrow> nat" where
  "chunks_in C qs \<equiv> sum_list (map (\<lambda>q. length (concat (C q))) qs)"

lemma count_pools_spec:
  "pools_ok s ps C \<Longrightarrow> iter_at s (mempool_list s) ps xs \<Longrightarrow> set xs \<subseteq> set (concat ps) \<Longrightarrow> length xs < fuel \<Longrightarrow>
   \<exists>s'. count_pools fuel (u32 k) (u32 n) s = Inr (u32 (k + length xs), u32 (n + chunks_in C xs), s')
     \<and> iterators_only s s'"
proof (induction xs arbitrary: fuel k n s)
  case Nil
  let ?l = "mempool_list s"
  have "ht s ?l ps" "?l \<noteq> 0" using Nil.prems(1) by (simp_all add: pools_ok_def)
  from HT_Next_spec(1) [OF this Nil.prems(2)] Nil.prems(4) show ?case by (subst count_pools.simps) simp
next
  case (Cons y ys)
  let ?l = "mempool_list s" and ?t = "pool_chunks s y"
  have l: "ht s ?l ps" "?l \<noteq> 0" and t: "ht s ?t (C y)" "?t \<noteq> 0" "?t \<noteq> ?l"
    using Cons.prems(1,3) by (auto simp: pools_ok_def)
  have y: "y \<noteq> 0" using Cons.prems(3) ht_parts(9) [OF l(1)] by auto
  from HT_Next_spec(2) [OF l Cons.prems(2) refl] obtain s1 where
    s1: "HT_Next ?l s = Inr (y, s1)" "ht s1 ?l ps" "iter_at s1 ?l ps ys" by blast
  note i1 = HT_Next_iterators [OF s1(1)]
  define s2 where "s2 = upd_table ?t (\<lambda>x. x\<lparr>iterNode := 0, iterChain := 0, iterOK := True\<rparr>) s1"
  have i2: "iterators_only s1 s2"
    unfolding s2_def by (rule iterators_only_table) (simp add: no_iterator_def)
  have t1: "ht s1 ?t (C y)" using t(1) iterators_only_ht(1) [OF i1] by simp
  have reset: "HT_ResetIter ?t s1 = Inr s2" using t(2) by (simp add: HT_ResetIter_def s2_def)
  with HT_ResetIter_spec [OF t1 t(2)] have s2: "ht s2 ?t (C y)" "iter_at s2 ?t (C y) (concat (C y))" by auto
  have len: "length (concat (C y)) < list_fuel" using ht_parts(7) [OF t1] by (simp add: list_fuel_def)
  from count_nodes_spec [OF s2(1) t(2) s2(2) _ len, of n] ht_parts(9) [OF s2(1)] obtain s3 where
    s3: "count_nodes list_fuel ?t (u32 n) s2 = Inr (u32 (n + length (concat (C y))), s3)" "iterators_only s2 s3"
      "\<forall>u. u \<noteq> ?t \<longrightarrow> tables s3 u = tables s2 u" by blast
  have i: "iterators_only s s3" using i1 i2 s3(2) by (blast intro: iterators_only_trans)
  have "tables s3 ?l = tables s1 ?l" using s3(3) t(3) by (simp add: s2_def)
  then have "iter_at s3 (mempool_list s3) ps ys"
    using s1(3) iter_at_tables [of s3 ?l s1] iterators_only_ht(2) [OF i] by simp
  moreover have "pools_ok s3 ps C" using pools_ok_iterators [OF i] Cons.prems(1) by simp
  moreover have "set ys \<subseteq> set (concat ps)" "length ys < fuel - 1" using Cons.prems(3,4) by simp_all
  ultimately obtain s' where
    s': "count_pools (fuel - 1) (u32 (k + 1)) (u32 (n + length (concat (C y)))) s3
      = Inr (u32 (k + 1 + length ys), u32 (n + length (concat (C y)) + chunks_in C ys), s')" "iterators_only s3 s'"
    using Cons.IH [of s3 "fuel - 1" "k + 1" "n + length (concat (C y))"] by blast
  have p: "mempool s1 = mempool s" "mempool s2 = mempool s"
    using iterators_only_ht(3) [OF i1] by (simp_all add: s2_def upd_table_def)
  have "count_pools fuel (u32 k) (u32 n) s
      = Inr (u32 (k + length (y # ys)), u32 (n + chunks_in C (y # ys)), s')"
    using s1(1) reset s3(1) s'(1) y p Cons.prems(4)
    by (subst count_pools.simps) (simp add: u32_add add.assoc)
  with iterators_only_trans [OF i s'(2)] show ?case by blast
qed

text \<open>The totals: when they are due, what is reported, and the counter of the checks.\<close>

definition totals_due :: "mc_env \<Rightarrow> mc_state \<Rightarrow> bool" where
  "totals_due env s \<longleftrightarrow> clo_verbosity env > 1 \<and> pool_tick s \<ge> 10000"

definition next_tick :: "mc_env \<Rightarrow> mc_state \<Rightarrow> nat" where
  "next_tick env s =
     (if clo_verbosity env \<le> 1 then pool_tick s else if pool_tick s \<ge> 10000 then 0 else pool_tick s + 1)"

definition totals_of :: "mc_env \<Rightarrow> mc_state \<Rightarrow> nat list list \<Rightarrow> (nat \<Rightarrow> nat list list) \<Rightarrow> mc_call list" where
  "totals_of env s ps C =
     (if totals_due env s then [Pool_totals (length (concat ps)) (u32 (chunks_in C (concat ps)))] else [])"

definition ticked :: "mc_env \<Rightarrow> mc_state \<Rightarrow> nat list list \<Rightarrow> (nat \<Rightarrow> nat list list) \<Rightarrow> mc_state" where
  "ticked env s ps C = s\<lparr>pool_tick := next_tick env s, log := log s @ totals_of env s ps C\<rparr>"

lemma pool_totals_spec:
  assumes "totals_due env s \<Longrightarrow> pools_ok s ps C"
  shows "\<exists>s'. pool_totals env s = Inr s' \<and> iterators_only (ticked env s ps C) s'
    \<and> (\<not> totals_due env s \<longrightarrow> s' = ticked env s ps C)"
proof (cases "totals_due env s")
  case False
  then show ?thesis
    by (auto simp: totals_due_def pool_totals_def ticked_def next_tick_def totals_of_def Let_def u32_def)
next
  case True
  let ?l = "mempool_list s"
  define s1 where "s1 = s\<lparr>pool_tick := u32 (pool_tick s + 1)\<rparr>"
  have f1: "ht s1 t cs = ht s t cs" "mempool s1 = mempool s" "mempool_list s1 = mempool_list s" for t cs
    by (rule ht_cong) (simp_all add: s1_def)
  have "pools_ok s1 ps C = pools_ok s ps C" unfolding pools_ok_def f1 ..
  then have P: "pools_ok s1 ps C" using assms True by simp
  then have l: "ht s1 ?l ps" "?l \<noteq> 0" by (simp_all add: pools_ok_def s1_def)
  define s2 where "s2 = upd_table ?l (\<lambda>x. x\<lparr>iterNode := 0, iterChain := 0, iterOK := True\<rparr>) s1"
  have i2: "iterators_only s1 s2"
    unfolding s2_def by (rule iterators_only_table) (simp add: no_iterator_def)
  have reset: "HT_ResetIter ?l s1 = Inr s2" using l(2) by (simp add: HT_ResetIter_def s2_def)
  with HT_ResetIter_spec [OF l] have at: "iter_at s2 ?l ps (concat ps)" by auto
  have l2: "mempool_list s2 = ?l" by (simp add: s2_def upd_table_def s1_def)
  have n: "length (concat ps) < 2 ^ 32" using ht_parts(7) [OF l(1)] .
  from count_pools_spec [of s2 ps C "concat ps" list_fuel 0 0] P pools_ok_iterators [OF i2] at n obtain s3 where
    s3: "count_pools list_fuel (u32 0) (u32 0) s2
      = Inr (u32 (length (concat ps)), u32 (chunks_in C (concat ps)), s3)" "iterators_only s2 s3"
    unfolding l2 by (auto simp: list_fuel_def)
  have z: "u32 0 = 0" "u32 (length (concat ps)) = length (concat ps)" using n by (simp_all add: u32_def)
  let ?s' = "(call (Pool_totals (length (concat ps)) (u32 (chunks_in C (concat ps)))) s3)\<lparr>pool_tick := 0\<rparr>"
  have "pool_totals env s = Inr ?s'"
    using True reset s3(1) unfolding z pool_totals_def s1_def [symmetric]
    by (simp add: totals_due_def Let_def s1_def)
  moreover obtain T where T: "s3 = s1\<lparr>tables := T\<rparr>" "\<forall>t. no_iterator (T t) = no_iterator (tables s t)"
    using iterators_only_trans [OF i2 s3(2)] by (auto simp: iterators_only_def s1_def)
  then have "iterators_only (ticked env s ps C) ?s'"
    using True unfolding iterators_only_def
    by (intro exI [of _ T]) (simp add: ticked_def next_tick_def totals_of_def totals_due_def call_def s1_def)
  ultimately show ?thesis using True by blast
qed

lemma check_mempool_sane_spec:
  assumes h: "ht s (pool_chunks s mp) cs" and P: "totals_due env s \<Longrightarrow> pools_ok s ps C"
    and s0: "s0 = (if concat cs = [] then s else ticked env s ps C)"
  shows "\<exists>s' chunks n msgs. check_mempool_sane env mp s = Inr s' \<and> iterators_only (calls_made msgs s0) s'
    \<and> (\<not> totals_due env s \<longrightarrow> s' = calls_made msgs s0)
    \<and> mset chunks = mset (concat cs) \<and> sorted (map (data_of s) chunks)
    \<and> (msgs = [] \<longleftrightarrow> check_overlap s n 0 chunks = [])"
proof (cases "concat cs = []")
  case True
  then have "check_mempool_sane env mp s = Inr s"
    using HT_to_array_spec [OF h] by (simp add: check_mempool_sane_def)
  then show ?thesis
    using True s0 by (intro exI [of _ s] exI [of _ "[]"]) (auto simp: calls_made_def)
next
  case False
  let ?n = "length (concat cs)"
  have s0: "s0 = ticked env s ps C" using s0 False by (simp only: if_False)
  from pool_totals_spec [of env s, OF P] obtain s1 where
    s1: "pool_totals env s = Inr s1" "iterators_only s0 s1" "\<not> totals_due env s \<Longrightarrow> s1 = s0"
    unfolding s0 by blast
  then obtain T where T: "s1 = s0\<lparr>tables := T\<rparr>" "\<forall>t. no_iterator (T t) = no_iterator (tables s0 t)"
    by (auto simp: iterators_only_def)
  then have same: "nodes s1 = nodes s" "chunk s1 = chunk s" by (simp_all add: s0 ticked_def)
  have "sorts (data_of s1) [] (concat cs) [] (ssort 0 8 (mp_compar s1) (concat cs))"
    using bm_qsort_spec [OF mp_compar_by [of s1] lessI, of "[]" "concat cs" "[]"] by (simp add: ssort_def)
  then obtain chunks where c: "ssort 0 8 (mp_compar s1) (concat cs) = Inr chunks" "mset chunks = mset (concat cs)"
    "sorted (map (data_of s) chunks)" by (auto simp: sorts_def same)
  define bad where "bad = check_order s1 ?n 0 chunks @ check_overlap s1 ?n 0 chunks"
  have "check_overlap s1 ?n i xs = check_overlap s ?n i xs" for i xs
    by (induction xs arbitrary: i rule: induct_list012) (simp_all add: same)
  moreover have "check_order s1 ?n 0 chunks = []" using c(3) by (intro check_order_sorted) (simp add: same)
  ultimately have bad: "bad = check_overlap s ?n 0 chunks" by (simp add: bad_def)
  define msgs where "msgs = bad @ (if bad = [] then []
      else Bad_mempool ?n # map (\<lambda>mc. Dump_chunk (data_of s1 mc) (size_of s1 mc)) chunks)"
  have "HT_to_array (pool_chunks s mp) s = Inr (Some (concat cs), ?n)"
    using HT_to_array_spec [OF h] False by simp
  then have "check_mempool_sane env mp s = Inr (calls_made msgs s1)"
    by (simp only: check_mempool_sane_def bind_res_simps prod.case option.case s1(1) c(1) Let_def
        bad_def [symmetric] msgs_def)
  moreover have "iterators_only (calls_made msgs s0) (calls_made msgs s1)"
    using T by (auto simp: iterators_only_def calls_made_def intro: exI [of _ T])
  moreover have "msgs = [] \<longleftrightarrow> check_overlap s ?n 0 chunks = []" by (simp add: msgs_def bad)
  ultimately show ?thesis using c(2,3) s1(3) by blast
qed

text \<open>
  C40. The sanity check of a pool never fails. For chunks that are not empty and do not reach the
  end of the address space, it complains if and only if two chunks of the pool overlap. Apart from
  the messages it changes only the counter of its calls, exactly as computed here; when the totals
  are due, these are reported first, are the numbers of pools and of chunks in all pools, and cost
  the tables their iterators. A check of an empty pool does nothing.
\<close>

theorem check_mempool_sane_decides:
  assumes "ht s (pool_chunks s mp) cs" and "totals_due env s \<Longrightarrow> pools_ok s ps C"
    and "\<forall>a\<in>set (concat cs). 0 < size_of s a \<and> data_of s a + size_of s a < 2 ^ 64"
  shows "\<exists>s' msgs. check_mempool_sane env mp s = Inr s'
    \<and> (if concat cs = [] then s' = s
       else if totals_due env s then iterators_only (calls_made msgs (ticked env s ps C)) s'
       else s' = s\<lparr>pool_tick := next_tick env s, log := log s @ msgs\<rparr>)
    \<and> (msgs = [] \<longleftrightarrow> (\<forall>a\<in>set (concat cs). \<forall>b\<in>set (concat cs). a \<noteq> b \<longrightarrow>
          data_of s a + size_of s a \<le> data_of s b \<or> data_of s b + size_of s b \<le> data_of s a))"
proof -
  define s0 where "s0 = (if concat cs = [] then s else ticked env s ps C)"
  from check_mempool_sane_spec [OF assms(1,2) s0_def] obtain s' chunks n msgs where
    r: "check_mempool_sane env mp s = Inr s'" "iterators_only (calls_made msgs s0) s'"
      "\<not> totals_due env s \<longrightarrow> s' = calls_made msgs s0" "mset chunks = mset (concat cs)"
      "sorted (map (data_of s) chunks)" "msgs = [] \<longleftrightarrow> check_overlap s n 0 chunks = []" by blast
  have sets: "set chunks = set (concat cs)" by (rule mset_eq_setD [OF r(4)])
  have "distinct chunks" using ht_parts(8) [OF assms(1)] r(4) by (metis mset_eq_imp_distinct_iff)
  then have "msgs = [] \<longleftrightarrow> (\<forall>x\<in>set chunks. \<forall>y\<in>set chunks. x \<noteq> y \<longrightarrow> ends_before s x y \<or> ends_before s y x)"
    using r(6) check_overlap_iff [of chunks s n 0] successively_ends_before [OF r(5)] assms(3)
    unfolding sets by blast
  then have d: "msgs = [] \<longleftrightarrow> (\<forall>a\<in>set (concat cs). \<forall>b\<in>set (concat cs). a \<noteq> b \<longrightarrow>
      data_of s a + size_of s a \<le> data_of s b \<or> data_of s b + size_of s b \<le> data_of s a)"
    unfolding sets ends_before_def .
  have c: "if concat cs = [] then s' = s
       else if totals_due env s then iterators_only (calls_made msgs (ticked env s ps C)) s'
       else s' = s\<lparr>pool_tick := next_tick env s, log := log s @ msgs\<rparr>"
  proof (cases "concat cs = []")
    case False
    with r(2,3) show ?thesis
      unfolding s0_def if_not_P [OF False]
      by (cases "totals_due env s") (simp_all add: calls_made_def ticked_def totals_of_def)
  qed (use HT_to_array_spec [OF assms(1)] r(1) in \<open>simp add: check_mempool_sane_def\<close>)
  with r(1) d show ?thesis by blast
qed

text \<open>Two chunks that overlap, at a check that reports the totals.\<close>

theorem check_mempool_sane_decides_witness:
  "\<exists>s s' msgs. pool_tick s = 10000 \<and> check_mempool_sane (demo_env\<lparr>clo_verbosity := 2\<rparr>) 64 s = Inr s'
     \<and> pool_tick s' = 0 \<and> log s' = log s @ Pool_totals 1 2 # msgs \<and> msgs \<noteq> []"
proof -
  define s where "s = demo_mc\<lparr>pool_tick := 10000,
    nodes := (nodes demo_mc)(24 := \<lparr>n_next = 8, n_key = 1\<rparr>, 8 := \<lparr>n_next = 0, n_key = 770\<rparr>,
      64 := \<lparr>n_next = 0, n_key = 9000\<rparr>),
    tables := (tables demo_mc)(5000 := \<lparr>n_chains = 769, n_elements = 2, iterNode = 0, iterChain = 0,
       chains = (replicate 769 0)[1 := 24], iterOK = False, name = 1\<rparr>,
      6000 := \<lparr>n_chains = 769, n_elements = 1, iterNode = 0, iterChain = 0,
       chains = (replicate 769 0)[541 := 64], iterOK = False, name = 1\<rparr>),
    chunk := (\<lambda>p. \<lparr>szB = 1000, allockind = MC_AllocCustom, where_ec = 7\<rparr>),
    mempool := (\<lambda>p. \<lparr>rzB = 0, is_zeroed = False, mp_chunks = 5000\<rparr>)\<rparr>"
  have f: "chains (tables s 5000) = (replicate 769 0)[1 := 24]" "n_chains (tables s 5000) = 769"
    "n_elements (tables s 5000) = 2" "nnext s 24 = 8" "nnext s 8 = 0" "data_of s 24 = 1" "data_of s 8 = 770"
    "size_of s p = 1000" "pool_chunks s p = 5000" "mempool_list s = 6000" "pool_tick s = 10000"
    "chains (tables s 6000) = (replicate 769 0)[541 := 64]" "n_chains (tables s 6000) = 769"
    "n_elements (tables s 6000) = length [64::nat]" "chain (nnext s) 64 [64] 0" "key_of s 64 = 9000" for p
    by (simp_all add: s_def demo_mc_def)
  let ?cs = "(replicate 769 [])[1 := [24, 8::nat]]" and ?ps = "(replicate 769 [])[541 := [64::nat]]"
  let ?e = "demo_env\<lparr>clo_verbosity := 2\<rparr>"
  have b: "chain (nnext s) 24 [24, 8] 0" "n_elements (tables s 5000) = length [24, 8::nat]"
    "length [24, 8::nat] < 2 ^ 32" "\<And>q. q \<in> set [24, 8] \<Longrightarrow> key_of s q mod 769 = 1 \<and> q < 2 ^ 64"
    by (auto simp: f)
  note h = ht_one_chain [OF f(2,1) _ b, simplified]
  have P: "ht s 6000 ?ps" "concat ?ps = [64::nat]"
    by (rule ht_one_chain [OF f(13,12) _ f(15,14)]; simp add: f(16))+
  have due: "totals_due ?e s" by (simp add: totals_due_def f)
  have ok: "pools_ok s ?ps (\<lambda>_. ?cs)" unfolding pools_ok_def P(2) using P(1) h by (simp add: f)
  have t: "next_tick ?e s = 0" "totals_of ?e s ?ps (\<lambda>_. ?cs) = [Pool_totals 1 2]"
    unfolding totals_of_def P(2) using h by (simp_all add: next_tick_def f due u32_def)
  from check_mempool_sane_decides [of s 64 ?cs ?e ?ps "\<lambda>_. ?cs"] obtain s' msgs where
    r: "check_mempool_sane ?e 64 s = Inr s'" "iterators_only (calls_made msgs (ticked ?e s ?ps (\<lambda>_. ?cs))) s'"
    "msgs = [] \<longleftrightarrow> (\<forall>a\<in>{24, 8}. \<forall>b\<in>{24, 8}. a \<noteq> b \<longrightarrow>
          data_of s a + size_of s a \<le> data_of s b \<or> data_of s b + size_of s b \<le> data_of s a)"
    using h ok due by (auto simp: f)
  then have "msgs \<noteq> []" by (simp add: f)
  moreover have "pool_tick s' = 0" "log s' = log s @ Pool_totals 1 2 # msgs"
    using r(2) t by (auto simp: iterators_only_def calls_made_def ticked_def)
  ultimately show ?thesis using r(1) f(11) by blast
qed

section \<open>Trimming\<close>

text \<open>The checks of a quiet run append messages and change nothing else.\<close>

definition with_messages :: "mc_state \<Rightarrow> mc_call list \<Rightarrow> mc_state \<Rightarrow> bool" where
  "with_messages s msgs s' \<longleftrightarrow> s' = s\<lparr>log := log s @ msgs\<rparr>"

lemma check_mempool_sane_quiet:
  assumes "ht s (pool_chunks s mp) cs" and "clo_verbosity env \<le> 1"
  shows "\<exists>s' msgs. check_mempool_sane env mp s = Inr s' \<and> with_messages s msgs s'"
proof -
  have q: "\<not> totals_due env s" "next_tick env s = pool_tick s" "totals_of env s ps C = []" for ps C
    using assms(2) by (simp_all add: totals_due_def next_tick_def totals_of_def)
  then have t: "ticked env s ps C = s" for ps C by (simp add: ticked_def)
  from check_mempool_sane_spec [OF assms(1) _ refl, of env] q(1) show ?thesis
    unfolding t by (auto simp: with_messages_def calls_made_def)
qed

lemma with_messages_fields:
  assumes "with_messages s msgs s'"
  shows "nodes s' = nodes s" "tables s' = tables s" "chunk s' = chunk s" "mempool s' = mempool s"
    "mempool_list s' = mempool_list s" "ht s' t cs = ht s t cs"
proof -
  show f: "nodes s' = nodes s" "tables s' = tables s" "chunk s' = chunk s" "mempool s' = mempool s"
    "mempool_list s' = mempool_list s" using assms by (auto simp: with_messages_def)
  show "ht s' t cs = ht s t cs" by (rule ht_cong) (simp_all add: f)
qed

text \<open>\<open>trim_chunk\<close> on a chunk that starts before the extent.\<close>

lemma trim_chunk_straddling:
  assumes h: "ht s t cs" "a \<noteq> 0" "a < 2 ^ 64" "a \<notin> set (concat cs)" "length (concat cs) + 1 < 2 ^ 32"
    and d: "data_of s a < addr" "addr + n < 2 ^ 64"
  shows "data_of s a + n \<le> addr \<Longrightarrow> trim_chunk t a addr n s = Inl Abort"
    and "addr < data_of s a + n \<Longrightarrow> \<exists>s' cs'. trim_chunk t a addr n s = Inr s' \<and> ht s' t cs'
      \<and> mset (concat cs') = add_mset a (mset (concat cs)) \<and> data_of s' a = addr
      \<and> size_of s' a = u32 (data_of s a + n - addr) \<and> mempool s' = mempool s"
proof -
  let ?d = "data_of s a"
  have u: "u64 (addr + n) = addr + n" "u64 (?d + n) = ?d + n" using d by (simp_all add: u64_def)
  show "trim_chunk t a addr n s = Inl Abort" if "?d + n \<le> addr"
    using d that by (simp add: trim_chunk_def u)
  show "\<exists>s' cs'. trim_chunk t a addr n s = Inr s' \<and> ht s' t cs'
      \<and> mset (concat cs') = add_mset a (mset (concat cs)) \<and> data_of s' a = addr
      \<and> size_of s' a = u32 (?d + n - addr) \<and> mempool s' = mempool s" if o: "addr < ?d + n"
  proof -
    define s1 where "s1 = (if ?d < addr \<and> \<not> extent_contains addr n ?d
      then call (Make_noaccess ?d (addr - ?d)) s else s)"
    define s2 where "s2 = (if ?d + n < addr + n \<and> \<not> extent_contains addr n (addr + n)
      then call (Make_noaccess (?d + n) (addr + n - (?d + n))) s1 else s1)"
    define s3 where "s3 = upd_chunk_info a (\<lambda>x. x\<lparr>szB := u32 (?d + n - addr)\<rparr>)
      (upd_node a (\<lambda>x. x\<lparr>n_key := addr\<rparr>) s2)"
    have f: "nodes s2 = nodes s" "tables s2 = tables s" "chunk s2 = chunk s" "mempool s2 = mempool s"
      by (simp_all add: s2_def s1_def)
    have f3: "nodes s3 = (nodes s)(a := (nodes s a)\<lparr>n_key := addr\<rparr>)" "tables s3 = tables s" "mempool s3 = mempool s"
      "size_of s3 a = u32 (?d + n - addr)"
      using f by (simp_all add: s3_def upd_chunk_info_def upd_node_def)
    have h3: "ht s3 t cs" by (rule ht_frame [OF h(1)]) (use f3 h(4) in auto)
    from HT_add_node_spec [OF h3 h(2-5)] obtain s' cs' where
      r: "HT_add_node t a s3 = Inr s'" "ht s' t cs'" "mset (concat cs') = add_mset a (mset (concat cs))"
        "only_links t (insert a (set (concat cs))) s3 s'" by blast
    have "trim_chunk t a addr n s = Inr s'"
      using d o r(1) unfolding trim_chunk_def u Let_def s3_def s2_def s1_def by simp
    moreover have "data_of s' a = addr" using r(4) f3(1) by (simp add: only_links_def)
    moreover have "size_of s' a = u32 (?d + n - addr)" "mempool s' = mempool s"
      using only_links_more(1,3) [OF r(4)] f3(3,4) by simp_all
    ultimately show ?thesis using r(2,3) by blast
  qed
qed

text \<open>The loop of \<open>mempool_trim\<close> takes a chunk that the extent begins in out of the table.\<close>

lemma trim_loop_straddling:
  assumes "HT_remove (pool_chunks s mp) (data_of s a) s = Inr (a, s')" and "a \<noteq> 0"
    and "mempool s' = mempool s"
    and "data_of s a < addr" and "addr < data_of s a + size_of s a"
    and "data_of s a + size_of s a \<le> addr + n" and "addr + n < 2 ^ 64"
  shows "trim_loop env tid mp addr n [a] s =
    bind_res (trim_chunk (pool_chunks s mp) a addr n s') (trim_loop env tid mp addr n [])"
proof -
  let ?d = "data_of s a"
  have u: "u64 (addr + n) = addr + n" using assms(7) by (simp add: u64_def)
  have hi: "u64 (?d + size_of s a + 2 ^ 64 - 1) = ?d + size_of s a - 1"
  proof -
    obtain m where m: "?d + size_of s a = m + 1" using assms(5) by (cases "?d + size_of s a") auto
    have "m + 1 + 2 ^ 64 - 1 = m + (2 ^ 64 :: nat)" by simp
    moreover have "m < 2 ^ 64" using m assms(6,7) by simp
    ultimately have "u64 (m + 1 + 2 ^ 64 - 1) = m" unfolding u64_def by simp
    then show ?thesis unfolding m by simp
  qed
  have "\<not> extent_contains addr n ?d" "extent_contains addr n (?d + size_of s a - 1)"
    using assms(4-6) by (auto simp: extent_contains_def u)
  then show ?thesis
    using assms(1-5) hi by (simp add: Let_def)
qed

text \<open>So do the operations before the chunk is cut.\<close>

lemma mempool_trim_one_chunk:
  assumes "ht s (mempool_list s) ps" and "mp \<in> set (concat ps)" and "key_of s mp = pool"
    and "\<forall>q\<in>set (concat ps). key_of s q = pool \<longrightarrow> q = mp"
    and "ht s (pool_chunks s mp) cs" and "concat cs = [a]" and "clo_verbosity env \<le> 1"
    and "data_of s a < addr" and "addr < data_of s a + size_of s a"
    and "data_of s a + size_of s a \<le> addr + n" and "addr + n < 2 ^ 64"
  obtains s2 cs2 where
    "mempool_trim env pool addr n s = bind_res (trim_chunk (pool_chunks s mp) a addr n s2) (check_mempool_sane env mp)"
    and "ht s2 (pool_chunks s mp) cs2" and "concat cs2 = []" and "a \<noteq> 0" and "a < 2 ^ 64"
    and "data_of s2 a = data_of s a" and "mempool s2 = mempool s"
proof -
  let ?t = "pool_chunks s mp" and ?d = "data_of s a"
  define s0 where "s0 = s\<lparr>ticks := ticks s + 1\<rparr>"
  have f0: "nodes s0 = nodes s" "tables s0 = tables s" "chunk s0 = chunk s" "mempool s0 = mempool s"
    "mempool_list s0 = mempool_list s" by (simp_all add: s0_def)
  have h0: "ht s0 t ds = ht s t ds" for t ds by (rule ht_cong) (simp_all add: f0)
  have look: "HT_lookup (mempool_list s) pool s0 = Inr mp" and mp: "mp \<noteq> 0"
    using HT_lookup_spec [of s0 "mempool_list s" ps pool] assms(1-4) ht_parts(9) [OF assms(1)]
    unfolding h0 f0 by auto
  have "ht s0 (pool_chunks s0 mp) cs" using assms(5) h0 f0 by simp
  from check_mempool_sane_quiet [OF this assms(7)] obtain s1 msgs where
    s1: "check_mempool_sane env mp s0 = Inr s1" "with_messages s0 msgs s1" by blast
  note f1 = with_messages_fields [OF s1(2), unfolded f0 h0]
  have h1: "ht s1 ?t cs" using assms(5) f1(6) by simp
  have arr: "HT_to_array ?t s1 = Inr (Some [a], 1)" using HT_to_array_spec [OF h1] assms(6) by simp
  from HT_remove_spec [OF h1, of ?d] obtain r s2 cs2 where
    r: "HT_remove ?t ?d s1 = Inr (r, s2)" "ht s2 ?t cs2" "only_links ?t {a} s1 s2"
      "r = a" "mset (concat cs) = add_mset r (mset (concat cs2))"
    unfolding assms(6) using f1(1) by auto
  have a: "a \<noteq> 0" "a < 2 ^ 64" using ht_parts(5,9) [OF h1] assms(6) by (metis list.set_intros(1))+
  have e2: "concat cs2 = []" using mset_add_facts(1) [OF r(5)] assms(6) by simp
  note M = only_links_more [OF r(3)]
  have k2: "data_of s2 a = ?d" using r(3) f1(1) by (simp add: only_links_def)
  have "size_of s1 a = size_of s a" "pool_chunks s1 mp = ?t" using f1(3,4) by simp_all
  then have loop: "trim_loop env tid mp addr n [a] s1 =
      bind_res (trim_chunk ?t a addr n s2) (trim_loop env tid mp addr n [])" for tid
    using trim_loop_straddling [of s1 mp a s2 addr n env tid] r(1,4) a(1) f1(1) M(3) assms(8-11) by simp
  have run: "mempool_trim env pool addr n s = bind_res (trim_chunk ?t a addr n s2) (check_mempool_sane env mp)"
    unfolding mempool_trim_def ask_def Let_def prod.case s0_def [symmetric] f0(5) look
    using mp s1(1) arr loop f1(4) by (cases "trim_chunk ?t a addr n s2") simp_all
  show ?thesis by (rule that [OF run r(2) e2 a k2]) (use M(3) f1(4) in simp)
qed

text \<open>
  C21. Trimming a pool to an extent that begins inside its only chunk sets the size of the chunk
  from the length of the extent and not from its own: afterwards the chunk starts with the extent
  and has \<open>data + n - addr\<close> bytes, where the part of it in the extent has \<open>data + size - addr\<close>;
  when the extent is no longer than what is cut off, an assertion fails.
\<close>

theorem mempool_trim_wrong_size:
  assumes "ht s (mempool_list s) ps" and "mp \<in> set (concat ps)" and "key_of s mp = pool"
    and "\<forall>q\<in>set (concat ps). key_of s q = pool \<longrightarrow> q = mp"
    and "ht s (pool_chunks s mp) cs" and "concat cs = [a]" and "clo_verbosity env \<le> 1"
    and "data_of s a < addr" and "addr < data_of s a + size_of s a"
    and "data_of s a + size_of s a \<le> addr + n" and "addr + n < 2 ^ 64"
  shows "if data_of s a + n \<le> addr then mempool_trim env pool addr n s = Inl Abort
    else \<exists>s'. mempool_trim env pool addr n s = Inr s' \<and> data_of s' a = addr
      \<and> size_of s' a = u32 (data_of s a + n - addr)"
proof -
  let ?t = "pool_chunks s mp" and ?d = "data_of s a"
  from mempool_trim_one_chunk [OF assms] obtain s2 cs2 where
    run: "mempool_trim env pool addr n s = bind_res (trim_chunk ?t a addr n s2) (check_mempool_sane env mp)"
    and r: "ht s2 ?t cs2" "concat cs2 = []" "a \<noteq> 0" "a < 2 ^ 64" "data_of s2 a = ?d" "mempool s2 = mempool s" .
  have h2: "ht s2 ?t cs2" "a \<noteq> 0" "a < 2 ^ 64" "a \<notin> set (concat cs2)" "length (concat cs2) + 1 < 2 ^ 32"
    using r(1,3,4) by (simp_all only: r(2)) simp_all
  show ?thesis
  proof (cases "?d + n \<le> addr")
    case True
    then show ?thesis
      using trim_chunk_straddling(1) [OF h2, of addr n] assms(8,11) r(5) run by simp
  next
    case False
    then obtain s3 cs3 where t: "trim_chunk ?t a addr n s2 = Inr s3" "ht s3 ?t cs3" "data_of s3 a = addr"
      "size_of s3 a = u32 (?d + n - addr)" "mempool s3 = mempool s2"
      using trim_chunk_straddling(2) [OF h2, of addr n] assms(8,11) r(5) by auto
    have "ht s3 (pool_chunks s3 mp) cs3" using t(2,5) r(6) by simp
    from check_mempool_sane_quiet [OF this assms(7)] obtain s' msgs' where
      s': "check_mempool_sane env mp s3 = Inr s'" "with_messages s3 msgs' s'" by blast
    have "data_of s' a = addr" "size_of s' a = u32 (?d + n - addr)"
      using with_messages_fields(1,3) [OF s'(2)] t(3,4) by simp_all
    with run t(1) s'(1) False show ?thesis by simp
  qed
qed

text \<open>A chunk of 10 bytes at 100, trimmed to the 100 bytes from 105 on, has 95 bytes afterwards.\<close>

theorem mempool_trim_wrong_size_witness:
  "\<exists>s s'. data_of s 24 = 100 \<and> size_of s 24 = 10 \<and> mempool_trim demo_env 9000 105 100 s = Inr s'
     \<and> data_of s' 24 = 105 \<and> size_of s' 24 = 95"
proof -
  define s where "s = demo_mc\<lparr>nodes := (nodes demo_mc)(24 := \<lparr>n_next = 0, n_key = 100\<rparr>, 64 := \<lparr>n_next = 0, n_key = 9000\<rparr>),
    tables := (tables demo_mc)
      (6000 := \<lparr>n_chains = 769, n_elements = 1, iterNode = 0, iterChain = 0,
         chains = (replicate 769 0)[541 := 64], iterOK = False, name = 1\<rparr>,
       7000 := \<lparr>n_chains = 769, n_elements = 1, iterNode = 0, iterChain = 0,
         chains = (replicate 769 0)[100 := 24], iterOK = False, name = 1\<rparr>),
    chunk := (\<lambda>p. \<lparr>szB = 10, allockind = MC_AllocCustom, where_ec = 7\<rparr>),
    mempool := (\<lambda>p. \<lparr>rzB = 0, is_zeroed = False, mp_chunks = 7000\<rparr>)\<rparr>"
  have f: "chains (tables s 6000) = (replicate 769 0)[541 := 64]" "n_chains (tables s 6000) = 769"
    "n_elements (tables s 6000) = length [64::nat]" "chain (nnext s) 64 [64] 0" "key_of s 64 = 9000"
    "chains (tables s 7000) = (replicate 769 0)[100 := 24]" "n_chains (tables s 7000) = 769"
    "n_elements (tables s 7000) = length [24::nat]" "chain (nnext s) 24 [24] 0" "data_of s 24 = 100"
    "size_of s p = 10" "pool_chunks s p = 7000" "mempool_list s = 6000" for p
    by (simp_all add: s_def demo_mc_def)
  have P: "ht s 6000 ((replicate 769 [])[541 := [64]])" "concat ((replicate 769 [])[541 := [64]]) = [64::nat]"
    by (rule ht_one_chain [OF f(2,1) _ f(4,3)]; simp add: f(5))+
  have C: "ht s 7000 ((replicate 769 [])[100 := [24]])" "concat ((replicate 769 [])[100 := [24]]) = [24::nat]"
    by (rule ht_one_chain [OF f(7,6) _ f(9,8)]; simp add: f(10))+
  have "\<exists>s'. mempool_trim demo_env 9000 105 100 s = Inr s' \<and> data_of s' 24 = 105 \<and> size_of s' 24 = u32 95"
    using mempool_trim_wrong_size [of s "(replicate 769 [])[541 := [64]]" 64 9000
        "(replicate 769 [])[100 := [24]]" 24 demo_env 105 100]
    unfolding f(13) f(12) P(2) C(2) using P(1) C(1) by (simp add: f(5,10,11) demo_env_def)
  then show ?thesis using f(10,11) by (auto simp: u32_def)
qed

end
