(* ===== verification/Vg_Array.thy ===== *)
theory Vg_Array
  imports Vg_Sorted
begin

text \<open>
  The growing arrays of Valgrind's core (\<open>src/valgrind/coregrind/m_xarray.c\<close>). An element is a
  value; the block of memory behind an array is a list of cells, \<open>None\<close> where nothing has been
  written since its allocation, and the null pointer is the absence of a block. The allocation
  function does not fail, as the source asks for; indices are signed words and written as integers.
  The address of the block of an array, which decides how the sort swaps elements, is an argument.
\<close>

section \<open>Operations\<close>

record 'e xarray =
  xa_cmp :: "('e \<Rightarrow> 'e \<Rightarrow> int) option"
  elemSzB :: int
  xa_arr :: "'e option list option"
  usedsizeE :: int
  totsizeE :: int
  xa_sorted :: bool

definition newXA :: "int \<Rightarrow> 'e xarray res" where
  "newXA sz =
     (if sz > 0
      then Inr \<lparr>xa_cmp = None, elemSzB = sz, xa_arr = None, usedsizeE = 0, totsizeE = 0, xa_sorted = False\<rparr>
      else Inl Abort)"

definition cloneXA :: "'e xarray \<Rightarrow> 'e xarray res" where
  "cloneXA xa =
     (if \<not> elemSzB xa \<ge> 1 then Inl Abort
      else case xa_arr xa of
        None \<Rightarrow> Inr xa
      | Some cells \<Rightarrow> Inr (xa\<lparr>totsizeE := usedsizeE xa, xa_arr := Some (take (nat (usedsizeE xa)) cells)\<rparr>))"

definition setCmpFnXA :: "('e \<Rightarrow> 'e \<Rightarrow> int) \<Rightarrow> 'e xarray \<Rightarrow> 'e xarray" where
  "setCmpFnXA compar xa = xa\<lparr>xa_cmp := Some compar, xa_sorted := False\<rparr>"

text \<open>The element that the pointer \<open>indexXA\<close> returns points to.\<close>

definition indexXA :: "'e xarray \<Rightarrow> int \<Rightarrow> 'e res" where
  "indexXA xa n =
     (if \<not> n \<ge> 0 \<or> \<not> n < usedsizeE xa then Inl Abort
      else case xa_arr xa of
        None \<Rightarrow> Inl Null_deref
      | Some cells \<Rightarrow>
          if n < int (length cells)
          then case cells ! nat n of None \<Rightarrow> Inl Out_of_bounds | Some x \<Rightarrow> Inr x
          else Inl Out_of_bounds)"

definition ensureSpaceXA :: "'e xarray \<Rightarrow> 'e xarray res" where
  "ensureSpaceXA xa =
     (if usedsizeE xa = totsizeE xa then
        if totsizeE xa = 0 \<and> xa_arr xa \<noteq> None then Inl Abort
        else if totsizeE xa > 0 \<and> xa_arr xa = None then Inl Abort
        else
          let newsz = (if totsizeE xa = 0
                       then if elemSzB xa = 1 then 8 else if elemSzB xa = 2 then 4 else 2
                       else 2 + (3 * totsizeE xa) div 2);
              old = (case xa_arr xa of None \<Rightarrow> [] | Some cells \<Rightarrow> take (nat (usedsizeE xa)) cells)
          in Inr (xa\<lparr>xa_arr := Some (old @ replicate (nat newsz - length old) None), totsizeE := newsz\<rparr>)
      else Inr xa)"

definition put_cell :: "'e \<Rightarrow> 'e xarray \<Rightarrow> 'e xarray res" where
  "put_cell x xa =
     (case xa_arr xa of
        None \<Rightarrow> Inl Abort
      | Some cells \<Rightarrow>
          if usedsizeE xa < int (length cells)
          then Inr (xa\<lparr>xa_arr := Some (cells[nat (usedsizeE xa) := Some x]), usedsizeE := usedsizeE xa + 1\<rparr>)
          else Inl Out_of_bounds)"

definition sizes_sane :: "'e xarray \<Rightarrow> bool" where
  "sizes_sane xa \<longleftrightarrow> totsizeE xa \<ge> 0 \<and> usedsizeE xa \<ge> 0 \<and> usedsizeE xa \<le> totsizeE xa"

definition addToXA :: "'e \<Rightarrow> 'e xarray \<Rightarrow> (int \<times> 'e xarray) res" where
  "addToXA x xa =
     (if \<not> sizes_sane xa then Inl Abort
      else
        bind_res (ensureSpaceXA xa) (\<lambda>xa1.
        if \<not> usedsizeE xa1 < totsizeE xa1 then Inl Abort
        else bind_res (put_cell x xa1) (\<lambda>xa2. Inr (usedsizeE xa2 - 1, xa2\<lparr>xa_sorted := False\<rparr>))))"

fun add_bytes :: "'e list \<Rightarrow> 'e xarray \<Rightarrow> 'e xarray res" where
  "add_bytes [] xa = Inr xa"
| "add_bytes (x # xs) xa =
     bind_res (ensureSpaceXA xa) (\<lambda>xa1.
     if \<not> usedsizeE xa1 < totsizeE xa1 then Inl Abort
     else bind_res (put_cell x xa1) (add_bytes xs))"

definition addBytesToXA :: "'e list \<Rightarrow> 'e xarray \<Rightarrow> (int \<times> 'e xarray) res" where
  "addBytesToXA bytes xa =
     (if elemSzB xa \<noteq> 1 \<or> \<not> sizes_sane xa then Inl Abort
      else bind_res (add_bytes bytes xa) (\<lambda>xa1. Inr (usedsizeE xa, xa1\<lparr>xa_sorted := False\<rparr>)))"

text \<open>The cells that the sort gets; it is called with the used part of the block.\<close>

definition used_cells :: "'e xarray \<Rightarrow> 'e list res" where
  "used_cells xa =
     (case xa_arr xa of
        None \<Rightarrow> if usedsizeE xa = 0 then Inr [] else Inl Null_deref
      | Some cells \<Rightarrow>
          let u = take (nat (usedsizeE xa)) cells in
          if int (length u) = usedsizeE xa \<and> None \<notin> set u then Inr (map the u) else Inl Out_of_bounds)"

text \<open>The block is at the address \<open>base\<close>.\<close>

definition sortXA :: "nat \<Rightarrow> 'e xarray \<Rightarrow> 'e xarray res" where
  "sortXA base xa =
     (case xa_cmp xa of
        None \<Rightarrow> Inl Abort
      | Some cmp \<Rightarrow>
          bind_res (used_cells xa) (\<lambda>xs.
          bind_res (ssort base (nat (elemSzB xa)) cmp xs) (\<lambda>ys.
          Inr (xa\<lparr>xa_arr := map_option (\<lambda>cells. map Some ys @ drop (length ys) cells) (xa_arr xa),
                   xa_sorted := True\<rparr>))))"

function expand_first :: "('e \<Rightarrow> 'e \<Rightarrow> int) \<Rightarrow> 'e \<Rightarrow> 'e xarray \<Rightarrow> int \<Rightarrow> int res" where
  "expand_first cmp key xa first =
     (if first > 0 then
        bind_res (indexXA xa (first - 1)) (\<lambda>x.
        if cmp key x = 0 then expand_first cmp key xa (first - 1) else Inr first)
      else Inr first)"
  by pat_completeness auto
termination by (relation "measure (\<lambda>(cmp, key, xa, first). nat first)") auto

function expand_last :: "('e \<Rightarrow> 'e \<Rightarrow> int) \<Rightarrow> 'e \<Rightarrow> 'e xarray \<Rightarrow> int \<Rightarrow> int res" where
  "expand_last cmp key xa lst =
     (if lst < usedsizeE xa - 1 then
        bind_res (indexXA xa (lst + 1)) (\<lambda>x.
        if cmp key x = 0 then expand_last cmp key xa (lst + 1) else Inr lst)
      else Inr lst)"
  by pat_completeness auto
termination by (relation "measure (\<lambda>(cmp, key, xa, lst). nat (usedsizeE xa - 1 - lst))") auto

function search_loop :: "('e \<Rightarrow> 'e \<Rightarrow> int) \<Rightarrow> 'e \<Rightarrow> 'e xarray \<Rightarrow> int \<Rightarrow> int \<Rightarrow> (int \<times> int) option res" where
  "search_loop cmp key xa lo hi =
     (if lo > hi then Inr None
      else
        let mid = (lo + hi) div 2 in
        bind_res (indexXA xa mid) (\<lambda>midv.
        let cres = cmp key midv in
        if cres < 0 then search_loop cmp key xa lo (mid - 1)
        else if cres > 0 then search_loop cmp key xa (mid + 1) hi
        else
          bind_res (indexXA xa lo) (\<lambda>x. bind_res (indexXA xa hi) (\<lambda>y.
          if \<not> cmp key x \<ge> 0 \<or> \<not> cmp key y \<le> 0 then Inl Abort
          else
            bind_res (expand_first cmp key xa mid) (\<lambda>first.
            bind_res (expand_last cmp key xa mid) (\<lambda>lst. Inr (Some (first, lst))))))))"
  by pat_completeness auto
termination by (relation "measure (\<lambda>(cmp, key, xa, lo, hi). nat (hi - lo + 1))") auto

declare expand_first.simps [simp del] expand_last.simps [simp del] search_loop.simps [simp del]

text \<open>The result is the first and the last index of the key, when it is found.\<close>

definition lookupXA_UNSAFE :: "'e xarray \<Rightarrow> 'e \<Rightarrow> ('e \<Rightarrow> 'e \<Rightarrow> int) \<Rightarrow> (int \<times> int) option res" where
  "lookupXA_UNSAFE xa key cmp = search_loop cmp key xa 0 (usedsizeE xa - 1)"

definition lookupXA :: "'e xarray \<Rightarrow> 'e \<Rightarrow> (int \<times> int) option res" where
  "lookupXA xa key =
     (case xa_cmp xa of
        None \<Rightarrow> Inl Abort
      | Some cmp \<Rightarrow> if xa_sorted xa then lookupXA_UNSAFE xa key cmp else Inl Abort)"

definition sizeXA :: "'e xarray \<Rightarrow> int" where
  "sizeXA xa = usedsizeE xa"

definition dropTailXA :: "int \<Rightarrow> 'e xarray \<Rightarrow> 'e xarray res" where
  "dropTailXA n xa =
     (if \<not> n \<ge> 0 \<or> \<not> n \<le> usedsizeE xa then Inl Abort else Inr (xa\<lparr>usedsizeE := usedsizeE xa - n\<rparr>))"

text \<open>
  Moving \<open>k\<close> cells down from \<open>src\<close> to \<open>dst\<close> within the block. \<open>VG_(memcpy)\<close> and \<open>VG_(memmove)\<close>
  both copy upwards from the first byte here, so the ranges may overlap.
\<close>

definition move_cells :: "nat \<Rightarrow> nat \<Rightarrow> nat \<Rightarrow> 'e option list \<Rightarrow> 'e option list res" where
  "move_cells dst src k cells =
     (if src + k \<le> length cells \<and> dst \<le> src
      then Inr (take dst cells @ take k (drop src cells) @ drop (dst + k) cells) else Inl Out_of_bounds)"

definition shift_cells :: "int \<Rightarrow> int \<Rightarrow> int \<Rightarrow> 'e xarray \<Rightarrow> 'e xarray res" where
  "shift_cells dst src k xa =
     (case xa_arr xa of
        None \<Rightarrow> Inl Null_deref
      | Some cells \<Rightarrow> bind_res (move_cells (nat dst) (nat src) (nat k) cells) (\<lambda>cs. Inr (xa\<lparr>xa_arr := Some cs\<rparr>)))"

definition dropHeadXA :: "int \<Rightarrow> 'e xarray \<Rightarrow> 'e xarray res" where
  "dropHeadXA n xa =
     (if \<not> n \<ge> 0 \<or> \<not> n \<le> usedsizeE xa then Inl Abort
      else if n = 0 then Inr xa
      else if n = usedsizeE xa then Inr (xa\<lparr>usedsizeE := 0\<rparr>)
      else bind_res (shift_cells 0 n (usedsizeE xa - n) xa) (\<lambda>xa1. Inr (xa1\<lparr>usedsizeE := usedsizeE xa - n\<rparr>)))"

definition removeIndexXA :: "int \<Rightarrow> 'e xarray \<Rightarrow> 'e xarray res" where
  "removeIndexXA n xa =
     (if \<not> n \<ge> 0 \<or> \<not> n < usedsizeE xa then Inl Abort
      else bind_res (if n + 1 < usedsizeE xa then shift_cells n (n + 1) (usedsizeE xa - n - 1) xa else Inr xa)
             (\<lambda>xa1. Inr (xa1\<lparr>usedsizeE := usedsizeE xa - 1\<rparr>)))"

end
