(* ===== verification/Vg_Arrayed.thy ===== *)
theory Vg_Arrayed
  imports Vg_Array
begin

text \<open>
  The growing arrays implement lists: an abstraction relation that the operations keep, and the
  binary search after a sort.
\<close>

section \<open>Arrays as lists\<close>

definition xa_holds :: "'e xarray \<Rightarrow> 'e list \<Rightarrow> bool" where
  "xa_holds xa xs \<longleftrightarrow>
     usedsizeE xa = len xs \<and> usedsizeE xa \<le> totsizeE xa \<and> 0 < elemSzB xa
     \<and> (case xa_arr xa of
          None \<Rightarrow> totsizeE xa = 0
        | Some cells \<Rightarrow> 0 < totsizeE xa \<and> len cells = totsizeE xa \<and> take (length xs) cells = map Some xs)"

lemma holds_used: "xa_holds xa xs \<Longrightarrow> usedsizeE xa = len xs"
  by (simp add: xa_holds_def)

lemma holds_cells:
  assumes "xa_holds xa xs" and "xs \<noteq> []"
  obtains cells where "xa_arr xa = Some cells" "len cells = totsizeE xa" "take (length xs) cells = map Some xs"
    "length xs \<le> length cells"
proof (cases "xa_arr xa")
  case None
  with assms show ?thesis by (auto simp: xa_holds_def)
next
  case (Some cells)
  with assms have "len cells = totsizeE xa" "take (length xs) cells = map Some xs" "len xs \<le> totsizeE xa"
    by (simp_all add: xa_holds_def)
  with Some that show ?thesis by simp
qed

lemma holds_flag [simp]: "xa_holds (xa\<lparr>xa_sorted := b\<rparr>) xs = xa_holds xa xs"
  by (cases "xa_arr xa") (simp_all add: xa_holds_def)

lemma newXA_holds: "0 < sz \<Longrightarrow> \<exists>xa. newXA sz = Inr xa \<and> xa_holds xa [] \<and> elemSzB xa = sz"
  by (simp add: newXA_def xa_holds_def)

lemma indexXA_holds:
  assumes "xa_holds xa xs" and "0 \<le> n" and "n < len xs"
  shows "indexXA xa n = Inr (xs ! nat n)"
proof -
  have "xs \<noteq> []" using assms(2,3) by auto
  with assms(1) obtain cells where c: "xa_arr xa = Some cells" "take (length xs) cells = map Some xs"
    "length xs \<le> length cells" by (rule holds_cells)
  have "nat n < length xs" using assms(2,3) by linarith
  then have "cells ! nat n = Some (xs ! nat n)"
    using c(2) by (metis nth_map nth_take)
  then show ?thesis using assms c(1,3) holds_used [OF assms(1)] by (simp add: indexXA_def)
qed

lemma sizeXA_holds: "xa_holds xa xs \<Longrightarrow> sizeXA xa = len xs"
  by (simp add: sizeXA_def holds_used)

lemma ensureSpaceXA_holds:
  assumes h: "xa_holds xa xs"
  shows "\<exists>xa'. ensureSpaceXA xa = Inr xa' \<and> xa_holds xa' xs \<and> usedsizeE xa' < totsizeE xa'
    \<and> elemSzB xa' = elemSzB xa \<and> xa_cmp xa' = xa_cmp xa"
proof (cases "usedsizeE xa = totsizeE xa")
  case False
  with h show ?thesis by (auto simp: ensureSpaceXA_def xa_holds_def)
next
  case True
  show ?thesis
  proof (cases "xa_arr xa")
    case None
    with h have "totsizeE xa = 0" "xs = []" using True by (auto simp: xa_holds_def)
    with None True h show ?thesis by (simp add: ensureSpaceXA_def xa_holds_def Let_def)
  next
    case (Some cells)
    then have c: "0 < totsizeE xa" "len cells = totsizeE xa" "take (length xs) cells = map Some xs" "usedsizeE xa = len xs"
      using h by (simp_all add: xa_holds_def)
    define newsz where "newsz = 2 + (3 * totsizeE xa) div 2"
    have n: "totsizeE xa < newsz" using c(1) by (simp add: newsz_def)
    let ?xa = "xa\<lparr>xa_arr := Some (map Some xs @ replicate (nat newsz - length xs) None), totsizeE := newsz\<rparr>"
    have "ensureSpaceXA xa = Inr ?xa"
      using True Some c by (simp add: ensureSpaceXA_def Let_def newsz_def)
    moreover have "xa_holds ?xa xs" using n c h True by (simp add: xa_holds_def)
    ultimately show ?thesis using n True by simp
  qed
qed

lemma put_cell_holds:
  assumes h: "xa_holds xa xs" and room: "usedsizeE xa < totsizeE xa"
  shows "\<exists>xa'. put_cell x xa = Inr xa' \<and> xa_holds xa' (xs @ [x]) \<and> elemSzB xa' = elemSzB xa \<and> xa_cmp xa' = xa_cmp xa"
proof -
  obtain cells where c: "xa_arr xa = Some cells" "len cells = totsizeE xa" "take (length xs) cells = map Some xs"
    "usedsizeE xa = len xs" "0 < totsizeE xa"
    using h room by (cases "xa_arr xa") (auto simp: xa_holds_def)
  then have l: "length xs < length cells" using room by linarith
  have "take (Suc (length xs)) (cells[length xs := Some x]) = map Some (xs @ [x])"
    using l c(3) by (simp add: take_Suc_conv_app_nth)
  with c l h room show ?thesis by (simp add: put_cell_def xa_holds_def)
qed

lemma addToXA_holds:
  assumes h: "xa_holds xa xs"
  shows "\<exists>xa'. addToXA x xa = Inr (len xs, xa') \<and> xa_holds xa' (xs @ [x]) \<and> elemSzB xa' = elemSzB xa
    \<and> xa_cmp xa' = xa_cmp xa \<and> \<not> xa_sorted xa'"
proof -
  from ensureSpaceXA_holds [OF h] obtain xa1 where
    e: "ensureSpaceXA xa = Inr xa1" "xa_holds xa1 xs" "usedsizeE xa1 < totsizeE xa1" "elemSzB xa1 = elemSzB xa"
      "xa_cmp xa1 = xa_cmp xa" by blast
  from put_cell_holds [OF e(2,3), of x] obtain xa2 where
    p: "put_cell x xa1 = Inr xa2" "xa_holds xa2 (xs @ [x])" "elemSzB xa2 = elemSzB xa1" "xa_cmp xa2 = xa_cmp xa1" by blast
  moreover have "sizes_sane xa" using h by (simp add: sizes_sane_def xa_holds_def)
  ultimately show ?thesis using e p holds_used [OF p(2)] by (simp add: addToXA_def)
qed

lemma add_bytes_holds:
  "xa_holds xa xs \<Longrightarrow> \<exists>xa'. add_bytes bs xa = Inr xa' \<and> xa_holds xa' (xs @ bs)"
proof (induction bs arbitrary: xa xs)
  case (Cons b bs)
  from ensureSpaceXA_holds [OF Cons.prems] obtain xa1 where
    e: "ensureSpaceXA xa = Inr xa1" "xa_holds xa1 xs" "usedsizeE xa1 < totsizeE xa1" by blast
  from put_cell_holds [OF e(2,3), of b] obtain xa2 where
    p: "put_cell b xa1 = Inr xa2" "xa_holds xa2 (xs @ [b])" by blast
  from Cons.IH [OF p(2)] e(1,3) p(1) show ?case by simp
qed simp

lemma addBytesToXA_holds:
  assumes "xa_holds xa xs" and "elemSzB xa = 1"
  shows "\<exists>xa'. addBytesToXA bs xa = Inr (len xs, xa') \<and> xa_holds xa' (xs @ bs)"
proof -
  from add_bytes_holds [OF assms(1), of bs] obtain xa1 where
    a: "add_bytes bs xa = Inr xa1" "xa_holds xa1 (xs @ bs)" by blast
  moreover have "sizes_sane xa" using assms(1) by (simp add: sizes_sane_def xa_holds_def)
  ultimately show ?thesis using assms holds_used [OF assms(1)] by (simp add: addBytesToXA_def)
qed

lemma dropTailXA_holds:
  assumes "xa_holds xa xs" and "n \<le> length xs"
  shows "\<exists>xa'. dropTailXA (int n) xa = Inr xa' \<and> xa_holds xa' (take (length xs - n) xs)"
proof -
  have "take (length xs - n) cells = map Some (take (length xs - n) xs)" if "take (length xs) cells = map Some xs" for cells
    using arg_cong [OF that, of "take (length xs - n)"] by (simp add: take_map min_def)
  with assms show ?thesis by (auto simp: dropTailXA_def xa_holds_def min_def split: option.splits)
qed

lemma shift_cells_holds:
  assumes h: "xa_holds xa xs" and k: "dst \<le> src" "src + k = length xs" "xs \<noteq> []"
  shows "\<exists>xa'. shift_cells (int dst) (int src) (int k) xa = Inr xa'
    \<and> xa_holds (xa'\<lparr>usedsizeE := int (dst + k)\<rparr>) (take dst xs @ drop src xs)"
proof -
  from h k(3) obtain cells where c: "xa_arr xa = Some cells" "len cells = totsizeE xa"
    "take (length xs) cells = map Some xs" "length xs \<le> length cells" by (rule holds_cells)
  define cs where "cs = take dst cells @ take k (drop src cells) @ drop (dst + k) cells"
  have l: "length cs = length cells" using c(4) k(1,2) by (simp add: cs_def)
  have "take dst cells = map Some (take dst xs)"
    using arg_cong [OF c(3), of "take dst"] k(1,2) by (simp add: take_map min_def)
  moreover have "take k (drop src cells) = map Some (drop src xs)"
    using arg_cong [OF c(3), of "drop src"] by (simp add: drop_map drop_take k(2) [symmetric])
  ultimately have "take (dst + k) cs = map Some (take dst xs @ drop src xs)"
    using k(1,2) by (simp add: cs_def)
  moreover have "dst + length xs - src = dst + k" using k(2) by simp
  moreover have "shift_cells (int dst) (int src) (int k) xa = Inr (xa\<lparr>xa_arr := Some cs\<rparr>)"
    using c(1,4) k(1,2) by (simp add: shift_cells_def move_cells_def cs_def)
  ultimately show ?thesis
    using h c(1,2,4) l k(1,2) by (simp add: xa_holds_def)
qed

lemma dropHeadXA_holds:
  assumes h: "xa_holds xa xs" and n: "n \<le> length xs"
  shows "\<exists>xa'. dropHeadXA (int n) xa = Inr xa' \<and> xa_holds xa' (drop n xs)"
proof -
  consider "n = 0" | "n = length xs" | "0 < n" "n < length xs" using n by linarith
  then show ?thesis
  proof cases
    case 1
    with h show ?thesis by (simp add: dropHeadXA_def holds_used)
  next
    case 2
    with h show ?thesis by (auto simp: dropHeadXA_def xa_holds_def split: option.splits)
  next
    case 3
    then have "xs \<noteq> []" by auto
    from shift_cells_holds [OF h _ _ this, of 0 n "length xs - n"] 3 obtain xa' where
      "shift_cells 0 (int n) (len xs - int n) xa = Inr xa'" "xa_holds (xa'\<lparr>usedsizeE := len xs - int n\<rparr>) (drop n xs)"
      by (auto simp: of_nat_diff)
    with 3 h show ?thesis by (simp add: dropHeadXA_def holds_used)
  qed
qed

lemma removeIndexXA_holds:
  assumes h: "xa_holds xa xs" and n: "n < length xs"
  shows "\<exists>xa'. removeIndexXA (int n) xa = Inr xa' \<and> xa_holds xa' (take n xs @ drop (n + 1) xs)"
proof (cases "n + 1 < length xs")
  case True
  then have "xs \<noteq> []" by auto
  have e: "int (n + 1) = int n + 1" "int (length xs - n - 1) = len xs - int n - 1" "int (n + (length xs - n - 1)) = len xs - 1"
    using True by simp_all
  have k: "n \<le> n + 1" "n + 1 + (length xs - n - 1) = length xs" using True by simp_all
  obtain xa' where "shift_cells (int n) (int n + 1) (len xs - int n - 1) xa = Inr xa'"
    "xa_holds (xa'\<lparr>usedsizeE := len xs - 1\<rparr>) (take n xs @ drop (n + 1) xs)"
    using shift_cells_holds [OF h k \<open>xs \<noteq> []\<close>] unfolding e by blast
  with True h n show ?thesis by (simp add: removeIndexXA_def holds_used)
next
  case False
  then have "length xs - 1 = n" using n by simp
  with dropTailXA_holds [OF h, of 1] n False show ?thesis
    using holds_used [OF h] by (auto simp: removeIndexXA_def dropTailXA_def split: if_splits)
qed

section \<open>Search\<close>

lemma sortXA_holds:
  assumes h: "xa_holds xa xs" and c: "xa_cmp xa = Some cmp" "cmp_by cmp f"
  shows "\<exists>xa' ys. sortXA base xa = Inr xa' \<and> xa_holds xa' ys \<and> mset ys = mset xs \<and> sorted (map f ys)
    \<and> xa_sorted xa' \<and> xa_cmp xa' = Some cmp"
proof -
  have "sorts f [] xs [] (ssort base (nat (elemSzB xa)) cmp xs)"
    using bm_qsort_spec [OF c(2) lessI, of "[]" xs "[]"] by (simp add: ssort_def)
  then obtain ys where ys: "ssort base (nat (elemSzB xa)) cmp xs = Inr ys" "mset ys = mset xs" "sorted (map f ys)" by (auto simp: sorts_def)
  have l: "length ys = length xs" by (rule mset_eq_length [OF ys(2)])
  show ?thesis
  proof (cases "xa_arr xa")
    case None
    then have "xs = []" using h by (auto simp: xa_holds_def)
    with None h c ys show ?thesis
      by (intro exI [of _ "xa\<lparr>xa_sorted := True\<rparr>"] exI [of _ "[]"]) (simp add: sortXA_def used_cells_def holds_used)
  next
    case (Some cells)
    then have d: "take (length xs) cells = map Some xs" "len cells = totsizeE xa" "usedsizeE xa = len xs"
      "len xs \<le> totsizeE xa" using h by (simp_all add: xa_holds_def)
    have "used_cells xa = Inr xs"
      using Some d by (auto simp: used_cells_def Let_def comp_def)
    then have "sortXA base xa = Inr (xa\<lparr>xa_arr := Some (map Some ys @ drop (length ys) cells), xa_sorted := True\<rparr>)"
      using Some c(1) ys(1) by (simp add: sortXA_def)
    moreover have "xa_holds (xa\<lparr>xa_arr := Some (map Some ys @ drop (length ys) cells), xa_sorted := True\<rparr>) ys"
      using h Some d l by (simp add: xa_holds_def)
    ultimately show ?thesis using ys(2,3) c(1) by fastforce
  qed
qed

text \<open>The indices of the elements with the key.\<close>

definition key_range :: "('e \<Rightarrow> nat) \<Rightarrow> 'e list \<Rightarrow> nat \<Rightarrow> int \<Rightarrow> int \<Rightarrow> bool" where
  "key_range f xs k i j \<longleftrightarrow>
     0 \<le> i \<and> i \<le> j \<and> j < len xs \<and> (\<forall>n. 0 \<le> n \<and> n < len xs \<longrightarrow> (f (xs ! nat n) = k \<longleftrightarrow> i \<le> n \<and> n \<le> j))"

lemma sorted_at: "sorted (map f xs) \<Longrightarrow> 0 \<le> i \<Longrightarrow> i \<le> j \<Longrightarrow> j < len xs \<Longrightarrow> f (xs ! nat i) \<le> f (xs ! nat j)"
  using sorted_nth_mono [of "map f xs" "nat i" "nat j"] by (simp add: nat_less_iff)

lemma expand_first_spec:
  assumes h: "xa_holds xa xs" and c: "cmp_by cmp f" and s: "sorted (map f xs)"
  shows "0 \<le> i \<Longrightarrow> i < len xs \<Longrightarrow> f (xs ! nat i) = f key \<Longrightarrow>
    \<exists>k. expand_first cmp key xa i = Inr k \<and> 0 \<le> k \<and> k \<le> i
      \<and> (\<forall>n. 0 \<le> n \<and> n \<le> i \<longrightarrow> (f (xs ! nat n) = f key \<longleftrightarrow> k \<le> n))"
proof (induction "nat i" arbitrary: i)
  case 0
  then show ?case by (subst expand_first.simps) (auto intro!: exI [of _ 0])
next
  case (Suc m)
  have i: "0 < i" "m = nat (i - 1)" "0 \<le> i - 1" "i - 1 < len xs" using Suc.hyps(2) Suc.prems by linarith+
  let ?x = "xs ! nat (i - 1)"
  have r: "indexXA xa (i - 1) = Inr ?x" by (rule indexXA_holds [OF h i(3,4)])
  show ?case
  proof (cases "f ?x = f key")
    case True
    from Suc.hyps(1) [OF i(2-4) True] obtain k where
      k: "expand_first cmp key xa (i - 1) = Inr k" "0 \<le> k" "k \<le> i - 1"
        "\<forall>n. 0 \<le> n \<and> n \<le> i - 1 \<longrightarrow> (f (xs ! nat n) = f key \<longleftrightarrow> k \<le> n)" by blast
    have "expand_first cmp key xa i = Inr k"
      using i(1) r k(1) True cmp_by_iffs(5) [OF c, of key ?x] by (subst expand_first.simps) simp
    moreover have "f (xs ! nat n) = f key \<longleftrightarrow> k \<le> n" if "0 \<le> n" "n \<le> i" for n
      using k(3,4) that Suc.prems(3) by (cases "n = i") auto
    ultimately show ?thesis using k(2,3) by (intro exI [of _ k]) simp
  next
    case False
    have "expand_first cmp key xa i = Inr i"
      using i(1) r False cmp_by_iffs(5) [OF c, of key ?x] by (subst expand_first.simps) auto
    moreover have "f (xs ! nat n) = f key \<longleftrightarrow> i \<le> n" if n: "0 \<le> n" "n \<le> i" for n
    proof (cases "n = i")
      case True
      then show ?thesis using Suc.prems(3) by simp
    next
      case ne: False
      then have "f (xs ! nat n) \<le> f ?x" using n i(4) by (intro sorted_at [OF s]) auto
      moreover have "f ?x \<le> f (xs ! nat i)" using i Suc.prems by (intro sorted_at [OF s]) auto
      ultimately show ?thesis using False Suc.prems(3) ne n(2) by simp
    qed
    ultimately show ?thesis using i(1) by (intro exI [of _ i] conjI) auto
  qed
qed

lemma expand_last_spec:
  assumes h: "xa_holds xa xs" and c: "cmp_by cmp f" and s: "sorted (map f xs)"
  shows "0 \<le> i \<Longrightarrow> i < len xs \<Longrightarrow> f (xs ! nat i) = f key \<Longrightarrow>
    \<exists>k. expand_last cmp key xa i = Inr k \<and> i \<le> k \<and> k < len xs
      \<and> (\<forall>n. i \<le> n \<and> n < len xs \<longrightarrow> (f (xs ! nat n) = f key \<longleftrightarrow> n \<le> k))"
proof (induction "nat (len xs - 1 - i)" arbitrary: i)
  case 0
  then have "i = len xs - 1" by simp
  moreover have "\<not> i < usedsizeE xa - 1" using 0 holds_used [OF h] by simp
  ultimately have "expand_last cmp key xa i = Inr i" by (subst expand_last.simps) simp
  moreover have "f (xs ! nat n) = f key \<longleftrightarrow> n \<le> i" if "i \<le> n" "n < len xs" for n
    using that 0 by (cases "n = i") auto
  ultimately show ?case using 0 by (intro exI [of _ i] conjI) auto
next
  case (Suc m)
  have i: "i < usedsizeE xa - 1" "m = nat (len xs - 1 - (i + 1))" "0 \<le> i + 1" "i + 1 < len xs"
    using Suc.hyps(2) Suc.prems holds_used [OF h] by linarith+
  let ?x = "xs ! nat (i + 1)"
  have r: "indexXA xa (i + 1) = Inr ?x" by (rule indexXA_holds [OF h i(3,4)])
  show ?case
  proof (cases "f ?x = f key")
    case True
    from Suc.hyps(1) [OF i(2-4) True] obtain k where
      k: "expand_last cmp key xa (i + 1) = Inr k" "i + 1 \<le> k" "k < len xs"
        "\<forall>n. i + 1 \<le> n \<and> n < len xs \<longrightarrow> (f (xs ! nat n) = f key \<longleftrightarrow> n \<le> k)" by blast
    have "expand_last cmp key xa i = Inr k"
      using i(1) r k(1) True cmp_by_iffs(5) [OF c, of key ?x] by (subst expand_last.simps) simp
    moreover have "f (xs ! nat n) = f key \<longleftrightarrow> n \<le> k" if "i \<le> n" "n < len xs" for n
      using k(2,4) that Suc.prems(3) by (cases "n = i") auto
    ultimately show ?thesis using k(2,3) by (intro exI [of _ k]) simp
  next
    case False
    have "expand_last cmp key xa i = Inr i"
      using i(1) r False cmp_by_iffs(5) [OF c, of key ?x] by (subst expand_last.simps) auto
    moreover have "f (xs ! nat n) = f key \<longleftrightarrow> n \<le> i" if n: "i \<le> n" "n < len xs" for n
    proof (cases "n = i")
      case True
      then show ?thesis using Suc.prems(3) by simp
    next
      case ne: False
      then have "f ?x \<le> f (xs ! nat n)" using n Suc.prems(1) by (intro sorted_at [OF s]) auto
      moreover have "f (xs ! nat i) \<le> f ?x" using i Suc.prems(1) by (intro sorted_at [OF s]) auto
      ultimately show ?thesis using False Suc.prems(3) ne n(1) by simp
    qed
    ultimately show ?thesis using Suc.prems(2) by (intro exI [of _ i] conjI) auto
  qed
qed

lemma search_loop_spec:
  assumes h: "xa_holds xa xs" and c: "cmp_by cmp f" and s: "sorted (map f xs)"
  shows "0 \<le> lo \<Longrightarrow> hi < len xs \<Longrightarrow>
    (\<And>n. 0 \<le> n \<Longrightarrow> n < lo \<Longrightarrow> f (xs ! nat n) < f key) \<Longrightarrow>
    (\<And>n. hi < n \<Longrightarrow> n < len xs \<Longrightarrow> f key < f (xs ! nat n)) \<Longrightarrow>
    \<exists>r. search_loop cmp key xa lo hi = Inr r \<and>
      (case r of None \<Rightarrow> \<forall>x\<in>set xs. f x \<noteq> f key | Some (i, j) \<Rightarrow> key_range f xs (f key) i j)"
proof (induction "nat (hi - lo + 1)" arbitrary: lo hi rule: less_induct)
  case less
  show ?case
  proof (cases "lo > hi")
    case True
    have "f x \<noteq> f key" if x: "x \<in> set xs" for x
    proof -
      obtain n where n: "n < length xs" "x = xs ! n" using x by (metis in_set_conv_nth)
      with less.prems(3) [of "int n"] less.prems(4) [of "int n"] True show ?thesis by (cases "int n < lo") auto
    qed
    with True show ?thesis by (subst search_loop.simps) simp
  next
    case False
    define mid where "mid = (lo + hi) div 2"
    have mid: "lo \<le> mid" "mid \<le> hi" "0 \<le> mid" "mid < len xs" using False less.prems(1,2) by (auto simp: mid_def)
    let ?x = "xs ! nat mid"
    have r: "indexXA xa mid = Inr ?x" by (rule indexXA_holds [OF h mid(3,4)])
    note I = cmp_by_iffs [OF c, of key ?x]
    consider "f key < f ?x" | "f key > f ?x" | "f key = f ?x" by linarith
    then show ?thesis
    proof cases
      case 1
      have "f key < f (xs ! nat n)" if "mid - 1 < n" "n < len xs" for n
        using sorted_at [OF s, of mid n] mid(3) 1 that by simp
      with less.hyps [of "mid - 1" lo] less.prems(1,3) mid have
        "\<exists>r. search_loop cmp key xa lo (mid - 1) = Inr r \<and>
          (case r of None \<Rightarrow> \<forall>x\<in>set xs. f x \<noteq> f key | Some (i, j) \<Rightarrow> key_range f xs (f key) i j)" by simp
      moreover have "search_loop cmp key xa lo hi = search_loop cmp key xa lo (mid - 1)"
        using False r 1 I by (subst search_loop.simps) (simp add: Let_def mid_def)
      ultimately show ?thesis by simp
    next
      case 2
      have "f (xs ! nat n) < f key" if "0 \<le> n" "n < mid + 1" for n
        using sorted_at [OF s, of n mid] mid(4) 2 that by simp
      with less.hyps [of hi "mid + 1"] less.prems(2,4) mid have
        "\<exists>r. search_loop cmp key xa (mid + 1) hi = Inr r \<and>
          (case r of None \<Rightarrow> \<forall>x\<in>set xs. f x \<noteq> f key | Some (i, j) \<Rightarrow> key_range f xs (f key) i j)" by simp
      moreover have "search_loop cmp key xa lo hi = search_loop cmp key xa (mid + 1) hi"
        using False r 2 I by (subst search_loop.simps) (simp add: Let_def mid_def)
      ultimately show ?thesis by simp
    next
      case 3
      have lo: "indexXA xa lo = Inr (xs ! nat lo)" "f (xs ! nat lo) \<le> f ?x"
        using mid less.prems(1) by (auto intro!: indexXA_holds [OF h] sorted_at [OF s])
      have hi: "indexXA xa hi = Inr (xs ! nat hi)" "f ?x \<le> f (xs ! nat hi)"
        using mid less.prems(2) by (auto intro!: indexXA_holds [OF h] sorted_at [OF s])
      from expand_first_spec [OF h c s mid(3,4) 3 [symmetric]] obtain i where
        i: "expand_first cmp key xa mid = Inr i" "0 \<le> i" "i \<le> mid"
          "\<forall>n. 0 \<le> n \<and> n \<le> mid \<longrightarrow> (f (xs ! nat n) = f key \<longleftrightarrow> i \<le> n)" by blast
      from expand_last_spec [OF h c s mid(3,4) 3 [symmetric]] obtain j where
        j: "expand_last cmp key xa mid = Inr j" "mid \<le> j" "j < len xs"
          "\<forall>n. mid \<le> n \<and> n < len xs \<longrightarrow> (f (xs ! nat n) = f key \<longleftrightarrow> n \<le> j)" by blast
      have "cmp key (xs ! nat lo) \<ge> 0" "cmp key (xs ! nat hi) \<le> 0"
        using lo(2) hi(2) 3 cmp_by_iffs(3,4) [OF c] by auto
      then have "search_loop cmp key xa lo hi = Inr (Some (i, j))"
        using False r 3 I lo(1) hi(1) i(1) j(1)
        by (subst search_loop.simps) (simp add: Let_def mid_def [symmetric])
      moreover have "key_range f xs (f key) i j"
        unfolding key_range_def
      proof (intro conjI allI impI)
        fix n assume n: "0 \<le> n \<and> n < len xs"
        show "f (xs ! nat n) = f key \<longleftrightarrow> i \<le> n \<and> n \<le> j"
          using i(3,4) j(2,4) n by (cases "n \<le> mid") auto
      qed (use i j in auto)
      ultimately show ?thesis by simp
    qed
  qed
qed

section \<open>Clones\<close>

lemma cloneXA_holds:
  assumes "xa_holds xa xs" and "xs \<noteq> []"
  shows "\<exists>xa'. cloneXA xa = Inr xa' \<and> xa_holds xa' xs"
proof -
  from assms obtain cells where "xa_arr xa = Some cells" "len cells = totsizeE xa"
    "take (length xs) cells = map Some xs" "length xs \<le> length cells" by (rule holds_cells)
  with assms show ?thesis by (simp add: cloneXA_def xa_holds_def)
qed

text \<open>
  The clone of an array that has been emptied has a block without room, which \<open>ensureSpaceXA\<close>
  does not expect: nothing can be added to it.
\<close>

lemma clone_of_emptied_rejects_add:
  assumes "xa_holds xa xs" and "xs \<noteq> []"
  shows "\<exists>xa1 xa2. dropTailXA (len xs) xa = Inr xa1 \<and> cloneXA xa1 = Inr xa2 \<and> addToXA x xa2 = Inl Abort"
proof -
  from assms obtain cells where c: "xa_arr xa = Some cells" by (rule holds_cells)
  have "dropTailXA (len xs) xa = Inr (xa\<lparr>usedsizeE := 0\<rparr>)"
    using holds_used [OF assms(1)] by (simp add: dropTailXA_def)
  moreover have "cloneXA (xa\<lparr>usedsizeE := 0\<rparr>) = Inr (xa\<lparr>usedsizeE := 0, totsizeE := 0, xa_arr := Some []\<rparr>)"
    using assms(1) c by (simp add: cloneXA_def xa_holds_def)
  ultimately show ?thesis by (simp add: addToXA_def sizes_sane_def ensureSpaceXA_def)
qed

section \<open>Property\<close>

text \<open>
  C18. Sorting a growing array and searching it, for elements of any size and a block at any
  address: \<open>sortXA\<close> keeps the elements and orders them by the keys that the comparison compares;
  \<open>lookupXA\<close> then ends without a failed assertion and finds
  a key if and only if some element has it, with the first and the last index of these elements.
\<close>

theorem lookupXA_after_sort:
  assumes "xa_holds xa xs" and "xa_cmp xa = Some cmp" and "cmp_by cmp f"
  shows "\<exists>xa' ys. sortXA base xa = Inr xa' \<and> xa_holds xa' ys \<and> mset ys = mset xs \<and> sorted (map f ys)
    \<and> (\<forall>key. \<exists>r. lookupXA xa' key = Inr r \<and>
          (case r of None \<Rightarrow> \<forall>x\<in>set xs. f x \<noteq> f key | Some (i, j) \<Rightarrow> key_range f ys (f key) i j))"
proof -
  from sortXA_holds [OF assms] obtain xa' ys where
    s: "sortXA base xa = Inr xa'" "xa_holds xa' ys" "mset ys = mset xs" "sorted (map f ys)" "xa_sorted xa'"
      "xa_cmp xa' = Some cmp" by blast
  have sets: "set ys = set xs" by (rule mset_eq_setD [OF s(3)])
  have "\<exists>r. lookupXA xa' key = Inr r \<and>
      (case r of None \<Rightarrow> \<forall>x\<in>set xs. f x \<noteq> f key | Some (i, j) \<Rightarrow> key_range f ys (f key) i j)" for key
  proof -
    have "\<exists>r. search_loop cmp key xa' 0 (len ys - 1) = Inr r \<and>
        (case r of None \<Rightarrow> \<forall>x\<in>set ys. f x \<noteq> f key | Some (i, j) \<Rightarrow> key_range f ys (f key) i j)"
      by (rule search_loop_spec [OF s(2) assms(3) s(4)]) auto
    moreover have "lookupXA xa' key = search_loop cmp key xa' 0 (len ys - 1)"
      using s(5,6) holds_used [OF s(2)] by (simp add: lookupXA_def lookupXA_UNSAFE_def)
    ultimately show ?thesis unfolding sets by simp
  qed
  with s(1-4) show ?thesis by blast
qed

theorem lookupXA_after_sort_witness:
  "\<exists>xa'. sortXA 5000 \<lparr>xa_cmp = Some (\<lambda>x y. int x - int y), elemSzB = 12, xa_arr = Some [Some 5, Some 3, Some (5::nat), None],
       usedsizeE = 3, totsizeE = 4, xa_sorted = False\<rparr> = Inr xa' \<and> lookupXA xa' 4 = Inr None"
proof -
  let ?xa = "\<lparr>xa_cmp = Some (\<lambda>x y. int x - int y), elemSzB = 12, xa_arr = Some [Some 5, Some 3, Some (5::nat), None],
       usedsizeE = 3, totsizeE = 4, xa_sorted = False\<rparr>"
  have "xa_holds ?xa [5, 3, 5]" by (simp add: xa_holds_def)
  moreover have "cmp_by (\<lambda>x y. int x - int y) id" by (auto simp: cmp_by_def)
  ultimately obtain xa' ys where s: "sortXA 5000 ?xa = Inr xa'" "mset ys = mset [5, 3, 5]" and
    l: "\<And>key. \<exists>r. lookupXA xa' key = Inr r \<and>
          (case r of None \<Rightarrow> \<forall>x\<in>set [5, 3, 5]. id x \<noteq> id key | Some (i, j) \<Rightarrow> key_range id ys (id key) i j)"
    using lookupXA_after_sort [of ?xa "[5, 3, 5]" "\<lambda>x y. int x - int y" id 5000] by auto
  obtain r where r: "lookupXA xa' 4 = Inr r"
    "case r of None \<Rightarrow> \<forall>x\<in>set [5, 3, 5]. id x \<noteq> id (4::nat) | Some (i, j) \<Rightarrow> key_range id ys (id 4) i j"
    using l [of 4] by (elim exE conjE)
  have "set ys = {5, 3}" using mset_eq_setD [OF s(2)] by auto
  moreover have "(4::nat) \<in> set ys" if "key_range id ys 4 i j" for i j
  proof -
    from that have "ys ! nat i = 4" "nat i < length ys" by (auto simp: key_range_def nat_less_iff)
    then show ?thesis by (metis nth_mem)
  qed
  ultimately have "r = None" using r(2) by (cases r) auto
  with s(1) r(1) show ?thesis by blast
qed

end
