(* ===== verification/Vg_Pool.thy ===== *)
theory Vg_Pool
  imports Vg_Arrayed
begin

text \<open>
  The pools of equally large elements of Valgrind's core
  (\<open>src/valgrind/coregrind/m_poolalloc.c\<close>), from which the chunks of the malloc wrappers come: an
  element is free or handed out, and the first word of a free one is the link to the next. The
  allocation function is an argument: each operation that may call it gets the address it would
  return. Other theories use only the interface below.
\<close>

section \<open>Operations\<close>

text \<open>\<open>pa_words\<close> is the word stored at an address.\<close>

record pool_alloc =
  nrRef :: nat
  pa_elemSzB :: nat
  nPerPool :: nat
  pools :: "nat xarray"
  nextFree :: nat
  pa_words :: "nat \<Rightarrow> nat"

definition newPA :: "nat \<Rightarrow> nat \<Rightarrow> (nat \<Rightarrow> nat) \<Rightarrow> pool_alloc res" where
  "newPA elemSz nPer words =
     (if elemSz mod 8 \<noteq> 0 \<or> elemSz < 8 \<or> nPer < 100 then Inl Abort
      else bind_res (newXA 8) (\<lambda>xa.
        Inr \<lparr>nrRef = 0, pa_elemSzB = elemSz, nPerPool = nPer, pools = xa, nextFree = 0, pa_words = words\<rparr>))"

text \<open>The loop from the last element of a pool to the first.\<close>

fun link_elements :: "nat \<Rightarrow> nat \<Rightarrow> pool_alloc \<Rightarrow> pool_alloc res" where
  "link_elements 0 pool pa = Inr pa"
| "link_elements (Suc i) pool pa =
     (let elem = pool + i * pa_elemSzB pa in
      if elem mod 8 \<noteq> 0 then Inl Abort
      else link_elements i pool
             (pa\<lparr>pa_words := (pa_words pa)(elem := nextFree pa), nextFree := elem\<rparr>))"

definition pal_add_new_pool :: "nat \<Rightarrow> pool_alloc \<Rightarrow> pool_alloc res" where
  "pal_add_new_pool pool pa =
     (if nextFree pa \<noteq> 0 \<or> pool = 0 then Inl Abort
      else bind_res (link_elements (nPerPool pa) pool pa) (\<lambda>pa1.
           bind_res (addToXA pool (pools pa1)) (\<lambda>(i, xa). Inr (pa1\<lparr>pools := xa\<rparr>))))"

definition allocEltPA_pool :: "nat \<Rightarrow> pool_alloc \<Rightarrow> (nat \<times> pool_alloc) res" where
  "allocEltPA_pool pool pa =
     bind_res (if nextFree pa = 0 then pal_add_new_pool pool pa else Inr pa) (\<lambda>pa1.
     let elem = nextFree pa1
     in if elem = 0 then Inl Null_deref
        else Inr (elem, pa1\<lparr>nextFree := pa_words pa1 elem, pa_words := (pa_words pa1)(elem := 0)\<rparr>))"

definition freeEltPA :: "nat \<Rightarrow> pool_alloc \<Rightarrow> pool_alloc res" where
  "freeEltPA p pa =
     (if p = 0 then Inl Null_deref
      else Inr (pa\<lparr>pa_words := (pa_words pa)(p := nextFree pa), nextFree := p\<rparr>))"

definition addRefPA :: "pool_alloc \<Rightarrow> pool_alloc" where
  "addRefPA pa = pa\<lparr>nrRef := u64 (nrRef pa + 1)\<rparr>"

text \<open>The pools that are given back, in order; the last reference ends the allocator.\<close>

function free_pools :: "int \<Rightarrow> pool_alloc \<Rightarrow> nat list res" where
  "free_pools i pa =
     (if i < sizeXA (pools pa) then
        bind_res (indexXA (pools pa) i) (\<lambda>p. bind_res (free_pools (i + 1) pa) (\<lambda>ps. Inr (p # ps)))
      else Inr [])"
  by pat_completeness auto
termination by (relation "measure (\<lambda>(i, pa). nat (sizeXA (pools pa) - i))") auto

declare free_pools.simps [simp del]

definition deletePA :: "pool_alloc \<Rightarrow> nat list res" where
  "deletePA pa = (if nrRef pa = 0 then free_pools 0 pa else Inl Abort)"

definition releasePA :: "pool_alloc \<Rightarrow> (nat \<times> nat list \<times> pool_alloc) res" where
  "releasePA pa =
     (if nrRef pa = 0 then Inl Abort
      else
        let pa1 = pa\<lparr>nrRef := nrRef pa - 1\<rparr> in
        bind_res (if nrRef pa1 = 0 then deletePA pa1 else Inr []) (\<lambda>ps. Inr (nrRef pa1, ps, pa1)))"

section \<open>Elements of a pool\<close>

definition elements :: "nat \<Rightarrow> nat \<Rightarrow> nat \<Rightarrow> nat list" where
  "elements sz n pool = map (\<lambda>i. pool + i * sz) [0..<n]"

definition elements_of :: "nat \<Rightarrow> nat \<Rightarrow> nat list \<Rightarrow> nat set" where
  "elements_of sz n ps = set (concat (map (elements sz n) ps))"

definition apart :: "nat \<Rightarrow> nat \<Rightarrow> nat \<Rightarrow> bool" where
  "apart n p q \<longleftrightarrow> p + n \<le> q \<or> q + n \<le> p"

text \<open>The blocks \<open>ps\<close> can be pools of \<open>n\<close> elements of \<open>sz\<close> bytes.\<close>

definition pools_fit :: "nat \<Rightarrow> nat \<Rightarrow> nat list \<Rightarrow> bool" where
  "pools_fit sz n ps \<longleftrightarrow>
     sorted_wrt (apart (sz * n)) ps \<and> (\<forall>p\<in>set ps. p \<noteq> 0 \<and> p mod 8 = 0 \<and> p + sz * n \<le> 2 ^ 64)"

lemma elements_Suc: "elements sz (Suc k) pool = elements sz k pool @ [pool + k * sz]"
  by (simp add: elements_def)

lemma in_elements: "e \<in> set (elements sz n pool) \<longleftrightarrow> (\<exists>i<n. e = pool + i * sz)"
  by (auto simp: elements_def)

lemma in_elements_of: "e \<in> elements_of sz n ps \<longleftrightarrow> (\<exists>p\<in>set ps. \<exists>i<n. e = p + i * sz)"
  by (auto simp: elements_of_def in_elements)

lemma elements_of_snoc: "elements_of sz n (ps @ [p]) = elements_of sz n ps \<union> set (elements sz n p)"
  by (simp add: elements_of_def)

lemma apart_sym: "apart n p q \<Longrightarrow> apart n q p"
  by (auto simp: apart_def)

lemma apart_in: "sorted_wrt (apart m) ps \<Longrightarrow> p \<in> set ps \<Longrightarrow> q \<in> set ps \<Longrightarrow> p \<noteq> q \<Longrightarrow> apart m p q"
  by (induction ps) (auto intro: apart_sym)

lemma element_ends: "i < n \<Longrightarrow> i * sz + sz \<le> sz * (n::nat)"
  using mult_le_mono1 [of "Suc i" n sz] by (simp add: algebra_simps)

lemma elements_apart:
  assumes "pools_fit sz n ps" and "p \<in> elements_of sz n ps" and "q \<in> elements_of sz n ps" and "p \<noteq> q"
  shows "apart sz p q"
proof -
  obtain a i b j where
    p: "a \<in> set ps" "i < n" "p = a + i * sz" and q: "b \<in> set ps" "j < n" "q = b + j * sz"
    using assms(2,3) unfolding in_elements_of by blast
  show ?thesis
  proof (cases "a = b")
    case True
    with p(3) q(3) assms(4) consider "i < j" | "j < i" by (cases i j rule: linorder_cases) auto
    then show ?thesis
      using True p(3) q(3) element_ends [of i j sz] element_ends [of j i sz]
      by cases (auto simp: apart_def algebra_simps)
  next
    case False
    then have "apart (sz * n) a b" using assms(1) p(1) q(1) by (auto simp: pools_fit_def intro: apart_in)
    then show ?thesis using p q element_ends [of i n sz] element_ends [of j n sz] by (auto simp: apart_def)
  qed
qed

lemma not_inside:
  assumes "pools_fit sz n ps" and "p \<in> elements_of sz n ps" and "q \<in> elements_of sz n ps"
    and "p \<noteq> q" and "j < sz"
  shows "p + j \<noteq> q"
  using elements_apart [OF assms(1-4)] assms(4,5) by (auto simp: apart_def)

lemma elements_nonnull: "pools_fit sz n ps \<Longrightarrow> 0 \<notin> elements_of sz n ps"
  by (auto simp: in_elements_of pools_fit_def)

lemma new_elements_fresh:
  assumes "pools_fit sz n (ps @ [p])" and "0 < sz" and "e \<in> elements_of sz n ps"
  shows "e \<notin> set (elements sz n p)"
proof
  assume "e \<in> set (elements sz n p)"
  then obtain j where j: "j < n" "e = p + j * sz" by (auto simp: in_elements)
  obtain a i where a: "a \<in> set ps" "i < n" "e = a + i * sz" using assms(3) by (auto simp: in_elements_of)
  have "apart (sz * n) a p" using assms(1) a(1) by (auto simp: pools_fit_def sorted_wrt_append)
  with j a assms(2) element_ends [OF j(1), of sz] element_ends [OF a(2), of sz] show False
    by (auto simp: apart_def)
qed

lemma pools_fit_take: "pools_fit sz n (ps @ qs) \<Longrightarrow> pools_fit sz n ps"
  by (auto simp: pools_fit_def sorted_wrt_append)

section \<open>Invariant\<close>

text \<open>Pools \<open>ps\<close>, free elements \<open>F\<close> in the order of the list, elements \<open>H\<close> that are handed out.\<close>

definition pa_ok :: "pool_alloc \<Rightarrow> nat list \<Rightarrow> nat list \<Rightarrow> nat set \<Rightarrow> bool" where
  "pa_ok pa ps F H \<longleftrightarrow>
     8 \<le> pa_elemSzB pa \<and> pa_elemSzB pa mod 8 = 0 \<and> 100 \<le> nPerPool pa \<and> xa_holds (pools pa) ps
     \<and> pools_fit (pa_elemSzB pa) (nPerPool pa) ps
     \<and> chain (pa_words pa) (nextFree pa) F 0 \<and> set F \<inter> H = {}
     \<and> set F \<union> H = elements_of (pa_elemSzB pa) (nPerPool pa) ps"

lemma pa_ok_new:
  assumes "newPA sz n w = Inr pa"
  shows "pa_ok pa [] [] {}" and "pa_elemSzB pa = sz" and "nPerPool pa = n"
  using assms newXA_holds [of 8]
  by (auto simp: newPA_def pa_ok_def pools_fit_def elements_of_def newXA_def split: if_splits)

lemma pa_ok_held:
  assumes "pa_ok pa ps F H" and "e \<in> H"
  shows "e \<in> elements_of (pa_elemSzB pa) (nPerPool pa) ps" and "e \<noteq> 0" and "e \<notin> set F"
  using assms elements_nonnull [of "pa_elemSzB pa" "nPerPool pa" ps] by (auto simp: pa_ok_def)

lemma link_elements_spec:
  assumes "pool \<noteq> 0" and "pool mod 8 = 0" and "sz mod 8 = 0" and "0 < sz"
  shows "pa_elemSzB pa = sz \<Longrightarrow> chain (pa_words pa) (nextFree pa) F 0 \<Longrightarrow> set F \<inter> set (elements sz k pool) = {} \<Longrightarrow>
    \<exists>w f. link_elements k pool pa = Inr (pa\<lparr>pa_words := w, nextFree := f\<rparr>)
      \<and> chain w f (elements sz k pool @ F) 0 \<and> (\<forall>a. a \<notin> set (elements sz k pool) \<longrightarrow> w a = pa_words pa a)"
proof (induction k arbitrary: pa F)
  case 0
  then show ?case by (intro exI [of _ "pa_words pa"] exI [of _ "nextFree pa"]) (simp add: elements_def)
next
  case (Suc k)
  define e where "e = pool + k * sz"
  have e: "e \<noteq> 0" "e mod 8 = 0" using assms by (auto simp: e_def mod_add_eq [symmetric] mod_mult_eq [symmetric])
  let ?pa = "pa\<lparr>pa_words := (pa_words pa)(e := nextFree pa), nextFree := e\<rparr>"
  have "e \<notin> set F" using Suc.prems(3) by (auto simp: elements_Suc e_def)
  then have c: "chain (pa_words ?pa) (nextFree ?pa) (e # F) 0" using Suc.prems(2) e(1) by simp
  have "e \<notin> set (elements sz k pool)" using assms(4) by (auto simp: in_elements e_def)
  then have d: "set (e # F) \<inter> set (elements sz k pool) = {}" using Suc.prems(3) by (auto simp: elements_Suc)
  from Suc.IH [OF _ c d] Suc.prems(1) obtain w f where
    w: "link_elements k pool ?pa = Inr (?pa\<lparr>pa_words := w, nextFree := f\<rparr>)"
      "chain w f (elements sz k pool @ e # F) 0" "\<forall>a. a \<notin> set (elements sz k pool) \<longrightarrow> w a = pa_words ?pa a"
    by auto
  have "link_elements (Suc k) pool pa = Inr (pa\<lparr>pa_words := w, nextFree := f\<rparr>)"
    using w(1) e(2) Suc.prems(1) by (simp add: Let_def e_def)
  moreover have "\<forall>a. a \<notin> set (elements sz (Suc k) pool) \<longrightarrow> w a = pa_words pa a"
    using w(3) by (auto simp: elements_Suc e_def)
  ultimately show ?case using w(2) by (auto simp: elements_Suc e_def)
qed

section \<open>The operations keep the invariant\<close>

lemma pal_add_new_pool_ok:
  assumes ok: "pa_ok pa ps [] H" and fit: "pools_fit (pa_elemSzB pa) (nPerPool pa) (ps @ [pool])"
  shows "\<exists>pa'. pal_add_new_pool pool pa = Inr pa'
    \<and> pa_ok pa' (ps @ [pool]) (elements (pa_elemSzB pa) (nPerPool pa) pool) H
    \<and> pa_elemSzB pa' = pa_elemSzB pa \<and> nPerPool pa' = nPerPool pa
    \<and> (\<forall>e\<in>H. \<forall>j<pa_elemSzB pa. pa_words pa' (e + j) = pa_words pa (e + j))"
proof -
  let ?sz = "pa_elemSzB pa" and ?n = "nPerPool pa"
  let ?es = "elements ?sz ?n pool" and ?old = "elements_of ?sz ?n ps"
  have p: "pool \<noteq> 0" "pool mod 8 = 0" using fit by (auto simp: pools_fit_def)
  have g: "?sz mod 8 = 0" "0 < ?sz" "nextFree pa = 0" "H = ?old" "chain (pa_words pa) (nextFree pa) [] 0"
    using ok by (auto simp: pa_ok_def)
  from link_elements_spec [OF p g(1,2) refl g(5), of ?n] obtain w f where
    w: "link_elements ?n pool pa = Inr (pa\<lparr>pa_words := w, nextFree := f\<rparr>)" "chain w f ?es 0"
      "\<forall>a. a \<notin> set ?es \<longrightarrow> w a = pa_words pa a" by auto
  have "xa_holds (pools pa) ps" using ok by (simp add: pa_ok_def)
  from addToXA_holds [OF this, of pool] obtain xa where
    xa: "addToXA pool (pools pa) = Inr (len ps, xa)" "xa_holds xa (ps @ [pool])" by blast
  let ?pa = "pa\<lparr>pools := xa, nextFree := f, pa_words := w\<rparr>"
  have "pal_add_new_pool pool pa = Inr ?pa"
    using g(3) p(1) w(1) xa(1) by (simp add: pal_add_new_pool_def)
  moreover have fresh: "e \<notin> set ?es" if "e \<in> ?old" for e
    using new_elements_fresh [OF fit g(2) that] .
  then have "pa_ok ?pa (ps @ [pool]) ?es H"
    using ok fit w(2) xa(2) g(4) by (auto simp: pa_ok_def elements_of_snoc)
  moreover have "w (e + j) = pa_words pa (e + j)" if "e \<in> H" "j < ?sz" for e j
  proof -
    have e: "e \<in> elements_of ?sz ?n (ps @ [pool])" using that(1) g(4) by (simp add: elements_of_snoc)
    have "e + j \<noteq> q" if q: "q \<in> set ?es" for q
    proof (rule not_inside [OF fit e _ _ \<open>j < ?sz\<close>])
      show "q \<in> elements_of ?sz ?n (ps @ [pool])" using q by (simp add: elements_of_snoc)
      show "e \<noteq> q" using fresh \<open>e \<in> H\<close> g(4) q by blast
    qed
    then show ?thesis using w(3) by blast
  qed
  ultimately show ?thesis by (intro exI [of _ ?pa]) simp
qed

text \<open>The element in front of the list is taken.\<close>

lemma allocEltPA_pop:
  assumes ok: "pa_ok pa ps (e # F) H"
  shows "\<exists>pa'. allocEltPA_pool pool pa = Inr (e, pa') \<and> pa_ok pa' ps F (insert e H) \<and> e \<notin> H
    \<and> pa_elemSzB pa' = pa_elemSzB pa \<and> nPerPool pa' = nPerPool pa
    \<and> pa_words pa' = (pa_words pa)(e := 0)"
proof -
  let ?pa = "pa\<lparr>nextFree := pa_words pa e, pa_words := (pa_words pa)(e := 0)\<rparr>"
  have c: "nextFree pa = e" "e \<noteq> 0" "chain (pa_words pa) (pa_words pa e) F 0" "distinct (e # F)"
    using ok chain_null_distinct [of "pa_words pa" "nextFree pa" "e # F"] by (auto simp: pa_ok_def)
  have "allocEltPA_pool pool pa = Inr (e, ?pa)" using c(1,2) by (simp add: allocEltPA_pool_def Let_def)
  moreover have "pa_ok ?pa ps F (insert e H)" using ok c(3,4) by (auto simp: pa_ok_def)
  ultimately show ?thesis using ok by (intro exI [of _ ?pa]) (auto simp: pa_ok_def)
qed

lemma allocEltPA_pool_ok:
  assumes ok: "pa_ok pa ps F H" and fit: "pools_fit (pa_elemSzB pa) (nPerPool pa) (ps @ [pool])"
  shows "\<exists>e pa' F' ps'. allocEltPA_pool pool pa = Inr (e, pa') \<and> e \<notin> H \<and> pa_ok pa' ps' F' (insert e H)
    \<and> (ps' = ps \<or> ps' = ps @ [pool])
    \<and> pa_elemSzB pa' = pa_elemSzB pa \<and> nPerPool pa' = nPerPool pa \<and> pa_words pa' e = 0
    \<and> (\<forall>q\<in>H. \<forall>j<pa_elemSzB pa. pa_words pa' (q + j) = pa_words pa (q + j))"
proof -
  let ?sz = "pa_elemSzB pa" and ?n = "nPerPool pa"
  have take: "\<exists>e pa'' F'. allocEltPA_pool pool pa' = Inr (e, pa'') \<and> e \<notin> H \<and> pa_ok pa'' ps' F' (insert e H)
      \<and> pa_elemSzB pa'' = pa_elemSzB pa' \<and> nPerPool pa'' = nPerPool pa' \<and> pa_words pa'' e = 0
      \<and> (\<forall>q\<in>H. \<forall>j<pa_elemSzB pa'. pa_words pa'' (q + j) = pa_words pa' (q + j))"
    if ok': "pa_ok pa' ps' F1 H" and ne: "F1 \<noteq> []" for pa' ps' F1
  proof -
    obtain e F2 where F1: "F1 = e # F2" using ne by (cases F1) auto
    from allocEltPA_pop [OF ok' [unfolded F1], of pool] obtain pa'' where
      a: "allocEltPA_pool pool pa' = Inr (e, pa'')" "pa_ok pa'' ps' F2 (insert e H)" "e \<notin> H"
        "pa_elemSzB pa'' = pa_elemSzB pa'" "nPerPool pa'' = nPerPool pa'"
        "pa_words pa'' = (pa_words pa')(e := 0)" by blast
    have "q + j \<noteq> e" if "q \<in> H" "j < pa_elemSzB pa'" for q j
    proof (rule not_inside [OF _ _ _ _ that(2)])
      show "pools_fit (pa_elemSzB pa') (nPerPool pa') ps'" using ok' by (simp add: pa_ok_def)
      show "q \<in> elements_of (pa_elemSzB pa') (nPerPool pa') ps'" by (rule pa_ok_held [OF ok' that(1)])
      show "e \<in> elements_of (pa_elemSzB pa') (nPerPool pa') ps'" using ok' F1 by (auto simp: pa_ok_def)
      show "q \<noteq> e" using that(1) a(3) by blast
    qed
    then have "\<forall>q\<in>H. \<forall>j<pa_elemSzB pa'. pa_words pa'' (q + j) = pa_words pa' (q + j)" by (simp add: a(6))
    with a show ?thesis by auto
  qed
  show ?thesis
  proof (cases "F = []")
    case False
    from take [OF ok False] show ?thesis by blast
  next
    case True
    from pal_add_new_pool_ok [OF ok [unfolded True] fit] obtain pa1 where
      p: "pal_add_new_pool pool pa = Inr pa1" "pa_ok pa1 (ps @ [pool]) (elements ?sz ?n pool) H"
        "pa_elemSzB pa1 = ?sz" "nPerPool pa1 = ?n"
        "\<forall>e\<in>H. \<forall>j<?sz. pa_words pa1 (e + j) = pa_words pa (e + j)" by blast
    have ne: "elements ?sz ?n pool \<noteq> []" using ok by (auto simp: pa_ok_def elements_def)
    from take [OF p(2) ne] obtain e pa2 F2 where
      t: "allocEltPA_pool pool pa1 = Inr (e, pa2)" "e \<notin> H" "pa_ok pa2 (ps @ [pool]) F2 (insert e H)"
        "pa_elemSzB pa2 = pa_elemSzB pa1" "nPerPool pa2 = nPerPool pa1" "pa_words pa2 e = 0"
        "\<forall>q\<in>H. \<forall>j<pa_elemSzB pa1. pa_words pa2 (q + j) = pa_words pa1 (q + j)" by blast
    have z: "nextFree pa = 0" using ok True by (simp add: pa_ok_def)
    have nz: "nextFree pa1 \<noteq> 0" using p(2) ne by (auto simp: pa_ok_def)
    have "allocEltPA_pool pool pa = allocEltPA_pool pool pa1"
      using z nz p(1) by (simp add: allocEltPA_pool_def)
    with t p show ?thesis
      by (intro exI [of _ e] exI [of _ pa2] exI [of _ F2] exI [of _ "ps @ [pool]"]) simp
  qed
qed

lemma freeEltPA_ok:
  assumes ok: "pa_ok pa ps F H" and e: "e \<in> H"
  shows "\<exists>pa'. freeEltPA e pa = Inr pa' \<and> pa_ok pa' ps (e # F) (H - {e})
    \<and> pa_elemSzB pa' = pa_elemSzB pa \<and> nPerPool pa' = nPerPool pa
    \<and> (\<forall>q\<in>H - {e}. \<forall>j<pa_elemSzB pa. pa_words pa' (q + j) = pa_words pa (q + j))"
proof -
  let ?pa = "pa\<lparr>pa_words := (pa_words pa)(e := nextFree pa), nextFree := e\<rparr>"
  note h = pa_ok_held [OF ok e]
  have "freeEltPA e pa = Inr ?pa" using h(2) by (simp add: freeEltPA_def)
  moreover have "pa_ok ?pa ps (e # F) (H - {e})" using ok e h(2,3) by (auto simp: pa_ok_def)
  moreover have "q + j \<noteq> e" if "q \<in> H - {e}" "j < pa_elemSzB pa" for q j
    using ok that pa_ok_held(1) [OF ok, of q] not_inside [OF _ _ h(1) _ that(2), of q] by (auto simp: pa_ok_def)
  ultimately show ?thesis by (intro exI [of _ ?pa]) simp
qed

text \<open>A client that writes into an element it holds does not disturb the list of free elements.\<close>

lemma pa_ok_write:
  assumes ok: "pa_ok pa ps F H" and e: "e \<in> H" and j: "j < pa_elemSzB pa"
  shows "pa_ok (pa\<lparr>pa_words := (pa_words pa)(e + j := v)\<rparr>) ps F H"
proof -
  have "e + j \<notin> set F"
  proof
    assume f: "e + j \<in> set F"
    then have "e + j \<in> elements_of (pa_elemSzB pa) (nPerPool pa) ps" using ok by (auto simp: pa_ok_def)
    moreover have "e \<noteq> e + j" using f pa_ok_held(3) [OF ok e] by (cases j) auto
    ultimately show False
      using ok pa_ok_held(1) [OF ok e] not_inside [OF _ _ _ _ j, of "nPerPool pa" ps e "e + j"]
      by (auto simp: pa_ok_def)
  qed
  with ok show ?thesis by (simp add: pa_ok_def)
qed

text \<open>The last release gives every pool back, once and in order; an earlier one gives none.\<close>

lemma free_pools_all:
  "xa_holds (pools pa) ps \<Longrightarrow> k \<le> length ps \<Longrightarrow> free_pools (int k) pa = Inr (drop k ps)"
proof (induction "length ps - k" arbitrary: k)
  case 0
  then show ?case by (subst free_pools.simps) (simp add: sizeXA_holds)
next
  case (Suc m)
  then have k: "k < length ps" by simp
  have "free_pools (int (Suc k)) pa = Inr (drop (Suc k) ps)" using Suc by (intro Suc.hyps) auto
  moreover have "indexXA (pools pa) (int k) = Inr (ps ! k)"
    using indexXA_holds [OF Suc.prems(1), of "int k"] k by simp
  ultimately show ?case
    using k Suc.prems(1) by (subst free_pools.simps) (simp add: sizeXA_holds Cons_nth_drop_Suc add.commute)
qed

lemma releasePA_ok:
  assumes "pa_ok pa ps F H" and "nrRef pa \<noteq> 0"
  shows "releasePA pa = Inr (nrRef pa - 1, if nrRef pa = 1 then ps else [], pa\<lparr>nrRef := nrRef pa - 1\<rparr>)"
proof -
  have "xa_holds (pools (pa\<lparr>nrRef := nrRef pa - 1\<rparr>)) ps" using assms(1) by (simp add: pa_ok_def)
  from free_pools_all [OF this, of 0] assms(2) show ?thesis
    by (auto simp: releasePA_def deletePA_def Let_def)
qed

end
