(* ===== verification/Vg_Pooled.thy ===== *)
theory Vg_Pooled
  imports Vg_Pool
begin

text \<open>
  The pools as their clients see them: elements that are handed out are private records. The
  interface is a locale, interpreted by the pools of \<open>m_poolalloc.c\<close>; a program that takes elements,
  writes and reads their words and gives them back computes what it computes on separate records.
\<close>

section \<open>Client programs\<close>

text \<open>
  The client knows an element by its position among those it holds. \<open>Get\<close> carries the address
  that the allocation function would return for a new pool.
\<close>

datatype pool_oper = Get nat | Give nat | Store nat nat nat | Load nat nat

definition except :: "nat \<Rightarrow> 'a list \<Rightarrow> 'a list" where
  "except k xs = take k xs @ drop (Suc k) xs"

fun run_elements ::
  "(nat \<Rightarrow> 's \<Rightarrow> (nat \<times> 's) res) \<Rightarrow> (nat \<Rightarrow> 's \<Rightarrow> 's res) \<Rightarrow> ('s \<Rightarrow> nat \<Rightarrow> nat) \<Rightarrow> (nat \<Rightarrow> nat \<Rightarrow> 's \<Rightarrow> 's)
   \<Rightarrow> pool_oper list \<Rightarrow> nat list \<Rightarrow> 's \<Rightarrow> (nat list \<times> nat list \<times> 's) res" where
  "run_elements get give word put [] hs s = Inr ([], hs, s)"
| "run_elements get give word put (Get p # ops) hs s =
     bind_res (get p s) (\<lambda>(e, s1). run_elements get give word put ops (hs @ [e]) s1)"
| "run_elements get give word put (Give k # ops) hs s =
     (if k < length hs
      then bind_res (give (hs ! k) s) (run_elements get give word put ops (except k hs))
      else Inl Out_of_bounds)"
| "run_elements get give word put (Store k i v # ops) hs s =
     (if k < length hs then run_elements get give word put ops hs (put (hs ! k + 8 * i) v s)
      else Inl Out_of_bounds)"
| "run_elements get give word put (Load k i # ops) hs s =
     (if k < length hs
      then bind_res (run_elements get give word put ops hs s) (\<lambda>(out, r). Inr (word s (hs ! k + 8 * i) # out, r))
      else Inl Out_of_bounds)"

text \<open>The same program on records: what a word has that was never written is not known.\<close>

fun run_records :: "pool_oper list \<Rightarrow> (nat \<rightharpoonup> nat) list \<Rightarrow> nat list \<times> (nat \<rightharpoonup> nat) list" where
  "run_records [] ws = ([], ws)"
| "run_records (Get p # ops) ws = run_records ops (ws @ [[0 \<mapsto> 0]])"
| "run_records (Give k # ops) ws = run_records ops (except k ws)"
| "run_records (Store k i v # ops) ws = run_records ops (ws[k := (ws ! k)(i \<mapsto> v)])"
| "run_records (Load k i # ops) ws = (let (out, r) = run_records ops ws in (the ((ws ! k) i) # out, r))"

text \<open>The program uses only elements it holds, words in them, and reads only what is known.\<close>

fun records_ok :: "nat \<Rightarrow> pool_oper list \<Rightarrow> (nat \<rightharpoonup> nat) list \<Rightarrow> bool" where
  "records_ok w [] ws \<longleftrightarrow> True"
| "records_ok w (Get p # ops) ws \<longleftrightarrow> records_ok w ops (ws @ [[0 \<mapsto> 0]])"
| "records_ok w (Give k # ops) ws \<longleftrightarrow> k < length ws \<and> records_ok w ops (except k ws)"
| "records_ok w (Store k i v # ops) ws \<longleftrightarrow> k < length ws \<and> i < w \<and> records_ok w ops (ws[k := (ws ! k)(i \<mapsto> v)])"
| "records_ok w (Load k i # ops) ws \<longleftrightarrow> k < length ws \<and> (ws ! k) i \<noteq> None \<and> records_ok w ops ws"

fun new_pools :: "pool_oper list \<Rightarrow> nat list" where
  "new_pools [] = []"
| "new_pools (Get p # ops) = p # new_pools ops"
| "new_pools (x # ops) = new_pools ops"

lemma except_nth: "k < length xs \<Longrightarrow> j < length xs - 1 \<Longrightarrow> except k xs ! j = xs ! (if j < k then j else Suc j)"
  by (auto simp: except_def nth_append)

lemma length_except: "k < length xs \<Longrightarrow> length (except k xs) = length xs - 1"
  by (simp add: except_def)

lemma except_distinct:
  assumes "distinct xs" and "k < length xs"
  shows "distinct (except k xs)" and "set (except k xs) = set xs - {xs ! k}"
proof -
  have "xs = take k xs @ xs ! k # drop (Suc k) xs" using assms(2) by (rule id_take_nth_drop)
  then obtain as x bs where x: "xs = as @ x # bs" "length as = k" "xs ! k = x"
    using assms(2) by (metis length_take less_imp_le min.absorb2)
  then show "distinct (except k xs)" and "set (except k xs) = set xs - {xs ! k}"
    using assms(1) by (auto simp: except_def)
qed

section \<open>The interface\<close>

text \<open>A word of a record is known to the client as the word in its element.\<close>

definition contents :: "nat \<Rightarrow> ('s \<Rightarrow> nat \<Rightarrow> nat) \<Rightarrow> 's \<Rightarrow> nat list \<Rightarrow> (nat \<rightharpoonup> nat) list \<Rightarrow> bool" where
  "contents w word s hs ws \<longleftrightarrow>
     length ws = length hs
     \<and> (\<forall>k<length hs. \<forall>i v. (ws ! k) i = Some v \<longrightarrow> i < w \<and> word s (hs ! k + 8 * i) = v)"

lemma contentsI:
  "length ws = length hs \<Longrightarrow>
   (\<And>k i v. k < length hs \<Longrightarrow> (ws ! k) i = Some v \<Longrightarrow> i < w \<and> word s (hs ! k + 8 * i) = v) \<Longrightarrow> contents w word s hs ws"
  by (simp add: contents_def)

lemma contentsD:
  "contents w word s hs ws \<Longrightarrow> k < length hs \<Longrightarrow> (ws ! k) i = Some v \<Longrightarrow> i < w \<and> word s (hs ! k + 8 * i) = v"
  by (simp add: contents_def)

lemma contents_length: "contents w word s hs ws \<Longrightarrow> length ws = length hs"
  by (simp add: contents_def)

lemma contents_get:
  assumes c: "contents w word s hs ws" and "word s' e = 0" and "0 < w"
    and "\<forall>q\<in>set hs. \<forall>i<w. word s' (q + 8 * i) = word s (q + 8 * i)"
  shows "contents w word s' (hs @ [e]) (ws @ [[0 \<mapsto> 0]])"
proof (rule contentsI)
  note l = contents_length [OF c]
  show "length (ws @ [[0 \<mapsto> 0]]) = length (hs @ [e])" using l by simp
  fix k i v assume k: "k < length (hs @ [e])" "((ws @ [[0 \<mapsto> 0]]) ! k) i = Some v"
  show "i < w \<and> word s' ((hs @ [e]) ! k + 8 * i) = v"
  proof (cases "k < length hs")
    case True
    then have "(ws ! k) i = Some v" using k(2) l by (simp add: nth_append)
    from contentsD [OF c True this] assms(4) True show ?thesis by (simp add: nth_append)
  next
    case False
    then have "k = length hs" using k(1) by simp
    with k(2) l assms(2,3) show ?thesis by (auto simp: nth_append split: if_splits)
  qed
qed

lemma contents_give:
  assumes c: "contents w word s hs ws" and k: "k < length hs" and "distinct hs"
    and same: "\<forall>q\<in>set hs - {hs ! k}. \<forall>i<w. word s' (q + 8 * i) = word s (q + 8 * i)"
  shows "contents w word s' (except k hs) (except k ws)"
proof (rule contentsI)
  note l = contents_length [OF c]
  show "length (except k ws) = length (except k hs)" using l k by (simp add: length_except)
  fix j i v assume j: "j < length (except k hs)" "(except k ws ! j) i = Some v"
  define j' where "j' = (if j < k then j else Suc j)"
  have j': "j' < length hs" "j' \<noteq> k" using j(1) k by (auto simp: j'_def length_except)
  have e: "except k hs ! j = hs ! j'" "except k ws ! j = ws ! j'"
    using j(1) k l by (auto simp: j'_def except_nth length_except)
  have "hs ! j' \<in> set hs - {hs ! k}" using j' k \<open>distinct hs\<close> by (auto simp: nth_eq_iff_index_eq)
  with contentsD [OF c j'(1)] j(2) same show "i < w \<and> word s' (except k hs ! j + 8 * i) = v" by (simp add: e)
qed

lemma contents_put:
  assumes c: "contents w word s hs ws" and k: "k < length hs" "i < w"
    and new: "word s' (hs ! k + 8 * i) = v"
    and same: "\<And>j m. j < length hs \<Longrightarrow> m < w \<Longrightarrow> (j, m) \<noteq> (k, i) \<Longrightarrow> word s' (hs ! j + 8 * m) = word s (hs ! j + 8 * m)"
  shows "contents w word s' hs (ws[k := (ws ! k)(i \<mapsto> v)])"
proof (rule contentsI)
  note l = contents_length [OF c]
  show "length (ws[k := (ws ! k)(i \<mapsto> v)]) = length hs" using l by simp
  fix j m u assume j: "j < length hs" "(ws[k := (ws ! k)(i \<mapsto> v)] ! j) m = Some u"
  show "m < w \<and> word s' (hs ! j + 8 * m) = u"
  proof (cases "(j, m) = (k, i)")
    case True
    with j l k new show ?thesis by simp
  next
    case False
    then have "(ws ! j) m = Some u" using j l by (cases "j = k") auto
    with contentsD [OF c j(1) this] same [OF j(1) _ False] show ?thesis by simp
  qed
qed

locale element_store =
  fixes holds :: "'s \<Rightarrow> nat set \<Rightarrow> bool"
    and room :: "'s \<Rightarrow> nat list \<Rightarrow> bool"
    and get :: "nat \<Rightarrow> 's \<Rightarrow> (nat \<times> 's) res"
    and give :: "nat \<Rightarrow> 's \<Rightarrow> 's res"
    and word :: "'s \<Rightarrow> nat \<Rightarrow> nat"
    and put :: "nat \<Rightarrow> nat \<Rightarrow> 's \<Rightarrow> 's"
    and w :: nat
  assumes words_law: "holds s H \<Longrightarrow> 0 < w"
    and apart_law: "holds s H \<Longrightarrow> p \<in> H \<Longrightarrow> q \<in> H \<Longrightarrow> p \<noteq> q \<Longrightarrow> apart (8 * w) p q"
    and get_law: "holds s H \<Longrightarrow> room s (p # A) \<Longrightarrow>
      \<exists>e s'. get p s = Inr (e, s') \<and> e \<notin> H \<and> holds s' (insert e H) \<and> room s' A \<and> word s' e = 0
        \<and> (\<forall>q\<in>H. \<forall>i<w. word s' (q + 8 * i) = word s (q + 8 * i))"
    and give_law: "holds s H \<Longrightarrow> room s A \<Longrightarrow> e \<in> H \<Longrightarrow>
      \<exists>s'. give e s = Inr s' \<and> holds s' (H - {e}) \<and> room s' A
        \<and> (\<forall>q\<in>H - {e}. \<forall>i<w. word s' (q + 8 * i) = word s (q + 8 * i))"
    and put_law: "holds s H \<Longrightarrow> room s A \<Longrightarrow> e \<in> H \<Longrightarrow> i < w \<Longrightarrow>
      holds (put (e + 8 * i) v s) H \<and> room (put (e + 8 * i) v s) A"
    and word_law: "word (put a v s) b = (if b = a then v else word s b)"
begin

lemma words_distinct:
  assumes "holds s (set hs)" and "distinct hs" and "j < length hs" "k < length hs" and "m < w" "i < w"
    and "(j, m) \<noteq> (k, i)"
  shows "hs ! j + 8 * m \<noteq> hs ! k + 8 * i"
proof (cases "j = k")
  case True
  with assms(7) show ?thesis by simp
next
  case False
  then have "apart (8 * w) (hs ! j) (hs ! k)"
    using assms by (intro apart_law) (auto simp: nth_eq_iff_index_eq)
  with assms(5,6) show ?thesis by (auto simp: apart_def)
qed

lemma run_refines_records:
  "holds s (set hs) \<Longrightarrow> distinct hs \<Longrightarrow> contents w word s hs ws \<Longrightarrow> room s (new_pools ops) \<Longrightarrow> records_ok w ops ws \<Longrightarrow>
   \<exists>hs' s'. run_elements get give word put ops hs s = Inr (fst (run_records ops ws), hs', s')
     \<and> holds s' (set hs') \<and> distinct hs' \<and> contents w word s' hs' (snd (run_records ops ws))"
proof (induction ops arbitrary: s hs ws)
  case Nil
  then show ?case by simp
next
  case (Cons oper ops)
  note len = contents_length [OF Cons.prems(3)]
  show ?case
  proof (cases oper)
    case (Get p)
    with Cons.prems(4) have "room s (p # new_pools ops)" by simp
    from get_law [OF Cons.prems(1) this] obtain e s1 where
      g: "get p s = Inr (e, s1)" "e \<notin> set hs" "holds s1 (insert e (set hs))" "room s1 (new_pools ops)"
        "word s1 e = 0" "\<forall>q\<in>set hs. \<forall>i<w. word s1 (q + 8 * i) = word s (q + 8 * i)" by blast
    have "contents w word s1 (hs @ [e]) (ws @ [[0 \<mapsto> 0]])"
      by (rule contents_get [OF Cons.prems(3) g(5) words_law [OF g(3)] g(6)])
    from Cons.IH [OF _ _ this g(4)] g(1-3) Cons.prems(2,5) Get show ?thesis by simp
  next
    case (Give k)
    then have k: "k < length hs" "records_ok w ops (except k ws)" using Cons.prems(5) len by simp_all
    have r: "room s (new_pools ops)" using Cons.prems(4) Give by simp
    have "hs ! k \<in> set hs" using k(1) by simp
    from give_law [OF Cons.prems(1) r this] obtain s1 where
      g: "give (hs ! k) s = Inr s1" "holds s1 (set hs - {hs ! k})" "room s1 (new_pools ops)"
        "\<forall>q\<in>set hs - {hs ! k}. \<forall>i<w. word s1 (q + 8 * i) = word s (q + 8 * i)" by blast
    have c: "contents w word s1 (except k hs) (except k ws)"
      by (rule contents_give [OF Cons.prems(3) k(1) Cons.prems(2) g(4)])
    note x = except_distinct [OF Cons.prems(2) k(1)]
    from Cons.IH [OF _ x(1) c g(3) k(2)] g(1,2) x(2) k(1) Give show ?thesis by simp
  next
    case (Store k i v)
    then have k: "k < length hs" "i < w" "records_ok w ops (ws[k := (ws ! k)(i \<mapsto> v)])"
      using Cons.prems(5) len by simp_all
    have r: "room s (new_pools ops)" using Cons.prems(4) Store by simp
    have "hs ! k \<in> set hs" using k(1) by simp
    note p = put_law [OF Cons.prems(1) r this k(2), of v]
    have "contents w word (put (hs ! k + 8 * i) v s) hs (ws[k := (ws ! k)(i \<mapsto> v)])"
    proof (rule contents_put [OF Cons.prems(3) k(1,2)])
      show "word (put (hs ! k + 8 * i) v s) (hs ! j + 8 * m) = word s (hs ! j + 8 * m)"
        if "j < length hs" "m < w" "(j, m) \<noteq> (k, i)" for j m
        using words_distinct [OF Cons.prems(1,2) that(1) k(1) that(2) k(2) that(3)] by (simp add: word_law)
    qed (simp add: word_law)
    from Cons.IH [OF _ Cons.prems(2) this _ k(3)] p k(1) Store show ?thesis by simp
  next
    case (Load k i)
    then have k: "k < length hs" "(ws ! k) i \<noteq> None" "records_ok w ops ws" using Cons.prems(5) len by simp_all
    then obtain v where v: "(ws ! k) i = Some v" by blast
    have r: "room s (new_pools ops)" using Cons.prems(4) Load by simp
    from Cons.IH [OF Cons.prems(1-3) r k(3)] contentsD [OF Cons.prems(3) k(1) v] k(1) v Load
    show ?thesis by (auto simp: split_beta)
  qed
qed

end

section \<open>The pools\<close>

definition pool_holds :: "nat \<Rightarrow> nat \<Rightarrow> pool_alloc \<Rightarrow> nat set \<Rightarrow> bool" where
  "pool_holds sz n pa H \<longleftrightarrow> pa_elemSzB pa = sz \<and> nPerPool pa = n \<and> (\<exists>ps F. pa_ok pa ps F H)"

definition pool_room :: "nat \<Rightarrow> nat \<Rightarrow> pool_alloc \<Rightarrow> nat list \<Rightarrow> bool" where
  "pool_room sz n pa A \<longleftrightarrow> (\<exists>ps. xa_holds (pools pa) ps \<and> pools_fit sz n (ps @ A))"

definition pool_write :: "nat \<Rightarrow> nat \<Rightarrow> pool_alloc \<Rightarrow> pool_alloc" where
  "pool_write a v pa = pa\<lparr>pa_words := (pa_words pa)(a := v)\<rparr>"

lemma xa_holds_unique: "xa_holds xa xs \<Longrightarrow> xa_holds xa ys \<Longrightarrow> xs = ys"
  by (auto simp: xa_holds_def map_injective split: option.splits)

lemma pools_fit_without: "pools_fit sz n (ps @ p # A) \<Longrightarrow> pools_fit sz n (ps @ A)"
  by (auto simp: pools_fit_def sorted_wrt_append)

lemma pools_fit_first: "pools_fit sz n (ps @ p # A) \<Longrightarrow> pools_fit sz n (ps @ [p])"
  using pools_fit_take [of sz n "ps @ [p]" A] by simp

lemma pool_get:
  assumes h: "pool_holds (8 * w) n pa H" and r: "pool_room (8 * w) n pa (p # A)"
  shows "\<exists>e pa'. allocEltPA_pool p pa = Inr (e, pa') \<and> e \<notin> H \<and> pool_holds (8 * w) n pa' (insert e H)
    \<and> pool_room (8 * w) n pa' A \<and> pa_words pa' e = 0
    \<and> (\<forall>q\<in>H. \<forall>i<w. pa_words pa' (q + 8 * i) = pa_words pa (q + 8 * i))"
proof -
  from h obtain ps F where ok: "pa_elemSzB pa = 8 * w" "nPerPool pa = n" "pa_ok pa ps F H"
    by (auto simp: pool_holds_def)
  from r obtain ps' where "xa_holds (pools pa) ps'" and f': "pools_fit (8 * w) n (ps' @ p # A)"
    by (auto simp: pool_room_def)
  moreover have "xa_holds (pools pa) ps" using ok(3) by (simp add: pa_ok_def)
  ultimately have f: "pools_fit (8 * w) n (ps @ p # A)" using xa_holds_unique by blast
  have "pools_fit (pa_elemSzB pa) (nPerPool pa) (ps @ [p])" using pools_fit_first [OF f] by (simp add: ok(1,2))
  from allocEltPA_pool_ok [OF ok(3) this] obtain e pa' F' qs where
    a: "allocEltPA_pool p pa = Inr (e, pa')" "e \<notin> H" "pa_ok pa' qs F' (insert e H)" "qs = ps \<or> qs = ps @ [p]"
      "pa_elemSzB pa' = pa_elemSzB pa" "nPerPool pa' = nPerPool pa" "pa_words pa' e = 0"
      "\<forall>q\<in>H. \<forall>j<pa_elemSzB pa. pa_words pa' (q + j) = pa_words pa (q + j)" by blast
  have "xa_holds (pools pa') qs" using a(3) by (simp add: pa_ok_def)
  moreover have "pools_fit (8 * w) n (qs @ A)" using a(4) f pools_fit_without [OF f] by auto
  ultimately have "pool_room (8 * w) n pa' A" by (auto simp: pool_room_def)
  moreover have "pool_holds (8 * w) n pa' (insert e H)" using a(3,5,6) ok(1,2) by (auto simp: pool_holds_def)
  ultimately show ?thesis using a(1,2,7,8) ok(1) by auto
qed

lemma pool_give:
  assumes h: "pool_holds (8 * w) n pa H" and r: "pool_room (8 * w) n pa A" and e: "e \<in> H"
  shows "\<exists>pa'. freeEltPA e pa = Inr pa' \<and> pool_holds (8 * w) n pa' (H - {e}) \<and> pool_room (8 * w) n pa' A
    \<and> (\<forall>q\<in>H - {e}. \<forall>i<w. pa_words pa' (q + 8 * i) = pa_words pa (q + 8 * i))"
proof -
  from h obtain ps F where ok: "pa_elemSzB pa = 8 * w" "nPerPool pa = n" "pa_ok pa ps F H"
    by (auto simp: pool_holds_def)
  from freeEltPA_ok [OF ok(3) e] obtain pa' where
    a: "freeEltPA e pa = Inr pa'" "pa_ok pa' ps (e # F) (H - {e})" "pa_elemSzB pa' = pa_elemSzB pa"
      "nPerPool pa' = nPerPool pa"
      "\<forall>q\<in>H - {e}. \<forall>j<pa_elemSzB pa. pa_words pa' (q + j) = pa_words pa (q + j)" by blast
  have "pools pa' = pools pa" using a(1) by (auto simp: freeEltPA_def split: if_splits)
  then have "pool_room (8 * w) n pa' A" using r by (simp add: pool_room_def)
  with a ok(1,2) show ?thesis by (auto simp: pool_holds_def)
qed

interpretation pool: element_store "pool_holds (8 * w) n" "pool_room (8 * w) n" allocEltPA_pool freeEltPA
  pa_words pool_write w for w n
proof unfold_locales
  show "0 < w" if "pool_holds (8 * w) n pa H" for pa H using that by (auto simp: pool_holds_def pa_ok_def)
  show "apart (8 * w) p q" if "pool_holds (8 * w) n pa H" "p \<in> H" "q \<in> H" "p \<noteq> q" for pa H p q
    using that elements_apart [of "8 * w" n _ p q] by (fastforce simp: pool_holds_def pa_ok_def)
  show "pool_holds (8 * w) n (pool_write (e + 8 * i) v pa) H \<and> pool_room (8 * w) n (pool_write (e + 8 * i) v pa) A"
    if "pool_holds (8 * w) n pa H" "pool_room (8 * w) n pa A" "e \<in> H" "i < w" for pa H A e i v
    using that pa_ok_write [of pa _ _ H e "8 * i" v] by (fastforce simp: pool_holds_def pool_room_def pool_write_def)
qed (auto simp: pool_write_def intro: pool_get pool_give)

text \<open>
  C16. The elements of a pool are private records: on a new pool allocator, given allocations for
  its pools that do not overlap, every sequence of requests, returns, writes and reads of a client
  that uses only the elements it holds runs without a failed assertion, reads in each element what
  the client last wrote there, although free elements carry the links of the free list, and leaves
  elements in the client's hands that do not overlap.
\<close>

theorem pool_elements_are_private:
  assumes "newPA sz n words = Inr pa" and "pools_fit sz n (new_pools ops)" and "records_ok (sz div 8) ops []"
  shows "\<exists>hs pa'. run_elements allocEltPA_pool freeEltPA pa_words pool_write ops [] pa
      = Inr (fst (run_records ops []), hs, pa')
    \<and> contents (sz div 8) pa_words pa' hs (snd (run_records ops []))
    \<and> distinct hs \<and> (\<forall>p\<in>set hs. \<forall>q\<in>set hs. p \<noteq> q \<longrightarrow> apart sz p q)"
proof -
  note new = pa_ok_new [OF assms(1)]
  define w where "w = sz div 8"
  have sz: "sz = 8 * w" using new(1,2) by (auto simp: pa_ok_def w_def)
  have h: "pool_holds (8 * w) n pa (set [])" using new sz by (auto simp: pool_holds_def)
  have "xa_holds (pools pa) []" using new(1) by (simp add: pa_ok_def)
  then have r: "pool_room (8 * w) n pa (new_pools ops)" using assms(2) sz by (auto simp: pool_room_def)
  have c: "contents w pa_words pa [] []" by (simp add: contents_def)
  have ok: "records_ok w ops []" using assms(3) by (simp add: w_def)
  from pool.run_refines_records [OF h _ c r ok] obtain hs pa' where
    run: "run_elements allocEltPA_pool freeEltPA pa_words pool_write ops [] pa = Inr (fst (run_records ops []), hs, pa')"
      "pool_holds (8 * w) n pa' (set hs)" "distinct hs" "contents w pa_words pa' hs (snd (run_records ops []))"
    by auto
  have "apart sz p q" if "p \<in> set hs" "q \<in> set hs" "p \<noteq> q" for p q
    using pool.apart_law [OF run(2) that] sz by simp
  with run show ?thesis unfolding w_def by blast
qed

theorem pool_elements_are_private_witness:
  "\<exists>pa hs pa'. newPA 16 100 (\<lambda>a. 7) = Inr pa \<and>
     run_elements allocEltPA_pool freeEltPA pa_words pool_write
       [Get 4096, Store 0 1 5, Get 8192, Store 1 1 6, Load 0 1, Give 0, Load 0 1, Load 0 0] [] pa
     = Inr ([5, 6, 0], hs, pa') \<and> length hs = 1"
proof -
  let ?ops = "[Get 4096, Store 0 1 5, Get 8192, Store 1 1 6, Load 0 1, Give 0, Load 0 1, Load 0 0]"
  obtain pa where pa: "newPA 16 100 (\<lambda>a. 7) = Inr pa" by (simp add: newPA_def newXA_def)
  have fit: "pools_fit 16 100 (new_pools ?ops)" by (simp add: pools_fit_def apart_def)
  have ok: "records_ok (16 div 8) ?ops []" by (simp add: except_def)
  have out: "run_records ?ops [] = ([5, 6, 0], [[0 \<mapsto> 0, 1 \<mapsto> 6]])" by (simp add: except_def)
  from pool_elements_are_private [OF pa fit ok] obtain hs pa' where
    r: "run_elements allocEltPA_pool freeEltPA pa_words pool_write ?ops [] pa = Inr ([5, 6, 0], hs, pa')"
      "contents (16 div 8) pa_words pa' hs [[0 \<mapsto> 0, 1 \<mapsto> 6]]"
    unfolding out by auto
  from contents_length [OF r(2)] have "length hs = 1" by simp
  with pa r(1) show ?thesis by blast
qed

end
