(* ===== verification/Vg_Oset.thy ===== *)
theory Vg_Oset
  imports Vg_Pool
begin

text \<open>
  The ordered sets of Valgrind's core (\<open>src/valgrind/coregrind/m_oset.c\<close>), AVL trees over nodes
  that the client allocates: in memory a node precedes its element. The state \<open>avl_heap\<close> has the
  nodes by their addresses and the words of the elements by theirs; the operations on the tree do
  not write to the elements. A key is the list of words it starts with, so that the key inside an
  element is a tail of the element; key offsets are multiples of a word. The address of a new node,
  from the allocation function or a pool, is an argument.
\<close>

section \<open>State\<close>

record avl_node =
  a_left :: nat
  a_right :: nat
  a_balance :: int
  a_magic :: nat

record avl_heap =
  avl :: "nat \<Rightarrow> avl_node"
  elems :: "nat \<Rightarrow> nat list"

type_synonym oset_cmp = "(nat list \<Rightarrow> nat list \<Rightarrow> int) option"

record oset =
  keyOff :: nat
  o_cmp :: oset_cmp
  node_pa :: bool
  maxEltSize :: nat
  nElems :: int
  o_root :: nat
  nodeStack :: "nat list"
  numStack :: "nat list"
  stackTop :: nat

definition STACK_MAX :: nat where
  "STACK_MAX = 32"

definition OSET_MAGIC :: nat where
  "OSET_MAGIC = 0x5b1f"

definition sizeof_AvlNode :: nat where
  "sizeof_AvlNode = 24"

definition get_node :: "nat \<Rightarrow> avl_heap \<Rightarrow> avl_node res" where
  "get_node p s = (if p = 0 then Inl Null_deref else Inr (avl s p))"

definition set_node :: "nat \<Rightarrow> (avl_node \<Rightarrow> avl_node) \<Rightarrow> avl_heap \<Rightarrow> avl_heap res" where
  "set_node p f s = (if p = 0 then Inl Null_deref else Inr (s\<lparr>avl := (avl s)(p := f (avl s p))\<rparr>))"

lemma get_node_ok [simp]: "p \<noteq> 0 \<Longrightarrow> get_node p s = Inr (avl s p)"
  by (simp add: get_node_def)

lemma set_node_ok [simp]: "p \<noteq> 0 \<Longrightarrow> set_node p f s = Inr (s\<lparr>avl := (avl s)(p := f (avl s p))\<rparr>)"
  by (simp add: set_node_def)

section \<open>Helpers\<close>

definition node_of_elem :: "nat \<Rightarrow> avl_heap \<Rightarrow> nat res" where
  "node_of_elem e s =
     (let n = u64 (e + 2 ^ 64 - sizeof_AvlNode) in
      bind_res (get_node n s) (\<lambda>x. if a_magic x = OSET_MAGIC then Inr n else Inl Abort))"

definition elem_of_node_no_check :: "nat \<Rightarrow> nat" where
  "elem_of_node_no_check n = u64 (n + sizeof_AvlNode)"

definition elem_of_node :: "nat \<Rightarrow> avl_heap \<Rightarrow> nat res" where
  "elem_of_node n s =
     bind_res (get_node n s) (\<lambda>x.
     if a_magic x = OSET_MAGIC then Inr (elem_of_node_no_check n) else Inl Abort)"

definition key_part :: "nat \<Rightarrow> nat list \<Rightarrow> nat list" where
  "key_part off e = drop (off div 8) e"

definition slow_key_of_node :: "nat \<Rightarrow> nat \<Rightarrow> avl_heap \<Rightarrow> nat list res" where
  "slow_key_of_node off n s = bind_res (elem_of_node n s) (\<lambda>e. Inr (key_part off (elems s e)))"

definition fast_key_of_node :: "nat \<Rightarrow> avl_heap \<Rightarrow> nat list res" where
  "fast_key_of_node n s = bind_res (elem_of_node n s) (\<lambda>e. Inr (elems s e))"

definition first_word :: "nat list \<Rightarrow> nat res" where
  "first_word ws = (case ws of [] \<Rightarrow> Inl Out_of_bounds | w # _ \<Rightarrow> Inr w)"

definition fast_cmp :: "nat list \<Rightarrow> nat \<Rightarrow> avl_heap \<Rightarrow> int res" where
  "fast_cmp k n s =
     bind_res (first_word k) (\<lambda>w1.
     bind_res (elem_of_node n s) (\<lambda>e.
     bind_res (first_word (elems s e)) (\<lambda>w2.
     Inr (if w1 > w2 then 1 else if w1 < w2 then - 1 else 0))))"

definition slow_cmp :: "(nat list \<Rightarrow> nat list \<Rightarrow> int) \<Rightarrow> nat list \<Rightarrow> nat \<Rightarrow> avl_heap \<Rightarrow> int res" where
  "slow_cmp c k n s = bind_res (elem_of_node n s) (\<lambda>e. Inr (c k (elems s e)))"

text \<open>The swings get the node that the pointer points to and return the one it points to then.\<close>

definition avl_swl :: "nat \<Rightarrow> avl_heap \<Rightarrow> (nat \<times> avl_heap) res" where
  "avl_swl a s =
     bind_res (get_node a s) (\<lambda>x. let b = a_right x in
     bind_res (get_node b s) (\<lambda>y.
     bind_res (set_node a (\<lambda>x. x\<lparr>a_right := a_left y\<rparr>) s) (\<lambda>s1.
     bind_res (set_node b (\<lambda>y. y\<lparr>a_left := a\<rparr>) s1) (\<lambda>s2. Inr (b, s2)))))"

definition avl_swr :: "nat \<Rightarrow> avl_heap \<Rightarrow> (nat \<times> avl_heap) res" where
  "avl_swr a s =
     bind_res (get_node a s) (\<lambda>x. let b = a_left x in
     bind_res (get_node b s) (\<lambda>y.
     bind_res (set_node a (\<lambda>x. x\<lparr>a_left := a_right y\<rparr>) s) (\<lambda>s1.
     bind_res (set_node b (\<lambda>y. y\<lparr>a_right := a\<rparr>) s1) (\<lambda>s2. Inr (b, s2)))))"

definition set_balance :: "nat \<Rightarrow> int \<Rightarrow> avl_heap \<Rightarrow> avl_heap res" where
  "set_balance p b s = set_node p (\<lambda>x. x\<lparr>a_balance := b\<rparr>) s"

definition avl_nasty :: "nat \<Rightarrow> avl_heap \<Rightarrow> avl_heap res" where
  "avl_nasty root s =
     bind_res (get_node root s) (\<lambda>x.
     bind_res
       (if a_balance x = - 1 then
          bind_res (set_balance (a_left x) 0 s) (\<lambda>s1. set_balance (a_right x) 1 s1)
        else if a_balance x = 1 then
          bind_res (set_balance (a_left x) (- 1) s) (\<lambda>s1. set_balance (a_right x) 0 s1)
        else if a_balance x = 0 then
          bind_res (set_balance (a_left x) 0 s) (\<lambda>s1. set_balance (a_right x) 0 s1)
        else Inr s)
       (\<lambda>s2. set_balance root 0 s2))"

text \<open>The sequences of swings over two levels, which insertion and deletion share.\<close>

definition swing_left_right :: "nat \<Rightarrow> avl_heap \<Rightarrow> (nat \<times> avl_heap) res" where
  "swing_left_right root s =
     bind_res (get_node root s) (\<lambda>x.
     bind_res (avl_swl (a_left x) s) (\<lambda>(p, s1).
     bind_res (set_node root (\<lambda>x. x\<lparr>a_left := p\<rparr>) s1) (\<lambda>s2.
     bind_res (avl_swr root s2) (\<lambda>(r, s3).
     bind_res (avl_nasty r s3) (\<lambda>s4. Inr (r, s4))))))"

definition swing_right_left :: "nat \<Rightarrow> avl_heap \<Rightarrow> (nat \<times> avl_heap) res" where
  "swing_right_left root s =
     bind_res (get_node root s) (\<lambda>x.
     bind_res (avl_swr (a_right x) s) (\<lambda>(p, s1).
     bind_res (set_node root (\<lambda>x. x\<lparr>a_right := p\<rparr>) s1) (\<lambda>s2.
     bind_res (avl_swl root s2) (\<lambda>(r, s3).
     bind_res (avl_nasty r s3) (\<lambda>s4. Inr (r, s4))))))"

text \<open>A single swing, with the balances of the new root and of the old one.\<close>

definition swing_right :: "nat \<Rightarrow> int \<Rightarrow> int \<Rightarrow> avl_heap \<Rightarrow> (nat \<times> avl_heap) res" where
  "swing_right root b c s =
     bind_res (avl_swr root s) (\<lambda>(r, s1).
     bind_res (set_balance r b s1) (\<lambda>s2.
     bind_res (get_node r s2) (\<lambda>x.
     bind_res (set_balance (a_right x) c s2) (\<lambda>s3. Inr (r, s3)))))"

definition swing_left :: "nat \<Rightarrow> int \<Rightarrow> int \<Rightarrow> avl_heap \<Rightarrow> (nat \<times> avl_heap) res" where
  "swing_left root b c s =
     bind_res (avl_swl root s) (\<lambda>(r, s1).
     bind_res (set_balance r b s1) (\<lambda>s2.
     bind_res (get_node r s2) (\<lambda>x.
     bind_res (set_balance (a_left x) c s2) (\<lambda>s3. Inr (r, s3)))))"

definition stackClear :: "oset \<Rightarrow> oset" where
  "stackClear t = t\<lparr>nodeStack := replicate STACK_MAX 0, numStack := replicate STACK_MAX 0, stackTop := 0\<rparr>"

definition stackPush :: "nat \<Rightarrow> nat \<Rightarrow> oset \<Rightarrow> oset res" where
  "stackPush n i t =
     (if \<not> stackTop t < STACK_MAX \<or> \<not> (1 \<le> i \<and> i \<le> 3) then Inl Abort
      else Inr (t\<lparr>nodeStack := (nodeStack t)[stackTop t := n], numStack := (numStack t)[stackTop t := i],
                  stackTop := stackTop t + 1\<rparr>))"

definition stackPop :: "oset \<Rightarrow> ((nat \<times> nat) option \<times> oset) res" where
  "stackPop t =
     (if \<not> stackTop t \<le> STACK_MAX then Inl Abort
      else if stackTop t > 0 then
        let top = stackTop t - 1; n = nodeStack t ! top; i = numStack t ! top in
        if \<not> (1 \<le> i \<and> i \<le> 3) then Inl Abort
        else Inr (Some (n, i), t\<lparr>nodeStack := (nodeStack t)[top := 0], numStack := (numStack t)[top := 0],
                                 stackTop := top\<rparr>)
      else Inr (None, t))"

section \<open>Creation\<close>

definition OSetGen_Create :: "nat \<Rightarrow> oset_cmp \<Rightarrow> oset res" where
  "OSetGen_Create off c =
     (if c = None \<and> off \<noteq> 0 then Inl Abort
      else Inr (stackClear \<lparr>keyOff = off, o_cmp = c, node_pa = False, maxEltSize = 0,
        nElems = 0, o_root = 0, nodeStack = [], numStack = [], stackTop = 0\<rparr>))"

text \<open>A set whose nodes come from a pool of its own: the set and the pool.\<close>

definition VG_ROUNDUP :: "nat \<Rightarrow> nat \<Rightarrow> nat" where
  "VG_ROUNDUP p a = u64 (p + a - 1) - u64 (p + a - 1) mod a"

definition OSetGen_Create_With_Pool :: "nat \<Rightarrow> oset_cmp \<Rightarrow> nat \<Rightarrow> nat \<Rightarrow> (nat \<Rightarrow> nat) \<Rightarrow> (oset \<times> pool_alloc) res" where
  "OSetGen_Create_With_Pool off c poolSize eltSize words =
     bind_res (OSetGen_Create off c) (\<lambda>t.
     if \<not> poolSize > 0 \<or> \<not> eltSize > 0 then Inl Abort
     else
       bind_res (newPA (u64 (sizeof_AvlNode + VG_ROUNDUP eltSize 8)) poolSize words) (\<lambda>pa.
       Inr (t\<lparr>node_pa := True, maxEltSize := eltSize\<rparr>, addRefPA pa)))"

text \<open>The pool, if there is one, gets another user.\<close>

definition OSetGen_EmptyClone :: "oset \<Rightarrow> pool_alloc \<Rightarrow> oset \<times> pool_alloc" where
  "OSetGen_EmptyClone os pa =
     (stackClear \<lparr>keyOff = keyOff os, o_cmp = o_cmp os, node_pa = node_pa os, maxEltSize = maxEltSize os,
        nElems = 0, o_root = 0, nodeStack = [], numStack = [], stackTop = 0\<rparr>,
      if node_pa os then addRefPA pa else pa)"

definition OSetWord_Create :: "oset res" where
  "OSetWord_Create = OSetGen_Create 0 None"

text \<open>A node at \<open>n\<close> with an element of \<open>w\<close> words.\<close>

definition OSetGen_AllocNode :: "oset \<Rightarrow> nat \<Rightarrow> nat \<Rightarrow> avl_heap \<Rightarrow> (nat \<times> avl_heap) res" where
  "OSetGen_AllocNode t n w s =
     (if \<not> w > 0 \<or> node_pa t \<and> \<not> 8 * w \<le> maxEltSize t then Inl Abort
      else
        let s1 = s\<lparr>elems := (elems s)(elem_of_node_no_check n := replicate w 0)\<rparr> in
        bind_res (set_node n (\<lambda>_. \<lparr>a_left = 0, a_right = 0, a_balance = 0, a_magic = OSET_MAGIC\<rparr>) s1) (\<lambda>s2.
        bind_res (elem_of_node n s2) (\<lambda>e. Inr (e, s2))))"

section \<open>Insertion\<close>

definition cmp_key_root :: "nat \<Rightarrow> oset_cmp \<Rightarrow> nat \<Rightarrow> nat \<Rightarrow> avl_heap \<Rightarrow> int res" where
  "cmp_key_root off c root n s =
     (case c of
        Some f \<Rightarrow> bind_res (slow_key_of_node off n s) (\<lambda>k. slow_cmp f k root s)
      | None \<Rightarrow> bind_res (fast_key_of_node n s) (\<lambda>k. fast_cmp k root s))"

text \<open>The cases after the left or the right subtree has grown; the flag says whether the tree has.\<close>

definition left_grown :: "nat \<Rightarrow> avl_heap \<Rightarrow> (bool \<times> nat \<times> avl_heap) res" where
  "left_grown root s =
     bind_res (get_node root s) (\<lambda>x. let b = a_balance x in
     bind_res (set_balance root (b - 1) s) (\<lambda>s1.
     if b = 1 then Inr (False, root, s1)
     else if b = 0 then Inr (True, root, s1)
     else
       bind_res (get_node (a_left x) s1) (\<lambda>l.
       bind_res (if a_balance l < 0 then swing_right root 0 0 s1 else swing_left_right root s1) (\<lambda>(r, s2).
       Inr (False, r, s2)))))"

definition right_grown :: "nat \<Rightarrow> avl_heap \<Rightarrow> (bool \<times> nat \<times> avl_heap) res" where
  "right_grown root s =
     bind_res (get_node root s) (\<lambda>x. let b = a_balance x in
     bind_res (set_balance root (b + 1) s) (\<lambda>s1.
     if b = - 1 then Inr (False, root, s1)
     else if b = 0 then Inr (True, root, s1)
     else
       bind_res (get_node (a_right x) s1) (\<lambda>r.
       bind_res (if a_balance r > 0 then swing_left root 0 0 s1 else swing_right_left root s1) (\<lambda>(r, s2).
       Inr (False, r, s2)))))"

function avl_insert :: "nat \<Rightarrow> nat \<Rightarrow> oset_cmp \<Rightarrow> nat \<Rightarrow> nat \<Rightarrow> avl_heap \<Rightarrow> (bool \<times> nat \<times> avl_heap) res" where
  "avl_insert fuel off c root n s =
     (if fuel = 0 then Inl Diverge
      else
        bind_res (cmp_key_root off c root n s) (\<lambda>cmpres.
        bind_res (get_node root s) (\<lambda>x.
        if cmpres < 0 then
          if a_left x \<noteq> 0 then
            bind_res (avl_insert (fuel - 1) off c (a_left x) n s) (\<lambda>(grown, p, s1).
            if grown then left_grown root s1
            else bind_res (set_node root (\<lambda>x. x\<lparr>a_left := p\<rparr>) s1) (\<lambda>s2. Inr (False, root, s2)))
          else
            bind_res (set_node root (\<lambda>x. x\<lparr>a_left := n, a_balance := a_balance x - 1\<rparr>) s) (\<lambda>s1.
            Inr (a_balance x = 0, root, s1))
        else if cmpres > 0 then
          if a_right x \<noteq> 0 then
            bind_res (avl_insert (fuel - 1) off c (a_right x) n s) (\<lambda>(grown, p, s1).
            if grown then right_grown root s1
            else bind_res (set_node root (\<lambda>x. x\<lparr>a_right := p\<rparr>) s1) (\<lambda>s2. Inr (False, root, s2)))
          else
            bind_res (set_node root (\<lambda>x. x\<lparr>a_right := n, a_balance := a_balance x + 1\<rparr>) s) (\<lambda>s1.
            Inr (a_balance x = 0, root, s1))
        else Inl Abort)))"
  by pat_completeness auto
termination by (relation "measure (\<lambda>(fuel, _). fuel)") auto

declare avl_insert.simps [simp del]

definition OSetGen_Insert :: "nat \<Rightarrow> oset \<Rightarrow> avl_heap \<Rightarrow> (oset \<times> avl_heap) res" where
  "OSetGen_Insert e t s =
     bind_res (node_of_elem e s) (\<lambda>n.
     bind_res (set_node n (\<lambda>x. x\<lparr>a_left := 0, a_right := 0, a_balance := 0\<rparr>) s) (\<lambda>s1.
     bind_res (if o_root t = 0 then Inr (n, s1)
               else bind_res (avl_insert list_fuel (keyOff t) (o_cmp t) (o_root t) n s1) (\<lambda>(g, r, s2). Inr (r, s2)))
       (\<lambda>(r, s2). Inr (t\<lparr>o_root := r, nElems := nElems t + 1, stackTop := 0\<rparr>, s2))))"

definition OSetWord_Insert :: "nat \<Rightarrow> nat \<Rightarrow> oset \<Rightarrow> avl_heap \<Rightarrow> (oset \<times> avl_heap) res" where
  "OSetWord_Insert n val t s =
     bind_res (OSetGen_AllocNode t n 1 s) (\<lambda>(e, s1).
     OSetGen_Insert e t (s1\<lparr>elems := (elems s1)(e := [val])\<rparr>))"

section \<open>Lookup\<close>

function slow_lookup :: "nat \<Rightarrow> (nat list \<Rightarrow> nat list \<Rightarrow> int) \<Rightarrow> nat list \<Rightarrow> nat \<Rightarrow> avl_heap \<Rightarrow> nat res" where
  "slow_lookup fuel c k cur s =
     (if cur = 0 then Inr 0
      else if fuel = 0 then Inl Diverge
      else
        bind_res (slow_cmp c k cur s) (\<lambda>cmpres.
        bind_res (get_node cur s) (\<lambda>x.
        if cmpres < 0 then slow_lookup (fuel - 1) c k (a_left x) s
        else if cmpres > 0 then slow_lookup (fuel - 1) c k (a_right x) s
        else Inr cur)))"
  by pat_completeness auto
termination by (relation "measure (\<lambda>(fuel, _). fuel)") auto

function fast_lookup :: "nat \<Rightarrow> nat \<Rightarrow> nat \<Rightarrow> avl_heap \<Rightarrow> nat res" where
  "fast_lookup fuel w1 cur s =
     (if cur = 0 then Inr 0
      else if fuel = 0 then Inl Diverge
      else
        bind_res (first_word (elems s (elem_of_node_no_check cur))) (\<lambda>w2.
        bind_res (get_node cur s) (\<lambda>x.
        if w1 < w2 then fast_lookup (fuel - 1) w1 (a_left x) s
        else if w1 > w2 then fast_lookup (fuel - 1) w1 (a_right x) s
        else Inr cur)))"
  by pat_completeness auto
termination by (relation "measure (\<lambda>(fuel, _). fuel)") auto

declare slow_lookup.simps [simp del] fast_lookup.simps [simp del]

definition avl_lookup :: "oset \<Rightarrow> nat list \<Rightarrow> avl_heap \<Rightarrow> nat res" where
  "avl_lookup t k s =
     (case o_cmp t of
        Some c \<Rightarrow> slow_lookup list_fuel c k (o_root t) s
      | None \<Rightarrow> bind_res (first_word k) (\<lambda>w1. fast_lookup list_fuel w1 (o_root t) s))"

definition OSetGen_Lookup :: "oset \<Rightarrow> nat list \<Rightarrow> avl_heap \<Rightarrow> nat res" where
  "OSetGen_Lookup t k s =
     bind_res (avl_lookup t k s) (\<lambda>n. if n \<noteq> 0 then elem_of_node n s else Inr 0)"

definition OSetGen_LookupWithCmp :: "oset \<Rightarrow> nat list \<Rightarrow> oset_cmp \<Rightarrow> avl_heap \<Rightarrow> nat res" where
  "OSetGen_LookupWithCmp t k c s = OSetGen_Lookup (t\<lparr>o_cmp := c\<rparr>) k s"

definition OSetGen_Contains :: "oset \<Rightarrow> nat list \<Rightarrow> avl_heap \<Rightarrow> bool res" where
  "OSetGen_Contains t k s = bind_res (OSetGen_Lookup t k s) (\<lambda>e. Inr (e \<noteq> 0))"

definition OSetWord_Contains :: "oset \<Rightarrow> nat \<Rightarrow> avl_heap \<Rightarrow> bool res" where
  "OSetWord_Contains t val s = bind_res (OSetGen_Lookup t [val] s) (\<lambda>e. Inr (e \<noteq> 0))"

section \<open>Deletion\<close>

text \<open>The cases after a subtree has shrunk; the flag says whether the tree has.\<close>

definition left_shrunk :: "nat \<Rightarrow> avl_heap \<Rightarrow> (bool \<times> nat \<times> avl_heap) res" where
  "left_shrunk root s =
     bind_res (get_node root s) (\<lambda>x. let b = a_balance x in
     bind_res (set_balance root (b + 1) s) (\<lambda>s1.
     if b = - 1 then Inr (True, root, s1)
     else if b = 0 then Inr (False, root, s1)
     else
       bind_res (get_node (a_right x) s1) (\<lambda>y.
       if a_balance y = 0 then bind_res (swing_left root (- 1) 1 s1) (\<lambda>(r, s2). Inr (False, r, s2))
       else if a_balance y = 1 then bind_res (swing_left root 0 0 s1) (\<lambda>(r, s2). Inr (True, r, s2))
       else bind_res (swing_right_left root s1) (\<lambda>(r, s2). Inr (True, r, s2)))))"

definition right_shrunk :: "nat \<Rightarrow> avl_heap \<Rightarrow> (bool \<times> nat \<times> avl_heap) res" where
  "right_shrunk root s =
     bind_res (get_node root s) (\<lambda>x. let b = a_balance x in
     bind_res (set_balance root (b - 1) s) (\<lambda>s1.
     if b = 1 then Inr (True, root, s1)
     else if b = 0 then Inr (False, root, s1)
     else
       bind_res (get_node (a_left x) s1) (\<lambda>y.
       if a_balance y = 0 then bind_res (swing_right root 1 (- 1) s1) (\<lambda>(r, s2). Inr (False, r, s2))
       else if a_balance y = - 1 then bind_res (swing_right root 0 0 s1) (\<lambda>(r, s2). Inr (True, r, s2))
       else bind_res (swing_left_right root s1) (\<lambda>(r, s2). Inr (True, r, s2)))))"

text \<open>The last node to the right, or to the left.\<close>

function rightmost :: "nat \<Rightarrow> nat \<Rightarrow> avl_heap \<Rightarrow> nat res" where
  "rightmost fuel n s =
     bind_res (get_node n s) (\<lambda>x.
     if a_right x = 0 then Inr n
     else if fuel = 0 then Inl Diverge
     else rightmost (fuel - 1) (a_right x) s)"
  by pat_completeness auto
termination by (relation "measure (\<lambda>(fuel, _). fuel)") auto

function leftmost :: "nat \<Rightarrow> nat \<Rightarrow> avl_heap \<Rightarrow> nat res" where
  "leftmost fuel n s =
     bind_res (get_node n s) (\<lambda>x.
     if a_left x = 0 then Inr n
     else if fuel = 0 then Inl Diverge
     else leftmost (fuel - 1) (a_left x) s)"
  by pat_completeness auto
termination by (relation "measure (\<lambda>(fuel, _). fuel)") auto

function
  avl_remove :: "nat \<Rightarrow> nat \<Rightarrow> oset_cmp \<Rightarrow> nat \<Rightarrow> nat \<Rightarrow> avl_heap \<Rightarrow> (bool \<times> nat \<times> avl_heap) res" and
  avl_removeroot :: "nat \<Rightarrow> nat \<Rightarrow> oset_cmp \<Rightarrow> nat \<Rightarrow> avl_heap \<Rightarrow> (bool \<times> nat \<times> avl_heap) res"
where
  "avl_remove fuel off c root n s =
     (if fuel = 0 then Inl Diverge
      else
        bind_res (cmp_key_root off c root n s) (\<lambda>cmpres.
        bind_res (get_node root s) (\<lambda>x.
        if cmpres < 0 then
          if a_left x = 0 then Inl Abort
          else
            bind_res (avl_remove (fuel - 1) off c (a_left x) n s) (\<lambda>(ch, p, s1).
            bind_res (set_node root (\<lambda>x. x\<lparr>a_left := p\<rparr>) s1) (\<lambda>s2.
            if ch then left_shrunk root s2 else Inr (False, root, s2)))
        else if cmpres > 0 then
          if a_right x = 0 then Inl Abort
          else
            bind_res (avl_remove (fuel - 1) off c (a_right x) n s) (\<lambda>(ch, p, s1).
            bind_res (set_node root (\<lambda>x. x\<lparr>a_right := p\<rparr>) s1) (\<lambda>s2.
            if ch then right_shrunk root s2 else Inr (False, root, s2)))
        else if root \<noteq> n then Inl Abort
        else avl_removeroot (fuel - 1) off c root s)))"
| "avl_removeroot fuel off c root s =
     (if fuel = 0 then Inl Diverge
      else
        bind_res (get_node root s) (\<lambda>x.
        if a_left x = 0 then Inr (True, if a_right x = 0 then 0 else a_right x, s)
        else if a_right x = 0 then Inr (True, a_left x, s)
        else
          bind_res (if a_balance x < 0 then rightmost list_fuel (a_left x) s
                    else leftmost list_fuel (a_right x) s) (\<lambda>n.
          bind_res (avl_remove (fuel - 1) off c root n s) (\<lambda>(ch, r, s1).
          bind_res (get_node r s1) (\<lambda>y.
          bind_res (set_node n (\<lambda>z. z\<lparr>a_left := a_left y, a_right := a_right y, a_balance := a_balance y\<rparr>) s1) (\<lambda>s2.
          Inr (if a_balance y = 0 then ch else False, n, s2)))))))"
  by pat_completeness auto
termination by (relation "measure (\<lambda>x. case x of Inl (fuel, _) \<Rightarrow> fuel | Inr (fuel, _) \<Rightarrow> fuel)") auto

declare rightmost.simps [simp del] leftmost.simps [simp del] avl_remove.simps [simp del] avl_removeroot.simps [simp del]

definition OSetGen_Remove :: "nat list \<Rightarrow> oset \<Rightarrow> avl_heap \<Rightarrow> (nat \<times> oset \<times> avl_heap) res" where
  "OSetGen_Remove k t s =
     bind_res (avl_lookup t k s) (\<lambda>n.
     if n \<noteq> 0 then
       bind_res (avl_remove list_fuel (keyOff t) (o_cmp t) (o_root t) n s) (\<lambda>(ch, r, s1).
       bind_res (elem_of_node n s1) (\<lambda>e.
       Inr (e, t\<lparr>o_root := r, nElems := nElems t - 1, stackTop := 0\<rparr>, s1)))
     else Inr (0, t, s))"

text \<open>The node that \<open>OSetGen_FreeNode\<close> gives back.\<close>

definition OSetGen_FreeNode :: "nat \<Rightarrow> avl_heap \<Rightarrow> nat res" where
  "OSetGen_FreeNode e s = node_of_elem e s"

definition OSetWord_Remove :: "nat \<Rightarrow> oset \<Rightarrow> avl_heap \<Rightarrow> (bool \<times> oset \<times> avl_heap) res" where
  "OSetWord_Remove val t s =
     bind_res (OSetGen_Remove [val] t s) (\<lambda>(e, t1, s1).
     if e \<noteq> 0 then bind_res (OSetGen_FreeNode e s1) (\<lambda>n. Inr (True, t1, s1)) else Inr (False, t1, s1))"

section \<open>Iteration\<close>

definition OSetGen_ResetIter :: "oset \<Rightarrow> oset res" where
  "OSetGen_ResetIter t =
     (if o_root t \<noteq> 0 then stackPush (o_root t) 1 (stackClear t) else Inr (stackClear t))"

text \<open>The jumps to \<open>case_1\<close>: down to the left, pushing the nodes.\<close>

function push_left :: "nat \<Rightarrow> nat \<Rightarrow> oset \<Rightarrow> avl_heap \<Rightarrow> oset res" where
  "push_left fuel n t s =
     (if fuel = 0 then Inl Diverge
      else
        bind_res (stackPush n 2 t) (\<lambda>t1.
        bind_res (get_node n s) (\<lambda>x.
        if a_left x \<noteq> 0 then push_left (fuel - 1) (a_left x) t1 s else Inr t1)))"
  by pat_completeness auto
termination by (relation "measure (\<lambda>(fuel, _). fuel)") auto

function next_loop :: "nat \<Rightarrow> oset \<Rightarrow> avl_heap \<Rightarrow> (nat \<times> oset) res" where
  "next_loop fuel t s =
     (if fuel = 0 then Inl Diverge
      else
        bind_res (stackPop t) (\<lambda>(r, t1).
        case r of
          None \<Rightarrow> Inr (0, t1)
        | Some (n, i) \<Rightarrow>
            if i = 1 then bind_res (push_left list_fuel n t1 s) (\<lambda>t2. next_loop (fuel - 1) t2 s)
            else if i = 2 then
              bind_res (stackPush n 3 t1) (\<lambda>t2. bind_res (elem_of_node n s) (\<lambda>e. Inr (e, t2)))
            else
              bind_res (get_node n s) (\<lambda>x.
              bind_res (if a_right x \<noteq> 0 then push_left list_fuel (a_right x) t1 s else Inr t1) (\<lambda>t2.
              next_loop (fuel - 1) t2 s))))"
  by pat_completeness auto
termination by (relation "measure (\<lambda>(fuel, _). fuel)") auto

declare push_left.simps [simp del] next_loop.simps [simp del]

definition OSetGen_Next :: "oset \<Rightarrow> avl_heap \<Rightarrow> (nat \<times> oset) res" where
  "OSetGen_Next t s = next_loop list_fuel t s"

text \<open>The word, if there is a next one.\<close>

definition OSetWord_Next :: "oset \<Rightarrow> avl_heap \<Rightarrow> (nat option \<times> oset) res" where
  "OSetWord_Next t s =
     bind_res (OSetGen_Next t s) (\<lambda>(e, t1).
     if e \<noteq> 0 then bind_res (first_word (elems s e)) (\<lambda>w. Inr (Some w, t1)) else Inr (None, t1))"

text \<open>The search that fills the stack; the statements behind the loop are never reached.\<close>

function reset_at :: "nat \<Rightarrow> oset_cmp \<Rightarrow> nat list \<Rightarrow> nat \<Rightarrow> oset \<Rightarrow> avl_heap \<Rightarrow> oset res" where
  "reset_at fuel c k p t s =
     (if p = 0 then Inr t
      else if fuel = 0 then Inl Diverge
      else
        bind_res (case c of Some f \<Rightarrow> slow_cmp f k p s | None \<Rightarrow> fast_cmp k p s) (\<lambda>cmpres.
        if cmpres = 0 then stackPush p 2 t
        else
          bind_res (get_node p s) (\<lambda>x.
          if cmpres < 0 then bind_res (stackPush p 2 t) (\<lambda>t1. reset_at (fuel - 1) c k (a_left x) t1 s)
          else reset_at (fuel - 1) c k (a_right x) t s)))"
  by pat_completeness auto
termination by (relation "measure (\<lambda>(fuel, _). fuel)") auto

declare reset_at.simps [simp del]

definition OSetGen_ResetIterAt :: "nat list \<Rightarrow> oset \<Rightarrow> avl_heap \<Rightarrow> oset res" where
  "OSetGen_ResetIterAt k t s =
     (if o_root t = 0 then Inr (stackClear t)
      else reset_at list_fuel (o_cmp t) k (o_root t) (stackClear t) s)"

section \<open>Size and destruction\<close>

definition OSetGen_Size :: "oset \<Rightarrow> int" where
  "OSetGen_Size t = nElems t"

text \<open>The nodes that are freed one by one, in order.\<close>

function destroy_loop :: "nat \<Rightarrow> oset \<Rightarrow> avl_heap \<Rightarrow> nat list res" where
  "destroy_loop fuel t s =
     (if fuel = 0 then Inl Diverge
      else
        bind_res (stackPop t) (\<lambda>(r, t1).
        case r of
          None \<Rightarrow> Inr []
        | Some (n, i) \<Rightarrow>
            if i = 1 then
              bind_res (stackPush n 2 t1) (\<lambda>t2.
              bind_res (get_node n s) (\<lambda>x.
              bind_res (if a_left x \<noteq> 0 then stackPush (a_left x) 1 t2 else Inr t2) (\<lambda>t3.
              destroy_loop (fuel - 1) t3 s)))
            else if i = 2 then
              bind_res (stackPush n 3 t1) (\<lambda>t2.
              bind_res (get_node n s) (\<lambda>x.
              bind_res (if a_right x \<noteq> 0 then stackPush (a_right x) 1 t2 else Inr t2) (\<lambda>t3.
              destroy_loop (fuel - 1) t3 s)))
            else bind_res (destroy_loop (fuel - 1) t1 s) (\<lambda>ns. Inr (n # ns))))"
  by pat_completeness auto
termination by (relation "measure (\<lambda>(fuel, _). fuel)") auto

declare destroy_loop.simps [simp del]

text \<open>
  \<open>users\<close> is what \<open>VG_(releasePA)\<close> returns when the nodes come from a pool: without other users
  the pool ends as a whole, and no node is freed. The nodes go to the pool or to the free function.
\<close>

definition OSetGen_Destroy :: "nat \<Rightarrow> oset \<Rightarrow> avl_heap \<Rightarrow> nat list res" where
  "OSetGen_Destroy users t s =
     (if \<not> node_pa t \<or> users > 0 then
        bind_res (OSetGen_ResetIter t) (\<lambda>t1.
        bind_res (destroy_loop list_fuel t1 s) (\<lambda>ns.
        if int (length ns) = nElems t then Inr ns else Inl Abort))
      else Inr [])"

end
