(* ===== verification/Vg_Avl.thy ===== *)
theory Vg_Avl
  imports Vg_Oset "HOL-Library.Tree"
begin

text \<open>
  AVL trees in memory: a tree of node addresses that the pointers from the root describe, with the
  balance of each node; what the swings do to it, and what insertion and lookup do.
\<close>

section \<open>Trees in memory\<close>

fun tree_in :: "(nat \<Rightarrow> avl_node) \<Rightarrow> nat \<Rightarrow> nat tree \<Rightarrow> bool" where
  "tree_in f p \<langle>\<rangle> \<longleftrightarrow> p = 0"
| "tree_in f p \<langle>l, x, r\<rangle> \<longleftrightarrow>
     p = x \<and> x \<noteq> 0 \<and> a_magic (f x) = OSET_MAGIC \<and> a_balance (f x) = int (height r) - int (height l)
     \<and> tree_in f (a_left (f x)) l \<and> tree_in f (a_right (f x)) r"

fun balanced :: "nat tree \<Rightarrow> bool" where
  "balanced \<langle>\<rangle> \<longleftrightarrow> True"
| "balanced \<langle>l, x, r\<rangle> \<longleftrightarrow> balanced l \<and> balanced r \<and> height l \<le> height r + 1 \<and> height r \<le> height l + 1"

lemma tree_in_upd [simp]: "a \<notin> set_tree t \<Longrightarrow> tree_in (f(a := v)) p t = tree_in f p t"
  by (induction t arbitrary: p) auto

lemma tree_in_cong: "(\<And>x. x \<in> set_tree t \<Longrightarrow> f x = g x) \<Longrightarrow> tree_in f p t = tree_in g p t"
  by (induction t arbitrary: p) auto

lemma tree_in_null [simp]: "tree_in f 0 t \<longleftrightarrow> t = \<langle>\<rangle>"
  by (cases t) auto

lemma tree_in_node: "tree_in f p t \<Longrightarrow> p \<noteq> 0 \<Longrightarrow> \<exists>l r. t = \<langle>l, p, r\<rangle>"
  by (cases t) auto

lemma tree_in_Leaf: "tree_in f p t \<Longrightarrow> t = \<langle>\<rangle> \<longleftrightarrow> p = 0"
  by (cases t) auto

lemma tree_in_nonnull: "tree_in f p t \<Longrightarrow> x \<in> set_tree t \<Longrightarrow> x \<noteq> 0 \<and> a_magic (f x) = OSET_MAGIC"
  by (induction t arbitrary: p) auto

text \<open>Nothing is written outside of the nodes \<open>A\<close>, and no magic value.\<close>

definition writes_only :: "nat set \<Rightarrow> avl_heap \<Rightarrow> avl_heap \<Rightarrow> bool" where
  "writes_only A s s' \<longleftrightarrow>
     elems s' = elems s \<and> (\<forall>a. a \<notin> A \<longrightarrow> avl s' a = avl s a) \<and> (\<forall>a. a_magic (avl s' a) = a_magic (avl s a))"

lemma writes_only_refl [simp]: "writes_only A s s"
  by (simp add: writes_only_def)

lemma writes_only_trans: "writes_only A s s1 \<Longrightarrow> writes_only B s1 s2 \<Longrightarrow> A \<union> B \<subseteq> C \<Longrightarrow> writes_only C s s2"
  unfolding writes_only_def subset_iff by (metis UnI1 UnI2)

lemma writes_only_mono: "writes_only A s s' \<Longrightarrow> A \<subseteq> B \<Longrightarrow> writes_only B s s'"
  by (auto simp: writes_only_def)

lemma writes_only_tree: "writes_only A s s' \<Longrightarrow> A \<inter> set_tree t = {} \<Longrightarrow> tree_in (avl s') p t = tree_in (avl s) p t"
  by (rule tree_in_cong) (auto simp: writes_only_def)

section \<open>Swings\<close>

lemma swing_right_tree:
  assumes "a_left (avl s x) = y" and "x \<noteq> 0" "y \<noteq> 0" "x \<noteq> y"
    and "a_magic (avl s x) = OSET_MAGIC" "a_magic (avl s y) = OSET_MAGIC"
    and "tree_in (avl s) (a_left (avl s y)) A" "tree_in (avl s) (a_right (avl s y)) B"
      "tree_in (avl s) (a_right (avl s x)) C"
    and "x \<notin> set_tree A \<union> set_tree B \<union> set_tree C" "y \<notin> set_tree A \<union> set_tree B \<union> set_tree C"
    and "c = int (height C) - int (height B)" "b = int (max (height B) (height C) + 1) - int (height A)"
  shows "\<exists>s'. swing_right x b c s = Inr (y, s') \<and> tree_in (avl s') y \<langle>A, y, \<langle>B, x, C\<rangle>\<rangle>
    \<and> writes_only {x, y} s s'"
  using assms by (simp add: swing_right_def avl_swr_def set_balance_def Let_def writes_only_def)

lemma swing_left_tree:
  assumes "a_right (avl s x) = y" and "x \<noteq> 0" "y \<noteq> 0" "x \<noteq> y"
    and "a_magic (avl s x) = OSET_MAGIC" "a_magic (avl s y) = OSET_MAGIC"
    and "tree_in (avl s) (a_left (avl s x)) A" "tree_in (avl s) (a_left (avl s y)) B"
      "tree_in (avl s) (a_right (avl s y)) C"
    and "x \<notin> set_tree A \<union> set_tree B \<union> set_tree C" "y \<notin> set_tree A \<union> set_tree B \<union> set_tree C"
    and "c = int (height B) - int (height A)" "b = int (height C) - int (max (height A) (height B) + 1)"
  shows "\<exists>s'. swing_left x b c s = Inr (y, s') \<and> tree_in (avl s') y \<langle>\<langle>A, x, B\<rangle>, y, C\<rangle>
    \<and> writes_only {x, y} s s'"
  using assms by (simp add: swing_left_def avl_swl_def set_balance_def Let_def writes_only_def)

lemma swing_left_right_tree:
  assumes "a_left (avl s x) = y" "a_right (avl s y) = z" and "x \<noteq> 0" "y \<noteq> 0" "z \<noteq> 0" "distinct [x, y, z]"
    and "\<And>a. a \<in> {x, y, z} \<Longrightarrow> a_magic (avl s a) = OSET_MAGIC"
    and t: "tree_in (avl s) (a_left (avl s y)) A" "tree_in (avl s) (a_left (avl s z)) B"
      "tree_in (avl s) (a_right (avl s z)) C" "tree_in (avl s) (a_right (avl s x)) D"
    and "{x, y, z} \<inter> (set_tree A \<union> set_tree B \<union> set_tree C \<union> set_tree D) = {}"
    and b: "a_balance (avl s z) = int (height C) - int (height B)" "height A = max (height B) (height C)"
      "height D = height A" "height C \<le> height B + 1" "height B \<le> height C + 1"
  shows "\<exists>s'. swing_left_right x s = Inr (z, s') \<and> tree_in (avl s') z \<langle>\<langle>A, y, B\<rangle>, z, \<langle>C, x, D\<rangle>\<rangle>
    \<and> writes_only {x, y, z} s s'"
proof -
  consider "height C = height B" | "height C = height B + 1" | "height B = height C + 1" using b(4,5) by linarith
  then show ?thesis
    using assms by cases (simp_all add: swing_left_right_def avl_swl_def avl_swr_def avl_nasty_def set_balance_def Let_def writes_only_def)
qed

lemma swing_right_left_tree:
  assumes "a_right (avl s x) = y" "a_left (avl s y) = z" and "x \<noteq> 0" "y \<noteq> 0" "z \<noteq> 0" "distinct [x, y, z]"
    and "\<And>a. a \<in> {x, y, z} \<Longrightarrow> a_magic (avl s a) = OSET_MAGIC"
    and t: "tree_in (avl s) (a_left (avl s x)) A" "tree_in (avl s) (a_left (avl s z)) B"
      "tree_in (avl s) (a_right (avl s z)) C" "tree_in (avl s) (a_right (avl s y)) D"
    and "{x, y, z} \<inter> (set_tree A \<union> set_tree B \<union> set_tree C \<union> set_tree D) = {}"
    and b: "a_balance (avl s z) = int (height C) - int (height B)" "height D = max (height B) (height C)"
      "height A = height D" "height C \<le> height B + 1" "height B \<le> height C + 1"
  shows "\<exists>s'. swing_right_left x s = Inr (z, s') \<and> tree_in (avl s') z \<langle>\<langle>A, x, B\<rangle>, z, \<langle>C, y, D\<rangle>\<rangle>
    \<and> writes_only {x, y, z} s s'"
proof -
  consider "height C = height B" | "height C = height B + 1" | "height B = height C + 1" using b(4,5) by linarith
  then show ?thesis
    using assms by cases (simp_all add: swing_right_left_def avl_swl_def avl_swr_def avl_nasty_def set_balance_def Let_def writes_only_def)
qed

section \<open>Growth\<close>

fun uneven :: "nat tree \<Rightarrow> bool" where
  "uneven \<langle>\<rangle> \<longleftrightarrow> False"
| "uneven \<langle>l, x, r\<rangle> \<longleftrightarrow> height l \<noteq> height r"

text \<open>
  An insertion turns a tree of height \<open>h\<close> into one with the nodes \<open>xs\<close>; when it has grown, its root
  has not moved.
\<close>

definition grows :: "avl_heap \<Rightarrow> nat set \<Rightarrow> nat \<Rightarrow> nat \<Rightarrow> nat list \<Rightarrow> (bool \<times> nat \<times> avl_heap) res \<Rightarrow> bool" where
  "grows s A root h xs res \<longleftrightarrow>
     (\<exists>g p s' T. res = Inr (g, p, s') \<and> tree_in (avl s') p T \<and> balanced T \<and> inorder T = xs
       \<and> height T = (if g then h + 1 else h) \<and> (g \<longrightarrow> p = root \<and> uneven T) \<and> writes_only A s s')"

lemma growsI:
  "res = Inr (g, p, s') \<Longrightarrow> tree_in (avl s') p T \<Longrightarrow> balanced T \<Longrightarrow> inorder T = xs \<Longrightarrow>
   height T = (if g then h + 1 else h) \<Longrightarrow> (g \<Longrightarrow> p = root \<and> uneven T) \<Longrightarrow> writes_only A s s' \<Longrightarrow> grows s A root h xs res"
  unfolding grows_def by blast

lemma growsE:
  assumes "grows s A root h xs res"
  obtains g p s' T where "res = Inr (g, p, s')" "tree_in (avl s') p T" "balanced T" "inorder T = xs"
    "height T = (if g then h + 1 else h)" "g \<Longrightarrow> p = root \<and> uneven T" "writes_only A s s'"
  using assms unfolding grows_def by blast

lemma left_grown_tree:
  assumes t: "tree_in (avl s) (a_left (avl s x)) L" "tree_in (avl s) (a_right (avl s x)) R" "balanced L" "balanced R"
    and x: "x \<noteq> 0" "a_magic (avl s x) = OSET_MAGIC" "a_balance (avl s x) = int (height R) - int (height L) + 1"
    and u: "uneven L" "height R \<le> height L" "height L \<le> height R + 2"
    and d: "distinct (inorder L @ x # inorder R)"
  shows "grows s (set_tree L \<union> {x} \<union> set_tree R) x (max (height L - 1) (height R) + 1)
    (inorder L @ x # inorder R) (left_grown x s)"
proof -
  obtain y L1 L2 where L: "L = \<langle>L1, y, L2\<rangle>" using u(1) by (cases L) auto
  have d': "x \<notin> set_tree L \<union> set_tree R" "distinct (inorder L)" "set_tree L \<inter> set_tree R = {}"
    using d by (auto simp flip: set_inorder)
  let ?s1 = "s\<lparr>avl := (avl s)(x := (avl s x)\<lparr>a_balance := a_balance (avl s x) - 1\<rparr>)\<rparr>"
  have w1: "writes_only {x} s ?s1" by (simp add: writes_only_def)
  consider "height L = height R" | "height L = height R + 1" | "height L = height R + 2" using u(2,3) by linarith
  then show ?thesis
  proof cases
    case 1
    then have b: "a_balance (avl s x) = 1" using x(3) by simp
    show ?thesis
      by (rule growsI [of _ False x ?s1 "\<langle>L, x, R\<rangle>"])
        (use b x t d' 1 in \<open>simp_all add: left_grown_def set_balance_def Let_def writes_only_def\<close>)
  next
    case 2
    then have b: "a_balance (avl s x) = 0" using x(3) by simp
    show ?thesis
      by (rule growsI [of _ True x ?s1 "\<langle>L, x, R\<rangle>"])
        (use b x t d' 2 in \<open>simp_all add: left_grown_def set_balance_def Let_def writes_only_def\<close>)
  next
    case 3
    then have b: "a_balance (avl s x) = - 1" using x(3) by simp
    have y: "a_left (avl s x) = y" "y \<noteq> 0" "y \<noteq> x" using t(1) d' by (auto simp: L)
    show ?thesis
    proof (cases "height L1 > height L2")
      case True
      have "\<exists>s'. swing_right x 0 0 ?s1 = Inr (y, s') \<and> tree_in (avl s') y \<langle>L1, y, \<langle>L2, x, R\<rangle>\<rangle> \<and> writes_only {x, y} ?s1 s'"
        by (rule swing_right_tree) (use x t y d' d u 3 True in \<open>auto simp: L simp flip: set_inorder\<close>)
      then obtain s' where w: "swing_right x 0 0 ?s1 = Inr (y, s')" "tree_in (avl s') y \<langle>L1, y, \<langle>L2, x, R\<rangle>\<rangle>"
        "writes_only {x, y} ?s1 s'" by blast
      show ?thesis
      proof (rule growsI [OF _ w(2)])
        show "left_grown x s = Inr (False, y, s')"
          using b x(1) y w(1) t(1) True by (simp add: left_grown_def set_balance_def Let_def L)
        show "writes_only (set_tree L \<union> {x} \<union> set_tree R) s s'"
          by (rule writes_only_trans [OF w1 w(3)]) (auto simp: L)
      qed (use t(3,4) 3 True in \<open>auto simp: L\<close>)
    next
      case False
      then have h: "height L2 = height L1 + 1" using u(1) t(3) by (simp add: L)
      then obtain z B C where L2: "L2 = \<langle>B, z, C\<rangle>" by (cases L2) auto
      have z: "a_right (avl s y) = z" "z \<noteq> 0" "z \<noteq> x" "z \<noteq> y" using t(1) d' by (auto simp: L L2 y)
      have "\<exists>s'. swing_left_right x ?s1 = Inr (z, s') \<and> tree_in (avl s') z \<langle>\<langle>L1, y, B\<rangle>, z, \<langle>C, x, R\<rangle>\<rangle> \<and> writes_only {x, y, z} ?s1 s'"
        by (rule swing_left_right_tree)
          (use x t y z d' h 3 in \<open>auto simp: L L2 simp flip: set_inorder\<close>)
      then obtain s' where w: "swing_left_right x ?s1 = Inr (z, s')"
        "tree_in (avl s') z \<langle>\<langle>L1, y, B\<rangle>, z, \<langle>C, x, R\<rangle>\<rangle>" "writes_only {x, y, z} ?s1 s'" by blast
      show ?thesis
      proof (rule growsI [OF _ w(2)])
        show "left_grown x s = Inr (False, z, s')"
          using b x(1) y w(1) t(1) h by (simp add: left_grown_def set_balance_def Let_def L)
        show "writes_only (set_tree L \<union> {x} \<union> set_tree R) s s'"
          by (rule writes_only_trans [OF w1 w(3)]) (auto simp: L L2)
      qed (use t(3,4) 3 h in \<open>auto simp: L L2\<close>)
    qed
  qed
qed

lemma right_grown_tree:
  assumes t: "tree_in (avl s) (a_left (avl s x)) L" "tree_in (avl s) (a_right (avl s x)) R" "balanced L" "balanced R"
    and x: "x \<noteq> 0" "a_magic (avl s x) = OSET_MAGIC" "a_balance (avl s x) = int (height R) - 1 - int (height L)"
    and u: "uneven R" "height L \<le> height R" "height R \<le> height L + 2"
    and d: "distinct (inorder L @ x # inorder R)"
  shows "grows s (set_tree L \<union> {x} \<union> set_tree R) x (max (height L) (height R - 1) + 1)
    (inorder L @ x # inorder R) (right_grown x s)"
proof -
  obtain y R1 R2 where R: "R = \<langle>R1, y, R2\<rangle>" using u(1) by (cases R) auto
  have d': "x \<notin> set_tree L \<union> set_tree R" "distinct (inorder R)" "set_tree L \<inter> set_tree R = {}"
    using d by (auto simp flip: set_inorder)
  let ?s1 = "s\<lparr>avl := (avl s)(x := (avl s x)\<lparr>a_balance := a_balance (avl s x) + 1\<rparr>)\<rparr>"
  have w1: "writes_only {x} s ?s1" by (simp add: writes_only_def)
  consider "height R = height L" | "height R = height L + 1" | "height R = height L + 2" using u(2,3) by linarith
  then show ?thesis
  proof cases
    case 1
    then have b: "a_balance (avl s x) = - 1" using x(3) by simp
    show ?thesis
      by (rule growsI [of _ False x ?s1 "\<langle>L, x, R\<rangle>"])
        (use b x t d' 1 in \<open>simp_all add: right_grown_def set_balance_def Let_def writes_only_def\<close>)
  next
    case 2
    then have b: "a_balance (avl s x) = 0" using x(3) by simp
    show ?thesis
      by (rule growsI [of _ True x ?s1 "\<langle>L, x, R\<rangle>"])
        (use b x t d' 2 in \<open>simp_all add: right_grown_def set_balance_def Let_def writes_only_def\<close>)
  next
    case 3
    then have b: "a_balance (avl s x) = 1" using x(3) by simp
    have y: "a_right (avl s x) = y" "y \<noteq> 0" "y \<noteq> x" using t(2) d' by (auto simp: R)
    show ?thesis
    proof (cases "height R2 > height R1")
      case True
      have "\<exists>s'. swing_left x 0 0 ?s1 = Inr (y, s') \<and> tree_in (avl s') y \<langle>\<langle>L, x, R1\<rangle>, y, R2\<rangle> \<and> writes_only {x, y} ?s1 s'"
        by (rule swing_left_tree) (use x t y d' d u 3 True in \<open>auto simp: R simp flip: set_inorder\<close>)
      then obtain s' where w: "swing_left x 0 0 ?s1 = Inr (y, s')" "tree_in (avl s') y \<langle>\<langle>L, x, R1\<rangle>, y, R2\<rangle>"
        "writes_only {x, y} ?s1 s'" by blast
      show ?thesis
      proof (rule growsI [OF _ w(2)])
        show "right_grown x s = Inr (False, y, s')"
          using b x(1) y w(1) t(2) True by (simp add: right_grown_def set_balance_def Let_def R)
        show "writes_only (set_tree L \<union> {x} \<union> set_tree R) s s'"
          by (rule writes_only_trans [OF w1 w(3)]) (auto simp: R)
      qed (use t(3,4) 3 True in \<open>auto simp: R\<close>)
    next
      case False
      then have h: "height R1 = height R2 + 1" using u(1) t(4) by (simp add: R)
      then obtain z B C where R1: "R1 = \<langle>B, z, C\<rangle>" by (cases R1) auto
      have z: "a_left (avl s y) = z" "z \<noteq> 0" "z \<noteq> x" "z \<noteq> y" using t(2) d' by (auto simp: R R1 y)
      have "\<exists>s'. swing_right_left x ?s1 = Inr (z, s') \<and> tree_in (avl s') z \<langle>\<langle>L, x, B\<rangle>, z, \<langle>C, y, R2\<rangle>\<rangle> \<and> writes_only {x, y, z} ?s1 s'"
        by (rule swing_right_left_tree)
          (use x t y z d' h 3 in \<open>auto simp: R R1 simp flip: set_inorder\<close>)
      then obtain s' where w: "swing_right_left x ?s1 = Inr (z, s')"
        "tree_in (avl s') z \<langle>\<langle>L, x, B\<rangle>, z, \<langle>C, y, R2\<rangle>\<rangle>" "writes_only {x, y, z} ?s1 s'" by blast
      show ?thesis
      proof (rule growsI [OF _ w(2)])
        show "right_grown x s = Inr (False, z, s')"
          using b x(1) y w(1) t(2) h by (simp add: right_grown_def set_balance_def Let_def R)
        show "writes_only (set_tree L \<union> {x} \<union> set_tree R) s s'"
          by (rule writes_only_trans [OF w1 w(3)]) (auto simp: R R1)
      qed (use t(3,4) 3 h in \<open>auto simp: R R1\<close>)
    qed
  qed
qed

section \<open>Comparison\<close>

abbreviation elem_words :: "avl_heap \<Rightarrow> nat \<Rightarrow> nat list" where
  "elem_words s n \<equiv> elems s (elem_of_node_no_check n)"

text \<open>The comparison orders the keys as \<open>kf\<close> does; words are compared as they are.\<close>

definition compares :: "nat \<Rightarrow> oset_cmp \<Rightarrow> (nat list \<Rightarrow> nat) \<Rightarrow> bool" where
  "compares off c kf \<longleftrightarrow>
     (case c of
        None \<Rightarrow> off = 0 \<and> (\<forall>w ws. kf (w # ws) = w)
      | Some f \<Rightarrow> \<forall>k e. (f k e < 0 \<longleftrightarrow> kf k < kf (key_part off e)) \<and> (f k e > 0 \<longleftrightarrow> kf k > kf (key_part off e)))"

definition rank :: "nat \<Rightarrow> (nat list \<Rightarrow> nat) \<Rightarrow> avl_heap \<Rightarrow> nat \<Rightarrow> nat" where
  "rank off kf s n = kf (key_part off (elem_words s n))"

lemma rank_same: "elems s' = elems s \<Longrightarrow> rank off kf s' = rank off kf s"
  by (simp add: rank_def fun_eq_iff)

lemma elem_of_node_ok: "n \<noteq> 0 \<Longrightarrow> a_magic (avl s n) = OSET_MAGIC \<Longrightarrow> elem_of_node n s = Inr (elem_of_node_no_check n)"
  by (simp add: elem_of_node_def)

text \<open>Comparing a key with a node, in both ways of the code.\<close>

lemma cmp_node:
  assumes "compares off c kf" and n: "n \<noteq> 0" "a_magic (avl s n) = OSET_MAGIC" "elem_words s n \<noteq> []" and k: "k \<noteq> []"
  shows "\<exists>r. (case c of Some f \<Rightarrow> slow_cmp f k n s | None \<Rightarrow> fast_cmp k n s) = Inr r
    \<and> (r < 0 \<longleftrightarrow> kf k < rank off kf s n) \<and> (r > 0 \<longleftrightarrow> kf k > rank off kf s n)"
proof (cases c)
  case None
  obtain w ws v vs where "elem_words s n = w # ws" "k = v # vs" using n(3) k by (meson neq_Nil_conv)
  with None assms(1) n show ?thesis
    by (simp add: fast_cmp_def elem_of_node_ok first_word_def rank_def key_part_def compares_def)
next
  case (Some f)
  with assms(1) n show ?thesis by (simp add: slow_cmp_def elem_of_node_ok rank_def compares_def)
qed

lemma cmp_key_root_spec:
  assumes "compares off c kf" and n: "n \<noteq> 0" "a_magic (avl s n) = OSET_MAGIC" "elem_words s n \<noteq> []"
    and r: "root \<noteq> 0" "a_magic (avl s root) = OSET_MAGIC" "elem_words s root \<noteq> []"
  shows "\<exists>i. cmp_key_root off c root n s = Inr i
    \<and> (i < 0 \<longleftrightarrow> rank off kf s n < rank off kf s root) \<and> (i > 0 \<longleftrightarrow> rank off kf s n > rank off kf s root)"
proof (cases c)
  case None
  from cmp_node [OF assms(1) r n(3)] None assms(1) n(1,2) show ?thesis
    by (simp add: cmp_key_root_def fast_key_of_node_def elem_of_node_ok rank_def compares_def key_part_def)
next
  case (Some f)
  with assms show ?thesis
    by (simp add: cmp_key_root_def slow_key_of_node_def slow_cmp_def elem_of_node_ok rank_def compares_def)
qed

section \<open>Insertion\<close>

abbreviation ranked :: "('a \<Rightarrow> nat) \<Rightarrow> 'a tree \<Rightarrow> bool" where
  "ranked rk t \<equiv> sorted_wrt (<) (map rk (inorder t))"

lemma ranked_node:
  "ranked rk \<langle>l, x, r\<rangle> \<longleftrightarrow> ranked rk l \<and> ranked rk r \<and> (\<forall>a\<in>set_tree l. rk a < rk x) \<and> (\<forall>a\<in>set_tree r. rk x < rk a)"
  by (auto simp: sorted_wrt_append intro: less_trans)

lemma ranked_distinct: "ranked rk t \<Longrightarrow> distinct (inorder t)"
  by (simp add: strict_sorted_iff distinct_map)

lemma insort_key_left: "rk n < rk x \<Longrightarrow> insort_key rk n (L @ x # R) = insort_key rk n L @ x # R"
  by (induction L) auto

lemma insort_key_right:
  "rk x < rk n \<Longrightarrow> \<forall>a\<in>set L. rk a < rk n \<Longrightarrow> insort_key rk n (L @ x # R) = L @ x # insort_key rk n R"
  for rk :: "'a \<Rightarrow> nat"
  by (induction L) auto

text \<open>What a recursive call does to a subtree, done to the tree.\<close>

lemma grow_left:
  assumes t: "tree_in (avl s) x \<langle>L, x, R\<rangle>" "balanced \<langle>L, x, R\<rangle>" and L: "L \<noteq> \<langle>\<rangle>"
    and d: "distinct (ys @ x # inorder R)" "set ys = insert n (set_tree L)"
    and m: "grows s (insert n (set_tree L)) (a_left (avl s x)) (height L) ys m"
  shows "grows s (insert n (set_tree \<langle>L, x, R\<rangle>)) x (height \<langle>L, x, R\<rangle>) (ys @ x # inorder R)
    (bind_res m (\<lambda>(grown, p, s1). if grown then left_grown x s1
       else bind_res (set_node x (\<lambda>x. x\<lparr>a_left := p\<rparr>) s1) (\<lambda>s2. Inr (False, x, s2))))"
proof -
  from m obtain g p s1 T where
    r: "m = Inr (g, p, s1)" "tree_in (avl s1) p T" "balanced T" "inorder T = ys"
      "height T = (if g then height L + 1 else height L)" "g \<Longrightarrow> p = a_left (avl s x) \<and> uneven T"
      "writes_only (insert n (set_tree L)) s s1" by (rule growsE) blast
  have sT: "set_tree T = insert n (set_tree L)" using d(2) r(4) by (simp flip: set_inorder)
  have xin: "x \<notin> set_tree T" "set_tree T \<inter> set_tree R = {}" "x \<notin> set_tree R"
    using d sT by (auto simp flip: set_inorder)
  have s1: "avl s1 x = avl s x" using r(7) xin(1) sT by (simp add: writes_only_def)
  have R: "tree_in (avl s1) (a_right (avl s x)) R"
    using t(1) writes_only_tree [OF r(7), of R] xin(2) sT by auto
  show ?thesis
  proof (cases g)
    case True
    have "grows s1 (set_tree T \<union> {x} \<union> set_tree R) x (max (height T - 1) (height R) + 1)
        (inorder T @ x # inorder R) (left_grown x s1)"
      by (rule left_grown_tree) (use r(2-6) True s1 R t d in auto)
    then obtain g' p' s2 T' where l: "left_grown x s1 = Inr (g', p', s2)" "tree_in (avl s2) p' T'" "balanced T'"
        "inorder T' = inorder T @ x # inorder R"
        "height T' = (if g' then max (height T - 1) (height R) + 1 + 1 else max (height T - 1) (height R) + 1)"
        "g' \<Longrightarrow> p' = x \<and> uneven T'" "writes_only (set_tree T \<union> {x} \<union> set_tree R) s1 s2" by (rule growsE) blast
    show ?thesis
      by (rule growsI [OF _ l(2,3) _ _ l(6) writes_only_trans [OF r(7) l(7)]])
        (use l(1,4,5) r(1,4,5) True in \<open>auto simp: sT\<close>)
  next
    case False
    let ?s = "s1\<lparr>avl := (avl s1)(x := (avl s1 x)\<lparr>a_left := p\<rparr>)\<rparr>"
    have w: "writes_only (insert n (set_tree \<langle>L, x, R\<rangle>)) s ?s" using r(7) by (auto simp: writes_only_def)
    show ?thesis
      by (rule growsI [where g = False and p = x and T = "\<langle>T, x, R\<rangle>", OF _ _ _ _ _ _ w]) (use False r(1-5) s1 R t xin in auto)
  qed
qed

lemma grow_right:
  assumes t: "tree_in (avl s) x \<langle>L, x, R\<rangle>" "balanced \<langle>L, x, R\<rangle>" and R: "R \<noteq> \<langle>\<rangle>"
    and d: "distinct (inorder L @ x # ys)" "set ys = insert n (set_tree R)"
    and m: "grows s (insert n (set_tree R)) (a_right (avl s x)) (height R) ys m"
  shows "grows s (insert n (set_tree \<langle>L, x, R\<rangle>)) x (height \<langle>L, x, R\<rangle>) (inorder L @ x # ys)
    (bind_res m (\<lambda>(grown, p, s1). if grown then right_grown x s1
       else bind_res (set_node x (\<lambda>x. x\<lparr>a_right := p\<rparr>) s1) (\<lambda>s2. Inr (False, x, s2))))"
proof -
  from m obtain g p s1 T where
    r: "m = Inr (g, p, s1)" "tree_in (avl s1) p T" "balanced T" "inorder T = ys"
      "height T = (if g then height R + 1 else height R)" "g \<Longrightarrow> p = a_right (avl s x) \<and> uneven T"
      "writes_only (insert n (set_tree R)) s s1" by (rule growsE) blast
  have sT: "set_tree T = insert n (set_tree R)" using d(2) r(4) by (simp flip: set_inorder)
  have xin: "x \<notin> set_tree T" "set_tree T \<inter> set_tree L = {}" "x \<notin> set_tree L"
    using d sT by (auto simp flip: set_inorder)
  have s1: "avl s1 x = avl s x" using r(7) xin(1) sT by (simp add: writes_only_def)
  have L: "tree_in (avl s1) (a_left (avl s x)) L"
    using t(1) writes_only_tree [OF r(7), of L] xin(2) sT by auto
  show ?thesis
  proof (cases g)
    case True
    have "grows s1 (set_tree L \<union> {x} \<union> set_tree T) x (max (height L) (height T - 1) + 1)
        (inorder L @ x # inorder T) (right_grown x s1)"
      by (rule right_grown_tree) (use r(2-6) True s1 L t d in auto)
    then obtain g' p' s2 T' where l: "right_grown x s1 = Inr (g', p', s2)" "tree_in (avl s2) p' T'" "balanced T'"
        "inorder T' = inorder L @ x # inorder T"
        "height T' = (if g' then max (height L) (height T - 1) + 1 + 1 else max (height L) (height T - 1) + 1)"
        "g' \<Longrightarrow> p' = x \<and> uneven T'" "writes_only (set_tree L \<union> {x} \<union> set_tree T) s1 s2" by (rule growsE) blast
    show ?thesis
      by (rule growsI [OF _ l(2,3) _ _ l(6) writes_only_trans [OF r(7) l(7)]])
        (use l(1,4,5) r(1,4,5) True in \<open>auto simp: sT\<close>)
  next
    case False
    let ?s = "s1\<lparr>avl := (avl s1)(x := (avl s1 x)\<lparr>a_right := p\<rparr>)\<rparr>"
    have w: "writes_only (insert n (set_tree \<langle>L, x, R\<rangle>)) s ?s" using r(7) by (auto simp: writes_only_def)
    show ?thesis
      by (rule growsI [where g = False and p = x and T = "\<langle>L, x, T\<rangle>", OF _ _ _ _ _ _ w]) (use False r(1-5) s1 L t xin in auto)
  qed
qed

lemma avl_insert_spec:
  assumes c: "compares off c kf" and n: "n \<noteq> 0" "a_magic (avl s n) = OSET_MAGIC" "elem_words s n \<noteq> []"
    "a_left (avl s n) = 0" "a_right (avl s n) = 0" "a_balance (avl s n) = 0"
  shows "tree_in (avl s) root t \<Longrightarrow> t \<noteq> \<langle>\<rangle> \<Longrightarrow> balanced t \<Longrightarrow> ranked (rank off kf s) t \<Longrightarrow>
    \<forall>a\<in>set_tree t. elem_words s a \<noteq> [] \<Longrightarrow> n \<notin> set_tree t \<Longrightarrow> rank off kf s n \<notin> rank off kf s ` set_tree t \<Longrightarrow>
    height t \<le> fuel \<Longrightarrow>
    grows s (insert n (set_tree t)) root (height t) (insort_key (rank off kf s) n (inorder t)) (avl_insert fuel off c root n s)"
proof (induction t arbitrary: root fuel)
  case Leaf
  then show ?case by simp
next
  case (Node L x R)
  define rk where "rk = rank off kf s"
  let ?f = "avl s"
  have x: "root = x" "x \<noteq> 0" "a_magic (?f x) = OSET_MAGIC" using Node.prems(1) by simp_all
  have t: "tree_in ?f x \<langle>L, x, R\<rangle>" "tree_in ?f (a_left (?f x)) L" "tree_in ?f (a_right (?f x)) R"
    using Node.prems(1) by simp_all
  have bal: "balanced L" "balanced R" using Node.prems(3) by simp_all
  have rk: "ranked rk L" "ranked rk R" "\<forall>a\<in>set_tree L. rk a < rk x" "\<forall>a\<in>set_tree R. rk x < rk a"
    using Node.prems(4) unfolding ranked_node rk_def by simp_all
  have nin: "n \<noteq> x" "n \<notin> set_tree L" "n \<notin> set_tree R" using Node.prems(6) by auto
  have dist: "distinct (inorder L @ x # inorder R)" using ranked_distinct [OF Node.prems(4)] by simp
  have fuel: "fuel \<noteq> 0" "height L \<le> fuel - 1" "height R \<le> fuel - 1" using Node.prems(8) by auto
  have sub: "\<forall>a\<in>set_tree L. elem_words s a \<noteq> []" "\<forall>a\<in>set_tree R. elem_words s a \<noteq> []"
    "rk n \<notin> rk ` set_tree L" "rk n \<notin> rk ` set_tree R" using Node.prems(5,7) by (auto simp: rk_def)
  obtain i where i: "cmp_key_root off c root n s = Inr i" "i < 0 \<longleftrightarrow> rk n < rk x" "i > 0 \<longleftrightarrow> rk n > rk x"
    using cmp_key_root_spec [OF c n(1-3), of x] x Node.prems(5) by (auto simp: rk_def)
  have "rk n \<noteq> rk x" using Node.prems(7) by (auto simp: rk_def)
  then consider "rk n < rk x" | "rk x < rk n" by linarith
  then show ?case
  proof cases
    case 1
    have xs: "insort_key rk n (inorder \<langle>L, x, R\<rangle>) = insort_key rk n (inorder L) @ x # inorder R"
      using insort_key_left [where rk = rk, OF 1] by simp
    show ?thesis unfolding rk_def [symmetric] xs
    proof (cases "L = \<langle>\<rangle>")
      case True
      let ?s = "s\<lparr>avl := ?f(x := (?f x)\<lparr>a_left := n, a_balance := a_balance (?f x) - 1\<rparr>)\<rparr>"
      have h: "R = \<langle>\<rangle> \<or> height R = 1" using Node.prems(3) True by (cases R) auto
      have "avl_insert fuel off c root n s = Inr (a_balance (?f x) = 0, root, ?s)"
        using fuel(1) i 1 x t True by (subst avl_insert.simps) simp
      then show "grows s (insert n (set_tree \<langle>L, x, R\<rangle>)) root (height \<langle>L, x, R\<rangle>)
          (insort_key rk n (inorder L) @ x # inorder R) (avl_insert fuel off c root n s)"
        by (rule growsI [where T = "\<langle>\<langle>\<langle>\<rangle>, n, \<langle>\<rangle>\<rangle>, x, R\<rangle>"])
          (use x t Node.prems(3) True n nin dist h in \<open>auto simp: writes_only_def\<close>)
    next
      case False
      then have "a_left (?f x) \<noteq> 0" using t(2) tree_in_Leaf by metis
      then have eq: "avl_insert fuel off c x n s =
          bind_res (avl_insert (fuel - 1) off c (a_left (?f x)) n s) (\<lambda>(grown, p, s1). if grown then left_grown x s1
            else bind_res (set_node x (\<lambda>x. x\<lparr>a_left := p\<rparr>) s1) (\<lambda>s2. Inr (False, x, s2)))"
        using fuel(1) i 1 x by (subst avl_insert.simps) simp
      show "grows s (insert n (set_tree \<langle>L, x, R\<rangle>)) root (height \<langle>L, x, R\<rangle>)
          (insort_key rk n (inorder L) @ x # inorder R) (avl_insert fuel off c root n s)"
        unfolding x(1) eq
        by (rule grow_left [OF t(1) Node.prems(3) False])
          (use Node.IH(1) [OF t(2) False bal(1) _ sub(1) nin(2) _ fuel(2)] rk(1) sub(3) dist nin
            in \<open>auto simp: rk_def [symmetric] distinct_insort set_insort_key\<close>)
    qed
  next
    case 2
    have xs: "insort_key rk n (inorder \<langle>L, x, R\<rangle>) = inorder L @ x # insort_key rk n (inorder R)"
      using insort_key_right [where rk = rk, OF 2] rk(3) 2 by (simp add: less_trans [OF _ 2])
    show ?thesis unfolding rk_def [symmetric] xs
    proof (cases "R = \<langle>\<rangle>")
      case True
      let ?s = "s\<lparr>avl := ?f(x := (?f x)\<lparr>a_right := n, a_balance := a_balance (?f x) + 1\<rparr>)\<rparr>"
      have h: "L = \<langle>\<rangle> \<or> height L = 1" using Node.prems(3) True by (cases L) auto
      have "avl_insert fuel off c root n s = Inr (a_balance (?f x) = 0, root, ?s)"
        using fuel(1) i 2 x t True by (subst avl_insert.simps) simp
      then show "grows s (insert n (set_tree \<langle>L, x, R\<rangle>)) root (height \<langle>L, x, R\<rangle>)
          (inorder L @ x # insort_key rk n (inorder R)) (avl_insert fuel off c root n s)"
        by (rule growsI [where T = "\<langle>L, x, \<langle>\<langle>\<rangle>, n, \<langle>\<rangle>\<rangle>\<rangle>"])
          (use x t Node.prems(3) True n nin dist h in \<open>auto simp: writes_only_def\<close>)
    next
      case False
      then have "a_right (?f x) \<noteq> 0" using t(3) tree_in_Leaf by metis
      then have eq: "avl_insert fuel off c x n s =
          bind_res (avl_insert (fuel - 1) off c (a_right (?f x)) n s) (\<lambda>(grown, p, s1). if grown then right_grown x s1
            else bind_res (set_node x (\<lambda>x. x\<lparr>a_right := p\<rparr>) s1) (\<lambda>s2. Inr (False, x, s2)))"
        using fuel(1) i 2 x by (subst avl_insert.simps) simp
      show "grows s (insert n (set_tree \<langle>L, x, R\<rangle>)) root (height \<langle>L, x, R\<rangle>)
          (inorder L @ x # insort_key rk n (inorder R)) (avl_insert fuel off c root n s)"
        unfolding x(1) eq
        by (rule grow_right [OF t(1) Node.prems(3) False])
          (use Node.IH(2) [OF t(3) False bal(2) _ sub(2) nin(3) _ fuel(3)] rk(2) sub(4) dist nin
            in \<open>auto simp: rk_def [symmetric] distinct_insort set_insort_key\<close>)
    qed
  qed
qed

end
