(* ===== verification/Vg_Avl_Remove.thy ===== *)
theory Vg_Avl_Remove
  imports Vg_Avl
begin

text \<open>
  Lookup and deletion in AVL trees in memory: the counterparts for the tree of addresses of what
  \<open>Vg_Avl\<close> shows of insertion.
\<close>

section \<open>Lookup\<close>

fun tree_find :: "(nat \<Rightarrow> nat) \<Rightarrow> nat \<Rightarrow> nat tree \<Rightarrow> nat" where
  "tree_find rk k \<langle>\<rangle> = 0"
| "tree_find rk k \<langle>l, x, r\<rangle> = (if k < rk x then tree_find rk k l else if k > rk x then tree_find rk k r else x)"

lemma tree_find_spec:
  "ranked rk t \<Longrightarrow> tree_find rk k t = 0 \<and> k \<notin> rk ` set_tree t \<or> tree_find rk k t \<in> set_tree t \<and> rk (tree_find rk k t) = k"
proof (induction t)
  case (Node l x r)
  then have "ranked rk l" "ranked rk r" "\<forall>a\<in>set_tree l. rk a < rk x" "\<forall>a\<in>set_tree r. rk x < rk a"
    unfolding ranked_node by simp_all
  with Node.IH show ?case by (auto 4 3 dest: less_asym)
qed simp

lemma slow_lookup_find:
  assumes c: "compares off (Some f) kf"
  shows "tree_in (avl s) p t \<Longrightarrow> height t \<le> fuel \<Longrightarrow> slow_lookup fuel f k p s = Inr (tree_find (rank off kf s) (kf k) t)"
proof (induction t arbitrary: p fuel)
  case Leaf
  then show ?case by (subst slow_lookup.simps) simp
next
  case (Node l x r)
  have "p = x" "x \<noteq> 0" "slow_cmp f k x s = Inr (f k (elem_words s x))"
    using Node.prems(1) by (simp_all add: slow_cmp_def elem_of_node_ok)
  moreover have "(f k (elem_words s x) < 0 \<longleftrightarrow> kf k < rank off kf s x) \<and> (f k (elem_words s x) > 0 \<longleftrightarrow> kf k > rank off kf s x)"
    using c by (simp add: compares_def rank_def)
  ultimately show ?case
    using Node by (subst slow_lookup.simps) auto
qed

lemma fast_lookup_find:
  assumes c: "compares off None kf"
  shows "tree_in (avl s) p t \<Longrightarrow> \<forall>a\<in>set_tree t. elem_words s a \<noteq> [] \<Longrightarrow> height t \<le> fuel \<Longrightarrow>
    fast_lookup fuel w p s = Inr (tree_find (rank off kf s) w t)"
proof (induction t arbitrary: p fuel)
  case Leaf
  then show ?case by (subst fast_lookup.simps) simp
next
  case (Node l x r)
  obtain v vs where v: "elem_words s x = v # vs" using Node.prems(2) by (auto simp: neq_Nil_conv)
  have "rank off kf s x = v" using c v by (simp add: rank_def key_part_def compares_def)
  then show ?case
    using Node v by (subst fast_lookup.simps) (auto simp: first_word_def)
qed

section \<open>Shrinking\<close>

text \<open>
  A deletion turns a tree of height \<open>h\<close> into one with the nodes \<open>xs\<close>. When \<open>keep\<close> holds the root
  is still there, and even if the tree has shrunk.
\<close>

definition shrinks :: "avl_heap \<Rightarrow> nat set \<Rightarrow> bool \<Rightarrow> nat \<Rightarrow> nat \<Rightarrow> nat list \<Rightarrow> (bool \<times> nat \<times> avl_heap) res \<Rightarrow> bool" where
  "shrinks s A keep root h xs res \<longleftrightarrow>
     (\<exists>ch p s' T. res = Inr (ch, p, s') \<and> tree_in (avl s') p T \<and> balanced T \<and> inorder T = xs
       \<and> (if ch then height T + 1 else height T) = h
       \<and> (keep \<longrightarrow> p = root \<and> p \<noteq> 0 \<and> (ch \<longrightarrow> \<not> uneven T)) \<and> writes_only A s s')"

lemma shrinksI:
  "res = Inr (ch, p, s') \<Longrightarrow> tree_in (avl s') p T \<Longrightarrow> balanced T \<Longrightarrow> inorder T = xs \<Longrightarrow>
   (if ch then height T + 1 else height T) = h \<Longrightarrow>
   (keep \<Longrightarrow> p = root \<and> p \<noteq> 0 \<and> (ch \<longrightarrow> \<not> uneven T)) \<Longrightarrow> writes_only A s s' \<Longrightarrow>
   shrinks s A keep root h xs res"
  unfolding shrinks_def by blast

lemma shrinksE:
  assumes "shrinks s A keep root h xs res"
  obtains ch p s' T where "res = Inr (ch, p, s')" "tree_in (avl s') p T" "balanced T" "inorder T = xs"
    "(if ch then height T + 1 else height T) = h" "keep \<Longrightarrow> p = root \<and> p \<noteq> 0 \<and> (ch \<longrightarrow> \<not> uneven T)"
    "writes_only A s s'"
  using assms unfolding shrinks_def by blast

lemma left_shrunk_tree:
  assumes t: "tree_in (avl s) (a_left (avl s x)) L" "tree_in (avl s) (a_right (avl s x)) R" "balanced L" "balanced R"
    and x: "x \<noteq> 0" "a_magic (avl s x) = OSET_MAGIC" "a_balance (avl s x) = int (height R) - int (height L + 1)"
    and u: "height L \<le> height R" "height R \<le> height L + 2"
    and d: "distinct (inorder L @ x # inorder R)"
  shows "shrinks s (set_tree L \<union> {x} \<union> set_tree R) (height R \<le> height L + 1) x (max (height L + 1) (height R) + 1)
    (inorder L @ x # inorder R) (left_shrunk x s)"
proof -
  have d': "x \<notin> set_tree L \<union> set_tree R" "distinct (inorder R)" "set_tree L \<inter> set_tree R = {}"
    using d by (auto simp flip: set_inorder)
  let ?s1 = "s\<lparr>avl := (avl s)(x := (avl s x)\<lparr>a_balance := a_balance (avl s x) + 1\<rparr>)\<rparr>"
  have w1: "writes_only {x} s ?s1" by (simp add: writes_only_def)
  consider "height R = height L" | "height R = height L + 1" | "height R = height L + 2" using u by linarith
  then show ?thesis
  proof cases
    case 1
    then have b: "a_balance (avl s x) = - 1" using x(3) by simp
    show ?thesis
      by (rule shrinksI [of _ True x ?s1 "\<langle>L, x, R\<rangle>"])
        (use b x t d' 1 in \<open>simp_all add: left_shrunk_def set_balance_def Let_def writes_only_def\<close>)
  next
    case 2
    then have b: "a_balance (avl s x) = 0" using x(3) by simp
    show ?thesis
      by (rule shrinksI [of _ False x ?s1 "\<langle>L, x, R\<rangle>"])
        (use b x t d' 2 in \<open>simp_all add: left_shrunk_def set_balance_def Let_def writes_only_def\<close>)
  next
    case 3
    then have b: "a_balance (avl s x) = 1" using x(3) by simp
    obtain y R1 R2 where R: "R = \<langle>R1, y, R2\<rangle>" using 3 by (cases R) auto
    have y: "a_right (avl s x) = y" "y \<noteq> 0" "y \<noteq> x" using t(2) d' by (auto simp: R)
    have bal_y: "a_balance (avl s y) = int (height R2) - int (height R1)" using t(2) by (simp add: R)
    consider "height R2 = height R1" | "height R2 = height R1 + 1" | "height R1 = height R2 + 1"
      using t(4) by (fastforce simp: R)
    then show ?thesis
    proof cases
      case k: 1
      have "\<exists>s'. swing_left x (- 1) 1 ?s1 = Inr (y, s') \<and> tree_in (avl s') y \<langle>\<langle>L, x, R1\<rangle>, y, R2\<rangle> \<and> writes_only {x, y} ?s1 s'"
        by (rule swing_left_tree) (use x t y d' d u 3 k in \<open>auto simp: R simp flip: set_inorder\<close>)
      then obtain s' where w: "swing_left x (- 1) 1 ?s1 = Inr (y, s')" "tree_in (avl s') y \<langle>\<langle>L, x, R1\<rangle>, y, R2\<rangle>"
        "writes_only {x, y} ?s1 s'" by blast
      show ?thesis
      proof (rule shrinksI [OF _ w(2)])
        show "left_shrunk x s = Inr (False, y, s')"
          using b bal_y x(1) y w(1) k by (simp add: left_shrunk_def set_balance_def Let_def)
        show "writes_only (set_tree L \<union> {x} \<union> set_tree R) s s'"
          by (rule writes_only_trans [OF w1 w(3)]) (auto simp: R)
      qed (use t(3,4) 3 k in \<open>auto simp: R\<close>)
    next
      case k: 2
      have "\<exists>s'. swing_left x 0 0 ?s1 = Inr (y, s') \<and> tree_in (avl s') y \<langle>\<langle>L, x, R1\<rangle>, y, R2\<rangle> \<and> writes_only {x, y} ?s1 s'"
        by (rule swing_left_tree) (use x t y d' d u 3 k in \<open>auto simp: R simp flip: set_inorder\<close>)
      then obtain s' where w: "swing_left x 0 0 ?s1 = Inr (y, s')" "tree_in (avl s') y \<langle>\<langle>L, x, R1\<rangle>, y, R2\<rangle>"
        "writes_only {x, y} ?s1 s'" by blast
      show ?thesis
      proof (rule shrinksI [OF _ w(2)])
        show "left_shrunk x s = Inr (True, y, s')"
          using b bal_y x(1) y w(1) k by (simp add: left_shrunk_def set_balance_def Let_def)
        show "writes_only (set_tree L \<union> {x} \<union> set_tree R) s s'"
          by (rule writes_only_trans [OF w1 w(3)]) (auto simp: R)
      qed (use t(3,4) 3 k in \<open>auto simp: R\<close>)
    next
      case k: 3
      then obtain z B C where R1: "R1 = \<langle>B, z, C\<rangle>" by (cases R1) auto
      have z: "a_left (avl s y) = z" "z \<noteq> 0" "z \<noteq> x" "z \<noteq> y" using t(2) d' by (auto simp: R R1 y)
      have "\<exists>s'. swing_right_left x ?s1 = Inr (z, s') \<and> tree_in (avl s') z \<langle>\<langle>L, x, B\<rangle>, z, \<langle>C, y, R2\<rangle>\<rangle> \<and> writes_only {x, y, z} ?s1 s'"
        by (rule swing_right_left_tree)
          (use x t y z d' k 3 in \<open>auto simp: R R1 simp flip: set_inorder\<close>)
      then obtain s' where w: "swing_right_left x ?s1 = Inr (z, s')"
        "tree_in (avl s') z \<langle>\<langle>L, x, B\<rangle>, z, \<langle>C, y, R2\<rangle>\<rangle>" "writes_only {x, y, z} ?s1 s'" by blast
      show ?thesis
      proof (rule shrinksI [OF _ w(2)])
        show "left_shrunk x s = Inr (True, z, s')"
          using b bal_y x(1) y w(1) k by (simp add: left_shrunk_def set_balance_def Let_def)
        show "writes_only (set_tree L \<union> {x} \<union> set_tree R) s s'"
          by (rule writes_only_trans [OF w1 w(3)]) (auto simp: R R1)
      qed (use t(3,4) 3 k in \<open>auto simp: R R1\<close>)
    qed
  qed
qed

lemma right_shrunk_tree:
  assumes t: "tree_in (avl s) (a_left (avl s x)) L" "tree_in (avl s) (a_right (avl s x)) R" "balanced L" "balanced R"
    and x: "x \<noteq> 0" "a_magic (avl s x) = OSET_MAGIC" "a_balance (avl s x) = int (height R + 1) - int (height L)"
    and u: "height R \<le> height L" "height L \<le> height R + 2"
    and d: "distinct (inorder L @ x # inorder R)"
  shows "shrinks s (set_tree L \<union> {x} \<union> set_tree R) (height L \<le> height R + 1) x (max (height L) (height R + 1) + 1)
    (inorder L @ x # inorder R) (right_shrunk x s)"
proof -
  have d': "x \<notin> set_tree L \<union> set_tree R" "distinct (inorder L)" "set_tree L \<inter> set_tree R = {}"
    using d by (auto simp flip: set_inorder)
  let ?s1 = "s\<lparr>avl := (avl s)(x := (avl s x)\<lparr>a_balance := a_balance (avl s x) - 1\<rparr>)\<rparr>"
  have w1: "writes_only {x} s ?s1" by (simp add: writes_only_def)
  consider "height L = height R" | "height L = height R + 1" | "height L = height R + 2" using u by linarith
  then show ?thesis
  proof cases
    case 1
    then have b: "a_balance (avl s x) = 1" using x(3) by simp
    show ?thesis
      by (rule shrinksI [of _ True x ?s1 "\<langle>L, x, R\<rangle>"])
        (use b x t d' 1 in \<open>simp_all add: right_shrunk_def set_balance_def Let_def writes_only_def\<close>)
  next
    case 2
    then have b: "a_balance (avl s x) = 0" using x(3) by simp
    show ?thesis
      by (rule shrinksI [of _ False x ?s1 "\<langle>L, x, R\<rangle>"])
        (use b x t d' 2 in \<open>simp_all add: right_shrunk_def set_balance_def Let_def writes_only_def\<close>)
  next
    case 3
    then have b: "a_balance (avl s x) = - 1" using x(3) by simp
    obtain y L1 L2 where L: "L = \<langle>L1, y, L2\<rangle>" using 3 by (cases L) auto
    have y: "a_left (avl s x) = y" "y \<noteq> 0" "y \<noteq> x" using t(1) d' by (auto simp: L)
    have bal_y: "a_balance (avl s y) = int (height L2) - int (height L1)" using t(1) by (simp add: L)
    consider "height L1 = height L2" | "height L1 = height L2 + 1" | "height L2 = height L1 + 1"
      using t(3) by (fastforce simp: L)
    then show ?thesis
    proof cases
      case k: 1
      have "\<exists>s'. swing_right x 1 (- 1) ?s1 = Inr (y, s') \<and> tree_in (avl s') y \<langle>L1, y, \<langle>L2, x, R\<rangle>\<rangle> \<and> writes_only {x, y} ?s1 s'"
        by (rule swing_right_tree) (use x t y d' d u 3 k in \<open>auto simp: L simp flip: set_inorder\<close>)
      then obtain s' where w: "swing_right x 1 (- 1) ?s1 = Inr (y, s')" "tree_in (avl s') y \<langle>L1, y, \<langle>L2, x, R\<rangle>\<rangle>"
        "writes_only {x, y} ?s1 s'" by blast
      show ?thesis
      proof (rule shrinksI [OF _ w(2)])
        show "right_shrunk x s = Inr (False, y, s')"
          using b bal_y x(1) y w(1) k by (simp add: right_shrunk_def set_balance_def Let_def)
        show "writes_only (set_tree L \<union> {x} \<union> set_tree R) s s'"
          by (rule writes_only_trans [OF w1 w(3)]) (auto simp: L)
      qed (use t(3,4) 3 k in \<open>auto simp: L\<close>)
    next
      case k: 2
      have "\<exists>s'. swing_right x 0 0 ?s1 = Inr (y, s') \<and> tree_in (avl s') y \<langle>L1, y, \<langle>L2, x, R\<rangle>\<rangle> \<and> writes_only {x, y} ?s1 s'"
        by (rule swing_right_tree) (use x t y d' d u 3 k in \<open>auto simp: L simp flip: set_inorder\<close>)
      then obtain s' where w: "swing_right x 0 0 ?s1 = Inr (y, s')" "tree_in (avl s') y \<langle>L1, y, \<langle>L2, x, R\<rangle>\<rangle>"
        "writes_only {x, y} ?s1 s'" by blast
      show ?thesis
      proof (rule shrinksI [OF _ w(2)])
        show "right_shrunk x s = Inr (True, y, s')"
          using b bal_y x(1) y w(1) k by (simp add: right_shrunk_def set_balance_def Let_def)
        show "writes_only (set_tree L \<union> {x} \<union> set_tree R) s s'"
          by (rule writes_only_trans [OF w1 w(3)]) (auto simp: L)
      qed (use t(3,4) 3 k in \<open>auto simp: L\<close>)
    next
      case k: 3
      then obtain z B C where L2: "L2 = \<langle>B, z, C\<rangle>" by (cases L2) auto
      have z: "a_right (avl s y) = z" "z \<noteq> 0" "z \<noteq> x" "z \<noteq> y" using t(1) d' by (auto simp: L L2 y)
      have "\<exists>s'. swing_left_right x ?s1 = Inr (z, s') \<and> tree_in (avl s') z \<langle>\<langle>L1, y, B\<rangle>, z, \<langle>C, x, R\<rangle>\<rangle> \<and> writes_only {x, y, z} ?s1 s'"
        by (rule swing_left_right_tree)
          (use x t y z d' k 3 in \<open>auto simp: L L2 simp flip: set_inorder\<close>)
      then obtain s' where w: "swing_left_right x ?s1 = Inr (z, s')"
        "tree_in (avl s') z \<langle>\<langle>L1, y, B\<rangle>, z, \<langle>C, x, R\<rangle>\<rangle>" "writes_only {x, y, z} ?s1 s'" by blast
      show ?thesis
      proof (rule shrinksI [OF _ w(2)])
        show "right_shrunk x s = Inr (True, z, s')"
          using b bal_y x(1) y w(1) k by (simp add: right_shrunk_def set_balance_def Let_def)
        show "writes_only (set_tree L \<union> {x} \<union> set_tree R) s s'"
          by (rule writes_only_trans [OF w1 w(3)]) (auto simp: L L2)
      qed (use t(3,4) 3 k in \<open>auto simp: L L2\<close>)
    qed
  qed
qed

text \<open>What a recursive call does to a subtree, done to the tree.\<close>

lemma shrink_left:
  assumes t: "tree_in (avl s) x \<langle>L, x, R\<rangle>" "balanced \<langle>L, x, R\<rangle>"
    and d: "distinct (ys @ x # inorder R)" "set ys \<subseteq> set_tree L" "x \<notin> set_tree L" "set_tree L \<inter> set_tree R = {}"
    and m: "shrinks s (set_tree L) False q (height L) ys m"
  shows "shrinks s (set_tree \<langle>L, x, R\<rangle>) (height R \<le> height L) x (height \<langle>L, x, R\<rangle>) (ys @ x # inorder R)
    (bind_res m (\<lambda>(ch, p, s1). bind_res (set_node x (\<lambda>x. x\<lparr>a_left := p\<rparr>) s1) (\<lambda>s2.
       if ch then left_shrunk x s2 else Inr (False, x, s2))))"
proof -
  from m obtain ch p s1 T where
    r: "m = Inr (ch, p, s1)" "tree_in (avl s1) p T" "balanced T" "inorder T = ys"
      "(if ch then height T + 1 else height T) = height L" "writes_only (set_tree L) s s1" by (rule shrinksE) blast
  have sT: "set_tree T \<subseteq> set_tree L" using d(2) r(4) by (simp flip: set_inorder)
  have xin: "x \<notin> set_tree T" "x \<notin> set_tree R" using d sT by auto
  let ?s = "s1\<lparr>avl := (avl s1)(x := (avl s1 x)\<lparr>a_left := p\<rparr>)\<rparr>"
  have s1: "avl s1 x = avl s x" using r(6) d(3) by (simp add: writes_only_def)
  have R: "tree_in (avl s1) (a_right (avl s x)) R" using t(1) writes_only_tree [OF r(6) d(4)] by auto
  have w: "writes_only (set_tree \<langle>L, x, R\<rangle>) s ?s" using r(6) by (auto simp: writes_only_def)
  show ?thesis
  proof (cases ch)
    case True
    have "shrinks ?s (set_tree T \<union> {x} \<union> set_tree R) (height R \<le> height T + 1) x (max (height T + 1) (height R) + 1)
        (inorder T @ x # inorder R) (left_shrunk x ?s)"
      by (rule left_shrunk_tree) (use r(2-5) True s1 R t d xin in auto)
    then obtain ch' p' s2 T' where l: "left_shrunk x ?s = Inr (ch', p', s2)" "tree_in (avl s2) p' T'" "balanced T'"
        "inorder T' = inorder T @ x # inorder R"
        "(if ch' then height T' + 1 else height T') = max (height T + 1) (height R) + 1"
        "height R \<le> height T + 1 \<Longrightarrow> p' = x \<and> p' \<noteq> 0 \<and> (ch' \<longrightarrow> \<not> uneven T')"
        "writes_only (set_tree T \<union> {x} \<union> set_tree R) ?s s2" by (rule shrinksE) blast
    show ?thesis
      by (rule shrinksI [OF _ l(2,3) _ _ l(6) writes_only_trans [OF w l(7)]])
        (use l(1,4,5) r(1,4,5) True t sT in auto)
  next
    case False
    show ?thesis
      by (rule shrinksI [where ch = False and p = x and T = "\<langle>T, x, R\<rangle>", OF _ _ _ _ _ _ w])
        (use False r(1-5) s1 R t xin in auto)
  qed
qed

lemma shrink_right:
  assumes t: "tree_in (avl s) x \<langle>L, x, R\<rangle>" "balanced \<langle>L, x, R\<rangle>"
    and d: "distinct (inorder L @ x # ys)" "set ys \<subseteq> set_tree R" "x \<notin> set_tree R" "set_tree R \<inter> set_tree L = {}"
    and m: "shrinks s (set_tree R) False q (height R) ys m"
  shows "shrinks s (set_tree \<langle>L, x, R\<rangle>) (height L \<le> height R) x (height \<langle>L, x, R\<rangle>) (inorder L @ x # ys)
    (bind_res m (\<lambda>(ch, p, s1). bind_res (set_node x (\<lambda>x. x\<lparr>a_right := p\<rparr>) s1) (\<lambda>s2.
       if ch then right_shrunk x s2 else Inr (False, x, s2))))"
proof -
  from m obtain ch p s1 T where
    r: "m = Inr (ch, p, s1)" "tree_in (avl s1) p T" "balanced T" "inorder T = ys"
      "(if ch then height T + 1 else height T) = height R" "writes_only (set_tree R) s s1" by (rule shrinksE) blast
  have sT: "set_tree T \<subseteq> set_tree R" using d(2) r(4) by (simp flip: set_inorder)
  have xin: "x \<notin> set_tree T" "x \<notin> set_tree L" using d sT by auto
  let ?s = "s1\<lparr>avl := (avl s1)(x := (avl s1 x)\<lparr>a_right := p\<rparr>)\<rparr>"
  have s1: "avl s1 x = avl s x" using r(6) d(3) by (simp add: writes_only_def)
  have L: "tree_in (avl s1) (a_left (avl s x)) L" using t(1) writes_only_tree [OF r(6) d(4)] by auto
  have w: "writes_only (set_tree \<langle>L, x, R\<rangle>) s ?s" using r(6) by (auto simp: writes_only_def)
  show ?thesis
  proof (cases ch)
    case True
    have "shrinks ?s (set_tree L \<union> {x} \<union> set_tree T) (height L \<le> height T + 1) x (max (height L) (height T + 1) + 1)
        (inorder L @ x # inorder T) (right_shrunk x ?s)"
      by (rule right_shrunk_tree) (use r(2-5) True s1 L t d xin in auto)
    then obtain ch' p' s2 T' where l: "right_shrunk x ?s = Inr (ch', p', s2)" "tree_in (avl s2) p' T'" "balanced T'"
        "inorder T' = inorder L @ x # inorder T"
        "(if ch' then height T' + 1 else height T') = max (height L) (height T + 1) + 1"
        "height L \<le> height T + 1 \<Longrightarrow> p' = x \<and> p' \<noteq> 0 \<and> (ch' \<longrightarrow> \<not> uneven T')"
        "writes_only (set_tree L \<union> {x} \<union> set_tree T) ?s s2" by (rule shrinksE) blast
    show ?thesis
      by (rule shrinksI [OF _ l(2,3) _ _ l(6) writes_only_trans [OF w l(7)]])
        (use l(1,4,5) r(1,4,5) True t sT in auto)
  next
    case False
    show ?thesis
      by (rule shrinksI [where ch = False and p = x and T = "\<langle>L, x, T\<rangle>", OF _ _ _ _ _ _ w])
        (use False r(1-5) s1 L t xin in auto)
  qed
qed

section \<open>Deletion\<close>

lemma rightmost_spec: "tree_in (avl s) p t \<Longrightarrow> t \<noteq> \<langle>\<rangle> \<Longrightarrow> height t \<le> fuel \<Longrightarrow> rightmost fuel p s = Inr (last (inorder t))"
proof (induction t arbitrary: p fuel)
  case (Node l x r)
  then show ?case by (subst rightmost.simps) (auto simp: tree_in_Leaf [of "avl s" "a_right (avl s x)" r])
qed simp

lemma leftmost_spec: "tree_in (avl s) p t \<Longrightarrow> t \<noteq> \<langle>\<rangle> \<Longrightarrow> height t \<le> fuel \<Longrightarrow> leftmost fuel p s = Inr (hd (inorder t))"
proof (induction t arbitrary: p fuel)
  case (Node l x r)
  then show ?case by (subst leftmost.simps) (auto simp: tree_in_Leaf [of "avl s" "a_left (avl s x)" l] hd_append)
qed simp

text \<open>The facts that the cases of a deletion from \<open>\<langle>L, x, R\<rangle>\<close> share.\<close>

definition removable :: "nat \<Rightarrow> (nat list \<Rightarrow> nat) \<Rightarrow> avl_heap \<Rightarrow> nat \<Rightarrow> nat tree \<Rightarrow> bool" where
  "removable off kf s p t \<longleftrightarrow>
     tree_in (avl s) p t \<and> balanced t \<and> ranked (rank off kf s) t \<and> (\<forall>a\<in>set_tree t. elem_words s a \<noteq> [])"

lemma removable_node:
  assumes "removable off kf s p \<langle>L, x, R\<rangle>"
  shows "p = x" and "x \<noteq> 0" and "removable off kf s (a_left (avl s x)) L" and "removable off kf s (a_right (avl s x)) R"
    and "distinct (inorder L @ x # inorder R)" and "x \<notin> set_tree L" and "x \<notin> set_tree R" and "set_tree L \<inter> set_tree R = {}"
    and "tree_in (avl s) x \<langle>L, x, R\<rangle>" and "balanced \<langle>L, x, R\<rangle>"
proof -
  have rk: "ranked (rank off kf s) \<langle>L, x, R\<rangle>" using assms by (simp only: removable_def)
  show d: "distinct (inorder L @ x # inorder R)" using ranked_distinct [OF rk] by simp
  then show "x \<notin> set_tree L" "x \<notin> set_tree R" "set_tree L \<inter> set_tree R = {}" by (auto simp flip: set_inorder)
  have "ranked (rank off kf s) L" "ranked (rank off kf s) R" using rk unfolding ranked_node by simp_all
  then show "removable off kf s (a_left (avl s x)) L" "removable off kf s (a_right (avl s x)) R"
    using assms by (simp_all add: removable_def)
qed (use assms in \<open>simp_all add: removable_def\<close>)

lemma removable_cmp:
  assumes c: "compares off c kf" and r: "removable off kf s p \<langle>L, x, R\<rangle>" and n: "n \<in> set_tree \<langle>L, x, R\<rangle>"
  obtains i where "cmp_key_root off c x n s = Inr i" and "n \<in> set_tree L \<longleftrightarrow> i < 0" and "n \<in> set_tree R \<longleftrightarrow> i > 0"
proof -
  let ?rk = "rank off kf s"
  have ok: "a \<noteq> 0" "a_magic (avl s a) = OSET_MAGIC" "elem_words s a \<noteq> []" if "a \<in> set_tree \<langle>L, x, R\<rangle>" for a
    using r that tree_in_nonnull [of "avl s" p "\<langle>L, x, R\<rangle>" a] by (auto simp only: removable_def)
  have x: "x \<in> set_tree \<langle>L, x, R\<rangle>" by simp
  from cmp_key_root_spec [OF c ok [OF n] ok [OF x]] obtain i where
    i: "cmp_key_root off c x n s = Inr i" "i < 0 \<longleftrightarrow> ?rk n < ?rk x" "i > 0 \<longleftrightarrow> ?rk n > ?rk x" by blast
  have "ranked ?rk \<langle>L, x, R\<rangle>" using r by (simp only: removable_def)
  then have "\<forall>a\<in>set_tree L. ?rk a < ?rk x" "\<forall>a\<in>set_tree R. ?rk x < ?rk a" unfolding ranked_node by simp_all
  then have "n \<in> set_tree L \<longleftrightarrow> i < 0" "n \<in> set_tree R \<longleftrightarrow> i > 0" using n i(2,3) by (auto dest: less_asym)
  with i(1) that show ?thesis by blast
qed

lemma avl_remove_left:
  assumes c: "compares off c kf" and r: "removable off kf s x \<langle>L, x, R\<rangle>" and n: "n \<in> set_tree L" and f: "fuel \<noteq> 0"
    and ih: "shrinks s (set_tree L) False q (height L) (remove1 n (inorder L)) (avl_remove (fuel - 1) off c (a_left (avl s x)) n s)"
  shows "shrinks s (set_tree \<langle>L, x, R\<rangle>) (height R \<le> height L) x (height \<langle>L, x, R\<rangle>)
    (remove1 n (inorder L) @ x # inorder R) (avl_remove fuel off c x n s)"
proof -
  note N = removable_node [OF r]
  obtain i where i: "cmp_key_root off c x n s = Inr i" "n \<in> set_tree L \<longleftrightarrow> i < 0"
    by (rule removable_cmp [OF c r]) (use n in auto)
  have "a_left (avl s x) \<noteq> 0" by (rule notI) (use N(9) n in simp)
  then have eq: "avl_remove fuel off c x n s =
      bind_res (avl_remove (fuel - 1) off c (a_left (avl s x)) n s) (\<lambda>(ch, p, s1).
      bind_res (set_node x (\<lambda>x. x\<lparr>a_left := p\<rparr>) s1) (\<lambda>s2. if ch then left_shrunk x s2 else Inr (False, x, s2)))"
    using f i n N(2) by (subst avl_remove.simps) simp
  show ?thesis unfolding eq
    by (rule shrink_left [OF N(9,10) _ _ N(6,8) ih])
      (use N(5) in \<open>auto simp: distinct_remove1 dest: notin_set_remove1 set_remove1_subset [THEN subsetD]\<close>)
qed

lemma avl_remove_right:
  assumes c: "compares off c kf" and r: "removable off kf s x \<langle>L, x, R\<rangle>" and n: "n \<in> set_tree R" and f: "fuel \<noteq> 0"
    and ih: "shrinks s (set_tree R) False q (height R) (remove1 n (inorder R)) (avl_remove (fuel - 1) off c (a_right (avl s x)) n s)"
  shows "shrinks s (set_tree \<langle>L, x, R\<rangle>) (height L \<le> height R) x (height \<langle>L, x, R\<rangle>)
    (inorder L @ x # remove1 n (inorder R)) (avl_remove fuel off c x n s)"
proof -
  note N = removable_node [OF r]
  have RL: "set_tree R \<inter> set_tree L = {}" using N(8) by blast
  obtain i where i: "cmp_key_root off c x n s = Inr i" "n \<in> set_tree R \<longleftrightarrow> i > 0"
    by (rule removable_cmp [OF c r]) (use n in auto)
  have "a_right (avl s x) \<noteq> 0" by (rule notI) (use N(9) n in simp)
  then have eq: "avl_remove fuel off c x n s =
      bind_res (avl_remove (fuel - 1) off c (a_right (avl s x)) n s) (\<lambda>(ch, p, s1).
      bind_res (set_node x (\<lambda>x. x\<lparr>a_right := p\<rparr>) s1) (\<lambda>s2. if ch then right_shrunk x s2 else Inr (False, x, s2)))"
    using f i n N(2) by (subst avl_remove.simps) simp
  show ?thesis unfolding eq
    by (rule shrink_right [OF N(9,10) _ _ N(7) RL ih])
      (use N(5) in \<open>auto simp: distinct_remove1 dest: notin_set_remove1 set_remove1_subset [THEN subsetD]\<close>)
qed

lemma split_unique: "x \<notin> set xs \<Longrightarrow> x \<notin> set ys \<Longrightarrow> as @ x # bs = xs @ x # ys \<Longrightarrow> as = xs \<and> bs = ys"
  by (induction xs arbitrary: as) (auto simp: Cons_eq_append_conv append_eq_Cons_conv)

text \<open>The node that was taken out of a subtree replaces the root.\<close>

lemma relink_root:
  assumes m: "shrinks s A True x h (xs @ x # ys) m" and d: "x \<notin> set xs" "x \<notin> set ys"
    and n: "n \<notin> set xs" "n \<notin> set ys" "n \<noteq> x" "n \<noteq> 0" "a_magic (avl s n) = OSET_MAGIC" "n \<in> A"
  shows "shrinks s A False q h (xs @ n # ys)
    (bind_res m (\<lambda>(ch, r, s1). bind_res (get_node r s1) (\<lambda>y.
       bind_res (set_node n (\<lambda>z. z\<lparr>a_left := a_left y, a_right := a_right y, a_balance := a_balance y\<rparr>) s1) (\<lambda>s2.
       Inr (if a_balance y = 0 then ch else False, n, s2)))))"
proof -
  from m obtain ch p s1 T where
    r: "m = Inr (ch, p, s1)" "tree_in (avl s1) p T" "balanced T" "inorder T = xs @ x # ys"
      "(if ch then height T + 1 else height T) = h" "p = x \<and> p \<noteq> 0 \<and> (ch \<longrightarrow> \<not> uneven T)"
      "writes_only A s s1" by (rule shrinksE) blast
  from tree_in_node [OF r(2)] r(6) obtain l rt where T: "T = \<langle>l, x, rt\<rangle>" by auto
  have in_lr: "inorder l = xs" "inorder rt = ys" using split_unique [OF d] r(4) T by auto
  have nT: "n \<notin> set_tree l" "n \<notin> set_tree rt" using n(1,2) in_lr by (auto simp flip: set_inorder)
  have bal: "(if a_balance (avl s1 x) = 0 then ch else False) = ch" using r(2,6) T by auto
  let ?s = "s1\<lparr>avl := (avl s1)(n := (avl s1 n)\<lparr>a_left := a_left (avl s1 x), a_right := a_right (avl s1 x), a_balance := a_balance (avl s1 x)\<rparr>)\<rparr>"
  have magic: "a_magic (avl s1 n) = OSET_MAGIC" using n(5) r(7) by (simp add: writes_only_def)
  have w: "writes_only A s ?s" using r(7) n(6) by (auto simp: writes_only_def)
  show ?thesis
    by (rule shrinksI [where ch = ch and p = n and T = "\<langle>l, n, rt\<rangle>", OF _ _ _ _ _ _ w])
      (use r bal T in_lr nT n(3,4) magic in auto)
qed

lemma last_apart:
  assumes "distinct xs" and "xs \<noteq> []"
  shows "remove1 (last xs) xs = butlast xs" and "last xs \<notin> set (butlast xs)" and "butlast xs @ last xs # ys = xs @ ys"
  using assms by (induction xs rule: rev_induct) (auto simp: remove1_append)

lemma hd_apart:
  assumes "distinct xs" and "xs \<noteq> []"
  shows "remove1 (hd xs) xs = tl xs" and "hd xs \<notin> set (tl xs)" and "ys @ hd xs # tl xs = ys @ xs"
  using assms by (cases xs; simp)+

text \<open>The subtree of the balance gives the new root.\<close>

definition put_back :: "(bool \<times> nat \<times> avl_heap) res \<Rightarrow> nat \<Rightarrow> (bool \<times> nat \<times> avl_heap) res" where
  "put_back m n =
     bind_res m (\<lambda>(ch, r, s1). bind_res (get_node r s1) (\<lambda>y.
       bind_res (set_node n (\<lambda>z. z\<lparr>a_left := a_left y, a_right := a_right y, a_balance := a_balance y\<rparr>) s1) (\<lambda>s2.
       Inr (if a_balance y = 0 then ch else False, n, s2))))"

lemma removeroot_left:
  assumes c: "compares off c kf" and r: "removable off kf s x \<langle>L, x, R\<rangle>" and f: "fuel \<noteq> 0"
    and L: "L \<noteq> \<langle>\<rangle>" "height R \<le> height L"
    and ih: "\<And>n. n \<in> set_tree L \<Longrightarrow> shrinks s (set_tree L) False q (height L) (remove1 n (inorder L))
      (avl_remove (fuel - 1) off c (a_left (avl s x)) n s)"
  shows "shrinks s (set_tree \<langle>L, x, R\<rangle>) False q (height \<langle>L, x, R\<rangle>) (inorder L @ inorder R)
    (put_back (avl_remove fuel off c x (last (inorder L)) s) (last (inorder L)))"
proof -
  note N = removable_node [OF r]
  let ?n = "last (inorder L)"
  have "inorder L \<noteq> []" "distinct (inorder L)" using L N(5) by simp_all
  note A = last_apart [OF this(2,1)]
  have n: "?n \<in> set_tree L" using \<open>inorder L \<noteq> []\<close> by (metis last_in_set set_inorder)
  have nn: "?n \<noteq> 0" "a_magic (avl s ?n) = OSET_MAGIC" using n N(9) tree_in_nonnull by (metis tree_in.simps(2))+
  have "shrinks s (set_tree \<langle>L, x, R\<rangle>) True x (height \<langle>L, x, R\<rangle>) (butlast (inorder L) @ x # inorder R)
      (avl_remove fuel off c x ?n s)"
    using avl_remove_left [OF c r n f ih [OF n]] L(2) by (simp add: A(1))
  then have "shrinks s (set_tree \<langle>L, x, R\<rangle>) False q (height \<langle>L, x, R\<rangle>) (butlast (inorder L) @ ?n # inorder R)
      (put_back (avl_remove fuel off c x ?n s) ?n)"
    unfolding put_back_def
    by (rule relink_root) (use A(2) N(6-8) n nn in \<open>auto dest: in_set_butlastD\<close>)
  then show ?thesis by (simp only: A(3))
qed

lemma removeroot_right:
  assumes c: "compares off c kf" and r: "removable off kf s x \<langle>L, x, R\<rangle>" and f: "fuel \<noteq> 0"
    and R: "R \<noteq> \<langle>\<rangle>" "height L \<le> height R"
    and ih: "\<And>n. n \<in> set_tree R \<Longrightarrow> shrinks s (set_tree R) False q (height R) (remove1 n (inorder R))
      (avl_remove (fuel - 1) off c (a_right (avl s x)) n s)"
  shows "shrinks s (set_tree \<langle>L, x, R\<rangle>) False q (height \<langle>L, x, R\<rangle>) (inorder L @ inorder R)
    (put_back (avl_remove fuel off c x (hd (inorder R)) s) (hd (inorder R)))"
proof -
  note N = removable_node [OF r]
  let ?n = "hd (inorder R)"
  have "inorder R \<noteq> []" "distinct (inorder R)" using R N(5) by simp_all
  note A = hd_apart [OF this(2,1)]
  have n: "?n \<in> set_tree R" using \<open>inorder R \<noteq> []\<close> by (metis hd_in_set set_inorder)
  have nn: "?n \<noteq> 0" "a_magic (avl s ?n) = OSET_MAGIC" using n N(9) tree_in_nonnull by (metis tree_in.simps(2))+
  have "shrinks s (set_tree \<langle>L, x, R\<rangle>) True x (height \<langle>L, x, R\<rangle>) (inorder L @ x # tl (inorder R))
      (avl_remove fuel off c x ?n s)"
    using avl_remove_right [OF c r n f ih [OF n]] R(2) by (simp add: A(1))
  then have "shrinks s (set_tree \<langle>L, x, R\<rangle>) False q (height \<langle>L, x, R\<rangle>) (inorder L @ ?n # tl (inorder R))
      (put_back (avl_remove fuel off c x ?n s) ?n)"
    unfolding put_back_def
    by (rule relink_root) (use A(2) N(6-8) n nn in \<open>auto dest: list.set_sel(2) [rotated]\<close>)
  then show ?thesis by (simp only: A(3))
qed

lemma avl_removeroot_spec:
  assumes c: "compares off c kf" and r: "removable off kf s x \<langle>L, x, R\<rangle>" and f: "2 \<le> fuel" "height \<langle>L, x, R\<rangle> \<le> list_fuel"
    and ihL: "\<And>n. n \<in> set_tree L \<Longrightarrow> shrinks s (set_tree L) False q (height L) (remove1 n (inorder L))
      (avl_remove (fuel - 2) off c (a_left (avl s x)) n s)"
    and ihR: "\<And>n. n \<in> set_tree R \<Longrightarrow> shrinks s (set_tree R) False q (height R) (remove1 n (inorder R))
      (avl_remove (fuel - 2) off c (a_right (avl s x)) n s)"
  shows "shrinks s (set_tree \<langle>L, x, R\<rangle>) False q (height \<langle>L, x, R\<rangle>) (inorder L @ inorder R) (avl_removeroot fuel off c x s)"
proof -
  note N = removable_node [OF r]
  have t: "tree_in (avl s) (a_left (avl s x)) L" "tree_in (avl s) (a_right (avl s x)) R"
    "a_balance (avl s x) = int (height R) - int (height L)" "balanced L" "balanced R" using N(9,10) by simp_all
  have f1: "fuel \<noteq> 0" "fuel - 1 \<noteq> 0" "fuel - 1 - 1 = fuel - 2" using f(1) by simp_all
  consider "L = \<langle>\<rangle>" | "L \<noteq> \<langle>\<rangle>" "R = \<langle>\<rangle>" | "L \<noteq> \<langle>\<rangle>" "R \<noteq> \<langle>\<rangle>" by blast
  then show ?thesis
  proof cases
    case 1
    then have "avl_removeroot fuel off c x s = Inr (True, a_right (avl s x), s)"
      using f1(1) N(2) t(1) by (subst avl_removeroot.simps) simp
    then show ?thesis by (rule shrinksI) (use 1 t in simp_all)
  next
    case 2
    then have "a_left (avl s x) \<noteq> 0" by (intro notI) (use t(1) in simp)
    then have "avl_removeroot fuel off c x s = Inr (True, a_left (avl s x), s)"
      using f1(1) N(2) t(2) 2 by (subst avl_removeroot.simps) simp
    then show ?thesis by (rule shrinksI) (use 2 t in simp_all)
  next
    case 3
    have nz: "a_left (avl s x) \<noteq> 0" "a_right (avl s x) \<noteq> 0" by (rule notI; use 3 t(1,2) in simp)+
    have hLR: "height L \<le> list_fuel" "height R \<le> list_fuel" using f(2) by simp_all
    have step: "avl_removeroot fuel off c x s = put_back (avl_remove (fuel - 1) off c x n s) n"
      if "(if a_balance (avl s x) < 0 then rightmost list_fuel (a_left (avl s x)) s
           else leftmost list_fuel (a_right (avl s x)) s) = Inr n" for n
      using f1(1) N(2) nz that by (subst avl_removeroot.simps) (simp add: put_back_def)
    show ?thesis
    proof (cases "height R < height L")
      case True
      then have "avl_removeroot fuel off c x s =
          put_back (avl_remove (fuel - 1) off c x (last (inorder L)) s) (last (inorder L))"
        by (intro step) (use t(3) rightmost_spec [OF t(1) 3(1) hLR(1)] in simp)
      with removeroot_left [OF c r f1(2) 3(1), of q] ihL f1(3) True show ?thesis by simp
    next
      case False
      then have "avl_removeroot fuel off c x s =
          put_back (avl_remove (fuel - 1) off c x (hd (inorder R)) s) (hd (inorder R))"
        by (intro step) (use t(3) leftmost_spec [OF t(2) 3(2) hLR(2)] in simp)
      with removeroot_right [OF c r f1(2) 3(2), of q] ihR f1(3) False show ?thesis by simp
    qed
  qed
qed

lemma avl_remove_spec:
  assumes c: "compares off c kf"
  shows "removable off kf s p t \<Longrightarrow> n \<in> set_tree t \<Longrightarrow> 3 * height t \<le> fuel \<Longrightarrow> height t \<le> list_fuel \<Longrightarrow>
    shrinks s (set_tree t) False q (height t) (remove1 n (inorder t)) (avl_remove fuel off c p n s)"
proof (induction t arbitrary: p n fuel)
  case Leaf
  then show ?case by simp
next
  case (Node L x R)
  note N = removable_node [OF Node.prems(1)]
  have r: "removable off kf s x \<langle>L, x, R\<rangle>" using Node.prems(1) N(1) by simp
  have f: "fuel \<noteq> 0" "2 \<le> fuel - 1" "height L \<le> list_fuel" "height R \<le> list_fuel"
    "3 * height L \<le> fuel - 1" "3 * height R \<le> fuel - 1" "3 * height L \<le> fuel - 1 - 2" "3 * height R \<le> fuel - 1 - 2"
    using Node.prems(3,4) by auto
  consider "n \<in> set_tree L" | "n \<in> set_tree R" | "n = x" using Node.prems(2) by auto
  then show ?case
  proof cases
    case 1
    have "remove1 n (inorder \<langle>L, x, R\<rangle>) = remove1 n (inorder L) @ x # inorder R"
      using 1 by (simp add: remove1_append)
    with avl_remove_left [OF c r 1 f(1) Node.IH(1) [OF N(3) 1 f(5,3)]] N(1) show ?thesis
      unfolding shrinks_def by (metis (no_types))
  next
    case 2
    then have "n \<notin> set_tree L" "n \<noteq> x" using N(7,8) by auto
    then have "remove1 n (inorder \<langle>L, x, R\<rangle>) = inorder L @ x # remove1 n (inorder R)"
      by (simp add: remove1_append)
    with avl_remove_right [OF c r 2 f(1) Node.IH(2) [OF N(4) 2 f(6,4)]] N(1) show ?thesis
      unfolding shrinks_def by (metis (no_types))
  next
    case 3
    obtain i where i: "cmp_key_root off c x x s = Inr i" "x \<in> set_tree L \<longleftrightarrow> i < 0" "x \<in> set_tree R \<longleftrightarrow> i > 0"
      by (rule removable_cmp [OF c r]) auto
    then have "avl_remove fuel off c p n s = avl_removeroot (fuel - 1) off c x s"
      using 3 f(1) N(1,2,6,7) by (subst avl_remove.simps) simp
    moreover have "remove1 n (inorder \<langle>L, x, R\<rangle>) = inorder L @ inorder R" using 3 N(6) by (simp add: remove1_append)
    ultimately show ?thesis
      using avl_removeroot_spec [OF c r f(2) Node.prems(4) Node.IH(1) [OF N(3) _ f(7,3)] Node.IH(2) [OF N(4) _ f(8,4)]] by simp
  qed
qed

end
