(* ===== verification/Vg_Ordered.thy ===== *)
theory Vg_Ordered
  imports Vg_Avl_Remove Vg_Keyed
begin

text \<open>
  The ordered sets of \<open>m_oset.c\<close> as their clients see them: the invariant of a set, what each
  operation does to the nodes in order, the height of the tree, and the interface of keyed nodes,
  which sets of words provide.
\<close>

section \<open>The height of a balanced tree\<close>

text \<open>The least number of nodes of a balanced tree of a height.\<close>

fun min_size :: "nat \<Rightarrow> nat" where
  "min_size 0 = 0"
| "min_size (Suc 0) = 1"
| "min_size (Suc (Suc h)) = 1 + min_size (Suc h) + min_size h"

lemma min_size_step: "min_size h \<le> min_size (Suc h)"
  by (cases h) simp_all

lemma min_size_mono: "g \<le> h \<Longrightarrow> min_size g \<le> min_size h"
  by (rule lift_Suc_mono_le [where f = min_size]) (rule min_size_step)

lemma min_size_balanced: "balanced t \<Longrightarrow> min_size (height t) \<le> size t"
proof (induction t)
  case (Node l x r)
  then have ih: "min_size (height l) \<le> size l" "min_size (height r) \<le> size r" by simp_all
  consider "height l = height r" | "height l = Suc (height r)" | "height r = Suc (height l)"
    using Node.prems by fastforce
  then show ?case
  proof cases
    case 1
    then have "height \<langle>l, x, r\<rangle> = Suc (height r)" by simp
    moreover have "min_size (Suc (height r)) \<le> 1 + min_size (height r) + min_size (height r)"
      by (cases "height r") (simp_all add: min_size_step)
    ultimately show ?thesis using ih 1 by simp
  next
    case 2
    then have "height \<langle>l, x, r\<rangle> = Suc (Suc (height r))" by simp
    then show ?thesis using ih 2 by simp
  next
    case 3
    then have "height \<langle>l, x, r\<rangle> = Suc (Suc (height l))" by simp
    then show ?thesis using ih 3 by simp
  qed
qed simp

lemma min_size_power: "2 ^ (h div 2) \<le> min_size h + 1"
proof (induction h rule: min_size.induct)
  case (3 h)
  have "2 ^ (Suc (Suc h) div 2) = 2 * (2 ^ (h div 2) :: nat)" by simp
  also have "\<dots> \<le> 2 * (min_size h + 1)" using 3 by simp
  also have "\<dots> \<le> min_size (Suc (Suc h)) + 1" using min_size_step [of h] by simp
  finally show ?case .
qed simp_all

lemma balanced_height:
  assumes "balanced t" and "size t < 2 ^ 64"
  shows "height t < 130"
proof (rule ccontr)
  assume "\<not> height t < 130"
  then have "min_size 130 \<le> size t" using min_size_mono [of 130 "height t"] min_size_balanced [OF assms(1)] by simp
  moreover have "(2::nat) ^ 65 \<le> min_size 130 + 1" using min_size_power [of 130] by simp
  ultimately have "(2::nat) ^ 65 \<le> 2 ^ 64" using assms(2) by linarith
  then show False by simp
qed

section \<open>The invariant\<close>

definition oset_ok :: "(nat list \<Rightarrow> nat) \<Rightarrow> oset \<Rightarrow> avl_heap \<Rightarrow> nat tree \<Rightarrow> bool" where
  "oset_ok kf t s T \<longleftrightarrow>
     compares (keyOff t) (o_cmp t) kf \<and> removable (keyOff t) kf s (o_root t) T \<and> nElems t = int (size T)
     \<and> (\<forall>n\<in>set_tree T. n + sizeof_AvlNode < 2 ^ 64)
     \<and> length (nodeStack t) = STACK_MAX \<and> length (numStack t) = STACK_MAX"

lemma oset_ok_height:
  assumes "oset_ok kf t s T"
  shows "height T < 130" and "3 * height T \<le> list_fuel" and "height T \<le> list_fuel" and "size T < 2 ^ 64"
proof -
  have r: "removable (keyOff t) kf s (o_root t) T" and b: "balanced T" and u: "\<forall>n\<in>set_tree T. n + sizeof_AvlNode < 2 ^ 64"
    using assms by (simp_all add: oset_ok_def removable_def)
  have "distinct (inorder T)" using r ranked_distinct by (auto simp: removable_def)
  moreover have "0 < x \<and> x < (2::nat) ^ 64" if "x \<in> set (inorder T)" for x
    using that u r tree_in_nonnull [of "avl s" "o_root t" T x] by (fastforce simp: removable_def)
  ultimately have "length (inorder T) < 2 ^ 64" by (rule distinct_bounded_length) simp_all
  then show z: "size T < 2 ^ 64" by simp
  show "height T < 130" by (rule balanced_height [OF b z])
  then show "3 * height T \<le> list_fuel" "height T \<le> list_fuel" by (simp_all add: list_fuel_def)
qed

text \<open>A node that can be added, by its element.\<close>

definition fresh_elem :: "avl_heap \<Rightarrow> nat \<Rightarrow> bool" where
  "fresh_elem s e \<longleftrightarrow>
     sizeof_AvlNode < e \<and> e < 2 ^ 64 \<and> a_magic (avl s (e - sizeof_AvlNode)) = OSET_MAGIC \<and> elems s e \<noteq> []"

lemma elem_of_node_u64: "n + sizeof_AvlNode < 2 ^ 64 \<Longrightarrow> elem_of_node_no_check n = n + sizeof_AvlNode"
  by (simp add: elem_of_node_no_check_def)

lemma fresh_node:
  assumes "fresh_elem s e"
  shows "node_of_elem e s = Inr (e - sizeof_AvlNode)" and "elem_of_node_no_check (e - sizeof_AvlNode) = e"
proof -
  have e: "sizeof_AvlNode < e" "e < 2 ^ 64" using assms by (simp_all add: fresh_elem_def)
  have wrap: "u64 (m + 2 ^ 64) = u64 m" for m by (simp add: u64_def)
  have "e + 2 ^ 64 - sizeof_AvlNode = (e - sizeof_AvlNode) + 2 ^ 64" using e(1) by linarith
  then have "u64 (e + 2 ^ 64 - sizeof_AvlNode) = e - sizeof_AvlNode"
    using e by (simp only: wrap) simp
  then show "node_of_elem e s = Inr (e - sizeof_AvlNode)"
    using assms by (simp add: node_of_elem_def Let_def get_node_def fresh_elem_def)
  show "elem_of_node_no_check (e - sizeof_AvlNode) = e" using assms by (simp add: elem_of_node_no_check_def fresh_elem_def)
qed

lemma oset_ok_node:
  assumes "oset_ok kf t s T" and "n \<in> set_tree T"
  shows "n \<noteq> 0" and "a_magic (avl s n) = OSET_MAGIC" and "elem_words s n \<noteq> []"
    and "elem_of_node_no_check n = n + sizeof_AvlNode" and "elem_of_node n s = Inr (n + sizeof_AvlNode)"
    and "n + sizeof_AvlNode < 2 ^ 64"
proof -
  show n: "n \<noteq> 0" "a_magic (avl s n) = OSET_MAGIC" "elem_words s n \<noteq> []" "n + sizeof_AvlNode < 2 ^ 64"
    using assms tree_in_nonnull [of "avl s" "o_root t" T n] by (auto simp: oset_ok_def removable_def)
  then show "elem_of_node_no_check n = n + sizeof_AvlNode" by (intro elem_of_node_u64)
  then show "elem_of_node n s = Inr (n + sizeof_AvlNode)" using n by (simp add: elem_of_node_ok)
qed

lemma removable_same:
  assumes e: "elems s' = elems s" and "tree_in (avl s') p' t'" and "balanced t'"
    and "ranked (rank off kf s) t'" and "\<forall>a\<in>set_tree t'. elem_words s a \<noteq> []"
  shows "removable off kf s' p' t'"
  using assms(2-) unfolding removable_def rank_same [OF e] e by blast

lemma OSetGen_Create_ok:
  assumes "compares off c kf"
  shows "\<exists>t. OSetGen_Create off c = Inr t \<and> oset_ok kf t s \<langle>\<rangle> \<and> keyOff t = off \<and> o_cmp t = c"
proof -
  have "c \<noteq> None \<or> off = 0" using assms by (cases c) (auto simp: compares_def)
  with assms show ?thesis by (auto simp: OSetGen_Create_def stackClear_def oset_ok_def removable_def)
qed

lemma OSetGen_Create_With_Pool_ok:
  assumes "compares off c kf" and "100 \<le> poolSize" and "0 < eltSize" "eltSize < 2 ^ 63"
  shows "\<exists>t pa. OSetGen_Create_With_Pool off c poolSize eltSize words = Inr (t, pa) \<and> oset_ok kf t s \<langle>\<rangle>
    \<and> node_pa t \<and> nrRef pa = 1 \<and> sizeof_AvlNode + eltSize \<le> pa_elemSzB pa"
proof -
  from OSetGen_Create_ok [OF assms(1), of s] obtain t where
    t: "OSetGen_Create off c = Inr t" "oset_ok kf t s \<langle>\<rangle>" by blast
  let ?r = "eltSize + 7 - (eltSize + 7) mod 8"
  have "?r = (eltSize + 7) div 8 * 8" by (simp add: minus_mod_eq_div_mult)
  then have r: "?r mod 8 = 0" "eltSize \<le> ?r" "?r < 2 ^ 63 + 7" using assms(3,4) by simp_all
  have "VG_ROUNDUP eltSize 8 = ?r" using assms(4) by (simp add: VG_ROUNDUP_def add.commute)
  then have z: "u64 (sizeof_AvlNode + VG_ROUNDUP eltSize 8) = sizeof_AvlNode + ?r" "(sizeof_AvlNode + ?r) mod 8 = 0"
    using r(3) mod_add_eq [of sizeof_AvlNode 8 ?r] by (simp_all add: sizeof_AvlNode_def r(1))
  with t assms(2,3) r(2) show ?thesis
    by (auto simp: OSetGen_Create_With_Pool_def newPA_def newXA_def addRefPA_def oset_ok_def sizeof_AvlNode_def)
qed

lemma OSetGen_AllocNode_fresh:
  assumes "n \<noteq> 0" and "n + sizeof_AvlNode < 2 ^ 64" and "0 < w" and "node_pa t \<Longrightarrow> 8 * w \<le> maxEltSize t"
  shows "\<exists>s'. OSetGen_AllocNode t n w s = Inr (n + sizeof_AvlNode, s') \<and> fresh_elem s' (n + sizeof_AvlNode)"
  using assms by (auto simp: OSetGen_AllocNode_def elem_of_node_def elem_of_node_no_check_def fresh_elem_def)

lemma ranked_iff:
  "ranked rk t \<longleftrightarrow> sorted (map rk (inorder t)) \<and> distinct (inorder t) \<and> inj_on rk (set_tree t)"
  for rk :: "'a \<Rightarrow> nat"
  by (auto simp: strict_sorted_iff distinct_map)

lemma ranked_insort:
  assumes "ranked rk t" and "n \<notin> set_tree t" "rk n \<notin> rk ` set_tree t" and "inorder t' = insort_key rk n (inorder t)"
  shows "ranked rk t'" and "set_tree t' = insert n (set_tree t)"
proof -
  have s: "set (inorder t') = insert n (set (inorder t))" using assms(4) by (simp add: set_insort_key)
  then show s': "set_tree t' = insert n (set_tree t)" by simp
  have "inj_on rk (set_tree t')" using assms(1-3) unfolding ranked_iff s' by (simp add: inj_on_insert)
  with assms show "ranked rk t'" unfolding ranked_iff by (simp add: sorted_insort_key distinct_insort)
qed

lemma ranked_remove1:
  assumes "ranked rk t" and "inorder t' = remove1 n (inorder t)"
  shows "ranked rk t'" and "set_tree t' = set_tree t - {n}"
proof -
  have d: "distinct (inorder t)" by (rule ranked_distinct [OF assms(1)])
  have "set (inorder t') = set (inorder t) - {n}" using assms(2) d by (simp add: set_remove1_eq)
  then show s': "set_tree t' = set_tree t - {n}" by simp
  have "inorder t' = filter ((\<noteq>) n) (inorder t)" using assms(2) d by (simp add: distinct_remove1_removeAll removeAll_filter_not_eq)
  moreover have "inj_on rk (set_tree t')" using assms(1) unfolding ranked_iff s' by (blast intro: inj_on_subset)
  ultimately show "ranked rk t'" using assms(1) unfolding ranked_iff by (simp add: sorted_filter)
qed

section \<open>The operations\<close>

text \<open>Nothing but the set itself changes outside of the tree, and the elements stay as they are.\<close>

definition same_kind :: "oset \<Rightarrow> oset \<Rightarrow> bool" where
  "same_kind t t' \<longleftrightarrow> keyOff t' = keyOff t \<and> o_cmp t' = o_cmp t"

lemma OSetGen_Insert_ok:
  assumes ok: "oset_ok kf t s T" and e: "fresh_elem s e" "e - sizeof_AvlNode \<notin> set_tree T"
    and k: "rank (keyOff t) kf s (e - sizeof_AvlNode) \<notin> rank (keyOff t) kf s ` set_tree T"
  shows "\<exists>t' s' T'. OSetGen_Insert e t s = Inr (t', s') \<and> oset_ok kf t' s' T' \<and> same_kind t t'
    \<and> inorder T' = insort_key (rank (keyOff t) kf s) (e - sizeof_AvlNode) (inorder T)
    \<and> writes_only (insert (e - sizeof_AvlNode) (set_tree T)) s s'"
proof -
  define n where "n = e - sizeof_AvlNode"
  let ?rk = "rank (keyOff t) kf s" and ?s = "s\<lparr>avl := (avl s)(n := (avl s n)\<lparr>a_left := 0, a_right := 0, a_balance := 0\<rparr>)\<rparr>"
  have c: "compares (keyOff t) (o_cmp t) kf" and rem: "removable (keyOff t) kf s (o_root t) T" using ok by (simp_all add: oset_ok_def)
  note R = rem [unfolded removable_def]
  have n: "n \<noteq> 0" "a_magic (avl s n) = OSET_MAGIC" "elem_words s n \<noteq> []" "node_of_elem e s = Inr n"
    "n + sizeof_AvlNode < 2 ^ 64" "n \<notin> set_tree T" "?rk n \<notin> ?rk ` set_tree T"
    using e k fresh_node [OF e(1)] by (auto simp: fresh_elem_def n_def)
  have w: "writes_only {n} s ?s" by (simp add: writes_only_def)
  have sT: "tree_in (avl ?s) (o_root t) T" using R n(6) by simp
  have rk: "rank (keyOff t) kf ?s = ?rk" by (rule rank_same) simp
  have out: "oset_ok kf (t\<lparr>o_root := r, nElems := nElems t + 1, stackTop := 0\<rparr>) s' T'"
    if "tree_in (avl s') r T'" "balanced T'" "inorder T' = insort_key ?rk n (inorder T)" "elems s' = elems s" for r s' T'
  proof -
    have rT: "ranked ?rk T" using R by blast
    note I = ranked_insort [OF rT n(6,7) that(3)]
    have "length (inorder T') = Suc (length (inorder T))" using that(3) by simp
    then have "size T' = Suc (size T)" by simp
    moreover have "removable (keyOff t) kf s' r T'"
      by (rule removable_same [OF that(4,1,2) I(1)]) (use R n(3) I(2) in auto)
    ultimately show ?thesis using ok n(5) I(2) by (auto simp: oset_ok_def)
  qed
  show ?thesis
  proof (cases "T = \<langle>\<rangle>")
    case True
    then have z: "o_root t = 0" using R by simp
    have "OSetGen_Insert e t s = Inr (t\<lparr>o_root := n, nElems := nElems t + 1, stackTop := 0\<rparr>, ?s)"
      using z n(1,4) by (simp add: OSetGen_Insert_def)
    moreover have "oset_ok kf (t\<lparr>o_root := n, nElems := nElems t + 1, stackTop := 0\<rparr>) ?s \<langle>\<langle>\<rangle>, n, \<langle>\<rangle>\<rangle>"
      by (rule out) (use n True in simp_all)
    ultimately show ?thesis using True w unfolding n_def [symmetric]
      by (intro exI [of _ "t\<lparr>o_root := n, nElems := nElems t + 1, stackTop := 0\<rparr>"] exI [of _ ?s]
        exI [of _ "\<langle>\<langle>\<rangle>, n, \<langle>\<rangle>\<rangle>"]) (simp add: same_kind_def)
  next
    case False
    then have z: "o_root t \<noteq> 0" by (intro notI) (use R in simp)
    have "grows ?s (insert n (set_tree T)) (o_root t) (height T) (insort_key ?rk n (inorder T))
        (avl_insert list_fuel (keyOff t) (o_cmp t) (o_root t) n ?s)"
      unfolding rk [symmetric]
      by (rule avl_insert_spec [OF c _ _ _ _ _ _ sT False]) (use R n oset_ok_height(3) [OF ok] in \<open>simp_all add: rk\<close>)
    then obtain g p s' T' where
      r: "avl_insert list_fuel (keyOff t) (o_cmp t) (o_root t) n ?s = Inr (g, p, s')" "tree_in (avl s') p T'" "balanced T'"
        "inorder T' = insort_key ?rk n (inorder T)" "writes_only (insert n (set_tree T)) ?s s'" by (rule growsE) blast
    have w': "writes_only (insert n (set_tree T)) s s'" by (rule writes_only_trans [OF w r(5)]) auto
    have "OSetGen_Insert e t s = Inr (t\<lparr>o_root := p, nElems := nElems t + 1, stackTop := 0\<rparr>, s')"
      using z n(1,4) r(1) by (simp add: OSetGen_Insert_def)
    moreover have "oset_ok kf (t\<lparr>o_root := p, nElems := nElems t + 1, stackTop := 0\<rparr>) s' T'"
      by (rule out [OF r(2-4)]) (use w' in \<open>simp add: writes_only_def\<close>)
    ultimately show ?thesis using r(4) w' unfolding n_def [symmetric] by (force simp: same_kind_def)
  qed
qed

text \<open>An element whose key is in the set is refused.\<close>

lemma avl_insert_duplicate:
  assumes c: "compares off c kf" and n: "n \<noteq> 0" "a_magic (avl s n) = OSET_MAGIC" "elem_words s n \<noteq> []"
  shows "removable off kf s p t \<Longrightarrow> rank off kf s n \<in> rank off kf s ` set_tree t \<Longrightarrow> height t \<le> fuel \<Longrightarrow>
    avl_insert fuel off c p n s = Inl Abort"
proof (induction t arbitrary: p fuel)
  case Leaf
  then show ?case by simp
next
  case (Node L x R)
  let ?rk = "rank off kf s"
  note N = removable_node [OF Node.prems(1)]
  have rk: "ranked ?rk \<langle>L, x, R\<rangle>" using Node.prems(1) by (simp only: removable_def)
  have x: "a_magic (avl s x) = OSET_MAGIC" "elem_words s x \<noteq> []" using Node.prems(1) by (simp_all add: removable_def)
  from cmp_key_root_spec [OF c n N(2) x] obtain i where
    i: "cmp_key_root off c x n s = Inr i" "i < 0 \<longleftrightarrow> ?rk n < ?rk x" "i > 0 \<longleftrightarrow> ?rk n > ?rk x" by blast
  have f: "fuel \<noteq> 0" "height L \<le> fuel - 1" "height R \<le> fuel - 1" using Node.prems(3) by auto
  have ord: "\<forall>a\<in>set_tree L. ?rk a < ?rk x" "\<forall>a\<in>set_tree R. ?rk x < ?rk a" using rk unfolding ranked_node by simp_all
  consider "?rk n < ?rk x" | "?rk n > ?rk x" | "?rk n = ?rk x" by linarith
  then show ?case
  proof cases
    case 1
    then have m: "?rk n \<in> ?rk ` set_tree L" using Node.prems(2) ord(2) by fastforce
    then have "a_left (avl s x) \<noteq> 0" by (intro notI) (use N(9) in auto)
    then show ?thesis using Node.IH(1) [OF N(3) m f(2)] f(1) i N(1,2) 1 by (subst avl_insert.simps) simp
  next
    case 2
    then have m: "?rk n \<in> ?rk ` set_tree R" using Node.prems(2) ord(1) by fastforce
    then have "a_right (avl s x) \<noteq> 0" by (intro notI) (use N(9) in auto)
    then show ?thesis using Node.IH(2) [OF N(4) m f(3)] f(1) i N(1,2) 2 by (subst avl_insert.simps) simp
  next
    case 3
    then show ?thesis using f(1) i N(1,2) by (subst avl_insert.simps) simp
  qed
qed

lemma avl_lookup_ok:
  assumes ok: "oset_ok kf t s T" and k: "o_cmp t = None \<Longrightarrow> k \<noteq> []"
  shows "avl_lookup t k s = Inr (tree_find (rank (keyOff t) kf s) (kf k) T)"
proof (cases "o_cmp t")
  case None
  then obtain w ws where "k = w # ws" using k by (auto simp: neq_Nil_conv)
  with None fast_lookup_find [of "keyOff t" kf s "o_root t" T list_fuel w] ok oset_ok_height(3) [OF ok] show ?thesis
    by (simp add: avl_lookup_def first_word_def oset_ok_def removable_def compares_def)
next
  case (Some f)
  with slow_lookup_find [of "keyOff t" f kf s "o_root t" T list_fuel k] ok oset_ok_height(3) [OF ok] show ?thesis
    by (simp add: avl_lookup_def oset_ok_def removable_def)
qed

text \<open>A search returns the element with the key, or none.\<close>

definition finds :: "(nat list \<Rightarrow> nat) \<Rightarrow> oset \<Rightarrow> avl_heap \<Rightarrow> nat tree \<Rightarrow> nat list \<Rightarrow> nat \<Rightarrow> bool" where
  "finds kf t s T k n \<longleftrightarrow>
     (n = 0 \<and> kf k \<notin> rank (keyOff t) kf s ` set_tree T \<or> n \<in> set_tree T \<and> rank (keyOff t) kf s n = kf k)"

lemma tree_find_finds: "oset_ok kf t s T \<Longrightarrow> finds kf t s T k (tree_find (rank (keyOff t) kf s) (kf k) T)"
  unfolding finds_def by (rule tree_find_spec) (simp add: oset_ok_def removable_def)

lemma OSetGen_Lookup_ok:
  assumes ok: "oset_ok kf t s T" and k: "o_cmp t = None \<Longrightarrow> k \<noteq> []"
  shows "\<exists>n. finds kf t s T k n \<and> OSetGen_Lookup t k s = Inr (if n = 0 then 0 else n + sizeof_AvlNode)"
proof -
  let ?n = "tree_find (rank (keyOff t) kf s) (kf k) T"
  note F = tree_find_finds [OF ok, of k]
  have "OSetGen_Lookup t k s = Inr (if ?n = 0 then 0 else ?n + sizeof_AvlNode)"
    using F avl_lookup_ok [OF ok k] oset_ok_node(5) [OF ok] by (auto simp: OSetGen_Lookup_def finds_def)
  with F show ?thesis by blast
qed

lemma OSetGen_Remove_ok:
  assumes ok: "oset_ok kf t s T" and k: "o_cmp t = None \<Longrightarrow> k \<noteq> []"
  shows "\<exists>n t' s' T'. finds kf t s T k n \<and> OSetGen_Remove k t s = Inr (if n = 0 then 0 else n + sizeof_AvlNode, t', s')
    \<and> oset_ok kf t' s' T' \<and> same_kind t t' \<and> inorder T' = remove1 n (inorder T) \<and> writes_only (set_tree T) s s'"
proof -
  let ?rk = "rank (keyOff t) kf s"
  define n where "n = tree_find ?rk (kf k) T"
  have F: "finds kf t s T k n" unfolding n_def by (rule tree_find_finds [OF ok])
  have l: "avl_lookup t k s = Inr n" unfolding n_def by (rule avl_lookup_ok [OF ok k])
  have c: "compares (keyOff t) (o_cmp t) kf" and rem: "removable (keyOff t) kf s (o_root t) T" using ok by (simp_all add: oset_ok_def)
  note R = rem [unfolded removable_def]
  show ?thesis
  proof (cases "n = 0")
    case True
    then have "n \<notin> set_tree T" using R tree_in_nonnull by blast
    then have "remove1 n (inorder T) = inorder T" by (simp add: remove1_idem)
    with True F l ok show ?thesis
      by (intro exI [of _ n] exI [of _ t] exI [of _ s] exI [of _ T]) (simp add: OSetGen_Remove_def same_kind_def)
  next
    case False
    then have n: "n \<in> set_tree T" using F by (simp add: finds_def)
    from avl_remove_spec [OF c rem n oset_ok_height(2,3) [OF ok], where q = 0] obtain ch p s' T' where
      r: "avl_remove list_fuel (keyOff t) (o_cmp t) (o_root t) n s = Inr (ch, p, s')" "tree_in (avl s') p T'" "balanced T'"
        "inorder T' = remove1 n (inorder T)" "writes_only (set_tree T) s s'" by (rule shrinksE) blast
    let ?t = "t\<lparr>o_root := p, nElems := nElems t - 1, stackTop := 0\<rparr>"
    have rT: "ranked ?rk T" using R by blast
    note I = ranked_remove1 [OF rT r(4)]
    have e: "elems s' = elems s" and m: "a_magic (avl s' n) = OSET_MAGIC"
      using r(5) oset_ok_node(2) [OF ok n] by (simp_all add: writes_only_def)
    have el: "elem_of_node n s' = Inr (n + sizeof_AvlNode)"
      using m False oset_ok_node(4) [OF ok n] by (simp add: elem_of_node_ok)
    have "OSetGen_Remove k t s = Inr (n + sizeof_AvlNode, ?t, s')"
      using False l r(1) el by (simp add: OSetGen_Remove_def)
    moreover have "removable (keyOff t) kf s' p T'"
      by (rule removable_same [OF e r(2,3) I(1)]) (use R I(2) in blast)
    moreover have "length (inorder T') = length (inorder T) - 1" using r(4) n by (simp add: length_remove1)
    then have "int (size T') = int (size T) - 1" using n by (cases T) simp_all
    ultimately have "oset_ok kf ?t s' T'" using ok I(2) by (auto simp: oset_ok_def)
    with F r(4,5) False \<open>OSetGen_Remove k t s = _\<close> show ?thesis
      by (intro exI [of _ n] exI [of _ ?t] exI [of _ s'] exI [of _ T']) (simp add: same_kind_def)
  qed
qed

section \<open>Sets of words\<close>

text \<open>A set without a comparison function; its elements start with their keys.\<close>

definition words_hold :: "oset \<times> avl_heap \<Rightarrow> nat set \<Rightarrow> bool" where
  "words_hold = (\<lambda>(t, s) N. o_cmp t = None \<and> (\<exists>T. oset_ok hd t s T \<and> N = (\<lambda>n. n + sizeof_AvlNode) ` set_tree T))"

definition word_of :: "oset \<times> avl_heap \<Rightarrow> nat \<Rightarrow> nat" where
  "word_of = (\<lambda>(t, s) e. hd (elems s e))"

definition words_fit :: "oset \<times> avl_heap \<Rightarrow> nat \<Rightarrow> bool" where
  "words_fit = (\<lambda>(t, s) e. fresh_elem s e)"

definition words_add :: "nat \<Rightarrow> oset \<times> avl_heap \<Rightarrow> (oset \<times> avl_heap) res" where
  "words_add e = (\<lambda>(t, s). OSetGen_Insert e t s)"

definition words_remove :: "nat \<Rightarrow> oset \<times> avl_heap \<Rightarrow> (nat \<times> oset \<times> avl_heap) res" where
  "words_remove k = (\<lambda>(t, s). OSetGen_Remove [k] t s)"

definition words_lookup :: "nat \<Rightarrow> oset \<times> avl_heap \<Rightarrow> nat res" where
  "words_lookup k = (\<lambda>(t, s). OSetGen_Lookup t [k] s)"

lemmas words_defs = words_hold_def word_of_def words_fit_def words_add_def words_remove_def words_lookup_def

lemma words_rank:
  assumes "oset_ok hd t s T" and "o_cmp t = None" and "n \<in> set_tree T"
  shows "rank (keyOff t) hd s n = hd (elems s (n + sizeof_AvlNode))"
  using assms oset_ok_node(4) [OF assms(1,3)] by (simp add: rank_def key_part_def oset_ok_def compares_def)

lemma words_finds:
  assumes ok: "oset_ok hd t s T" and c: "o_cmp t = None" and f: "finds hd t s T [k] n"
  shows "n = 0 \<and> (\<forall>a\<in>set_tree T. hd (elems s (a + sizeof_AvlNode)) \<noteq> k)
    \<or> n \<noteq> 0 \<and> n \<in> set_tree T \<and> hd (elems s (n + sizeof_AvlNode)) = k"
  using f words_rank [OF ok c] oset_ok_node(1) [OF ok] by (fastforce simp: finds_def)

lemma words_add_law:
  assumes h: "words_hold v N" and e: "words_fit v e" "e \<notin> N" "\<forall>q\<in>N. word_of v q \<noteq> word_of v e"
  shows "\<exists>v'. words_add e v = Inr v' \<and> words_hold v' (insert e N) \<and> (\<forall>q. word_of v' q = word_of v q \<and> words_fit v' q = words_fit v q)"
proof -
  obtain t s T where v: "v = (t, s)" "o_cmp t = None" "oset_ok hd t s T" "N = (\<lambda>n. n + sizeof_AvlNode) ` set_tree T"
    using h by (cases v) (auto simp: words_hold_def)
  define n where "n = e - sizeof_AvlNode"
  have f: "fresh_elem s e" using e(1) v(1) by (simp add: words_fit_def)
  then have n: "e = n + sizeof_AvlNode" by (simp add: fresh_elem_def n_def)
  have nT: "n \<notin> set_tree T" using e(2) v(4) n by blast
  have "rank (keyOff t) hd s n = word_of v e"
    using fresh_node(2) [OF f] v(1-3) by (simp add: rank_def key_part_def oset_ok_def compares_def word_of_def n_def)
  moreover have "rank (keyOff t) hd s a = word_of v (a + sizeof_AvlNode)" if "a \<in> set_tree T" for a
    using words_rank [OF v(3,2) that] v(1) by (simp add: word_of_def)
  ultimately have "rank (keyOff t) hd s n \<notin> rank (keyOff t) hd s ` set_tree T" using e(3) v(4) by fastforce
  with OSetGen_Insert_ok [OF v(3) f] nT obtain t' s' T' where
    r: "OSetGen_Insert e t s = Inr (t', s')" "oset_ok hd t' s' T'" "same_kind t t'"
      "inorder T' = insort_key (rank (keyOff t) hd s) n (inorder T)" "writes_only (insert n (set_tree T)) s s'"
    unfolding n_def by blast
  have "set (inorder T') = insert n (set (inorder T))" by (simp only: r(4) set_insort_key)
  then have "insert e N = (\<lambda>n. n + sizeof_AvlNode) ` set_tree T'" using v(4) n by simp
  with r v(1,2) show ?thesis
    by (auto simp: words_defs same_kind_def fresh_elem_def writes_only_def)
qed

lemma words_remove_law:
  assumes h: "words_hold v N"
  shows "\<exists>r v'. words_remove k v = Inr (r, v') \<and> (\<forall>q. word_of v' q = word_of v q \<and> words_fit v' q = words_fit v q)
    \<and> (r = 0 \<and> (\<forall>p\<in>N. word_of v p \<noteq> k) \<and> words_hold v' N \<or> r \<in> N \<and> word_of v r = k \<and> words_hold v' (N - {r}))"
proof -
  obtain t s T where v: "v = (t, s)" "o_cmp t = None" "oset_ok hd t s T" "N = (\<lambda>n. n + sizeof_AvlNode) ` set_tree T"
    using h by (cases v) (auto simp: words_hold_def)
  from OSetGen_Remove_ok [OF v(3), of "[k]"] obtain n t' s' T' where
    r: "finds hd t s T [k] n" "OSetGen_Remove [k] t s = Inr (if n = 0 then 0 else n + sizeof_AvlNode, t', s')"
      "oset_ok hd t' s' T'" "same_kind t t'" "inorder T' = remove1 n (inorder T)" "writes_only (set_tree T) s s'" by auto
  have d: "distinct (inorder T)" using v(3) ranked_distinct by (auto simp: oset_ok_def removable_def)
  have "set (inorder T') = set (inorder T) - {n}" unfolding r(5) by (rule set_remove1_eq [OF d])
  then have sT: "set_tree T' = set_tree T - {n}" by simp
  have same: "word_of (t', s') q = word_of v q \<and> words_fit (t', s') q = words_fit v q" for q
    using r(6) v(1) by (simp add: word_of_def words_fit_def fresh_elem_def writes_only_def)
  have hold: "words_hold (t', s') ((\<lambda>n. n + sizeof_AvlNode) ` (set_tree T - {n}))"
    using r(3,4) v(2) sT by (auto simp: words_hold_def same_kind_def)
  have "(if n = 0 then 0 else n + sizeof_AvlNode) = 0 \<and> (\<forall>p\<in>N. word_of v p \<noteq> k) \<and> words_hold (t', s') N
      \<or> (if n = 0 then 0 else n + sizeof_AvlNode) \<in> N \<and> word_of v (if n = 0 then 0 else n + sizeof_AvlNode) = k
        \<and> words_hold (t', s') (N - {if n = 0 then 0 else n + sizeof_AvlNode})"
    using words_finds [OF v(3,2) r(1)]
  proof (elim disjE conjE)
    assume z: "n = 0" "\<forall>a\<in>set_tree T. hd (elems s (a + sizeof_AvlNode)) \<noteq> k"
    then have "set_tree T - {n} = set_tree T" using oset_ok_node(1) [OF v(3)] by blast
    then show ?thesis using z hold v(1,4) by (auto simp: word_of_def)
  next
    assume z: "n \<noteq> 0" "n \<in> set_tree T" "hd (elems s (n + sizeof_AvlNode)) = k"
    have "N - {n + sizeof_AvlNode} = (\<lambda>n. n + sizeof_AvlNode) ` (set_tree T - {n})" using v(4) by auto
    then show ?thesis using z hold v(1,4) by (simp add: word_of_def)
  qed
  with r(2) v(1) same show ?thesis by (auto simp: words_remove_def)
qed

lemma words_lookup_law:
  assumes h: "words_hold v N"
  shows "\<exists>r. words_lookup k v = Inr r \<and> (r = 0 \<and> (\<forall>p\<in>N. word_of v p \<noteq> k) \<or> r \<in> N \<and> word_of v r = k)"
proof -
  obtain t s T where v: "v = (t, s)" "o_cmp t = None" "oset_ok hd t s T" "N = (\<lambda>n. n + sizeof_AvlNode) ` set_tree T"
    using h by (cases v) (auto simp: words_hold_def)
  from OSetGen_Lookup_ok [OF v(3), of "[k]"] obtain n where
    r: "finds hd t s T [k] n" "OSetGen_Lookup t [k] s = Inr (if n = 0 then 0 else n + sizeof_AvlNode)" by auto
  with words_finds [OF v(3,2) r(1)] v(1,4) show ?thesis by (auto simp: words_lookup_def word_of_def)
qed

interpretation words: keyed_table words_hold word_of words_fit words_add words_remove words_lookup "2 ^ 64"
  by unfold_locales (rule words_add_law words_remove_law words_lookup_law; assumption)+

end
