(* ===== verification/Vg_Oset_Iter.thy ===== *)
theory Vg_Oset_Iter
  imports Vg_Ordered
begin

text \<open>
  The iterator of the ordered sets: what its stack stands for, and the nodes that \<open>OSetGen_Next\<close>
  still has to return. The stack has 32 places, one for each level of the tree.
\<close>

section \<open>The stack\<close>

text \<open>The entries from the bottom: a subtree and how far the walk through it has come.\<close>

definition stack_in :: "(nat \<Rightarrow> avl_node) \<Rightarrow> oset \<Rightarrow> (nat tree \<times> nat) list \<Rightarrow> bool" where
  "stack_in f t es \<longleftrightarrow>
     stackTop t = length es \<and> length (nodeStack t) = STACK_MAX \<and> length (numStack t) = STACK_MAX
     \<and> (\<forall>j<length es. fst (es ! j) \<noteq> \<langle>\<rangle> \<and> tree_in f (nodeStack t ! j) (fst (es ! j)) \<and> numStack t ! j = snd (es ! j)
          \<and> 1 \<le> snd (es ! j) \<and> snd (es ! j) \<le> 3 \<and> j + height (fst (es ! j)) \<le> STACK_MAX)"

definition same_set :: "oset \<Rightarrow> oset \<Rightarrow> bool" where
  "same_set t t' \<longleftrightarrow> keyOff t' = keyOff t \<and> o_cmp t' = o_cmp t \<and> nElems t' = nElems t \<and> o_root t' = o_root t"

lemma same_set_refl [simp]: "same_set t t"
  by (simp add: same_set_def)

lemma same_set_trans: "same_set t t1 \<Longrightarrow> same_set t1 t2 \<Longrightarrow> same_set t t2"
  by (simp add: same_set_def)

lemma stack_length:
  assumes "stack_in f t es"
  shows "length es \<le> STACK_MAX"
proof (cases es rule: rev_cases)
  case (snoc es' e)
  then have "fst e \<noteq> \<langle>\<rangle>" "length es' + height (fst e) \<le> STACK_MAX"
    using assms by (auto simp: stack_in_def nth_append all_conj_distrib)
  moreover have "0 < height (fst e)" using \<open>fst e \<noteq> \<langle>\<rangle>\<close> by (cases "fst e") auto
  ultimately show ?thesis using snoc by simp
qed simp

lemma stack_push:
  assumes "stack_in f t es" and "tree_in f p T" "T \<noteq> \<langle>\<rangle>" and "length es + height T \<le> STACK_MAX" and "1 \<le> i" "i \<le> 3"
  obtains t' where "stackPush p i t = Inr t'" and "stack_in f t' (es @ [(T, i)])" and "same_set t t'"
proof -
  let ?t = "t\<lparr>nodeStack := (nodeStack t)[stackTop t := p], numStack := (numStack t)[stackTop t := i], stackTop := stackTop t + 1\<rparr>"
  have "0 < height T" using assms(3) by (cases T) auto
  then have l: "length es < STACK_MAX" using assms(4) by linarith
  have top: "stackTop t = length es" using assms(1) by (simp add: stack_in_def)
  have "stackPush p i t = Inr ?t" using l top assms(5,6) by (simp add: stackPush_def)
  moreover have "stack_in f ?t (es @ [(T, i)])"
    using assms l by (auto simp: stack_in_def nth_append less_Suc_eq nth_list_update)
  ultimately show ?thesis by (rule that) (simp add: same_set_def)
qed

lemma stack_pop:
  assumes "stack_in f t (es @ [(T, i)])"
  obtains t' p where "stackPop t = Inr (Some (p, i), t')" and "tree_in f p T" and "T \<noteq> \<langle>\<rangle>" and "stack_in f t' es"
    and "same_set t t'" and "length es + height T \<le> STACK_MAX" and "1 \<le> i" and "i \<le> 3"
proof -
  let ?p = "nodeStack t ! length es"
  let ?t = "t\<lparr>nodeStack := (nodeStack t)[length es := 0], numStack := (numStack t)[length es := 0], stackTop := length es\<rparr>"
  have top: "stackTop t = Suc (length es)" using assms by (simp add: stack_in_def)
  have e: "tree_in f ?p T" "T \<noteq> \<langle>\<rangle>" "numStack t ! length es = i" "1 \<le> i" "i \<le> 3" "length es + height T \<le> STACK_MAX"
    using assms by (auto simp: stack_in_def nth_append all_conj_distrib less_Suc_eq)
  have pop: "stackPop t = Inr (Some (?p, i), ?t)"
    using top e stack_length [OF assms] by (simp add: stackPop_def Let_def)
  have "stack_in f ?t es"
    using assms by (auto simp: stack_in_def nth_append less_Suc_eq)
  then show ?thesis by (rule that [OF pop e(1,2) _ _ e(6,4,5)]) (simp add: same_set_def)
qed

lemma stack_empty: "stack_in f t [] \<Longrightarrow> stackPop t = Inr (None, t)"
  by (simp add: stack_in_def stackPop_def)

lemma stack_clear: "stack_in f (stackClear t) []"
  by (simp add: stack_in_def stackClear_def)

section \<open>What is left to return\<close>

fun rest_of_walk :: "nat tree \<times> nat \<Rightarrow> nat list" where
  "rest_of_walk (\<langle>\<rangle>, i) = []"
| "rest_of_walk (\<langle>l, x, r\<rangle>, i) = (if i = 1 then inorder l @ x # inorder r else if i = 2 then x # inorder r else inorder r)"

definition to_come :: "(nat tree \<times> nat) list \<Rightarrow> nat list" where
  "to_come es = concat (map rest_of_walk (rev es))"

lemma to_come_simps [simp]: "to_come [] = []" "to_come (es @ [e]) = rest_of_walk e @ to_come es"
  by (simp_all add: to_come_def)

lemma push_left_spec:
  "stack_in (avl s) t es \<Longrightarrow> tree_in (avl s) p T \<Longrightarrow> T \<noteq> \<langle>\<rangle> \<Longrightarrow> length es + height T \<le> STACK_MAX \<Longrightarrow> height T \<le> fuel \<Longrightarrow>
   \<exists>t' es' l x r. push_left fuel p t s = Inr t' \<and> stack_in (avl s) t' (es' @ [(\<langle>l, x, r\<rangle>, 2)]) \<and> same_set t t'
     \<and> to_come (es' @ [(\<langle>l, x, r\<rangle>, 2)]) = inorder T @ to_come es"
proof (induction T arbitrary: t es p fuel)
  case Leaf
  then show ?case by simp
next
  case (Node l x r)
  obtain t1 where t1: "stackPush p 2 t = Inr t1" "stack_in (avl s) t1 (es @ [(\<langle>l, x, r\<rangle>, 2)])" "same_set t t1"
    by (rule stack_push [OF Node.prems(1-4), of 2]) simp_all
  have p: "p = x" "x \<noteq> 0" "tree_in (avl s) (a_left (avl s x)) l" and f: "fuel \<noteq> 0" using Node.prems(2,5) by auto
  have eq: "push_left fuel p t s = (if a_left (avl s x) \<noteq> 0 then push_left (fuel - 1) (a_left (avl s x)) t1 s else Inr t1)"
    using f p(1,2) t1(1) by (subst push_left.simps) simp
  show ?case
  proof (cases "l = \<langle>\<rangle>")
    case True
    then have "push_left fuel p t s = Inr t1" using eq p(3) by simp
    moreover have "to_come (es @ [(\<langle>l, x, r\<rangle>, 2)]) = inorder \<langle>l, x, r\<rangle> @ to_come es" using True by simp
    ultimately show ?thesis using t1(2,3) by blast
  next
    case False
    then have "a_left (avl s x) \<noteq> 0" by (intro notI) (use p(3) in simp)
    then have e2: "push_left fuel p t s = push_left (fuel - 1) (a_left (avl s x)) t1 s" using eq by simp
    have "length (es @ [(\<langle>l, x, r\<rangle>, 2)]) + height l \<le> STACK_MAX" "height l \<le> fuel - 1" using Node.prems(4,5) by auto
    from Node.IH(1) [OF t1(2) p(3) False this] obtain t' es' l' x' r' where
      g: "push_left (fuel - 1) (a_left (avl s x)) t1 s = Inr t'" "stack_in (avl s) t' (es' @ [(\<langle>l', x', r'\<rangle>, 2)])" "same_set t1 t'"
        "to_come (es' @ [(\<langle>l', x', r'\<rangle>, 2)]) = inorder l @ to_come (es @ [(\<langle>l, x, r\<rangle>, 2)])" by blast
    have "to_come (es' @ [(\<langle>l', x', r'\<rangle>, 2)]) = inorder \<langle>l, x, r\<rangle> @ to_come es" using g(4) by simp
    with g(1,2) e2 same_set_trans [OF t1(3) g(3)] show ?thesis by metis
  qed
qed

section \<open>The next element\<close>

text \<open>One call returns the first of the nodes to come, or null when there is none.\<close>

definition steps_to :: "avl_heap \<Rightarrow> oset \<Rightarrow> nat list \<Rightarrow> (nat \<times> oset) res \<Rightarrow> bool" where
  "steps_to s t ns res \<longleftrightarrow>
     (\<exists>t' es'. res = Inr (case ns of [] \<Rightarrow> 0 | n # _ \<Rightarrow> elem_of_node_no_check n, t') \<and> stack_in (avl s) t' es'
       \<and> same_set t t' \<and> to_come es' = tl ns)"

lemma next_from_two:
  assumes st: "stack_in (avl s) t (es @ [(\<langle>l, x, r\<rangle>, 2)])" and f: "fuel \<noteq> 0"
  shows "steps_to s t (to_come (es @ [(\<langle>l, x, r\<rangle>, 2)])) (next_loop fuel t s)"
proof -
  obtain t1 p where p: "stackPop t = Inr (Some (p, 2), t1)" "tree_in (avl s) p \<langle>l, x, r\<rangle>" "stack_in (avl s) t1 es"
      "same_set t t1" "length es + height \<langle>l, x, r\<rangle> \<le> STACK_MAX"
    by (rule stack_pop [OF st]) simp
  obtain t2 where t2: "stackPush p 3 t1 = Inr t2" "stack_in (avl s) t2 (es @ [(\<langle>l, x, r\<rangle>, 3)])" "same_set t1 t2"
    by (rule stack_push [OF p(3,2) _ p(5), of 3]) simp_all
  have "next_loop fuel t s = Inr (elem_of_node_no_check x, t2)"
    using f p(1,2) t2(1) by (subst next_loop.simps) (simp add: elem_of_node_ok)
  with t2(2) same_set_trans [OF p(4) t2(3)] show ?thesis unfolding steps_to_def by fastforce
qed

lemma next_loop_spec:
  "stack_in (avl s) t es \<Longrightarrow> length es + 2 \<le> fuel \<Longrightarrow> steps_to s t (to_come es) (next_loop fuel t s)"
proof (induction es arbitrary: t fuel rule: rev_induct)
  case Nil
  then have "next_loop fuel t s = Inr (0, t)"
    by (subst next_loop.simps) (simp add: stack_empty)
  with Nil show ?case unfolding steps_to_def by (intro exI [of _ t] exI [of _ "[]"]) simp
next
  case (snoc e es)
  obtain T i where e: "e = (T, i)" by (cases e) auto
  obtain t1 p where p: "stackPop t = Inr (Some (p, i), t1)" "tree_in (avl s) p T" "T \<noteq> \<langle>\<rangle>" "stack_in (avl s) t1 es"
      "same_set t t1" "length es + height T \<le> STACK_MAX" "1 \<le> i" "i \<le> 3"
    by (rule stack_pop [OF snoc.prems(1) [unfolded e]])
  then obtain l x r where T: "T = \<langle>l, x, r\<rangle>" by (cases T) auto
  have x: "p = x" "x \<noteq> 0" "tree_in (avl s) (a_right (avl s x)) r" using p(2) T by simp_all
  have fuel: "fuel \<noteq> 0" "fuel - 1 \<noteq> 0" "length es + 2 \<le> fuel - 1" using snoc.prems(2) by simp_all
  have big: "STACK_MAX \<le> list_fuel" by (simp add: STACK_MAX_def list_fuel_def)
  have after: "steps_to s t ns (next_loop fuel t s)"
    if "next_loop fuel t s = next_loop (fuel - 1) t' s" "steps_to s t' ns (next_loop (fuel - 1) t' s)" "same_set t t'" for t' ns
    using that unfolding steps_to_def by (metis same_set_trans)
  consider "i = 1" | "i = 2" | "i = 3" "r \<noteq> \<langle>\<rangle>" | "i = 3" "r = \<langle>\<rangle>" using p(7,8) by linarith
  then show ?case
  proof cases
    case 1
    from push_left_spec [OF p(4,2,3,6), of list_fuel] p(6) big obtain t2 es' l' x' r' where
      g: "push_left list_fuel p t1 s = Inr t2" "stack_in (avl s) t2 (es' @ [(\<langle>l', x', r'\<rangle>, 2)])" "same_set t1 t2"
        "to_come (es' @ [(\<langle>l', x', r'\<rangle>, 2)]) = inorder T @ to_come es" by auto
    have "next_loop fuel t s = next_loop (fuel - 1) t2 s"
      using fuel(1) p(1) 1 g(1) by (subst next_loop.simps) simp
    from after [OF this next_from_two [OF g(2) fuel(2)]] same_set_trans [OF p(5) g(3)] g(4) show ?thesis
      by (simp add: e T 1)
  next
    case 2
    with next_from_two [OF _ fuel(1)] snoc.prems(1) show ?thesis by (simp add: e T)
  next
    case 3
    have "length es + height r \<le> STACK_MAX" "height r \<le> list_fuel" using p(6) big T by auto
    from push_left_spec [OF p(4) x(3) 3(2) this] obtain t2 es' l' x' r' where
      g: "push_left list_fuel (a_right (avl s x)) t1 s = Inr t2" "stack_in (avl s) t2 (es' @ [(\<langle>l', x', r'\<rangle>, 2)])" "same_set t1 t2"
        "to_come (es' @ [(\<langle>l', x', r'\<rangle>, 2)]) = inorder r @ to_come es" by blast
    have "a_right (avl s x) \<noteq> 0" by (intro notI) (use x(3) 3(2) in simp)
    then have "next_loop fuel t s = next_loop (fuel - 1) t2 s"
      using fuel(1) p(1) 3(1) g(1) x(1,2) by (subst next_loop.simps) simp
    from after [OF this next_from_two [OF g(2) fuel(2)]] same_set_trans [OF p(5) g(3)] g(4) show ?thesis
      by (simp add: e T 3(1))
  next
    case 4
    then have "next_loop fuel t s = next_loop (fuel - 1) t1 s"
      using fuel(1) p(1) x by (subst next_loop.simps) simp
    from after [OF this snoc.IH [OF p(4) fuel(3)] p(5)] show ?thesis by (simp add: e T 4)
  qed
qed

text \<open>Calling the iterator several times.\<close>

fun nexts :: "nat \<Rightarrow> oset \<Rightarrow> avl_heap \<Rightarrow> (nat list \<times> oset) res" where
  "nexts 0 t s = Inr ([], t)"
| "nexts (Suc n) t s =
     bind_res (OSetGen_Next t s) (\<lambda>(e, t1). bind_res (nexts n t1 s) (\<lambda>(es, t2). Inr (e # es, t2)))"

lemma nexts_spec:
  "stack_in (avl s) t es \<Longrightarrow> to_come es = ns \<Longrightarrow>
   \<exists>t'. nexts (length ns + 1) t s = Inr (map elem_of_node_no_check ns @ [0], t') \<and> same_set t t'"
proof (induction ns arbitrary: t es)
  case Nil
  have "length es + 2 \<le> list_fuel" using stack_length [OF Nil.prems(1)] by (simp add: STACK_MAX_def list_fuel_def)
  from next_loop_spec [OF Nil.prems(1) this] Nil.prems(2) show ?case
    by (auto simp: OSetGen_Next_def steps_to_def)
next
  case (Cons n ns)
  have "length es + 2 \<le> list_fuel" using stack_length [OF Cons.prems(1)] by (simp add: STACK_MAX_def list_fuel_def)
  from next_loop_spec [OF Cons.prems(1) this] Cons.prems(2) obtain t1 es1 where
    a: "OSetGen_Next t s = Inr (elem_of_node_no_check n, t1)" "stack_in (avl s) t1 es1" "same_set t t1" "to_come es1 = ns"
    by (auto simp: OSetGen_Next_def steps_to_def)
  from Cons.IH [OF a(2,4)] obtain t' where
    "nexts (length ns + 1) t1 s = Inr (map elem_of_node_no_check ns @ [0], t')" "same_set t1 t'" by blast
  with a(1,3) show ?case by (auto intro: same_set_trans)
qed

end
