(* ===== verification/Vg_Oset_Props.thy ===== *)
theory Vg_Oset_Props
  imports Vg_Oset_Iter
begin

text \<open>
  The starts of an iteration, the destruction of a set, how large a set can be to be iterated over,
  and the properties of the ordered sets.
\<close>

section \<open>Starting\<close>

lemma same_set_clear: "same_set t (stackClear t)"
  by (simp add: same_set_def stackClear_def)

lemma OSetGen_ResetIter_ok:
  assumes ok: "oset_ok kf t s T" and h: "height T \<le> STACK_MAX"
  shows "\<exists>t' es. OSetGen_ResetIter t = Inr t' \<and> stack_in (avl s) t' es \<and> to_come es = inorder T \<and> same_set t t'"
proof (cases "T = \<langle>\<rangle>")
  case True
  then have "o_root t = 0" using ok by (simp add: oset_ok_def removable_def)
  then show ?thesis using True stack_clear
    by (intro exI [of _ "stackClear t"] exI [of _ "[]"]) (simp add: OSetGen_ResetIter_def same_set_clear)
next
  case False
  have r: "tree_in (avl s) (o_root t) T" using ok by (simp add: oset_ok_def removable_def)
  then have z: "o_root t \<noteq> 0" by (intro notI) (use False in simp)
  obtain t1 where "stackPush (o_root t) 1 (stackClear t) = Inr t1" "stack_in (avl s) t1 ([] @ [(T, 1)])" "same_set (stackClear t) t1"
    by (rule stack_push [OF stack_clear r False, of 1]) (use h in simp_all)
  moreover have "rest_of_walk (T, 1) = inorder T" using False by (cases T) auto
  ultimately show ?thesis using z same_set_trans [OF same_set_clear]
    by (intro exI [of _ t1] exI [of _ "[(T, 1)]"]) (simp add: OSetGen_ResetIter_def to_come_def)
qed

lemma reset_at_spec:
  assumes c: "compares off c kf" and k: "k \<noteq> []"
  shows "stack_in (avl s) t es \<Longrightarrow> removable off kf s p T \<Longrightarrow> length es + height T \<le> STACK_MAX \<Longrightarrow> height T \<le> fuel \<Longrightarrow>
    \<exists>t' es'. reset_at fuel c k p t s = Inr t' \<and> stack_in (avl s) t' es' \<and> same_set t t'
      \<and> to_come es' = filter (\<lambda>a. kf k \<le> rank off kf s a) (inorder T) @ to_come es"
proof (induction T arbitrary: t es p fuel)
  case Leaf
  then have "reset_at fuel c k p t s = Inr t" by (subst reset_at.simps) (simp add: removable_def)
  with Leaf show ?case by (intro exI [of _ t] exI [of _ es]) simp
next
  case (Node l x r)
  let ?rk = "rank off kf s"
  note N = removable_node [OF Node.prems(2)]
  have x: "a_magic (avl s x) = OSET_MAGIC" "elem_words s x \<noteq> []" and rk: "ranked ?rk \<langle>l, x, r\<rangle>"
    using Node.prems(2) by (simp_all add: removable_def)
  have ord: "\<forall>a\<in>set_tree l. ?rk a < ?rk x" "\<forall>a\<in>set_tree r. ?rk x < ?rk a" using rk unfolding ranked_node by simp_all
  have f: "fuel \<noteq> 0" "height l \<le> fuel - 1" "height r \<le> fuel - 1" using Node.prems(4) by auto
  have d: "length (es @ [(\<langle>l, x, r\<rangle>, 2)]) + height l \<le> STACK_MAX" "length es + height r \<le> STACK_MAX" using Node.prems(3) by auto
  from cmp_node [OF c N(2) x k] obtain i where
    i: "(case c of Some f \<Rightarrow> slow_cmp f k x s | None \<Rightarrow> fast_cmp k x s) = Inr i" "i < 0 \<longleftrightarrow> kf k < ?rk x" "i > 0 \<longleftrightarrow> kf k > ?rk x"
    by blast
  obtain t1 where t1: "stackPush x 2 t = Inr t1" "stack_in (avl s) t1 (es @ [(\<langle>l, x, r\<rangle>, 2)])" "same_set t t1"
    by (rule stack_push [OF Node.prems(1) N(9) _ Node.prems(3), of 2]) simp_all
  consider "kf k < ?rk x" | "kf k > ?rk x" | "kf k = ?rk x" by linarith
  then show ?case
  proof cases
    case 1
    have "\<forall>a\<in>set (inorder r). kf k \<le> ?rk a" using ord(2) 1 by fastforce
    then have fl: "filter (\<lambda>a. kf k \<le> ?rk a) (inorder \<langle>l, x, r\<rangle>) = filter (\<lambda>a. kf k \<le> ?rk a) (inorder l) @ x # inorder r"
      using 1 by simp
    from Node.IH(1) [OF t1(2) N(3) d(1) f(2)] obtain t' es' where
      g: "reset_at (fuel - 1) c k (a_left (avl s x)) t1 s = Inr t'" "stack_in (avl s) t' es'" "same_set t1 t'"
        "to_come es' = filter (\<lambda>a. kf k \<le> ?rk a) (inorder l) @ to_come (es @ [(\<langle>l, x, r\<rangle>, 2)])" by blast
    have "reset_at fuel c k p t s = Inr t'"
      using f(1) N(1,2) i 1 t1(1) g(1) unfolding N(1) by (subst reset_at.simps) simp
    with g(2,4) same_set_trans [OF t1(3) g(3)] show ?thesis
      unfolding fl by (intro exI [of _ t'] exI [of _ es']) simp
  next
    case 2
    have "\<forall>a\<in>set (inorder l). \<not> kf k \<le> ?rk a" using ord(1) 2 by fastforce
    then have fl: "filter (\<lambda>a. kf k \<le> ?rk a) (inorder \<langle>l, x, r\<rangle>) = filter (\<lambda>a. kf k \<le> ?rk a) (inorder r)"
      using 2 by simp
    from Node.IH(2) [OF Node.prems(1) N(4) d(2) f(3)] obtain t' es' where
      g: "reset_at (fuel - 1) c k (a_right (avl s x)) t s = Inr t'" "stack_in (avl s) t' es'" "same_set t t'"
        "to_come es' = filter (\<lambda>a. kf k \<le> ?rk a) (inorder r) @ to_come es" by blast
    have "reset_at fuel c k p t s = Inr t'"
      using f(1) N(1,2) i 2 g(1) unfolding N(1) by (subst reset_at.simps) simp
    with g(2-4) show ?thesis unfolding fl by blast
  next
    case 3
    have "\<forall>a\<in>set (inorder r). kf k \<le> ?rk a" "\<forall>a\<in>set (inorder l). \<not> kf k \<le> ?rk a" using ord 3 by fastforce+
    then have fl: "filter (\<lambda>a. kf k \<le> ?rk a) (inorder \<langle>l, x, r\<rangle>) = x # inorder r" using 3 by simp
    have "reset_at fuel c k p t s = Inr t1"
      using f(1) N(1,2) i 3 t1(1) unfolding N(1) by (subst reset_at.simps) simp
    with t1(2,3) show ?thesis unfolding fl by (intro exI [of _ t1] exI [of _ "es @ [(\<langle>l, x, r\<rangle>, 2)]"]) simp
  qed
qed

lemma OSetGen_ResetIterAt_ok:
  assumes ok: "oset_ok kf t s T" and h: "height T \<le> STACK_MAX" and k: "k \<noteq> []"
  shows "\<exists>t' es. OSetGen_ResetIterAt k t s = Inr t' \<and> stack_in (avl s) t' es \<and> same_set t t'
    \<and> to_come es = filter (\<lambda>a. kf k \<le> rank (keyOff t) kf s a) (inorder T)"
proof -
  have c: "compares (keyOff t) (o_cmp t) kf" and r: "removable (keyOff t) kf s (o_root t) T" using ok by (simp_all add: oset_ok_def)
  have "length [] + height T \<le> STACK_MAX" using h by simp
  from reset_at_spec [OF c k stack_clear [of "avl s" t] r this oset_ok_height(3) [OF ok]] obtain t' es where
    g: "reset_at list_fuel (o_cmp t) k (o_root t) (stackClear t) s = Inr t'" "stack_in (avl s) t' es" "same_set (stackClear t) t'"
      "to_come es = filter (\<lambda>a. kf k \<le> rank (keyOff t) kf s a) (inorder T)" by auto
  show ?thesis
  proof (cases "o_root t = 0")
    case True
    then have "T = \<langle>\<rangle>" using r by (simp add: removable_def)
    with True same_set_clear show ?thesis
      by (intro exI [of _ "stackClear t"] exI [of _ "[]"]) (simp add: OSetGen_ResetIterAt_def stack_clear)
  next
    case False
    with g same_set_trans [OF same_set_clear g(3)] show ?thesis by (auto simp: OSetGen_ResetIterAt_def)
  qed
qed

section \<open>Destruction\<close>

fun freed :: "nat tree \<times> nat \<Rightarrow> nat list" where
  "freed (\<langle>\<rangle>, i) = []"
| "freed (\<langle>l, x, r\<rangle>, i) =
     (if i = 1 then postorder l @ postorder r @ [x] else if i = 2 then postorder r @ [x] else [x])"

fun work :: "nat tree \<times> nat \<Rightarrow> nat" where
  "work (\<langle>\<rangle>, i) = 0"
| "work (\<langle>l, x, r\<rangle>, i) = (if i = 1 then 3 + 3 * size l + 3 * size r else if i = 2 then 2 + 3 * size r else 1)"

lemma freed_start: "freed (T, 1) = postorder T" "work (T, 1) = 3 * size T"
  by (cases T; simp)+

lemma destroy_loop_spec:
  "stack_in (avl s) t es \<Longrightarrow> sum_list (map work es) < fuel \<Longrightarrow>
   destroy_loop fuel t s = Inr (concat (map freed (rev es)))"
proof (induction fuel arbitrary: t es)
  case 0
  then show ?case by simp
next
  case (Suc fuel)
  show ?case
  proof (cases es rule: rev_cases)
    case Nil
    then show ?thesis using Suc.prems(1) by (subst destroy_loop.simps) (simp add: stack_empty)
  next
    case (snoc es0 e)
    obtain T i where e: "e = (T, i)" by (cases e) auto
    obtain t1 p where p: "stackPop t = Inr (Some (p, i), t1)" "tree_in (avl s) p T" "T \<noteq> \<langle>\<rangle>" "stack_in (avl s) t1 es0"
        "length es0 + height T \<le> STACK_MAX" "1 \<le> i" "i \<le> 3"
      using stack_pop [of "avl s" t es0 T i] Suc.prems(1) unfolding snoc e by metis
    then obtain l x r where T: "T = \<langle>l, x, r\<rangle>" by (cases T) auto
    have x: "p = x" "x \<noteq> 0" "tree_in (avl s) (a_left (avl s x)) l" "tree_in (avl s) (a_right (avl s x)) r" using p(2) T by simp_all
    have h: "length (es0 @ [(T, j)]) + height l \<le> STACK_MAX" "length (es0 @ [(T, j)]) + height r \<le> STACK_MAX" for j
      using p(5) T by auto
    have child: "\<exists>t3 es3. (if q \<noteq> 0 then stackPush q 1 t2 else Inr t2) = Inr t3 \<and> stack_in (avl s) t3 es3
        \<and> sum_list (map work es3) = sum_list (map work es2) + 3 * size u
        \<and> concat (map freed (rev es3)) = postorder u @ concat (map freed (rev es2))"
      if a: "stack_in (avl s) t2 es2" "tree_in (avl s) q u" "length es2 + height u \<le> STACK_MAX" for t2 es2 q u
    proof (cases "u = \<langle>\<rangle>")
      case True
      with a show ?thesis by (intro exI [of _ t2] exI [of _ es2]) simp
    next
      case False
      then have q: "q \<noteq> 0" by (intro notI) (use a(2) in simp)
      obtain t3 where "stackPush q 1 t2 = Inr t3" "stack_in (avl s) t3 (es2 @ [(u, 1)])"
        by (rule stack_push [OF a(1,2) False a(3), of 1]) simp_all
      with q freed_start [of u] show ?thesis by (intro exI [of _ t3] exI [of _ "es2 @ [(u, 1)]"]) simp
    qed
    consider "i = 1" | "i = 2" | "i = 3" using p(6,7) by linarith
    then show ?thesis
    proof cases
      case 1
      obtain t2 where t2: "stackPush x 2 t1 = Inr t2" "stack_in (avl s) t2 (es0 @ [(T, 2)])"
        by (rule stack_push [OF p(4,2,3,5), of 2]) (simp_all add: x(1))
      from child [OF t2(2) x(3) h(1)] obtain t3 es3 where
        c: "(if a_left (avl s x) \<noteq> 0 then stackPush (a_left (avl s x)) 1 t2 else Inr t2) = Inr t3" "stack_in (avl s) t3 es3"
          "sum_list (map work es3) = sum_list (map work (es0 @ [(T, 2)])) + 3 * size l"
          "concat (map freed (rev es3)) = postorder l @ concat (map freed (rev (es0 @ [(T, 2)])))" by blast
      have "sum_list (map work es3) < fuel" using Suc.prems(2) c(3) by (simp add: snoc e 1 T)
      from Suc.IH [OF c(2) this] have "destroy_loop fuel t3 s = Inr (concat (map freed (rev es3)))" .
      then have "destroy_loop (Suc fuel) t s = Inr (concat (map freed (rev es3)))"
        using p(1) 1 x(1,2) t2(1) c(1) by (subst destroy_loop.simps) simp
      then show ?thesis by (simp add: c(4) snoc e 1 T)
    next
      case 2
      obtain t2 where t2: "stackPush x 3 t1 = Inr t2" "stack_in (avl s) t2 (es0 @ [(T, 3)])"
        by (rule stack_push [OF p(4,2,3,5), of 3]) (simp_all add: x(1))
      from child [OF t2(2) x(4) h(2)] obtain t3 es3 where
        c: "(if a_right (avl s x) \<noteq> 0 then stackPush (a_right (avl s x)) 1 t2 else Inr t2) = Inr t3" "stack_in (avl s) t3 es3"
          "sum_list (map work es3) = sum_list (map work (es0 @ [(T, 3)])) + 3 * size r"
          "concat (map freed (rev es3)) = postorder r @ concat (map freed (rev (es0 @ [(T, 3)])))" by blast
      have "sum_list (map work es3) < fuel" using Suc.prems(2) c(3) by (simp add: snoc e 2 T)
      from Suc.IH [OF c(2) this] have "destroy_loop fuel t3 s = Inr (concat (map freed (rev es3)))" .
      then have "destroy_loop (Suc fuel) t s = Inr (concat (map freed (rev es3)))"
        using p(1) 2 x(1,2) t2(1) c(1) by (subst destroy_loop.simps) simp
      then show ?thesis by (simp add: c(4) snoc e 2 T)
    next
      case 3
      have "sum_list (map work es0) < fuel" using Suc.prems(2) by (simp add: snoc e 3 T)
      from Suc.IH [OF p(4) this] show ?thesis
        using p(1) 3 x(1) by (subst destroy_loop.simps) (simp add: snoc e T)
    qed
  qed
qed

lemma OSetGen_Destroy_ok:
  assumes ok: "oset_ok kf t s T" and h: "height T \<le> STACK_MAX" and u: "\<not> node_pa t \<or> users > 0"
  shows "OSetGen_Destroy users t s = Inr (postorder T)"
proof -
  have sz: "nElems t = int (size T)" and r: "tree_in (avl s) (o_root t) T" using ok by (simp_all add: oset_ok_def removable_def)
  have "size1 T \<le> 2 ^ height T" by (rule size1_height)
  also have "\<dots> \<le> (2::nat) ^ 32" using h by (intro power_increasing) (simp_all add: STACK_MAX_def)
  finally have fuel: "3 * size T < list_fuel" by (simp add: size1_size list_fuel_def)
  have len: "length (postorder T) = size T" by (induction T) auto
  have "\<exists>t1. OSetGen_ResetIter t = Inr t1 \<and> destroy_loop list_fuel t1 s = Inr (postorder T)"
  proof (cases "T = \<langle>\<rangle>")
    case True
    then have "o_root t = 0" using r by simp
    then have "OSetGen_ResetIter t = Inr (stackClear t)" by (simp add: OSetGen_ResetIter_def)
    with destroy_loop_spec [OF stack_clear, where fuel = list_fuel] True show ?thesis by (simp add: list_fuel_def)
  next
    case False
    then have z: "o_root t \<noteq> 0" by (intro notI) (use r in simp)
    obtain t1 where "stackPush (o_root t) 1 (stackClear t) = Inr t1" "stack_in (avl s) t1 ([] @ [(T, 1)])"
      by (rule stack_push [OF stack_clear r False, of 1]) (use h in simp_all)
    with destroy_loop_spec [of s t1 "[(T, 1)]" list_fuel] fuel freed_start [of T] z show ?thesis
      by (simp add: OSetGen_ResetIter_def)
  qed
  with len sz u show ?thesis by (auto simp: OSetGen_Destroy_def)
qed

section \<open>How many elements can be iterated over\<close>

text \<open>The thinnest tree of a height, with the taller subtree always on the left.\<close>

fun thin :: "nat \<Rightarrow> unit tree" where
  "thin 0 = \<langle>\<rangle>"
| "thin (Suc 0) = \<langle>\<langle>\<rangle>, (), \<langle>\<rangle>\<rangle>"
| "thin (Suc (Suc h)) = \<langle>thin (Suc h), (), thin h\<rangle>"

text \<open>The same tree over addresses in ascending order.\<close>

fun placed_at :: "unit tree \<Rightarrow> nat \<Rightarrow> nat tree" where
  "placed_at \<langle>\<rangle> b = \<langle>\<rangle>"
| "placed_at \<langle>l, _, r\<rangle> b = \<langle>placed_at l b, 32 * (b + size l + 1), placed_at r (b + size l + 1)\<rangle>"

fun spine :: "'a tree \<Rightarrow> nat" where
  "spine \<langle>\<rangle> = 0"
| "spine \<langle>l, x, r\<rangle> = Suc (spine l)"

lemma height_thin: "height (thin h) = h"
  by (induction h rule: thin.induct) simp_all

lemma spine_thin: "spine (thin h) = h"
  by (induction h rule: thin.induct) simp_all

lemma size_thin: "size (thin h) = min_size h"
  by (induction h rule: thin.induct) simp_all

lemma placed_at_shape [simp]:
  "height (placed_at u b) = height u" "spine (placed_at u b) = spine u" "size (placed_at u b) = size u"
  by (induction u arbitrary: b) simp_all

lemma balanced_thin: "balanced (placed_at (thin h) b)"
  by (induction h arbitrary: b rule: thin.induct) (simp_all add: height_thin)

lemma upt_split: "[b..<b + Suc (m + n)] = [b..<b + m] @ (b + m) # [Suc (b + m)..<Suc (b + m) + n]"
  using upt_add_eq_append [of b "b + m" "Suc n"] by (simp add: upt_conv_Cons ac_simps)

lemma inorder_placed_at: "inorder (placed_at u b) = map (\<lambda>i. 32 * (i + 1)) [b..<b + size u]"
proof (induction u arbitrary: b)
  case (Node l x r)
  have "[b..<b + size \<langle>l, x, r\<rangle>] = [b..<b + size l] @ (b + size l) # [Suc (b + size l)..<Suc (b + size l) + size r]"
    using upt_split [of b "size l" "size r"] by (simp add: ac_simps)
  then show ?case by (simp add: Node.IH ac_simps del: upt_Suc)
qed simp

fun root_of :: "nat tree \<Rightarrow> nat" where
  "root_of \<langle>\<rangle> = 0"
| "root_of \<langle>l, x, r\<rangle> = x"

fun heap_of :: "nat tree \<Rightarrow> nat \<Rightarrow> avl_node" where
  "heap_of \<langle>\<rangle> a = \<lparr>a_left = 0, a_right = 0, a_balance = 0, a_magic = OSET_MAGIC\<rparr>"
| "heap_of \<langle>l, x, r\<rangle> a =
     (if a = x then \<lparr>a_left = root_of l, a_right = root_of r, a_balance = int (height r) - int (height l), a_magic = OSET_MAGIC\<rparr>
      else if a \<in> set_tree l then heap_of l a else heap_of r a)"

lemma heap_of_tree: "distinct (inorder t) \<Longrightarrow> 0 \<notin> set_tree t \<Longrightarrow> tree_in (heap_of t) (root_of t) t"
proof (induction t)
  case (Node l x r)
  have d: "x \<notin> set_tree l" "x \<notin> set_tree r" "set_tree l \<inter> set_tree r = {}" using Node.prems(1) by auto
  have "tree_in (heap_of \<langle>l, x, r\<rangle>) (root_of l) l = tree_in (heap_of l) (root_of l) l"
    by (rule tree_in_cong) (use d in auto)
  moreover have "tree_in (heap_of \<langle>l, x, r\<rangle>) (root_of r) r = tree_in (heap_of r) (root_of r) r"
    by (rule tree_in_cong) (use d in auto)
  moreover have "heap_of \<langle>l, x, r\<rangle> x = \<lparr>a_left = root_of l, a_right = root_of r,
      a_balance = int (height r) - int (height l), a_magic = OSET_MAGIC\<rparr>" by simp
  ultimately show ?case using Node by (simp del: heap_of.simps)
qed simp

lemma push_left_full:
  "tree_in (avl s) p T \<Longrightarrow> T \<noteq> \<langle>\<rangle> \<Longrightarrow> STACK_MAX < stackTop t + spine T \<Longrightarrow> spine T \<le> fuel \<Longrightarrow> push_left fuel p t s = Inl Abort"
proof (induction T arbitrary: p t fuel)
  case (Node l x r)
  then have x: "p = x" "x \<noteq> 0" "tree_in (avl s) (a_left (avl s x)) l" "fuel \<noteq> 0" by auto
  show ?case
  proof (cases "stackTop t < STACK_MAX")
    case True
    then have "l \<noteq> \<langle>\<rangle>" using Node.prems(3) by (cases l) auto
    then have "a_left (avl s x) \<noteq> 0" by (intro notI) (use x(3) in simp)
    with Node.IH(1) [OF x(3) \<open>l \<noteq> \<langle>\<rangle>\<close>, of _ "fuel - 1"] Node.prems(3,4) x True show ?thesis
      by (subst push_left.simps) (simp add: stackPush_def)
  next
    case False
    then show ?thesis using x(4) by (subst push_left.simps) (simp add: stackPush_def)
  qed
qed simp

lemma Next_fails:
  assumes r: "tree_in (avl s) (o_root t) T" "T \<noteq> \<langle>\<rangle>" and h: "height T \<le> STACK_MAX + 1" and sp: "STACK_MAX < spine T" "spine T \<le> list_fuel"
  shows "\<exists>t0. OSetGen_ResetIter t = Inr t0 \<and> OSetGen_Next t0 s = Inl Abort"
proof -
  have z: "o_root t \<noteq> 0" by (intro notI) (use r in simp)
  let ?t0 = "(stackClear t)\<lparr>nodeStack := (nodeStack (stackClear t))[0 := o_root t], numStack := (numStack (stackClear t))[0 := 1], stackTop := 1\<rparr>"
  have "OSetGen_ResetIter t = Inr ?t0"
    using z by (simp add: OSetGen_ResetIter_def stackPush_def stackClear_def STACK_MAX_def)
  moreover obtain t1 where t1: "stackPop ?t0 = Inr (Some (o_root t, 1), t1)" "stackTop t1 = 0"
    by (simp add: stackPop_def stackClear_def STACK_MAX_def)
  have "push_left list_fuel (o_root t) t1 s = Inl Abort"
    by (rule push_left_full [OF r]) (use sp t1(2) in simp_all)
  then have "OSetGen_Next ?t0 s = Inl Abort"
    unfolding OSetGen_Next_def using t1(1) by (subst next_loop.simps) (simp add: list_fuel_def)
  ultimately show ?thesis by blast
qed

text \<open>The sizes of the thinnest trees, computed in one pass.\<close>

fun min_sizes :: "nat \<Rightarrow> nat \<Rightarrow> nat \<Rightarrow> nat" where
  "min_sizes h a b = (if h = 0 then a else min_sizes (h - 1) b (1 + b + a))"

declare min_sizes.simps [simp del]

lemma min_sizes_eq: "min_sizes h (min_size g) (min_size (Suc g)) = min_size (g + h)"
proof (induction h arbitrary: g)
  case 0
  then show ?case by (simp add: min_sizes.simps)
next
  case (Suc h)
  have "min_sizes (Suc h) (min_size g) (min_size (Suc g)) = min_sizes h (min_size (Suc g)) (min_size (Suc (Suc g)))"
    by (subst min_sizes.simps) simp
  with Suc.IH [of "Suc g"] show ?case by simp
qed

lemma min_size_33: "min_size 33 = 9227464"
proof -
  have "min_size 2 = 2" "min_size 3 = 4" by (simp_all add: numeral_eq_Suc)
  then have "min_size 33 = min_sizes 31 2 4" using min_sizes_eq [of 31 2] by simp
  then show ?thesis by (simp add: min_sizes.simps del: One_nat_def)
qed

lemma oset_ok_small:
  assumes "oset_ok kf t s T" and "nElems t < 9227464"
  shows "height T \<le> STACK_MAX"
proof (rule ccontr)
  assume "\<not> height T \<le> STACK_MAX"
  then have "min_size 33 \<le> min_size (height T)" by (intro min_size_mono) (simp add: STACK_MAX_def)
  moreover have "min_size (height T) \<le> size T" "size T < 9227464"
    using assms min_size_balanced by (auto simp: oset_ok_def removable_def)
  ultimately show False by (simp add: min_size_33)
qed

section \<open>Properties\<close>

lemma oset_ok_elems:
  assumes "oset_ok kf t s T" and "set ns \<subseteq> set_tree T"
  shows "map elem_of_node_no_check ns = map (\<lambda>n. n + sizeof_AvlNode) ns"
  using assms oset_ok_node(4) [OF assms(1)] by auto

lemma OSetGen_Insert_duplicate:
  assumes ok: "oset_ok kf t s T" and e: "fresh_elem s e" "e - sizeof_AvlNode \<notin> set_tree T"
    and k: "rank (keyOff t) kf s (e - sizeof_AvlNode) \<in> rank (keyOff t) kf s ` set_tree T"
  shows "OSetGen_Insert e t s = Inl Abort"
proof -
  define n where "n = e - sizeof_AvlNode"
  let ?s = "s\<lparr>avl := (avl s)(n := (avl s n)\<lparr>a_left := 0, a_right := 0, a_balance := 0\<rparr>)\<rparr>"
  have c: "compares (keyOff t) (o_cmp t) kf" and rem: "removable (keyOff t) kf s (o_root t) T" using ok by (simp_all add: oset_ok_def)
  note R = rem [unfolded removable_def]
  have n: "n \<noteq> 0" "a_magic (avl s n) = OSET_MAGIC" "elem_words s n \<noteq> []" "node_of_elem e s = Inr n" "n \<notin> set_tree T"
    using e fresh_node [OF e(1)] by (auto simp: fresh_elem_def n_def)
  have rk: "rank (keyOff t) kf ?s = rank (keyOff t) kf s" by (rule rank_same) simp
  have k': "rank (keyOff t) kf ?s n \<in> rank (keyOff t) kf ?s ` set_tree T" unfolding rk unfolding n_def by (rule k)
  have "tree_in (avl ?s) (o_root t) T" using R n(5) by simp
  then have rem': "removable (keyOff t) kf ?s (o_root t) T" using R unfolding removable_def rk by simp
  have z: "o_root t \<noteq> 0" by (intro notI) (use R k in auto)
  have "avl_insert list_fuel (keyOff t) (o_cmp t) (o_root t) n ?s = Inl Abort"
    by (rule avl_insert_duplicate [OF c n(1) _ _ rem' k' oset_ok_height(3) [OF ok]]) (use n in simp_all)
  then show ?thesis using z n(1,4) by (simp add: OSetGen_Insert_def)
qed

lemma tree_in_balance:
  "tree_in f p t \<Longrightarrow> balanced t \<Longrightarrow> x \<in> set_tree t \<Longrightarrow> a_balance (f x) \<in> {- 1, 0, 1}"
  by (induction t arbitrary: p) auto

text \<open>Two nodes for words, and a set of two elements.\<close>

definition demo_words :: avl_heap where
  "demo_words = \<lparr>avl = (\<lambda>_. \<lparr>a_left = 0, a_right = 0, a_balance = 0, a_magic = OSET_MAGIC\<rparr>),
     elems = (\<lambda>e. if e = 124 then [7] else [5])\<rparr>"

definition demo_pair :: "nat tree" where
  "demo_pair = \<langle>\<langle>\<langle>\<rangle>, 100, \<langle>\<rangle>\<rangle>, 200, \<langle>\<rangle>\<rangle>"

text \<open>The set of a tree whose elements are words, each its own address.\<close>

definition set_of :: "nat tree \<Rightarrow> oset" where
  "set_of T = stackClear \<lparr>keyOff = 0, o_cmp = None, node_pa = False, maxEltSize = 0, nElems = int (size T), o_root = root_of T,
     nodeStack = [], numStack = [], stackTop = 0\<rparr>"

definition words_of :: "nat tree \<Rightarrow> avl_heap" where
  "words_of T = \<lparr>avl = heap_of T, elems = (\<lambda>e. [e])\<rparr>"

lemma set_of_ok:
  assumes "balanced T" and "sorted_wrt (<) (inorder T)" and "\<forall>n\<in>set_tree T. 0 < n \<and> n + sizeof_AvlNode < 2 ^ 64"
  shows "oset_ok hd (set_of T) (words_of T) T"
proof -
  have d: "distinct (inorder T)" using assms(2) by (simp add: strict_sorted_iff)
  have z: "0 \<notin> set_tree T" using assms(3) by fastforce
  have rk: "rank 0 hd (words_of T) n = n + sizeof_AvlNode" if "n \<in> set_tree T" for n
    using assms(3) that by (simp add: rank_def key_part_def words_of_def elem_of_node_u64)
  have "ranked (rank 0 hd (words_of T)) T"
    unfolding sorted_wrt_map by (rule sorted_wrt_mono_rel [OF _ assms(2)]) (use rk in auto)
  moreover have "tree_in (avl (words_of T)) (root_of T) T" unfolding words_of_def using heap_of_tree [OF d z] by simp
  ultimately show ?thesis using assms(1,3)
    by (simp add: oset_ok_def set_of_def stackClear_def removable_def compares_def words_of_def)
qed

lemma demo_pair_ok: "oset_ok hd (set_of demo_pair) (words_of demo_pair) demo_pair"
  by (rule set_of_ok) (simp_all add: demo_pair_def sizeof_AvlNode_def)

lemma demo_pair_rank: "n + 24 < 2 ^ 64 \<Longrightarrow> rank (keyOff (set_of demo_pair)) hd (words_of demo_pair) n = n + 24"
  by (simp add: rank_def key_part_def words_of_def elem_of_node_no_check_def sizeof_AvlNode_def set_of_def stackClear_def)

text \<open>
  C20. On elements with different keys a set of words computes what a map computes: every sequence
  of insertions, removals and lookups ends without a failed assertion or a null pointer, returns
  the elements that the map returns, and leaves a set that holds the elements of the resulting map.
\<close>

theorem oset_refines_map:
  assumes "represents words_hold word_of v m" and "puts_ok (words_fit v) (word_of v) (2 ^ 64) ops m"
  shows "\<exists>v'. run_table words_add words_remove words_lookup ops v = Inr (fst (run_map (word_of v) ops m), v')
    \<and> represents words_hold word_of v' (snd (run_map (word_of v) ops m))"
  using words.run_refines_map [OF assms] by blast

theorem oset_refines_map_witness:
  "\<exists>t v'. OSetWord_Create = Inr t
     \<and> run_table words_add words_remove words_lookup [Put 124, Put 224, Find 5, Take 7, Find 7] (t, demo_words)
       = Inr ([224, 124, 0], v')"
proof -
  have "compares 0 None hd" by (simp add: compares_def)
  from OSetGen_Create_ok [OF this, of demo_words] obtain t where
    t: "OSetWord_Create = Inr t" "oset_ok hd t demo_words \<langle>\<rangle>" "o_cmp t = None" by (auto simp: OSetWord_Create_def)
  then have "represents words_hold word_of (t, demo_words) Map.empty"
    by (auto simp: represents_def words_hold_def)
  moreover have "puts_ok (words_fit (t, demo_words)) (word_of (t, demo_words)) (2 ^ 64)
      [Put 124, Put 224, Find 5, Take 7, Find 7] Map.empty"
    by (simp add: word_of_def words_fit_def fresh_elem_def demo_words_def sizeof_AvlNode_def)
  ultimately obtain v' where "run_table words_add words_remove words_lookup [Put 124, Put 224, Find 5, Take 7, Find 7]
      (t, demo_words) = Inr (fst (run_map (word_of (t, demo_words)) [Put 124, Put 224, Find 5, Take 7, Find 7] Map.empty), v')"
    using oset_refines_map by blast
  moreover have "fst (run_map (word_of (t, demo_words)) [Put 124, Put 224, Find 5, Take 7, Find 7] Map.empty) = [224, 124, 0]"
    by (simp add: word_of_def demo_words_def)
  ultimately show ?thesis using t(1) by auto
qed

text \<open>
  C26. A set keeps its type, for any comparison function: insertion of an element whose key is in
  the set fails its assertion, any other insertion adds the node and keeps the balanced, ordered
  tree; removal takes out at most one node and keeps it too; the balance of a node is -1, 0 or 1 and
  the recursion is less than 130 calls deep.
\<close>

theorem oset_keeps_type:
  assumes "oset_ok kf t s T" and "fresh_elem s e" "e - sizeof_AvlNode \<notin> set_tree T" and "k \<noteq> []"
  shows "(if rank (keyOff t) kf s (e - sizeof_AvlNode) \<in> rank (keyOff t) kf s ` set_tree T
      then OSetGen_Insert e t s = Inl Abort
      else \<exists>t' s' T'. OSetGen_Insert e t s = Inr (t', s') \<and> oset_ok kf t' s' T'
        \<and> set_tree T' = insert (e - sizeof_AvlNode) (set_tree T))
    \<and> (\<exists>n t' s' T'. OSetGen_Remove k t s = Inr (if n = 0 then 0 else n + sizeof_AvlNode, t', s')
        \<and> finds kf t s T k n \<and> oset_ok kf t' s' T' \<and> set_tree T' = set_tree T - {n})
    \<and> (\<forall>n\<in>set_tree T. a_balance (avl s n) \<in> {- 1, 0, 1}) \<and> height T < 130"
proof (intro conjI)
  have r: "ranked (rank (keyOff t) kf s) T" "tree_in (avl s) (o_root t) T" "balanced T"
    using assms(1) by (simp_all add: oset_ok_def removable_def)
  show "if rank (keyOff t) kf s (e - sizeof_AvlNode) \<in> rank (keyOff t) kf s ` set_tree T
      then OSetGen_Insert e t s = Inl Abort
      else \<exists>t' s' T'. OSetGen_Insert e t s = Inr (t', s') \<and> oset_ok kf t' s' T'
        \<and> set_tree T' = insert (e - sizeof_AvlNode) (set_tree T)"
  proof (cases "rank (keyOff t) kf s (e - sizeof_AvlNode) \<in> rank (keyOff t) kf s ` set_tree T")
    case True
    with OSetGen_Insert_duplicate [OF assms(1-3)] show ?thesis by (simp only: if_True)
  next
    case False
    with OSetGen_Insert_ok [OF assms(1-3)] ranked_insort(2) [OF r(1) assms(3)] show ?thesis
      unfolding if_not_P [OF False] by metis
  qed
  show "\<exists>n t' s' T'. OSetGen_Remove k t s = Inr (if n = 0 then 0 else n + sizeof_AvlNode, t', s')
        \<and> finds kf t s T k n \<and> oset_ok kf t' s' T' \<and> set_tree T' = set_tree T - {n}"
    using OSetGen_Remove_ok [OF assms(1), of k] assms(4) ranked_remove1(2) [OF r(1)] by metis
  show "\<forall>n\<in>set_tree T. a_balance (avl s n) \<in> {- 1, 0, 1}" using tree_in_balance [OF r(2,3)] by blast
  show "height T < 130" by (rule oset_ok_height(1) [OF assms(1)])
qed

theorem oset_keeps_type_witness:
  "\<exists>t' s' T'. OSetGen_Insert 324 (set_of demo_pair) (words_of demo_pair) = Inr (t', s') \<and> oset_ok hd t' s' T'
     \<and> set_tree T' = {100, 200, 300}"
proof -
  have f: "fresh_elem (words_of demo_pair) 324" "324 - sizeof_AvlNode = 300"
    by (simp_all add: fresh_elem_def words_of_def demo_pair_def sizeof_AvlNode_def)
  have st: "set_tree demo_pair = {100, 200}" by (auto simp: demo_pair_def)
  then have "324 - sizeof_AvlNode \<notin> set_tree demo_pair" by (simp add: f(2))
  from oset_keeps_type [OF demo_pair_ok f(1) this, of "[124]"]
  have "if rank (keyOff (set_of demo_pair)) hd (words_of demo_pair) 300
        \<in> rank (keyOff (set_of demo_pair)) hd (words_of demo_pair) ` {100, 200}
      then OSetGen_Insert 324 (set_of demo_pair) (words_of demo_pair) = Inl Abort
      else \<exists>t' s' T'. OSetGen_Insert 324 (set_of demo_pair) (words_of demo_pair) = Inr (t', s') \<and> oset_ok hd t' s' T'
        \<and> set_tree T' = insert 300 {100, 200}" unfolding f(2) st by blast
  then show ?thesis by (simp add: demo_pair_rank insert_commute)
qed

text \<open>
  C28. Iteration, for sets of fewer than 9227464 elements: from the start it returns the elements in
  the order of their keys and then null, without a failed assertion; from a key it returns the
  elements whose keys are not below it.
\<close>

theorem oset_iterates_in_order:
  assumes "oset_ok kf t s T" and "nElems t < 9227464" and "k \<noteq> []"
  shows "sorted_wrt (<) (map (rank (keyOff t) kf s) (inorder T))
    \<and> (\<exists>t1 t2. OSetGen_ResetIter t = Inr t1
        \<and> nexts (size T + 1) t1 s = Inr (map (\<lambda>n. n + sizeof_AvlNode) (inorder T) @ [0], t2) \<and> same_set t t2)
    \<and> (\<exists>ns t1 t2. ns = filter (\<lambda>n. kf k \<le> rank (keyOff t) kf s n) (inorder T) \<and> OSetGen_ResetIterAt k t s = Inr t1
        \<and> nexts (length ns + 1) t1 s = Inr (map (\<lambda>n. n + sizeof_AvlNode) ns @ [0], t2) \<and> same_set t t2)"
proof (intro conjI)
  note h = oset_ok_small [OF assms(1,2)]
  show "sorted_wrt (<) (map (rank (keyOff t) kf s) (inorder T))" using assms(1) by (simp add: oset_ok_def removable_def)
  from OSetGen_ResetIter_ok [OF assms(1) h] obtain t1 es where
    a: "OSetGen_ResetIter t = Inr t1" "stack_in (avl s) t1 es" "to_come es = inorder T" "same_set t t1" by blast
  have m: "map elem_of_node_no_check ns = map (\<lambda>n. n + sizeof_AvlNode) ns" if "set ns \<subseteq> set_tree T" for ns
    by (rule oset_ok_elems [OF assms(1) that])
  from nexts_spec [OF a(2,3)] m [of "inorder T"] a(1) same_set_trans [OF a(4)]
  show "\<exists>t1 t2. OSetGen_ResetIter t = Inr t1
      \<and> nexts (size T + 1) t1 s = Inr (map (\<lambda>n. n + sizeof_AvlNode) (inorder T) @ [0], t2) \<and> same_set t t2"
    unfolding length_inorder set_inorder by force
  from OSetGen_ResetIterAt_ok [OF assms(1) h assms(3)] obtain t3 es3 where
    b: "OSetGen_ResetIterAt k t s = Inr t3" "stack_in (avl s) t3 es3" "same_set t t3"
      "to_come es3 = filter (\<lambda>n. kf k \<le> rank (keyOff t) kf s n) (inorder T)" by blast
  let ?ns = "filter (\<lambda>n. kf k \<le> rank (keyOff t) kf s n) (inorder T)"
  have "map elem_of_node_no_check ?ns = map (\<lambda>n. n + sizeof_AvlNode) ?ns" by (rule m) auto
  with nexts_spec [OF b(2,4)] b(1) same_set_trans [OF b(3)]
  show "\<exists>ns t1 t2. ns = filter (\<lambda>n. kf k \<le> rank (keyOff t) kf s n) (inorder T) \<and> OSetGen_ResetIterAt k t s = Inr t1
      \<and> nexts (length ns + 1) t1 s = Inr (map (\<lambda>n. n + sizeof_AvlNode) ns @ [0], t2) \<and> same_set t t2" by metis
qed

theorem oset_iterates_in_order_witness:
  "(\<exists>t1 t2. OSetGen_ResetIter (set_of demo_pair) = Inr t1 \<and> nexts 3 t1 (words_of demo_pair) = Inr ([124, 224, 0], t2))
   \<and> (\<exists>t1 t2. OSetGen_ResetIterAt [125] (set_of demo_pair) (words_of demo_pair) = Inr t1
        \<and> nexts 2 t1 (words_of demo_pair) = Inr ([224, 0], t2))"
proof -
  have n: "nElems (set_of demo_pair) < 9227464" by (simp add: set_of_def stackClear_def demo_pair_def)
  have io: "inorder demo_pair = [100, 200]" "size demo_pair + 1 = 3" by (simp_all add: demo_pair_def)
  have fl: "filter (\<lambda>n. hd [125] \<le> rank (keyOff (set_of demo_pair)) hd (words_of demo_pair) n) [100, 200] = [200]"
    by (simp add: demo_pair_rank)
  have m: "map (\<lambda>n. n + sizeof_AvlNode) [100, 200] @ [0] = [124, 224, 0]" "map (\<lambda>n. n + sizeof_AvlNode) [200] @ [0] = [224, 0]"
    "length [200::nat] + 1 = 2" by (simp_all add: sizeof_AvlNode_def)
  have ne: "[125::nat] \<noteq> []" by simp
  note I = oset_iterates_in_order [OF demo_pair_ok n ne, unfolded io fl]
  from I obtain t1 t2 where a: "OSetGen_ResetIter (set_of demo_pair) = Inr t1"
    "nexts 3 t1 (words_of demo_pair) = Inr (map (\<lambda>n. n + sizeof_AvlNode) [100, 200] @ [0], t2)" by blast
  from I obtain t3 t4 where b: "OSetGen_ResetIterAt [125] (set_of demo_pair) (words_of demo_pair) = Inr t3"
    "nexts (length [200::nat] + 1) t3 (words_of demo_pair) = Inr (map (\<lambda>n. n + sizeof_AvlNode) [200] @ [0], t4)" by blast
  show ?thesis using a(1) a(2) [unfolded m] b(1) b(2) [unfolded m] by blast
qed

text \<open>
  C30. Larger sets cannot all be iterated over: the tree of some set of 9227464 elements is 33 levels
  high, and the first call of the iterator fails the assertion on its stack of 32 places.
\<close>

theorem oset_iteration_limit:
  "\<exists>t s T t0. oset_ok hd t s T \<and> nElems t = 9227464
     \<and> OSetGen_ResetIter t = Inr t0 \<and> OSetGen_Next t0 s = Inl Abort"
proof -
  define T where "T = placed_at (thin 33) 0"
  have sz: "size T = 9227464" "height T = 33" "spine T = 33"
    by (simp_all add: T_def size_thin height_thin spine_thin min_size_33)
  have io: "inorder T = map (\<lambda>i. 32 * (i + 1)) [0..<9227464]"
    unfolding T_def inorder_placed_at by (simp add: size_thin min_size_33)
  have "sorted_wrt (<) (inorder T)" unfolding io by (simp add: sorted_wrt_map)
  moreover have "\<forall>n\<in>set_tree T. 0 < n \<and> n + sizeof_AvlNode < 2 ^ 64"
    unfolding set_inorder [symmetric] io by (auto simp: sizeof_AvlNode_def)
  ultimately have ok: "oset_ok hd (set_of T) (words_of T) T"
    by (intro set_of_ok) (simp_all add: T_def balanced_thin)
  then have "tree_in (avl (words_of T)) (o_root (set_of T)) T" by (simp add: oset_ok_def removable_def)
  moreover have "T \<noteq> \<langle>\<rangle>" using sz(1) by auto
  ultimately have "\<exists>t0. OSetGen_ResetIter (set_of T) = Inr t0 \<and> OSetGen_Next t0 (words_of T) = Inl Abort"
    by (rule Next_fails) (simp_all add: sz STACK_MAX_def list_fuel_def)
  moreover have "nElems (set_of T) = 9227464" by (simp add: set_of_def stackClear_def sz(1))
  ultimately show ?thesis using ok by blast
qed

end
