(* ===== verification/Vg_Match.thy ===== *)
theory Vg_Match
  imports Rm_Prelude
begin

text \<open>
  The matching of sequences against patterns with wildcards in Valgrind's core
  (\<open>src/valgrind/coregrind/m_seqmatch.c\<close>), by which the tracer decides, for instance, which frames
  a suppression is about. Arrays are lists, with the length as the number of elements; a C string
  is the list of the characters in front of its final null. The comparison of a literal with an
  element of the input is an argument and may fail.
\<close>

section \<open>The matcher\<close>

function generic_match :: "bool \<Rightarrow> 'p list \<Rightarrow> nat \<Rightarrow> 'i list \<Rightarrow> nat \<Rightarrow> ('p \<Rightarrow> bool) \<Rightarrow> ('p \<Rightarrow> bool)
    \<Rightarrow> ('p \<Rightarrow> 'i \<Rightarrow> bool res) \<Rightarrow> bool res" where
  "generic_match matchAll patt ixPatt input ixInput pIsStar pIsQuery pattEQinp =
     (if \<not> length patt < 1000000 \<or> \<not> length input < 1000000 \<or> \<not> ixPatt \<le> length patt \<or> \<not> ixInput \<le> length input
      then Inl Abort
      else if ixPatt < length patt \<and> pIsStar (patt ! ixPatt) then
        if ixInput < length input then
          bind_res (generic_match matchAll patt (ixPatt + 1) input ixInput pIsStar pIsQuery pattEQinp) (\<lambda>found.
          if found then Inr True
          else generic_match matchAll patt ixPatt input (ixInput + 1) pIsStar pIsQuery pattEQinp)
        else generic_match matchAll patt (ixPatt + 1) input ixInput pIsStar pIsQuery pattEQinp
      else if ixPatt < length patt \<and> pIsQuery (patt ! ixPatt) then
        if ixInput < length input then
          generic_match matchAll patt (ixPatt + 1) input (ixInput + 1) pIsStar pIsQuery pattEQinp
        else Inr False
      else if ixPatt < length patt \<and> ixInput < length input then
        bind_res (pattEQinp (patt ! ixPatt) (input ! ixInput)) (\<lambda>eq.
        if \<not> eq then Inr False
        else generic_match matchAll patt (ixPatt + 1) input (ixInput + 1) pIsStar pIsQuery pattEQinp)
      else if ixPatt < length patt then Inr False
      else if ixInput < length input then Inr (\<not> matchAll)
      else Inr True)"
  by pat_completeness auto
termination
  by (relation "measure (\<lambda>(_, patt, i, input, j, _). (length patt - i) + (length input - j))") auto

declare generic_match.simps [simp del]

definition charIsStar :: "char \<Rightarrow> bool" where
  "charIsStar p \<longleftrightarrow> p = CHR ''*''"

definition charIsQuery :: "char \<Rightarrow> bool" where
  "charIsQuery p \<longleftrightarrow> p = CHR ''?''"

definition char_p_EQ_i :: "char \<Rightarrow> char \<Rightarrow> bool res" where
  "char_p_EQ_i p c = (if p \<noteq> CHR ''*'' \<and> p \<noteq> CHR ''?'' then Inr (p = c) else Inl Abort)"

definition string_match :: "string \<Rightarrow> string \<Rightarrow> bool res" where
  "string_match patt input = generic_match True patt 0 input 0 charIsStar charIsQuery char_p_EQ_i"

section \<open>The equations of the comment\<close>

text \<open>
  The comment in front of the code gives the function as equations; \<open>wanted\<close> is the comparison of
  literals.
\<close>

fun ma :: "bool \<Rightarrow> ('p \<Rightarrow> bool) \<Rightarrow> ('p \<Rightarrow> bool) \<Rightarrow> ('p \<Rightarrow> 'i \<Rightarrow> bool) \<Rightarrow> 'p list \<Rightarrow> 'i list \<Rightarrow> bool" where
  "ma allOfIt star query wanted (p # ps) (i # xs) =
     (if star p then ma allOfIt star query wanted ps (i # xs) \<or> ma allOfIt star query wanted (p # ps) xs
      else if query p then ma allOfIt star query wanted ps xs
      else wanted p i \<and> ma allOfIt star query wanted ps xs)"
| "ma allOfIt star query wanted (p # ps) [] = (star p \<and> ma allOfIt star query wanted ps [])"
| "ma allOfIt star query wanted [] (i # xs) = (\<not> allOfIt)"
| "ma allOfIt star query wanted [] [] = True"

lemma generic_match_equations:
  assumes eq: "\<And>p i. \<not> star p \<Longrightarrow> \<not> query p \<Longrightarrow> eqv p i = Inr (wanted p i)"
    and len: "length patt < 1000000" "length input < 1000000"
  shows "j \<le> length patt \<Longrightarrow> k \<le> length input \<Longrightarrow>
    generic_match allOfIt patt j input k star query eqv = Inr (ma allOfIt star query wanted (drop j patt) (drop k input))"
proof (induction "(length patt - j) + (length input - k)" arbitrary: j k rule: less_induct)
  case less
  let ?g = "\<lambda>j k. generic_match allOfIt patt j input k star query eqv"
  let ?m = "\<lambda>j k. ma allOfIt star query wanted (drop j patt) (drop k input)"
  have ih: "?g j' k' = Inr (?m j' k')"
    if "j \<le> j'" "k \<le> k'" "j' \<le> length patt" "k' \<le> length input" "j < j' \<or> k < k'" for j' k'
    using less that by auto
  have dp: "drop j patt = patt ! j # drop (j + 1) patt" if "j < length patt"
    using that by (simp add: Cons_nth_drop_Suc)
  have di: "drop k input = input ! k # drop (k + 1) input" if "k < length input"
    using that by (simp add: Cons_nth_drop_Suc)
  have r: "\<not> (\<not> length patt < 1000000 \<or> \<not> length input < 1000000 \<or> \<not> j \<le> length patt \<or> \<not> k \<le> length input)"
    using len less.prems by simp
  note g = generic_match.simps [of allOfIt patt j input k star query eqv, unfolded if_not_P [OF r]]
  consider "j < length patt" "k < length input" | "j < length patt" "k = length input"
    | "j = length patt" "k < length input" | "j = length patt" "k = length input"
    using less.prems by linarith
  then show ?case
  proof cases
    case 1
    have "?g (j + 1) k = Inr (?m (j + 1) k)" "?g j (k + 1) = Inr (?m j (k + 1))"
      "?g (j + 1) (k + 1) = Inr (?m (j + 1) (k + 1))" using 1 by (intro ih; simp)+
    with 1 eq show ?thesis unfolding g by (simp add: dp di)
  next
    case 2
    have "?g (j + 1) k = Inr (?m (j + 1) k)" using 2 by (intro ih) simp_all
    with 2 show ?thesis unfolding g by (simp add: dp)
  next
    case 3
    then show ?thesis unfolding g by (simp add: di)
  next
    case 4
    then show ?thesis unfolding g by simp
  qed
qed

section \<open>What a pattern matches\<close>

text \<open>The part of the input that one element of a pattern stands for.\<close>

definition stands_for :: "('p \<Rightarrow> bool) \<Rightarrow> ('p \<Rightarrow> bool) \<Rightarrow> ('p \<Rightarrow> 'i \<Rightarrow> bool) \<Rightarrow> 'p \<Rightarrow> 'i list \<Rightarrow> bool" where
  "stands_for star query wanted p part \<longleftrightarrow> star p \<or> (\<exists>i. part = [i] \<and> (query p \<or> wanted p i))"

definition matched_by :: "('p \<Rightarrow> bool) \<Rightarrow> ('p \<Rightarrow> bool) \<Rightarrow> ('p \<Rightarrow> 'i \<Rightarrow> bool) \<Rightarrow> 'p list \<Rightarrow> 'i list \<Rightarrow> bool" where
  "matched_by star query wanted ps xs \<longleftrightarrow> (\<exists>parts. list_all2 (stands_for star query wanted) ps parts \<and> concat parts = xs)"

lemma matched_by_Nil [simp]: "matched_by star query wanted [] xs \<longleftrightarrow> xs = []"
  by (auto simp: matched_by_def)

lemma matched_by_Cons:
  "matched_by star query wanted (p # ps) xs \<longleftrightarrow>
     (\<exists>part rest. stands_for star query wanted p part \<and> matched_by star query wanted ps rest \<and> xs = part @ rest)"
  unfolding matched_by_def list_all2_Cons1 by force

lemma matched_star:
  assumes "star p"
  shows "matched_by star query wanted (p # ps) xs \<longleftrightarrow> (\<exists>n. matched_by star query wanted ps (drop n xs))"
proof -
  have "matched_by star query wanted (p # ps) xs \<longleftrightarrow> (\<exists>part rest. matched_by star query wanted ps rest \<and> xs = part @ rest)"
    using assms by (simp add: matched_by_Cons stands_for_def)
  then show ?thesis by (metis append_eq_conv_conj append_take_drop_id)
qed

lemma matched_star_step:
  assumes "star p"
  shows "matched_by star query wanted (p # ps) (i # xs) \<longleftrightarrow>
    matched_by star query wanted ps (i # xs) \<or> matched_by star query wanted (p # ps) xs"
proof -
  have "(\<exists>n. P (drop n (i # xs))) \<longleftrightarrow> P (i # xs) \<or> (\<exists>n. P (drop n xs))" for P
    by (metis drop0 drop_Suc_Cons not0_implies_Suc)
  then show ?thesis unfolding matched_star [where star = star and p = p, OF assms] .
qed

lemma matched_star_nil:
  "matched_by star query wanted (p # ps) [] \<longleftrightarrow> star p \<and> matched_by star query wanted ps []"
  by (auto simp: matched_by_Cons stands_for_def)

lemma matched_literal:
  assumes "\<not> star p"
  shows "matched_by star query wanted (p # ps) [] \<longleftrightarrow> False"
    and "matched_by star query wanted (p # ps) (i # xs) \<longleftrightarrow> (query p \<or> wanted p i) \<and> matched_by star query wanted ps xs"
  using assms by (auto simp: matched_by_Cons stands_for_def)

lemma ma_all: "ma True star query wanted ps xs \<longleftrightarrow> matched_by star query wanted ps xs"
  by (induction True star query wanted ps xs rule: ma.induct)
    (auto simp: matched_star_step matched_literal matched_star_nil)

lemma ma_prefix: "ma False star query wanted ps xs \<longleftrightarrow> (\<exists>n. matched_by star query wanted ps (take n xs))"
proof (induction False star query wanted ps xs rule: ma.induct)
  case (1 star query wanted p ps i xs)
  have t: "(\<exists>n. P (take n (i # xs))) \<longleftrightarrow> P [] \<or> (\<exists>n. P (i # take n xs))" for P
    by (metis take_0 take_Suc_Cons not0_implies_Suc)
  show ?case
  proof (cases "star p")
    case True
    then show ?thesis using 1(1,2) unfolding t by (simp add: matched_star_step matched_star_nil) (use t in blast)
  next
    case False
    with 1(3,4) show ?thesis unfolding t by (auto simp: matched_literal)
  qed
next
  case (2 star query wanted p ps)
  then show ?case by (simp add: matched_star_nil)
next
  case (3 star query wanted i xs)
  show ?case by (auto intro: exI [of _ 0])
qed simp

section \<open>The property\<close>

text \<open>
  C29. The matcher ends, without a failed assertion, and decides the equations of its comment, on
  arrays of fewer than a million elements. It thereby decides whether the pattern stands for the
  input, or for a prefix of it: a star stands for any sequence, a query for one element, a literal
  for one equal element.
\<close>

theorem generic_match_decides:
  assumes "\<And>p i. \<not> star p \<Longrightarrow> \<not> query p \<Longrightarrow> eqv p i = Inr (wanted p i)"
    and "length patt < 1000000" and "length input < 1000000"
  shows "generic_match allOfIt patt 0 input 0 star query eqv = Inr (ma allOfIt star query wanted patt input)
    \<and> (ma allOfIt star query wanted patt input
        \<longleftrightarrow> (if allOfIt then matched_by star query wanted patt input
             else \<exists>n. matched_by star query wanted patt (take n input)))"
proof -
  from generic_match_equations [OF assms, where j = 0 and k = 0]
  have "generic_match allOfIt patt 0 input 0 star query eqv = Inr (ma allOfIt star query wanted patt input)" by simp
  moreover have "ma allOfIt star query wanted patt input
      \<longleftrightarrow> (if allOfIt then matched_by star query wanted patt input
           else \<exists>n. matched_by star query wanted patt (take n input))"
    by (cases allOfIt) (simp_all add: ma_all ma_prefix)
  ultimately show ?thesis by blast
qed

theorem generic_match_decides_witness:
  "string_match ''**a*b*c**'' ''abc'' = Inr True \<and> string_match ''**a*b*d**'' ''abc'' = Inr False
   \<and> string_match ''a?c'' ''abc'' = Inr True \<and> string_match ''?'' [] = Inr False
   \<and> string_match ''*'' [] = Inr True \<and> string_match ''ab'' ''abc'' = Inr False"
proof -
  have g: "generic_match True patt 0 input 0 charIsStar charIsQuery char_p_EQ_i
      = Inr (ma True charIsStar charIsQuery (=) patt input)"
    if "length patt < 1000000" "length input < 1000000" for patt input
    by (rule generic_match_decides [THEN conjunct1])
      (use that in \<open>simp_all add: char_p_EQ_i_def charIsStar_def charIsQuery_def\<close>)
  show ?thesis unfolding string_match_def by (simp add: g charIsStar_def charIsQuery_def)
qed

end
