(* ===== verification/Vg_Sparse.thy ===== *)
theory Vg_Sparse
  imports Rm_Prelude
begin

text \<open>
  The sparse arrays of words of Valgrind's core (\<open>src/valgrind/coregrind/m_sparsewa.c\<close>), with 64-bit
  words: a tree of eight levels, each of which consumes one byte of the key. The nodes are held by
  address; their magic values are the constructors of \<open>swa_node\<close>. A node that was given back is not
  in the memory any more. The allocation function, which does not fail, is an argument: its answer
  may depend on the number of allocations so far and on the nodes in memory.
\<close>

unbundle bit_operations_syntax

section \<open>State\<close>

record level0 =
  l0_words :: "nat list"
  l0_nInUse :: int
  l0_inUse :: "8 word list"

record levelN =
  ln_child :: "nat list"
  ln_nInUse :: int
  ln_level :: int

datatype swa_node = Level0 level0 | LevelN levelN

record swa_elem =
  partial_key :: nat
  curr_ix :: nat
  curr_nd :: nat
  resume_point :: nat

record swa =
  swa_mem :: "nat \<Rightarrow> swa_node option"
  swa_allocs :: nat
  swa_root :: nat
  iterStack :: "swa_elem list"
  isUsed :: nat

definition get_swa_node :: "nat \<Rightarrow> swa \<Rightarrow> swa_node res" where
  "get_swa_node p s =
     (if p = 0 then Inl Null_deref else case swa_mem s p of None \<Rightarrow> Inl Out_of_bounds | Some n \<Rightarrow> Inr n)"

text \<open>Access through a pointer to an inner node, and to a leaf after the assertion on its magic value.\<close>

definition get_levelN :: "nat \<Rightarrow> swa \<Rightarrow> levelN res" where
  "get_levelN p s =
     bind_res (get_swa_node p s) (\<lambda>n. case n of LevelN l \<Rightarrow> Inr l | Level0 _ \<Rightarrow> Inl Out_of_bounds)"

definition get_level0 :: "nat \<Rightarrow> swa \<Rightarrow> level0 res" where
  "get_level0 p s =
     bind_res (get_swa_node p s) (\<lambda>n. case n of Level0 l \<Rightarrow> Inr l | LevelN _ \<Rightarrow> Inl Abort)"

definition put_swa_node :: "nat \<Rightarrow> swa_node \<Rightarrow> swa \<Rightarrow> swa" where
  "put_swa_node p n s = s\<lparr>swa_mem := (swa_mem s)(p := Some n)\<rparr>"

definition swa_dealloc :: "nat \<Rightarrow> swa \<Rightarrow> swa" where
  "swa_dealloc p s = s\<lparr>swa_mem := (swa_mem s)(p := None)\<rparr>"

section \<open>Arrays of bits\<close>

definition swa_bitarray_read :: "8 word list \<Rightarrow> nat \<Rightarrow> nat" where
  "swa_bitarray_read arr ix =
     (let bix = drop_bit 3 ix; off = ix AND 7 in unat (drop_bit off (arr ! bix) AND 1))"

definition swa_bitarray_read_then_set :: "8 word list \<Rightarrow> nat \<Rightarrow> nat \<times> 8 word list" where
  "swa_bitarray_read_then_set arr ix =
     (let bix = drop_bit 3 ix; off = ix AND 7; old = arr ! bix; nyu = old OR push_bit off 1
      in (unat (drop_bit off old AND 1), arr[bix := nyu]))"

definition swa_bitarray_read_then_clear :: "8 word list \<Rightarrow> nat \<Rightarrow> nat \<times> 8 word list" where
  "swa_bitarray_read_then_clear arr ix =
     (let bix = drop_bit 3 ix; off = ix AND 7; old = arr ! bix; nyu = old AND NOT (push_bit off 1)
      in (unat (drop_bit off old AND 1), arr[bix := nyu]))"

section \<open>Creation\<close>

type_synonym swa_memory = "nat \<Rightarrow> swa_node option"

type_synonym swa_allocator = "nat \<Rightarrow> swa_memory \<Rightarrow> nat"

definition newSWA :: "swa_memory \<Rightarrow> nat \<Rightarrow> swa" where
  "newSWA M n = \<lparr>swa_mem = M, swa_allocs = n, swa_root = 0,
     iterStack = replicate 8 \<lparr>partial_key = 0, curr_ix = 0, curr_nd = 0, resume_point = 0\<rparr>, isUsed = 0\<rparr>"

definition swa_new_LevelN :: "swa_allocator \<Rightarrow> int \<Rightarrow> swa \<Rightarrow> nat \<times> swa" where
  "swa_new_LevelN alloc l s =
     (let p = alloc (swa_allocs s) (swa_mem s)
      in (p, put_swa_node p (LevelN \<lparr>ln_child = replicate 256 0, ln_nInUse = 0, ln_level = l\<rparr>)
               (s\<lparr>swa_allocs := swa_allocs s + 1\<rparr>)))"

definition swa_new_Level0 :: "swa_allocator \<Rightarrow> swa \<Rightarrow> nat \<times> swa" where
  "swa_new_Level0 alloc s =
     (let p = alloc (swa_allocs s) (swa_mem s)
      in (p, put_swa_node p (Level0 \<lparr>l0_words = replicate 256 0, l0_nInUse = 0, l0_inUse = replicate 32 0\<rparr>)
               (s\<lparr>swa_allocs := swa_allocs s + 1\<rparr>)))"

section \<open>Lookup\<close>

text \<open>The byte of a key that a level consumes.\<close>

definition key_byte :: "nat \<Rightarrow> nat \<Rightarrow> nat" where
  "key_byte i key = drop_bit (i * 8) key AND 0xFF"

text \<open>The loop over the levels from \<open>i\<close> to 1; a null pointer on the way ends the search as well.\<close>

fun lookup_levels :: "nat \<Rightarrow> nat \<Rightarrow> nat \<Rightarrow> swa \<Rightarrow> nat res" where
  "lookup_levels 0 key nd s = Inr nd"
| "lookup_levels (Suc i) key nd s =
     (if nd = 0 then Inr 0
      else
        bind_res (get_levelN nd s) (\<lambda>l.
        if ln_level l \<noteq> int (Suc i) \<or> \<not> ln_nInUse l > 0 then Inl Abort
        else lookup_levels i key (ln_child l ! key_byte (Suc i) key) s))"

definition lookupSWA :: "nat \<Rightarrow> swa \<Rightarrow> (nat \<times> nat) option res" where
  "lookupSWA key s =
     bind_res (lookup_levels 7 key (swa_root s) s) (\<lambda>nd.
     if nd = 0 then Inr None
     else
       bind_res (get_level0 nd s) (\<lambda>l.
       if \<not> l0_nInUse l > 0 then Inl Abort
       else
         let ix = key AND 0xFF in
         if swa_bitarray_read (l0_inUse l) ix = 0 then Inr None
         else Inr (Some (key, l0_words l ! ix))))"

section \<open>Addition\<close>

text \<open>The loop over the levels from \<open>i\<close> to 1, which makes missing nodes; it returns the leaf.\<close>

fun add_levels :: "swa_allocator \<Rightarrow> nat \<Rightarrow> nat \<Rightarrow> nat \<Rightarrow> swa \<Rightarrow> (nat \<times> swa) res" where
  "add_levels alloc 0 key nd s = Inr (nd, s)"
| "add_levels alloc (Suc i) key nd s =
     (if nd = 0 then Inl Abort
      else
        bind_res (get_levelN nd s) (\<lambda>l.
        if ln_level l \<noteq> int (Suc i) then Inl Abort
        else
          let ix = key_byte (Suc i) key;
              (c, l1, s1) =
                (if ln_child l ! ix = 0 then
                   let (p, s1) = (if i = 0 then swa_new_Level0 alloc s else swa_new_LevelN alloc (int i) s);
                       l1 = l\<lparr>ln_child := (ln_child l)[ix := p], ln_nInUse := ln_nInUse l + 1\<rparr>
                   in (p, l1, put_swa_node nd (LevelN l1) s1)
                 else (ln_child l ! ix, l, s))
          in if \<not> (ln_nInUse l1 \<ge> 1 \<and> ln_nInUse l1 \<le> 256) then Inl Abort
             else add_levels alloc i key c s1))"

definition add_leaf :: "nat \<Rightarrow> nat \<Rightarrow> nat \<Rightarrow> swa \<Rightarrow> (bool \<times> swa) res" where
  "add_leaf key val nd s =
     (if nd = 0 then Inl Abort
      else
        bind_res (get_level0 nd s) (\<lambda>l.
        let ix = key AND 0xFF;
            (old, arr) = swa_bitarray_read_then_set (l0_inUse l) ix;
            n = (if old = 0 then l0_nInUse l + 1 else l0_nInUse l)
        in if \<not> (n \<ge> 1 \<and> n \<le> 256) then Inl Abort
           else Inr (old \<noteq> 0, put_swa_node nd
                  (Level0 (l\<lparr>l0_words := (l0_words l)[ix := val], l0_nInUse := n, l0_inUse := arr\<rparr>)) s)))"

definition addToSWA :: "swa_allocator \<Rightarrow> nat \<Rightarrow> nat \<Rightarrow> swa \<Rightarrow> (bool \<times> swa) res" where
  "addToSWA alloc key val s =
     (let s1 = (if swa_root s = 0 then
                  let (p, s1) = swa_new_LevelN alloc 7 s in s1\<lparr>swa_root := p\<rparr>
                else s)
      in bind_res (add_levels alloc 7 key (swa_root s1) s1) (\<lambda>(nd, s2). add_leaf key val nd s2))"

section \<open>Deletion\<close>

text \<open>The way down, with the nodes and indices that were visited, the last one first.\<close>

fun del_levels :: "nat \<Rightarrow> nat \<Rightarrow> nat \<Rightarrow> (nat \<times> nat) list \<Rightarrow> swa \<Rightarrow> (nat \<times> (nat \<times> nat) list) res" where
  "del_levels 0 key nd vs s = Inr (nd, vs)"
| "del_levels (Suc i) key nd vs s =
     (if nd = 0 then Inr (0, vs)
      else
        bind_res (get_levelN nd s) (\<lambda>l.
        if ln_level l \<noteq> int (Suc i) \<or> \<not> ln_nInUse l > 0 then Inl Abort
        else
          let ix = key_byte (Suc i) key
          in del_levels i key (ln_child l ! ix) ((nd, ix) # vs) s))"

text \<open>The way up, giving back the nodes that have become empty.\<close>

fun del_up :: "(nat \<times> nat) list \<Rightarrow> swa \<Rightarrow> swa res" where
  "del_up [] s = Inr (s\<lparr>swa_root := 0\<rparr>)"
| "del_up ((nd, ix) # vs) s =
     bind_res (get_levelN nd s) (\<lambda>l.
     if ln_child l ! ix = 0 then Inl Abort
     else
       let l1 = l\<lparr>ln_child := (ln_child l)[ix := 0], ln_nInUse := ln_nInUse l - 1\<rparr>;
           s1 = put_swa_node nd (LevelN l1) s
       in if \<not> ln_nInUse l1 \<ge> 0 then Inl Abort
          else if ln_nInUse l1 > 0 then Inr s1
          else del_up vs (swa_dealloc nd s1))"

definition del_leaf :: "nat \<Rightarrow> nat \<Rightarrow> (nat \<times> nat) list \<Rightarrow> swa \<Rightarrow> ((nat \<times> nat) option \<times> swa) res" where
  "del_leaf key nd vs s =
     (if nd = 0 then Inr (None, s)
      else
        bind_res (get_level0 nd s) (\<lambda>l.
        if \<not> l0_nInUse l > 0 then Inl Abort
        else
          let ix = key AND 0xFF;
              (old, arr) = swa_bitarray_read_then_clear (l0_inUse l) ix;
              l1 = l\<lparr>l0_inUse := arr\<rparr>
          in if old = 0 then Inr (None, put_swa_node nd (Level0 l1) s)
             else
               let l2 = l1\<lparr>l0_nInUse := l0_nInUse l - 1\<rparr>; s1 = put_swa_node nd (Level0 l2) s;
                   r = Some (key, l0_words l ! ix)
               in if l0_nInUse l2 > 0 then Inr (r, s1)
                  else if length vs \<noteq> 7 then Inl Abort
                  else bind_res (del_up vs (swa_dealloc nd s1)) (\<lambda>s2. Inr (r, s2))))"

definition delFromSWA :: "nat \<Rightarrow> swa \<Rightarrow> ((nat \<times> nat) option \<times> swa) res" where
  "delFromSWA key s =
     bind_res (del_levels 7 key (swa_root s) [] s) (\<lambda>(nd, vs). del_leaf key nd vs s)"

section \<open>Size and destruction\<close>

fun sum_res :: "nat res list \<Rightarrow> nat res" where
  "sum_res [] = Inr 0"
| "sum_res (r # rs) = bind_res r (\<lambda>a. bind_res (sum_res rs) (\<lambda>b. Inr (u64 (a + b))))"

text \<open>The recursion is at most eight calls deep.\<close>

fun swa_sizeSWA_wrk :: "nat \<Rightarrow> nat \<Rightarrow> swa \<Rightarrow> nat res" where
  "swa_sizeSWA_wrk 0 nd s = Inl Diverge"
| "swa_sizeSWA_wrk (Suc fuel) nd s =
     bind_res (get_swa_node nd s) (\<lambda>n.
     case n of
       LevelN l \<Rightarrow> sum_res (map (\<lambda>c. if c \<noteq> 0 then swa_sizeSWA_wrk fuel c s else Inr 0) (ln_child l))
     | Level0 l \<Rightarrow> Inr (nat (l0_nInUse l mod 2 ^ 64)))"

definition sizeSWA :: "swa \<Rightarrow> nat res" where
  "sizeSWA s = (if swa_root s \<noteq> 0 then swa_sizeSWA_wrk 8 (swa_root s) s else Inr 0)"

text \<open>The nodes that are given back, in order.\<close>

fun concat_res :: "nat list res list \<Rightarrow> nat list res" where
  "concat_res [] = Inr []"
| "concat_res (r # rs) = bind_res r (\<lambda>a. bind_res (concat_res rs) (\<lambda>b. Inr (a @ b)))"

fun swa_deleteSWA_wrk :: "nat \<Rightarrow> nat \<Rightarrow> swa \<Rightarrow> nat list res" where
  "swa_deleteSWA_wrk 0 nd s = Inl Diverge"
| "swa_deleteSWA_wrk (Suc fuel) nd s =
     (if nd = 0 then Inl Abort
      else
        bind_res (get_swa_node nd s) (\<lambda>n.
        bind_res
          (case n of
             LevelN l \<Rightarrow> concat_res (map (\<lambda>c. if c \<noteq> 0 then swa_deleteSWA_wrk fuel c s else Inr []) (ln_child l))
           | Level0 l \<Rightarrow> Inr [])
          (\<lambda>ps. Inr (ps @ [nd]))))"

definition deleteSWA :: "swa \<Rightarrow> nat list res" where
  "deleteSWA s = (if swa_root s \<noteq> 0 then swa_deleteSWA_wrk 8 (swa_root s) s else Inr [])"

section \<open>Iteration\<close>

definition swa_PUSH :: "nat \<Rightarrow> nat \<Rightarrow> nat \<Rightarrow> nat \<Rightarrow> swa \<Rightarrow> swa res" where
  "swa_PUSH pk ix nd rp s =
     (let sp = isUsed s in
      if \<not> sp \<le> 7 then Inl Abort
      else Inr (s\<lparr>iterStack := (iterStack s)[sp := \<lparr>partial_key = pk, curr_ix = ix, curr_nd = nd, resume_point = rp\<rparr>],
                  isUsed := sp + 1\<rparr>))"

definition swa_POP :: "swa \<Rightarrow> (swa_elem \<times> swa) res" where
  "swa_POP s =
     (let sp = int (isUsed s) - 1 in
      if \<not> (sp \<ge> 0 \<and> sp \<le> 7) then Inl Abort
      else Inr (iterStack s ! nat sp, s\<lparr>isUsed := nat sp\<rparr>))"

definition initIterSWA :: "swa \<Rightarrow> swa res" where
  "initIterSWA s =
     (let s1 = s\<lparr>isUsed := 0\<rparr> in if swa_root s1 \<noteq> 0 then swa_PUSH 0 0 (swa_root s1) 1 s1 else Inr s1)"

text \<open>The points that \<open>nextIterSWA\<close> jumps to; the loops go on at an index.\<close>

datatype swa_label = Dispatch | Start_new_node nat nat | Leaf_loop nat nat nat | Nonleaf_loop nat nat nat

function next_at :: "nat \<Rightarrow> swa_label \<Rightarrow> swa \<Rightarrow> ((nat \<times> nat) option \<times> swa) res" where
  "next_at fuel lab s =
     (if fuel = 0 then Inl Diverge
      else
        case lab of
          Dispatch \<Rightarrow>
            if isUsed s = 0 then Inr (None, s)
            else
              bind_res (swa_POP s) (\<lambda>(e, s1).
              if resume_point e = 1 then next_at (fuel - 1) (Start_new_node (partial_key e) (curr_nd e)) s1
              else if resume_point e = 2 then
                next_at (fuel - 1) (Leaf_loop (partial_key e) (curr_ix e + 1) (curr_nd e)) s1
              else if resume_point e = 3 then
                next_at (fuel - 1) (Nonleaf_loop (partial_key e) (curr_ix e + 1) (curr_nd e)) s1
              else Inl Abort)
        | Start_new_node pk nd \<Rightarrow>
            bind_res (get_swa_node nd s) (\<lambda>n.
            case n of
              Level0 _ \<Rightarrow> next_at (fuel - 1) (Leaf_loop pk 0 nd) s
            | LevelN _ \<Rightarrow> next_at (fuel - 1) (Nonleaf_loop pk 0 nd) s)
        | Leaf_loop pk ix nd \<Rightarrow>
            if ix < 256 then
              bind_res (get_level0 nd s) (\<lambda>l.
              if swa_bitarray_read (l0_inUse l) ix = 1 then
                bind_res (swa_PUSH pk ix nd 2 s) (\<lambda>s1.
                Inr (Some (u64 (push_bit 8 pk + ix), l0_words l ! ix), s1))
              else next_at (fuel - 1) (Leaf_loop pk (ix + 1) nd) s)
            else next_at (fuel - 1) Dispatch s
        | Nonleaf_loop pk ix nd \<Rightarrow>
            if ix < 256 then
              bind_res (get_levelN nd s) (\<lambda>l.
              if ln_child l ! ix \<noteq> 0 then
                bind_res (swa_PUSH pk ix nd 3 s) (\<lambda>s1.
                next_at (fuel - 1) (Start_new_node (u64 (push_bit 8 pk + ix)) (ln_child l ! ix)) s1)
              else next_at (fuel - 1) (Nonleaf_loop pk (ix + 1) nd) s)
            else next_at (fuel - 1) Dispatch s)"
  by pat_completeness auto
termination by (relation "measure (\<lambda>(fuel, _). fuel)") auto

declare next_at.simps [simp del]

definition nextIterSWA :: "swa \<Rightarrow> ((nat \<times> nat) option \<times> swa) res" where
  "nextIterSWA s = next_at list_fuel Dispatch s"

end
