(* ===== verification/Vg_Sparse_Inv.thy ===== *)
theory Vg_Sparse_Inv
  imports Vg_Sparse
begin

text \<open>
  The invariant of the sparse arrays: trees of nodes in memory, the map from keys to words that a
  tree stands for, what a lookup finds, and what it means for a tree that one child is changed.
\<close>

section \<open>Bits and bytes\<close>

definition used :: "8 word list \<Rightarrow> nat \<Rightarrow> bool" where
  "used arr ix \<longleftrightarrow> bit (arr ! (ix div 8)) (ix mod 8)"

lemma bit_index: "drop_bit 3 ix = ix div 8" "ix AND 7 = ix mod 8" for ix :: nat
proof -
  show "drop_bit 3 ix = ix div 8" by (simp add: drop_bit_eq_div)
  have "ix AND mask 3 = ix mod 8" by (simp only: take_bit_eq_mask [symmetric] take_bit_eq_mod) simp
  then show "ix AND 7 = ix mod 8" by (simp add: mask_eq_exp_minus_1)
qed

lemma byte_index: "key_byte i key = key div 256 ^ i mod 256" "key AND 0xFF = key_byte 0 key" for key :: nat
proof -
  have m: "k AND 0xFF = k mod 256" for k :: nat
  proof -
    have "k AND mask 8 = k mod 256" by (simp only: take_bit_eq_mask [symmetric] take_bit_eq_mod) simp
    then show ?thesis by (simp add: mask_eq_exp_minus_1)
  qed
  have "(256::nat) ^ i = 2 ^ (i * 8)" by (simp add: power_mult mult.commute [of i])
  then show "key_byte i key = key div 256 ^ i mod 256" by (simp add: key_byte_def m drop_bit_eq_div)
  then show "key AND 0xFF = key_byte 0 key" by (simp add: key_byte_def)
qed

lemma key_byte_less: "key_byte i key < 256"
  by (simp add: byte_index)

lemma read_used: "unat (drop_bit n w AND 1) = of_bool (bit w n)" for w :: "8 word"
  by (simp add: and_one_eq mod_2_eq_odd bit_iff_odd_drop_bit)

lemma swa_bitarray_read_used: "swa_bitarray_read arr ix = of_bool (used arr ix)"
  by (simp add: swa_bitarray_read_def Let_def bit_index read_used used_def)

lemma div_mod_eq: "(i::nat) div 8 = j div 8 \<Longrightarrow> i mod 8 = j mod 8 \<Longrightarrow> i = j"
  by (metis div_mult_mod_eq)

lemma bit_power: "m < 8 \<Longrightarrow> bit (2 ^ n :: 8 word) m \<longleftrightarrow> m = n"
  by (auto simp: bit_exp_iff)

lemma used_set:
  assumes "length arr = 32" and "ix < 256"
  shows "swa_bitarray_read_then_set arr ix = (of_bool (used arr ix), snd (swa_bitarray_read_then_set arr ix))"
    and "length (snd (swa_bitarray_read_then_set arr ix)) = 32"
    and "used (snd (swa_bitarray_read_then_set arr ix)) j \<longleftrightarrow> j = ix \<or> used arr j"
proof -
  have i: "ix div 8 < length arr" using assms by simp
  show "swa_bitarray_read_then_set arr ix = (of_bool (used arr ix), snd (swa_bitarray_read_then_set arr ix))"
    by (simp add: swa_bitarray_read_then_set_def Let_def bit_index read_used used_def)
  show "length (snd (swa_bitarray_read_then_set arr ix)) = 32"
    using assms(1) by (simp add: swa_bitarray_read_then_set_def Let_def)
  have "ix mod 8 < 8" by simp
  then show "used (snd (swa_bitarray_read_then_set arr ix)) j \<longleftrightarrow> j = ix \<or> used arr j"
    using i div_mod_eq [of j ix]
    by (cases "j div 8 = ix div 8")
      (auto simp: swa_bitarray_read_then_set_def Let_def bit_index used_def bit_or_iff bit_power)
qed

lemma used_clear:
  assumes "length arr = 32" and "ix < 256"
  shows "swa_bitarray_read_then_clear arr ix = (of_bool (used arr ix), snd (swa_bitarray_read_then_clear arr ix))"
    and "length (snd (swa_bitarray_read_then_clear arr ix)) = 32"
    and "used (snd (swa_bitarray_read_then_clear arr ix)) j \<longleftrightarrow> j \<noteq> ix \<and> used arr j"
proof -
  have i: "ix div 8 < length arr" using assms by simp
  show "swa_bitarray_read_then_clear arr ix = (of_bool (used arr ix), snd (swa_bitarray_read_then_clear arr ix))"
    by (simp add: swa_bitarray_read_then_clear_def Let_def bit_index read_used used_def)
  show "length (snd (swa_bitarray_read_then_clear arr ix)) = 32"
    using assms(1) by (simp add: swa_bitarray_read_then_clear_def Let_def)
  have "ix mod 8 < 8" "j mod 8 < 8" by simp_all
  then show "used (snd (swa_bitarray_read_then_clear arr ix)) j \<longleftrightarrow> j \<noteq> ix \<and> used arr j"
    using i div_mod_eq [of j ix]
    by (cases "j div 8 = ix div 8")
      (auto simp: swa_bitarray_read_then_clear_def Let_def bit_index used_def bit_and_iff bit_not_iff bit_power)
qed

lemma clear_unused:
  assumes "length arr = 32" and "ix < 256" and "\<not> used arr ix"
  shows "snd (swa_bitarray_read_then_clear arr ix) = arr"
proof -
  have "arr ! (ix div 8) AND NOT (push_bit (ix mod 8) 1) = arr ! (ix div 8)"
    using assms(3) by (intro bit_word_eqI) (auto simp: bit_and_iff bit_not_iff bit_power used_def)
  then show ?thesis by (simp add: swa_bitarray_read_then_clear_def Let_def bit_index)
qed

section \<open>Trees of nodes\<close>

text \<open>The child of an inner node for a byte, or null.\<close>

definition kid :: "swa_memory \<Rightarrow> nat \<Rightarrow> nat \<Rightarrow> nat" where
  "kid M p ix = (case M p of Some (LevelN l) \<Rightarrow> if ix < length (ln_child l) then ln_child l ! ix else 0 | _ \<Rightarrow> 0)"

text \<open>The word that a tree of a level holds under a key, of which it looks at the low bytes.\<close>

primrec held :: "swa_memory \<Rightarrow> nat \<Rightarrow> nat \<Rightarrow> nat \<rightharpoonup> nat" where
  "held M 0 p key =
     (case M p of
        Some (Level0 l) \<Rightarrow> if used (l0_inUse l) (key_byte 0 key) then Some (l0_words l ! key_byte 0 key) else None
      | _ \<Rightarrow> None)"
| "held M (Suc i) p key =
     (let c = kid M p (key_byte (Suc i) key) in if c = 0 then None else held M i c key)"

text \<open>The nodes of a tree.\<close>

primrec span_of :: "swa_memory \<Rightarrow> nat \<Rightarrow> nat \<Rightarrow> nat set" where
  "span_of M 0 p = {p}"
| "span_of M (Suc i) p = insert p (\<Union>ix\<in>{ix. kid M p ix \<noteq> 0}. span_of M i (kid M p ix))"

definition occupied :: "swa_memory \<Rightarrow> nat \<Rightarrow> bool" where
  "occupied M p = (case M p of Some (Level0 l) \<Rightarrow> l0_nInUse l > 0 | Some (LevelN l) \<Rightarrow> ln_nInUse l > 0 | None \<Rightarrow> False)"

definition leaf_ok :: "level0 \<Rightarrow> bool" where
  "leaf_ok l \<longleftrightarrow> length (l0_words l) = 256 \<and> length (l0_inUse l) = 32
     \<and> l0_nInUse l = int (card {ix. ix < 256 \<and> used (l0_inUse l) ix})"

definition inner_ok :: "nat \<Rightarrow> levelN \<Rightarrow> bool" where
  "inner_ok i l \<longleftrightarrow> ln_level l = int i \<and> length (ln_child l) = 256
     \<and> ln_nInUse l = int (card {ix. ix < 256 \<and> ln_child l ! ix \<noteq> 0})"

text \<open>Nodes below the root are in use, and no two subtrees share a node.\<close>

primrec swa_ok :: "swa_memory \<Rightarrow> nat \<Rightarrow> nat \<Rightarrow> bool" where
  "swa_ok M 0 p \<longleftrightarrow> p \<noteq> 0 \<and> (\<exists>l. M p = Some (Level0 l) \<and> leaf_ok l)"
| "swa_ok M (Suc i) p \<longleftrightarrow>
     p \<noteq> 0 \<and> (\<exists>l. M p = Some (LevelN l) \<and> inner_ok (Suc i) l)
     \<and> (\<forall>ix. kid M p ix \<noteq> 0 \<longrightarrow> swa_ok M i (kid M p ix) \<and> occupied M (kid M p ix) \<and> p \<notin> span_of M i (kid M p ix))
     \<and> (\<forall>ix iy. ix \<noteq> iy \<longrightarrow> kid M p ix \<noteq> 0 \<longrightarrow> kid M p iy \<noteq> 0
          \<longrightarrow> span_of M i (kid M p ix) \<inter> span_of M i (kid M p iy) = {})"

lemma swa_same_all:
  "(\<And>x. x \<in> span_of M i p \<Longrightarrow> M' x = M x) \<Longrightarrow>
   span_of M' i p = span_of M i p \<and> (\<forall>key. held M' i p key = held M i p key) \<and> swa_ok M' i p = swa_ok M i p
     \<and> occupied M' p = occupied M p"
proof (induction i arbitrary: p)
  case 0
  then show ?case by (simp add: occupied_def)
next
  case (Suc i)
  have k: "kid M' p = kid M p" "M' p = M p" using Suc.prems by (simp_all add: kid_def fun_eq_iff)
  have ih: "span_of M' i (kid M p ix) = span_of M i (kid M p ix)" "held M' i (kid M p ix) key = held M i (kid M p ix) key"
      "swa_ok M' i (kid M p ix) = swa_ok M i (kid M p ix)" "occupied M' (kid M p ix) = occupied M (kid M p ix)"
    if "kid M p ix \<noteq> 0" for ix key
    using Suc.IH [of "kid M p ix"] Suc.prems that by auto
  have "span_of M' (Suc i) p = span_of M (Suc i) p" by (simp add: k ih)
  moreover have "held M' (Suc i) p key = held M (Suc i) p key" for key by (simp add: k ih Let_def)
  moreover have "swa_ok M' (Suc i) p = swa_ok M (Suc i) p" by (simp add: k ih)
  moreover have "occupied M' p = occupied M p" by (simp add: occupied_def k)
  ultimately show ?case by blast
qed

lemma swa_same:
  assumes "\<And>x. x \<in> span_of M i p \<Longrightarrow> M' x = M x"
  shows "span_of M' i p = span_of M i p" and "held M' i p = held M i p" and "swa_ok M' i p = swa_ok M i p"
    and "occupied M' p = occupied M p"
  using swa_same_all [OF assms] by auto

lemma swa_ok_null: "swa_ok M i p \<Longrightarrow> p \<noteq> 0 \<and> p \<in> span_of M i p"
  by (cases i) auto

lemma swa_ok_span: "swa_ok M i p \<Longrightarrow> x \<in> span_of M i p \<Longrightarrow> x \<noteq> 0 \<and> M x \<noteq> None"
proof (induction i arbitrary: p)
  case (Suc i)
  then show ?case by (auto split: if_splits)
qed auto

text \<open>Keys with the same low bytes.\<close>

lemma held_low: "key mod 256 ^ Suc i = key' mod 256 ^ Suc i \<Longrightarrow> held M i p key = held M i p key'"
proof (induction i arbitrary: p)
  case 0
  then have "key_byte 0 key = key_byte 0 key'" by (simp add: byte_index)
  then show ?case by (simp split: option.split swa_node.split)
next
  case (Suc i)
  have b: "key_byte (Suc i) k = k mod 256 ^ Suc (Suc i) div 256 ^ Suc i" for k
  proof -
    have "k mod (256 ^ Suc i * 256) = 256 ^ Suc i * (k div 256 ^ Suc i mod 256) + k mod 256 ^ Suc i" by (rule mod_mult2_eq)
    then show ?thesis by (simp add: byte_index mult.commute [of "256 ^ Suc i" 256] del: power_Suc) (simp add: mult.commute)
  qed
  have "k mod 256 ^ Suc i = k mod 256 ^ Suc (Suc i) mod 256 ^ Suc i" for k :: nat
    by (rule mod_mod_cancel [symmetric]) simp
  then have "key mod 256 ^ Suc i = key' mod 256 ^ Suc i" using Suc.prems by metis
  with Suc.IH Suc.prems show ?case unfolding held.simps b by metis
qed

section \<open>Lookup\<close>

lemma inner_node:
  assumes "swa_ok M (Suc i) p"
  shows "\<exists>l. M p = Some (LevelN l) \<and> inner_ok (Suc i) l \<and> p \<noteq> 0 \<and> (\<forall>ix<256. ln_child l ! ix = kid M p ix)
    \<and> ln_level l = int (Suc i) \<and> length (ln_child l) = 256"
  using assms by (auto simp: inner_ok_def kid_def)

lemma lookup_levels_ok:
  "swa_ok (swa_mem s) i nd \<Longrightarrow> occupied (swa_mem s) nd \<Longrightarrow>
   \<exists>q. lookup_levels i key nd s = Inr q
     \<and> (q = 0 \<and> held (swa_mem s) i nd key = None
        \<or> q \<noteq> 0 \<and> swa_ok (swa_mem s) 0 q \<and> occupied (swa_mem s) q \<and> held (swa_mem s) i nd key = held (swa_mem s) 0 q key)"
proof (induction i arbitrary: nd)
  case 0
  then show ?case by auto
next
  case (Suc i)
  let ?M = "swa_mem s" and ?b = "key_byte (Suc i) key"
  from inner_node [OF Suc.prems(1)] obtain l where l: "?M nd = Some (LevelN l)" "inner_ok (Suc i) l" "nd \<noteq> 0"
    "\<forall>ix<256. ln_child l ! ix = kid ?M nd ix" "ln_level l = int (Suc i)" by blast
  have n: "ln_nInUse l > 0" using Suc.prems(2) l(1) by (simp add: occupied_def)
  have step: "lookup_levels (Suc i) key nd s = lookup_levels i key (kid ?M nd ?b) s"
    using l n key_byte_less by (simp add: get_levelN_def get_swa_node_def)
  show ?case
  proof (cases "kid ?M nd ?b = 0")
    case True
    moreover have "lookup_levels i key 0 s = Inr 0" by (cases i) simp_all
    ultimately show ?thesis using step by simp
  next
    case False
    then have "swa_ok ?M i (kid ?M nd ?b)" "occupied ?M (kid ?M nd ?b)" using Suc.prems(1) by auto
    from Suc.IH [OF this] step False show ?thesis by (simp add: Let_def)
  qed
qed

section \<open>Changing one child\<close>

text \<open>A node is written, and the subtree under one byte; the other subtrees stay.\<close>

definition child_changed :: "swa_memory \<Rightarrow> swa_memory \<Rightarrow> nat \<Rightarrow> nat \<Rightarrow> nat \<Rightarrow> bool" where
  "child_changed M M' i nd ix \<longleftrightarrow>
     nd \<noteq> 0 \<and> (\<exists>l. M' nd = Some (LevelN l) \<and> inner_ok (Suc i) l)
     \<and> (\<forall>iy. iy \<noteq> ix \<longrightarrow> kid M' nd iy = kid M nd iy)
     \<and> (kid M' nd ix \<noteq> 0 \<longrightarrow> swa_ok M' i (kid M' nd ix) \<and> occupied M' (kid M' nd ix) \<and> nd \<notin> span_of M' i (kid M' nd ix))
     \<and> (\<forall>iy. iy \<noteq> ix \<longrightarrow> kid M nd iy \<noteq> 0 \<longrightarrow> (\<forall>x\<in>span_of M i (kid M nd iy). M' x = M x)
          \<and> (kid M' nd ix \<noteq> 0 \<longrightarrow> span_of M' i (kid M' nd ix) \<inter> span_of M i (kid M nd iy) = {}))"

lemma child_changed_ok:
  assumes ok: "swa_ok M (Suc i) nd" and c: "child_changed M M' i nd ix"
  shows "swa_ok M' (Suc i) nd"
    and "held M' (Suc i) nd key = (if key_byte (Suc i) key = ix
        then if kid M' nd ix = 0 then None else held M' i (kid M' nd ix) key else held M (Suc i) nd key)"
    and "span_of M' (Suc i) nd \<subseteq> span_of M (Suc i) nd \<union> (if kid M' nd ix = 0 then {} else span_of M' i (kid M' nd ix))"
proof -
  have same: "span_of M' i (kid M nd iy) = span_of M i (kid M nd iy)" "held M' i (kid M nd iy) = held M i (kid M nd iy)"
      "swa_ok M' i (kid M nd iy)" "occupied M' (kid M nd iy)" "kid M' nd iy = kid M nd iy" "nd \<notin> span_of M i (kid M nd iy)"
    if a: "iy \<noteq> ix" "kid M nd iy \<noteq> 0" for iy
  proof -
    have e: "\<And>x. x \<in> span_of M i (kid M nd iy) \<Longrightarrow> M' x = M x" using c a by (simp add: child_changed_def)
    have "swa_ok M i (kid M nd iy)" "occupied M (kid M nd iy)" "nd \<notin> span_of M i (kid M nd iy)" using ok a(2) by simp_all
    then show "span_of M' i (kid M nd iy) = span_of M i (kid M nd iy)" "held M' i (kid M nd iy) = held M i (kid M nd iy)"
      "swa_ok M' i (kid M nd iy)" "occupied M' (kid M nd iy)" "nd \<notin> span_of M i (kid M nd iy)"
      using swa_same [OF e] by simp_all
    show "kid M' nd iy = kid M nd iy" using c a(1) by (simp add: child_changed_def)
  qed
  have k: "kid M' nd iy = kid M nd iy" if "iy \<noteq> ix" for iy using c that by (simp add: child_changed_def)
  have dis: "span_of M i (kid M nd iy) \<inter> span_of M i (kid M nd iz) = {}"
    if "iy \<noteq> iz" "kid M nd iy \<noteq> 0" "kid M nd iz \<noteq> 0" for iy iz
    using ok that by simp
  have new: "swa_ok M' i (kid M' nd ix)" "occupied M' (kid M' nd ix)" "nd \<notin> span_of M' i (kid M' nd ix)"
      "\<And>iy. iy \<noteq> ix \<Longrightarrow> kid M nd iy \<noteq> 0 \<Longrightarrow> span_of M' i (kid M' nd ix) \<inter> span_of M i (kid M nd iy) = {}"
    if "kid M' nd ix \<noteq> 0"
    using c that by (simp_all add: child_changed_def)
  show "swa_ok M' (Suc i) nd" unfolding swa_ok.simps
  proof (intro conjI allI impI)
    show "nd \<noteq> 0" "\<exists>l. M' nd = Some (LevelN l) \<and> inner_ok (Suc i) l" using c by (simp_all add: child_changed_def)
    fix iy assume z: "kid M' nd iy \<noteq> 0"
    show "swa_ok M' i (kid M' nd iy)" "occupied M' (kid M' nd iy)" "nd \<notin> span_of M' i (kid M' nd iy)"
      using z new(1-3) same [of iy] k [of iy] by (cases "iy = ix"; simp)+
    fix iz assume y: "iy \<noteq> iz" "kid M' nd iz \<noteq> 0"
    show "span_of M' i (kid M' nd iy) \<inter> span_of M' i (kid M' nd iz) = {}"
    proof (cases "iy = ix")
      case True
      with y z new(4) [of iz] same(1) [of iz] k [of iz] show ?thesis by auto
    next
      case False
      then have y': "kid M' nd iy = kid M nd iy" "kid M nd iy \<noteq> 0" "span_of M' i (kid M nd iy) = span_of M i (kid M nd iy)"
        using z k [of iy] same(1) [of iy] by auto
      show ?thesis
      proof (cases "iz = ix")
        case True
        with y y' False new(4) [of iy] show ?thesis by auto
      next
        case False
        with y y' dis [of iy iz] k [of iz] same(1) [of iz] show ?thesis by auto
      qed
    qed
  qed
  show "held M' (Suc i) nd key = (if key_byte (Suc i) key = ix
        then if kid M' nd ix = 0 then None else held M' i (kid M' nd ix) key else held M (Suc i) nd key)"
    using k same(2) by (auto simp: Let_def)
  show "span_of M' (Suc i) nd \<subseteq> span_of M (Suc i) nd \<union> (if kid M' nd ix = 0 then {} else span_of M' i (kid M' nd ix))"
  proof
    fix x assume "x \<in> span_of M' (Suc i) nd"
    then consider "x = nd" | iy where "kid M' nd iy \<noteq> 0" "x \<in> span_of M' i (kid M' nd iy)" by auto
    then show "x \<in> span_of M (Suc i) nd \<union> (if kid M' nd ix = 0 then {} else span_of M' i (kid M' nd ix))"
    proof cases
      case 2
      then show ?thesis using same(1) [of iy] k [of iy] by (cases "iy = ix") auto
    qed simp
  qed
qed

end
