(* ===== verification/Vg_Sparse_Ops.thy ===== *)
theory Vg_Sparse_Ops
  imports Vg_Sparse_Inv
begin

text \<open>
  Addition and deletion in sparse arrays level by level, and what lookup, addition and deletion do to
  the map that an array stands for.
\<close>

section \<open>Addition\<close>

text \<open>The allocation function returns an address that is not null and not that of a node in memory.\<close>

definition alloc_fresh :: "swa_allocator \<Rightarrow> bool" where
  "alloc_fresh alloc \<longleftrightarrow> (\<forall>n M. finite (dom M) \<longrightarrow> alloc n M \<noteq> 0 \<and> M (alloc n M) = None)"

definition add_at :: "swa_allocator \<Rightarrow> nat \<Rightarrow> nat \<Rightarrow> nat \<Rightarrow> nat \<Rightarrow> swa \<Rightarrow> (bool \<times> swa) res" where
  "add_at alloc i key val nd s = bind_res (add_levels alloc i key nd s) (\<lambda>(nd, s2). add_leaf key val nd s2)"

definition added :: "swa_memory \<Rightarrow> swa_memory \<Rightarrow> nat \<Rightarrow> nat \<Rightarrow> nat \<Rightarrow> nat \<Rightarrow> nat set \<Rightarrow> bool" where
  "added M M' i nd key val A \<longleftrightarrow>
     swa_ok M' i nd \<and> occupied M' nd
     \<and> (\<forall>k. held M' i nd k = (if k mod 256 ^ Suc i = key mod 256 ^ Suc i then Some val else held M i nd k))
     \<and> span_of M' i nd \<subseteq> span_of M i nd \<union> A \<and> (\<forall>x. x \<notin> span_of M i nd \<union> A \<longrightarrow> M' x = M x)"

definition same_iter :: "swa \<Rightarrow> swa \<Rightarrow> bool" where
  "same_iter s s' \<longleftrightarrow> swa_root s' = swa_root s \<and> iterStack s' = iterStack s \<and> isUsed s' = isUsed s"

lemma card_bytes: "card {ix. ix < (256::nat) \<and> P ix} \<le> 256"
  using card_mono [of "{..<256::nat}" "{ix. ix < 256 \<and> P ix}"] by auto

lemma card_byte_insert:
  "ix < 256 \<Longrightarrow> card {j. j < (256::nat) \<and> (j = ix \<or> P j)} = (if P ix then card {j. j < 256 \<and> P j} else card {j. j < 256 \<and> P j} + 1)"
proof -
  assume i: "ix < 256"
  have "{j. j < 256 \<and> (j = ix \<or> P j)} = insert ix {j. j < 256 \<and> P j}" using i by auto
  then show ?thesis using i by (simp add: card_insert_if)
qed

lemma add_leaf_ok:
  assumes "swa_ok (swa_mem s) 0 nd"
  shows "\<exists>s'. add_leaf key val nd s = Inr (held (swa_mem s) 0 nd key \<noteq> None, s') \<and> added (swa_mem s) (swa_mem s') 0 nd key val {}
    \<and> same_iter s s' \<and> swa_allocs s' = swa_allocs s"
proof -
  let ?ix = "key_byte 0 key"
  obtain l where l: "nd \<noteq> 0" "swa_mem s nd = Some (Level0 l)" "length (l0_words l) = 256" "length (l0_inUse l) = 32"
      "l0_nInUse l = int (card {ix. ix < 256 \<and> used (l0_inUse l) ix})"
    using assms by (auto simp: leaf_ok_def)
  define arr where "arr = snd (swa_bitarray_read_then_set (l0_inUse l) ?ix)"
  note U = used_set [OF l(4) key_byte_less, of 0 key, folded arr_def]
  define n where "n = (if used (l0_inUse l) ?ix then l0_nInUse l else l0_nInUse l + 1)"
  define l' where "l' = l\<lparr>l0_words := (l0_words l)[?ix := val], l0_nInUse := n, l0_inUse := arr\<rparr>"
  have n: "n = int (card {j. j < 256 \<and> used arr j})"
    using card_byte_insert [where P = "used (l0_inUse l)" and ix = ?ix] key_byte_less [of 0 key] by (simp add: n_def U(3) l(5))
  have ne: "{j. j < 256 \<and> used arr j} \<noteq> {}" using U(3) key_byte_less [of 0 key] by blast
  have pos: "n \<ge> 1" "n \<le> 256" using n ne card_bytes [of "used arr"] by (simp_all add: Suc_le_eq card_gt_0_iff)
  have "add_leaf key val nd s = Inr (used (l0_inUse l) ?ix, put_swa_node nd (Level0 l') s)"
    using l(1,2) pos
    by (cases "used (l0_inUse l) ?ix")
      (simp_all add: add_leaf_def get_level0_def get_swa_node_def byte_index(2) U(1) Let_def n_def l'_def)
  moreover have "leaf_ok l'" using l(3) U(2) n by (simp add: leaf_ok_def l'_def)
  moreover have "held (swa_mem s) 0 nd key \<noteq> None \<longleftrightarrow> used (l0_inUse l) ?ix" using l(2) by simp
  moreover have "held ((swa_mem s)(nd \<mapsto> Level0 l')) 0 nd k
      = (if k mod 256 ^ Suc 0 = key mod 256 ^ Suc 0 then Some val else held (swa_mem s) 0 nd k)" for k
  proof -
    have "k mod 256 ^ Suc 0 = key_byte 0 k" "key mod 256 ^ Suc 0 = ?ix" by (simp_all add: byte_index)
    then show ?thesis using U(3) [of "key_byte 0 k"] key_byte_less [of 0] l(2,3)
      by (cases "key_byte 0 k = ?ix") (simp_all add: l'_def)
  qed
  ultimately show ?thesis using l(1,2) pos(1)
    by (intro exI [of _ "put_swa_node nd (Level0 l') s"])
      (simp add: added_def put_swa_node_def occupied_def same_iter_def l'_def del: held.simps)
qed

text \<open>A new node holds nothing.\<close>

definition empty_node :: "nat \<Rightarrow> swa_node" where
  "empty_node i =
     (if i = 0 then Level0 \<lparr>l0_words = replicate 256 0, l0_nInUse = 0, l0_inUse = replicate 32 0\<rparr>
      else LevelN \<lparr>ln_child = replicate 256 0, ln_nInUse = 0, ln_level = int i\<rparr>)"

lemma used_none: "ix < 256 \<Longrightarrow> \<not> used (replicate 32 0) ix"
  by (simp add: used_def less_mult_imp_div_less)

lemma empty_node_ok:
  assumes "M p = Some (empty_node i)" and "p \<noteq> 0"
  shows "swa_ok M i p" and "held M i p = Map.empty" and "span_of M i p = {p}"
proof -
  have k: "i \<noteq> 0 \<Longrightarrow> kid M p ix = 0" for ix using assms(1) by (simp add: kid_def empty_node_def)
  show "swa_ok M i p"
    using assms k used_none by (cases i) (auto simp: empty_node_def leaf_ok_def inner_ok_def)
  show "held M i p = Map.empty"
    using assms k key_byte_less used_none by (cases i) (auto simp: empty_node_def fun_eq_iff Let_def)
  show "span_of M i p = {p}" using k by (cases i) auto
qed

text \<open>One level of the way down, with the child made if it is missing.\<close>

lemma add_levels_step:
  assumes ok: "swa_ok (swa_mem s) (Suc i) nd" and al: "alloc_fresh alloc" and fin: "finite (dom (swa_mem s))"
  shows "\<exists>c s1 A. add_levels alloc (Suc i) key nd s = add_levels alloc i key c s1
    \<and> same_iter s s1 \<and> finite (dom (swa_mem s1)) \<and> (\<forall>x\<in>A. swa_mem s x = None)
    \<and> (\<forall>x. x \<notin> insert nd A \<longrightarrow> swa_mem s1 x = swa_mem s x)
    \<and> kid (swa_mem s1) nd (key_byte (Suc i) key) = c \<and> c \<noteq> 0
    \<and> (\<forall>iy. iy \<noteq> key_byte (Suc i) key \<longrightarrow> kid (swa_mem s1) nd iy = kid (swa_mem s) nd iy)
    \<and> (\<exists>l. swa_mem s1 nd = Some (LevelN l) \<and> inner_ok (Suc i) l \<and> ln_nInUse l > 0)
    \<and> swa_ok (swa_mem s1) i c \<and> nd \<notin> span_of (swa_mem s1) i c
    \<and> held (swa_mem s1) i c = (\<lambda>k. if kid (swa_mem s) nd (key_byte (Suc i) key) = 0 then None
                                   else held (swa_mem s) i (kid (swa_mem s) nd (key_byte (Suc i) key)) k)
    \<and> (if kid (swa_mem s) nd (key_byte (Suc i) key) = 0 then span_of (swa_mem s1) i c = A
       else c = kid (swa_mem s) nd (key_byte (Suc i) key) \<and> span_of (swa_mem s1) i c = span_of (swa_mem s) i c)"
proof -
  let ?M = "swa_mem s" and ?b = "key_byte (Suc i) key"
  from inner_node [OF ok] obtain l where l: "?M nd = Some (LevelN l)" "inner_ok (Suc i) l" "nd \<noteq> 0"
    "\<forall>ix<256. ln_child l ! ix = kid ?M nd ix" "ln_level l = int (Suc i)" "length (ln_child l) = 256" by blast
  have b: "?b < 256" by (rule key_byte_less)
  have lb: "ln_child l ! ?b = kid ?M nd ?b" using l(4) b by blast
  have cnt: "ln_nInUse l = int (card {ix. ix < 256 \<and> ln_child l ! ix \<noteq> 0})" using l(2) by (simp add: inner_ok_def)
  show ?thesis
  proof (cases "kid ?M nd ?b = 0")
    case False
    have "{ix. ix < 256 \<and> ln_child l ! ix \<noteq> 0} \<noteq> {}" using lb b False by auto
    then have "ln_nInUse l \<ge> 1" "ln_nInUse l \<le> 256"
      using cnt card_bytes [of "\<lambda>ix. ln_child l ! ix \<noteq> 0"] by (simp_all add: Suc_le_eq card_gt_0_iff)
    moreover from this l False lb have "add_levels alloc (Suc i) key nd s = add_levels alloc i key (kid ?M nd ?b) s"
      by (simp add: get_levelN_def get_swa_node_def)
    ultimately show ?thesis using fin False ok l(1,2)
      by (intro exI [of _ "kid ?M nd ?b"] exI [of _ s] exI [of _ "{}"]) (simp add: same_iter_def)
  next
    case True
    define p where "p = alloc (swa_allocs s) ?M"
    define l1 where "l1 = l\<lparr>ln_child := (ln_child l)[?b := p], ln_nInUse := ln_nInUse l + 1\<rparr>"
    define s1 where "s1 = put_swa_node nd (LevelN l1) (put_swa_node p (empty_node i) (s\<lparr>swa_allocs := swa_allocs s + 1\<rparr>))"
    have p: "p \<noteq> 0" "?M p = None" using al fin by (simp_all add: alloc_fresh_def p_def)
    then have p: "p \<noteq> 0" "?M p = None" "p \<noteq> nd" using l(1) by auto
    have M1: "swa_mem s1 = ?M(p \<mapsto> empty_node i, nd \<mapsto> LevelN l1)" by (simp add: s1_def put_swa_node_def)
    have "{ix. ix < 256 \<and> ln_child l1 ! ix \<noteq> 0} = {ix. ix < 256 \<and> (ix = ?b \<or> ln_child l ! ix \<noteq> 0)}"
      using l(6) p(1) b by (auto simp: l1_def nth_list_update)
    then have "int (card {ix. ix < 256 \<and> ln_child l1 ! ix \<noteq> 0}) = ln_nInUse l1"
      using card_byte_insert [OF b, of "\<lambda>ix. ln_child l ! ix \<noteq> 0"] lb True cnt by (simp add: l1_def)
    then have ok1: "inner_ok (Suc i) l1" using l(5,6) by (simp add: inner_ok_def l1_def)
    then have n1: "ln_nInUse l1 \<ge> 1" "ln_nInUse l1 \<le> 256"
      using cnt card_bytes [of "\<lambda>ix. ln_child l1 ! ix \<noteq> 0"] by (simp_all add: inner_ok_def l1_def)
    have "(if i = 0 then swa_new_Level0 alloc s else swa_new_LevelN alloc (int i) s)
        = (p, put_swa_node p (empty_node i) (s\<lparr>swa_allocs := swa_allocs s + 1\<rparr>))"
      by (simp add: swa_new_Level0_def swa_new_LevelN_def empty_node_def p_def Let_def)
    then have step: "add_levels alloc (Suc i) key nd s = add_levels alloc i key p s1"
      using l True lb n1 by (simp add: get_levelN_def get_swa_node_def Let_def s1_def l1_def)
    have kids: "kid (swa_mem s1) nd iy = (if iy = ?b then p else kid ?M nd iy)" for iy
      using l(1,6) b by (auto simp: M1 kid_def l1_def)
    have pE: "swa_mem s1 p = Some (empty_node i)" using p(3) by (simp add: M1)
    note E = empty_node_ok [where M = "swa_mem s1", OF pE p(1)]
    have "finite (dom (swa_mem s1))" "same_iter s s1" using fin by (simp_all add: M1) (simp add: s1_def put_swa_node_def same_iter_def)
    moreover have "\<forall>x. x \<notin> insert nd {p} \<longrightarrow> swa_mem s1 x = ?M x" "swa_mem s1 nd = Some (LevelN l1)" "ln_nInUse l1 > 0"
      using n1(1) by (simp_all add: M1)
    moreover have "nd \<notin> span_of (swa_mem s1) i p" "held (swa_mem s1) i p = (\<lambda>k. None)" using E p(3) by simp_all
    ultimately show ?thesis using step p(1,2) E(1,3) kids True ok1
      by (intro exI [of _ p] exI [of _ s1] exI [of _ "{p}"]) simp
  qed
qed

lemma add_levels_Suc_bytes:
  "k mod 256 ^ Suc (Suc i) = key mod 256 ^ Suc (Suc i) \<longleftrightarrow>
     key_byte (Suc i) k = key_byte (Suc i) key \<and> k mod 256 ^ Suc i = key mod 256 ^ Suc i"
proof -
  have e: "k mod 256 ^ Suc (Suc i) = 256 ^ Suc i * key_byte (Suc i) k + k mod 256 ^ Suc i" for k
    using mod_mult2_eq [of k "256 ^ Suc i" 256] by (simp add: byte_index mult.commute)
  have lt: "k mod 256 ^ Suc i < 256 ^ Suc i" for k :: nat by simp
  show ?thesis
  proof
    assume a: "k mod 256 ^ Suc (Suc i) = key mod 256 ^ Suc (Suc i)"
    then have "256 ^ Suc i * key_byte (Suc i) k + k mod 256 ^ Suc i
        = 256 ^ Suc i * key_byte (Suc i) key + key mod 256 ^ Suc i" unfolding e .
    then have "(256 ^ Suc i * key_byte (Suc i) k + k mod 256 ^ Suc i) div 256 ^ Suc i
        = (256 ^ Suc i * key_byte (Suc i) key + key mod 256 ^ Suc i) div 256 ^ Suc i"
      "(256 ^ Suc i * key_byte (Suc i) k + k mod 256 ^ Suc i) mod 256 ^ Suc i
        = (256 ^ Suc i * key_byte (Suc i) key + key mod 256 ^ Suc i) mod 256 ^ Suc i" by simp_all
    then show "key_byte (Suc i) k = key_byte (Suc i) key \<and> k mod 256 ^ Suc i = key mod 256 ^ Suc i"
      by (simp del: power_Suc)
  qed (simp only: e)
qed

text \<open>What it takes that the subtree under one byte is rewritten, in part with the new nodes \<open>W\<close>.\<close>

lemma subtree_written:
  assumes ok: "swa_ok M (Suc i) nd" and n: "\<exists>l. M' nd = Some (LevelN l) \<and> inner_ok (Suc i) l"
    and k: "\<And>iy. iy \<noteq> b \<Longrightarrow> kid M' nd iy = kid M nd iy"
    and c: "kid M' nd b \<noteq> 0 \<Longrightarrow> swa_ok M' i (kid M' nd b) \<and> occupied M' (kid M' nd b)
        \<and> span_of M' i (kid M' nd b) \<subseteq> W \<union> (if kid M nd b = 0 then {} else span_of M i (kid M nd b))"
    and W: "\<And>x. x \<in> W \<Longrightarrow> M x = None"
    and fr: "\<And>x. x \<noteq> nd \<Longrightarrow> x \<notin> W \<Longrightarrow> kid M nd b = 0 \<or> x \<notin> span_of M i (kid M nd b) \<Longrightarrow> M' x = M x"
  shows "child_changed M M' i nd b" and "span_of M' (Suc i) nd \<subseteq> span_of M (Suc i) nd \<union> W"
    and "x \<notin> span_of M (Suc i) nd \<union> W \<Longrightarrow> M' x = M x"
proof -
  have sub: "span_of M i (kid M nd iy) \<subseteq> span_of M (Suc i) nd" if "kid M nd iy \<noteq> 0" for iy using that by auto
  have X: "x \<notin> W" if "x \<in> span_of M (Suc i) nd" for x using W [of x] swa_ok_span [OF ok that] by auto
  have far: "x \<noteq> nd" "x \<notin> W" "kid M nd b = 0 \<or> x \<notin> span_of M i (kid M nd b)"
    if "iy \<noteq> b" "kid M nd iy \<noteq> 0" "x \<in> span_of M i (kid M nd iy)" for iy x
  proof -
    show "x \<noteq> nd" using ok that by auto
    show "x \<notin> W" using X sub [OF that(2)] that(3) by blast
    show "kid M nd b = 0 \<or> x \<notin> span_of M i (kid M nd b)" using ok that unfolding swa_ok.simps by blast
  qed
  have "span_of M' i (kid M' nd b) \<inter> span_of M i (kid M nd iy) = {}"
    if "iy \<noteq> b" "kid M nd iy \<noteq> 0" "kid M' nd b \<noteq> 0" for iy
    using conjunct2 [OF conjunct2 [OF c [OF that(3)]]] far [OF that(1,2)] by (auto split: if_splits)
  moreover have "nd \<notin> span_of M' i (kid M' nd b)" if "kid M' nd b \<noteq> 0"
  proof
    assume "nd \<in> span_of M' i (kid M' nd b)"
    then have "nd \<in> W \<or> kid M nd b \<noteq> 0 \<and> nd \<in> span_of M i (kid M nd b)" using c [OF that] by (auto split: if_splits)
    then show False using X [of nd] ok by auto
  qed
  moreover have "M' x = M x" if "iy \<noteq> b" "kid M nd iy \<noteq> 0" "x \<in> span_of M i (kid M nd iy)" for iy x
    by (rule fr [OF far [OF that]])
  moreover have "nd \<noteq> 0" using ok by simp
  ultimately show cc: "child_changed M M' i nd b" unfolding child_changed_def using n k c by blast
  show "span_of M' (Suc i) nd \<subseteq> span_of M (Suc i) nd \<union> W"
  proof (cases "kid M' nd b = 0")
    case True
    then have "span_of M' (Suc i) nd \<subseteq> span_of M (Suc i) nd"
      using child_changed_ok(3) [OF ok cc] by (simp del: span_of.simps)
    then show ?thesis by blast
  next
    case False
    then have "span_of M' (Suc i) nd \<subseteq> span_of M (Suc i) nd \<union> span_of M' i (kid M' nd b)"
      using child_changed_ok(3) [OF ok cc] by (simp only: if_False)
    then show ?thesis using c [OF False] sub [of b] by (auto split: if_splits simp del: span_of.simps)
  qed
  show "M' x = M x" if "x \<notin> span_of M (Suc i) nd \<union> W"
  proof (rule fr)
    have "nd \<in> span_of M (Suc i) nd" by simp
    then show "x \<noteq> nd" "x \<notin> W" using that by blast+
    show "kid M nd b = 0 \<or> x \<notin> span_of M i (kid M nd b)" using sub [of b] that by blast
  qed
qed

definition below :: "swa_memory \<Rightarrow> nat \<Rightarrow> nat \<Rightarrow> nat \<rightharpoonup> nat" where
  "below M i c k = (if c = 0 then None else held M i c k)"

lemma held_written:
  assumes "swa_ok M (Suc i) nd" and "child_changed M M' i nd (key_byte (Suc i) key)"
    and "\<And>k. below M' i (kid M' nd (key_byte (Suc i) key)) k
      = (if k mod 256 ^ Suc i = key mod 256 ^ Suc i then r else below M i (kid M nd (key_byte (Suc i) key)) k)"
  shows "held M' (Suc i) nd k = (if k mod 256 ^ Suc (Suc i) = key mod 256 ^ Suc (Suc i) then r else held M (Suc i) nd k)"
proof (cases "key_byte (Suc i) k = key_byte (Suc i) key")
  case True
  then have "held M (Suc i) nd k = below M i (kid M nd (key_byte (Suc i) key)) k" by (simp add: below_def Let_def)
  with True assms(3) [of k] show ?thesis
    unfolding child_changed_ok(2) [OF assms(1,2)] add_levels_Suc_bytes [of k i key] by (simp add: below_def)
next
  case False
  then show ?thesis unfolding child_changed_ok(2) [OF assms(1,2)] add_levels_Suc_bytes [of k i key] by simp
qed

lemma add_at_ok:
  assumes al: "alloc_fresh alloc"
  shows "swa_ok (swa_mem s) i nd \<Longrightarrow> finite (dom (swa_mem s)) \<Longrightarrow>
   \<exists>s' W. add_at alloc i key val nd s = Inr (held (swa_mem s) i nd key \<noteq> None, s')
     \<and> finite (dom (swa_mem s')) \<and> (\<forall>x\<in>W. swa_mem s x = None)
     \<and> added (swa_mem s) (swa_mem s') i nd key val W \<and> same_iter s s'"
proof (induction i arbitrary: nd s)
  case 0
  from add_leaf_ok [OF 0(1), of key val] obtain s' where
    s': "add_leaf key val nd s = Inr (held (swa_mem s) 0 nd key \<noteq> None, s')"
      "added (swa_mem s) (swa_mem s') 0 nd key val {}" "same_iter s s'" by blast
  have "dom (swa_mem s') \<subseteq> insert nd (dom (swa_mem s))"
    using s'(2) by (auto simp: added_def dom_def)
  then have "finite (dom (swa_mem s'))" by (rule finite_subset) (use 0(2) in simp)
  with s' show ?case by (intro exI [of _ s'] exI [of _ "{}"]) (simp add: add_at_def)
next
  case (Suc i)
  let ?M = "swa_mem s" and ?b = "key_byte (Suc i) key"
  from add_levels_step [OF Suc.prems(1) al Suc.prems(2), of key] obtain c s1 A where
    st: "add_levels alloc (Suc i) key nd s = add_levels alloc i key c s1" "same_iter s s1"
      "finite (dom (swa_mem s1))"
    and A: "\<forall>x\<in>A. ?M x = None" "\<forall>x. x \<notin> insert nd A \<longrightarrow> swa_mem s1 x = ?M x"
    and k: "kid (swa_mem s1) nd ?b = c" "c \<noteq> 0" "\<forall>iy. iy \<noteq> ?b \<longrightarrow> kid (swa_mem s1) nd iy = kid ?M nd iy"
    and n: "\<exists>l. swa_mem s1 nd = Some (LevelN l) \<and> inner_ok (Suc i) l \<and> ln_nInUse l > 0"
    and c: "swa_ok (swa_mem s1) i c" "nd \<notin> span_of (swa_mem s1) i c"
    and h: "held (swa_mem s1) i c = (\<lambda>k. if kid ?M nd ?b = 0 then None else held ?M i (kid ?M nd ?b) k)"
    and sp: "if kid ?M nd ?b = 0 then span_of (swa_mem s1) i c = A
       else c = kid ?M nd ?b \<and> span_of (swa_mem s1) i c = span_of ?M i c" by blast
  from Suc.IH [OF c(1) st(3)] obtain s' W where
    s': "add_at alloc i key val c s1 = Inr (held (swa_mem s1) i c key \<noteq> None, s')" "finite (dom (swa_mem s'))"
      "\<forall>x\<in>W. swa_mem s1 x = None" "same_iter s1 s'" "added (swa_mem s1) (swa_mem s') i c key val W" by blast
  let ?M1 = "swa_mem s1" and ?M' = "swa_mem s'" and ?B = "A \<union> W" and ?A = W
  note a = s'(5) [unfolded added_def]
  have S: "?M x = None" if "x \<in> ?B" for x
  proof (cases "x \<in> A")
    case False
    then have "?M1 x = None" using that s'(3) by blast
    moreover from this have "x \<noteq> nd" using n by auto
    ultimately show ?thesis using A(2) False by (metis insert_iff)
  qed (use A(1) in blast)
  have spc: "span_of ?M1 i c \<subseteq> A \<union> (if kid ?M nd ?b = 0 then {} else span_of ?M i (kid ?M nd ?b))" using sp by auto
  have "?M nd \<noteq> None" using Suc.prems(1) by auto
  then have nB: "nd \<notin> ?B" using S [of nd] by (rule contrapos_nn)
  have "nd \<notin> ?A" using nB by blast
  with c(2) have nd': "?M' nd = ?M1 nd" using a by simp
  have kd: "kid ?M' nd iy = (if iy = ?b then c else kid ?M nd iy)" for iy
  proof -
    have "kid ?M' nd iy = kid ?M1 nd iy" using nd' by (simp add: kid_def)
    then show ?thesis using k by simp
  qed
  have n': "\<exists>l. ?M' nd = Some (LevelN l) \<and> inner_ok (Suc i) l" using n nd' by auto
  have c': "swa_ok ?M' i (kid ?M' nd ?b) \<and> occupied ?M' (kid ?M' nd ?b)
      \<and> span_of ?M' i (kid ?M' nd ?b) \<subseteq> ?B \<union> (if kid ?M nd ?b = 0 then {} else span_of ?M i (kid ?M nd ?b))"
  proof -
    have kb: "kid ?M' nd ?b = c" by (simp add: kd)
    have "span_of ?M' i c \<subseteq> span_of ?M1 i c \<union> ?A" "swa_ok ?M' i c" "occupied ?M' c" using a by blast+
    moreover have "span_of ?M1 i c \<union> ?A \<subseteq> ?B \<union> (if kid ?M nd ?b = 0 then {} else span_of ?M i (kid ?M nd ?b))"
      using spc by blast
    ultimately show ?thesis unfolding kb by (intro conjI) (assumption, assumption, rule subset_trans)
  qed
  have fr: "?M' x = ?M x" if x: "x \<noteq> nd" "x \<notin> ?B" "kid ?M nd ?b = 0 \<or> x \<notin> span_of ?M i (kid ?M nd ?b)" for x
  proof -
    have o: "x \<notin> A" "x \<notin> ?A" using x(2) by blast+
    have "x \<notin> span_of ?M1 i c" using spc o(1) x(3) by (auto split: if_splits)
    then have "?M' x = ?M1 x" using a o(2) by blast
    also have "\<dots> = ?M x" using A(2) x(1) o(1) by blast
    finally show ?thesis .
  qed
  note W = subtree_written [where M' = ?M' and W = ?B and b = ?b, OF Suc.prems(1) n' _ c' S fr]
  have cc: "child_changed ?M ?M' i nd ?b" by (rule W(1)) (simp_all add: kd)
  note C = child_changed_ok [OF Suc.prems(1) cc]
  have "below ?M' i (kid ?M' nd ?b) k = (if k mod 256 ^ Suc i = key mod 256 ^ Suc i then Some val else below ?M i (kid ?M nd ?b) k)" for k
    using a k(2) by (simp add: kd below_def h)
  note H = held_written [OF Suc.prems(1) cc this]
  have e: "held ?M (Suc i) nd key = held ?M1 i c key" by (simp add: h Let_def)
  have "occupied ?M' nd" using n nd' by (auto simp: occupied_def)
  moreover have "span_of ?M' (Suc i) nd \<subseteq> span_of ?M (Suc i) nd \<union> ?B" by (rule W(2)) (simp_all add: kd)
  moreover have "?M' x = ?M x" if "x \<notin> span_of ?M (Suc i) nd \<union> ?B" for x by (rule W(3)) (use that in \<open>simp_all add: kd\<close>)
  ultimately have "added ?M ?M' (Suc i) nd key val ?B" unfolding added_def using C(1) H by blast
  moreover have "add_at alloc (Suc i) key val nd s = add_at alloc i key val c s1" by (simp only: add_at_def st(1))
  moreover have "same_iter s s'" using st(2) s'(4) by (simp add: same_iter_def)
  ultimately show ?case using s'(1,2) S e by (intro exI [of _ s'] exI [of _ ?B]) simp
qed

section \<open>Deletion\<close>

definition del_at :: "nat \<Rightarrow> nat \<Rightarrow> nat \<Rightarrow> (nat \<times> nat) list \<Rightarrow> swa \<Rightarrow> ((nat \<times> nat) option \<times> swa) res" where
  "del_at i key nd vs s = bind_res (del_levels i key nd vs s) (\<lambda>(nd, vs). del_leaf key nd vs s)"

text \<open>The tree loses the key, or all of its nodes.\<close>

definition deleted :: "swa_memory \<Rightarrow> swa_memory \<Rightarrow> nat \<Rightarrow> nat \<Rightarrow> nat \<Rightarrow> bool" where
  "deleted M M' i nd key \<longleftrightarrow>
     swa_ok M' i nd \<and> occupied M' nd
     \<and> (\<forall>k. held M' i nd k = (if k mod 256 ^ Suc i = key mod 256 ^ Suc i then None else held M i nd k))
     \<and> span_of M' i nd \<subseteq> span_of M i nd \<and> (\<forall>x. x \<notin> span_of M i nd \<longrightarrow> M' x = M x)"

definition emptied :: "swa_memory \<Rightarrow> swa_memory \<Rightarrow> nat \<Rightarrow> nat \<Rightarrow> nat \<Rightarrow> bool" where
  "emptied M M' i nd key \<longleftrightarrow>
     (\<forall>k. k mod 256 ^ Suc i \<noteq> key mod 256 ^ Suc i \<longrightarrow> held M i nd k = None)
     \<and> (\<forall>x. M' x = (if x \<in> span_of M i nd then None else M x))"

definition deletes :: "swa \<Rightarrow> nat \<Rightarrow> nat \<Rightarrow> nat \<Rightarrow> (nat \<times> nat) list \<Rightarrow> ((nat \<times> nat) option \<times> swa) res \<Rightarrow> bool" where
  "deletes s i key nd vs res \<longleftrightarrow>
     (case held (swa_mem s) i nd key of
        None \<Rightarrow> res = Inr (None, s)
      | Some w \<Rightarrow> \<exists>M'.
          res = Inr (Some (key, w), s\<lparr>swa_mem := M'\<rparr>) \<and> deleted (swa_mem s) M' i nd key
          \<or> res = bind_res (del_up vs (s\<lparr>swa_mem := M'\<rparr>)) (\<lambda>s2. Inr (Some (key, w), s2)) \<and> emptied (swa_mem s) M' i nd key)"

lemma card_byte_remove:
  "ix < 256 \<Longrightarrow> P ix \<Longrightarrow> card {j. j < (256::nat) \<and> (j \<noteq> ix \<and> P j)} + 1 = card {j. j < 256 \<and> P j}"
proof -
  assume i: "ix < 256" "P ix"
  have "{j. j < 256 \<and> P j} = insert ix {j. j < 256 \<and> (j \<noteq> ix \<and> P j)}" using i by auto
  then show ?thesis by simp
qed

lemma card_bytes_none: "card {j. j < (256::nat) \<and> P j} = 0 \<longleftrightarrow> (\<forall>j<256. \<not> P j)"
  by (subst card_0_eq) auto

lemma del_leaf_ok:
  assumes ok: "swa_ok (swa_mem s) 0 nd" "occupied (swa_mem s) nd" and vs: "length vs = 7"
  shows "deletes s 0 key nd vs (del_leaf key nd vs s)"
proof -
  let ?ix = "key_byte 0 key" and ?M = "swa_mem s"
  obtain l where l: "nd \<noteq> 0" "?M nd = Some (Level0 l)" "length (l0_words l) = 256" "length (l0_inUse l) = 32"
      "l0_nInUse l = int (card {ix. ix < 256 \<and> used (l0_inUse l) ix})"
    using ok(1) by (auto simp: leaf_ok_def)
  have pos: "l0_nInUse l > 0" using ok(2) l(2) by (simp add: occupied_def)
  define arr where "arr = snd (swa_bitarray_read_then_clear (l0_inUse l) ?ix)"
  note U = used_clear [OF l(4) key_byte_less, of 0 key, folded arr_def]
  have node: "get_level0 nd s = Inr l" using l(1,2) by (simp add: get_level0_def get_swa_node_def)
  show ?thesis
  proof (cases "used (l0_inUse l) ?ix")
    case False
    have "arr = l0_inUse l" unfolding arr_def by (rule clear_unused [OF l(4) key_byte_less False])
    then have "del_leaf key nd vs s = Inr (None, put_swa_node nd (Level0 l) s)"
      using False l(1) pos by (simp add: del_leaf_def node byte_index(2) U(1) Let_def)
    moreover have "put_swa_node nd (Level0 l) s = s" using l(2) by (simp add: put_swa_node_def fun_upd_idem)
    ultimately show ?thesis using False l(2) by (simp add: deletes_def)
  next
    case True
    define l2 where "l2 = l\<lparr>l0_inUse := arr, l0_nInUse := l0_nInUse l - 1\<rparr>"
    define w where "w = l0_words l ! ?ix"
    have hw: "held ?M 0 nd key = Some w" using True l(2) by (simp add: w_def)
    have n: "l0_nInUse l2 = int (card {j. j < 256 \<and> used arr j})"
      using card_byte_remove [where P = "used (l0_inUse l)" and ix = ?ix, OF key_byte_less True] l(5) by (simp add: l2_def U(3))
    have eq: "del_leaf key nd vs s =
        (if l0_nInUse l2 > 0 then Inr (Some (key, w), put_swa_node nd (Level0 l2) s)
         else bind_res (del_up vs (swa_dealloc nd (put_swa_node nd (Level0 l2) s))) (\<lambda>s2. Inr (Some (key, w), s2)))"
      using l(1) pos vs True by (simp add: del_leaf_def node byte_index(2) U(1) Let_def l2_def w_def)
    have kk: "k mod 256 ^ Suc 0 = key mod 256 ^ Suc 0 \<longleftrightarrow> key_byte 0 k = ?ix" for k by (simp add: byte_index)
    show ?thesis
    proof (cases "l0_nInUse l2 > 0")
      case True
      let ?M' = "?M(nd \<mapsto> Level0 l2)"
      have "held ?M' 0 nd k = (if key_byte 0 k = ?ix then None else held ?M 0 nd k)" for k
        using U(3) [of "key_byte 0 k"] l(2) by (simp add: l2_def)
      moreover have "leaf_ok l2" using n l(3) U(2) by (simp add: leaf_ok_def l2_def)
      ultimately have "deleted ?M ?M' 0 nd key"
        using l(1) True unfolding deleted_def kk by (simp add: occupied_def del: held.simps)
      then show ?thesis using eq True hw
        by (auto simp: deletes_def put_swa_node_def intro!: exI [of _ ?M'])
    next
      case False
      then have "card {j. j < 256 \<and> used arr j} = 0" using n by simp
      then have none: "\<forall>j<256. j = ?ix \<or> \<not> used (l0_inUse l) j" using U(3) unfolding card_bytes_none by simp
      let ?M' = "?M(nd := None)"
      have "held ?M 0 nd k = None" if "key_byte 0 k \<noteq> ?ix" for k
        using none key_byte_less [of 0 k] that l(2) by auto
      then have "emptied ?M ?M' 0 nd key" unfolding emptied_def kk by (simp del: held.simps)
      then show ?thesis using eq False hw
        by (auto simp: deletes_def put_swa_node_def swa_dealloc_def intro!: exI [of _ ?M'])
    qed
  qed
qed

lemma del_at_ok:
  "swa_ok (swa_mem s) i nd \<Longrightarrow> occupied (swa_mem s) nd \<Longrightarrow> length vs + i = 7 \<Longrightarrow>
   deletes s i key nd vs (del_at i key nd vs s)"
proof (induction i arbitrary: nd vs)
  case 0
  then show ?case using del_leaf_ok [of s nd vs key] by (simp add: del_at_def)
next
  case (Suc i)
  let ?M = "swa_mem s" and ?b = "key_byte (Suc i) key"
  define c where "c = kid ?M nd ?b"
  from inner_node [OF Suc.prems(1)] obtain l where l: "?M nd = Some (LevelN l)" "inner_ok (Suc i) l" "nd \<noteq> 0"
    "\<forall>ix<256. ln_child l ! ix = kid ?M nd ix" "ln_level l = int (Suc i)" "length (ln_child l) = 256" by blast
  have b: "?b < 256" by (rule key_byte_less)
  have lb: "ln_child l ! ?b = c" using l(4) b by (simp add: c_def)
  have pos: "ln_nInUse l > 0" using Suc.prems(2) l(1) by (simp add: occupied_def)
  have step: "del_at (Suc i) key nd vs s = del_at i key c ((nd, ?b) # vs) s"
    using l(1,3,5) pos lb by (simp add: del_at_def get_levelN_def get_swa_node_def Let_def)
  show ?case
  proof (cases "c = 0")
    case True
    then have "del_at i key c ((nd, ?b) # vs) s = Inr (None, s)"
      by (cases i) (simp_all add: del_at_def del_leaf_def)
    with step True show ?thesis by (simp add: deletes_def c_def)
  next
    case False
    have okc: "swa_ok ?M i c" "occupied ?M c" "nd \<notin> span_of ?M i c" using Suc.prems(1) False by (simp_all add: c_def)
    have dis: "span_of ?M i c \<inter> span_of ?M i (kid ?M nd iy) = {}" if "iy \<noteq> ?b" "kid ?M nd iy \<noteq> 0" for iy
      using Suc.prems(1) that False by (simp add: c_def)
    have hc: "held ?M (Suc i) nd k = held ?M i c k" if "key_byte (Suc i) k = ?b" for k
      using False that by (simp add: c_def)
    have sub: "span_of ?M i c \<subseteq> span_of ?M (Suc i) nd" using False by (auto simp: c_def)
    have IH: "deletes s i key c ((nd, ?b) # vs) (del_at i key c ((nd, ?b) # vs) s)"
      by (rule Suc.IH [OF okc(1,2)]) (use Suc.prems(3) in simp)
    show ?thesis
    proof (cases "held ?M i c key")
      case None
      then show ?thesis using IH step False by (simp add: deletes_def c_def)
    next
      case (Some w)
      then have hw: "held ?M (Suc i) nd key = Some w" using False by (simp add: c_def)
      from IH Some obtain M' where
        "del_at i key c ((nd, ?b) # vs) s = Inr (Some (key, w), s\<lparr>swa_mem := M'\<rparr>) \<and> deleted ?M M' i c key
         \<or> del_at i key c ((nd, ?b) # vs) s = bind_res (del_up ((nd, ?b) # vs) (s\<lparr>swa_mem := M'\<rparr>)) (\<lambda>s2. Inr (Some (key, w), s2))
           \<and> emptied ?M M' i c key" by (auto simp: deletes_def)
      then show ?thesis
      proof
        assume d: "del_at i key c ((nd, ?b) # vs) s = Inr (Some (key, w), s\<lparr>swa_mem := M'\<rparr>) \<and> deleted ?M M' i c key"
        note D = conjunct2 [OF d, unfolded deleted_def]
        have nd': "M' nd = ?M nd" using D okc(3) by simp
        have kd: "kid M' nd = kid ?M nd" using nd' by (simp add: kid_def fun_eq_iff)
        have "M' x = ?M x" if "iy \<noteq> ?b" "kid ?M nd iy \<noteq> 0" "x \<in> span_of ?M i (kid ?M nd iy)" for iy x
          using D dis [OF that(1,2)] that(3) by blast
        moreover have "span_of M' i c \<inter> span_of ?M i (kid ?M nd iy) = {}" if "iy \<noteq> ?b" "kid ?M nd iy \<noteq> 0" for iy
          using D dis [OF that] by blast
        moreover have "nd \<notin> span_of M' i c" "swa_ok M' i c" "occupied M' c" using D okc(3) by blast+
        moreover have "M' nd = Some (LevelN l)" using nd' l(1) by simp
        ultimately have "child_changed ?M M' i nd ?b"
          unfolding child_changed_def kd c_def [symmetric] using l(2,3) by blast
        note C = child_changed_ok [OF Suc.prems(1) this, unfolded kd c_def [symmetric]]
        have "held M' (Suc i) nd k = (if k mod 256 ^ Suc (Suc i) = key mod 256 ^ Suc (Suc i) then None else held ?M (Suc i) nd k)" for k
        proof -
          have "held M' i c k = (if k mod 256 ^ Suc i = key mod 256 ^ Suc i then None else held ?M i c k)" using D by blast
          then show ?thesis unfolding C(2) add_levels_Suc_bytes [of k i key]
            using False hc [of k] by (cases "key_byte (Suc i) k = ?b") (simp_all only: if_True if_False simp_thms)
        qed
        moreover have "span_of M' (Suc i) nd \<subseteq> span_of ?M (Suc i) nd"
          using C(3) D sub False by (simp only: if_False) blast
        moreover have "occupied M' nd" using Suc.prems(2) nd' by (simp add: occupied_def)
        ultimately have "deleted ?M M' (Suc i) nd key" unfolding deleted_def using C(1) D sub by blast
        then show ?thesis using d hw step by (auto simp: deletes_def simp del: held.simps)
      next
        assume d: "del_at i key c ((nd, ?b) # vs) s = bind_res (del_up ((nd, ?b) # vs) (s\<lparr>swa_mem := M'\<rparr>)) (\<lambda>s2. Inr (Some (key, w), s2))
           \<and> emptied ?M M' i c key"
        note D = conjunct2 [OF d, unfolded emptied_def]
        define l1 where "l1 = l\<lparr>ln_child := (ln_child l)[?b := 0], ln_nInUse := ln_nInUse l - 1\<rparr>"
        have nd': "M' nd = Some (LevelN l)" using D okc(3) l(1) by simp
        have cnt: "ln_nInUse l1 = int (card {j. j < 256 \<and> ln_child l1 ! j \<noteq> 0})"
        proof -
          have "{j. j < 256 \<and> ln_child l1 ! j \<noteq> 0} = {j. j < 256 \<and> (j \<noteq> ?b \<and> ln_child l ! j \<noteq> 0)}"
            using l(6) b by (auto simp: l1_def nth_list_update split: if_splits)
          then show ?thesis
            using card_byte_remove [where P = "\<lambda>j. ln_child l ! j \<noteq> 0" and ix = ?b] b lb False l(2) by (simp add: l1_def inner_ok_def)
        qed
        have up: "del_up ((nd, ?b) # vs) (s\<lparr>swa_mem := M'\<rparr>) =
            (if ln_nInUse l1 > 0 then Inr (s\<lparr>swa_mem := M'(nd \<mapsto> LevelN l1)\<rparr>) else del_up vs (s\<lparr>swa_mem := M'(nd := None)\<rparr>))"
          using nd' l(3) lb False pos
          by (simp add: get_levelN_def get_swa_node_def Let_def l1_def put_swa_node_def swa_dealloc_def)
        show ?thesis
        proof (cases "ln_nInUse l1 > 0")
          case True
          let ?M' = "M'(nd \<mapsto> LevelN l1)"
          have kd: "kid ?M' nd iy = (if iy = ?b then 0 else kid ?M nd iy)" for iy
            using l(1,6) b by (auto simp: kid_def l1_def)
          have ok1: "inner_ok (Suc i) l1" using cnt l(5,6) by (simp add: inner_ok_def l1_def)
          have "?M' x = ?M x" if "iy \<noteq> ?b" "kid ?M nd iy \<noteq> 0" "x \<in> span_of ?M i (kid ?M nd iy)" for iy x
            using D dis [OF that(1,2)] that(3) Suc.prems(1) that(2) by auto
          then have "child_changed ?M ?M' i nd ?b" using l(3) ok1 by (simp add: child_changed_def kd)
          note C = child_changed_ok [OF Suc.prems(1) this, unfolded kd]
          have "held ?M' (Suc i) nd k = (if k mod 256 ^ Suc (Suc i) = key mod 256 ^ Suc (Suc i) then None else held ?M (Suc i) nd k)" for k
          proof -
            have "k mod 256 ^ Suc i \<noteq> key mod 256 ^ Suc i \<Longrightarrow> held ?M i c k = None" using D by blast
            then show ?thesis unfolding C(2) add_levels_Suc_bytes [of k i key]
              using hc [of k] by (cases "key_byte (Suc i) k = ?b") (simp_all del: held.simps power_Suc)
          qed
          moreover have "occupied ?M' nd" using True by (simp add: occupied_def)
          moreover have "span_of ?M' (Suc i) nd \<subseteq> span_of ?M (Suc i) nd" using C(3) by (simp del: span_of.simps)
          moreover have "?M' x = ?M x" if "x \<notin> span_of ?M (Suc i) nd" for x
          proof -
            have "x \<noteq> nd" using that by auto
            moreover have "x \<notin> span_of ?M i c" using that sub by blast
            ultimately show ?thesis using D by simp
          qed
          ultimately have "deleted ?M ?M' (Suc i) nd key" unfolding deleted_def using C(1) by blast
          then show ?thesis using d hw step up True by (auto simp: deletes_def simp del: held.simps)
        next
          case False
          then have "card {j. j < 256 \<and> ln_child l1 ! j \<noteq> 0} = 0" using cnt by linarith
          then have z: "\<forall>j<256. \<not> ln_child l1 ! j \<noteq> 0" by (simp only: card_bytes_none)
          have none: "j = ?b \<or> kid ?M nd j = 0" if "j < 256" for j
          proof (cases "j = ?b")
            case False
            then have "ln_child l1 ! j = ln_child l ! j" by (simp add: l1_def)
            then show ?thesis using z l(4) that by simp
          qed simp
          have kz: "kid ?M nd iy = 0" if "iy \<noteq> ?b" for iy
            using none that l(1,6) by (cases "iy < 256") (auto simp: kid_def)
          have "span_of ?M (Suc i) nd = insert nd (span_of ?M i c)"
          proof -
            have "kid ?M nd ix \<noteq> 0 \<longleftrightarrow> ix = ?b" for ix using kz [of ix] \<open>c \<noteq> 0\<close> by (cases "ix = ?b") (simp_all add: c_def)
            then show ?thesis by (simp add: c_def)
          qed
          moreover have "held ?M (Suc i) nd k = None" if "k mod 256 ^ Suc (Suc i) \<noteq> key mod 256 ^ Suc (Suc i)" for k
          proof (cases "key_byte (Suc i) k = ?b")
            case True
            then have "k mod 256 ^ Suc i \<noteq> key mod 256 ^ Suc i" using that unfolding add_levels_Suc_bytes [of k i key] by blast
            then show ?thesis using D hc [OF True] by (simp del: held.simps)
          next
            case False
            then show ?thesis using kz by (simp add: Let_def)
          qed
          ultimately have "emptied ?M (M'(nd := None)) (Suc i) nd key"
            unfolding emptied_def using D by (simp del: span_of.simps held.simps)
          then show ?thesis using d hw step up False by (auto simp: deletes_def simp del: held.simps)
        qed
      qed
    qed
  qed
qed

section \<open>The operations\<close>

definition sparse_ok :: "swa \<Rightarrow> bool" where
  "sparse_ok s \<longleftrightarrow> swa_root s = 0 \<or> swa_ok (swa_mem s) 7 (swa_root s) \<and> occupied (swa_mem s) (swa_root s)"

text \<open>The map from keys to words that the array stands for.\<close>

definition sparse_map :: "swa \<Rightarrow> nat \<rightharpoonup> nat" where
  "sparse_map s = (if swa_root s = 0 then Map.empty else held (swa_mem s) 7 (swa_root s))"

definition sparse_span :: "swa \<Rightarrow> nat set" where
  "sparse_span s = (if swa_root s = 0 then {} else span_of (swa_mem s) 7 (swa_root s))"

lemma lookupSWA_ok:
  assumes "sparse_ok s"
  shows "lookupSWA key s = Inr (map_option (Pair key) (sparse_map s key))"
proof (cases "swa_root s = 0")
  case True
  then show ?thesis by (simp add: lookupSWA_def sparse_map_def numeral_eq_Suc)
next
  case False
  then have r: "swa_ok (swa_mem s) 7 (swa_root s)" "occupied (swa_mem s) (swa_root s)" using assms by (simp_all add: sparse_ok_def)
  from lookup_levels_ok [OF this, of key] obtain q where
    q: "lookup_levels 7 key (swa_root s) s = Inr q" "q = 0 \<and> held (swa_mem s) 7 (swa_root s) key = None
        \<or> q \<noteq> 0 \<and> swa_ok (swa_mem s) 0 q \<and> occupied (swa_mem s) q
          \<and> held (swa_mem s) 7 (swa_root s) key = held (swa_mem s) 0 q key" by blast
  show ?thesis
  proof (cases "q = 0")
    case True
    then have "held (swa_mem s) 7 (swa_root s) key = None" using q(2) by blast
    with True q(1) False show ?thesis by (simp add: lookupSWA_def sparse_map_def)
  next
    case nz: False
    then have q2: "swa_ok (swa_mem s) 0 q" "occupied (swa_mem s) q" "held (swa_mem s) 7 (swa_root s) key = held (swa_mem s) 0 q key"
      using q(2) by blast+
    then obtain l where l: "swa_mem s q = Some (Level0 l)" by auto
    then have "l0_nInUse l > 0" using q2(2) by (simp add: occupied_def)
    with l nz q(1) False q2(3) show ?thesis
      by (simp add: lookupSWA_def sparse_map_def get_level0_def get_swa_node_def byte_index(2) swa_bitarray_read_used Let_def)
  qed
qed

lemma addToSWA_ok:
  assumes ok: "sparse_ok s" and al: "alloc_fresh alloc" and fin: "finite (dom (swa_mem s))" and key: "key < 2 ^ 64"
  shows "\<exists>s'. addToSWA alloc key val s = Inr (sparse_map s key \<noteq> None, s') \<and> sparse_ok s'
    \<and> (\<forall>k<2 ^ 64. sparse_map s' k = ((sparse_map s)(key \<mapsto> val)) k)
    \<and> finite (dom (swa_mem s')) \<and> iterStack s' = iterStack s"
proof -
  have m: "k mod 256 ^ Suc 7 = k" if "k < 2 ^ 64" for k :: nat using that by simp
  show ?thesis
  proof (cases "swa_root s = 0")
    case False
    then have r: "swa_ok (swa_mem s) 7 (swa_root s)" using ok by (simp add: sparse_ok_def)
    from add_at_ok [OF al r fin, of key val] obtain s' W where
      a: "add_at alloc 7 key val (swa_root s) s = Inr (held (swa_mem s) 7 (swa_root s) key \<noteq> None, s')"
        "finite (dom (swa_mem s'))" "\<forall>x\<in>W. swa_mem s x = None"
        "added (swa_mem s) (swa_mem s') 7 (swa_root s) key val W" "same_iter s s'" by blast
    have root: "swa_root s' = swa_root s" using a(5) by (simp add: same_iter_def)
    have "addToSWA alloc key val s = add_at alloc 7 key val (swa_root s) s"
      using False by (simp add: addToSWA_def add_at_def)
    moreover have "sparse_ok s'" using a(4) root by (simp add: sparse_ok_def added_def)
    moreover have "sparse_map s' k = ((sparse_map s)(key \<mapsto> val)) k" if "k < 2 ^ 64" for k
    proof -
      have "held (swa_mem s') 7 (swa_root s) k =
          (if k mod 256 ^ Suc 7 = key mod 256 ^ Suc 7 then Some val else held (swa_mem s) 7 (swa_root s) k)"
        using a(4) unfolding added_def by blast
      then show ?thesis unfolding m [OF that] m [OF key] using False by (simp add: sparse_map_def root)
    qed
    moreover have "iterStack s' = iterStack s" using a(5) by (simp add: same_iter_def)
    ultimately show ?thesis using a(1,2) False
      by (intro exI [of _ s']) (simp add: sparse_map_def)
  next
    case True
    define p where "p = alloc (swa_allocs s) (swa_mem s)"
    define s1 where "s1 = (put_swa_node p (empty_node 7) (s\<lparr>swa_allocs := swa_allocs s + 1\<rparr>))\<lparr>swa_root := p\<rparr>"
    have p: "p \<noteq> 0" using al fin by (simp add: alloc_fresh_def p_def)
    have M1: "swa_mem s1 = (swa_mem s)(p \<mapsto> empty_node 7)" "swa_root s1 = p"
      by (simp_all add: s1_def put_swa_node_def)
    have "swa_mem s1 p = Some (empty_node 7)" by (simp add: M1)
    note E = empty_node_ok [where M = "swa_mem s1", OF this p]
    have "finite (dom (swa_mem s1))" using fin by (simp add: M1)
    from add_at_ok [OF al E(1) this, of key val] obtain s' W where
      a: "add_at alloc 7 key val p s1 = Inr (held (swa_mem s1) 7 p key \<noteq> None, s')"
        "finite (dom (swa_mem s'))" "\<forall>x\<in>W. swa_mem s1 x = None"
        "added (swa_mem s1) (swa_mem s') 7 p key val W" "same_iter s1 s'" by blast
    have root: "swa_root s' = p" using a(5) M1(2) by (simp add: same_iter_def)
    have "addToSWA alloc key val s = add_at alloc 7 key val p s1"
      using True by (simp add: addToSWA_def add_at_def swa_new_LevelN_def s1_def p_def empty_node_def Let_def put_swa_node_def)
    moreover have "sparse_ok s'" using a(4) root by (simp add: sparse_ok_def added_def)
    moreover have "sparse_map s' k = ((sparse_map s)(key \<mapsto> val)) k" if "k < 2 ^ 64" for k
    proof -
      have "held (swa_mem s') 7 p k = (if k mod 256 ^ Suc 7 = key mod 256 ^ Suc 7 then Some val else held (swa_mem s1) 7 p k)"
        using a(4) unfolding added_def by blast
      then show ?thesis unfolding m [OF that] m [OF key] using True p by (simp add: sparse_map_def root E(2))
    qed
    moreover have "iterStack s' = iterStack s" using a(5) by (simp add: same_iter_def s1_def put_swa_node_def)
    ultimately show ?thesis using a(1,2) True E(2) by (intro exI [of _ s']) (simp add: sparse_map_def)
  qed
qed

lemma delFromSWA_ok:
  assumes ok: "sparse_ok s" and key: "key < 2 ^ 64"
  shows "\<exists>s'. delFromSWA key s = Inr (map_option (Pair key) (sparse_map s key), s') \<and> sparse_ok s'
    \<and> (\<forall>k<2 ^ 64. sparse_map s' k = ((sparse_map s)(key := None)) k)
    \<and> (\<forall>x. x \<notin> sparse_span s \<longrightarrow> swa_mem s' x = swa_mem s x) \<and> swa_allocs s' = swa_allocs s"
proof -
  have m: "k mod 256 ^ Suc 7 = k" if "k < 2 ^ 64" for k :: nat using that by simp
  have eq: "delFromSWA key s = del_at 7 key (swa_root s) [] s" by (simp add: delFromSWA_def del_at_def)
  show ?thesis
  proof (cases "swa_root s = 0")
    case True
    have "del_at 7 key 0 [] s = Inr (None, s)" by (simp add: del_at_def del_leaf_def numeral_eq_Suc)
    then show ?thesis using True ok eq by (intro exI [of _ s]) (simp add: sparse_map_def)
  next
    case False
    then have r: "swa_ok (swa_mem s) 7 (swa_root s)" "occupied (swa_mem s) (swa_root s)" using ok by (simp_all add: sparse_ok_def)
    note D = del_at_ok [OF this, of "[]" key, simplified, folded eq]
    show ?thesis
    proof (cases "held (swa_mem s) 7 (swa_root s) key")
      case None
      then show ?thesis using D False ok
        by (intro exI [of _ s]) (auto simp: deletes_def sparse_map_def)
    next
      case (Some w)
      from D Some obtain M' where
        "delFromSWA key s = Inr (Some (key, w), s\<lparr>swa_mem := M'\<rparr>) \<and> deleted (swa_mem s) M' 7 (swa_root s) key
         \<or> delFromSWA key s = Inr (Some (key, w), s\<lparr>swa_mem := M', swa_root := 0\<rparr>) \<and> emptied (swa_mem s) M' 7 (swa_root s) key"
        by (auto simp: deletes_def)
      then show ?thesis
      proof
        assume d: "delFromSWA key s = Inr (Some (key, w), s\<lparr>swa_mem := M'\<rparr>) \<and> deleted (swa_mem s) M' 7 (swa_root s) key"
        have "held M' 7 (swa_root s) k = (if k = key then None else held (swa_mem s) 7 (swa_root s) k)" if "k < 2 ^ 64" for k
        proof -
          have "held M' 7 (swa_root s) k = (if k mod 256 ^ Suc 7 = key mod 256 ^ Suc 7 then None else held (swa_mem s) 7 (swa_root s) k)"
            using d unfolding deleted_def by blast
          then show ?thesis unfolding m [OF that] m [OF key] .
        qed
        with d False Some show ?thesis
          by (intro exI [of _ "s\<lparr>swa_mem := M'\<rparr>"]) (simp add: sparse_ok_def sparse_map_def sparse_span_def deleted_def)
      next
        assume d: "delFromSWA key s = Inr (Some (key, w), s\<lparr>swa_mem := M', swa_root := 0\<rparr>) \<and> emptied (swa_mem s) M' 7 (swa_root s) key"
        have none: "held (swa_mem s) 7 (swa_root s) k = None" if "k < 2 ^ 64" "k \<noteq> key" for k
        proof -
          have "k mod 256 ^ Suc 7 \<noteq> key mod 256 ^ Suc 7 \<longrightarrow> held (swa_mem s) 7 (swa_root s) k = None"
            using d unfolding emptied_def by blast
          then show ?thesis unfolding m [OF that(1)] m [OF key] using that(2) by blast
        qed
        with d False Some show ?thesis
          by (intro exI [of _ "s\<lparr>swa_mem := M', swa_root := 0\<rparr>"])
            (auto simp: sparse_ok_def sparse_map_def sparse_span_def emptied_def fun_upd_apply)
      qed
    qed
  qed
qed

end
