(* ===== verification/Vg_Sparse_Iter.thy ===== *)
theory Vg_Sparse_Iter
  imports Vg_Sparse_Ops
begin

text \<open>
  The keys of a sparse array in order: its size, its destruction and the iteration over it, whose
  stack stands for the keys that are still to come.
\<close>

section \<open>The keys of a tree\<close>

text \<open>The keys under a byte, without the bytes above, and those from a byte on.\<close>

primrec keys :: "swa_memory \<Rightarrow> nat \<Rightarrow> nat \<Rightarrow> nat \<Rightarrow> nat list" where
  "keys M 0 p ix0 = filter (\<lambda>k. held M 0 p k \<noteq> None) [ix0..<256]"
| "keys M (Suc i) p ix0 =
     concat (map (\<lambda>ix. if kid M p ix = 0 then [] else map ((+) (ix * 256 ^ Suc i)) (keys M i (kid M p ix) 0)) [ix0..<256])"

lemma upt_blocks: "[m * B..<n * B] = concat (map (\<lambda>ix. map ((+) (ix * B)) [0..<B]) [m..<n])" if "m \<le> n" for B :: nat
  using that
proof (induction n rule: dec_induct)
  case (step n)
  have "m * B \<le> n * B" using step.hyps by simp
  then have "[m * B..<n * B + B] = [m * B..<n * B] @ [n * B..<n * B + B]" by (rule upt_add_eq_append)
  moreover have "map ((+) (n * B)) [0..<B] = [n * B..<n * B + B]"
    by (rule nth_equalityI) simp_all
  ultimately show ?case using step by (simp add: add.commute [of B])
qed simp

lemma key_byte_block: "k < 256 ^ Suc i \<Longrightarrow> ix < 256 \<Longrightarrow> key_byte (Suc i) (ix * 256 ^ Suc i + k) = ix"
  by (simp add: byte_index del: power_Suc)

lemma held_block: "held M i p (ix * 256 ^ Suc i + k) = held M i p k"
  by (rule held_low) (simp del: power_Suc)

lemma keys_filter: "swa_ok M i p \<Longrightarrow> keys M i p ix0 = filter (\<lambda>k. held M i p k \<noteq> None) [ix0 * 256 ^ i..<256 ^ Suc i]" if "ix0 \<le> 256"
  using that
proof (induction i arbitrary: p ix0)
  case (Suc i)
  let ?B = "256 ^ Suc i :: nat"
  have block: "filter (\<lambda>k. held M (Suc i) p k \<noteq> None) (map ((+) (ix * ?B)) [0..<?B])
      = (if kid M p ix = 0 then [] else map ((+) (ix * ?B)) (keys M i (kid M p ix) 0))" if "ix < 256" for ix
  proof -
    have h: "held M (Suc i) p (ix * ?B + k) = (if kid M p ix = 0 then None else held M i (kid M p ix) k)" if "k < ?B" for k
      using key_byte_block [OF that \<open>ix < 256\<close>] held_block by (simp add: Let_def del: power_Suc)
    show ?thesis
    proof (cases "kid M p ix = 0")
      case True
      then show ?thesis using h by (simp add: filter_map del: power_Suc held.simps)
    next
      case False
      then have "keys M i (kid M p ix) 0 = filter (\<lambda>k. held M i (kid M p ix) k \<noteq> None) [0..<?B]"
        using Suc.IH [of "kid M p ix" 0] Suc.prems(1) by simp
      moreover have "filter (\<lambda>k. held M (Suc i) p (ix * ?B + k) \<noteq> None) [0..<?B] = filter (\<lambda>k. held M i (kid M p ix) k \<noteq> None) [0..<?B]"
        by (rule filter_cong) (use h False in \<open>simp_all del: power_Suc held.simps\<close>)
      ultimately show ?thesis using False by (simp add: filter_map o_def del: power_Suc held.simps)
    qed
  qed
  have "[ix0 * ?B..<256 ^ Suc (Suc i)] = concat (map (\<lambda>ix. map ((+) (ix * ?B)) [0..<?B]) [ix0..<256])"
    using upt_blocks [of ix0 256 ?B] Suc.prems(2) by simp
  then have "filter (\<lambda>k. held M (Suc i) p k \<noteq> None) [ix0 * ?B..<256 ^ Suc (Suc i)]
      = concat (map (\<lambda>ix. filter (\<lambda>k. held M (Suc i) p k \<noteq> None) (map ((+) (ix * ?B)) [0..<?B])) [ix0..<256])"
    by (simp only: filter_concat map_map o_def)
  also have "\<dots> = keys M (Suc i) p ix0"
    using block by (auto intro!: arg_cong [of _ _ concat] map_cong simp del: power_Suc held.simps)
  finally show ?case by simp
qed simp

lemma keys_step:
  "ix < 256 \<Longrightarrow> keys M (Suc i) p ix =
     (if kid M p ix = 0 then [] else map ((+) (ix * 256 ^ Suc i)) (keys M i (kid M p ix) 0)) @ keys M (Suc i) p (Suc ix)"
  "ix < 256 \<Longrightarrow> keys M 0 p ix = (if held M 0 p ix \<noteq> None then [ix] else []) @ keys M 0 p (Suc ix)"
  "keys M i p 256 = []"
  by (simp_all add: upt_conv_Cons del: power_Suc held.simps) (cases i; simp)

lemma keys_end: "ix \<le> 256 \<Longrightarrow> kid M p iy \<noteq> 0 \<Longrightarrow> ix \<le> iy \<Longrightarrow> iy < 256 \<Longrightarrow> keys M i (kid M p iy) 0 \<noteq> [] \<Longrightarrow> keys M (Suc i) p ix \<noteq> []"
proof (induction "iy - ix" arbitrary: ix)
  case 0
  then show ?case by (simp add: keys_step del: keys.simps)
next
  case (Suc n)
  then have "keys M (Suc i) p (Suc ix) \<noteq> []" by (intro Suc.hyps(1)) simp_all
  then show ?case using Suc.prems by (simp add: keys_step del: keys.simps)
qed

lemma card_bytes_ex:
  assumes "card {j. j < (256::nat) \<and> P j} \<noteq> 0"
  shows "\<exists>j<256. P j"
proof (rule ccontr)
  assume "\<not> (\<exists>j<256. P j)"
  then have "{j. j < (256::nat) \<and> P j} = {}" by auto
  with assms show False by simp
qed

lemma keys_nonempty: "swa_ok M i p \<Longrightarrow> occupied M p \<Longrightarrow> keys M i p 0 \<noteq> []"
proof (induction i arbitrary: p)
  case 0
  then obtain l where l: "M p = Some (Level0 l)" "l0_nInUse l = int (card {ix. ix < 256 \<and> used (l0_inUse l) ix})"
    by (auto simp: leaf_ok_def)
  have "l0_nInUse l > 0" using 0(2) l(1) by (simp add: occupied_def)
  then have "card {ix. ix < 256 \<and> used (l0_inUse l) ix} \<noteq> 0" using l(2) by linarith
  from card_bytes_ex [OF this] obtain ix where ix: "ix < 256" "used (l0_inUse l) ix" by blast
  then have "key_byte 0 ix = ix" by (simp add: byte_index)
  then have "ix \<in> set (keys M 0 p 0)" using l(1) ix by simp
  then show ?case by (metis empty_iff list.set(1))
next
  case (Suc i)
  from inner_node [OF Suc.prems(1)] obtain l where l: "M p = Some (LevelN l)" "inner_ok (Suc i) l"
    "\<forall>ix<256. ln_child l ! ix = kid M p ix" by blast
  have "ln_nInUse l > 0" using Suc.prems(2) l(1) by (simp add: occupied_def)
  then have "card {ix. ix < 256 \<and> ln_child l ! ix \<noteq> 0} \<noteq> 0" using l(2) unfolding inner_ok_def by linarith
  from card_bytes_ex [OF this] obtain ix where "ix < 256" "kid M p ix \<noteq> 0" using l(3) by auto
  then show ?case using Suc.IH [of "kid M p ix"] Suc.prems(1) keys_end [of 0 M p ix i] by (simp del: keys.simps)
qed

section \<open>Size\<close>

lemma sum_res_u64: "sum_res (map (\<lambda>c. Inr (u64 (f c))) cs) = Inr (u64 (sum_list (map f cs)))"
  by (induction cs) (simp_all add: u64_def mod_add_eq)

lemma swa_size_ok: "swa_ok (swa_mem s) i p \<Longrightarrow> swa_sizeSWA_wrk (Suc i) p s = Inr (u64 (length (keys (swa_mem s) i p 0)))"
proof (induction i arbitrary: p)
  case 0
  then obtain l where l: "p \<noteq> 0" "swa_mem s p = Some (Level0 l)" "l0_nInUse l = int (card {ix. ix < 256 \<and> used (l0_inUse l) ix})"
    by (auto simp: leaf_ok_def)
  have "length (keys (swa_mem s) 0 p 0) = card {ix. ix < 256 \<and> used (l0_inUse l) ix}"
  proof -
    have "distinct (keys (swa_mem s) 0 p 0)" by (simp del: held.simps)
    then have "length (keys (swa_mem s) 0 p 0) = card (set (keys (swa_mem s) 0 p 0))" by (rule distinct_card [symmetric])
    also have "set (keys (swa_mem s) 0 p 0) = {ix. ix < 256 \<and> used (l0_inUse l) ix}"
      using l(2) by (auto simp: byte_index split: if_splits)
    finally show ?thesis .
  qed
  with l show ?case by (simp add: get_swa_node_def u64_def nat_mod_as_int del: keys.simps)
next
  case (Suc i)
  let ?M = "swa_mem s"
  from inner_node [OF Suc.prems] obtain l where l: "?M p = Some (LevelN l)" "p \<noteq> 0"
    "\<forall>ix<256. ln_child l ! ix = kid ?M p ix" "length (ln_child l) = 256" by blast
  let ?f = "\<lambda>c. if c = 0 then 0 else length (keys ?M i c 0)"
  have ch: "ln_child l = map (kid ?M p) [0..<256]" using l(3,4) by (intro nth_equalityI) simp_all
  have "(if c \<noteq> 0 then swa_sizeSWA_wrk (Suc i) c s else Inr 0) = Inr (u64 (?f c))" if "c \<in> set (ln_child l)" for c
    using Suc.IH [of c] Suc.prems that ch by (auto simp: u64_def)
  then have e: "map (\<lambda>c. if c \<noteq> 0 then swa_sizeSWA_wrk (Suc i) c s else Inr 0) (ln_child l) = map (\<lambda>c. Inr (u64 (?f c))) (ln_child l)"
    by (intro map_cong refl)
  have "get_swa_node p s = Inr (LevelN l)" using l(1,2) by (simp add: get_swa_node_def)
  then have "swa_sizeSWA_wrk (Suc (Suc i)) p s
      = sum_res (map (\<lambda>c. if c \<noteq> 0 then swa_sizeSWA_wrk (Suc i) c s else Inr 0) (ln_child l))"
    unfolding swa_sizeSWA_wrk.simps(2) [of "Suc i"] by (simp del: swa_sizeSWA_wrk.simps)
  also have "\<dots> = Inr (u64 (sum_list (map ?f (ln_child l))))" unfolding e by (rule sum_res_u64)
  finally have "swa_sizeSWA_wrk (Suc (Suc i)) p s = Inr (u64 (sum_list (map ?f (ln_child l))))" .
  moreover have "sum_list (map ?f (ln_child l)) = length (keys ?M (Suc i) p 0)"
    by (simp add: ch length_concat o_def if_distrib [of length] cong: if_cong)
  ultimately show ?case by simp
qed

lemma sizeSWA_ok:
  assumes "sparse_ok s"
  shows "sizeSWA s = Inr (u64 (card {k. k < 2 ^ 64 \<and> sparse_map s k \<noteq> None}))"
proof (cases "swa_root s = 0")
  case True
  then show ?thesis by (simp add: sizeSWA_def sparse_map_def u64_def)
next
  case False
  then have r: "swa_ok (swa_mem s) 7 (swa_root s)" using assms by (simp add: sparse_ok_def)
  let ?ks = "filter (\<lambda>k. held (swa_mem s) 7 (swa_root s) k \<noteq> None) [0..<256 ^ Suc 7]"
  have "keys (swa_mem s) 7 (swa_root s) 0 = ?ks" using keys_filter [of 0 "swa_mem s" 7] r by simp
  moreover have "length ?ks = card (set ?ks)" by (rule distinct_card [symmetric]) simp
  moreover have "set ?ks = {k. k < 2 ^ 64 \<and> sparse_map s k \<noteq> None}"
    using False by (auto simp: sparse_map_def)
  moreover have "sizeSWA s = swa_sizeSWA_wrk (Suc 7) (swa_root s) s" using False by (simp add: sizeSWA_def)
  ultimately show ?thesis using swa_size_ok [OF r] by simp
qed

section \<open>The stack of the iterator\<close>

text \<open>The keys of a tree from a byte on with their words, under the bytes above.\<close>

definition pairs :: "swa_memory \<Rightarrow> nat \<Rightarrow> nat \<Rightarrow> nat \<Rightarrow> nat \<Rightarrow> (nat \<times> nat) list" where
  "pairs M i nd pk ix = map (\<lambda>k. (pk * 256 ^ Suc i + k, the (held M i nd k))) (keys M i nd ix)"

definition frame_ok :: "swa_memory \<Rightarrow> swa_elem \<Rightarrow> nat \<Rightarrow> bool" where
  "frame_ok M e i \<longleftrightarrow>
     swa_ok M i (curr_nd e) \<and> occupied M (curr_nd e) \<and> partial_key e < 256 ^ (7 - i) \<and> i \<le> 7 \<and> curr_ix e < 256
     \<and> (resume_point e = 1 \<or> resume_point e = (if i = 0 then 2 else 3))"

definition frame_pairs :: "swa_memory \<Rightarrow> swa_elem \<Rightarrow> nat \<Rightarrow> (nat \<times> nat) list" where
  "frame_pairs M e i = pairs M i (curr_nd e) (partial_key e) (if resume_point e = 1 then 0 else curr_ix e + 1)"

definition stack_holds :: "swa \<Rightarrow> (swa_elem \<times> nat) list \<Rightarrow> bool" where
  "stack_holds s es \<longleftrightarrow>
     isUsed s = length es \<and> length (iterStack s) = 8
     \<and> (\<forall>j<length es. iterStack s ! j = fst (es ! j) \<and> frame_ok (swa_mem s) (fst (es ! j)) (snd (es ! j)) \<and> j + snd (es ! j) \<le> 7)"

definition to_return :: "swa_memory \<Rightarrow> (swa_elem \<times> nat) list \<Rightarrow> (nat \<times> nat) list" where
  "to_return M es = concat (map (\<lambda>(e, i). frame_pairs M e i) (rev es))"

definition same_tree :: "swa \<Rightarrow> swa \<Rightarrow> bool" where
  "same_tree s s' \<longleftrightarrow> swa_mem s' = swa_mem s \<and> swa_root s' = swa_root s \<and> swa_allocs s' = swa_allocs s"

lemma to_return_simps [simp]: "to_return M [] = []" "to_return M (es @ [(e, i)]) = frame_pairs M e i @ to_return M es"
  by (simp_all add: to_return_def)

lemma stack_holds_length: "stack_holds s es \<Longrightarrow> length es \<le> 8"
  by (cases es rule: rev_cases) (auto simp: stack_holds_def nth_append all_conj_distrib)

lemma swa_push_ok:
  assumes "stack_holds s es" and "frame_ok (swa_mem s) \<lparr>partial_key = pk, curr_ix = ix, curr_nd = nd, resume_point = rp\<rparr> i"
    and "length es + i \<le> 7"
  shows "\<exists>s'. swa_PUSH pk ix nd rp s = Inr s'
    \<and> stack_holds s' (es @ [(\<lparr>partial_key = pk, curr_ix = ix, curr_nd = nd, resume_point = rp\<rparr>, i)]) \<and> same_tree s s'"
  using assms by (auto simp: swa_PUSH_def stack_holds_def same_tree_def nth_append nth_list_update less_Suc_eq Let_def)

lemma swa_pop_ok:
  assumes "stack_holds s (es @ [(e, i)])"
  shows "\<exists>s'. swa_POP s = Inr (e, s') \<and> stack_holds s' es \<and> same_tree s s' \<and> frame_ok (swa_mem s) e i \<and> length es + i \<le> 7"
proof -
  have "length es \<le> 7" using stack_holds_length [OF assms] by simp
  then show ?thesis using assms
    by (auto simp: swa_POP_def stack_holds_def same_tree_def nth_append all_conj_distrib less_Suc_eq Let_def)
qed

text \<open>One call returns the first of the pairs and leaves the others.\<close>

definition yields :: "swa \<Rightarrow> (nat \<times> nat) list \<Rightarrow> ((nat \<times> nat) option \<times> swa) res \<Rightarrow> bool" where
  "yields s ps res \<longleftrightarrow>
     (\<exists>s' es'. res = Inr (case ps of [] \<Rightarrow> None | p # _ \<Rightarrow> Some p, s') \<and> stack_holds s' es' \<and> to_return (swa_mem s) es' = tl ps
       \<and> same_tree s s')"

lemma yields_same: "same_tree s s1 \<Longrightarrow> yields s1 ps res \<Longrightarrow> yields s ps res"
  by (auto simp: yields_def same_tree_def)

section \<open>The loops\<close>

lemma leaf_loop_ok:
  assumes ok: "swa_ok (swa_mem s) 0 nd" "occupied (swa_mem s) nd" and st: "stack_holds s es" "length es \<le> 7" and pk: "pk < 256 ^ 7"
  shows "ix \<le> 256 \<Longrightarrow> 258 - ix \<le> fuel \<Longrightarrow>
    (if keys (swa_mem s) 0 nd ix = [] then next_at fuel (Leaf_loop pk ix nd) s = next_at (fuel - (257 - ix)) Dispatch s
     else yields s (pairs (swa_mem s) 0 nd pk ix @ to_return (swa_mem s) es) (next_at fuel (Leaf_loop pk ix nd) s))"
proof (induction "256 - ix" arbitrary: ix fuel)
  case 0
  then have ix: "ix = 256" by simp
  have "next_at fuel (Leaf_loop pk 256 nd) s = next_at (fuel - 1) Dispatch s"
    using 0(3) ix by (subst next_at.simps) simp
  then show ?case unfolding ix by (simp add: keys_step(3) del: keys.simps)
next
  case (Suc n)
  let ?M = "swa_mem s"
  have ix: "ix < 256" "fuel \<noteq> 0" using Suc.hyps(2) Suc.prems by linarith+
  obtain l where l: "nd \<noteq> 0" "?M nd = Some (Level0 l)" using ok(1) by auto
  have kb: "key_byte 0 ix = ix" using ix(1) by (simp add: byte_index)
  have g: "get_level0 nd s = Inr l" using l by (simp add: get_level0_def get_swa_node_def)
  show ?case
  proof (cases "used (l0_inUse l) ix")
    case False
    then have h: "held ?M 0 nd ix = None" using l(2) kb by simp
    have "next_at fuel (Leaf_loop pk ix nd) s = next_at (fuel - 1) (Leaf_loop pk (ix + 1) nd) s"
      using ix False g by (subst next_at.simps) (simp add: swa_bitarray_read_used)
    moreover have "keys ?M 0 nd ix = keys ?M 0 nd (Suc ix)" using keys_step(2) [OF ix(1), of ?M nd] h by simp
    ultimately show ?thesis using Suc.hyps(1) [of "Suc ix" "fuel - 1"] Suc.hyps(2) Suc.prems
      by (auto simp: pairs_def Suc_diff_le simp del: keys.simps held.simps)
  next
    case True
    then have h: "held ?M 0 nd ix = Some (l0_words l ! ix)" using l(2) kb by simp
    let ?e = "\<lparr>partial_key = pk, curr_ix = ix, curr_nd = nd, resume_point = 2\<rparr>"
    have "frame_ok ?M ?e 0" using ok pk ix(1) by (simp add: frame_ok_def)
    from swa_push_ok [OF st(1) this] st(2) obtain s' where
      s': "swa_PUSH pk ix nd 2 s = Inr s'" "stack_holds s' (es @ [(?e, 0)])" "same_tree s s'" by auto
    have "pk * 256 + ix < 2 ^ 64" using pk ix(1) by simp
    then have "u64 (push_bit 8 pk + ix) = pk * 256 + ix" by (simp add: push_bit_eq_mult)
    then have n: "next_at fuel (Leaf_loop pk ix nd) s = Inr (Some (pk * 256 + ix, l0_words l ! ix), s')"
      using ix True g s'(1) by (subst next_at.simps) (simp add: swa_bitarray_read_used)
    have k: "keys ?M 0 nd ix = ix # keys ?M 0 nd (Suc ix)" using keys_step(2) [OF ix(1), of ?M nd] h by simp
    have "yields s (pairs ?M 0 nd pk ix @ to_return ?M es) (next_at fuel (Leaf_loop pk ix nd) s)"
      unfolding yields_def n using s'(2,3) h
      by (intro exI [of _ s'] exI [of _ "es @ [(?e, 0)]"]) (simp add: pairs_def k frame_pairs_def del: keys.simps held.simps)
    then show ?thesis using k by (simp del: keys.simps)
  qed
qed

lemma keys_less: "swa_ok M i p \<Longrightarrow> k \<in> set (keys M i p 0) \<Longrightarrow> k < 256 ^ Suc i"
  using keys_filter [of 0 M i p] by (simp del: keys.simps power_Suc)

lemma pairs_step:
  assumes "swa_ok M (Suc i) nd" and "ix < 256" and "kid M nd ix \<noteq> 0"
  shows "pairs M (Suc i) nd pk ix = pairs M i (kid M nd ix) (pk * 256 + ix) 0 @ pairs M (Suc i) nd pk (Suc ix)"
proof -
  let ?B = "256 ^ Suc i :: nat"
  have okc: "swa_ok M i (kid M nd ix)" using assms(1,3) by simp
  have "(pk * 256 ^ Suc (Suc i) + (ix * ?B + k), the (held M (Suc i) nd (ix * ?B + k)))
      = ((pk * 256 + ix) * ?B + k, the (held M i (kid M nd ix) k))" if "k \<in> set (keys M i (kid M nd ix) 0)" for k
  proof -
    have "key_byte (Suc i) (ix * ?B + k) = ix" by (rule key_byte_block [OF keys_less [OF okc that] assms(2)])
    then have "held M (Suc i) nd (ix * ?B + k) = held M i (kid M nd ix) k"
      using assms(3) held_block [of M i "kid M nd ix" ix k] by (simp add: Let_def del: power_Suc)
    moreover have "pk * 256 ^ Suc (Suc i) + (ix * ?B + k) = (pk * 256 + ix) * ?B + k" by (simp add: algebra_simps)
    ultimately show ?thesis by simp
  qed
  then show ?thesis using assms(3) unfolding pairs_def keys_step(1) [OF assms(2)] map_append
    by (auto simp del: keys.simps power_Suc held.simps)
qed

definition start_ok :: "nat \<Rightarrow> bool" where
  "start_ok i \<longleftrightarrow>
     (\<forall>s es pk nd fuel. swa_ok (swa_mem s) i nd \<longrightarrow> occupied (swa_mem s) nd \<longrightarrow> stack_holds s es \<longrightarrow> length es + i \<le> 7
       \<longrightarrow> pk < 256 ^ (7 - i) \<longrightarrow> 600 * (i + 1) \<le> fuel
       \<longrightarrow> yields s (pairs (swa_mem s) i nd pk 0 @ to_return (swa_mem s) es) (next_at fuel (Start_new_node pk nd) s))"

lemma nonleaf_loop_ok:
  assumes ok: "swa_ok (swa_mem s) (Suc i) nd" "occupied (swa_mem s) nd" and st: "stack_holds s es" "length es + Suc i \<le> 7"
    and pk: "pk < 256 ^ (7 - Suc i)" and start: "start_ok i"
  shows "ix \<le> 256 \<Longrightarrow> 600 * (i + 1) + (258 - ix) \<le> fuel \<Longrightarrow>
    (if keys (swa_mem s) (Suc i) nd ix = [] then next_at fuel (Nonleaf_loop pk ix nd) s = next_at (fuel - (257 - ix)) Dispatch s
     else yields s (pairs (swa_mem s) (Suc i) nd pk ix @ to_return (swa_mem s) es) (next_at fuel (Nonleaf_loop pk ix nd) s))"
proof (induction "256 - ix" arbitrary: ix fuel)
  case 0
  then have ix: "ix = 256" by simp
  have "next_at fuel (Nonleaf_loop pk 256 nd) s = next_at (fuel - 1) Dispatch s"
    using 0(3) ix by (subst next_at.simps) simp
  then show ?case unfolding ix by (simp add: keys_step(3) del: keys.simps)
next
  case (Suc n)
  let ?M = "swa_mem s"
  have ix: "ix < 256" "fuel \<noteq> 0" using Suc.hyps(2) Suc.prems by linarith+
  from inner_node [OF ok(1)] obtain l where l: "?M nd = Some (LevelN l)" "nd \<noteq> 0" "\<forall>ix<256. ln_child l ! ix = kid ?M nd ix" by blast
  have g: "get_levelN nd s = Inr l" using l by (simp add: get_levelN_def get_swa_node_def)
  have lk: "ln_child l ! ix = kid ?M nd ix" using l(3) ix(1) by blast
  show ?case
  proof (cases "kid ?M nd ix = 0")
    case True
    have "next_at fuel (Nonleaf_loop pk ix nd) s = next_at (fuel - 1) (Nonleaf_loop pk (ix + 1) nd) s"
      using ix True g lk by (subst next_at.simps) simp
    moreover have "keys ?M (Suc i) nd ix = keys ?M (Suc i) nd (Suc ix)" using keys_step(1) [OF ix(1), of ?M i nd] True by simp
    ultimately show ?thesis using Suc.hyps(1) [of "Suc ix" "fuel - 1"] Suc.hyps(2) Suc.prems
      by (auto simp: pairs_def Suc_diff_le simp del: keys.simps held.simps)
  next
    case False
    let ?e = "\<lparr>partial_key = pk, curr_ix = ix, curr_nd = nd, resume_point = 3\<rparr>"
    have i7: "Suc i \<le> 7" using st(2) by simp
    have "frame_ok ?M ?e (Suc i)" using ok pk ix(1) i7 by (simp add: frame_ok_def del: swa_ok.simps)
    from swa_push_ok [OF st(1) this st(2)] obtain s' where
      s': "swa_PUSH pk ix nd 3 s = Inr s'" "stack_holds s' (es @ [(?e, Suc i)])" "same_tree s s'" by auto
    have M': "swa_mem s' = ?M" using s'(3) by (simp add: same_tree_def)
    have "7 - i = Suc (7 - Suc i)" using i7 by simp
    then have p7: "256 ^ (7 - i) = 256 * (256 :: nat) ^ (7 - Suc i)" by simp
    have pk': "pk * 256 + ix < 256 ^ (7 - i)" using pk ix(1) unfolding p7 by linarith
    also have "(256 :: nat) ^ (7 - i) \<le> 256 ^ 7" by (rule power_increasing) simp_all
    also have "\<dots> < 2 ^ 64" by simp
    finally have "u64 (push_bit 8 pk + ix) = pk * 256 + ix" by (simp add: push_bit_eq_mult)
    then have n: "next_at fuel (Nonleaf_loop pk ix nd) s = next_at (fuel - 1) (Start_new_node (pk * 256 + ix) (kid ?M nd ix)) s'"
      using ix False g lk s'(1) by (subst next_at.simps) simp
    have okc: "swa_ok ?M i (kid ?M nd ix)" "occupied ?M (kid ?M nd ix)" using ok(1) False by simp_all
    have "yields s' (pairs ?M i (kid ?M nd ix) (pk * 256 + ix) 0 @ to_return ?M (es @ [(?e, Suc i)]))
        (next_at (fuel - 1) (Start_new_node (pk * 256 + ix) (kid ?M nd ix)) s')"
      using start [unfolded start_ok_def, rule_format, of s' "kid ?M nd ix" "es @ [(?e, Suc i)]" "pk * 256 + ix" "fuel - 1"]
        okc s'(2) pk' st(2) Suc.prems by (simp add: M')
    moreover have e: "pairs ?M i (kid ?M nd ix) (pk * 256 + ix) 0 @ to_return ?M (es @ [(?e, Suc i)])
        = pairs ?M (Suc i) nd pk ix @ to_return ?M es"
      using pairs_step [OF ok(1) ix(1) False, of pk] by (simp add: frame_pairs_def)
    ultimately have "yields s (pairs ?M (Suc i) nd pk ix @ to_return ?M es) (next_at fuel (Nonleaf_loop pk ix nd) s)"
      unfolding n e by (intro yields_same [OF s'(3)])
    moreover have "keys ?M (Suc i) nd ix \<noteq> []"
      using keys_step(1) [OF ix(1), of ?M i nd] False keys_nonempty [OF okc] by simp
    ultimately show ?thesis by (simp del: keys.simps)
  qed
qed

lemma start_ok_all: "start_ok i"
proof (induction i)
  case 0
  show ?case unfolding start_ok_def
  proof (intro allI impI)
    fix s es and pk nd fuel :: nat
    assume a: "swa_ok (swa_mem s) 0 nd" "occupied (swa_mem s) nd" "stack_holds s es" "length es + 0 \<le> 7" "pk < 256 ^ (7 - 0)"
      "600 * (0 + 1) \<le> fuel"
    then obtain l where "nd \<noteq> 0" "swa_mem s nd = Some (Level0 l)" by auto
    then have "next_at fuel (Start_new_node pk nd) s = next_at (fuel - 1) (Leaf_loop pk 0 nd) s"
      using a(6) by (subst next_at.simps) (simp add: get_swa_node_def)
    with leaf_loop_ok [OF a(1-3), of pk 0 "fuel - 1"] keys_nonempty [OF a(1,2)] a(4-6)
    show "yields s (pairs (swa_mem s) 0 nd pk 0 @ to_return (swa_mem s) es) (next_at fuel (Start_new_node pk nd) s)"
      by (simp del: keys.simps)
  qed
next
  case (Suc i)
  show ?case unfolding start_ok_def
  proof (intro allI impI)
    fix s es and pk nd fuel :: nat
    assume a: "swa_ok (swa_mem s) (Suc i) nd" "occupied (swa_mem s) nd" "stack_holds s es" "length es + Suc i \<le> 7"
      "pk < 256 ^ (7 - Suc i)" "600 * (Suc i + 1) \<le> fuel"
    then obtain l where "nd \<noteq> 0" "swa_mem s nd = Some (LevelN l)" by auto
    then have "next_at fuel (Start_new_node pk nd) s = next_at (fuel - 1) (Nonleaf_loop pk 0 nd) s"
      using a(6) by (subst next_at.simps) (simp add: get_swa_node_def)
    with nonleaf_loop_ok [OF a(1-5) Suc.IH, of 0 "fuel - 1"] keys_nonempty [OF a(1,2)] a(6)
    show "yields s (pairs (swa_mem s) (Suc i) nd pk 0 @ to_return (swa_mem s) es) (next_at fuel (Start_new_node pk nd) s)"
      by (simp del: keys.simps)
  qed
qed

lemma yields_loop:
  "(if keys M i nd ix = [] then X = Y else yields s (pairs M i nd pk ix @ r) X) \<Longrightarrow> yields s r Y \<Longrightarrow> yields s (pairs M i nd pk ix @ r) X"
  by (simp add: pairs_def split: if_splits del: keys.simps)

lemma dispatch_ok:
  "stack_holds s es \<Longrightarrow> 5000 + 300 * length es \<le> fuel \<Longrightarrow> yields s (to_return (swa_mem s) es) (next_at fuel Dispatch s)"
proof (induction es arbitrary: s fuel rule: rev_induct)
  case Nil
  then have "next_at fuel Dispatch s = Inr (None, s)" by (subst next_at.simps) (simp add: stack_holds_def)
  with Nil show ?case unfolding yields_def by (intro exI [of _ s] exI [of _ "[]"]) (simp add: same_tree_def)
next
  case (snoc p es)
  obtain e i where p: "p = (e, i)" by (cases p) auto
  from swa_pop_ok [OF snoc.prems(1) [unfolded p]] obtain s' where
    s': "swa_POP s = Inr (e, s')" "stack_holds s' es" "same_tree s s'" "frame_ok (swa_mem s) e i" "length es + i \<le> 7" by blast
  have M': "swa_mem s' = swa_mem s" using s'(3) by (simp add: same_tree_def)
  have f: "swa_ok (swa_mem s') i (curr_nd e)" "occupied (swa_mem s') (curr_nd e)" "partial_key e < 256 ^ (7 - i)" "curr_ix e < 256"
      "resume_point e = 1 \<or> resume_point e = (if i = 0 then 2 else 3)"
    using s'(4) by (simp_all add: frame_ok_def M')
  have used: "isUsed s \<noteq> 0" "fuel \<noteq> 0" using snoc.prems by (simp_all add: stack_holds_def)
  have "yields s' (frame_pairs (swa_mem s') e i @ to_return (swa_mem s') es) (next_at fuel Dispatch s)"
  proof (cases "resume_point e = 1")
    case True
    then have "next_at fuel Dispatch s = next_at (fuel - 1) (Start_new_node (partial_key e) (curr_nd e)) s'"
      using used s'(1) by (subst next_at.simps) simp
    moreover have "600 * (i + 1) \<le> fuel - 1" using s'(5) snoc.prems(2) by simp
    ultimately show ?thesis using start_ok_all [of i, unfolded start_ok_def] f(1-3) s'(2,5) True by (simp add: frame_pairs_def)
  next
    case False
    let ?ix = "curr_ix e + 1"
    have ix: "?ix \<le> 256" using f(4) by simp
    have rest: "yields s' (to_return (swa_mem s') es) (next_at (fuel - 1 - (257 - ?ix)) Dispatch s')"
      by (rule snoc.IH [OF s'(2)]) (use snoc.prems(2) in simp)
    show ?thesis
    proof (cases i)
      case 0
      then have n: "next_at fuel Dispatch s = next_at (fuel - 1) (Leaf_loop (partial_key e) ?ix (curr_nd e)) s'"
        using used s'(1) f(5) False by (subst next_at.simps) simp
      have "length es \<le> 7" "partial_key e < 256 ^ 7" "258 - ?ix \<le> fuel - 1" using s'(5) f(3) 0 snoc.prems(2) by simp_all
      from yields_loop [OF leaf_loop_ok [OF f(1,2) [unfolded 0] s'(2) this(1,2) ix this(3)] rest] show ?thesis
        using False by (simp add: frame_pairs_def n 0)
    next
      case (Suc j)
      then have n: "next_at fuel Dispatch s = next_at (fuel - 1) (Nonleaf_loop (partial_key e) ?ix (curr_nd e)) s'"
        using used s'(1) f(5) False by (subst next_at.simps) simp
      have "600 * (j + 1) + (258 - ?ix) \<le> fuel - 1" using snoc.prems(2) s'(5) Suc by simp
      from yields_loop [OF nonleaf_loop_ok [OF f(1,2) [unfolded Suc] s'(2,5) [unfolded Suc] f(3) [unfolded Suc] start_ok_all ix this] rest]
      show ?thesis using False by (simp add: frame_pairs_def n Suc)
    qed
  qed
  from yields_same [OF s'(3) this] show ?case by (simp add: p M')
qed

section \<open>Iteration\<close>

fun swa_nexts :: "nat \<Rightarrow> swa \<Rightarrow> ((nat \<times> nat) option list \<times> swa) res" where
  "swa_nexts 0 s = Inr ([], s)"
| "swa_nexts (Suc n) s = bind_res (nextIterSWA s) (\<lambda>(r, s1). bind_res (swa_nexts n s1) (\<lambda>(rs, s2). Inr (r # rs, s2)))"

lemma nextIterSWA_ok: "stack_holds s es \<Longrightarrow> yields s (to_return (swa_mem s) es) (nextIterSWA s)"
  unfolding nextIterSWA_def by (rule dispatch_ok) (use stack_holds_length [of s es] in \<open>simp_all add: list_fuel_def\<close>)

lemma swa_nexts_ok:
  "stack_holds s es \<Longrightarrow> to_return (swa_mem s) es = ps \<Longrightarrow> \<exists>s'. swa_nexts (length ps + 1) s = Inr (map Some ps @ [None], s') \<and> same_tree s s'"
proof (induction ps arbitrary: s es)
  case Nil
  with nextIterSWA_ok [OF Nil(1)] show ?case by (auto simp: yields_def)
next
  case (Cons p ps)
  from nextIterSWA_ok [OF Cons.prems(1)] Cons.prems(2) obtain s1 es1 where
    s1: "nextIterSWA s = Inr (Some p, s1)" "stack_holds s1 es1" "to_return (swa_mem s1) es1 = ps" "same_tree s s1"
    by (auto simp: yields_def same_tree_def)
  from Cons.IH [OF s1(2,3)] s1(1,4) show ?case by (auto simp: same_tree_def)
qed

text \<open>The pairs of an array in the order of their keys.\<close>

definition sparse_pairs :: "swa \<Rightarrow> (nat \<times> nat) list" where
  "sparse_pairs s = (if swa_root s = 0 then [] else pairs (swa_mem s) 7 (swa_root s) 0 0)"

lemma sparse_pairs_ok:
  assumes "sparse_ok s"
  shows "sorted_wrt (<) (map fst (sparse_pairs s))"
    and "(k, v) \<in> set (sparse_pairs s) \<longleftrightarrow> k < 2 ^ 64 \<and> sparse_map s k = Some v"
proof -
  have k: "keys (swa_mem s) 7 (swa_root s) 0 = filter (\<lambda>k. held (swa_mem s) 7 (swa_root s) k \<noteq> None) [0..<256 ^ Suc 7]"
    if "swa_root s \<noteq> 0" using keys_filter [of 0 "swa_mem s" 7 "swa_root s"] assms that by (simp add: sparse_ok_def)
  show "sorted_wrt (<) (map fst (sparse_pairs s))"
    by (simp add: sparse_pairs_def pairs_def k o_def sorted_wrt_filter)
  show "(k, v) \<in> set (sparse_pairs s) \<longleftrightarrow> k < 2 ^ 64 \<and> sparse_map s k = Some v"
    by (auto simp: sparse_pairs_def pairs_def k sparse_map_def)
qed

lemma initIterSWA_ok:
  assumes "sparse_ok s" and "length (iterStack s) = 8"
  shows "\<exists>s' es. initIterSWA s = Inr s' \<and> stack_holds s' es \<and> to_return (swa_mem s') es = sparse_pairs s \<and> same_tree s s'"
proof (cases "swa_root s = 0")
  case True
  then show ?thesis using assms(2)
    by (intro exI [of _ "s\<lparr>isUsed := 0\<rparr>"] exI [of _ "[]"])
      (simp add: initIterSWA_def stack_holds_def sparse_pairs_def same_tree_def Let_def)
next
  case False
  let ?s = "s\<lparr>isUsed := 0\<rparr>" and ?e = "\<lparr>partial_key = 0, curr_ix = 0, curr_nd = swa_root s, resume_point = 1\<rparr>"
  have "stack_holds ?s []" using assms(2) by (simp add: stack_holds_def)
  moreover have "frame_ok (swa_mem ?s) ?e 7" using assms(1) False by (simp add: frame_ok_def sparse_ok_def)
  ultimately obtain s' where s': "swa_PUSH 0 0 (swa_root s) 1 ?s = Inr s'" "stack_holds s' ([] @ [(?e, 7)])" "same_tree ?s s'"
    using swa_push_ok [of ?s "[]" 0 0 "swa_root s" 1 7] by auto
  have "to_return (swa_mem s') ([] @ [(?e, 7)]) = sparse_pairs s"
    using s'(3) False unfolding to_return_simps by (simp add: frame_pairs_def sparse_pairs_def same_tree_def)
  with s' False show ?thesis
    by (intro exI [of _ s'] exI [of _ "[] @ [(?e, 7)]"]) (simp add: initIterSWA_def Let_def same_tree_def)
qed

end
