(* ===== verification/Vg_Sparse_Props.thy ===== *)
theory Vg_Sparse_Props
  imports Vg_Sparse_Iter
begin

text \<open>
  The sparse arrays as their clients see them: sequences of operations compute what a map from keys
  to words computes, destruction gives every node back once, and iteration goes through the keys
  in order.
\<close>

section \<open>Destruction\<close>

lemma concat_res_Inr: "concat_res (map (\<lambda>c. Inr (f c)) cs) = Inr (concat (map f cs))"
  by (induction cs) simp_all

lemma swa_delete_ok:
  "swa_ok (swa_mem s) i p \<Longrightarrow> \<exists>ps. swa_deleteSWA_wrk (Suc i) p s = Inr ps \<and> distinct ps \<and> set ps = span_of (swa_mem s) i p"
proof (induction i arbitrary: p)
  case 0
  then obtain l where "p \<noteq> 0" "swa_mem s p = Some (Level0 l)" by auto
  then show ?case by (simp add: get_swa_node_def)
next
  case (Suc i)
  let ?M = "swa_mem s"
  from inner_node [OF Suc.prems] obtain l where l: "?M p = Some (LevelN l)" "p \<noteq> 0"
    "\<forall>ix<256. ln_child l ! ix = kid ?M p ix" "length (ln_child l) = 256" by blast
  have ch: "ln_child l = map (kid ?M p) [0..<256]" using l(3,4) by (intro nth_equalityI) simp_all
  have "\<exists>ps. kid ?M p ix \<noteq> 0 \<longrightarrow> swa_deleteSWA_wrk (Suc i) (kid ?M p ix) s = Inr ps \<and> distinct ps
      \<and> set ps = span_of ?M i (kid ?M p ix)" for ix
  proof (cases "kid ?M p ix = 0")
    case False
    then have "swa_ok ?M i (kid ?M p ix)" using Suc.prems by simp
    from Suc.IH [OF this] show ?thesis by blast
  qed blast
  then obtain f where f: "\<And>ix. kid ?M p ix \<noteq> 0 \<Longrightarrow> swa_deleteSWA_wrk (Suc i) (kid ?M p ix) s = Inr (f ix) \<and> distinct (f ix)
      \<and> set (f ix) = span_of ?M i (kid ?M p ix)" by metis
  let ?f = "\<lambda>ix. if kid ?M p ix = 0 then [] else f ix" and ?g = "\<lambda>c. if c \<noteq> 0 then swa_deleteSWA_wrk (Suc i) c s else Inr []"
  have "map ?g (ln_child l) = map (\<lambda>ix. Inr (?f ix)) [0..<256]" unfolding ch map_map
    by (rule map_cong [OF refl]) (use f in \<open>auto simp del: swa_deleteSWA_wrk.simps\<close>)
  then have c: "concat_res (map ?g (ln_child l)) = Inr (concat (map ?f [0..<256]))" by (simp only: concat_res_Inr)
  have "get_swa_node p s = Inr (LevelN l)" using l(1,2) by (simp add: get_swa_node_def)
  then have r: "swa_deleteSWA_wrk (Suc (Suc i)) p s = Inr (concat (map ?f [0..<256]) @ [p])"
    unfolding swa_deleteSWA_wrk.simps(2) [of "Suc i"] using l(2) c by (simp del: swa_deleteSWA_wrk.simps)
  have kid0: "kid ?M p ix = 0" if "\<not> ix < 256" for ix using that l(1,4) by (simp add: kid_def)
  have s1: "set (concat (map ?f [0..<256])) = (\<Union>ix\<in>{ix. kid ?M p ix \<noteq> 0}. span_of ?M i (kid ?M p ix))"
  proof -
    have "x \<in> set (concat (map ?f [0..<256])) \<longleftrightarrow> (\<exists>ix. kid ?M p ix \<noteq> 0 \<and> x \<in> span_of ?M i (kid ?M p ix))" for x
    proof
      assume "x \<in> set (concat (map ?f [0..<256]))"
      then obtain ix where "x \<in> set (?f ix)" unfolding set_concat set_map by blast
      then show "\<exists>ix. kid ?M p ix \<noteq> 0 \<and> x \<in> span_of ?M i (kid ?M p ix)" using f [of ix] by (auto split: if_splits)
    next
      assume "\<exists>ix. kid ?M p ix \<noteq> 0 \<and> x \<in> span_of ?M i (kid ?M p ix)"
      then obtain ix where ix: "kid ?M p ix \<noteq> 0" "x \<in> span_of ?M i (kid ?M p ix)" by blast
      then have "ix \<in> set [0..<256]" "x \<in> set (?f ix)" using kid0 [of ix] f [of ix] by auto
      then show "x \<in> set (concat (map ?f [0..<256]))" unfolding set_concat set_map by blast
    qed
    then show ?thesis by auto
  qed
  have "distinct (concat (map ?f xs))" if "distinct xs" for xs
    using that
  proof (induction xs)
    case (Cons ix xs)
    have "set (?f ix) \<inter> set (?f iy) = {}" if "iy \<in> set xs" for iy
    proof (cases "kid ?M p ix = 0 \<or> kid ?M p iy = 0")
      case False
      moreover have "ix \<noteq> iy" using Cons.prems that by auto
      ultimately show ?thesis using Suc.prems f [of ix] f [of iy] by simp
    qed auto
    then have "set (?f ix) \<inter> set (concat (map ?f xs)) = {}" unfolding set_concat set_map by blast
    moreover have "distinct (?f ix)" using f [of ix] by simp
    ultimately show ?case using Cons by simp
  qed simp
  then have d: "distinct (concat (map ?f [0..<256]))" by simp
  define C where "C = concat (map ?f [0..<256])"
  have "set C = (\<Union>ix\<in>{ix. kid ?M p ix \<noteq> 0}. span_of ?M i (kid ?M p ix))" unfolding C_def by (rule s1)
  moreover from this have "p \<notin> set C" using Suc.prems by auto
  moreover have "distinct C" unfolding C_def by (rule d)
  ultimately show ?case unfolding r C_def [symmetric] by (intro exI [of _ "C @ [p]"]) simp
qed

lemma deleteSWA_ok:
  assumes "sparse_ok s"
  shows "\<exists>ps. deleteSWA s = Inr ps \<and> distinct ps \<and> set ps = sparse_span s"
proof (cases "swa_root s = 0")
  case True
  then show ?thesis by (simp add: deleteSWA_def sparse_span_def)
next
  case False
  then have "swa_ok (swa_mem s) 7 (swa_root s)" using assms by (simp add: sparse_ok_def)
  moreover have "deleteSWA s = swa_deleteSWA_wrk (Suc 7) (swa_root s) s" using False by (simp add: deleteSWA_def)
  ultimately show ?thesis using swa_delete_ok [of s 7] False by (simp add: sparse_span_def)
qed

section \<open>Sequences of operations\<close>

datatype sparse_op = Look nat | Add nat nat | Del nat | Count

datatype sparse_result = Found "nat option" | Was_there bool | Elements nat

fun do_sparse :: "swa_allocator \<Rightarrow> sparse_op \<Rightarrow> swa \<Rightarrow> (sparse_result \<times> swa) res" where
  "do_sparse alloc (Look k) s = bind_res (lookupSWA k s) (\<lambda>r. Inr (Found (map_option snd r), s))"
| "do_sparse alloc (Add k v) s = bind_res (addToSWA alloc k v s) (\<lambda>(b, s1). Inr (Was_there b, s1))"
| "do_sparse alloc (Del k) s = bind_res (delFromSWA k s) (\<lambda>(r, s1). Inr (Found (map_option snd r), s1))"
| "do_sparse alloc Count s = bind_res (sizeSWA s) (\<lambda>n. Inr (Elements n, s))"

fun do_map :: "sparse_op \<Rightarrow> (nat \<rightharpoonup> nat) \<Rightarrow> sparse_result \<times> (nat \<rightharpoonup> nat)" where
  "do_map (Look k) m = (Found (m k), m)"
| "do_map (Add k v) m = (Was_there (m k \<noteq> None), m(k \<mapsto> v))"
| "do_map (Del k) m = (Found (m k), m(k := None))"
| "do_map Count m = (Elements (u64 (card (dom m))), m)"

fun run_sparse :: "swa_allocator \<Rightarrow> sparse_op list \<Rightarrow> swa \<Rightarrow> (sparse_result list \<times> swa) res" where
  "run_sparse alloc [] s = Inr ([], s)"
| "run_sparse alloc (x # xs) s =
     bind_res (do_sparse alloc x s) (\<lambda>(r, s1). bind_res (run_sparse alloc xs s1) (\<lambda>(rs, s2). Inr (r # rs, s2)))"

fun run_on_map :: "sparse_op list \<Rightarrow> (nat \<rightharpoonup> nat) \<Rightarrow> sparse_result list \<times> (nat \<rightharpoonup> nat)" where
  "run_on_map [] m = ([], m)"
| "run_on_map (x # xs) m = (let (r, m1) = do_map x m; (rs, m2) = run_on_map xs m1 in (r # rs, m2))"

fun key_ok :: "sparse_op \<Rightarrow> bool" where
  "key_ok (Look k) \<longleftrightarrow> k < 2 ^ 64"
| "key_ok (Add k v) \<longleftrightarrow> k < 2 ^ 64"
| "key_ok (Del k) \<longleftrightarrow> k < 2 ^ 64"
| "key_ok Count \<longleftrightarrow> True"

text \<open>The array holds the map.\<close>

definition sparse_holds :: "swa \<Rightarrow> (nat \<rightharpoonup> nat) \<Rightarrow> bool" where
  "sparse_holds s m \<longleftrightarrow>
     sparse_ok s \<and> finite (dom (swa_mem s)) \<and> (\<forall>k. m k = (if k < 2 ^ 64 then sparse_map s k else None))"

lemma sparse_span_used: "sparse_ok s \<Longrightarrow> x \<in> sparse_span s \<Longrightarrow> swa_mem s x \<noteq> None"
  using swa_ok_span by (auto simp: sparse_span_def sparse_ok_def split: if_splits)

lemma do_sparse_ok:
  assumes al: "alloc_fresh alloc" and h: "sparse_holds s m" and k: "key_ok x"
  shows "\<exists>s'. do_sparse alloc x s = Inr (fst (do_map x m), s') \<and> sparse_holds s' (snd (do_map x m))"
proof -
  have ok: "sparse_ok s" and fin: "finite (dom (swa_mem s))" and m: "m k = (if k < 2 ^ 64 then sparse_map s k else None)" for k
    using h by (simp_all add: sparse_holds_def)
  show ?thesis
  proof (cases x)
    case (Look key)
    then show ?thesis using lookupSWA_ok [OF ok, of key] h k m [of key] by (auto simp: option.map_comp o_def option.map_ident)
  next
    case (Add key v)
    then have key: "key < 2 ^ 64" using k by simp
    from addToSWA_ok [OF ok al fin key, of v] obtain s' where
      a: "addToSWA alloc key v s = Inr (sparse_map s key \<noteq> None, s')" "sparse_ok s'"
        "\<forall>k<2 ^ 64. sparse_map s' k = ((sparse_map s)(key \<mapsto> v)) k"
        "finite (dom (swa_mem s'))" by blast
    have "sparse_holds s' (m(key \<mapsto> v))" using a(2-4) m key by (auto simp: sparse_holds_def)
    then show ?thesis using a(1) Add m [of key] key by simp
  next
    case (Del key)
    then have key: "key < 2 ^ 64" using k by simp
    from delFromSWA_ok [OF ok key] obtain s' where
      a: "delFromSWA key s = Inr (map_option (Pair key) (sparse_map s key), s')" "sparse_ok s'"
        "\<forall>k<2 ^ 64. sparse_map s' k = ((sparse_map s)(key := None)) k"
        "\<forall>x. x \<notin> sparse_span s \<longrightarrow> swa_mem s' x = swa_mem s x" "swa_allocs s' = swa_allocs s" by blast
    have "dom (swa_mem s') \<subseteq> dom (swa_mem s)" using a(4) sparse_span_used [OF ok] by (metis domIff subsetI)
    then have "finite (dom (swa_mem s'))" using fin by (rule finite_subset)
    then have "sparse_holds s' (m(key := None))" using a(2,3) m key by (auto simp: sparse_holds_def)
    then show ?thesis using a(1) Del m [of key] key by (simp add: option.map_comp o_def option.map_ident)
  next
    case Count
    have "dom m = {k. k < 2 ^ 64 \<and> sparse_map s k \<noteq> None}" using m by (auto split: if_splits)
    then show ?thesis using sizeSWA_ok [OF ok] h Count by simp
  qed
qed

text \<open>
  C25. On keys of 64 bits a sparse array computes what a map from keys to words computes: every
  sequence of additions, deletions, lookups and counts ends without a failed assertion, returns
  what the map returns, and leaves an array that holds the resulting map, although deletions give
  empty nodes back at every level and the allocation function may hand them out again. It is only
  asked not to return null or the address of a node in memory. The count is modulo the word.
\<close>

theorem sparse_array_refines_map:
  assumes "alloc_fresh alloc" and "sparse_holds s m" and "\<forall>x\<in>set xs. key_ok x"
  shows "\<exists>s'. run_sparse alloc xs s = Inr (fst (run_on_map xs m), s') \<and> sparse_holds s' (snd (run_on_map xs m))"
  using assms(2,3)
proof (induction xs arbitrary: s m)
  case (Cons x xs)
  from do_sparse_ok [OF assms(1) Cons.prems(1), of x] Cons.prems(2) obtain s1 where
    s1: "do_sparse alloc x s = Inr (fst (do_map x m), s1)" "sparse_holds s1 (snd (do_map x m))" by auto
  from Cons.IH [OF s1(2)] Cons.prems(2) s1(1) show ?case by (auto simp: Let_def split_beta)
qed simp

lemma sparse_holds_new: "sparse_holds (newSWA Map.empty 0) Map.empty"
  by (simp add: sparse_holds_def sparse_ok_def sparse_map_def newSWA_def)

text \<open>An allocation function: the first page above all nodes.\<close>

definition above_all :: swa_allocator where
  "above_all n M = 4096 * Suc (Max (insert 0 (dom M)))"

lemma above_all_fresh: "alloc_fresh above_all"
  unfolding alloc_fresh_def
proof (intro allI impI)
  fix n :: nat and M :: swa_memory assume f: "finite (dom M)"
  have "x < 4096 * Suc (Max (insert 0 (dom M)))" if "x \<in> dom M" for x
  proof -
    have "x \<le> Max (insert 0 (dom M))" using that f by (intro Max_ge) simp_all
    moreover have "y \<le> m \<Longrightarrow> y < 4096 * Suc m" for y m :: nat by simp
    ultimately show ?thesis by blast
  qed
  then show "above_all n M \<noteq> 0 \<and> M (above_all n M) = None" unfolding above_all_def by (metis domIff less_irrefl
      mult_is_0 nat.distinct(1) zero_neq_numeral)
qed

theorem sparse_array_refines_map_witness:
  "\<exists>s'. run_sparse above_all [Add 5 7, Add 70000 8, Look 5, Add 5 9, Del 5, Look 5, Count] (newSWA Map.empty 0)
     = Inr ([Was_there False, Was_there False, Found (Some 7), Was_there True, Found (Some 9), Found None, Elements 1], s')"
proof -
  have k: "\<forall>x\<in>set [Add 5 7, Add 70000 8, Look 5, Add 5 9, Del 5, Look 5, Count]. key_ok x" by simp
  have "fst (run_on_map [Add 5 7, Add 70000 8, Look 5, Add 5 9, Del 5, Look 5, Count] Map.empty)
      = [Was_there False, Was_there False, Found (Some 7), Was_there True, Found (Some 9), Found None, Elements 1]"
    by (simp add: Let_def)
  with sparse_array_refines_map [OF above_all_fresh sparse_holds_new k] show ?thesis by auto
qed

text \<open>
  C32. Iteration over a sparse array ends without a failed assertion: it returns each key with its
  word once, the keys in ascending order, and then nothing. The size is the number of the pairs modulo
  the word, and destruction gives each node back once.
\<close>

theorem sparse_array_iterates:
  assumes "sparse_ok s" and "length (iterStack s) = 8"
  shows "\<exists>ps s1 s2. initIterSWA s = Inr s1 \<and> swa_nexts (length ps + 1) s1 = Inr (map Some ps @ [None], s2)
    \<and> sorted_wrt (<) (map fst ps) \<and> set ps = {(k, v). k < 2 ^ 64 \<and> sparse_map s k = Some v}
    \<and> swa_mem s2 = swa_mem s \<and> sizeSWA s = Inr (u64 (length ps))
    \<and> (\<exists>ns. deleteSWA s = Inr ns \<and> distinct ns \<and> set ns = sparse_span s)"
proof -
  let ?ps = "sparse_pairs s"
  from initIterSWA_ok [OF assms] obtain s1 es where
    s1: "initIterSWA s = Inr s1" "stack_holds s1 es" "to_return (swa_mem s1) es = ?ps" "same_tree s s1" by blast
  from swa_nexts_ok [OF s1(2,3)] obtain s2 where
    s2: "swa_nexts (length ?ps + 1) s1 = Inr (map Some ?ps @ [None], s2)" "same_tree s1 s2" by blast
  have set: "set ?ps = {(k, v). k < 2 ^ 64 \<and> sparse_map s k = Some v}" using sparse_pairs_ok(2) [OF assms(1)] by auto
  have srt: "sorted_wrt (<) (map fst ?ps)" by (rule sparse_pairs_ok(1) [OF assms(1)])
  then have "distinct (map fst ?ps)" by (simp add: strict_sorted_iff)
  then have "length ?ps = card (fst ` set ?ps)" using distinct_card by fastforce
  also have "fst ` set ?ps = {k. k < 2 ^ 64 \<and> sparse_map s k \<noteq> None}" unfolding set by force
  finally have "sizeSWA s = Inr (u64 (length ?ps))" using sizeSWA_ok [OF assms(1)] by simp
  with s1(1,4) s2 set srt deleteSWA_ok [OF assms(1)] show ?thesis
    by (intro exI [of _ ?ps] exI [of _ s1] exI [of _ s2]) (simp add: same_tree_def)
qed

theorem sparse_array_iterates_witness:
  "\<exists>s s1 s2. addToSWA above_all 70000 8 (newSWA Map.empty 0) = Inr (False, s)
     \<and> initIterSWA s = Inr s1 \<and> swa_nexts 2 s1 = Inr ([Some (70000, 8), None], s2)"
proof -
  let ?s = "newSWA Map.empty 0"
  have "sparse_ok ?s" "finite (dom (swa_mem ?s))" by (simp_all add: sparse_ok_def newSWA_def)
  from addToSWA_ok [OF this(1) above_all_fresh this(2), of 70000 8] obtain s where
    s: "addToSWA above_all 70000 8 ?s = Inr (sparse_map ?s 70000 \<noteq> None, s)" "sparse_ok s"
      "\<forall>k<2 ^ 64. sparse_map s k = ((sparse_map ?s)(70000 \<mapsto> 8)) k" "iterStack s = iterStack ?s" by auto
  have e: "sparse_map ?s = Map.empty" by (simp add: sparse_map_def newSWA_def)
  have "length (iterStack s) = 8" using s(4) by (simp add: newSWA_def)
  from sparse_array_iterates [OF s(2) this] obtain ps s1 s2 where
    i: "initIterSWA s = Inr s1" "swa_nexts (length ps + 1) s1 = Inr (map Some ps @ [None], s2)"
      "sorted_wrt (<) (map fst ps)" "set ps = {(k, v). k < 2 ^ 64 \<and> sparse_map s k = Some v}" by blast
  have "sparse_map s k = (if k = 70000 then Some 8 else None)" if "k < 2 ^ 64" for k using s(3) e that by simp
  then have "set ps = {(70000, 8)}" unfolding i(4) by (auto split: if_splits)
  moreover have "distinct ps" using i(3) by (auto simp: strict_sorted_iff distinct_map)
  ultimately have p: "ps = [(70000, 8)]"
    by (cases ps; cases "tl ps") (auto simp: insert_eq_iff)
  have "length ps + 1 = 2" unfolding p by simp
  note n = i(2) [unfolded this, unfolded p]
  have "addToSWA above_all 70000 8 ?s = Inr (False, s)" using s(1) e by simp
  with i(1) n show ?thesis by auto
qed

end
