(* ===== verification/Spec2Isabelle.thy ===== *)
theory Spec2Isabelle
  imports Rm_Offer Rm_Bytes Rm_Global Buddy_Props Vg_Trace Mc_Pool_Props Vg_Pooled Vg_Oset_Props
    Vg_Match Vg_Sparse_Props
begin

text \<open>
  A verification of the allocators of the rmalloc project and of the tracer it records allocations
  with.

  The program. \<open>src/jeff\<close> is a compacting allocator: the client gets handles (addresses of
  headers), locks a handle to use its memory, and \<open>rm_compact\<close> moves unlocked blocks down to
  close the gaps. \<open>src/buddy\<close> is the start of a buddy allocator. Programs are measured on traces
  of real applications, which an instrumented Memcheck records (\<open>src/valgrind/memcheck\<close>): it
  replaces \<open>malloc\<close> and its relatives, prints a line for every block that is allocated or
  released and for every access to the heap, and keeps its blocks in the hash table and sorts its
  arrays with the quicksort of Valgrind's core. File names are relative to the directory \<open>src\<close>
  of the repository, the allocators being in its subdirectory \<open>src\<close>.

  Shared. \<open>Rm_Prelude\<close>: faults and results, arithmetic modulo \<open>2 ^ 32\<close> and \<open>2 ^ 64\<close>, chains of
  linked nodes, tilings of memory. A result is \<open>Inr\<close> of the value and the state, or \<open>Inl\<close> of
  a fault: a failed assertion or \<open>abort\<close>, a null pointer, an access out of bounds, an overflow,
  a loop without end.

  The compacting allocator (\<open>jeff/compact.c\<close>, \<open>compact_internal.h\<close>, \<open>listsort.c\<close>,
  \<open>compact_debug.c\<close>). The state \<open>rm_state\<close> has the fields of \<open>rmalloc_meta_t\<close> and the memory
  they describe: headers by address (\<open>hdr\<close>), the array of slots (\<open>slots\<close>), and the memory of the
  blocks as bytes (\<open>mem\<close>). The cells of the free lists are kept by address as well (\<open>blk\<close>); each
  write of a cell also writes its sixteen bytes (\<open>upd_blk\<close>), wherever they lie, so that a cell put
  into a block in use changes that block. The code reads cells as structures; the invariant says
  that the bytes of a listed cell are those of the structure (\<open>cell_stored\<close>), so both readings
  agree, and \<open>Rm_Bytes\<close> walks the free lists through the bytes alone. Headers lie above the blocks.
  The model says nothing of a client that writes into freed memory.
  \<open>Rm_Heap\<close> data, \<open>rm_log2\<close>, \<open>rm_block_from_header\<close>; \<open>Rm_Header\<close> the pool of headers;
  \<open>Rm_Freelist\<close> insertion, split and search of the free lists; \<open>Rm_Alloc\<close> \<open>block_new\<close>,
  \<open>block_free\<close>, \<open>rm_init\<close>, \<open>rm_malloc\<close>, \<open>rm_free\<close>, the locks; \<open>Rm_Sort\<close> the merge sort of
  headers; \<open>Rm_Compact\<close> \<open>rm_compact\<close>; \<open>Rm_Stat\<close> the statistics; \<open>Rm_Debug\<close> the checks of the
  debug build; \<open>Rm_Global\<close> the state pointer \<open>g_state\<close>: meta blocks by address that share one
  memory, and the initialisation of a heap in it.
  The invariant \<open>wfs\<close> (\<open>Rm_Inv\<close>) says that the headers on the list, in use or free, tile the
  memory between \<open>memory_bottom\<close> and \<open>memory_top\<close>, that the list of each slot holds free blocks
  of its size class, and that the header on offer is unused. A free block need not be listed: the
  search loses blocks that fit exactly. \<open>Rm_Blocks\<close>,
  \<open>Rm_Search\<close>, \<open>Rm_Malloc\<close> and \<open>Rm_Client\<close> prove the contracts of the operations;
  \<open>Rm_Sorting\<close> the sort; \<open>Rm_Ranges\<close>, \<open>Rm_Move\<close>, \<open>Rm_Pass\<close>, \<open>Rm_Relink\<close>, \<open>Rm_Loop\<close>,
  \<open>Rm_Finish\<close> and \<open>Rm_Compacted\<close> follow a compaction from its ranges to the whole;
  \<open>Rm_Contract\<close> states the abstract block store as a locale, interprets it by the allocator, and
  has the step relation of the client operations; \<open>Rm_Demo\<close> is a small heap for the witnesses;
  \<open>Rm_Observed\<close> has the properties of statistics and checks, \<open>Rm_Offer\<close> the compaction that leaves an
  ill-formed heap, \<open>Rm_Bytes\<close> the free lists in the bytes.

  The buddy allocator (\<open>buddy/buddy.c\<close>). \<open>Buddy\<close> is the model, with 32-bit words for the bit
  tricks, \<open>Buddy_Inv\<close> the invariant and the count of free halves over an address, \<open>Buddy_Props\<close>
  the properties.

  The tracer. \<open>Vg_Hash\<close> models \<open>valgrind/coregrind/m_hashtable.c\<close>, whose nodes and tables the
  record \<open>vg_heap\<close> holds by address; tools extend the record. \<open>Vg_Hash_Inv\<close> has its invariant
  \<open>ht\<close> (the chains as lists, each node in the chain of its key) and what each operation does;
  \<open>Vg_Keyed\<close> the interface of nodes with keys as a locale, under which operations refine those of
  a map; \<open>Vg_Table\<close> interprets it by the hash table, \<open>Vg_Ordered\<close> by the ordered set.
  \<open>Vg_Sort\<close> and \<open>Vg_Sorted\<close> are \<open>bm_qsort\<close> of \<open>m_libcbase.c\<close> and its correctness, with the pivot in
  a variable or in the array, as the size and the address of the elements decide.
  \<open>Vg_Array\<close> models the growing arrays of \<open>m_xarray.c\<close>, \<open>Vg_Arrayed\<close> shows that they implement
  lists (\<open>xa_holds\<close>) and what the binary search finds. \<open>Vg_Pool\<close> models the element pools of
  \<open>m_poolalloc.c\<close>, which keep their pools in such an array, with the invariant \<open>pa_ok\<close>;
  \<open>Vg_Pooled\<close> states what a client may rely on as a locale, interprets it, and refines client
  programs to programs on separate records.
  \<open>Vg_Oset\<close> models the ordered sets of \<open>m_oset.c\<close>, AVL trees over nodes in memory (\<open>avl_heap\<close>) with
  an iterator on a stack. \<open>Vg_Avl\<close> relates nodes to trees (\<open>tree_in\<close>) and proves the swings and the
  insertion, \<open>Vg_Avl_Remove\<close> the search and the removal, \<open>Vg_Ordered\<close> has the invariant \<open>oset_ok\<close>
  and the contracts of the operations, \<open>Vg_Oset_Iter\<close> says what the stack of the iterator stands
  for, \<open>Vg_Oset_Props\<close> has iteration, destruction and the properties.
  \<open>Vg_Sparse\<close> models the sparse arrays of \<open>m_sparsewa.c\<close>, trees with a node per byte of the key;
  \<open>Vg_Sparse_Inv\<close> has the invariant \<open>swa_ok\<close>, the nodes of a tree (\<open>span_of\<close>) and the map it stands
  for (\<open>held\<close>), \<open>Vg_Sparse_Ops\<close> the contracts of lookup, insertion, removal and size, \<open>Vg_Sparse_Iter\<close> the iterator, whose stack is
  related to the keys yet to come, \<open>Vg_Sparse_Props\<close> destruction and the properties.
  \<open>Vg_Match\<close> is the matcher of patterns of \<open>m_seqmatch.c\<close>, with the equations of its comment as
  the reference definition.
  \<open>Vg_Trace\<close> is the part of \<open>memcheck/mc_translate.c\<close> that the project added: the buffer of
  events while a block of code is instrumented, and the helpers that print accesses.
  \<open>Mc_Malloc\<close> models \<open>memcheck/mc_malloc_wrappers.c\<close> but for the pools: the state \<open>mc_state\<close>
  extends \<open>vg_heap\<close> by the chunks (a chunk is a node of the table \<open>malloc_list\<close>), the two queues
  of freed blocks, the counters and the range of traced addresses; \<open>Mc_Pool\<close> models the pools.
  \<open>Mc_Queue\<close> shows what the queues do, \<open>Mc_Inv\<close> has the invariant \<open>mc_inv\<close> and the trace as a
  reader sees it (\<open>traced\<close>), \<open>Mc_Ops\<close> the shared steps, \<open>Mc_Client\<close> allocation, release and
  reallocation, \<open>Mc_Props\<close> and \<open>Mc_Pool_Props\<close> the properties.

  Parameters. Code outside of the modelled files is an argument: the readings of the clock for
  \<open>rm_compact\<close>, \<open>calloc\<close> and \<open>malloc\<close> for the meta block and the buddy allocator, and for the
  tracer the record \<open>mc_env\<close>: the options, the client's allocator, the pool of chunks, execution
  contexts and the check of the shadow memory. Each function of \<open>mc_env\<close> gets the number of calls
  into the environment so far (\<open>ticks\<close>), so that equal calls may have different results. Requests
  for an element of a pool carry the address that the allocation function would return for a new
  pool (\<open>pools_fit\<close>: these blocks do not overlap); it does not fail, nor for arrays. What is
  assumed of them are named hypotheses of the properties (\<open>env_ok\<close>, \<open>answers_ok\<close>,
  \<open>realloc_answers_ok\<close>): the options are in their ranges, contexts exist, and a new block or
  chunk is not one already in the table. Calls whose effect is outside of the modelled state
  (marking shadow memory, errors, printing, freeing) are recorded in order in \<open>log\<close>.

  Fuel. Loops over linked structures take a fuel of \<open>2 ^ 64\<close> (\<open>list_fuel\<close>) and return
  \<open>Inl Diverge\<close> when it runs out; nodes have different non-zero 64-bit addresses, so no chain is
  longer, and the contracts show that \<open>Diverge\<close> does not occur on the states of the invariants.
  The depth of \<open>bm_qsort\<close> is bounded by the length of the array, as each part is shorter than the
  whole, and so is the number of rounds of its partition. A balanced tree over 64-bit addresses is
  less than 130 levels high, which bounds the recursion of the ordered sets.

  Bounds. Requests of \<open>rm_malloc\<close> are 32-bit integers, negative ones included; heap addresses are
  natural numbers below \<open>2 ^ 64\<close> where the code compares them so. The counters and sizes of the
  tracer wrap at their widths (\<open>u32\<close>, \<open>u62\<close>, \<open>u64\<close>); the signed volume and length of the freed
  queues are integers, which a volume below \<open>2 ^ 63\<close> makes exact. The trace prints 32 bits of
  addresses and sizes, and its properties are for blocks below \<open>2 ^ 32\<close>.

  Not modelled. The printing functions of \<open>compact_debug.c\<close>; of the buddy allocator the
  destruction functions, which the source defines twice over an undeclared variable; the messages
  of the tracer's pools at a verbosity above 2 and the sanity checks that the source switches off;
  the rest of Valgrind, of which the
  project uses what its authors wrote unchanged; the drivers, plots and other allocators of
  \<open>src/steve\<close>, which only run and display, or are third-party code.

  The properties are numbered. C1 to C19 are in this theory but for C3 in \<open>Rm_Offer\<close>, C5 in
  \<open>Rm_Bytes\<close>, C16 in \<open>Vg_Pooled\<close> and C18 in \<open>Vg_Arrayed\<close>; C20, C26, C28 and C30 in
  \<open>Vg_Oset_Props\<close>; C22 to C24 in \<open>Buddy_Props\<close>; C25 and C32 in \<open>Vg_Sparse_Props\<close>; C27 and C31 in
  \<open>Rm_Observed\<close>; C29 in \<open>Vg_Match\<close>; C33 and C34 in \<open>Vg_Table\<close>; C35 in \<open>Vg_Trace\<close>; C36 to C38 in
  \<open>Mc_Props\<close>; C21, C39 and C40 in \<open>Mc_Pool_Props\<close>.
\<close>

section \<open>The heap and its client operations\<close>

text \<open>
  C1. \<open>rm_init\<close> on a heap that holds the slot array and two headers establishes the invariant:
  no block is in use, and the memory between the slots and the headers is there to be given out.
\<close>

theorem rm_init_establishes_invariant:
  assumes "init_ok start n"
  shows "well_formed (rm_init start n s) \<and> (\<forall>h. \<not> live (rm_init start n s) h)
    \<and> memory_bottom (rm_init start n s) = start + (rm_log2 n + 1) * sizeof_ptr
    \<and> memory_top (rm_init start n s) = memory_bottom (rm_init start n s)
    \<and> header_bottom (rm_init start n s) + 2 * sizeof_rm_header_t = start + n"
proof -
  note w = rm_init_wf [OF assms, of s] and f = rm_init_fields [OF assms refl, of s]
  have "2 * sizeof_rm_header_t < n" using assms by (simp add: init_ok_def)
  with w f live_wf [OF w] show ?thesis unfolding well_formed_def by auto
qed

theorem rm_init_establishes_invariant_witness:
  "well_formed (rm_init 1000 1024 zero_state) \<and> init_ok 1000 1024
   \<and> memory_bottom (rm_init 1000 1024 zero_state) = 1088"
  using rm_init_establishes_invariant [OF demo_init_ok, of zero_state] demo_init_ok
  by (simp add: demo_log2)

text \<open>
  C2. The contract of \<open>rm_malloc\<close>: on a well-formed heap a request within the slots of the heap
  never fails with an error and keeps the invariant. Either it returns no block and the live
  blocks are what they were, or it returns a block that was not live, of the size of the request
  (at least 16 bytes), unlocked. Every other live block keeps its place, size and type, and the only
  bytes that may change lie in the memory between the bottom and the top that no live block had.
\<close>

theorem rm_malloc_contract:
  assumes "well_formed s" and "0 \<le> n" and "request_ok s (nat n)"
  shows "\<exists>h s'. rm_malloc n s = Inr (h, s') \<and> well_formed s'
    \<and> (h = 0 \<and> not_allocated s s' \<or> h \<noteq> 0 \<and> allocated s s' h (nat n))"
proof -
  from assms(1) obtain L P F where "wfs s L P F" by (auto simp: well_formed_def)
  from rm_malloc_wf [OF this assms(2,3)] show ?thesis .
qed

theorem rm_malloc_contract_witness:
  "\<exists>h s'. rm_malloc 100 demo_heap = Inr (h, s') \<and> well_formed s' \<and> h = 1995
     \<and> allocated demo_heap s' h 100"
  using rm_malloc_contract [of demo_heap 100] demo_heap_wf demo_request [of 100] demo_malloc(1)
  by auto

text \<open>
  C4. The contract of \<open>rm_free\<close>: freeing a live block never fails, keeps the invariant, makes the
  block a free one of the same place and size, and leaves every other block as it was. The bytes that
  may change are the last sixteen of the block, where the cell of the free list is written.
\<close>

theorem rm_free_contract:
  assumes "well_formed s" and "live s h"
  shows "\<exists>s'. rm_free h s = Inr s' \<and> well_formed s' \<and> released s s' h"
  using assms by (rule rm_free_wf)

theorem rm_free_contract_witness:
  "\<exists>s'. rm_free 1995 demo_block = Inr s' \<and> well_formed s' \<and> released demo_block s' 1995"
  using rm_free_contract [OF demo_block_wf, of 1995] demo_block_live by simp

text \<open>
  C6. The locks: on a live block each of \<open>rm_lock\<close>, \<open>rm_weaklock\<close> and \<open>rm_unlock\<close> succeeds and
  keeps the invariant and the live blocks; the state it leaves is the one before with the type of the
  header changed and nothing else; the two locks return the address of the block.
\<close>

theorem rm_locks_contract:
  assumes "well_formed s" and "live s h"
  shows "(\<exists>s'. rm_lock h s = Inr (h_memory (hdr s h), s') \<and> well_formed s'
        \<and> locked_as s s' h BLOCK_TYPE_LOCKED)
    \<and> (\<exists>s'. rm_weaklock h s = Inr (h_memory (hdr s h), s') \<and> well_formed s'
        \<and> locked_as s s' h BLOCK_TYPE_WEAK_LOCKED)
    \<and> (\<exists>s'. rm_unlock h s = Inr s' \<and> well_formed s' \<and> locked_as s s' h BLOCK_TYPE_UNLOCKED)"
  using rm_lock_wf [OF assms] rm_weaklock_wf [OF assms] rm_unlock_wf [OF assms] by blast

theorem rm_locks_contract_witness:
  "\<exists>s'. rm_lock 1995 demo_block = Inr (1088, s') \<and> well_formed s'
     \<and> locked_as demo_block s' 1995 BLOCK_TYPE_LOCKED"
  using rm_locks_contract [OF demo_block_wf, of 1995] demo_block_live
  by (simp add: demo_malloc)

text \<open>
  C7. The contract of \<open>rm_compact\<close> with any clock and any limit of time, on a heap with a live
  block: the same blocks stay live, each moves down or stays and keeps its bytes and type, the
  locked and weakly locked ones do not move at all; the loop ends within its fuel; the invariant
  holds again once the header on offer is withdrawn where it lies below the header array. The one
  error is a null header, and it needs a heap without room for one header per unlocked block.
\<close>

theorem rm_compact_keeps_blocks:
  assumes "well_formed s" and "live s h"
  shows "rm_compact clk mt s = Inl Null_deref
      \<and> \<not> header_room s (card {g. live s g \<and> h_type (hdr s g) = BLOCK_TYPE_UNLOCKED})
    \<or> (\<exists>s'. rm_compact clk mt s = Inr s' \<and> well_formed (withdraw_unused s')
        \<and> (\<forall>g. (live s' g \<longleftrightarrow> live s g) \<and> (live s g \<longrightarrow> moved_down s s' g)))"
  using assms by (rule rm_compact_contract)

theorem rm_compact_keeps_blocks_witness:
  "\<exists>s'. rm_compact (\<lambda>i. (i, 0)) 5 demo_block = Inr s' \<and> live s' 1995
     \<and> moved_down demo_block s' 1995"
proof -
  have "{g. live demo_block g \<and> h_type (hdr demo_block g) = BLOCK_TYPE_UNLOCKED} = {1995}"
    using demo_block_live by (auto simp: demo_malloc)
  moreover have "header_room demo_block 1" by (simp add: header_room_def demo_malloc)
  ultimately show ?thesis
    using rm_compact_keeps_blocks [OF demo_block_wf, of 1995 "\<lambda>i. (i, 0)" 5] demo_block_live by auto
qed

text \<open>
  C8. With no limit of time and no locked block, compaction packs the heap: it succeeds, and
  afterwards the memory in use is exactly the sum of the live blocks.
\<close>

theorem rm_compact_packs_heap:
  assumes "well_formed s" and "live s h"
    and "\<And>g. live s g \<Longrightarrow> h_type (hdr s g) = BLOCK_TYPE_UNLOCKED"
  shows "\<exists>s'. rm_compact clk 0 s = Inr s' \<and> well_formed (withdraw_unused s')
    \<and> memory_bottom s' = memory_bottom s
    \<and> memory_top s' = memory_bottom s' + (\<Sum>g | live s' g. h_size (hdr s' g))"
  using assms by (rule rm_compact_packs)

theorem rm_compact_packs_heap_witness:
  "\<exists>s'. rm_compact (\<lambda>i. (i, 0)) 0 demo_block = Inr s' \<and> memory_bottom s' = memory_bottom demo_block
     \<and> memory_top s' = memory_bottom s' + (\<Sum>g | live s' g. h_size (hdr s' g))"
  using rm_compact_packs_heap [OF demo_block_wf, of 1995 "\<lambda>i. (i, 0)"] demo_block_live
  by (auto simp: demo_malloc)

section \<open>Requests\<close>

text \<open>
  C9. While there is room for the block and for two headers between the top of the memory and the
  headers, \<open>rm_malloc\<close> succeeds, and the block it returns is the next piece of memory.
\<close>

theorem rm_malloc_succeeds_with_room:
  assumes "well_formed s" and "0 \<le> n" and "n < 2 ^ 31"
    and "memory_top s + request_size (nat n) + 2 * sizeof_rm_header_t < header_bottom s"
  shows "\<exists>h s'. rm_malloc n s = Inr (h, s') \<and> h \<noteq> 0
    \<and> extent s' h = (memory_top s, request_size (nat n))
    \<and> memory_top s' = memory_top s + request_size (nat n)"
  using assms by (rule rm_malloc_top)

theorem rm_malloc_succeeds_with_room_witness:
  "\<exists>h s'. rm_malloc 5 demo_block = Inr (h, s') \<and> h \<noteq> 0 \<and> extent s' h = (1188, 16)"
  using rm_malloc_succeeds_with_room [OF demo_block_wf, of 5]
  by (auto simp: demo_malloc request_size_def)

text \<open>
  C10. The search of the free lists is complete: it returns no block only if no listed block is
  large enough, and the state is then unchanged; a block it returns is listed, large enough, and
  has been taken off its list.
\<close>

theorem freeblock_search_complete:
  assumes "wfs s L P F" and "0 < sz" and "sz < 2 ^ 31" and "rm_log2 sz < length (slots s)"
  shows "\<exists>found s'. freeblock_search sz s = Inr (found, 0, s') \<and>
    (found = 0 \<and> s' = s \<and> (\<forall>k<length (slots s). \<forall>h\<in>set (F k). h_size (hdr s h) < sz) \<or>
     (\<exists>h k. found = rm_block_from_header s h \<and> sz \<le> h_size (hdr s h) \<and> found \<noteq> 0
          \<and> unlinked s s' L P F k h))"
  using assms by (rule freeblock_search_spec)

theorem freeblock_search_complete_witness:
  "freeblock_search 100 demo_heap = Inr (0, 0, demo_heap)"
  using freeblock_search_complete [OF demo_heap_wfs, of 100]
  by (auto simp: demo_log2 demo_fields unlinked_def)

text \<open>
  C11. A free block serves a request only when it is at least 16 bytes larger, the size of a free
  list cell: while no free block is, \<open>freeblock_find\<close> returns none, also for an exact fit.
\<close>

theorem freeblock_find_needs_slack:
  assumes "wfs s L P F" and "sizeof_free_memory_block_t \<le> sz" and "sz < 2 ^ 31"
    and "rm_log2 sz < length (slots s)"
    and "\<And>h. h \<in> set L \<Longrightarrow> \<not> in_use s h \<Longrightarrow>
      h_size (hdr s h) < sz + sizeof_free_memory_block_t"
  shows "\<exists>s'. freeblock_find sz s = Inr (0, s') \<and> well_formed s' \<and> hdr s' = hdr s"
proof -
  from freeblock_find_spec [OF assms(1-4)] obtain h s' where
    f: "freeblock_find sz s = Inr (h, s')"
    and r: "h = 0 \<and> relinked s s' \<and> (\<exists>F'. wfs s' L P F')
      \<or> h \<in> set L \<and> \<not> in_use s h \<and> split_off s s' L h sz" by blast
  from r show ?thesis
  proof
    assume "h = 0 \<and> relinked s s' \<and> (\<exists>F'. wfs s' L P F')"
    with f show ?thesis by (auto simp: relinked_def well_formed_def)
  next
    assume "h \<in> set L \<and> \<not> in_use s h \<and> split_off s s' L h sz"
    with assms(5) [of h] show ?thesis by (auto simp: split_off_def)
  qed
qed

theorem freeblock_find_needs_slack_witness:
  "\<exists>s t. rm_free 1995 demo_block = Inr s \<and> h_size (hdr s 1995) = 100
     \<and> freeblock_find 100 s = Inr (0, t) \<and> well_formed t"
proof -
  from demo_block_wf obtain L P F where w: "wfs demo_block L P F" by (auto simp: well_formed_def)
  from block_free_wf [OF w, of 1995] demo_block_live obtain s F' where
    s: "block_free 1995 demo_block = Inr (1995, s)" "wfs s L P F'" "released demo_block s 1995"
    by blast
  have sz: "h_size (hdr s 1995) = 100"
    using s(1) by (auto simp: block_free_def demo_malloc Let_def read_slot_def write_slot_def
        demo_fields demo_log2 rm_block_from_header_def u64_def upd_hdr_def upd_blk_def)
  have only: "h \<in> set L \<Longrightarrow> \<not> in_use s h \<Longrightarrow> h_size (hdr s h) < 100 + 16" for h
  proof -
    assume h: "h \<in> set L" "\<not> in_use s h"
    have "chain (nxt demo_block) (header_root demo_block) L 0"
      using wf_parts(2) [OF w] demo_block_live [of 1995] live_wf [OF w, of 1995]
      by (auto simp: header_list_def split: if_splits)
    then have "h = 1995" using h(1) by (simp add: demo_block_chain)
    with sz show ?thesis by simp
  qed
  have len: "rm_log2 100 < length (slots s)"
    using s(1) by (auto simp: block_free_def demo_malloc Let_def read_slot_def write_slot_def
        demo_fields demo_log2 rm_block_from_header_def u64_def upd_hdr_def upd_blk_def)
  from freeblock_find_needs_slack [OF s(2), of 100, OF _ _ len only]
  obtain t where "freeblock_find 100 s = Inr (0, t)" "well_formed t" by auto
  with s(1) sz show ?thesis by (auto simp: rm_free_def)
qed

text \<open>
  C12. The exact error condition of \<open>rm_malloc\<close>: on a well-formed heap a request of a
  non-negative \<open>int\<close> fails with an error if and only if the heap has no slot for its size, and
  the error is the read of a slot outside of the slot array.
\<close>

theorem rm_malloc_error_iff:
  assumes "well_formed s" and "0 \<le> n" and "n < 2 ^ 31"
  shows "rm_malloc n s = Inl e \<longleftrightarrow>
    e = Out_of_bounds \<and> length (slots s) \<le> rm_log2 (request_size (nat n))"
proof (cases "request_ok s (nat n)")
  case True
  from assms(1) obtain L P F where "wfs s L P F" by (auto simp: well_formed_def)
  from rm_malloc_wf [OF this assms(2) True] True show ?thesis by (auto simp: request_ok_def)
next
  case False
  with assms have "length (slots s) \<le> rm_log2 (request_size (nat n))"
    by (simp add: request_ok_def nat_less_iff)
  with rm_malloc_no_slot [OF assms this] show ?thesis by auto
qed

theorem rm_malloc_error_iff_witness:
  "rm_malloc 3000 demo_heap = Inl Out_of_bounds \<and> rm_malloc 3000 demo_heap \<noteq> Inl Abort"
proof -
  have "rm_log2 3000 = 11" by (rule rm_log2_eqI) simp_all
  with rm_malloc_error_iff [OF demo_heap_wf, of 3000 Out_of_bounds] show ?thesis
    by (simp add: demo_fields request_size_def)
qed

section \<open>Sequences of operations\<close>

text \<open>
  C13. What client operations reach from an initialised heap, by requests within the slots,
  operations on live blocks and compactions while there is one: a state is well-formed, or it comes
  after a compaction of a well-formed state that left the header on offer outside of the header
  array, and at that point withdrawing this header gives a well-formed state. So all operations keep
  the invariant but for that one way, which \<open>Rm_Offer\<close> shows to occur.
\<close>

theorem reachable_well_formed:
  assumes "rm_reachable start n s" and "init_ok start n"
  shows "well_formed s
    \<or> (\<exists>t u h clk mt. rm_reachable start n t \<and> well_formed t \<and> live t h \<and> rm_compact clk mt t = Inr u
        \<and> unused_header_root u \<noteq> 0 \<and> unused_header_root u < header_bottom u
        \<and> well_formed (withdraw_unused u) \<and> rm_step\<^sup>*\<^sup>* u s)"
  using reachable_wf [OF assms] unfolding offer_lost_def by blast

theorem reachable_well_formed_witness:
  "rm_reachable 1000 1024 demo_block
   \<and> (well_formed demo_block \<or> (\<exists>u. unused_header_root u < header_bottom u \<and> rm_step\<^sup>*\<^sup>* u demo_block))"
proof -
  have "rm_fits demo_heap 100" using demo_request [of 100] by (simp add: rm_fits_def)
  then have "rm_step demo_heap demo_block" using demo_malloc(1) by (rule step_malloc)
  with reach_init [of 1000 1024 zero_state] have "rm_reachable 1000 1024 demo_block"
    unfolding demo_heap_def by (rule reach_step)
  with reachable_well_formed [OF this demo_init_ok] show ?thesis by blast
qed

text \<open>
  C14. A client that only releases what it holds and asks for what the heap provides for never
  fails; the blocks it held at the start and has not released are at the same places at the end,
  and two blocks it holds at the end share no memory.
\<close>

theorem client_programs_run:
  assumes "well_formed s" and "ops_ok live rm_fits rm_malloc rm_free ops s"
  shows "\<exists>s'. run_ops rm_malloc rm_free ops s = Inr s' \<and> well_formed s'
    \<and> (\<forall>g. live s g \<and> Release g \<notin> set ops \<longrightarrow> live s' g \<and> extent s' g = extent s g)
    \<and> (\<forall>g h. live s' g \<and> live s' h \<and> g \<noteq> h \<longrightarrow> disjoint_extents (extent s' g) (extent s' h))"
proof -
  from rm_store.client_run [OF assms] obtain s' where
    r: "run_ops rm_malloc rm_free ops s = Inr s'" "well_formed s'"
      "\<forall>g. live s g \<and> Release g \<notin> set ops \<longrightarrow> live s' g \<and> extent s' g = extent s g" by blast
  with rm_store.client_run_apart [OF assms r(1)] show ?thesis by blast
qed

theorem client_programs_run_witness:
  "\<exists>s'. run_ops rm_malloc rm_free [Alloc 100, Release 1995] demo_heap = Inr s' \<and> well_formed s'"
proof -
  from rm_free_wf [OF demo_block_wf, of 1995] demo_block_live
  obtain t where "rm_free 1995 demo_block = Inr t" by auto
  then have "ops_ok live rm_fits rm_malloc rm_free [Alloc 100, Release 1995] demo_heap"
    using demo_request [of 100] demo_malloc(1) demo_block_live by (simp add: rm_fits_def)
  from client_programs_run [OF demo_heap_wf this] show ?thesis by blast
qed

section \<open>Parts\<close>

text \<open>
  C15. \<open>rm_header__sort\<close> on a list of up to \<open>2 ^ 31\<close> headers ends, and what it returns is
  the list sorted stably by address, the headers without memory last; it writes nothing but
  the links of the headers of the list.
\<close>

theorem rm_header__sort_sorts:
  assumes "chain (nxt s) root xs 0" and "length xs \<le> 2 ^ 31"
  shows "\<exists>root' s'. rm_header__sort root False d rm_header__cmp s = Inr (root', s')
    \<and> chain (nxt s') root' (sort_key (sort_address s) xs) 0 \<and> links_only (set xs) s s'"
  using assms by (rule rm_header__sort_spec)

theorem rm_header__sort_sorts_witness:
  "\<exists>s' t. rm_header__sort 40 False False rm_header__cmp
       (upd_hdr 80 (\<lambda>x. x\<lparr>h_memory := 5\<rparr>) (upd_hdr 40 (\<lambda>x. x\<lparr>h_memory := 9, h_next := 80\<rparr>)
         zero_state)) = Inr (80, s')
     \<and> chain (nxt s') 80 [80, 40] 0"
proof -
  let ?s = "upd_hdr 80 (\<lambda>x. x\<lparr>h_memory := 5\<rparr>) (upd_hdr 40 (\<lambda>x. x\<lparr>h_memory := 9, h_next := 80\<rparr>)
         zero_state)"
  have "chain (nxt ?s) 40 [40, 80] 0" by (simp add: zero_state_def zero_header_def)
  moreover have "sort_key (sort_address ?s) [40, 80] = [80, 40]"
    by (simp add: sort_key_def sort_address_def zero_state_def zero_header_def)
  ultimately show ?thesis using rm_header__sort_sorts [of ?s 40 "[40, 80]" False] by auto
qed

text \<open>
  C17. Compacting a heap that nothing has been allocated from reads outside of the heap: the
  sweep of the header array finds both headers unused and goes on past the top.
\<close>

theorem rm_compact_fresh_heap:
  assumes "init_ok start n"
  shows "rm_compact clk mt (rm_init start n s) = Inl Out_of_bounds"
  using assms by (rule rm_compact_fresh)

theorem rm_compact_fresh_heap_witness:
  "rm_compact (\<lambda>i. (i, 0)) 0 demo_heap = Inl Out_of_bounds"
  unfolding demo_heap_def by (rule rm_compact_fresh_heap [OF demo_init_ok])

text \<open>
  C19. A negative request is not refused. While a header is to be had, \<open>rm_malloc\<close> of \<open>-k\<close>
  succeeds and lowers \<open>memory_top\<close> by \<open>k\<close>, into the blocks already handed out.
\<close>

theorem rm_malloc_negative_lowers_top:
  assumes "well_formed s" and "0 < k" and "k \<le> 2 ^ 31" and "k \<le> memory_top s"
    and "unused_header_root s \<noteq> 0 \<or> memory_top s + 2 * sizeof_rm_header_t < header_bottom s"
    and "sizeof_rm_header_t \<le> k"
  shows "\<exists>h s'. rm_malloc (- int k) s = Inr (h, s') \<and> h \<noteq> 0
    \<and> memory_top s' = memory_top s - k"
  using assms by (rule rm_malloc_negative)

theorem rm_malloc_negative_lowers_top_witness:
  "\<exists>h s'. rm_malloc (- 100) demo_block = Inr (h, s') \<and> h \<noteq> 0
    \<and> memory_top s' = memory_bottom demo_heap"
  using rm_malloc_negative_lowers_top [OF demo_block_wf, of 100]
  by (simp add: demo_malloc demo_fields)

end
